(* ===== verification/Prelude.thy ===== *)
theory Prelude
  imports Main "HOL-Library.Word" "HOL-Library.Monad_Syntax"
begin

text \<open>
  Shared vocabulary of the development: the machine types of the C++ sources, the model of a run
  that aborts (a failed \<open>assert\<close>, a division by zero, an access outside a memory block), memory
  blocks as byte lists with a bounds-checked \<open>memcpy\<close>, and the list and option lemmas the
  components share.
\<close>

section \<open>Machine types\<close>

type_synonym byte = "8 word"
type_synonym char16 = "16 word"
type_synonym uint32 = "32 word"
type_synonym int32 = "32 word"
type_synonym int64 = "64 word"
type_synonym size64 = "64 word"

section \<open>Runs that abort\<close>

text \<open>
  An operation that may abort has a result in \<open>option\<close>: \<open>None\<close> stands for a failed
  \<open>assert\<close> or for undefined behaviour (the run has no result), \<open>Some\<close> for the result of a
  run that returned. The \<open>do\<close> notation of the library sequences such operations.
\<close>

named_theorems abort_simps \<open>rewriting of aborting operations\<close>

definition assert_that :: "bool \<Rightarrow> unit option" where
  "assert_that P = (if P then Some () else None)"

definition checked_mod :: "nat \<Rightarrow> nat \<Rightarrow> nat option" where
  "checked_mod x n = (if n = 0 then None else Some (x mod n))"

lemma assert_that_eq_Some [simp]: "assert_that P = Some u \<longleftrightarrow> P"
  by (simp add: assert_that_def)

lemma assert_that_eq_None [simp]: "assert_that P = None \<longleftrightarrow> \<not> P"
  by (simp add: assert_that_def)

lemma assert_that_True [simp, abort_simps]: "P \<Longrightarrow> assert_that P = Some ()"
  by simp

lemma assert_that_False [simp, abort_simps]: "\<not> P \<Longrightarrow> assert_that P = None"
  by simp

lemma checked_mod_pos [simp, abort_simps]: "0 < n \<Longrightarrow> checked_mod x n = Some (x mod n)"
  by (simp add: checked_mod_def)

section \<open>Memory blocks\<close>

text \<open>
  A block of memory is the list of its bytes. \<open>load mem pos n\<close> is a \<open>memcpy\<close> out of the
  block and \<open>store mem pos xs\<close> one into it; both have no result when they leave the block.
\<close>

definition load :: "'a list \<Rightarrow> nat \<Rightarrow> nat \<Rightarrow> 'a list option" where
  "load mem pos n = (if pos + n \<le> length mem then Some (take n (drop pos mem)) else None)"

definition store :: "'a list \<Rightarrow> nat \<Rightarrow> 'a list \<Rightarrow> 'a list option" where
  "store mem pos xs = (if pos + length xs \<le> length mem
     then Some (take pos mem @ xs @ drop (pos + length xs) mem) else None)"

lemma load_Some [simp]: "pos + n \<le> length mem \<Longrightarrow> load mem pos n = Some (take n (drop pos mem))"
  by (simp add: load_def)

lemma load_length: "load mem pos n = Some xs \<Longrightarrow> length xs = n"
  by (auto simp: load_def split: if_splits)

lemma store_Some [simp]: "pos + length xs \<le> length mem \<Longrightarrow>
    store mem pos xs = Some (take pos mem @ xs @ drop (pos + length xs) mem)"
  by (simp add: store_def)

lemma store_length: "store mem pos xs = Some mem' \<Longrightarrow> length mem' = length mem"
  by (auto simp: store_def split: if_splits)

lemma load_store:
  assumes "store mem pos xs = Some mem'"
  shows "load mem' pos (length xs) = Some xs"
  using assms by (auto simp: store_def load_def split: if_splits)

section \<open>Lists\<close>

lemma take_append_drop_take: "take m xs @ take n (drop m xs) = take (m + n) xs"
  by (simp add: take_add)

lemma take_drop_append: "m \<le> length xs \<Longrightarrow> take n (drop m (xs @ ys)) = take n (drop m xs @ ys)"
  by simp

text \<open>
  \<open>first_index P xs i\<close> is the loop that counts \<open>i\<close> upwards over an array until it finds an
  element that satisfies \<open>P\<close>.
\<close>

fun first_index :: "('a \<Rightarrow> bool) \<Rightarrow> 'a list \<Rightarrow> nat \<Rightarrow> nat option" where
  "first_index P [] i = None"
| "first_index P (x # xs) i = (if P x then Some i else first_index P xs (Suc i))"

lemma first_index_None: "first_index P xs i = None \<longleftrightarrow> (\<forall>x \<in> set xs. \<not> P x)"
  by (induction xs arbitrary: i) auto

lemma first_index_Some:
  "first_index P xs i = Some j \<Longrightarrow> i \<le> j \<and> j - i < length xs \<and> P (xs ! (j - i)) \<and>
    (\<forall>k < j - i. \<not> P (xs ! k))"
proof (induction xs arbitrary: i)
  case Nil
  then show ?case by simp
next
  case (Cons x xs)
  show ?case
  proof (cases "P x")
    case True
    with Cons.prems show ?thesis by simp
  next
    case False
    with Cons.prems Cons.IH [of "Suc i"] have IH: "Suc i \<le> j" "j - Suc i < length xs"
      "P (xs ! (j - Suc i))" "\<forall>k < j - Suc i. \<not> P (xs ! k)" by auto
    then have "j - i = Suc (j - Suc i)" by simp
    with IH False show ?thesis
      by (auto simp: less_Suc_eq_0_disj)
  qed
qed

lemma first_index_append:
  "\<forall>x \<in> set xs. \<not> P x \<Longrightarrow> first_index P (xs @ ys) i = first_index P ys (i + length xs)"
  by (induction xs arbitrary: i) auto

lemma list_update_append_here: "(xs @ y # ys)[length xs := z] = xs @ z # ys"
  by simp

section \<open>Integers in memory\<close>

text \<open>
  The \<open>n\<close> bytes of a machine integer, least significant byte first (the byte order of the x86
  targets of the sources), and the integer that bytes denote.
\<close>

primrec word_bytes :: "nat \<Rightarrow> 'a::len word \<Rightarrow> byte list" where
  "word_bytes 0 w = []"
| "word_bytes (Suc n) w = ucast w # word_bytes n (drop_bit 8 w)"

definition word_of_bytes :: "byte list \<Rightarrow> 'a::len word" where
  "word_of_bytes bs = foldr (\<lambda>b w. or (ucast b) (push_bit 8 w)) bs 0"

definition int_bytes :: "int32 \<Rightarrow> byte list" where
  "int_bytes = word_bytes 4"

definition int64_bytes :: "int64 \<Rightarrow> byte list" where
  "int64_bytes = word_bytes 8"

lemma length_word_bytes [simp]: "length (word_bytes n w) = n"
  by (induction n arbitrary: w) auto

lemma length_int_bytes [simp]: "length (int_bytes w) = 4" "length (int64_bytes v) = 8"
  by (simp_all add: int_bytes_def int64_bytes_def)

lemma word_of_word_bytes: "word_of_bytes (word_bytes n w) = take_bit (8 * n) w"
proof (induction n arbitrary: w)
  case (Suc n)
  have "or (ucast (ucast w :: byte)) (push_bit 8 (take_bit (8 * n) (drop_bit 8 w))) = take_bit (8 * Suc n) w"
    by (rule bit_word_eqI) (auto simp: bit_simps)
  with Suc show ?case by (simp add: word_of_bytes_def)
qed (simp add: word_of_bytes_def)

lemma word_of_int_bytes [simp]:
  "word_of_bytes (int_bytes w) = w" "word_of_bytes (int64_bytes v) = v"
  by (simp_all add: int_bytes_def int64_bytes_def word_of_word_bytes take_bit_word_eq_self)

end
