(* ===== verification/ByteFifo.thy ===== *)
theory ByteFifo
  imports Prelude
begin

text \<open>
  The interface a byte transport offers to the packet layer: a bounded queue that accepts as much
  of a write as fits and hands out as much of a read as is there. The lemmas here are what a client
  of such a queue needs; the circular buffer of the sources is its implementation.
\<close>

locale byte_fifo =
  fixes inv :: "'q \<Rightarrow> bool"
    and content :: "'q \<Rightarrow> 'a list"
    and cap :: "'q \<Rightarrow> nat"
    and wr :: "'q \<Rightarrow> 'a list \<Rightarrow> nat \<Rightarrow> (nat \<times> 'q) option"
    and rd :: "'q \<Rightarrow> nat \<Rightarrow> (nat \<times> 'a list \<times> 'q) option"
  assumes bounded: "inv q \<Longrightarrow> length (content q) \<le> cap q"
    and rd_law: "inv q \<Longrightarrow>
      \<exists>q'. rd q n = Some (min n (length (content q)), take n (content q), q') \<and>
        inv q' \<and> cap q' = cap q \<and> content q' = drop n (content q)"
    and wr_law: "inv q \<Longrightarrow> n \<le> length xs \<Longrightarrow>
      \<exists>q'. wr q xs n = Some (min n (cap q - length (content q)), q') \<and>
        inv q' \<and> cap q' = cap q \<and>
        content q' = content q @ take (min n (cap q - length (content q))) xs"
begin

lemma write_all:
  assumes "inv q" and "length (content q) + length xs \<le> cap q"
  shows "\<exists>q'. wr q xs (length xs) = Some (length xs, q') \<and> inv q' \<and> cap q' = cap q \<and>
    content q' = content q @ xs"
proof -
  have "min (length xs) (cap q - length (content q)) = length xs"
    using assms(2) by simp
  with wr_law [OF assms(1), of "length xs" xs] show ?thesis by simp
qed

lemma read_prefix:
  assumes "inv q" and "content q = xs @ ys"
  shows "\<exists>q'. rd q (length xs) = Some (length xs, xs, q') \<and> inv q' \<and> cap q' = cap q \<and>
    content q' = ys"
  using rd_law [OF assms(1), of "length xs"] assms(2) by simp

lemma write_then_read:
  assumes "inv q" and "length (content q) + length xs \<le> cap q"
  shows "\<exists>q1 q2. wr q xs (length xs) = Some (length xs, q1) \<and>
    rd q1 (length (content q) + length xs) =
      Some (length (content q) + length xs, content q @ xs, q2) \<and>
    inv q2 \<and> cap q2 = cap q \<and> content q2 = []"
proof -
  from write_all [OF assms] obtain q1 where q1: "wr q xs (length xs) = Some (length xs, q1)"
    "inv q1" "cap q1 = cap q" "content q1 = (content q @ xs) @ []" by auto
  from read_prefix [OF q1(2,4)] q1 show ?thesis by auto
qed

lemma full_write_refused:
  assumes "inv q" and "length (content q) = cap q" and "n \<le> length xs"
  shows "\<exists>q'. wr q xs n = Some (0, q') \<and> inv q' \<and> content q' = content q"
  using wr_law [OF assms(1,3)] assms(2) by auto

end

end
