(* ===== verification/CircularBuffer.thy ===== *)
theory CircularBuffer
  imports ByteFifo
begin

text \<open>
  The circular byte buffer of \<open>src/common/circular_buffer.h\<close>, the carrier of the inter-process
  message queue. The memory block it works on is not owned by the class; here it is the byte list
  \<open>cb_buffer\<close>. The \<open>size_t\<close> positions are natural numbers: every intermediate value of
  the class is below twice the size of the block (\<open>cb_positions_bounded\<close>), so 64-bit arithmetic
  does not wrap.
\<close>

section \<open>State and operations\<close>

record cbuf =
  cb_head :: nat
  cb_tail :: nat
  cb_capacity :: nat
  cb_buf_size :: nat
  cb_buffer :: "byte list option"

definition cb_new :: cbuf where
  "cb_new = \<lparr>cb_head = 0, cb_tail = 0, cb_capacity = 0, cb_buf_size = 0, cb_buffer = None\<rparr>"

definition cb_min :: "nat \<Rightarrow> nat \<Rightarrow> nat" where
  "cb_min a b = (if a < b then a else b)"

definition cb_set_buffer :: "byte list option \<Rightarrow> nat \<Rightarrow> cbuf \<Rightarrow> cbuf option" where
  "cb_set_buffer buffer sz cb = do {
     assert_that ((buffer \<noteq> None \<and> sz \<noteq> 0) \<or> (buffer = None \<and> sz = 0));
     Some (cb\<lparr>cb_buffer := buffer, cb_buf_size := sz,
              cb_capacity := (if buffer \<noteq> None then sz - 1 else 0),
              cb_head := 0, cb_tail := 0\<rparr>)
   }"

definition cb_set_head :: "nat \<Rightarrow> cbuf \<Rightarrow> bool \<times> cbuf" where
  "cb_set_head head cb =
     (if cb_buffer cb = None \<or> cb_buf_size cb \<le> head then (False, cb)
      else (True, cb\<lparr>cb_head := head\<rparr>))"

definition cb_set_tail :: "nat \<Rightarrow> cbuf \<Rightarrow> bool \<times> cbuf" where
  "cb_set_tail tail cb =
     (if cb_buffer cb = None \<or> cb_buf_size cb \<le> tail then (False, cb)
      else (True, cb\<lparr>cb_tail := tail\<rparr>))"

definition cb_is_empty :: "cbuf \<Rightarrow> bool" where
  "cb_is_empty cb \<longleftrightarrow> cb_tail cb = cb_head cb"

definition cb_is_full :: "cbuf \<Rightarrow> bool option" where
  "cb_is_full cb = do {
     nxt \<leftarrow> checked_mod (cb_tail cb + 1) (cb_buf_size cb);
     Some (nxt = cb_head cb)
   }"

definition cb_data_available :: "cbuf \<Rightarrow> nat" where
  "cb_data_available cb =
     (if cb_tail cb \<ge> cb_head cb then cb_tail cb - cb_head cb
      else cb_buf_size cb - cb_head cb + cb_tail cb)"

definition cb_space_available :: "cbuf \<Rightarrow> nat" where
  "cb_space_available cb = cb_capacity cb - cb_data_available cb"

definition cb_contiguous_data_available :: "cbuf \<Rightarrow> nat" where
  "cb_contiguous_data_available cb =
     (if cb_tail cb \<ge> cb_head cb then cb_tail cb - cb_head cb
      else cb_buf_size cb - cb_head cb)"

definition cb_contiguous_space_available :: "cbuf \<Rightarrow> nat option" where
  "cb_contiguous_space_available cb = do {
     full \<leftarrow> cb_is_full cb;
     Some (if full then 0
           else if cb_head cb > cb_tail cb then cb_head cb - cb_tail cb - 1
           else let contig = cb_buf_size cb - cb_tail cb
                in if cb_head cb = 0 then contig - 1 else contig)
   }"

definition cb_advance_head :: "nat \<Rightarrow> cbuf \<Rightarrow> (nat \<times> cbuf) option" where
  "cb_advance_head amt0 cb = do {
     let amt = cb_min amt0 (cb_data_available cb);
     h \<leftarrow> checked_mod (cb_head cb + amt) (cb_buf_size cb);
     Some (amt, cb\<lparr>cb_head := h\<rparr>)
   }"

definition cb_advance_tail :: "nat \<Rightarrow> cbuf \<Rightarrow> (nat \<times> cbuf) option" where
  "cb_advance_tail amt0 cb = do {
     let amt = cb_min amt0 (cb_space_available cb);
     t \<leftarrow> checked_mod (cb_tail cb + amt) (cb_buf_size cb);
     Some (amt, cb\<lparr>cb_tail := t\<rparr>)
   }"

text \<open>
  The loop of \<open>read\<close>: \<open>out\<close> is what has been copied to \<open>data\<close> so far, \<open>iters\<close>
  the debug counter the source bounds by two.
\<close>

function cb_read_loop :: "cbuf \<Rightarrow> byte list \<Rightarrow> nat \<Rightarrow> nat \<Rightarrow> (cbuf \<times> byte list) option" where
  "cb_read_loop cb out remaining iters =
     (if remaining > 0 then do {
        assert_that (iters + 1 \<le> 2);
        let read_amount = cb_min remaining (cb_contiguous_data_available cb);
        assert_that (read_amount \<noteq> 0);
        mem \<leftarrow> cb_buffer cb;
        chunk \<leftarrow> load mem (cb_head cb) read_amount;
        h \<leftarrow> checked_mod (cb_head cb + read_amount) (cb_buf_size cb);
        cb_read_loop (cb\<lparr>cb_head := h\<rparr>) (out @ chunk) (remaining - read_amount) (iters + 1)
      } else Some (cb, out))"
  by pat_completeness auto
termination
  by (relation "measure (\<lambda>(cb, out, remaining, iters). 2 - iters)") auto

definition cb_read :: "cbuf \<Rightarrow> nat \<Rightarrow> (nat \<times> byte list \<times> cbuf) option" where
  "cb_read cb sz0 = do {
     let sz = cb_min sz0 (cb_data_available cb);
     (cb', out) \<leftarrow> cb_read_loop cb [] sz 0;
     Some (sz, out, cb')
   }"

definition cb_peek :: "cbuf \<Rightarrow> nat \<Rightarrow> (nat \<times> byte list \<times> cbuf) option" where
  "cb_peek cb sz0 = do {
     let saved = cb_head cb;
     (sz, out, cb') \<leftarrow> cb_read cb sz0;
     Some (sz, out, cb'\<lparr>cb_head := saved\<rparr>)
   }"

text \<open>The loop of \<open>write\<close>: \<open>data\<close> is the source pointer, advanced past what was copied.\<close>

function cb_write_loop :: "cbuf \<Rightarrow> byte list \<Rightarrow> nat \<Rightarrow> nat \<Rightarrow> cbuf option" where
  "cb_write_loop cb data remaining iters =
     (if remaining > 0 then do {
        assert_that (iters + 1 \<le> 2);
        contig \<leftarrow> cb_contiguous_space_available cb;
        let write_amount = cb_min remaining contig;
        assert_that (write_amount \<noteq> 0);
        mem \<leftarrow> cb_buffer cb;
        chunk \<leftarrow> load data 0 write_amount;
        mem' \<leftarrow> store mem (cb_tail cb) chunk;
        t \<leftarrow> checked_mod (cb_tail cb + write_amount) (cb_buf_size cb);
        cb_write_loop (cb\<lparr>cb_buffer := Some mem', cb_tail := t\<rparr>) (drop write_amount data)
          (remaining - write_amount) (iters + 1)
      } else Some cb)"
  by pat_completeness auto
termination
  by (relation "measure (\<lambda>(cb, data, remaining, iters). 2 - iters)") auto

definition cb_write :: "cbuf \<Rightarrow> byte list \<Rightarrow> nat \<Rightarrow> (nat \<times> cbuf) option" where
  "cb_write cb data sz0 = do {
     let sz = cb_min sz0 (cb_space_available cb);
     cb' \<leftarrow> cb_write_loop cb data sz 0;
     Some (sz, cb')
   }"

declare cb_read_loop.simps [simp del] cb_write_loop.simps [simp del]

section \<open>Invariant and abstract content\<close>

text \<open>
  A buffer that was given a block by \<open>set_buffer\<close> is well formed: the positions lie inside the
  block and one byte of it is never used. Its content is the byte queue between head and tail.
\<close>

definition cb_wf :: "cbuf \<Rightarrow> bool" where
  "cb_wf cb \<longleftrightarrow> (case cb_buffer cb of None \<Rightarrow> False
     | Some mem \<Rightarrow> length mem = cb_buf_size cb \<and> 0 < cb_buf_size cb \<and>
         cb_capacity cb = cb_buf_size cb - 1 \<and>
         cb_head cb < cb_buf_size cb \<and> cb_tail cb < cb_buf_size cb)"

definition cb_content :: "cbuf \<Rightarrow> byte list" where
  "cb_content cb = (case cb_buffer cb of None \<Rightarrow> []
     | Some mem \<Rightarrow>
         if cb_head cb \<le> cb_tail cb
         then take (cb_tail cb - cb_head cb) (drop (cb_head cb) mem)
         else drop (cb_head cb) mem @ take (cb_tail cb) mem)"

lemma cb_wfE:
  assumes "cb_wf cb"
  obtains mem where "cb_buffer cb = Some mem" "length mem = cb_buf_size cb" "0 < cb_buf_size cb"
    "cb_capacity cb = cb_buf_size cb - 1" "cb_head cb < cb_buf_size cb" "cb_tail cb < cb_buf_size cb"
  using assms by (auto simp: cb_wf_def split: option.splits)

lemma cb_min_min [simp]: "cb_min a b = min a b"
  by (simp add: cb_min_def)

lemma length_cb_content: "cb_wf cb \<Longrightarrow> length (cb_content cb) = cb_data_available cb"
  by (erule cb_wfE) (auto simp: cb_content_def cb_data_available_def)

lemma cb_content_bound: "cb_wf cb \<Longrightarrow> length (cb_content cb) \<le> cb_capacity cb"
  by (erule cb_wfE) (auto simp: cb_content_def)

text \<open>Positions wrap at most once: the arithmetic of \<open>% buf_size_\<close> on in-range positions.\<close>

lemma mod_wrap: "x < n \<Longrightarrow> x + k \<le> n \<Longrightarrow> (x + k) mod n = (if x + k = n then 0 else x + (k::nat))"
  by auto


lemma Suc_wrap: "x < n \<Longrightarrow> Suc x mod n = (if Suc x = n then 0 else Suc x)"
  by auto

lemma cb_read_step:
  assumes "cb_wf cb" "n \<le> cb_contiguous_data_available cb"
  shows "\<exists>mem. cb_buffer cb = Some mem \<and> load mem (cb_head cb) n = Some (take n (cb_content cb)) \<and>
    cb_wf (cb\<lparr>cb_head := (cb_head cb + n) mod cb_buf_size cb\<rparr>) \<and>
    cb_content (cb\<lparr>cb_head := (cb_head cb + n) mod cb_buf_size cb\<rparr>) = drop n (cb_content cb)"
  using assms
  by (elim cb_wfE)
    (auto simp: cb_content_def cb_contiguous_data_available_def cb_wf_def mod_wrap min_def
       drop_take add.commute split: if_splits)

lemma cb_is_full_eq:
  "cb_wf cb \<Longrightarrow> cb_is_full cb = Some (cb_data_available cb = cb_capacity cb)"
  by (erule cb_wfE)
    (auto simp: cb_is_full_def cb_data_available_def Suc_wrap split: if_splits)

lemma cb_contiguous_space_eq:
  assumes "cb_wf cb"
  shows "cb_contiguous_space_available cb =
    Some (if cb_head cb > cb_tail cb then cb_head cb - cb_tail cb - 1
          else if cb_head cb = 0 then cb_buf_size cb - cb_tail cb - 1
          else cb_buf_size cb - cb_tail cb)"
  using assms
  by (elim cb_wfE)
    (auto simp: cb_contiguous_space_available_def cb_is_full_eq [OF assms] cb_data_available_def Let_def)

lemma cb_write_step:
  assumes wf: "cb_wf cb" and c: "cb_contiguous_space_available cb = Some c" "length xs \<le> c"
  shows "\<exists>mem mem'. cb_buffer cb = Some mem \<and> store mem (cb_tail cb) xs = Some mem' \<and>
    cb_wf (cb\<lparr>cb_buffer := Some mem', cb_tail := (cb_tail cb + length xs) mod cb_buf_size cb\<rparr>) \<and>
    cb_content (cb\<lparr>cb_buffer := Some mem', cb_tail := (cb_tail cb + length xs) mod cb_buf_size cb\<rparr>)
      = cb_content cb @ xs"
proof -
  from wf obtain mem where m: "cb_buffer cb = Some mem" "length mem = cb_buf_size cb"
    "0 < cb_buf_size cb" "cb_capacity cb = cb_buf_size cb - 1"
    "cb_head cb < cb_buf_size cb" "cb_tail cb < cb_buf_size cb" by (rule cb_wfE)
  have len: "length xs \<le> (if cb_head cb > cb_tail cb then cb_head cb - cb_tail cb - 1
          else if cb_head cb = 0 then cb_buf_size cb - cb_tail cb - 1
          else cb_buf_size cb - cb_tail cb)"
    using c cb_contiguous_space_eq [OF wf] by simp
  then have fit: "cb_tail cb + length xs \<le> cb_buf_size cb"
    using m by (auto split: if_splits)
  let ?mem' = "take (cb_tail cb) mem @ xs @ drop (cb_tail cb + length xs) mem"
  let ?cb' = "cb\<lparr>cb_buffer := Some ?mem', cb_tail := (cb_tail cb + length xs) mod cb_buf_size cb\<rparr>"
  have st: "store mem (cb_tail cb) xs = Some ?mem'"
    using fit m by simp
  moreover have "cb_wf ?cb'"
    using m fit by (simp add: cb_wf_def)
  moreover have "cb_content ?cb' = cb_content cb @ xs"
  proof (cases "cb_head cb > cb_tail cb")
    case True
    with len m show ?thesis by (auto simp: cb_content_def mod_wrap)
  next
    case False
    then show ?thesis
    proof (cases "cb_tail cb + length xs = cb_buf_size cb")
      case True
      with False len m have h: "0 < cb_head cb" by (auto split: if_splits)
      from True False h m show ?thesis by (auto simp: cb_content_def drop_take)
    next
      case nowrap: False
      with fit have lt: "cb_tail cb + length xs < cb_buf_size cb" by simp
      with False m show ?thesis by (auto simp: cb_content_def drop_take)
    qed
  qed
  ultimately show ?thesis using m(1) by blast
qed


lemma cb_loop_done [simp]:
  "cb_read_loop cb out 0 iters = Some (cb, out)" "cb_write_loop cb xs 0 iters = Some cb"
  by (simp_all add: cb_read_loop.simps [of cb out 0] cb_write_loop.simps [of cb xs 0])

lemma cb_buffer_same [simp]: "cb_buffer cb = b \<Longrightarrow> cb\<lparr>cb_buffer := b\<rparr> = cb"
  by (cases cb) simp

lemma cb_read_loop_last:
  assumes wf: "cb_wf cb" and n: "n \<le> cb_contiguous_data_available cb" "iters \<le> 1"
  shows "\<exists>h. cb_read_loop cb out n iters = Some (cb\<lparr>cb_head := h\<rparr>, out @ take n (cb_content cb)) \<and>
    cb_wf (cb\<lparr>cb_head := h\<rparr>) \<and> cb_content (cb\<lparr>cb_head := h\<rparr>) = drop n (cb_content cb)"
proof (cases "n = 0")
  case True
  then show ?thesis using wf
    by (intro exI [of _ "cb_head cb"]) simp
next
  case False
  from cb_read_step [OF wf n(1)] obtain mem where m: "cb_buffer cb = Some mem"
    "load mem (cb_head cb) n = Some (take n (cb_content cb))"
    "cb_wf (cb\<lparr>cb_head := (cb_head cb + n) mod cb_buf_size cb\<rparr>)"
    "cb_content (cb\<lparr>cb_head := (cb_head cb + n) mod cb_buf_size cb\<rparr>) = drop n (cb_content cb)"
    by blast
  have "0 < cb_buf_size cb" using wf by (rule cb_wfE)
  with False m n show ?thesis
    by (intro exI [of _ "(cb_head cb + n) mod cb_buf_size cb"])
      (simp add: cb_read_loop.simps [of cb out n] min_absorb1)
qed

lemma cb_read_loop_ok:
  assumes wf: "cb_wf cb" and n: "n \<le> cb_data_available cb"
  shows "\<exists>h. cb_read_loop cb out n 0 = Some (cb\<lparr>cb_head := h\<rparr>, out @ take n (cb_content cb)) \<and>
    cb_wf (cb\<lparr>cb_head := h\<rparr>) \<and> cb_content (cb\<lparr>cb_head := h\<rparr>) = drop n (cb_content cb)"
proof (cases "n \<le> cb_contiguous_data_available cb")
  case True
  with wf show ?thesis by (intro cb_read_loop_last) auto
next
  case False
  let ?c = "cb_contiguous_data_available cb"
  let ?h = "(cb_head cb + ?c) mod cb_buf_size cb"
  let ?cb = "cb\<lparr>cb_head := ?h\<rparr>"
  from wf obtain mem0 where m0: "0 < cb_buf_size cb" "cb_head cb < cb_buf_size cb" "cb_tail cb < cb_buf_size cb"
    by (rule cb_wfE)
  have wrap: "cb_tail cb < cb_head cb" "?h = 0" "?c \<noteq> 0"
    using False n m0 by (auto simp: cb_contiguous_data_available_def cb_data_available_def split: if_splits)
  from cb_read_step [OF wf order_refl] obtain mem where m: "cb_buffer cb = Some mem"
    "load mem (cb_head cb) ?c = Some (take ?c (cb_content cb))"
    "cb_wf ?cb" "cb_content ?cb = drop ?c (cb_content cb)"
    by blast
  have rest: "n - ?c \<le> cb_contiguous_data_available ?cb"
    using n wrap by (simp add: cb_contiguous_data_available_def cb_data_available_def)
  have step: "cb_read_loop cb out n 0 = cb_read_loop ?cb (out @ take ?c (cb_content cb)) (n - ?c) 1"
    using False m wrap m0 by (simp add: cb_read_loop.simps [of cb out n] Let_def)
  from cb_read_loop_last [OF m(3) rest, of 1 "out @ take ?c (cb_content cb)"] obtain h where
    "cb_read_loop ?cb (out @ take ?c (cb_content cb)) (n - ?c) 1 =
       Some (cb\<lparr>cb_head := h\<rparr>, out @ take n (cb_content cb))"
    "cb_wf (cb\<lparr>cb_head := h\<rparr>)" "cb_content (cb\<lparr>cb_head := h\<rparr>) = drop n (cb_content cb)"
    using False by (auto simp: m(4) take_append_drop_take)
  with step show ?thesis by auto
qed

lemma cb_read_ok:
  assumes wf: "cb_wf cb"
  shows "\<exists>h. cb_read cb n = Some (min n (cb_data_available cb), take n (cb_content cb), cb\<lparr>cb_head := h\<rparr>) \<and>
    cb_wf (cb\<lparr>cb_head := h\<rparr>) \<and> cb_content (cb\<lparr>cb_head := h\<rparr>) = drop n (cb_content cb)"
proof -
  from cb_read_loop_ok [OF wf, of "min n (cb_data_available cb)" "[]"] obtain h where h:
    "cb_read_loop cb [] (min n (cb_data_available cb)) 0 =
       Some (cb\<lparr>cb_head := h\<rparr>, take (min n (cb_data_available cb)) (cb_content cb))"
    "cb_wf (cb\<lparr>cb_head := h\<rparr>)"
    "cb_content (cb\<lparr>cb_head := h\<rparr>) = drop (min n (cb_data_available cb)) (cb_content cb)"
    by auto
  moreover have "take (min n (cb_data_available cb)) (cb_content cb) = take n (cb_content cb)"
    "drop (min n (cb_data_available cb)) (cb_content cb) = drop n (cb_content cb)"
    using length_cb_content [OF wf] by (auto simp: min_def)
  ultimately show ?thesis by (auto simp: cb_read_def)
qed

lemma cb_write_loop_last:
  assumes wf: "cb_wf cb" and c: "cb_contiguous_space_available cb = Some c"
    and n: "n \<le> c" "n \<le> length xs" "iters \<le> 1"
  shows "\<exists>cb'. cb_write_loop cb xs n iters = Some cb' \<and> cb_wf cb' \<and>
    cb_content cb' = cb_content cb @ take n xs \<and>
    cb_head cb' = cb_head cb \<and> cb_buf_size cb' = cb_buf_size cb"
proof (cases "n = 0")
  case True
  from wf obtain mem where "cb_buffer cb = Some mem" by (rule cb_wfE)
  then show ?thesis using wf True
    by simp
next
  case False
  have len: "length (take n xs) = n" using n by simp
  from cb_write_step [OF wf c, of "take n xs"] n obtain mem mem' where m: "cb_buffer cb = Some mem"
    "store mem (cb_tail cb) (take n xs) = Some mem'"
    "cb_wf (cb\<lparr>cb_buffer := Some mem', cb_tail := (cb_tail cb + n) mod cb_buf_size cb\<rparr>)"
    "cb_content (cb\<lparr>cb_buffer := Some mem', cb_tail := (cb_tail cb + n) mod cb_buf_size cb\<rparr>)
       = cb_content cb @ take n xs"
    unfolding len by blast
  have "0 < cb_buf_size cb" using wf by (rule cb_wfE)
  with False m n c show ?thesis
    by (simp add: cb_write_loop.simps [of cb xs n] min_absorb1)
qed

lemma cb_write_loop_ok:
  assumes wf: "cb_wf cb" and n: "n \<le> cb_space_available cb" "n \<le> length xs"
  shows "\<exists>cb'. cb_write_loop cb xs n 0 = Some cb' \<and> cb_wf cb' \<and>
    cb_content cb' = cb_content cb @ take n xs \<and>
    cb_head cb' = cb_head cb \<and> cb_buf_size cb' = cb_buf_size cb"
proof -
  obtain c where c: "cb_contiguous_space_available cb = Some c"
    using cb_contiguous_space_eq [OF wf] by blast
  show ?thesis
  proof (cases "n \<le> c")
    case True
    show ?thesis by (rule cb_write_loop_last [OF wf c True n(2)]) simp
  next
    case False
    let ?t = "(cb_tail cb + c) mod cb_buf_size cb"
    from wf obtain mem0 where m0: "0 < cb_buf_size cb" "cb_head cb < cb_buf_size cb"
      "cb_tail cb < cb_buf_size cb" "cb_capacity cb = cb_buf_size cb - 1" by (rule cb_wfE)
    have cval: "c = (if cb_head cb > cb_tail cb then cb_head cb - cb_tail cb - 1
          else if cb_head cb = 0 then cb_buf_size cb - cb_tail cb - 1 else cb_buf_size cb - cb_tail cb)"
      using c cb_contiguous_space_eq [OF wf] by simp
    have wrap: "cb_head cb \<le> cb_tail cb" "0 < cb_head cb" "?t = 0" "c \<noteq> 0"
      using False n m0 cval
      by (auto simp: cb_space_available_def cb_data_available_def split: if_splits)
    have len: "length (take c xs) = c" using False n by simp
    from cb_write_step [OF wf c, of "take c xs"] obtain mem mem' where m: "cb_buffer cb = Some mem"
      "store mem (cb_tail cb) (take c xs) = Some mem'"
      "cb_wf (cb\<lparr>cb_buffer := Some mem', cb_tail := ?t\<rparr>)"
      "cb_content (cb\<lparr>cb_buffer := Some mem', cb_tail := ?t\<rparr>) = cb_content cb @ take c xs"
      unfolding len by blast
    let ?cb = "cb\<lparr>cb_buffer := Some mem', cb_tail := ?t\<rparr>"
    have c': "cb_contiguous_space_available ?cb = Some (cb_head cb - 1)"
      using cb_contiguous_space_eq [OF m(3)] wrap by simp
    have rest: "n - c \<le> cb_head cb - 1"
      using n wrap cval m0 by (simp add: cb_space_available_def cb_data_available_def)
    have step: "cb_write_loop cb xs n 0 = cb_write_loop ?cb (drop c xs) (n - c) 1"
      using False m wrap m0 c n by (simp add: cb_write_loop.simps [of cb xs n] Let_def)
    have "n - c \<le> length (drop c xs)" using n by simp
    from cb_write_loop_last [OF m(3) c' rest this, of 1] show ?thesis
      using False by (simp add: step m(4) take_append_drop_take)
  qed
qed

lemma cb_write_ok:
  assumes wf: "cb_wf cb" and n: "n \<le> length xs"
  shows "\<exists>cb'. cb_write cb xs n = Some (min n (cb_space_available cb), cb') \<and> cb_wf cb' \<and>
    cb_content cb' = cb_content cb @ take (min n (cb_space_available cb)) xs \<and>
    cb_head cb' = cb_head cb \<and> cb_buf_size cb' = cb_buf_size cb"
proof -
  have "min n (cb_space_available cb) \<le> length xs" using n by simp
  from cb_write_loop_ok [OF wf min.cobounded2 this] show ?thesis
    by (auto simp: cb_write_def Let_def)
qed


text \<open>No position computation of the class reaches twice the size of the block.\<close>

lemma cb_positions_bounded:
  assumes "cb_wf cb"
  shows "cb_tail cb + 1 \<le> cb_buf_size cb"
    and "cb_head cb + cb_min amt (cb_data_available cb) < 2 * cb_buf_size cb"
    and "cb_tail cb + cb_min amt (cb_space_available cb) < 2 * cb_buf_size cb"
  using assms by (auto elim!: cb_wfE simp: cb_space_available_def cb_data_available_def)

lemma cb_space_eq: "cb_wf cb \<Longrightarrow> cb_space_available cb = cb_capacity cb - length (cb_content cb)"
  by (simp add: cb_space_available_def length_cb_content)

lemma cb_is_empty_iff: "cb_wf cb \<Longrightarrow> cb_is_empty cb \<longleftrightarrow> cb_content cb = []"
  by (erule cb_wfE) (auto simp: cb_is_empty_def cb_content_def)

lemma cb_capacity_eq: "cb_wf cb \<Longrightarrow> cb_capacity cb = cb_buf_size cb - 1"
  by (erule cb_wfE)

section \<open>The circular buffer is a bounded byte queue\<close>

interpretation cbq: byte_fifo cb_wf cb_content cb_capacity cb_write cb_read
proof
  fix q :: cbuf and xs :: "byte list" and n
  assume wf: "cb_wf q"
  show "length (cb_content q) \<le> cb_capacity q"
    using wf by (rule cb_content_bound)
  show "\<exists>q'. cb_read q n = Some (min n (length (cb_content q)), take n (cb_content q), q') \<and>
      cb_wf q' \<and> cb_capacity q' = cb_capacity q \<and> cb_content q' = drop n (cb_content q)"
    using cb_read_ok [OF wf, of n] length_cb_content [OF wf] by auto
  assume "n \<le> length xs"
  from cb_write_ok [OF wf this] show "\<exists>q'. cb_write q xs n =
      Some (min n (cb_capacity q - length (cb_content q)), q') \<and> cb_wf q' \<and>
      cb_capacity q' = cb_capacity q \<and>
      cb_content q' = cb_content q @ take (min n (cb_capacity q - length (cb_content q))) xs"
    using wf by (auto simp: cb_space_eq cb_capacity_eq)
qed

section \<open>Properties\<close>

text \<open>
  C16. \<open>CircularBuffer::write\<close> never trips its assertions (at most two copies, none empty, none
  outside the block) on a well-formed buffer: it appends the first \<open>min size space\<close> bytes of
  the data to the queue and returns that number.
\<close>

theorem cb_write_appends:
  assumes "cb_wf cb" and "n \<le> length data"
  shows "\<exists>cb'. cb_write cb data n = Some (min n (cb_space_available cb), cb') \<and> cb_wf cb' \<and>
    cb_content cb' = cb_content cb @ take (min n (cb_space_available cb)) data \<and>
    cb_capacity cb' = cb_capacity cb"
  using cb_write_ok [OF assms] assms(1) by (auto simp: cb_capacity_eq)

text \<open>A wrapped buffer of eight bytes that holds three bytes and accepts four more.\<close>

definition cb_example :: cbuf where
  "cb_example = \<lparr>cb_head = 6, cb_tail = 1, cb_capacity = 7, cb_buf_size = 8,
     cb_buffer = Some [13, 0, 0, 0, 0, 0, 11, 12]\<rparr>"

lemma cb_example_wf: "cb_wf cb_example"
  by (simp add: cb_wf_def cb_example_def)

lemma cb_example_content: "cb_content cb_example = [11, 12, 13]"
  by (simp add: cb_content_def cb_example_def)

lemma cb_example_space: "cb_space_available cb_example = 4"
  by (simp add: cb_space_available_def cb_data_available_def cb_example_def)

theorem cb_write_appends_witness:
  "\<exists>cb'. cb_write cb_example [1, 2, 3, 4, 5] 5 = Some (4, cb') \<and> cb_wf cb' \<and>
    cb_content cb' = [11, 12, 13, 1, 2, 3, 4] \<and> cb_capacity cb' = 7"
  using cb_write_appends [OF cb_example_wf, of 5 "[1, 2, 3, 4, 5]"]
  by (simp add: cb_example_content cb_example_space) (simp add: cb_example_def)

text \<open>
  C17. \<open>CircularBuffer::read\<close> never trips its assertions on a well-formed buffer: it returns
  the oldest \<open>min size available\<close> bytes of the queue in order and removes exactly those;
  \<open>peek\<close> returns the same bytes and leaves the buffer as it was.
\<close>

theorem cb_read_removes:
  assumes "cb_wf cb"
  shows "\<exists>cb'. cb_read cb n = Some (min n (cb_data_available cb), take n (cb_content cb), cb') \<and>
    cb_wf cb' \<and> cb_content cb' = drop n (cb_content cb) \<and>
    cb_peek cb n = Some (min n (cb_data_available cb), take n (cb_content cb), cb)"
proof -
  from cb_read_ok [OF assms, of n] obtain h where
    h: "cb_read cb n = Some (min n (cb_data_available cb), take n (cb_content cb), cb\<lparr>cb_head := h\<rparr>)"
    "cb_wf (cb\<lparr>cb_head := h\<rparr>)" "cb_content (cb\<lparr>cb_head := h\<rparr>) = drop n (cb_content cb)"
    by blast
  then have "cb_peek cb n = Some (min n (cb_data_available cb), take n (cb_content cb), cb)"
    by (simp add: cb_peek_def Let_def)
  with h show ?thesis by blast
qed

theorem cb_read_removes_witness:
  "\<exists>cb'. cb_read cb_example 2 = Some (2, [11, 12], cb') \<and> cb_wf cb' \<and> cb_content cb' = [13] \<and>
    cb_peek cb_example 2 = Some (2, [11, 12], cb_example)"
  using cb_read_removes [OF cb_example_wf, of 2]
  by (simp add: cb_example_content cb_data_available_def) (simp add: cb_example_def)

text \<open>
  First in, first out: what \<open>write\<close> accepted comes out of \<open>read\<close> unchanged, behind
  everything that was in the buffer before, and the buffer is empty afterwards.
\<close>

theorem cb_fifo_round_trip:
  assumes "cb_wf cb" and "length data \<le> cb_space_available cb"
  shows "\<exists>cb1 cb2. cb_write cb data (length data) = Some (length data, cb1) \<and>
    cb_read cb1 (length (cb_content cb) + length data) =
      Some (length (cb_content cb) + length data, cb_content cb @ data, cb2) \<and>
    cb_wf cb2 \<and> cb_is_empty cb2"
proof -
  have "length (cb_content cb) + length data \<le> cb_capacity cb"
    using assms cb_content_bound [OF assms(1)] by (simp add: cb_space_eq)
  from cbq.write_then_read [OF assms(1) this] show ?thesis
    by (auto simp: cb_is_empty_iff)
qed

theorem cb_fifo_round_trip_witness:
  "\<exists>cb1 cb2. cb_write cb_example [1, 2] 2 = Some (2, cb1) \<and>
    cb_read cb1 5 = Some (5, [11, 12, 13, 1, 2], cb2) \<and> cb_wf cb2 \<and> cb_is_empty cb2"
  using cb_fifo_round_trip [OF cb_example_wf, of "[1, 2]"]
  by (simp add: cb_example_content cb_example_space numeral_eq_Suc)

end
