(* ===== verification/Utf.thy ===== *)
theory Utf
  imports Prelude
begin

text \<open>
  Conversion between UTF-16 strings (\<open>std::string16\<close>) and UTF-8:
  \<open>ConvertUTF16toUTF8\<close>, \<open>isLegalUTF8\<close> and \<open>ConvertUTF8toUTF16\<close> of
  \<open>src/common/convert_utf/ConvertUTF.c\<close>, and the wrappers \<open>String16ToUTF8\<close> and
  \<open>UTF8ToString16\<close> of \<open>src/common/string_utils.cc\<close> that call them in strict mode. A
  conversion returns its result code, the unread source and what it wrote to the target; the target
  buffer is the number \<open>room\<close> of units it can still take.
\<close>

unbundle bit_operations_syntax

section \<open>Operations\<close>

type_synonym utf32 = "32 word"

datatype ConversionResult = conversionOK | sourceExhausted | targetExhausted | sourceIllegal

datatype ConversionFlags = strictConversion | lenientConversion

definition UNI_REPLACEMENT_CHAR :: utf32 where "UNI_REPLACEMENT_CHAR = 0xFFFD"
definition UNI_MAX_BMP :: utf32 where "UNI_MAX_BMP = 0xFFFF"
definition UNI_MAX_UTF16 :: utf32 where "UNI_MAX_UTF16 = 0x10FFFF"
definition halfBase :: utf32 where "halfBase = 0x10000"
definition halfMask :: utf32 where "halfMask = 0x3FF"

definition is_high_surrogate :: "utf32 \<Rightarrow> bool" where
  "is_high_surrogate ch \<longleftrightarrow> 0xD800 \<le> ch \<and> ch \<le> 0xDBFF"

definition is_low_surrogate :: "utf32 \<Rightarrow> bool" where
  "is_low_surrogate ch \<longleftrightarrow> 0xDC00 \<le> ch \<and> ch \<le> 0xDFFF"

text \<open>The \<open>switch\<close> that writes \<open>bytesToWrite\<close> bytes, last byte first.\<close>

definition utf8_tail_byte :: "utf32 \<Rightarrow> byte" where
  "utf8_tail_byte ch = ucast ((ch OR 0x80) AND 0xBF)"

definition utf8_encode :: "utf32 \<Rightarrow> byte list" where
  "utf8_encode ch =
     (if ch < 0x80 then [ucast (ch OR 0x00)]
      else if ch < 0x800 then [ucast (drop_bit 6 ch OR 0xC0), utf8_tail_byte ch]
      else if ch < 0x10000 then
        [ucast (drop_bit 12 ch OR 0xE0), utf8_tail_byte (drop_bit 6 ch), utf8_tail_byte ch]
      else if ch < 0x110000 then
        [ucast (drop_bit 18 ch OR 0xF0), utf8_tail_byte (drop_bit 12 ch),
         utf8_tail_byte (drop_bit 6 ch), utf8_tail_byte ch]
      else
        [ucast (drop_bit 12 UNI_REPLACEMENT_CHAR OR 0xE0),
         utf8_tail_byte (drop_bit 6 UNI_REPLACEMENT_CHAR), utf8_tail_byte UNI_REPLACEMENT_CHAR])"

text \<open>
  One iteration of the loop of \<open>ConvertUTF16toUTF8\<close> up to the choice of the code point:
  the code point and the source after it, or the result code of the \<open>break\<close>.
\<close>

fun utf16_next :: "ConversionFlags \<Rightarrow> char16 \<Rightarrow> char16 list \<Rightarrow> ConversionResult + utf32 \<times> char16 list" where
  "utf16_next flags c rest =
     (let ch = ucast c :: utf32 in
      if is_high_surrogate ch then
        (case rest of
           [] \<Rightarrow> Inl sourceExhausted
         | c2 # rest2 \<Rightarrow>
             let ch2 = ucast c2 :: utf32 in
             if is_low_surrogate ch2 then
               Inr (push_bit 10 (ch - 0xD800) + (ch2 - 0xDC00) + halfBase, rest2)
             else if flags = strictConversion then Inl sourceIllegal
             else Inr (ch, rest))
      else if flags = strictConversion \<and> is_low_surrogate ch then Inl sourceIllegal
      else Inr (ch, rest))"

lemma utf16_next_shorter: "utf16_next flags c rest = Inr (ch, src) \<Longrightarrow> length src \<le> length rest"
  by (auto simp: Let_def split: if_splits list.splits)

declare utf16_next.simps [simp del]

function ConvertUTF16toUTF8 ::
    "ConversionFlags \<Rightarrow> char16 list \<Rightarrow> nat \<Rightarrow> ConversionResult \<times> char16 list \<times> byte list" where
  "ConvertUTF16toUTF8 flags [] room = (conversionOK, [], [])"
| "ConvertUTF16toUTF8 flags (c # rest) room =
     (case utf16_next flags c rest of
        Inl result \<Rightarrow> (result, c # rest, [])
      | Inr (ch, src) \<Rightarrow>
          let bs = utf8_encode ch in
          if room < length bs then (targetExhausted, c # rest, [])
          else let (result, src', out) = ConvertUTF16toUTF8 flags src (room - length bs)
               in (result, src', bs @ out))"
  by pat_completeness auto
termination
  by (relation "measure (\<lambda>(flags, src, room). length src)") (auto dest: utf16_next_shorter)

text \<open>The table \<open>trailingBytesForUTF8\<close>, by the ranges of its rows.\<close>

definition trailingBytesForUTF8 :: "byte \<Rightarrow> nat" where
  "trailingBytesForUTF8 b =
     (if b < 0xC0 then 0 else if b < 0xE0 then 1 else if b < 0xF0 then 2 else if b < 0xF8 then 3
      else if b < 0xFC then 4 else 5)"

definition offsetsFromUTF8 :: "nat \<Rightarrow> utf32" where
  "offsetsFromUTF8 n = [0x00000000, 0x00003080, 0x000E2080, 0x03C82080, 0xFA082080, 0x82082080] ! n"

text \<open>
  \<open>isLegalUTF8 source length\<close>: the cases fall through from the last byte to the first, the
  second byte has its own range.
\<close>

definition legal_trail :: "byte \<Rightarrow> bool" where
  "legal_trail a \<longleftrightarrow> \<not> (a < 0x80 \<or> a > 0xBF)"

definition legal_second :: "byte \<Rightarrow> byte \<Rightarrow> bool" where
  "legal_second first a \<longleftrightarrow> \<not> a > 0xBF \<and>
     (if first = 0xE0 then \<not> a < 0xA0
      else if first = 0xED then \<not> a > 0x9F
      else if first = 0xF0 then \<not> a < 0x90
      else if first = 0xF4 then \<not> a > 0x8F
      else \<not> a < 0x80)"

definition isLegalUTF8 :: "byte list \<Rightarrow> nat \<Rightarrow> bool" where
  "isLegalUTF8 source len \<longleftrightarrow>
     1 \<le> len \<and> len \<le> 4 \<and>
     (4 \<le> len \<longrightarrow> legal_trail (source ! 3)) \<and>
     (3 \<le> len \<longrightarrow> legal_trail (source ! 2)) \<and>
     (2 \<le> len \<longrightarrow> legal_second (source ! 0) (source ! 1)) \<and>
     \<not> (source ! 0 \<ge> 0x80 \<and> source ! 0 < 0xC2) \<and>
     \<not> source ! 0 > 0xF4"

text \<open>The drop-through \<open>switch\<close> that accumulates the code point from \<open>extra + 1\<close> bytes.\<close>

definition utf8_accumulate :: "byte list \<Rightarrow> utf32" where
  "utf8_accumulate bs = foldl (\<lambda>ch b. push_bit 6 ch + ucast b) 0 bs"

definition utf16_units :: "utf32 \<Rightarrow> char16 list" where
  "utf16_units ch =
     (let c = ch - halfBase
      in [ucast (drop_bit 10 c + 0xD800), ucast ((c AND halfMask) + 0xDC00)])"

function ConvertUTF8toUTF16 ::
    "ConversionFlags \<Rightarrow> byte list \<Rightarrow> nat \<Rightarrow> ConversionResult \<times> byte list \<times> char16 list" where
  "ConvertUTF8toUTF16 flags [] room = (conversionOK, [], [])"
| "ConvertUTF8toUTF16 flags (b # bs) room =
     (let source = b # bs; extra = trailingBytesForUTF8 b in
      if length source \<le> extra then (sourceExhausted, source, [])
      else if \<not> isLegalUTF8 source (extra + 1) then (sourceIllegal, source, [])
      else
        let ch = utf8_accumulate (take (extra + 1) source) - offsetsFromUTF8 extra;
            src = drop (extra + 1) source;
            emit = (\<lambda>us. let (result, src', out) = ConvertUTF8toUTF16 flags src (room - length us)
                         in (result, src', us @ out))
        in if room = 0 then (targetExhausted, source, [])
           else if ch \<le> UNI_MAX_BMP then
             (if is_high_surrogate ch \<or> is_low_surrogate ch then
                (if flags = strictConversion then (sourceIllegal, source, [])
                 else emit [ucast UNI_REPLACEMENT_CHAR])
              else emit [ucast ch])
           else if ch > UNI_MAX_UTF16 then
             (if flags = strictConversion then (sourceIllegal, source, [])
              else emit [ucast UNI_REPLACEMENT_CHAR])
           else if room \<le> 1 then (targetExhausted, source, [])
           else emit (utf16_units ch))"
  by pat_completeness auto
termination
  by (relation "measure (\<lambda>(flags, src, room). length src)") auto

declare ConvertUTF8toUTF16.simps(2) [simp del] ConvertUTF16toUTF8.simps(2) [simp del]

text \<open>
  The wrappers: success flag and output string (empty on failure). The lengths are C \<open>int\<close>s,
  at most \<open>INT_MAX\<close>.
\<close>

definition INT_MAX :: int where
  "INT_MAX = 2147483647"

definition String16ToUTF8 :: "char16 list \<Rightarrow> bool \<times> byte list" where
  "String16ToUTF8 in16 =
     (if in16 = [] then (True, [])
      else if int (length in16) > INT_MAX div 4 then (False, [])
      else let (result, _, out) = ConvertUTF16toUTF8 strictConversion in16 (length in16 * 4)
           in if result = conversionOK then (True, out) else (False, []))"

definition UTF8ToString16 :: "byte list \<Rightarrow> bool \<times> char16 list" where
  "UTF8ToString16 in8 =
     (if in8 = [] then (True, [])
      else let (result, _, out) = ConvertUTF8toUTF16 strictConversion in8 (length in8)
           in if result = conversionOK then (True, out) else (False, []))"

section \<open>Bytes and code points as numbers\<close>

lemma byte_cases: "unat b < n \<Longrightarrow> list_all (\<lambda>k. P (word_of_nat k :: byte)) [0..<n] \<Longrightarrow> P b"
proof -
  assume "unat b < n" and a: "list_all (\<lambda>k. P (word_of_nat k :: byte)) [0..<n]"
  then have "P (word_of_nat (unat b))"
    unfolding list_all_iff by (metis atLeastLessThan_iff atLeastLessThan_upt le0)
  then show ?thesis by simp
qed

lemma unat_byte_of: "unat (ucast (ch :: utf32) :: byte) = unat ch mod 256"
  by (simp add: unsigned_ucast_eq take_bit_eq_mod)

lemma unat_drop: "unat (drop_bit k (ch :: utf32)) = unat ch div 2 ^ k"
  by (metis drop_bit_eq_div unat_drop_bit_eq)

lemma unat_take: "unat (take_bit k (ch :: utf32)) = unat ch mod 2 ^ k"
  by (metis take_bit_eq_mod unsigned_take_bit_eq)

lemma byte_tail: "unat ((b OR 0x80) AND 0xBF :: byte) = 128 + unat b mod 64"
proof -
  have "unat b < 2 ^ LENGTH(8)" by (rule unsigned_less)
  then have "unat b < 256" by simp
  then show ?thesis by (rule byte_cases) code_simp
qed

lemma byte_lead:
  "unat b < 32 \<Longrightarrow> unat (b OR 0xC0 :: byte) = 192 + unat b"
  "unat b < 16 \<Longrightarrow> unat (b OR 0xE0 :: byte) = 224 + unat b"
  "unat b < 8 \<Longrightarrow> unat (b OR 0xF0 :: byte) = 240 + unat b"
  by (erule byte_cases, code_simp)+

lemma unat_tail_byte: "unat (utf8_tail_byte ch) = 128 + unat ch mod 64"
proof -
  have "utf8_tail_byte ch = (ucast ch OR 0x80) AND 0xBF"
    unfolding utf8_tail_byte_def by (rule bit_word_eqI) (auto simp: bit_simps)
  moreover have "unat ch mod 256 mod 64 = unat ch mod 64"
    by (rule mod_mod_cancel) simp
  ultimately show ?thesis by (simp add: byte_tail unat_byte_of)
qed

lemma ucast_byte_or: "(ucast (ch OR k) :: byte) = ucast (ch :: utf32) OR ucast k"
  by (rule bit_word_eqI) (auto simp: bit_simps)

lemma unat_lead_byte:
  "unat ch < 32 \<Longrightarrow> unat (ucast (ch OR 0xC0 :: utf32) :: byte) = 192 + unat ch"
  "unat ch < 16 \<Longrightarrow> unat (ucast (ch OR 0xE0 :: utf32) :: byte) = 224 + unat ch"
  "unat ch < 8 \<Longrightarrow> unat (ucast (ch OR 0xF0 :: utf32) :: byte) = 240 + unat ch"
  using byte_lead [of "ucast ch"] by (simp_all add: ucast_byte_or unat_byte_of)

lemma utf8_accumulate_nat:
  "utf8_accumulate bs = word_of_nat (foldl (\<lambda>a b. a * 64 + unat b) 0 bs)"
proof -
  have "foldl (\<lambda>ch b. push_bit 6 ch + ucast b) (word_of_nat a) bs
      = (word_of_nat (foldl (\<lambda>a b. a * 64 + unat b) a bs) :: utf32)" for a
  proof (induction bs arbitrary: a)
    case (Cons b bs)
    have "push_bit 6 (word_of_nat a) + ucast b = (word_of_nat (a * 64 + unat b) :: utf32)"
      by (simp add: push_bit_eq_mult)
    with Cons [of "a * 64 + unat b"] show ?case by simp
  qed simp
  from this [of 0] show ?thesis by (simp add: utf8_accumulate_def)
qed

lemma sextets:
  fixes n :: nat
  shows "n = 64 * (n div 64) + n mod 64" "n div 64 = 64 * (n div 4096) + n div 64 mod 64"
    "n div 4096 = 64 * (n div 262144) + n div 4096 mod 64"
    "n mod 64 < 64" "n div 64 mod 64 < 64" "n div 4096 mod 64 < 64"
  using mult_div_mod_eq [of 64 n] mult_div_mod_eq [of 64 "n div 64"] mult_div_mod_eq [of 64 "n div 4096"]
  by (simp_all add: div_mult2_eq [symmetric])

lemma sextet_sums:
  fixes n :: nat
  shows "((224 + n div 4096) * 64 + (128 + n div 64 mod 64)) * 64 + (128 + n mod 64) = n + 0xE2080"
    and "(((240 + n div 262144) * 64 + (128 + n div 4096 mod 64)) * 64 + (128 + n div 64 mod 64)) * 64
      + (128 + n mod 64) = n + 0x3C82080"
proof -
  have "((224 + q2) * 64 + (128 + r1)) * 64 + (128 + r0) = n + 0xE2080"
    if "n = 64 * q1 + r0" "q1 = 64 * q2 + r1" for q1 q2 r0 r1
    unfolding that by simp
  then show "((224 + n div 4096) * 64 + (128 + n div 64 mod 64)) * 64 + (128 + n mod 64) = n + 0xE2080"
    using sextets(1,2) by blast
  have "(((240 + q3) * 64 + (128 + r2)) * 64 + (128 + r1)) * 64 + (128 + r0) = n + 0x3C82080"
    if "n = 64 * q1 + r0" "q1 = 64 * q2 + r1" "q2 = 64 * q3 + r2" for q1 q2 q3 r0 r1 r2
    unfolding that by simp
  then show "(((240 + n div 262144) * 64 + (128 + n div 4096 mod 64)) * 64 + (128 + n div 64 mod 64)) * 64
      + (128 + n mod 64) = n + 0x3C82080"
    using sextets(1-3) by blast
qed

lemmas byte_nat = word_less_nat_alt word_le_nat_alt word_unat_eq_iff

text \<open>A byte sequence that \<open>ConvertUTF8toUTF16\<close> accepts as the code point \<open>ch\<close>.\<close>

definition utf8_shape :: "byte list \<Rightarrow> bool" where
  "utf8_shape bs \<longleftrightarrow> bs \<noteq> [] \<and> trailingBytesForUTF8 (hd bs) + 1 = length bs \<and>
     isLegalUTF8 bs (length bs)"

definition utf8_denotes :: "byte list \<Rightarrow> utf32 \<Rightarrow> bool" where
  "utf8_denotes bs ch \<longleftrightarrow> utf8_shape bs \<and> utf8_accumulate bs = ch + offsetsFromUTF8 (length bs - 1)"

lemmas utf8_shape_simps = utf8_shape_def trailingBytesForUTF8_def isLegalUTF8_def legal_second_def
  legal_trail_def byte_nat

lemma utf8_denotes_1: "unat ch < 128 \<Longrightarrow> utf8_denotes [ucast ch] ch"
  by (auto simp: utf8_denotes_def utf8_shape_simps unat_byte_of utf8_accumulate_nat offsetsFromUTF8_def)

lemma utf8_denotes_2:
  assumes "128 \<le> unat ch" "unat ch < 2048"
    and b: "unat b0 = 192 + unat ch div 64" "unat b1 = 128 + unat ch mod 64"
  shows "utf8_denotes [b0, b1] ch"
proof -
  have "(192 + unat ch div 64) * 64 + (128 + unat ch mod 64) = unat ch + 0x3080" by simp
  then have "utf8_accumulate [b0, b1] = word_of_nat (unat ch + 0x3080)"
    by (simp only: utf8_accumulate_nat foldl.simps b mult_0 add_0)
  moreover have "utf8_shape [b0, b1]"
    using assms by (auto simp: utf8_shape_simps)
  ultimately show ?thesis by (simp add: utf8_denotes_def offsetsFromUTF8_def)
qed

lemma utf8_denotes_3:
  assumes "2048 \<le> unat ch" "unat ch < 65536" "\<not> (0xD800 \<le> unat ch \<and> unat ch \<le> 0xDFFF)"
    and b: "unat b0 = 224 + unat ch div 4096" "unat b1 = 128 + unat ch div 64 mod 64"
      "unat b2 = 128 + unat ch mod 64"
  shows "utf8_denotes [b0, b1, b2] ch"
proof -
  note q = sextets [of "unat ch"]
  have "((224 + unat ch div 4096) * 64 + (128 + unat ch div 64 mod 64)) * 64 + (128 + unat ch mod 64)
      = unat ch + 0xE2080" by (rule sextet_sums)
  then have "utf8_accumulate [b0, b1, b2] = word_of_nat (unat ch + 0xE2080)"
    by (simp only: utf8_accumulate_nat foldl.simps b mult_0 add_0)
  moreover have "unat ch div 4096 < 16" "unat ch div 4096 = 0 \<longrightarrow> 32 \<le> unat ch div 64 mod 64"
    "unat ch div 4096 = 13 \<longrightarrow> unat ch div 64 mod 64 < 32" "unat ch div 64 mod 64 < 64" "unat ch mod 64 < 64"
    using assms(1-3) q by linarith+
  then have "utf8_shape [b0, b1, b2]"
    by (auto simp: utf8_shape_simps b)
  ultimately show ?thesis by (simp add: utf8_denotes_def offsetsFromUTF8_def)
qed

lemma utf8_denotes_4:
  assumes "65536 \<le> unat ch" "unat ch < 0x110000"
    and b: "unat b0 = 240 + unat ch div 262144" "unat b1 = 128 + unat ch div 4096 mod 64"
      "unat b2 = 128 + unat ch div 64 mod 64" "unat b3 = 128 + unat ch mod 64"
  shows "utf8_denotes [b0, b1, b2, b3] ch"
proof -
  note q = sextets [of "unat ch"]
  have "(((240 + unat ch div 262144) * 64 + (128 + unat ch div 4096 mod 64)) * 64
      + (128 + unat ch div 64 mod 64)) * 64 + (128 + unat ch mod 64)
      = unat ch + 0x3C82080" by (rule sextet_sums)
  then have "utf8_accumulate [b0, b1, b2, b3] = word_of_nat (unat ch + 0x3C82080)"
    by (simp only: utf8_accumulate_nat foldl.simps b mult_0 add_0)
  moreover have "unat ch div 262144 < 5" "unat ch div 262144 = 0 \<longrightarrow> 16 \<le> unat ch div 4096 mod 64"
    "unat ch div 262144 = 4 \<longrightarrow> unat ch div 4096 mod 64 < 16" "unat ch div 4096 mod 64 < 64"
    "unat ch div 64 mod 64 < 64" "unat ch mod 64 < 64"
    using assms(1,2) q by linarith+
  then have "utf8_shape [b0, b1, b2, b3]"
    by (auto simp: utf8_shape_simps b)
  ultimately show ?thesis by (simp add: utf8_denotes_def offsetsFromUTF8_def)
qed

lemma utf8_encode_denotes:
  assumes "ch < 0x110000" "\<not> is_high_surrogate ch" "\<not> is_low_surrogate ch"
  shows "utf8_denotes (utf8_encode ch) ch"
proof -
  consider "unat ch < 128" | "128 \<le> unat ch" "unat ch < 2048" | "2048 \<le> unat ch" "unat ch < 65536"
    | "65536 \<le> unat ch" by linarith
  then show ?thesis
  proof cases
    case 1
    then show ?thesis by (simp add: utf8_encode_def byte_nat utf8_denotes_1)
  next
    case 2
    have "utf8_encode ch = [ucast (drop_bit 6 ch OR 0xC0), utf8_tail_byte ch]"
      using 2 by (simp add: utf8_encode_def byte_nat)
    moreover have "utf8_denotes \<dots> ch"
      using 2 by (intro utf8_denotes_2) (simp_all add: unat_tail_byte unat_lead_byte unat_drop)
    ultimately show ?thesis by simp
  next
    case 3
    have "utf8_encode ch = [ucast (drop_bit 12 ch OR 0xE0), utf8_tail_byte (drop_bit 6 ch), utf8_tail_byte ch]"
      using 3 by (simp add: utf8_encode_def byte_nat)
    moreover have "utf8_denotes \<dots> ch"
      using 3 assms(2,3) by (intro utf8_denotes_3)
        (auto simp: unat_tail_byte unat_lead_byte unat_drop is_high_surrogate_def is_low_surrogate_def byte_nat)
    ultimately show ?thesis by simp
  next
    case 4
    have "utf8_encode ch = [ucast (drop_bit 18 ch OR 0xF0), utf8_tail_byte (drop_bit 12 ch),
         utf8_tail_byte (drop_bit 6 ch), utf8_tail_byte ch]"
      using 4 assms(1) by (simp add: utf8_encode_def byte_nat)
    moreover have "utf8_denotes \<dots> ch"
      using 4 assms(1) by (intro utf8_denotes_4) (simp_all add: unat_tail_byte unat_lead_byte unat_drop byte_nat)
    ultimately show ?thesis by simp
  qed
qed

section \<open>The conversions are inverse\<close>

text \<open>The units of a code point, and the strings with no unpaired surrogate.\<close>

definition code_units :: "utf32 \<Rightarrow> char16 list" where
  "code_units ch = (if ch \<le> UNI_MAX_BMP then [ucast ch] else utf16_units ch)"

fun well_formed_utf16 :: "char16 list \<Rightarrow> bool" where
  "well_formed_utf16 [] = True"
| "well_formed_utf16 [c] = (\<not> is_high_surrogate (ucast c) \<and> \<not> is_low_surrogate (ucast c))"
| "well_formed_utf16 (c # c2 # rest) =
     (if is_high_surrogate (ucast c) then is_low_surrogate (ucast c2) \<and> well_formed_utf16 rest
      else \<not> is_low_surrogate (ucast c) \<and> well_formed_utf16 (c2 # rest))"

lemma unat_ucast16: "unat (ucast (c :: char16) :: utf32) = unat c"
  by (simp add: unsigned_ucast_eq take_bit_nat_eq_self unsigned_less [of c, THEN less_trans])

lemma ucast_utf32_id: "ucast (ucast (c :: char16) :: utf32) = c"
  by (rule bit_word_eqI) (simp add: bit_simps)

lemma utf16_next_error: "utf16_next flags c rest = Inl result \<Longrightarrow> result \<noteq> conversionOK"
  by (auto simp: utf16_next.simps Let_def split: list.splits if_splits)

lemma isLegalUTF8_append: "isLegalUTF8 bs (length bs) \<Longrightarrow> isLegalUTF8 (bs @ rest) (length bs)"
  by (auto simp: isLegalUTF8_def nth_append)

definition is_scalar :: "utf32 \<Rightarrow> bool" where
  "is_scalar ch \<longleftrightarrow> ch < 0x110000 \<and> \<not> is_high_surrogate ch \<and> \<not> is_low_surrogate ch"

lemma decode_step:
  assumes "utf8_denotes bs ch" "is_scalar ch" "length (code_units ch) \<le> room"
  shows "ConvertUTF8toUTF16 flags (bs @ rest) room =
    (let (result, src, out) = ConvertUTF8toUTF16 flags rest (room - length (code_units ch))
     in (result, src, code_units ch @ out))"
proof -
  obtain b bs' where bs: "bs = b # bs'"
    using assms(1) by (cases bs) (auto simp: utf8_denotes_def utf8_shape_def)
  have len: "trailingBytesForUTF8 b = length bs'" "isLegalUTF8 (b # bs' @ rest) (Suc (length bs'))"
    and acc: "utf8_accumulate (b # bs') - offsetsFromUTF8 (length bs') = ch"
    using assms(1) isLegalUTF8_append [of bs rest] by (auto simp: utf8_denotes_def utf8_shape_def bs)
  show ?thesis
    using assms(2,3)
    by (auto simp: bs ConvertUTF8toUTF16.simps(2) len acc Let_def is_scalar_def code_units_def utf16_units_def
        UNI_MAX_UTF16_def UNI_MAX_BMP_def word_less_nat_alt word_le_nat_alt split: if_splits)
qed

lemma halfMask_take: "c AND halfMask = take_bit 10 c"
  by (simp add: halfMask_def take_bit_eq_mask mask_eq_exp_minus_1)

lemma surrogate_pair:
  fixes c c2 :: char16
  assumes "is_high_surrogate (ucast c)" "is_low_surrogate (ucast c2)"
  defines "ch \<equiv> push_bit 10 (ucast c - 0xD800) + (ucast c2 - 0xDC00) + halfBase"
  shows "is_scalar ch" "\<not> ch \<le> UNI_MAX_BMP" "utf16_units ch = [c, c2]"
proof -
  obtain hi where hi: "unat c = hi + 0xD800" "hi < 1024"
    using assms(1) that [of "unat c - 0xD800"] by (auto simp: is_high_surrogate_def byte_nat unat_ucast16)
  obtain lo where lo: "unat c2 = lo + 0xDC00" "lo < 1024"
    using assms(2) that [of "unat c2 - 0xDC00"] by (auto simp: is_low_surrogate_def byte_nat unat_ucast16)
  have "(ucast c :: utf32) = word_of_nat (hi + 0xD800)" "(ucast c2 :: utf32) = word_of_nat (lo + 0xDC00)"
    by (simp_all only: hi(1) [symmetric] lo(1) [symmetric] word_of_nat_eq_iff) (simp_all add: unat_ucast16)
  then have ch: "ch - halfBase = word_of_nat (hi * 1024 + lo)"
    by (simp add: ch_def push_bit_eq_mult)
  have off: "unat (ch - halfBase) = hi * 1024 + lo"
    unfolding ch using hi(2) lo(2) by (subst unat_of_nat) simp
  have "ch = word_of_nat (hi * 1024 + lo + 0x10000)"
    using ch by (simp add: halfBase_def algebra_simps)
  then have n: "unat ch = hi * 1024 + lo + 0x10000"
    using hi(2) lo(2) by (simp only:) (subst unat_of_nat, simp)
  show "is_scalar ch" "\<not> ch \<le> UNI_MAX_BMP"
    using n hi(2) lo(2) by (auto simp: is_scalar_def is_high_surrogate_def is_low_surrogate_def UNI_MAX_BMP_def byte_nat)
  have "unat (drop_bit 10 (ch - halfBase)) = hi"
    using off lo(2) by (simp add: unat_drop)
  then have d: "drop_bit 10 (ch - halfBase) = word_of_nat hi" by auto
  have "unat (take_bit 10 (ch - halfBase)) = lo"
    using off lo(2) by (simp add: unat_take)
  then have t: "take_bit 10 (ch - halfBase) = word_of_nat lo" by auto
  have "unat (word_of_nat (hi + 0xD800) :: utf32) = unat c" "unat (word_of_nat (lo + 0xDC00) :: utf32) = unat c2"
    using hi lo by (subst unat_of_nat, simp)+
  moreover have "take_bit 16 (unat c) = unat c" "take_bit 16 (unat c2) = unat c2"
    using hi lo by (simp_all add: take_bit_eq_mod)
  ultimately show "utf16_units ch = [c, c2]"
    by (simp add: utf16_units_def Let_def halfMask_take word_unat_eq_iff unsigned_ucast_eq d t take_bit_nat_eq_self)
qed

lemma utf16_next_strict:
  assumes "utf16_next strictConversion c rest = Inr (ch, src)"
  shows "is_scalar ch" "c # rest = code_units ch @ src"
proof -
  have "is_scalar ch \<and> c # rest = code_units ch @ src"
  proof (cases "is_high_surrogate (ucast c)")
    case True
    with assms obtain c2 where "rest = c2 # src" "is_low_surrogate (ucast c2)"
      "ch = push_bit 10 (ucast c - 0xD800) + (ucast c2 - 0xDC00) + halfBase"
      by (auto simp: utf16_next.simps Let_def split: list.splits if_splits)
    with surrogate_pair [OF True] show ?thesis by (simp add: code_units_def)
  next
    case False
    with assms have "ch = ucast c" "src = rest" "\<not> is_low_surrogate (ucast c)"
      by (auto simp: utf16_next.simps Let_def split: if_splits)
    moreover have "unat (ucast c :: utf32) < 65536"
      unfolding unat_ucast16 using unsigned_less [of c] by simp
    ultimately show ?thesis using False
      by (simp add: is_scalar_def code_units_def UNI_MAX_BMP_def word_less_nat_alt word_le_nat_alt ucast_utf32_id)
  qed
  then show "is_scalar ch" "c # rest = code_units ch @ src" by auto
qed

lemma utf8_encode_length: "length (utf8_encode ch) \<le> 4 \<and> length (code_units ch) \<le> length (utf8_encode ch)"
  by (simp add: utf8_encode_def code_units_def utf16_units_def UNI_MAX_BMP_def Let_def word_less_nat_alt word_le_nat_alt)

lemma ConvertUTF16toUTF8_round_trip:
  "ConvertUTF16toUTF8 strictConversion s room = (conversionOK, src, out) \<Longrightarrow> length out \<le> room' \<Longrightarrow>
    src = [] \<and> ConvertUTF8toUTF16 strictConversion out room' = (conversionOK, [], s)"
proof (induction strictConversion s room arbitrary: src out room' rule: ConvertUTF16toUTF8.induct)
  case (2 c rest room)
  from "2.prems"(1) obtain ch src1 out1 where
    nxt: "utf16_next strictConversion c rest = Inr (ch, src1)" and room: "\<not> room < length (utf8_encode ch)"
    and rest: "ConvertUTF16toUTF8 strictConversion src1 (room - length (utf8_encode ch)) = (conversionOK, src, out1)"
    and out: "out = utf8_encode ch @ out1"
    by (auto simp: ConvertUTF16toUTF8.simps(2) Let_def dest: utf16_next_error
        split: sum.splits prod.splits if_splits)
  note ch = utf16_next_strict [OF nxt]
  have len: "length (code_units ch) \<le> room'" "length out1 \<le> room' - length (code_units ch)"
    using "2.prems"(2) utf8_encode_length [of ch] by (auto simp: out)
  have IH: "src = [] \<and> ConvertUTF8toUTF16 strictConversion out1 (room' - length (code_units ch)) = (conversionOK, [], src1)"
    using "2.hyps" [OF nxt refl refl room rest len(2)] .
  have "utf8_denotes (utf8_encode ch) ch" using utf8_encode_denotes ch(1) by (auto simp: is_scalar_def)
  from decode_step [OF this ch(1) len(1), of strictConversion out1] IH ch(2)
  show ?case by (simp add: out)
qed simp

lemma ConvertUTF16toUTF8_succeeds:
  "4 * length s \<le> room \<Longrightarrow>
    fst (ConvertUTF16toUTF8 strictConversion s room) = conversionOK \<longleftrightarrow> well_formed_utf16 s"
proof (induction s arbitrary: room rule: well_formed_utf16.induct)
  case (2 c)
  then show ?case
    using utf8_encode_length [of "ucast c"]
    by (auto simp: ConvertUTF16toUTF8.simps(2) utf16_next.simps Let_def)
next
  case (3 c c2 rest)
  show ?case
    using 3(1) [of "room - length (utf8_encode (push_bit 10 (ucast c - 0xD800) + (ucast c2 - 0xDC00) + halfBase))"]
      3(2) [of "room - length (utf8_encode (ucast c))"] 3(3)
      utf8_encode_length [of "push_bit 10 (ucast c - 0xD800) + (ucast c2 - 0xDC00) + halfBase"]
      utf8_encode_length [of "ucast c"]
    by (auto simp: ConvertUTF16toUTF8.simps(2) [of _ c] utf16_next.simps Let_def split: prod.splits)
qed simp

lemma utf8_encode_length_units: "length (utf8_encode ch) \<le> 3 * length (code_units ch)"
  by (simp add: utf8_encode_def code_units_def utf16_units_def UNI_MAX_BMP_def Let_def word_less_nat_alt word_le_nat_alt)

lemma ConvertUTF16toUTF8_length:
  "ConvertUTF16toUTF8 strictConversion s room = (result, src, out) \<Longrightarrow> length out \<le> 3 * length s"
proof (induction strictConversion s room arbitrary: result src out rule: ConvertUTF16toUTF8.induct)
  case (2 c rest room)
  show ?case
  proof (cases "utf16_next strictConversion c rest")
    case (Inl r)
    with "2.prems" show ?thesis by (simp add: ConvertUTF16toUTF8.simps(2))
  next
    case (Inr p)
    obtain ch src1 where p: "p = (ch, src1)" by (cases p)
    have "length (c # rest) = length (code_units ch) + length src1"
      using utf16_next_strict(2) [OF Inr [unfolded p]] by (metis length_append)
    with 2 Inr p utf8_encode_length_units [of ch] show ?thesis
      by (fastforce simp: ConvertUTF16toUTF8.simps(2) Let_def split: prod.splits if_splits)
  qed
qed simp

lemma utf8_encode_nonzero:
  assumes "ch < 0x110000" "ch \<noteq> 0"
  shows "0 \<notin> set (utf8_encode ch)"
proof -
  have nz: "b \<noteq> 0" if "0 < unat b" for b :: byte using that by auto
  have "ucast ch \<noteq> (0 :: byte)" if "ch < 0x80"
    using that assms(2) by (intro nz) (auto simp: byte_nat unat_byte_of)
  moreover have "ucast (drop_bit 6 ch OR 0xC0) \<noteq> (0 :: byte)" if "ch < 0x800"
    using that by (intro nz) (simp add: byte_nat unat_lead_byte unat_drop)
  moreover have "ucast (drop_bit 12 ch OR 0xE0) \<noteq> (0 :: byte)" if "ch < 0x10000"
    using that by (intro nz) (simp add: byte_nat unat_lead_byte unat_drop)
  moreover have "ucast (drop_bit 18 ch OR 0xF0) \<noteq> (0 :: byte)"
    using assms(1) by (intro nz) (simp add: byte_nat unat_lead_byte unat_drop)
  moreover have "utf8_tail_byte x \<noteq> 0" for x
    by (intro nz) (simp add: unat_tail_byte)
  ultimately show ?thesis using assms(1) by (auto simp: utf8_encode_def)
qed

lemma code_units_nonzero: "0 \<notin> set (code_units ch) \<Longrightarrow> ch \<noteq> 0"
  by (auto simp: code_units_def)

lemma ConvertUTF16toUTF8_nonzero:
  "ConvertUTF16toUTF8 strictConversion s room = (result, src, out) \<Longrightarrow> 0 \<notin> set s \<Longrightarrow> 0 \<notin> set out"
proof (induction strictConversion s room arbitrary: result src out rule: ConvertUTF16toUTF8.induct)
  case (2 c rest room)
  show ?case
  proof (cases "utf16_next strictConversion c rest")
    case (Inl r)
    with "2.prems"(1) show ?thesis by (simp add: ConvertUTF16toUTF8.simps(2))
  next
    case (Inr p)
    obtain ch src1 where p: "p = (ch, src1)" by (cases p)
    note nxt = utf16_next_strict [OF Inr [unfolded p]]
    have "0 \<notin> set (code_units ch)" "0 \<notin> set src1" using nxt(2) "2.prems"(2) by (metis Un_iff set_append)+
    then have "0 \<notin> set (utf8_encode ch)"
      using nxt(1) utf8_encode_nonzero code_units_nonzero by (auto simp: is_scalar_def)
    with 2 Inr p \<open>0 \<notin> set src1\<close> show ?thesis
      by (fastforce simp: ConvertUTF16toUTF8.simps(2) Let_def split: prod.splits if_splits)
  qed
qed simp

lemma String16ToUTF8_shape:
  "String16ToUTF8 s = (ok, out) \<Longrightarrow> int (length out) \<le> INT_MAX div 4 * 3 \<and> (0 \<notin> set s \<longrightarrow> 0 \<notin> set out)"
proof -
  assume a: "String16ToUTF8 s = (ok, out)"
  show ?thesis
  proof (cases "ok \<and> s \<noteq> []")
    case True
    with a obtain r src where c: "ConvertUTF16toUTF8 strictConversion s (length s * 4) = (r, src, out)"
      and len: "int (length s) \<le> INT_MAX div 4"
      by (auto simp: String16ToUTF8_def split: if_splits prod.splits)
    show ?thesis
      using ConvertUTF16toUTF8_length [OF c] ConvertUTF16toUTF8_nonzero [OF c] len by auto
  next
    case False
    with a have "out = []" by (auto simp: String16ToUTF8_def split: if_splits prod.splits)
    then show ?thesis by (simp add: INT_MAX_def)
  qed
qed

text \<open>The round trip of the wrappers, shared with the components that store strings.\<close>

lemma String16_round_trip:
  assumes "well_formed_utf16 s" "int (length s) \<le> INT_MAX div 4"
  shows "\<exists>out. String16ToUTF8 s = (True, out) \<and> UTF8ToString16 out = (True, s)"
proof (cases "s = []")
  case True
  then show ?thesis by (simp add: String16ToUTF8_def UTF8ToString16_def)
next
  case False
  obtain src out where c: "ConvertUTF16toUTF8 strictConversion s (length s * 4) = (conversionOK, src, out)"
    using ConvertUTF16toUTF8_succeeds [of s "length s * 4"] assms(1) by (auto simp: prod_eq_iff)
  note rt = ConvertUTF16toUTF8_round_trip [OF c order_refl]
  have "out \<noteq> []" using rt False by auto
  then show ?thesis using False assms(2) rt c by (simp add: String16ToUTF8_def UTF8ToString16_def)
qed

lemma String16ToUTF8_fails:
  assumes "\<not> (well_formed_utf16 s \<and> int (length s) \<le> INT_MAX div 4)"
  shows "String16ToUTF8 s = (False, [])"
proof -
  have "s \<noteq> []" using assms by (auto simp: INT_MAX_def)
  moreover have "\<not> well_formed_utf16 s \<Longrightarrow> fst (ConvertUTF16toUTF8 strictConversion s (length s * 4)) \<noteq> conversionOK"
    using ConvertUTF16toUTF8_succeeds [of s "length s * 4"] by simp
  ultimately show ?thesis using assms by (auto simp: String16ToUTF8_def split: prod.splits)
qed

section \<open>Properties\<close>

text \<open>
  C31. A UTF-16 string without unpaired surrogates (of at most \<open>INT_MAX / 4\<close> units) converts to
  UTF-8, and \<open>UTF8ToString16\<close> converts the result back to the same string.
\<close>

theorem utf16_utf8_round_trip:
  assumes "well_formed_utf16 s" "int (length s) \<le> INT_MAX div 4"
  shows "\<exists>out. String16ToUTF8 s = (True, out) \<and> UTF8ToString16 out = (True, s)"
  using assms by (rule String16_round_trip)

theorem utf16_utf8_round_trip_witness:
  "well_formed_utf16 [0x41, 0x20AC, 0xD83D, 0xDE00] \<and>
   (\<exists>out. String16ToUTF8 [0x41, 0x20AC, 0xD83D, 0xDE00] = (True, out) \<and>
          UTF8ToString16 out = (True, [0x41, 0x20AC, 0xD83D, 0xDE00]))"
proof -
  have w: "well_formed_utf16 [0x41, 0x20AC, 0xD83D, 0xDE00]" by code_simp
  show ?thesis
    using w utf16_utf8_round_trip [OF w] by (simp add: INT_MAX_def)
qed

text \<open>
  \<open>String16ToUTF8\<close> reports failure, with no output, for every string that has an unpaired
  surrogate.
\<close>

theorem String16ToUTF8_rejects:
  assumes "\<not> well_formed_utf16 s"
  shows "String16ToUTF8 s = (False, [])"
  using assms by (intro String16ToUTF8_fails) simp

theorem String16ToUTF8_rejects_witness:
  "\<not> well_formed_utf16 [0x41, 0xD83D] \<and> String16ToUTF8 [0x41, 0xD83D] = (False, [])"
proof -
  have w: "\<not> well_formed_utf16 [0x41, 0xD83D]" by code_simp
  show ?thesis using w String16ToUTF8_rejects [OF w] by simp
qed

end
