(* ===== verification/Serialization.thy ===== *)
theory Serialization
  imports Utf
begin

text \<open>
  The serialization layer of \<open>src/common/serialization.cc\<close> and \<open>serialization.h\<close>. A
  \<open>Serializer\<close> is the byte vector it appends to; a \<open>Deserializer\<close> is a window into a memory
  block, with the 64-bit position and length of the code, so that the bounds check of
  \<open>ReadBytes\<close> wraps the way it does there. A read that leaves the memory block, a failed
  \<open>assert\<close> and an exception have no result (\<open>None\<close>). The virtual methods of a
  \<open>Serializable\<close> are a record of functions, an argument of \<open>WriteObject\<close> and
  \<open>CreateAndReadObject\<close>.
\<close>

section \<open>Operations\<close>

datatype SerializableClassId =
    SERIALIZABLE_NULL
  | SERIALIZABLE_TEST_OBJECT
  | SERIALIZABLE_IPC_TEST_MESSAGE
  | SERIALIZABLE_STRING16
  | SERIALIZABLE_UPDATE_TASK_ERROR_EVENT
  | SERIALIZABLE_UPDATE_TASK_PROGRESS_EVENT
  | SERIALIZABLE_UPDATE_TASK_COMPLETION_EVENT
  | SERIALIZABLE_CONSOLE_LOG_EVENT
  | SERIALIZABLE_NOTIFICATION
  | SERIALIZABLE_GEOLOCATION
  | SERIALIZABLE_DESKTOP
  | SERIALIZABLE_BLOB
  | SERIALIZABLE_DESKTOP_NOTIFICATION

fun class_id_code :: "SerializableClassId \<Rightarrow> int32" where
  "class_id_code SERIALIZABLE_NULL = 0"
| "class_id_code SERIALIZABLE_TEST_OBJECT = 1"
| "class_id_code SERIALIZABLE_IPC_TEST_MESSAGE = 2"
| "class_id_code SERIALIZABLE_STRING16 = 3"
| "class_id_code SERIALIZABLE_UPDATE_TASK_ERROR_EVENT = 4"
| "class_id_code SERIALIZABLE_UPDATE_TASK_PROGRESS_EVENT = 5"
| "class_id_code SERIALIZABLE_UPDATE_TASK_COMPLETION_EVENT = 6"
| "class_id_code SERIALIZABLE_CONSOLE_LOG_EVENT = 7"
| "class_id_code SERIALIZABLE_NOTIFICATION = 8"
| "class_id_code SERIALIZABLE_GEOLOCATION = 9"
| "class_id_code SERIALIZABLE_DESKTOP = 10"
| "class_id_code SERIALIZABLE_BLOB = 11"
| "class_id_code SERIALIZABLE_DESKTOP_NOTIFICATION = 1000"

text \<open>The deserializer: \<open>buffer_\<close> is the pointer \<open>base\<close> into the block \<open>mem\<close>.\<close>

record deserializer =
  ds_mem :: "byte list"
  ds_base :: nat
  ds_length :: size64
  ds_read_pos :: size64

definition new_deserializer :: "byte list \<Rightarrow> nat \<Rightarrow> size64 \<Rightarrow> deserializer" where
  "new_deserializer mem base len = \<lparr>ds_mem = mem, ds_base = base, ds_length = len, ds_read_pos = 0\<rparr>"

text \<open>The virtual methods of the objects of type \<open>'o\<close>.\<close>

record 'o serializable =
  GetSerializableClassId :: "'o \<Rightarrow> SerializableClassId"
  Serialize :: "'o \<Rightarrow> byte list \<Rightarrow> bool \<times> byte list"
  Deserialize :: "'o \<Rightarrow> deserializer \<Rightarrow> (bool \<times> 'o) option"

subsection \<open>The class registry\<close>

type_synonym 'o constructors = "int32 \<Rightarrow> 'o option"

definition RegisterClass :: "'o constructors \<Rightarrow> SerializableClassId \<Rightarrow> 'o \<Rightarrow> 'o constructors option" where
  "RegisterClass constructors class_id factory = do {
     assert_that (constructors (class_id_code class_id) = None);
     Some (constructors(class_id_code class_id \<mapsto> factory)) }"

definition CreateClass :: "'o constructors \<Rightarrow> int32 \<Rightarrow> 'o option" where
  "CreateClass constructors class_id = constructors class_id"

subsection \<open>Serializer\<close>

definition WriteBytes :: "byte list \<Rightarrow> byte list \<Rightarrow> byte list" where
  "WriteBytes data buffer = buffer @ data"

definition WriteBool :: "bool \<Rightarrow> byte list \<Rightarrow> byte list" where
  "WriteBool data buffer = WriteBytes [if data then 1 else 0] buffer"

definition WriteInt :: "int32 \<Rightarrow> byte list \<Rightarrow> byte list" where
  "WriteInt data buffer = WriteBytes (int_bytes data) buffer"

definition WriteInt64 :: "int64 \<Rightarrow> byte list \<Rightarrow> byte list" where
  "WriteInt64 data buffer = WriteBytes (int64_bytes data) buffer"

text \<open>The characters of a NUL-terminated string.\<close>

definition c_string :: "'a::len word list \<Rightarrow> 'a word list" where
  "c_string = takeWhile (\<lambda>c. c \<noteq> 0)"

definition WriteString :: "char16 list \<Rightarrow> byte list \<Rightarrow> byte list" where
  "WriteString data buffer =
     (let (ok, utf8) = String16ToUTF8 (c_string data);
          utf8_string = (if \<not> ok then [] else utf8);
          buffer1 = WriteInt (word_of_nat (length utf8_string)) buffer
      in WriteBytes utf8_string buffer1)"

definition WriteObject :: "'o serializable \<Rightarrow> 'o option \<Rightarrow> byte list \<Rightarrow> (bool \<times> byte list) option" where
  "WriteObject vt obj_ptr buffer =
     (case obj_ptr of
        None \<Rightarrow> Some (True, WriteInt 0 (WriteInt (class_id_code SERIALIZABLE_NULL) buffer))
      | Some obj \<Rightarrow>
          let class_id = GetSerializableClassId vt obj in
          if class_id = SERIALIZABLE_NULL then Some (False, buffer)
          else
            let save_beginning = length buffer;
                buffer1 = WriteInt (class_id_code class_id) buffer;
                size_position = length buffer1;
                buffer2 = WriteInt 0 buffer1;
                obj_data_position = length buffer2;
                (ok, buffer3) = Serialize vt obj buffer2
            in if \<not> ok then Some (False, take save_beginning buffer3)
               else do {
                 buffer4 \<leftarrow> store buffer3 size_position
                   (int_bytes (word_of_nat (length buffer3 - obj_data_position)));
                 Some (True, buffer4) })"

subsection \<open>Deserializer\<close>

definition ReadBytes :: "size64 \<Rightarrow> deserializer \<Rightarrow> (byte list option \<times> deserializer) option" where
  "ReadBytes len ds =
     (if ds_read_pos ds + len > ds_length ds then Some (None, ds)
      else do {
        output \<leftarrow> load (ds_mem ds) (ds_base ds + unat (ds_read_pos ds)) (unat len);
        Some (Some output, ds\<lparr>ds_read_pos := ds_read_pos ds + len\<rparr>) })"

definition ReadBool :: "deserializer \<Rightarrow> (bool option \<times> deserializer) option" where
  "ReadBool ds = do {
     (data, ds1) \<leftarrow> ReadBytes 1 ds;
     Some (map_option (\<lambda>bs. hd bs \<noteq> 0) data, ds1) }"

definition ReadInt :: "deserializer \<Rightarrow> (int32 option \<times> deserializer) option" where
  "ReadInt ds = do {
     (data, ds1) \<leftarrow> ReadBytes 4 ds;
     Some (map_option word_of_bytes data, ds1) }"

definition ReadInt64 :: "deserializer \<Rightarrow> (int64 option \<times> deserializer) option" where
  "ReadInt64 ds = do {
     (data, ds1) \<leftarrow> ReadBytes 8 ds;
     Some (map_option word_of_bytes data, ds1) }"

text \<open>
  \<open>new char[size + 1]\<close> has no result when the sum overflows or is negative; \<open>size\<close> is
  sign-extended to the \<open>size_t\<close> argument of \<open>ReadBytes\<close>.
\<close>

definition ReadString :: "deserializer \<Rightarrow> (char16 list option \<times> deserializer) option" where
  "ReadString ds = do {
     (size_read, ds1) \<leftarrow> ReadInt ds;
     case size_read of
       None \<Rightarrow> Some (None, ds1)
     | Some sz \<Rightarrow> do {
         assert_that (0 \<le> sint sz + 1 \<and> sint sz + 1 \<le> INT_MAX);
         (data, ds2) \<leftarrow> ReadBytes (scast sz) ds1;
         case data of
           None \<Rightarrow> Some (None, ds2)
         | Some bs \<Rightarrow>
             let (ok, s) = UTF8ToString16 (c_string bs)
             in Some (if ok then Some s else None, ds2) } }"

text \<open>The result is the returned flag and the pointer stored in \<open>*out\<close>.\<close>

definition CreateAndReadObject ::
    "'o serializable \<Rightarrow> 'o constructors \<Rightarrow> deserializer \<Rightarrow> ((bool \<times> 'o option) \<times> deserializer) option" where
  "CreateAndReadObject vt constructors ds = do {
     (class_read, ds1) \<leftarrow> ReadInt ds;
     case class_read of
       None \<Rightarrow> Some ((False, None), ds1)
     | Some class_id \<Rightarrow> do {
         (size_read, ds2) \<leftarrow> ReadInt ds1;
         case size_read of
           None \<Rightarrow> Some ((False, None), ds2)
         | Some sz \<Rightarrow>
             if class_id = class_id_code SERIALIZABLE_NULL then do {
               assert_that (sz = 0);
               Some ((True, None), ds2) }
             else
               let object_data_position = ds_read_pos ds2;
                   ds3 = ds2\<lparr>ds_read_pos := ds_read_pos ds2 + scast sz\<rparr>
               in case CreateClass constructors class_id of
                    None \<Rightarrow> Some ((False, None), ds3)
                  | Some fresh \<Rightarrow> do {
                      (ok, obj) \<leftarrow> Deserialize vt fresh
                        (new_deserializer (ds_mem ds3) (ds_base ds3 + unat object_data_position) (scast sz));
                      Some (if ok then ((True, Some obj), ds3) else ((False, None), ds3)) } } }"

subsection \<open>Serializable strings\<close>

definition SerializableString16 :: "char16 list serializable" where
  "SerializableString16 =
     \<lparr>GetSerializableClassId = (\<lambda>string. SERIALIZABLE_STRING16),
      Serialize = (\<lambda>string out. (True, WriteString (c_string string) out)),
      Deserialize = (\<lambda>string in_ds. do {
        (r, ds1) \<leftarrow> ReadString in_ds;
        Some (case r of None \<Rightarrow> (False, string) | Some s \<Rightarrow> (True, s)) })\<rparr>"

definition RegisterSerializableString16 :: "char16 list constructors \<Rightarrow> char16 list constructors option" where
  "RegisterSerializableString16 constructors = RegisterClass constructors SERIALIZABLE_STRING16 []"

section \<open>Well-formed deserializers\<close>

text \<open>The window lies in the block and the position in the window; what is left to read.\<close>

definition ds_wf :: "deserializer \<Rightarrow> bool" where
  "ds_wf ds \<longleftrightarrow> ds_base ds + unat (ds_length ds) \<le> length (ds_mem ds) \<and> ds_read_pos ds \<le> ds_length ds"

definition remaining :: "deserializer \<Rightarrow> byte list" where
  "remaining ds = take (unat (ds_length ds) - unat (ds_read_pos ds))
     (drop (ds_base ds + unat (ds_read_pos ds)) (ds_mem ds))"

definition ds_advance :: "nat \<Rightarrow> deserializer \<Rightarrow> deserializer" where
  "ds_advance n ds = ds\<lparr>ds_read_pos := ds_read_pos ds + word_of_nat n\<rparr>"

lemma length_remaining: "ds_wf ds \<Longrightarrow> length (remaining ds) = unat (ds_length ds) - unat (ds_read_pos ds)"
  by (auto simp: ds_wf_def remaining_def word_le_nat_alt)

lemma unat_add_of_nat:
  "unat (p :: size64) + n \<le> unat (l :: size64) \<Longrightarrow> unat (p + word_of_nat n) = unat p + n"
proof -
  assume a: "unat p + n \<le> unat l"
  have "unat l < 2 ^ 64" using unsigned_less [of l] by simp
  then have n: "unat (word_of_nat n :: size64) = n" using a by (simp add: unat_of_nat)
  show ?thesis using \<open>unat l < 2 ^ 64\<close> a n by (subst unat_word_ariths(1)) simp
qed

lemma unat_advance:
  "ds_wf ds \<Longrightarrow> n \<le> length (remaining ds) \<Longrightarrow>
    unat (ds_read_pos ds + word_of_nat n) = unat (ds_read_pos ds) + n"
  using unat_add_of_nat [of "ds_read_pos ds" n "ds_length ds"]
  by (auto simp: length_remaining ds_wf_def word_le_nat_alt)

lemma ds_wf_advance: "ds_wf ds \<Longrightarrow> n \<le> length (remaining ds) \<Longrightarrow> ds_wf (ds_advance n ds)"
  using unat_advance [of ds n] length_remaining [of ds]
  by (auto simp: ds_wf_def ds_advance_def word_le_nat_alt)

lemma remaining_advance:
  "ds_wf ds \<Longrightarrow> n \<le> length (remaining ds) \<Longrightarrow> remaining (ds_advance n ds) = drop n (remaining ds)"
  using unat_advance [of ds n]
  by (auto simp: remaining_def ds_advance_def drop_take ac_simps)

lemma ds_advance_0: "ds_advance 0 ds = ds"
  by (simp add: ds_advance_def)

lemma ds_advance_add: "ds_advance n (ds_advance m ds) = ds_advance (m + n) ds"
  by (simp add: ds_advance_def add.assoc)

lemma ds_wf_new: "base + unat len \<le> length mem \<Longrightarrow> ds_wf (new_deserializer mem base len)"
  by (simp add: ds_wf_def new_deserializer_def word_le_nat_alt)

lemma remaining_new: "remaining (new_deserializer mem base len) = take (unat len) (drop base mem)"
  by (simp add: remaining_def new_deserializer_def)

section \<open>Reading\<close>

lemma ReadBytes_ok:
  assumes "ds_wf ds" "remaining ds = bs @ rest"
  shows "ReadBytes (word_of_nat (length bs)) ds = Some (Some bs, ds_advance (length bs) ds)"
proof -
  have n: "length bs \<le> length (remaining ds)" using assms(2) by simp
  have l: "length (remaining ds) = unat (ds_length ds) - unat (ds_read_pos ds)"
    by (rule length_remaining [OF assms(1)])
  have "unat (ds_length ds) < 2 ^ 64" using unsigned_less [of "ds_length ds"] by simp
  then have nb: "unat (word_of_nat (length bs) :: size64) = length bs"
    using n l by (simp add: unat_of_nat)
  have pos: "unat (ds_read_pos ds) \<le> unat (ds_length ds)" "ds_base ds + unat (ds_length ds) \<le> length (ds_mem ds)"
    using assms(1) by (auto simp: ds_wf_def word_le_nat_alt)
  have le: "\<not> ds_read_pos ds + word_of_nat (length bs) > ds_length ds"
    using unat_advance [OF assms(1) n] n l pos by (simp add: word_less_nat_alt)
  have "take (length bs) (drop (ds_base ds + unat (ds_read_pos ds)) (ds_mem ds)) = take (length bs) (remaining ds)"
    using n l by (simp add: remaining_def)
  then have "load (ds_mem ds) (ds_base ds + unat (ds_read_pos ds)) (length bs) = Some bs"
    using n l pos assms(2) by simp
  with le nb show ?thesis by (simp add: ReadBytes_def ds_advance_def)
qed

lemma ReadBytes_short:
  assumes "ds_wf ds" "length (remaining ds) < unat len" "unat (ds_read_pos ds) + unat len < 2 ^ 64"
  shows "ReadBytes len ds = Some (None, ds)"
proof -
  have "unat (ds_read_pos ds + len) = unat (ds_read_pos ds) + unat len"
    using assms(3) by (subst unat_word_ariths(1)) simp
  then show ?thesis
    using assms(1,2) length_remaining [OF assms(1)] by (simp add: ReadBytes_def word_less_nat_alt)
qed

lemma ReadInt_ok:
  assumes "ds_wf ds" "remaining ds = int_bytes w @ rest"
  shows "ReadInt ds = Some (Some w, ds_advance 4 ds)"
  using ReadBytes_ok [OF assms] by (simp add: ReadInt_def)

lemma ReadInt64_ok:
  assumes "ds_wf ds" "remaining ds = int64_bytes w @ rest"
  shows "ReadInt64 ds = Some (Some w, ds_advance 8 ds)"
  using ReadBytes_ok [OF assms] by (simp add: ReadInt64_def)

lemma ReadBool_ok:
  assumes "ds_wf ds" "remaining ds = [if b then 1 else 0] @ rest"
  shows "ReadBool ds = Some (Some b, ds_advance 1 ds)"
  using ReadBytes_ok [OF assms] by (simp add: ReadBool_def)

subsection \<open>Strings\<close>

text \<open>
  The bytes \<open>WriteString\<close> appends, and the string a reader gets from them: the characters up
  to the first NUL, or the empty string if they are not valid UTF-16 (or too many).
\<close>

definition string_utf8 :: "char16 list \<Rightarrow> byte list" where
  "string_utf8 s = snd (String16ToUTF8 (c_string s))"

definition string_bytes :: "char16 list \<Rightarrow> byte list" where
  "string_bytes s = int_bytes (word_of_nat (length (string_utf8 s))) @ string_utf8 s"

definition string_value :: "char16 list \<Rightarrow> char16 list" where
  "string_value s =
     (if well_formed_utf16 (c_string s) \<and> int (length (c_string s)) \<le> INT_MAX div 4 then c_string s else [])"

lemma c_string_nonzero: "0 \<notin> set (c_string s)"
  by (induction s) (auto simp: c_string_def)

lemma c_string_id: "0 \<notin> set s \<Longrightarrow> c_string s = s"
  by (induction s) (auto simp: c_string_def)

lemma WriteString_append: "WriteString s buf = buf @ string_bytes s"
proof (cases "String16ToUTF8 (c_string s)")
  case (Pair ok utf8)
  then have "\<not> ok \<Longrightarrow> utf8 = []" by (auto simp: String16ToUTF8_def split: if_splits prod.splits)
  with Pair show ?thesis
    by (simp add: WriteString_def WriteInt_def WriteBytes_def string_bytes_def string_utf8_def)
qed

lemma string_utf8_shape: "int (length (string_utf8 s)) \<le> INT_MAX div 4 * 3" "0 \<notin> set (string_utf8 s)"
  using String16ToUTF8_shape [of "c_string s"] c_string_nonzero [of s]
  by (cases "String16ToUTF8 (c_string s)"; simp add: string_utf8_def)+

lemma string_utf8_value: "UTF8ToString16 (string_utf8 s) = (True, string_value s)"
proof (cases "well_formed_utf16 (c_string s) \<and> int (length (c_string s)) \<le> INT_MAX div 4")
  case True
  then show ?thesis using String16_round_trip [of "c_string s"] by (auto simp: string_utf8_def string_value_def)
next
  case False
  then show ?thesis
    by (auto simp: string_utf8_def string_value_def String16ToUTF8_fails UTF8ToString16_def)
qed

lemma sint_of_nat32: "n < 2 ^ 31 \<Longrightarrow> sint (word_of_nat n :: int32) = int n"
  by (simp add: signed_of_nat signed_take_bit_int_eq_self)

lemma scast_of_nat32: "n < 2 ^ 31 \<Longrightarrow> scast (word_of_nat n :: int32) = (word_of_nat n :: size64)"
  by (simp add: scast_eq sint_of_nat32)

lemma ReadString_ok:
  assumes "ds_wf ds" "remaining ds = string_bytes s @ rest"
  shows "ReadString ds = Some (Some (string_value s), ds_advance (length (string_bytes s)) ds)"
proof -
  let ?n = "length (string_utf8 s)"
  have n: "?n < 2 ^ 31 - 1" using string_utf8_shape(1) [of s] by (simp add: INT_MAX_def)
  have r1: "ReadInt ds = Some (Some (word_of_nat ?n), ds_advance 4 ds)"
    using assms by (intro ReadInt_ok) (auto simp: string_bytes_def)
  have "ds_wf (ds_advance 4 ds)" "remaining (ds_advance 4 ds) = string_utf8 s @ rest"
    using assms by (simp_all add: ds_wf_advance remaining_advance string_bytes_def)
  from ReadBytes_ok [OF this] n
  have r2: "ReadBytes (scast (word_of_nat ?n :: int32)) (ds_advance 4 ds)
      = Some (Some (string_utf8 s), ds_advance (length (string_bytes s)) ds)"
    by (simp add: scast_of_nat32 ds_advance_add string_bytes_def)
  show ?thesis
    using n r1 r2 string_utf8_value [of s] string_utf8_shape(2) [of s]
    by (simp add: ReadString_def sint_of_nat32 INT_MAX_def c_string_id)
qed

section \<open>Objects\<close>

text \<open>The bytes of an object: class id, size of the payload, payload.\<close>

definition object_bytes :: "int32 \<Rightarrow> byte list \<Rightarrow> byte list" where
  "object_bytes class_id payload = int_bytes class_id @ int_bytes (word_of_nat (length payload)) @ payload"

lemma embedded_window:
  assumes "ds_wf ds" "remaining ds = pl @ rest" "length pl < 2 ^ 31"
  defines "sub \<equiv> new_deserializer (ds_mem ds) (ds_base ds + unat (ds_read_pos ds))
    (scast (word_of_nat (length pl) :: int32))"
  shows "ds_wf sub" "remaining sub = pl"
proof -
  have n: "unat (scast (word_of_nat (length pl) :: int32) :: size64) = length pl"
    using assms(3) by (simp add: scast_of_nat32 unat_of_nat)
  have l: "length pl \<le> unat (ds_length ds) - unat (ds_read_pos ds)"
    using assms(1,2) length_remaining [of ds] by simp
  then show "ds_wf sub"
    using assms(1) n unfolding sub_def
    by (intro ds_wf_new) (auto simp: ds_wf_def word_le_nat_alt)
  have "take (length pl) (drop (ds_base ds + unat (ds_read_pos ds)) (ds_mem ds)) = take (length pl) (remaining ds)"
    using l by (simp add: remaining_def)
  then show "remaining sub = pl"
    unfolding sub_def remaining_new n using assms(2) by simp
qed

text \<open>
  The contract of a serializable class, as \<open>WriteObject\<close> and \<open>CreateAndReadObject\<close> rely on
  it: \<open>Serialize\<close> appends a payload that does not depend on the buffer, the class is registered,
  and \<open>Deserialize\<close> of a new object recovers the value from a deserializer that holds exactly
  the payload.
\<close>

locale serializable_class =
  fixes vt :: "'o serializable"
    and constructors :: "'o constructors"
    and payload :: "'o \<Rightarrow> byte list"
    and decoded :: "'o \<Rightarrow> 'o"
  assumes not_null: "GetSerializableClassId vt obj \<noteq> SERIALIZABLE_NULL"
    and serialize_law: "Serialize vt obj buf = (True, buf @ payload obj)"
    and payload_size: "length (payload obj) + 8 < 2 ^ 31"
    and factory_law: "\<exists>fresh. CreateClass constructors (class_id_code (GetSerializableClassId vt obj)) = Some fresh \<and>
      (\<forall>ds. ds_wf ds \<longrightarrow> remaining ds = payload obj \<longrightarrow> Deserialize vt fresh ds = Some (True, decoded obj))"
begin

definition bytes_of :: "'o option \<Rightarrow> byte list" where
  "bytes_of p = (case p of None \<Rightarrow> object_bytes 0 []
     | Some obj \<Rightarrow> object_bytes (class_id_code (GetSerializableClassId vt obj)) (payload obj))"

lemma write_object: "WriteObject vt p buf = Some (True, buf @ bytes_of p)"
  using not_null
  by (cases p) (auto simp: WriteObject_def WriteInt_def WriteBytes_def object_bytes_def bytes_of_def
      serialize_law Let_def)

lemma class_code_nonzero: "class_id_code (GetSerializableClassId vt obj) \<noteq> 0"
  using not_null [of obj] by (cases "GetSerializableClassId vt obj") simp_all

lemma read_object:
  assumes "ds_wf ds" "remaining ds = bytes_of p @ rest"
  shows "CreateAndReadObject vt constructors ds
    = Some ((True, map_option decoded p), ds_advance (length (bytes_of p)) ds)"
proof -
  define class_id where "class_id = (case p of None \<Rightarrow> 0 | Some obj \<Rightarrow> class_id_code (GetSerializableClassId vt obj))"
  define pl where "pl = (case p of None \<Rightarrow> [] | Some obj \<Rightarrow> payload obj)"
  have bytes: "bytes_of p = object_bytes class_id pl"
    by (auto simp: bytes_of_def class_id_def pl_def split: option.splits)
  have pl: "length pl < 2 ^ 31" 
  proof (cases p)
    case (Some obj)
    then show ?thesis using payload_size [of obj] by (simp add: pl_def)
  qed (simp add: pl_def)
  have r1: "ReadInt ds = Some (Some class_id, ds_advance 4 ds)"
    using assms by (intro ReadInt_ok) (auto simp: bytes object_bytes_def)
  have wf4: "ds_wf (ds_advance 4 ds)"
    "remaining (ds_advance 4 ds) = int_bytes (word_of_nat (length pl)) @ pl @ rest"
    using assms by (simp_all add: ds_wf_advance remaining_advance bytes object_bytes_def)
  then have r2: "ReadInt (ds_advance 4 ds) = Some (Some (word_of_nat (length pl)), ds_advance 8 ds)"
    using ReadInt_ok [OF wf4] by (simp add: ds_advance_add)
  have adv: "ds_wf (ds_advance 8 ds)" "remaining (ds_advance 8 ds) = pl @ rest"
    using wf4 ds_wf_advance [OF wf4(1), of 4] remaining_advance [OF wf4(1), of 4] by (simp_all add: ds_advance_add)
  have adv_end: "ds_advance 8 ds\<lparr>ds_read_pos := ds_read_pos (ds_advance 8 ds) + scast (word_of_nat (length pl) :: int32)\<rparr>
      = ds_advance (length (bytes_of p)) ds"
    using pl by (simp add: scast_of_nat32 ds_advance_def bytes object_bytes_def)
  show ?thesis
  proof (cases p)
    case None
    then show ?thesis using r1 r2
      by (simp add: CreateAndReadObject_def class_id_def pl_def bytes_of_def object_bytes_def)
  next
    case (Some obj)
    then have cid: "class_id = class_id_code (GetSerializableClassId vt obj)" and plo: "pl = payload obj"
      by (simp_all add: class_id_def pl_def)
    from factory_law obtain fresh where fresh: "CreateClass constructors class_id = Some fresh"
      "\<And>ds. ds_wf ds \<Longrightarrow> remaining ds = pl \<Longrightarrow> Deserialize vt fresh ds = Some (True, decoded obj)"
      unfolding cid plo by blast
    note sub = embedded_window [OF adv pl]
    have "Deserialize vt fresh (new_deserializer (ds_mem ds) (ds_base ds + unat (ds_read_pos (ds_advance 8 ds)))
        (scast (word_of_nat (length pl) :: int32))) = Some (True, decoded obj)"
      using fresh(2) [OF sub] by (simp add: ds_advance_def)
    then show ?thesis
      using Some r1 r2 adv_end fresh(1) class_code_nonzero [of obj]
      by (simp add: CreateAndReadObject_def cid [symmetric] Let_def) (simp add: ds_advance_def)
  qed
qed

end

text \<open>Writing and reading a sequence of objects, as a class with several members does.\<close>

primrec write_objects :: "'o serializable \<Rightarrow> 'o option list \<Rightarrow> byte list \<Rightarrow> byte list option" where
  "write_objects vt [] buf = Some buf"
| "write_objects vt (p # ps) buf = do {
     (ok, buf1) \<leftarrow> WriteObject vt p buf;
     assert_that ok;
     write_objects vt ps buf1 }"

primrec read_objects :: "'o serializable \<Rightarrow> 'o constructors \<Rightarrow> nat \<Rightarrow> deserializer \<Rightarrow> ('o option list \<times> deserializer) option" where
  "read_objects vt constructors 0 ds = Some ([], ds)"
| "read_objects vt constructors (Suc n) ds = do {
     ((ok, p), ds1) \<leftarrow> CreateAndReadObject vt constructors ds;
     assert_that ok;
     (ps, ds2) \<leftarrow> read_objects vt constructors n ds1;
     Some (p # ps, ds2) }"

context serializable_class
begin

lemma write_objects_eq: "write_objects vt ps buf = Some (buf @ concat (map bytes_of ps))"
  by (induction ps arbitrary: buf) (simp_all add: write_object)

lemma read_objects_eq:
  "ds_wf ds \<Longrightarrow> remaining ds = concat (map bytes_of ps) @ rest \<Longrightarrow>
    read_objects vt constructors (length ps) ds
      = Some (map (map_option decoded) ps, ds_advance (length (concat (map bytes_of ps))) ds)"
proof (induction ps arbitrary: ds)
  case Nil
  then show ?case by (simp add: ds_advance_0)
next
  case (Cons p ps)
  let ?ds = "ds_advance (length (bytes_of p)) ds"
  have "CreateAndReadObject vt constructors ds = Some ((True, map_option decoded p), ?ds)"
    using Cons.prems by (intro read_object) auto
  moreover have "ds_wf ?ds" "remaining ?ds = concat (map bytes_of ps) @ rest"
    using Cons.prems by (auto simp: ds_wf_advance remaining_advance)
  ultimately show ?case using Cons.IH [of ?ds] by (simp add: ds_advance_add)
qed

end

definition string16_constructors :: "char16 list constructors" where
  "string16_constructors = [class_id_code SERIALIZABLE_STRING16 \<mapsto> []]"

lemma string16_registered: "RegisterSerializableString16 Map.empty = Some string16_constructors"
  by (simp add: RegisterSerializableString16_def RegisterClass_def string16_constructors_def)

lemma c_string_idem [simp]: "c_string (c_string s) = c_string s"
  by (simp add: c_string_id c_string_nonzero)

lemma string_bytes_c_string [simp]: "string_bytes (c_string s) = string_bytes s"
  by (simp add: string_bytes_def string_utf8_def)

interpretation str16: serializable_class SerializableString16 string16_constructors string_bytes string_value
proof (unfold_locales, goal_cases)
  case (3 s)
  then show ?case using string_utf8_shape(1) [of s] by (simp add: string_bytes_def INT_MAX_def)
next
  case (4 s)
  have "Deserialize SerializableString16 [] ds = Some (True, string_value s)"
    if "ds_wf ds" "remaining ds = string_bytes s" for ds
    using ReadString_ok [OF that(1), of s "[]"] that(2) by (simp add: SerializableString16_def)
  then show ?case
    by (simp add: CreateClass_def string16_constructors_def SerializableString16_def)
qed (simp_all add: SerializableString16_def WriteString_append)

section \<open>Fields\<close>

datatype field = FInt int32 | FInt64 int64 | FBool bool | FString "char16 list"

primrec write_field :: "field \<Rightarrow> byte list \<Rightarrow> byte list" where
  "write_field (FInt w) = WriteInt w"
| "write_field (FInt64 w) = WriteInt64 w"
| "write_field (FBool b) = WriteBool b"
| "write_field (FString s) = WriteString s"

text \<open>A reader that expects the type of field it is given and returns what it read.\<close>

primrec read_field :: "field \<Rightarrow> deserializer \<Rightarrow> (field option \<times> deserializer) option" where
  "read_field (FInt w) ds = map_option (\<lambda>(r, ds). (map_option FInt r, ds)) (ReadInt ds)"
| "read_field (FInt64 w) ds = map_option (\<lambda>(r, ds). (map_option FInt64 r, ds)) (ReadInt64 ds)"
| "read_field (FBool b) ds = map_option (\<lambda>(r, ds). (map_option FBool r, ds)) (ReadBool ds)"
| "read_field (FString s) ds = map_option (\<lambda>(r, ds). (map_option FString r, ds)) (ReadString ds)"

primrec read_fields :: "field list \<Rightarrow> deserializer \<Rightarrow> (field list \<times> deserializer) option" where
  "read_fields [] ds = Some ([], ds)"
| "read_fields (f # fs) ds = do {
     (r, ds1) \<leftarrow> read_field f ds;
     v \<leftarrow> r;
     (vs, ds2) \<leftarrow> read_fields fs ds1;
     Some (v # vs, ds2) }"

primrec field_bytes :: "field \<Rightarrow> byte list" where
  "field_bytes (FInt w) = int_bytes w"
| "field_bytes (FInt64 w) = int64_bytes w"
| "field_bytes (FBool b) = [if b then 1 else 0]"
| "field_bytes (FString s) = string_bytes s"

primrec field_value :: "field \<Rightarrow> field" where
  "field_value (FInt w) = FInt w"
| "field_value (FInt64 w) = FInt64 w"
| "field_value (FBool b) = FBool b"
| "field_value (FString s) = FString (string_value s)"

lemma write_field_append: "write_field f buf = buf @ field_bytes f"
  by (cases f) (simp_all add: WriteInt_def WriteInt64_def WriteBool_def WriteBytes_def WriteString_append)

lemma fold_write_field: "fold write_field fs buf = buf @ concat (map field_bytes fs)"
  by (induction fs arbitrary: buf) (simp_all add: write_field_append)

lemma read_field_ok:
  assumes "ds_wf ds" "remaining ds = field_bytes f @ rest"
  shows "read_field f ds = Some (Some (field_value f), ds_advance (length (field_bytes f)) ds)"
  using assms ReadInt_ok [of ds] ReadInt64_ok [of ds] ReadBool_ok [of ds] ReadString_ok [of ds]
  by (cases f) simp_all

lemma read_fields_ok:
  "ds_wf ds \<Longrightarrow> remaining ds = concat (map field_bytes fs) @ rest \<Longrightarrow>
    read_fields fs ds = Some (map field_value fs, ds_advance (length (concat (map field_bytes fs))) ds)"
proof (induction fs arbitrary: ds)
  case Nil
  then show ?case by (simp add: ds_advance_0)
next
  case (Cons f fs)
  let ?ds = "ds_advance (length (field_bytes f)) ds"
  have "read_field f ds = Some (Some (field_value f), ?ds)"
    using Cons.prems by (intro read_field_ok) auto
  moreover have "ds_wf ?ds" "remaining ?ds = concat (map field_bytes fs) @ rest"
    using Cons.prems by (auto simp: ds_wf_advance remaining_advance)
  ultimately show ?case using Cons.IH [of ?ds] by (simp add: ds_advance_add)
qed

text \<open>A deserializer over a whole buffer.\<close>

lemma whole_buffer:
  assumes "length buf < 2 ^ 63"
  defines "ds \<equiv> new_deserializer buf 0 (word_of_nat (length buf))"
  shows "ds_wf ds" "remaining ds = buf"
  using assms by (auto simp: ds_def remaining_new unat_of_nat intro: ds_wf_new)

section \<open>Properties\<close>

text \<open>
  Integers, booleans and strings written one after the other are read back in the same order,
  and the deserializer ends exactly behind the last of them. A string comes back up to its first
  NUL, and empty if that part is not valid UTF-16.
\<close>

theorem serialize_fields_round_trip:
  assumes "length (fold write_field fs []) < 2 ^ 63"
  defines "buf \<equiv> fold write_field fs []"
  shows "\<exists>ds. read_fields fs (new_deserializer buf 0 (word_of_nat (length buf))) = Some (map field_value fs, ds) \<and>
    ds_wf ds \<and> remaining ds = []"
proof -
  note w = whole_buffer [OF assms(1)]
  have "remaining (new_deserializer buf 0 (word_of_nat (length buf))) = concat (map field_bytes fs) @ []"
    using w(2) by (simp add: buf_def fold_write_field)
  from read_fields_ok [OF w(1) [folded buf_def] this] show ?thesis
    using w by (auto simp: buf_def ds_wf_advance remaining_advance fold_write_field)
qed

theorem serialize_fields_round_trip_witness:
  "\<exists>ds. read_fields [FInt 7, FString [0x68, 0x69], FBool True]
     (new_deserializer (fold write_field [FInt 7, FString [0x68, 0x69], FBool True] []) 0
       (word_of_nat (length (fold write_field [FInt 7, FString [0x68, 0x69], FBool True] []))))
     = Some (map field_value [FInt 7, FString [0x68, 0x69], FBool True], ds) \<and> ds_wf ds \<and> remaining ds = []"
proof (rule serialize_fields_round_trip)
  have "fold write_field [FInt 7, FString [0x68, 0x69], FBool True] []
      = [7, 0, 0, 0, 2, 0, 0, 0, 0x68, 0x69, 1]" by code_simp
  then show "length (fold write_field [FInt 7, FString [0x68, 0x69], FBool True] []) < 2 ^ 63" by simp
qed



text \<open>
  \<open>WriteObject\<close> of an object whose \<open>Serialize\<close> fails, after having appended whatever
  it did, reports failure and leaves the buffer as it was.
\<close>

theorem write_object_rewinds:
  assumes "\<And>buf. \<exists>junk. Serialize vt obj buf = (False, buf @ junk)"
  shows "WriteObject vt (Some obj) buf = Some (False, buf)"
proof -
  obtain junk where "Serialize vt obj (WriteInt 0 (WriteInt (class_id_code (GetSerializableClassId vt obj)) buf))
      = (False, WriteInt 0 (WriteInt (class_id_code (GetSerializableClassId vt obj)) buf) @ junk)"
    using assms by blast
  then show ?thesis by (auto simp: WriteObject_def Let_def WriteInt_def WriteBytes_def)
qed

theorem write_object_rewinds_witness:
  "WriteObject \<lparr>GetSerializableClassId = (\<lambda>u :: unit. SERIALIZABLE_BLOB),
     Serialize = (\<lambda>u out. (False, WriteInt 5 out)), Deserialize = (\<lambda>u ds. Some (False, u))\<rparr> (Some ()) [1, 2]
   = Some (False, [1, 2])"
  by (rule write_object_rewinds) (simp add: WriteInt_def WriteBytes_def)

text \<open>
  C39. Bounds: a deserializer whose window lies in its block never reads outside it when it is asked
  for fewer than \<open>2^63\<close> bytes; \<open>ReadBytes\<close> succeeds exactly when enough bytes are left,
  returns the next of them, and otherwise leaves the position where it was.
\<close>

theorem read_bytes_in_bounds:
  assumes "ds_wf ds" "ds_length ds < 2 ^ 63" "n < 2 ^ 63"
  shows "\<exists>r ds'. ReadBytes (word_of_nat n) ds = Some (r, ds') \<and> ds_wf ds' \<and>
    (if n \<le> length (remaining ds) then r = Some (take n (remaining ds)) \<and> remaining ds' = drop n (remaining ds)
     else r = None \<and> ds' = ds)"
proof (cases "n \<le> length (remaining ds)")
  case True
  then have len: "length (take n (remaining ds)) = n" by simp
  from ReadBytes_ok [OF assms(1), of "take n (remaining ds)" "drop n (remaining ds)"] True show ?thesis
    by (simp add: len ds_wf_advance [OF assms(1)] remaining_advance [OF assms(1)])
next
  case False
  have n: "unat (word_of_nat n :: size64) = n" using assms(3) by (simp add: unat_of_nat)
  have "unat (ds_read_pos ds) < 2 ^ 63"
    using assms(1,2) by (simp add: ds_wf_def word_less_nat_alt word_le_nat_alt)
  with False assms(1,3) n have "ReadBytes (word_of_nat n) ds = Some (None, ds)"
    by (intro ReadBytes_short) simp_all
  with False assms(1) show ?thesis by auto
qed

theorem read_bytes_in_bounds_witness:
  "\<exists>r ds'. ReadBytes (word_of_nat 2) (new_deserializer [1, 2, 3] 0 3) = Some (r, ds') \<and> ds_wf ds' \<and>
    (if 2 \<le> length (remaining (new_deserializer [1, 2, 3] 0 3))
     then r = Some (take 2 (remaining (new_deserializer [1, 2, 3] 0 3))) \<and>
       remaining ds' = drop 2 (remaining (new_deserializer [1, 2, 3] 0 3))
     else r = None \<and> ds' = new_deserializer [1, 2, 3] 0 3)"
proof (rule read_bytes_in_bounds)
  show "ds_wf (new_deserializer [1, 2, 3] 0 3)" by code_simp
  show "ds_length (new_deserializer [1, 2, 3] 0 3) < 2 ^ 63" by code_simp
qed simp

text \<open>
  The sizes stored in the data are not validated. A string whose size field is \<open>-1\<close>
  passes the check of \<open>ReadBytes\<close>, because the sum wraps, and the copy leaves the memory block;
  an object whose size field exceeds the data makes the embedded deserializer read beyond the block.
\<close>

theorem deserializer_trusts_sizes:
  "ds_wf (new_deserializer [0xFF, 0xFF, 0xFF, 0xFF] 0 4) \<and>
   ReadString (new_deserializer [0xFF, 0xFF, 0xFF, 0xFF] 0 4) = None \<and>
   ds_wf (new_deserializer [3, 0, 0, 0, 100, 0, 0, 0, 50, 0, 0, 0] 0 12) \<and>
   CreateAndReadObject SerializableString16 string16_constructors
     (new_deserializer [3, 0, 0, 0, 100, 0, 0, 0, 50, 0, 0, 0] 0 12) = None"
proof (intro conjI)
  show "ds_wf (new_deserializer [0xFF, 0xFF, 0xFF, 0xFF] 0 4)" by code_simp
  have "ReadInt (new_deserializer [0xFF, 0xFF, 0xFF, 0xFF] 0 4)
      = Some (Some (- 1), \<lparr>ds_mem = [0xFF, 0xFF, 0xFF, 0xFF], ds_base = 0, ds_length = 4, ds_read_pos = 4\<rparr>)"
    by code_simp
  moreover have "unat (- 1 :: size64) \<noteq> 0" by (simp add: unat_eq_0)
  ultimately show "ReadString (new_deserializer [0xFF, 0xFF, 0xFF, 0xFF] 0 4) = None"
    by (simp add: ReadString_def ReadBytes_def load_def INT_MAX_def scast_n1)
  show "ds_wf (new_deserializer [3, 0, 0, 0, 100, 0, 0, 0, 50, 0, 0, 0] 0 12)" by code_simp
  show "CreateAndReadObject SerializableString16 string16_constructors
     (new_deserializer [3, 0, 0, 0, 100, 0, 0, 0, 50, 0, 0, 0] 0 12) = None" by code_simp
qed

end
