(* ===== verification/IpcRegistry.thy ===== *)
theory IpcRegistry
  imports Prelude
begin

text \<open>
  The process registry of \<open>src/common/ipc_message_queue_win32.cc\<close>: a fixed array of process ids
  in shared memory with a revision number, guarded by a named mutex, and a copy of it cached by each
  process. Outcomes of system calls are arguments: \<open>abandoned\<close> says whether the mutex was
  abandoned by its previous owner, \<open>alive\<close> whether \<open>OpenProcess\<close> finds a process. The
  argument \<open>asserts\<close> says whether assertions are compiled in (they have side effects in
  \<open>Add\<close>).
\<close>

section \<open>State and operations\<close>

type_synonym IpcProcessId = uint32

record registry =
  revision :: int32
  processes :: "IpcProcessId list"

definition kInvalidProcessId :: IpcProcessId where
  "kInvalidProcessId = 0"

definition kMaxProcesses :: nat where
  "kMaxProcesses = 31"

text \<open>A new block of shared memory is zero filled.\<close>

definition registry_zero :: registry where
  "registry_zero = \<lparr>revision = 0, processes = replicate kMaxProcesses kInvalidProcessId\<rparr>"

text \<open>The per-process object: whether the view is mapped, and the cached copy.\<close>

record ipc_process_registry =
  is_mapped :: bool
  cached_registry :: registry

text \<open>
  The scan for the last valid index: from index \<open>i\<close> on, until an invalid id; \<open>None\<close> is
  the \<open>-1\<close> of the source.
\<close>

fun last_valid_from :: "IpcProcessId list \<Rightarrow> nat \<Rightarrow> nat option \<Rightarrow> nat option" where
  "last_valid_from [] i last_valid = last_valid"
| "last_valid_from (p # ps) i last_valid =
     (if p = kInvalidProcessId then last_valid else last_valid_from ps (Suc i) (Some i))"

definition registry_repair :: "registry \<Rightarrow> registry" where
  "registry_repair r =
     (case last_valid_from (processes r) 0 None of
        None \<Rightarrow> r
      | Some last_valid \<Rightarrow>
          (case first_index (\<lambda>p. p = processes r ! last_valid) (take last_valid (processes r)) 0 of
             None \<Rightarrow> r
           | Some _ \<Rightarrow> r\<lparr>revision := revision r + 1,
                processes := (processes r)[last_valid := kInvalidProcessId]\<rparr>))"

text \<open>
  \<open>Remove\<close> updates the shared block by a sequence of stores; a process may die between any
  two of them.
\<close>

definition registry_remove_stores :: "IpcProcessId \<Rightarrow> registry \<Rightarrow> (registry \<Rightarrow> registry) list" where
  "registry_remove_stores pid r =
     (case first_index (\<lambda>p. p = pid) (processes r) 0 of
        None \<Rightarrow> []
      | Some our_index \<Rightarrow>
          (case last_valid_from (drop (Suc our_index) (processes r)) (Suc our_index) (Some our_index) of
             None \<Rightarrow> []
           | Some last_valid_index \<Rightarrow>
               [\<lambda>s. s\<lparr>revision := revision s + 1\<rparr>] @
               (if last_valid_index \<noteq> our_index
                then [\<lambda>s. s\<lparr>processes := (processes s)[our_index := processes s ! last_valid_index]\<rparr>,
                      \<lambda>s. s\<lparr>processes := (processes s)[last_valid_index := kInvalidProcessId]\<rparr>]
                else [\<lambda>s. s\<lparr>processes := (processes s)[our_index := kInvalidProcessId]\<rparr>])))"

definition run_stores :: "('s \<Rightarrow> 's) list \<Rightarrow> 's \<Rightarrow> 's" where
  "run_stores fs s = fold (\<lambda>f t. f t) fs s"

definition registry_lock :: "bool \<Rightarrow> registry \<Rightarrow> registry" where
  "registry_lock abandoned r = (if abandoned then registry_repair r else r)"

definition registry_remove ::
    "bool \<Rightarrow> IpcProcessId \<Rightarrow> ipc_process_registry \<Rightarrow> registry \<Rightarrow> (bool \<times> registry) option" where
  "registry_remove abandoned pid self shared = do {
     assert_that (pid \<noteq> 0);
     if \<not> is_mapped self then Some (False, shared)
     else let r = registry_lock abandoned shared in
       (case first_index (\<lambda>p. p = pid) (processes r) 0 of
          None \<Rightarrow> Some (False, r)
        | Some our_index \<Rightarrow> Some (True, run_stores (registry_remove_stores pid r) r))
   }"

definition registry_add_body ::
    "bool \<Rightarrow> (IpcProcessId \<Rightarrow> bool) \<Rightarrow> IpcProcessId \<Rightarrow> registry \<Rightarrow> (bool \<times> registry) option" where
  "registry_add_body asserts alive pid r =
     (case first_index (\<lambda>p. p = kInvalidProcessId) (processes r) 0 of
        Some i \<Rightarrow> Some (True, r\<lparr>revision := revision r + 1, processes := (processes r)[i := pid]\<rparr>)
      | None \<Rightarrow>
          (case first_index (\<lambda>p. \<not> alive p) (processes r) 0 of
             Some i \<Rightarrow> Some (True, r\<lparr>revision := revision r + 1, processes := (processes r)[i := pid]\<rparr>)
           | None \<Rightarrow> do { assert_that (\<not> asserts); Some (False, r) }))"

definition registry_add ::
    "bool \<Rightarrow> bool \<Rightarrow> bool \<Rightarrow> (IpcProcessId \<Rightarrow> bool) \<Rightarrow> IpcProcessId \<Rightarrow>
     ipc_process_registry \<Rightarrow> registry \<Rightarrow> (bool \<times> registry) option" where
  "registry_add asserts abandoned1 abandoned2 alive pid self shared = do {
     assert_that (asserts \<longrightarrow> pid \<noteq> 0);
     shared1 \<leftarrow> (if asserts then do {
                    (removed, s) \<leftarrow> registry_remove abandoned1 pid self shared;
                    assert_that (\<not> removed);
                    Some s
                  } else Some shared);
     if \<not> is_mapped self then Some (False, shared1)
     else registry_add_body asserts alive pid (registry_lock abandoned2 shared1)
   }"

definition registry_get_all ::
    "bool \<Rightarrow> ipc_process_registry \<Rightarrow> registry \<Rightarrow> IpcProcessId list \<times> ipc_process_registry \<times> registry" where
  "registry_get_all abandoned self shared =
     (if \<not> is_mapped self then ([], self, shared)
      else let (self', shared') =
             (if revision (cached_registry self) \<noteq> revision shared
              then let r = registry_lock abandoned shared in (self\<lparr>cached_registry := r\<rparr>, r)
              else (self, shared))
           in (takeWhile (\<lambda>p. p \<noteq> kInvalidProcessId) (processes (cached_registry self')), self', shared'))"

text \<open>
  \<open>Open\<close>: the mutex is created (\<open>mutex_ok\<close>), the memory is opened when it exists
  (\<open>existing\<close>) and created otherwise, and the view is mapped when \<open>view_ok\<close>.
\<close>

definition registry_open ::
    "bool \<Rightarrow> bool \<Rightarrow> bool \<Rightarrow> bool \<Rightarrow> bool \<Rightarrow> registry option \<Rightarrow> ipc_process_registry \<Rightarrow>
     (bool \<times> ipc_process_registry \<times> registry option) option" where
  "registry_open asserts mutex_ok create_ok view_ok abandoned existing self =
     (if \<not> mutex_ok then Some (False, self, existing)
      else case existing of
        Some shared \<Rightarrow>
          if \<not> view_ok then Some (False, self, existing)
          else let r = registry_lock abandoned shared
               in Some (True, self\<lparr>is_mapped := True, cached_registry := r\<rparr>, Some r)
      | None \<Rightarrow>
          if \<not> create_ok then Some (False, self, None)
          else if \<not> view_ok then Some (False, self, Some registry_zero)
          else do {
            assert_that (asserts \<longrightarrow> revision registry_zero = 0);
            assert_that (asserts \<longrightarrow> processes registry_zero ! 0 = 0);
            Some (True, self\<lparr>is_mapped := True, cached_registry := registry_zero\<rparr>, Some registry_zero)
          })"

text \<open>The self check of the test build: no holes, no duplicates, the current process present.\<close>

definition registry_verify :: "bool \<Rightarrow> IpcProcessId \<Rightarrow> bool \<Rightarrow> registry \<Rightarrow> bool option" where
  "registry_verify asserts current check_for_current_process cached =
     (let valid = takeWhile (\<lambda>p. p \<noteq> kInvalidProcessId) (processes cached);
          rest = drop (Suc (length valid)) (processes cached);
          contains_current_process =
            (current \<in> set (take (Suc (length valid)) (processes cached)));
          failed = do { assert_that (\<not> asserts); Some False }
      in if \<exists>p \<in> set rest. p \<noteq> kInvalidProcessId then failed
         else if card (set valid) \<noteq> length valid then failed
         else if check_for_current_process \<and> \<not> contains_current_process then failed
         else Some True)"

section \<open>Invariant\<close>

text \<open>
  A well-formed registry lists distinct non-zero ids without holes; \<open>registry_ids\<close> is the list
  a reader sees.
\<close>

definition registry_ids :: "registry \<Rightarrow> IpcProcessId list" where
  "registry_ids r = takeWhile (\<lambda>p. p \<noteq> 0) (processes r)"

definition registry_shape :: "registry \<Rightarrow> IpcProcessId list \<Rightarrow> bool" where
  "registry_shape r ids \<longleftrightarrow> processes r = ids @ replicate (31 - length ids) 0 \<and>
     length ids \<le> 31 \<and> 0 \<notin> set ids \<and> distinct ids"

definition registry_wf :: "registry \<Rightarrow> bool" where
  "registry_wf r \<longleftrightarrow> registry_shape r (registry_ids r)"

lemmas registry_consts [simp] = kInvalidProcessId_def kMaxProcesses_def

lemma registry_shape_ids: "registry_shape r ids \<Longrightarrow> registry_ids r = ids"
  by (auto simp: registry_shape_def registry_ids_def takeWhile_append)

lemma registry_shape_wf: "registry_shape r ids \<Longrightarrow> registry_wf r"
  by (simp add: registry_wf_def registry_shape_ids)

lemma registry_shape_length: "registry_shape r ids \<Longrightarrow> length (processes r) = 31"
  by (simp add: registry_shape_def)

lemma last_valid_from_ids:
  "0 \<notin> set ids \<Longrightarrow> last_valid_from (ids @ replicate k 0) i acc =
     (if ids = [] then acc else Some (i + length ids - 1))"
proof (induction ids arbitrary: i acc)
  case Nil
  then show ?case by (cases k) auto
next
  case (Cons p ids)
  then show ?case by auto
qed

lemma first_index_ids:
  "pid \<notin> set us \<Longrightarrow> first_index (\<lambda>p. p = pid) (us @ pid # vs) i = Some (i + length us)"
  by (subst first_index_append) auto

lemma first_index_absent: "pid \<notin> set xs \<Longrightarrow> first_index (\<lambda>p. p = pid) xs i = None"
  by (auto simp: first_index_None)

lemma registry_repair_wf: "registry_shape r ids \<Longrightarrow> registry_repair r = r"
proof (cases ids rule: rev_cases)
  case Nil
  assume "registry_shape r ids"
  with Nil show ?thesis using last_valid_from_ids [of "[]" 31 0 None]
    by (simp add: registry_repair_def registry_shape_def)
next
  case (snoc us l)
  assume sh: "registry_shape r ids"
  let ?z = "replicate (31 - length ids) 0"
  from sh snoc have lv: "last_valid_from (processes r) 0 None = Some (length us)"
    using last_valid_from_ids [of ids "31 - length ids" 0 None] by (simp add: registry_shape_def)
  from sh snoc have ps: "processes r = us @ l # ?z" "l \<notin> set us"
    by (auto simp: registry_shape_def)
  show ?thesis
    unfolding registry_repair_def lv option.case by (simp add: ps first_index_absent)
qed

lemma registry_repair_dup:
  assumes "processes r = us @ l # ws @ l # replicate k 0" "0 \<notin> set us" "0 \<notin> set ws" "l \<noteq> 0"
  shows "registry_repair r = r\<lparr>revision := revision r + 1, processes := us @ l # ws @ 0 # replicate k 0\<rparr>"
proof -
  let ?xs = "us @ l # ws"
  have ps: "processes r = ?xs @ l # replicate k 0" using assms(1) by simp
  have "last_valid_from ((?xs @ [l]) @ replicate k 0) 0 None = Some (length ?xs)"
    using assms by (subst last_valid_from_ids) auto
  then have lv: "last_valid_from (processes r) 0 None = Some (length ?xs)"
    by (simp add: assms(1))
  have "first_index (\<lambda>p. p = l) ?xs 0 \<noteq> None"
    by (auto simp: first_index_None)
  then obtain j where j: "first_index (\<lambda>p. p = l) ?xs 0 = Some j" by blast
  have nth: "processes r ! length ?xs = l" unfolding ps by (rule nth_append_length)
  have tk: "take (length ?xs) (processes r) = ?xs" unfolding ps by simp
  have up: "(processes r)[length ?xs := 0] = ?xs @ 0 # replicate k 0"
    unfolding ps by (rule list_update_append_here)
  show ?thesis
    unfolding registry_repair_def lv option.case tk nth j up kInvalidProcessId_def by simp
qed

text \<open>The stores of \<open>Remove\<close>, one case for the last entry and one for an inner entry.\<close>

lemma registry_remove_stores_last:
  assumes "registry_shape r (us @ [pid])"
  shows "registry_remove_stores pid r =
    [\<lambda>s. s\<lparr>revision := revision s + 1\<rparr>,
     \<lambda>s. s\<lparr>processes := (processes s)[length us := 0]\<rparr>]"
proof -
  let ?z = "replicate (30 - length us) (0::uint32)"
  from assms have ps: "processes r = us @ pid # ?z" "pid \<notin> set us" "length us \<le> 30"
    by (auto simp: registry_shape_def)
  have fi: "first_index (\<lambda>p. p = pid) (processes r) 0 = Some (length us)"
    using first_index_ids [OF ps(2), of ?z 0] by (simp add: ps(1))
  have lv: "last_valid_from (drop (Suc (length us)) (processes r)) (Suc (length us)) (Some (length us))
      = Some (length us)"
    using last_valid_from_ids [of "[]" "30 - length us"] by (simp add: ps(1))
  show ?thesis by (simp add: registry_remove_stores_def fi lv)
qed

lemma registry_remove_stores_inner:
  assumes "registry_shape r (us @ pid # ws @ [l])"
  shows "registry_remove_stores pid r =
    [\<lambda>s. s\<lparr>revision := revision s + 1\<rparr>,
     \<lambda>s. s\<lparr>processes := (processes s)[length us := processes s ! (length us + length ws + 1)]\<rparr>,
     \<lambda>s. s\<lparr>processes := (processes s)[length us + length ws + 1 := 0]\<rparr>]"
proof -
  let ?z = "replicate (29 - length us - length ws) (0::uint32)"
  from assms have ps: "processes r = us @ pid # (ws @ [l]) @ ?z" "pid \<notin> set us" "0 \<notin> set (ws @ [l])"
    by (auto simp: registry_shape_def)
  have fi: "first_index (\<lambda>p. p = pid) (processes r) 0 = Some (length us)"
    unfolding ps(1) using first_index_ids [OF ps(2), of "(ws @ [l]) @ ?z" 0] by simp
  have dr: "drop (Suc (length us)) (processes r) = (ws @ [l]) @ ?z"
    by (simp add: ps(1))
  have lv: "last_valid_from (drop (Suc (length us)) (processes r)) (Suc (length us)) (Some (length us))
      = Some (length us + length ws + 1)"
    unfolding dr using last_valid_from_ids [OF ps(3)] by simp
  show ?thesis by (simp add: registry_remove_stores_def fi lv)
qed

lemma registry_shape_split:
  assumes "registry_shape r ids" "pid \<in> set ids"
  obtains (last) us where "ids = us @ [pid]" "registry_shape r (us @ [pid])"
  | (inner) us ws l where "ids = us @ pid # ws @ [l]" "registry_shape r (us @ pid # ws @ [l])"
proof -
  from assms(2) obtain us vs where uv: "ids = us @ pid # vs" by (meson split_list)
  show thesis
  proof (cases vs rule: rev_cases)
    case Nil
    with uv assms(1) last show ?thesis by simp
  next
    case (snoc ws l)
    with uv assms(1) inner show ?thesis by simp
  qed
qed


lemma run_stores_simps [simp]:
  "run_stores [] s = s" "run_stores (f # fs) s = run_stores fs (f s)"
  by (simp_all add: run_stores_def)

text \<open>
  A process that dies after any number of the stores leaves an array that \<open>Repair\<close> turns
  into a well-formed one: the entry is either still there or gone.
\<close>

lemma registry_remove_stores_crash:
  assumes sh: "registry_shape r ids" and pid: "pid \<in> set ids"
  shows "\<exists>ids'. registry_shape (registry_repair (run_stores (take k (registry_remove_stores pid r)) r)) ids' \<and>
    (set ids' = set ids \<or> set ids' = set ids - {pid})"
  using sh pid
proof (cases rule: registry_shape_split)
  case (last us)
  let ?r1 = "r\<lparr>revision := revision r + 1\<rparr>"
  let ?r2 = "?r1\<lparr>processes := (processes r)[length us := 0]\<rparr>"
  have "k = 0 \<or> k = 1 \<or> 2 \<le> k" by arith
  moreover have r1: "registry_shape ?r1 ids" using sh by (simp add: registry_shape_def)
  moreover have "registry_shape ?r2 us"
    using sh last(1) by (auto simp: registry_shape_def simp flip: replicate_Suc)
  moreover have "set us = set ids - {pid}"
    using sh last(1) by (auto simp: registry_shape_def)
  ultimately show ?thesis
    using sh by (auto simp: registry_remove_stores_last [OF last(2)] registry_repair_wf take_Cons')
next
  case (inner us ws l)
  let ?n = "length us + length ws + 1"
  let ?z = "replicate (29 - length us - length ws) (0::uint32)"
  let ?r1 = "r\<lparr>revision := revision r + 1\<rparr>"
  let ?r2 = "?r1\<lparr>processes := us @ l # ws @ l # ?z\<rparr>"
  let ?r3 = "\<lambda>n. r\<lparr>revision := n, processes := us @ l # ws @ 0 # ?z\<rparr>"
  have ps: "processes r = us @ pid # ws @ l # ?z" "length us + length ws \<le> 29" "0 \<notin> set us" "0 \<notin> set ws"
    "l \<noteq> 0" and ids: "set (us @ l # ws) = set ids - {pid}" "distinct (us @ l # ws)"
    using sh inner(1) by (auto simp: registry_shape_def)
  have sh3: "registry_shape (?r3 n) (us @ l # ws)" for n
    using ps ids(2) by (auto simp: registry_shape_def simp flip: replicate_Suc)
  have st: "run_stores (take k (registry_remove_stores pid r)) r \<in> {r, ?r1, ?r2, ?r3 (revision r + 1)}"
  proof -
    have "(us @ pid # ws @ l # ?z) ! ?n = l"
      by (simp add: nth_append)
    moreover have "(us @ l # ws @ l # ?z)[?n := 0] = us @ l # ws @ 0 # ?z"
      by (simp add: list_update_append)
    moreover have "k = 0 \<or> k = 1 \<or> k = 2 \<or> 3 \<le> k" by arith
    ultimately show ?thesis
      by (auto simp: registry_remove_stores_inner [OF inner(2)] ps(1) take_Cons' numeral_eq_Suc)
  qed
  let ?P = "\<lambda>t. \<exists>ids'. registry_shape (registry_repair t) ids' \<and>
    (set ids' = set ids \<or> set ids' = set ids - {pid})"
  have sh1: "registry_shape ?r1 ids" using sh by (simp add: registry_shape_def)
  have "?P r" "?P ?r1"
    by (rule exI [of _ ids], simp add: sh sh1 registry_repair_wf [OF sh] registry_repair_wf [OF sh1])+
  moreover have "registry_repair ?r2 = ?r3 (revision r + 2)"
    using registry_repair_dup [of ?r2 us l ws] ps by simp
  then have "?P ?r2"
    by (intro exI [of _ "us @ l # ws"]) (simp only: sh3 ids(1) simp_thms)
  moreover have "?P (?r3 (revision r + 1))"
    by (intro exI [of _ "us @ l # ws"]) (simp only: sh3 registry_repair_wf [OF sh3] ids(1) simp_thms)
  ultimately show ?thesis
    using st by (elim insertE emptyE) simp_all
qed

lemma registry_remove_stores_done:
  assumes sh: "registry_shape r ids" and pid: "pid \<in> set ids"
  shows "\<exists>ids'. registry_shape (run_stores (registry_remove_stores pid r) r) ids' \<and>
    set ids' = set ids - {pid} \<and> revision (run_stores (registry_remove_stores pid r) r) = revision r + 1"
  using sh pid
proof (cases rule: registry_shape_split)
  case (last us)
  then have "registry_shape (run_stores (registry_remove_stores pid r) r) us"
    by (auto simp: registry_remove_stores_last [OF last(2)] registry_shape_def simp flip: replicate_Suc)
  then show ?thesis using last sh
    by (intro exI [of _ us]) (auto simp: registry_remove_stores_last [OF last(2)] registry_shape_def)
next
  case (inner us ws l)
  let ?z = "replicate (29 - length us - length ws) (0::uint32)"
  have "registry_shape (run_stores (registry_remove_stores pid r) r) (us @ l # ws)"
    using inner(2) by (auto simp: registry_remove_stores_inner [OF inner(2)] registry_shape_def
        nth_append list_update_append simp flip: replicate_Suc)
  then show ?thesis using inner sh
    by (intro exI [of _ "us @ l # ws"])
      (auto simp: registry_remove_stores_inner [OF inner(2)] registry_shape_def)
qed


lemma registry_lock_wf: "registry_wf r \<Longrightarrow> registry_lock abandoned r = r"
  by (auto simp: registry_lock_def registry_wf_def intro: registry_repair_wf)

lemma first_index_shape:
  assumes "registry_shape r ids"
  shows "pid \<noteq> 0 \<Longrightarrow> pid \<notin> set ids \<Longrightarrow> first_index (\<lambda>p. p = pid) (processes r) i = None"
    and "pid \<in> set ids \<Longrightarrow> \<exists>j. first_index (\<lambda>p. p = pid) (processes r) i = Some j"
    and "length ids < 31 \<Longrightarrow> first_index (\<lambda>p. p = 0) (processes r) 0 = Some (length ids)"
    and "length ids = 31 \<Longrightarrow> first_index (\<lambda>p. p = 0) (processes r) 0 = None"
proof -
  have ps: "processes r = ids @ replicate (31 - length ids) 0" and z: "0 \<notin> set ids"
    using assms by (auto simp: registry_shape_def)
  show "first_index (\<lambda>p. p = pid) (processes r) i = None" if "pid \<noteq> 0" "pid \<notin> set ids"
    using that by (auto simp: ps first_index_None)
  show "\<exists>j. first_index (\<lambda>p. p = pid) (processes r) i = Some j" if "pid \<in> set ids"
    using that first_index_None [of "\<lambda>p. p = pid" "processes r" i] by (auto simp: ps)
  show "first_index (\<lambda>p. p = 0) (processes r) 0 = Some (length ids)" if len: "length ids < 31"
  proof -
    from len obtain k where "31 - length ids = Suc k" by (metis zero_less_diff gr0_conv_Suc)
    with z show ?thesis using first_index_ids [OF z, of "replicate k 0" 0] by (simp add: ps)
  qed
  show "first_index (\<lambda>p. p = 0) (processes r) 0 = None" if "length ids = 31"
    using that z by (auto simp: ps first_index_None)
qed

lemma registry_remove_present:
  assumes wf: "registry_wf r" and m: "is_mapped self" and pid: "pid \<noteq> 0" "pid \<in> set (registry_ids r)"
  shows "\<exists>r'. registry_remove abandoned pid self r = Some (True, r') \<and> registry_wf r' \<and>
    set (registry_ids r') = set (registry_ids r) - {pid} \<and> revision r' = revision r + 1"
proof -
  from wf have sh: "registry_shape r (registry_ids r)" by (simp add: registry_wf_def)
  from registry_remove_stores_done [OF sh pid(2)] obtain ids' where ids':
    "registry_shape (run_stores (registry_remove_stores pid r) r) ids'"
    "set ids' = set (registry_ids r) - {pid}"
    "revision (run_stores (registry_remove_stores pid r) r) = revision r + 1" by blast
  from first_index_shape(2) [OF sh pid(2)] obtain j where
    "first_index (\<lambda>p. p = pid) (processes r) 0 = Some j" by blast
  with ids' m pid(1) show ?thesis
    by (auto simp: registry_remove_def registry_lock_wf [OF wf] Let_def
        dest: registry_shape_ids registry_shape_wf)
qed

lemma registry_remove_absent:
  assumes wf: "registry_wf r" and pid: "pid \<noteq> 0" "pid \<notin> set (registry_ids r)"
  shows "registry_remove abandoned pid self r = Some (False, r)"
  using first_index_shape(1) [OF wf [unfolded registry_wf_def] pid] pid
  by (simp add: registry_remove_def registry_lock_wf [OF wf] Let_def)

lemma registry_add_eq:
  assumes wf: "registry_wf r" and m: "is_mapped self" and pid: "pid \<noteq> 0" "pid \<notin> set (registry_ids r)"
  shows "registry_add asserts ab1 ab2 alive pid self r = registry_add_body asserts alive pid r"
  using pid m by (simp add: registry_add_def registry_remove_absent [OF wf pid] registry_lock_wf [OF wf])

lemma registry_shape_add:
  assumes "registry_shape r ids" "length ids < 31" "pid \<noteq> 0" "pid \<notin> set ids"
  shows "registry_shape (r\<lparr>revision := n, processes := (processes r)[length ids := pid]\<rparr>) (ids @ [pid])"
proof -
  obtain k where k: "31 - length ids = Suc k" using assms(2) by (metis zero_less_diff gr0_conv_Suc)
  with assms show ?thesis by (auto simp: registry_shape_def)
qed

lemma registry_shape_replace:
  assumes "registry_shape r ids" "i < length ids" "length ids = 31" "pid \<noteq> 0" "pid \<notin> set ids"
  shows "registry_shape (r\<lparr>revision := n, processes := (processes r)[i := pid]\<rparr>) (ids[i := pid])"
  using assms by (auto simp: registry_shape_def dest!: set_update_subset_insert [THEN subsetD]
      intro!: distinct_list_update)

lemma registry_add_body_free:
  assumes wf: "registry_wf r" and pid: "pid \<noteq> 0" "pid \<notin> set (registry_ids r)"
    and len: "length (registry_ids r) < 31"
  shows "\<exists>r'. registry_add_body asserts alive pid r = Some (True, r') \<and> registry_wf r' \<and>
    registry_ids r' = registry_ids r @ [pid] \<and> revision r' = revision r + 1"
proof -
  from wf have sh: "registry_shape r (registry_ids r)" by (simp add: registry_wf_def)
  from registry_shape_add [OF sh len pid] first_index_shape(3) [OF sh len] show ?thesis
    by (auto simp: registry_add_body_def dest: registry_shape_ids registry_shape_wf)
qed

lemma registry_add_body_full:
  assumes wf: "registry_wf r" and pid: "pid \<noteq> 0" "pid \<notin> set (registry_ids r)"
    and len: "length (registry_ids r) = 31"
  shows "(case first_index (\<lambda>p. \<not> alive p) (registry_ids r) 0 of
      Some i \<Rightarrow> \<exists>r'. registry_add_body asserts alive pid r = Some (True, r') \<and> registry_wf r' \<and>
        registry_ids r' = (registry_ids r)[i := pid] \<and> revision r' = revision r + 1
    | None \<Rightarrow> registry_add_body asserts alive pid r = (if asserts then None else Some (False, r)))"
proof -
  from wf have sh: "registry_shape r (registry_ids r)" by (simp add: registry_wf_def)
  have ps: "processes r = registry_ids r" using sh len by (simp add: registry_shape_def)
  show ?thesis
  proof (cases "first_index (\<lambda>p. \<not> alive p) (registry_ids r) 0")
    case None
    then show ?thesis using first_index_shape(4) [OF sh len]
      by (simp add: registry_add_body_def ps)
  next
    case (Some i)
    then have "i < length (registry_ids r)" using first_index_Some by fastforce
    from registry_shape_replace [OF sh this len pid, of "revision r + 1"]
    show ?thesis using Some first_index_shape(4) [OF sh len]
      by (auto simp: registry_add_body_def ps dest: registry_shape_ids registry_shape_wf)
  qed
qed

text \<open>
  How the shared block evolves: complete operations of any process, and a process that dies inside
  \<open>Remove\<close>, after which the next process to lock the registry finds the mutex abandoned. The
  first argument counts the increments of the revision number.
\<close>

inductive registry_evolves :: "nat \<Rightarrow> registry \<Rightarrow> registry \<Rightarrow> bool" where
  same: "registry_evolves 0 r r"
| add: "registry_evolves n r s \<Longrightarrow> is_mapped p \<Longrightarrow> pid \<noteq> 0 \<Longrightarrow> asserts \<or> pid \<notin> set (registry_ids s) \<Longrightarrow>
    registry_add asserts ab1 ab2 alive pid p s = Some (True, t) \<Longrightarrow> registry_evolves (n + 1) r t"
| remove: "registry_evolves n r s \<Longrightarrow> is_mapped p \<Longrightarrow>
    registry_remove ab pid p s = Some (True, t) \<Longrightarrow> registry_evolves (n + 1) r t"
| crash: "registry_evolves n r s \<Longrightarrow> pid \<in> set (registry_ids s) \<Longrightarrow> 0 < k \<Longrightarrow>
    u = run_stores (take k (registry_remove_stores pid s)) s \<Longrightarrow>
    registry_evolves (n + (if registry_repair u = u then 1 else 2)) r (registry_repair u)"

lemma registry_repair_revision:
  "registry_repair u \<noteq> u \<Longrightarrow> revision (registry_repair u) = revision u + 1"
  by (auto simp: registry_repair_def split: option.splits)

lemma registry_crash_revision:
  assumes sh: "registry_shape r ids" and pid: "pid \<in> set ids" and k: "0 < k"
  shows "revision (run_stores (take k (registry_remove_stores pid r)) r) = revision r + 1"
  using sh pid
proof (cases rule: registry_shape_split)
  case (last us)
  from k show ?thesis
    by (cases k) (auto simp: registry_remove_stores_last [OF last(2)] take_Cons')
next
  case (inner us ws l)
  from k show ?thesis
    by (cases k) (auto simp: registry_remove_stores_inner [OF inner(2)] take_Cons')
qed

lemma registry_add_cases:
  assumes wf: "registry_wf s" and m: "is_mapped p" and pid: "pid \<noteq> 0"
    and ok: "asserts \<or> pid \<notin> set (registry_ids s)"
    and eq: "registry_add asserts ab1 ab2 alive pid p s = Some (True, t)"
  shows "registry_wf t \<and> revision t = revision s + 1"
proof -
  have notin: "pid \<notin> set (registry_ids s)"
  proof
    assume mem: "pid \<in> set (registry_ids s)"
    then obtain r' where "registry_remove ab1 pid p s = Some (True, r')"
      using registry_remove_present [OF wf m pid] by blast
    then have "asserts \<Longrightarrow> registry_add asserts ab1 ab2 alive pid p s = None"
      by (simp add: registry_add_def)
    with ok mem eq show False by simp
  qed
  have eq': "registry_add_body asserts alive pid s = Some (True, t)"
    using eq registry_add_eq [OF wf m pid notin] by simp
  have "length (registry_ids s) \<le> 31"
    using wf by (simp add: registry_wf_def registry_shape_def)
  then consider "length (registry_ids s) < 31" | "length (registry_ids s) = 31" by linarith
  then show ?thesis
  proof cases
    case 1
    with registry_add_body_free [OF wf pid notin 1, of asserts alive] eq' show ?thesis by auto
  next
    case 2
    with registry_add_body_full [OF wf pid notin 2, of asserts alive] eq' show ?thesis
      by (auto split: option.splits if_splits)
  qed
qed

lemma registry_evolves_wf:
  assumes "registry_evolves n r s" and "registry_wf r"
  shows "registry_wf s \<and> revision s = revision r + of_nat n \<and> (n = 0 \<longrightarrow> s = r)"
  using assms
proof (induction rule: registry_evolves.induct)
  case (same r)
  then show ?case by simp
next
  case (add n r s p pid asserts ab1 ab2 alive t)
  then show ?case
    using registry_add_cases [of s p pid asserts ab1 ab2 alive t] by (auto simp: algebra_simps)
next
  case (remove n r s p ab pid t)
  then have wf: "registry_wf s" by simp
  from remove(3) have nz: "pid \<noteq> 0" by (auto simp: registry_remove_def)
  have "pid \<in> set (registry_ids s)"
    using remove(3) registry_remove_absent [OF wf nz] by fastforce
  from registry_remove_present [OF wf remove(2) nz this, of ab] remove show ?case
    by (auto simp: algebra_simps)
next
  case (crash n r s pid k u)
  then have sh: "registry_shape s (registry_ids s)" by (simp add: registry_wf_def)
  have "registry_wf (registry_repair u)"
    using registry_remove_stores_crash [OF sh crash(2), of k] crash(4) registry_shape_wf by blast
  moreover have "revision u = revision s + 1"
    using registry_crash_revision [OF sh crash(2,3)] crash(4) by simp
  ultimately show ?case
    using crash registry_repair_revision [of u] by (auto simp: algebra_simps)
qed


lemma registry_verify_wf:
  assumes "registry_wf r"
  shows "registry_verify asserts current False r = Some True"
proof -
  let ?z = "replicate (31 - length (registry_ids r)) (0::uint32)"
  have ps: "processes r = registry_ids r @ ?z" and d: "distinct (registry_ids r)"
    using assms by (auto simp: registry_wf_def registry_shape_def)
  have "drop (Suc (length (registry_ids r))) (processes r) = tl ?z"
    by (subst ps) (simp add: drop_Suc)
  moreover have "\<forall>p \<in> set (tl ?z). p = 0"
    by (metis in_set_replicate list.set_sel(2) tl_Nil empty_iff list.set(1))
  moreover have "takeWhile (\<lambda>p. p \<noteq> 0) (processes r) = registry_ids r"
    by (simp add: registry_ids_def)
  ultimately show ?thesis
    using d by (auto simp: registry_verify_def distinct_card Let_def)
qed

section \<open>Properties\<close>

text \<open>
  Registering a process: on a well-formed registry \<open>Add\<close> of a new id appends it to the
  registered ids, or, when all 31 slots are used, replaces the first dead process; only when every
  slot holds a live process does it fail (the assertion aborts a checked build). It bumps the
  revision exactly when it changes the registry and keeps it well formed.
\<close>

theorem registry_add_registers:
  assumes "registry_wf r" and "is_mapped self" and "pid \<noteq> 0" and "pid \<notin> set (registry_ids r)"
  shows "(if length (registry_ids r) < 31 then
      \<exists>r'. registry_add asserts ab1 ab2 alive pid self r = Some (True, r') \<and> registry_wf r' \<and>
        registry_ids r' = registry_ids r @ [pid] \<and> revision r' = revision r + 1
    else case first_index (\<lambda>p. \<not> alive p) (registry_ids r) 0 of
      Some i \<Rightarrow> \<exists>r'. registry_add asserts ab1 ab2 alive pid self r = Some (True, r') \<and> registry_wf r' \<and>
        registry_ids r' = (registry_ids r)[i := pid] \<and> revision r' = revision r + 1
    | None \<Rightarrow> registry_add asserts ab1 ab2 alive pid self r = (if asserts then None else Some (False, r)))"
proof (cases "length (registry_ids r) < 31")
  case True
  then show ?thesis
    using registry_add_body_free [OF assms(1,3,4)] by (simp add: registry_add_eq [OF assms])
next
  case False
  then have "length (registry_ids r) = 31"
    using assms(1) by (simp add: registry_wf_def registry_shape_def)
  from registry_add_body_full [OF assms(1,3,4) this, of asserts alive] False show ?thesis
    unfolding registry_add_eq [OF assms] by simp
qed

lemma registry_zero_wf: "registry_wf registry_zero" "registry_ids registry_zero = []"
  by (simp_all add: registry_wf_def registry_shape_def registry_ids_def registry_zero_def)

definition registry_client :: ipc_process_registry where
  "registry_client = \<lparr>is_mapped = True, cached_registry = registry_zero\<rparr>"

theorem registry_add_registers_witness:
  "\<exists>r'. registry_add True False False (\<lambda>_. True) 7 registry_client registry_zero = Some (True, r') \<and>
     registry_wf r' \<and> registry_ids r' = [7] \<and> revision r' = 1"
  using registry_add_registers [OF registry_zero_wf(1), of registry_client 7 True False False "\<lambda>_. True"]
  by (simp add: registry_zero_wf registry_client_def) (simp add: registry_zero_def)

text \<open>
  C10. Crash consistency: if the process inside \<open>Remove\<close> dies after any number \<open>k\<close> of its
  stores to shared memory, the process that finds the mutex abandoned repairs the array to a
  well-formed one in which nobody else is lost and the id is either still registered or removed.
\<close>

theorem registry_remove_crash_safe:
  assumes "registry_wf r" and "pid \<in> set (registry_ids r)"
  shows "let r' = registry_lock True (run_stores (take k (registry_remove_stores pid r)) r)
    in registry_wf r' \<and>
       (set (registry_ids r') = set (registry_ids r) \<or> set (registry_ids r') = set (registry_ids r) - {pid})"
proof -
  from assms(1) have sh: "registry_shape r (registry_ids r)" by (simp add: registry_wf_def)
  from registry_remove_stores_crash [OF sh assms(2), of k] show ?thesis
    by (auto simp: registry_lock_def Let_def dest: registry_shape_ids registry_shape_wf)
qed

definition registry_three :: registry where
  "registry_three = \<lparr>revision = 5, processes = [3, 4, 5] @ replicate 28 0\<rparr>"

lemma registry_three_wf: "registry_wf registry_three" "registry_ids registry_three = [3, 4, 5]"
  by (simp_all add: registry_wf_def registry_shape_def registry_ids_def registry_three_def)

theorem registry_remove_crash_safe_witness:
  "let r' = registry_lock True (run_stores (take 2 (registry_remove_stores 3 registry_three)) registry_three)
   in registry_wf r' \<and> (set (registry_ids r') = {3, 4, 5} \<or> set (registry_ids r') = {4, 5})"
  using registry_remove_crash_safe [OF registry_three_wf(1), of 3 2]
  by (simp add: registry_three_wf insert_Diff_if)

text \<open>
  Cache coherence: however the registry evolves through complete operations of other processes
  and repaired crashes, \<open>GetAll\<close> with a copy cached at an earlier time returns exactly the
  currently registered ids, as long as fewer than \<open>2 ^ 32\<close> revisions passed.
\<close>

theorem registry_get_all_coherent:
  assumes "registry_wf (cached_registry self)" and "is_mapped self"
    and "registry_evolves n (cached_registry self) s" and "n < 2 ^ 32"
  shows "\<exists>self'. registry_get_all ab self s = (registry_ids s, self', s) \<and> cached_registry self' = s \<and>
    registry_verify asserts current False (cached_registry self') = Some True"
proof -
  from registry_evolves_wf [OF assms(3,1)] have ev: "registry_wf s"
    "revision s = revision (cached_registry self) + of_nat n" "n = 0 \<longrightarrow> s = cached_registry self"
    by auto
  have "revision (cached_registry self) = revision s \<Longrightarrow> s = cached_registry self"
  proof -
    assume "revision (cached_registry self) = revision s"
    with ev(2) have "(of_nat n :: int32) = 0" by simp
    then have "n = 0" using assms(4) by (auto simp: word_of_nat_eq_0_iff dest: dvd_imp_le)
    with ev(3) show ?thesis by simp
  qed
  then show ?thesis
    using assms(2) registry_lock_wf [OF ev(1), of ab] registry_verify_wf [OF ev(1)]
    by (auto simp: registry_get_all_def Let_def registry_ids_def)
qed

theorem registry_get_all_coherent_witness:
  "\<exists>r' self'. registry_add True False False (\<lambda>_. True) 7 registry_client registry_zero = Some (True, r') \<and>
     registry_get_all False registry_client r' = ([7], self', r') \<and> cached_registry self' = r' \<and>
     registry_verify True 7 False (cached_registry self') = Some True"
proof -
  have c: "is_mapped registry_client" "cached_registry registry_client = registry_zero"
    by (simp_all add: registry_client_def)
  obtain r' where r': "registry_add_body True (\<lambda>_. True) 7 registry_zero = Some (True, r')"
      "registry_ids r' = [7]"
    using registry_add_body_free [OF registry_zero_wf(1), of 7 True "\<lambda>_. True"]
    by (auto simp: registry_zero_wf(2))
  then have add: "registry_add True False False (\<lambda>_. True) 7 registry_client registry_zero = Some (True, r')"
    by (subst registry_add_eq) (auto simp: registry_zero_wf c)
  have "registry_evolves (0 + 1) registry_zero r'"
    by (rule registry_evolves.add [OF registry_evolves.same c(1) _ _ add]) simp_all
  with registry_get_all_coherent [of registry_client 1 r' False True 7] add r' show ?thesis
    by (simp add: c registry_zero_wf)
qed

end
