(* ===== verification/IpcTransport.thy ===== *)
theory IpcTransport
  imports CircularBuffer Serialization IpcRegistry
begin

text \<open>
  The transport of \<open>src/common/ipc_message_queue_win32.cc\<close>: the shared memory buffer
  \<open>IpcBuffer\<close> with its read and write transactions, the packet format, and the two ends of a
  queue, \<open>OutboundQueue\<close> and \<open>InboundQueue\<close>. The kernel objects of a queue (shared block,
  write mutex, the two events) are a record; what the kernel answers (the view could be mapped, the
  time) is an argument. As elsewhere \<open>None\<close> is a failed \<open>assert\<close>.
\<close>

section \<open>The shared buffer\<close>

definition kCapacity :: nat where
  "kCapacity = 8 * 1024 - 1 - 4 * 2"

record BufferFormat =
  bf_head :: nat
  bf_tail :: nat
  bf_data :: "byte list"

text \<open>The kernel objects of a queue; \<open>q_mutex\<close> is the process that owns the write mutex.\<close>

record queue_base =
  q_mutex :: "IpcProcessId option"
  q_data_available :: bool
  q_space_available :: bool
  q_buffer :: BufferFormat

definition buffer_create :: BufferFormat where
  "buffer_create = \<lparr>bf_head = 0, bf_tail = 0, bf_data = replicate (kCapacity + 1) 0\<rparr>"

text \<open>
  A transaction that has started: the flag \<open>was_read_\<close> or \<open>was_written_\<close> and the circular
  buffer object, which works on the shared data block itself. \<open>tx_start\<close> is the common body of
  \<open>ReadTransaction::Start\<close> and \<open>WriteTransaction::Start\<close>.
\<close>

record transaction =
  tx_dirty :: bool
  tx_cb :: cbuf

definition tx_start :: "bool \<Rightarrow> queue_base \<Rightarrow> transaction option option" where
  "tx_start view_ok q =
     (if \<not> view_ok then Some None
      else do {
        cb \<leftarrow> cb_set_buffer (Some (bf_data (q_buffer q))) (kCapacity + 1) cb_new;
        let (ok1, cb1) = cb_set_head (bf_head (q_buffer q)) cb;
        assert_that ok1;
        let (ok2, cb2) = cb_set_tail (bf_tail (q_buffer q)) cb1;
        assert_that ok2;
        Some (Some \<lparr>tx_dirty = False, tx_cb = cb2\<rparr>) })"

definition tx_read :: "nat \<Rightarrow> transaction \<Rightarrow> (byte list \<times> transaction) option" where
  "tx_read sz tx = do {
     assert_that (sz \<le> cb_data_available (tx_cb tx));
     if sz > 0 then do {
       (n, out, cb) \<leftarrow> cb_read (tx_cb tx) sz;
       Some (out, \<lparr>tx_dirty = True, tx_cb = cb\<rparr>) }
     else Some ([], tx) }"

text \<open>A write stores into the shared block at once; only the tail waits for the end.\<close>

definition tx_write :: "byte list \<Rightarrow> nat \<Rightarrow> transaction \<Rightarrow> queue_base \<Rightarrow> (transaction \<times> queue_base) option" where
  "tx_write data sz tx q = do {
     assert_that (sz \<le> cb_space_available (tx_cb tx));
     if sz > 0 then do {
       (n, cb) \<leftarrow> cb_write (tx_cb tx) data sz;
       mem \<leftarrow> cb_buffer cb;
       Some (\<lparr>tx_dirty = True, tx_cb = cb\<rparr>, q\<lparr>q_buffer := (q_buffer q)\<lparr>bf_data := mem\<rparr>\<rparr>) }
     else Some (tx, q) }"

definition read_tx_end :: "transaction \<Rightarrow> queue_base \<Rightarrow> queue_base" where
  "read_tx_end tx q =
     (let q1 = (if tx_dirty tx then q\<lparr>q_buffer := (q_buffer q)\<lparr>bf_head := cb_head (tx_cb tx)\<rparr>\<rparr> else q)
      in if cb_space_available (tx_cb tx) \<noteq> 0 then q1\<lparr>q_space_available := True\<rparr> else q1)"

definition write_tx_end :: "transaction \<Rightarrow> queue_base \<Rightarrow> queue_base" where
  "write_tx_end tx q =
     (let q1 = (if tx_dirty tx then q\<lparr>q_buffer := (q_buffer q)\<lparr>bf_tail := cb_tail (tx_cb tx)\<rparr>\<rparr> else q)
      in if cb_data_available (tx_cb tx) \<noteq> 0 then q1\<lparr>q_data_available := True\<rparr> else q1)"

section \<open>Packets and messages\<close>

record MessagePacketHeader =
  msg_source :: IpcProcessId
  msg_type :: int32
  sequence_number :: int32
  last_packet :: bool
  packet_size :: int32

definition header_new :: MessagePacketHeader where
  "header_new = \<lparr>msg_source = 0, msg_type = 0, sequence_number = 0, last_packet = True, packet_size = 0\<rparr>"

definition header_of :: "IpcProcessId \<Rightarrow> int32 \<Rightarrow> int32 \<Rightarrow> MessagePacketHeader" where
  "header_of source type sz =
     \<lparr>msg_source = source, msg_type = type, sequence_number = 0, last_packet = True, packet_size = sz\<rparr>"

text \<open>The memory image of the header: a \<open>bool\<close> is one byte, followed by three bytes of padding.\<close>

definition header_size :: nat where
  "header_size = 20"

definition header_bytes :: "MessagePacketHeader \<Rightarrow> byte list" where
  "header_bytes h = int_bytes (msg_source h) @ int_bytes (msg_type h) @ int_bytes (sequence_number h) @
     [if last_packet h then 1 else 0, 0, 0, 0] @ int_bytes (packet_size h)"

definition header_of_bytes :: "byte list \<Rightarrow> MessagePacketHeader" where
  "header_of_bytes bs =
     \<lparr>msg_source = word_of_bytes (take 4 bs), msg_type = word_of_bytes (take 4 (drop 4 bs)),
      sequence_number = word_of_bytes (take 4 (drop 8 bs)), last_packet = bs ! 12 \<noteq> 0,
      packet_size = word_of_bytes (take 4 (drop 16 bs))\<rparr>"

text \<open>
  \<open>ShareableIpcMessage\<close>: \<open>im_ptr\<close> is the identity of the object. The serialized form is
  computed on first use and kept; the message data does not change, so the kept bytes are always
  what \<open>serialized_message_data\<close> gives.
\<close>

record 'o ShareableIpcMessage =
  im_ptr :: nat
  dest_process_id :: IpcProcessId
  ipc_message_type :: int32
  ipc_message_data :: 'o
  im_callback :: "nat option"

definition serialized_message_data :: "'o serializable \<Rightarrow> 'o ShareableIpcMessage \<Rightarrow> byte list option option" where
  "serialized_message_data vt m = do {
     (ok, bs) \<leftarrow> WriteObject vt (Some (ipc_message_data m)) [];
     Some (if ok then Some bs else None) }"

section \<open>OutboundQueue\<close>

definition kTimeoutMs :: int where
  "kTimeoutMs = 60000"

text \<open>\<open>oq_process_open\<close>: \<open>process_handle_\<close> is a handle (it is closed on errors).\<close>

record 'o OutboundQueue =
  oq_process_id :: IpcProcessId
  oq_process_open :: bool
  oq_pending :: "'o ShareableIpcMessage list"
  oq_has_write_mutex :: bool
  oq_waiting_mutex :: bool
  oq_waiting_space :: bool
  oq_wait_start_time :: int
  oq_last_active_time :: int
  oq_in_progress :: "'o ShareableIpcMessage option"
  oq_in_progress_written :: nat
  oq_in_progress_sequence :: int32

definition oq_new :: "'o OutboundQueue" where
  "oq_new = \<lparr>oq_process_id = 0, oq_process_open = False, oq_pending = [], oq_has_write_mutex = False,
     oq_waiting_mutex = False, oq_waiting_space = False, oq_wait_start_time = 0, oq_last_active_time = 0,
     oq_in_progress = None, oq_in_progress_written = 0, oq_in_progress_sequence = 0\<rparr>"

text \<open>\<open>Open\<close>: which of the kernel objects could be opened, in the order of the condition.\<close>

definition oq_open :: "IpcProcessId \<Rightarrow> bool \<Rightarrow> bool \<Rightarrow> 'o OutboundQueue \<Rightarrow> bool \<times> 'o OutboundQueue" where
  "oq_open pid process_ok objects_ok oq =
     (process_ok \<and> objects_ok, oq\<lparr>oq_process_id := pid, oq_process_open := process_ok\<rparr>)"

definition MaybeWaitForWriteMutex :: "int \<Rightarrow> 'o OutboundQueue \<Rightarrow> 'o OutboundQueue" where
  "MaybeWaitForWriteMutex now oq =
     (if \<not> oq_has_write_mutex oq \<and> \<not> oq_waiting_mutex oq
      then oq\<lparr>oq_waiting_mutex := True, oq_wait_start_time := now\<rparr> else oq)"

definition WaitForSpaceAvailable :: "int \<Rightarrow> 'o OutboundQueue \<Rightarrow> 'o OutboundQueue option" where
  "WaitForSpaceAvailable now oq = do {
     assert_that (oq_has_write_mutex oq);
     assert_that (\<not> oq_waiting_space oq);
     Some (oq\<lparr>oq_waiting_space := True, oq_wait_start_time := now\<rparr>) }"

definition AddMessageToQueue :: "int \<Rightarrow> 'o ShareableIpcMessage \<Rightarrow> 'o OutboundQueue \<Rightarrow> 'o OutboundQueue" where
  "AddMessageToQueue now m oq =
     MaybeWaitForWriteMutex now (oq\<lparr>oq_pending := oq_pending oq @ [m]\<rparr>)"

text \<open>The header may be changed by the call (\<open>packet_size\<close>, \<open>last_packet\<close>).\<close>

definition WriteOnePacket ::
    "bool \<Rightarrow> MessagePacketHeader \<Rightarrow> byte list \<Rightarrow> bool \<Rightarrow> 'o OutboundQueue \<Rightarrow> queue_base \<Rightarrow>
     (bool \<times> MessagePacketHeader \<times> 'o OutboundQueue \<times> queue_base) option" where
  "WriteOnePacket view_ok header msg_data allow_large_message oq q = do {
     started \<leftarrow> tx_start view_ok q;
     case started of
       None \<Rightarrow> Some (False, header, oq\<lparr>oq_process_open := False\<rparr>, q)
     | Some tx \<Rightarrow>
         let space_needed = unat (word_of_nat header_size + scast (packet_size header) :: size64) in
         if space_needed > kCapacity \<and> \<not> allow_large_message
         then Some (False, header, oq, write_tx_end tx q)
         else
           let large = space_needed > kCapacity;
               space_needed1 = (if large then kCapacity else space_needed);
               header1 = (if large
                 then header\<lparr>packet_size := word_of_nat (kCapacity - header_size), last_packet := False\<rparr>
                 else header)
           in if space_needed1 > cb_space_available (tx_cb tx)
              then Some (False, header1, oq, write_tx_end tx q)
              else do {
                (tx1, q1) \<leftarrow> tx_write (header_bytes header1) header_size tx q;
                (tx2, q2) \<leftarrow>
                  (if 0 < sint (packet_size header1)
                   then tx_write msg_data (unat (scast (packet_size header1) :: size64)) tx1 q1
                   else Some (tx1, q1));
                Some (True, header1, oq, write_tx_end tx2 q2) } }"

definition WriteOneMessage ::
    "'o serializable \<Rightarrow> IpcProcessId \<Rightarrow> bool \<Rightarrow> 'o ShareableIpcMessage \<Rightarrow> bool \<Rightarrow> 'o OutboundQueue \<Rightarrow> queue_base \<Rightarrow>
     (bool \<times> 'o OutboundQueue \<times> queue_base) option" where
  "WriteOneMessage vt current_process_id view_ok message allow_large_message oq q = do {
     assert_that (oq_has_write_mutex oq);
     ser \<leftarrow> serialized_message_data vt message;
     bytes \<leftarrow> ser;
     assert_that (bytes \<noteq> []);
     let header = header_of current_process_id (ipc_message_type message) (word_of_nat (length bytes));
     (msg_data, header1) \<leftarrow>
       (case oq_in_progress oq of
          None \<Rightarrow> Some (bytes, header)
        | Some ip \<Rightarrow> do {
            assert_that allow_large_message;
            assert_that (im_ptr ip = im_ptr message);
            Some (drop (oq_in_progress_written oq) bytes,
                  header\<lparr>packet_size := packet_size header - word_of_nat (oq_in_progress_written oq),
                         sequence_number := oq_in_progress_sequence oq + 1\<rparr>) });
     (written, header2, oq1, q1) \<leftarrow> WriteOnePacket view_ok header1 msg_data allow_large_message oq q;
     if \<not> written then Some (False, oq1, q1)
     else if last_packet header2 then
       Some (True, oq1\<lparr>oq_in_progress := None, oq_in_progress_written := 0, oq_in_progress_sequence := 0\<rparr>, q1)
     else do {
       assert_that (case oq_in_progress oq1 of None \<Rightarrow> True | Some ip \<Rightarrow> im_ptr message = im_ptr ip);
       Some (False, oq1\<lparr>oq_in_progress := Some message,
         oq_in_progress_written := oq_in_progress_written oq1 + unat (packet_size header2),
         oq_in_progress_sequence := sequence_number header2\<rparr>, q1) } }"

text \<open>
  The loop of \<open>WritePendingMessages\<close>; it returns \<open>num_written\<close> and the messages it appended
  to \<open>owner_->successful_messages_\<close>.
\<close>

function write_pending_loop ::
    "'o serializable \<Rightarrow> IpcProcessId \<Rightarrow> bool \<Rightarrow> nat \<Rightarrow> bool \<Rightarrow> 'o OutboundQueue \<Rightarrow> queue_base \<Rightarrow>
     (nat \<times> 'o ShareableIpcMessage list \<times> 'o OutboundQueue \<times> queue_base) option" where
  "write_pending_loop vt self view_ok num_written allow_large_message oq q =
     (case oq_pending oq of
        [] \<Rightarrow> Some (num_written, [], oq, q)
      | message # rest \<Rightarrow> do {
          (ok, oq1, q1) \<leftarrow> WriteOneMessage vt self view_ok message allow_large_message oq q;
          if \<not> ok then Some (num_written, [], oq1, q1)
          else do {
            (n, sent, oq2, q2) \<leftarrow>
              write_pending_loop vt self view_ok (num_written + 1) False (oq1\<lparr>oq_pending := rest\<rparr>) q1;
            Some (n, message # sent, oq2, q2) } })"
  by pat_completeness auto
termination
  by (relation "measure (\<lambda>(vt, self, view_ok, n, allow, oq, q). length (oq_pending oq))") auto

declare write_pending_loop.simps [simp del]

definition WritePendingMessages ::
    "'o serializable \<Rightarrow> IpcProcessId \<Rightarrow> bool \<Rightarrow> int \<Rightarrow> 'o OutboundQueue \<Rightarrow> queue_base \<Rightarrow>
     ('o ShareableIpcMessage list \<times> 'o OutboundQueue \<times> queue_base) option" where
  "WritePendingMessages vt self view_ok now oq q = do {
     assert_that (oq_has_write_mutex oq);
     (num_written, sent, oq1, q1) \<leftarrow> write_pending_loop vt self view_ok 0 True oq q;
     if num_written = 0 \<and> oq_pending oq1 \<noteq> [] then do {
       oq2 \<leftarrow> WaitForSpaceAvailable now oq1;
       Some (sent, oq2, q1) }
     else do {
       assert_that (oq_in_progress oq1 = None);
       assert_that (q_mutex q1 = Some self);
       let q2 = q1\<lparr>q_mutex := None\<rparr>;
       let oq2 = oq1\<lparr>oq_has_write_mutex := False\<rparr>;
       Some (sent,
             if oq_pending oq2 \<noteq> [] then oq2\<lparr>oq_waiting_mutex := True, oq_wait_start_time := now\<rparr> else oq2,
             q2) } }"

text \<open>
  The handles of the sources, as far as a wait can return them: each queue waits on the write
  mutex, the space event and the process of its peer; the inbound queue on its data event.
\<close>

datatype handle = H_write_mutex | H_space_available | H_process | H_data_available | H_send_data | H_unknown

text \<open>
  \<open>WaitComplete\<close> of an outbound queue. \<open>H_write_mutex\<close> means that the wait acquired the
  mutex for this process. The third component is the process id that is removed from the registry.
\<close>

definition oq_wait_complete ::
    "'o serializable \<Rightarrow> IpcProcessId \<Rightarrow> bool \<Rightarrow> int \<Rightarrow> handle \<Rightarrow> 'o OutboundQueue \<Rightarrow> queue_base \<Rightarrow>
     ('o ShareableIpcMessage list \<times> IpcProcessId option \<times> 'o OutboundQueue \<times> queue_base) option" where
  "oq_wait_complete vt self view_ok now h oq q = do {
     assert_that (oq_process_open oq);
     let oq1 = oq\<lparr>oq_last_active_time := now\<rparr>;
     case h of
       H_write_mutex \<Rightarrow> do {
         (sent, oq2, q2) \<leftarrow> WritePendingMessages vt self view_ok now
           (oq1\<lparr>oq_waiting_mutex := False, oq_has_write_mutex := True\<rparr>) (q\<lparr>q_mutex := Some self\<rparr>);
         Some (sent, None, oq2, q2) }
     | H_space_available \<Rightarrow> do {
         assert_that (oq_has_write_mutex oq1);
         (sent, oq2, q2) \<leftarrow> WritePendingMessages vt self view_ok now
           (oq1\<lparr>oq_waiting_space := False\<rparr>) (q\<lparr>q_space_available := False\<rparr>);
         Some (sent, None, oq2, q2) }
     | H_process \<Rightarrow> Some ([], Some (oq_process_id oq1), oq1\<lparr>oq_process_open := False\<rparr>, q)
     | _ \<Rightarrow> None }"

definition oq_add_wait_handles :: "int \<Rightarrow> 'o OutboundQueue \<Rightarrow> (bool \<times> handle list) option" where
  "oq_add_wait_handles now oq =
     (if \<not> oq_process_open oq then Some (False, [])
      else if oq_pending oq \<noteq> [] then do {
        assert_that (oq_waiting_space oq \<noteq> oq_waiting_mutex oq);
        if now - oq_wait_start_time oq > kTimeoutMs then Some (False, [])
        else Some (True,
          (if oq_waiting_space oq then [H_space_available]
           else if oq_waiting_mutex oq then [H_write_mutex] else []) @ [H_process]) }
      else if now - oq_last_active_time oq > kTimeoutMs then Some (False, [])
      else Some (True, [H_process]))"

text \<open>The destructor releases the write mutex.\<close>

definition oq_delete :: "IpcProcessId \<Rightarrow> 'o OutboundQueue \<Rightarrow> queue_base \<Rightarrow> queue_base option" where
  "oq_delete self oq q =
     (if oq_has_write_mutex oq then do {
        assert_that (q_mutex q = Some self);
        Some (q\<lparr>q_mutex := None\<rparr>) }
      else Some q)"

section \<open>InboundQueue\<close>

record InboundQueue =
  last_packet_header :: MessagePacketHeader
  message_data_buffer :: "byte list"

definition iq_new :: InboundQueue where
  "iq_new = \<lparr>last_packet_header = header_new, message_data_buffer = []\<rparr>"

text \<open>\<open>Create\<close>: new kernel objects, the events not signalled, the mutex free.\<close>

definition iq_create :: "bool \<Rightarrow> queue_base option" where
  "iq_create objects_ok =
     (if objects_ok then Some \<lparr>q_mutex = None, q_data_available = False, q_space_available = False,
        q_buffer = buffer_create\<rparr> else None)"

text \<open>The view of the own buffer is mapped since \<open>Create\<close>. \<open>None\<close> in the first component: the call returned false.\<close>

definition ReadOnePacket :: "InboundQueue \<Rightarrow> queue_base \<Rightarrow> (MessagePacketHeader option \<times> InboundQueue \<times> queue_base) option" where
  "ReadOnePacket iq q = do {
     started \<leftarrow> tx_start True q;
     tx \<leftarrow> started;
     if cb_data_available (tx_cb tx) = 0 then Some (None, iq, read_tx_end tx q)
     else do {
       assert_that (cb_data_available (tx_cb tx) \<ge> header_size);
       (hbytes, tx1) \<leftarrow> tx_read header_size tx;
       let header = header_of_bytes hbytes;
       let last = last_packet_header iq;
       assert_that (sequence_number header = 0 \<or>
         (\<not> last_packet last \<and> msg_source header = msg_source last \<and> msg_type header = msg_type last \<and>
          sequence_number header = sequence_number last + 1));
       let buffer1 = (if sequence_number header = 0 then [] else message_data_buffer iq);
       (buffer2, tx2) \<leftarrow>
         (if 0 < sint (packet_size header) then do {
            let n = unat (scast (packet_size header) :: size64);
            assert_that (cb_data_available (tx_cb tx1) \<ge> n);
            (data, tx2) \<leftarrow> tx_read n tx1;
            Some (buffer1 @ data, tx2) }
          else Some (buffer1, tx1));
       Some (Some header, \<lparr>last_packet_header = header, message_data_buffer = buffer2\<rparr>, read_tx_end tx2 q) } }"

text \<open>
  \<open>ReadOneMessage\<close>: the loop over packets until one is the last of its message. The message
  is the source, the type and the object, which is \<open>NULL\<close> when it could not be recreated.
\<close>

partial_function (option) ReadOneMessage ::
    "'o serializable \<Rightarrow> 'o constructors \<Rightarrow> InboundQueue \<Rightarrow> queue_base \<Rightarrow>
     ((IpcProcessId \<times> int32 \<times> 'o option) option \<times> InboundQueue \<times> queue_base) option" where
  "ReadOneMessage vt constructors iq q = do {
     (r, iq1, q1) \<leftarrow> ReadOnePacket iq q;
     case r of
       None \<Rightarrow> Some (None, iq1, q1)
     | Some header \<Rightarrow>
         if \<not> last_packet header then ReadOneMessage vt constructors iq1 q1
         else if message_data_buffer iq1 \<noteq> [] then do {
           ((ok, obj), ds) \<leftarrow> CreateAndReadObject vt constructors
             (new_deserializer (message_data_buffer iq1) 0 (word_of_nat (length (message_data_buffer iq1))));
           Some (Some (msg_source header, msg_type header, obj), iq1\<lparr>message_data_buffer := []\<rparr>, q1) }
         else Some (Some (msg_source header, msg_type header, None), iq1, q1) }"

text \<open>
  \<open>ReadAndDispatchMessages\<close>: the messages handed to \<open>CallRegisteredHandler\<close>, in order.
\<close>

partial_function (option) ReadAndDispatchMessages ::
    "'o serializable \<Rightarrow> 'o constructors \<Rightarrow> InboundQueue \<Rightarrow> queue_base \<Rightarrow>
     ((IpcProcessId \<times> int32 \<times> 'o) list \<times> InboundQueue \<times> queue_base) option" where
  "ReadAndDispatchMessages vt constructors iq q = do {
     (r, iq1, q1) \<leftarrow> ReadOneMessage vt constructors iq q;
     case r of
       None \<Rightarrow> Some ([], iq1, q1)
     | Some (source, type, message) \<Rightarrow> do {
         (msgs, iq2, q2) \<leftarrow> ReadAndDispatchMessages vt constructors iq1 q1;
         Some ((case message of None \<Rightarrow> msgs | Some obj \<Rightarrow> (source, type, obj) # msgs), iq2, q2) } }"

definition iq_wait_complete ::
    "'o serializable \<Rightarrow> 'o constructors \<Rightarrow> handle \<Rightarrow> bool \<Rightarrow> InboundQueue \<Rightarrow> queue_base \<Rightarrow>
     ((IpcProcessId \<times> int32 \<times> 'o) list \<times> InboundQueue \<times> queue_base) option" where
  "iq_wait_complete vt constructors h abandoned iq q = do {
     assert_that (h = H_data_available);
     assert_that (\<not> abandoned);
     ReadAndDispatchMessages vt constructors iq (q\<lparr>q_data_available := False\<rparr>) }"

section \<open>The buffer as a byte queue\<close>

text \<open>The circular buffer a transaction sees, and the bytes in it.\<close>

definition cb_of :: "BufferFormat \<Rightarrow> cbuf" where
  "cb_of b = \<lparr>cb_head = bf_head b, cb_tail = bf_tail b, cb_capacity = kCapacity,
     cb_buf_size = kCapacity + 1, cb_buffer = Some (bf_data b)\<rparr>"

definition q_wf :: "queue_base \<Rightarrow> bool" where
  "q_wf q \<longleftrightarrow> length (bf_data (q_buffer q)) = kCapacity + 1 \<and> bf_head (q_buffer q) < kCapacity + 1 \<and>
     bf_tail (q_buffer q) < kCapacity + 1"

definition q_content :: "queue_base \<Rightarrow> byte list" where
  "q_content q = cb_content (cb_of (q_buffer q))"

lemma kCapacity_eq: "kCapacity = 8183"
  by (simp add: kCapacity_def)

lemma cb_of_wf: "q_wf q \<longleftrightarrow> cb_wf (cb_of (q_buffer q))"
  by (auto simp: q_wf_def cb_wf_def cb_of_def)

lemma q_content_bound: "q_wf q \<Longrightarrow> length (q_content q) \<le> kCapacity"
  using cb_content_bound [of "cb_of (q_buffer q)"] by (simp add: cb_of_wf q_content_def) (simp add: cb_of_def)

lemma tx_start_ok:
  "q_wf q \<Longrightarrow> tx_start True q = Some (Some \<lparr>tx_dirty = False, tx_cb = cb_of (q_buffer q)\<rparr>)"
  by (simp add: tx_start_def cb_set_buffer_def cb_set_head_def cb_set_tail_def q_wf_def cb_of_def cb_new_def)

text \<open>A transaction in progress agrees with the shared block, except for the position it moves.\<close>

definition tx_on :: "transaction \<Rightarrow> queue_base \<Rightarrow> bool" where
  "tx_on tx q \<longleftrightarrow> cb_wf (tx_cb tx) \<and> cb_buf_size (tx_cb tx) = kCapacity + 1 \<and>
     cb_buffer (tx_cb tx) = Some (bf_data (q_buffer q))"

definition write_tx :: "transaction \<Rightarrow> queue_base \<Rightarrow> bool" where
  "write_tx tx q \<longleftrightarrow> tx_on tx q \<and> cb_head (tx_cb tx) = bf_head (q_buffer q) \<and>
     (\<not> tx_dirty tx \<longrightarrow> cb_tail (tx_cb tx) = bf_tail (q_buffer q))"

definition read_tx :: "transaction \<Rightarrow> queue_base \<Rightarrow> bool" where
  "read_tx tx q \<longleftrightarrow> tx_on tx q \<and> cb_tail (tx_cb tx) = bf_tail (q_buffer q) \<and>
     (\<not> tx_dirty tx \<longrightarrow> cb_head (tx_cb tx) = bf_head (q_buffer q))"

lemma tx_started:
  "q_wf q \<Longrightarrow> write_tx \<lparr>tx_dirty = False, tx_cb = cb_of (q_buffer q)\<rparr> q"
  "q_wf q \<Longrightarrow> read_tx \<lparr>tx_dirty = False, tx_cb = cb_of (q_buffer q)\<rparr> q"
  by (simp_all add: write_tx_def read_tx_def tx_on_def cb_of_wf) (simp_all add: cb_of_def)

lemma tx_cap: "tx_on tx q \<Longrightarrow> cb_capacity (tx_cb tx) = kCapacity"
  using cb_capacity_eq [of "tx_cb tx"] by (simp add: tx_on_def)

lemma tx_space: "tx_on tx q \<Longrightarrow> cb_space_available (tx_cb tx) = kCapacity - length (cb_content (tx_cb tx))"
  using cb_space_eq [of "tx_cb tx"] tx_cap [of tx q] by (simp add: tx_on_def)

lemma tx_write_ok:
  assumes tx: "write_tx tx q" and n: "n \<le> length data" "length (cb_content (tx_cb tx)) + n \<le> kCapacity"
  shows "\<exists>tx' mem. tx_write data n tx q = Some (tx', q\<lparr>q_buffer := (q_buffer q)\<lparr>bf_data := mem\<rparr>\<rparr>) \<and>
    write_tx tx' (q\<lparr>q_buffer := (q_buffer q)\<lparr>bf_data := mem\<rparr>\<rparr>) \<and>
    cb_content (tx_cb tx') = cb_content (tx_cb tx) @ take n data"
proof (cases "n = 0")
  case True
  have "q\<lparr>q_buffer := (q_buffer q)\<lparr>bf_data := bf_data (q_buffer q)\<rparr>\<rparr> = q" by (cases q; cases "q_buffer q") simp
  with True tx show ?thesis by (auto simp: tx_write_def intro!: exI [of _ "bf_data (q_buffer q)"])
next
  case False
  have on: "tx_on tx q" using tx by (simp add: write_tx_def)
  then have wf: "cb_wf (tx_cb tx)" by (simp add: tx_on_def)
  from cb_write_ok [OF wf n(1)] obtain cb' where cb': "cb_write (tx_cb tx) data n = Some (n, cb')" "cb_wf cb'"
    "cb_content cb' = cb_content (tx_cb tx) @ take n data" "cb_head cb' = cb_head (tx_cb tx)"
    "cb_buf_size cb' = cb_buf_size (tx_cb tx)"
    using n(2) tx_space [OF on] by (auto simp: min_def)
  from cb'(2) obtain mem where mem: "cb_buffer cb' = Some mem" by (rule cb_wfE)
  show ?thesis
    using False n(2) tx_space [OF on] cb' mem on tx
    by (auto simp: tx_write_def write_tx_def tx_on_def intro!: exI [of _ mem])
qed

lemma write_tx_end_ok:
  assumes "write_tx tx q"
  shows "q_wf (write_tx_end tx q)" "q_content (write_tx_end tx q) = cb_content (tx_cb tx)"
    "q_mutex (write_tx_end tx q) = q_mutex q" "q_space_available (write_tx_end tx q) = q_space_available q"
    "cb_content (tx_cb tx) \<noteq> [] \<Longrightarrow> q_data_available (write_tx_end tx q)"
proof -
  have "cb_of (q_buffer (write_tx_end tx q)) = tx_cb tx"
    using assms cb_capacity_eq [of "tx_cb tx"]
    by (cases "tx_cb tx") (auto simp: write_tx_end_def write_tx_def tx_on_def cb_of_def Let_def)
  then show "q_wf (write_tx_end tx q)" "q_content (write_tx_end tx q) = cb_content (tx_cb tx)"
    using assms by (auto simp: cb_of_wf q_content_def write_tx_def tx_on_def)
  show "q_mutex (write_tx_end tx q) = q_mutex q" "q_space_available (write_tx_end tx q) = q_space_available q"
    by (simp_all add: write_tx_end_def Let_def)
  show "q_data_available (write_tx_end tx q)" if "cb_content (tx_cb tx) \<noteq> []"
    using that assms length_cb_content [of "tx_cb tx"] by (auto simp: write_tx_end_def Let_def write_tx_def tx_on_def)
qed

lemma tx_read_ok:
  assumes tx: "read_tx tx q" and n: "cb_content (tx_cb tx) = xs @ ys"
  shows "\<exists>tx'. tx_read (length xs) tx = Some (xs, tx') \<and> read_tx tx' q \<and> cb_content (tx_cb tx') = ys"
proof (cases "xs = []")
  case True
  then show ?thesis using tx n by (simp add: tx_read_def)
next
  case False
  have on: "tx_on tx q" using tx by (simp add: read_tx_def)
  then have wf: "cb_wf (tx_cb tx)" by (simp add: tx_on_def)
  have len: "length xs \<le> cb_data_available (tx_cb tx)"
    using length_cb_content [OF wf] n by simp
  from cb_read_ok [OF wf, of "length xs"] obtain h where
    "cb_read (tx_cb tx) (length xs) = Some (length xs, xs, (tx_cb tx)\<lparr>cb_head := h\<rparr>)"
    "cb_wf ((tx_cb tx)\<lparr>cb_head := h\<rparr>)" "cb_content ((tx_cb tx)\<lparr>cb_head := h\<rparr>) = ys"
    using n len by (auto simp: min_def)
  then show ?thesis using False len tx on by (auto simp: tx_read_def read_tx_def tx_on_def)
qed

lemma read_tx_end_ok:
  assumes "read_tx tx q"
  shows "q_wf (read_tx_end tx q)" "q_content (read_tx_end tx q) = cb_content (tx_cb tx)"
    "q_mutex (read_tx_end tx q) = q_mutex q" "q_data_available (read_tx_end tx q) = q_data_available q"
    "length (cb_content (tx_cb tx)) < kCapacity \<Longrightarrow> q_space_available (read_tx_end tx q)"
proof -
  have "cb_of (q_buffer (read_tx_end tx q)) = tx_cb tx"
    using assms cb_capacity_eq [of "tx_cb tx"]
    by (cases "tx_cb tx") (auto simp: read_tx_end_def read_tx_def tx_on_def cb_of_def Let_def)
  then show "q_wf (read_tx_end tx q)" "q_content (read_tx_end tx q) = cb_content (tx_cb tx)"
    using assms by (auto simp: cb_of_wf q_content_def read_tx_def tx_on_def)
  show "q_mutex (read_tx_end tx q) = q_mutex q" "q_data_available (read_tx_end tx q) = q_data_available q"
    by (simp_all add: read_tx_end_def Let_def)
  show "q_space_available (read_tx_end tx q)" if "length (cb_content (tx_cb tx)) < kCapacity"
    using that assms tx_space [of tx q] by (auto simp: read_tx_end_def Let_def read_tx_def)
qed


text \<open>What has been stored but not committed is invisible: moving the tail back cuts the content.\<close>

lemma cb_content_cut:
  assumes "cb_wf cb" "t < cb_buf_size cb" "cb_data_available (cb\<lparr>cb_tail := t\<rparr>) \<le> cb_data_available cb"
  shows "cb_content (cb\<lparr>cb_tail := t\<rparr>) = take (cb_data_available (cb\<lparr>cb_tail := t\<rparr>)) (cb_content cb)"
  using assms by (auto elim!: cb_wfE simp: cb_content_def cb_data_available_def min_def drop_take split: if_splits)

lemma tx_write_uncommitted:
  assumes tx: "write_tx tx q" and q: "q_wf q" "\<exists>new. cb_content (tx_cb tx) = q_content q @ new"
    and w: "tx_write data n tx q = Some (tx', q')" and n: "n \<le> length data" "length (cb_content (tx_cb tx)) + n \<le> kCapacity"
  shows "write_tx tx' q' \<and> q_wf q' \<and> q_content q' = q_content q \<and> (\<exists>new. cb_content (tx_cb tx') = q_content q @ new)"
proof -
  from tx_write_ok [OF tx n] w obtain mem where q': "q' = q\<lparr>q_buffer := (q_buffer q)\<lparr>bf_data := mem\<rparr>\<rparr>"
    and tx': "write_tx tx' q'" and c: "cb_content (tx_cb tx') = cb_content (tx_cb tx) @ take n data" by auto
  have wf: "cb_wf (tx_cb tx')" "cb_buf_size (tx_cb tx') = kCapacity + 1" "cb_buffer (tx_cb tx') = Some mem"
    "cb_head (tx_cb tx') = bf_head (q_buffer q)"
    using tx' by (auto simp: write_tx_def tx_on_def q')
  have eq: "cb_of (q_buffer q') = (tx_cb tx')\<lparr>cb_tail := bf_tail (q_buffer q)\<rparr>"
    using wf cb_capacity_eq [OF wf(1)] by (cases "tx_cb tx'") (simp add: cb_of_def q')
  have wfq: "q_wf q'" using wf q(1) by (auto simp: q_wf_def q' elim!: cb_wfE)
  have same: "cb_data_available (cb_of (q_buffer q')) = cb_data_available (cb_of (q_buffer q))"
    by (simp add: cb_data_available_def cb_of_def q')
  then have len: "cb_data_available (cb_of (q_buffer q')) = length (q_content q)"
    using length_cb_content q(1) by (simp add: cb_of_wf q_content_def)
  have "length (q_content q) \<le> cb_data_available (tx_cb tx')"
    using q(2) c length_cb_content [OF wf(1)] by auto
  then have "q_content q' = take (length (q_content q)) (cb_content (tx_cb tx'))"
    using cb_content_cut [OF wf(1), of "bf_tail (q_buffer q)"] q(1) len wf(2)
    by (simp add: q_content_def eq q_wf_def)
  then show ?thesis using q(2) c tx' wfq by auto
qed

section \<open>Packets in the buffer\<close>

type_synonym packet = "MessagePacketHeader \<times> byte list"

definition packet_bytes :: "packet \<Rightarrow> byte list" where
  "packet_bytes p = header_bytes (fst p) @ snd p"

definition packet_fits :: "packet \<Rightarrow> bool" where
  "packet_fits p \<longleftrightarrow> packet_size (fst p) = word_of_nat (length (snd p)) \<and> header_size + length (snd p) \<le> kCapacity"

lemma length_header_bytes [simp]: "length (header_bytes h) = header_size"
  by (simp add: header_bytes_def header_size_def)

lemma header_round_trip [simp]: "header_of_bytes (header_bytes h) = h"
  by (cases h) (simp add: header_of_bytes_def header_bytes_def nth_append)

lemma length_packet_bytes: "length (packet_bytes p) = header_size + length (snd p)"
  by (simp add: packet_bytes_def)

lemma space_needed_eq:
  assumes "n < 2 ^ 31"
  shows "unat (word_of_nat header_size + scast (word_of_nat n :: int32) :: size64) = header_size + n"
proof -
  have "word_of_nat header_size + scast (word_of_nat n :: int32) = (word_of_nat (header_size + n) :: size64)"
    using assms by (simp add: scast_of_nat32)
  then show ?thesis using assms by (simp only:) (subst unat_of_nat, simp add: header_size_def)
qed

lemma unat_scast32: "n < 2 ^ 31 \<Longrightarrow> unat (scast (word_of_nat n :: int32) :: size64) = n"
  by (simp add: scast_of_nat32 unat_of_nat)

lemma tx_write_packet:
  assumes tx: "write_tx tx q" and fits: "packet_size h = word_of_nat (length d)" "length d < 2 ^ 31" "n = length d"
    and room: "length (cb_content (tx_cb tx)) + (header_size + length d) \<le> kCapacity"
  shows "\<exists>q'. do {
      (tx1, q1) \<leftarrow> tx_write (header_bytes h) header_size tx q;
      (tx2, q2) \<leftarrow> (if 0 < sint (packet_size h)
        then tx_write (d @ rest) (unat (scast (packet_size h) :: size64)) tx1 q1 else Some (tx1, q1));
      Some (True, hh, oq, write_tx_end tx2 q2) } = Some (True, hh, oq, q') \<and>
    q_wf q' \<and> q_content q' = cb_content (tx_cb tx) @ packet_bytes (h, d) \<and> q_mutex q' = q_mutex q \<and>
    q_space_available q' = q_space_available q \<and> q_data_available q'"
proof -
  from tx_write_ok [OF tx, of header_size "header_bytes h"] room obtain tx1 m1 where
    w1: "tx_write (header_bytes h) header_size tx q = Some (tx1, q\<lparr>q_buffer := (q_buffer q)\<lparr>bf_data := m1\<rparr>\<rparr>)"
      "write_tx tx1 (q\<lparr>q_buffer := (q_buffer q)\<lparr>bf_data := m1\<rparr>\<rparr>)"
      "cb_content (tx_cb tx1) = cb_content (tx_cb tx) @ header_bytes h" by auto
  let ?q1 = "q\<lparr>q_buffer := (q_buffer q)\<lparr>bf_data := m1\<rparr>\<rparr>"
  have sz: "sint (packet_size h) = int (length d)" "unat (scast (packet_size h) :: size64) = length d"
    using fits by (simp_all add: sint_of_nat32 unat_scast32)
  have "\<exists>tx2 m2. (if 0 < sint (packet_size h)
        then tx_write (d @ rest) (unat (scast (packet_size h) :: size64)) tx1 ?q1 else Some (tx1, ?q1))
      = Some (tx2, q\<lparr>q_buffer := (q_buffer q)\<lparr>bf_data := m2\<rparr>\<rparr>) \<and>
      write_tx tx2 (q\<lparr>q_buffer := (q_buffer q)\<lparr>bf_data := m2\<rparr>\<rparr>) \<and>
      cb_content (tx_cb tx2) = cb_content (tx_cb tx) @ packet_bytes (h, d)"
  proof (cases "d = []")
    case True
    then show ?thesis using w1 sz by (auto simp: packet_bytes_def)
  next
    case False
    from tx_write_ok [OF w1(2), of "length d" "d @ rest"] room w1(3) False sz show ?thesis
      by (auto simp: packet_bytes_def)
  qed
  then obtain tx2 m2 where w2: "(if 0 < sint (packet_size h)
        then tx_write (d @ rest) (unat (scast (packet_size h) :: size64)) tx1 ?q1 else Some (tx1, ?q1))
      = Some (tx2, q\<lparr>q_buffer := (q_buffer q)\<lparr>bf_data := m2\<rparr>\<rparr>)"
      "write_tx tx2 (q\<lparr>q_buffer := (q_buffer q)\<lparr>bf_data := m2\<rparr>\<rparr>)"
      "cb_content (tx_cb tx2) = cb_content (tx_cb tx) @ packet_bytes (h, d)" by blast
  have "packet_bytes (h, d) \<noteq> []" by (simp add: packet_bytes_def header_bytes_def)
  with write_tx_end_ok [OF w2(2)] w1(1) w2(1,3) show ?thesis by simp
qed


text \<open>The queue after a transaction that wrote nothing, and after one that wrote a packet.\<close>

definition q_same :: "queue_base \<Rightarrow> queue_base \<Rightarrow> bool" where
  "q_same q q' \<longleftrightarrow> q_wf q' \<and> q_content q' = q_content q \<and> q_mutex q' = q_mutex q \<and>
     q_space_available q' = q_space_available q \<and> (q_content q \<noteq> [] \<longrightarrow> q_data_available q')"

definition q_sent :: "queue_base \<Rightarrow> byte list \<Rightarrow> queue_base \<Rightarrow> bool" where
  "q_sent q bs q' \<longleftrightarrow> q_wf q' \<and> q_content q' = q_content q @ bs \<and> q_mutex q' = q_mutex q \<and>
     q_space_available q' = q_space_available q \<and> (q_content q' \<noteq> [] \<longrightarrow> q_data_available q')"

text \<open>
  The packet \<open>WriteOnePacket\<close> tries to send for a header and the data left: all of it, or as
  much as an empty buffer can take.
\<close>

definition max_data :: nat where
  "max_data = kCapacity - header_size"

definition first_packet :: "MessagePacketHeader \<Rightarrow> byte list \<Rightarrow> packet" where
  "first_packet h d = (if header_size + length d > kCapacity
     then (h\<lparr>packet_size := word_of_nat max_data, last_packet := False\<rparr>, take max_data d) else (h, d))"

lemma first_packet_fits:
  assumes "packet_size h = word_of_nat (length d)"
  shows "packet_fits (first_packet h d)"
  using assms by (auto simp: first_packet_def packet_fits_def max_data_def kCapacity_eq header_size_def)

definition send_first :: "MessagePacketHeader \<Rightarrow> byte list \<Rightarrow> 'o OutboundQueue \<Rightarrow> transaction \<Rightarrow> queue_base \<Rightarrow>
    (bool \<times> MessagePacketHeader \<times> 'o OutboundQueue \<times> queue_base) option" where
  "send_first h d oq tx q = do {
      (tx1, q1) \<leftarrow> tx_write (header_bytes h) header_size tx q;
      (tx2, q2) \<leftarrow> (if 0 < sint (packet_size h)
        then tx_write d (unat (scast (packet_size h) :: size64)) tx1 q1 else Some (tx1, q1));
      Some (True, h, oq, write_tx_end tx2 q2) }"

lemma WriteOnePacket_eq:
  assumes wf: "q_wf q" and sz: "packet_size h = word_of_nat (length d)" "length d < 2 ^ 31"
  defines "tx \<equiv> \<lparr>tx_dirty = False, tx_cb = cb_of (q_buffer q)\<rparr>" and "p \<equiv> first_packet h d"
  shows "WriteOnePacket True h d allow oq q =
    (if \<not> (header_size + length d \<le> kCapacity \<or> allow) then Some (False, h, oq, write_tx_end tx q)
     else if length (packet_bytes p) > kCapacity - length (q_content q)
     then Some (False, fst p, oq, write_tx_end tx q) else send_first (fst p) d oq tx q)"
proof -
  have on: "tx_on tx q" using tx_started(1) [OF wf] by (simp add: write_tx_def tx_def)
  have space: "cb_space_available (tx_cb tx) = kCapacity - length (q_content q)"
    using tx_space [OF on] by (simp add: q_content_def tx_def)
  have start: "tx_start True q = Some (Some tx)" using tx_start_ok [OF wf] by (simp add: tx_def)
  have need: "unat (word_of_nat header_size + scast (packet_size h) :: size64) = header_size + length d"
    unfolding sz(1) by (rule space_needed_eq [OF sz(2)])
  have h20: "header_size \<le> kCapacity" by (simp add: header_size_def kCapacity_eq)
  have len: "length (packet_bytes p) = (if header_size + length d > kCapacity then kCapacity else header_size + length d)"
    using h20 by (simp add: p_def first_packet_def length_packet_bytes max_data_def)
  have fst: "fst p = (if header_size + length d > kCapacity
      then h\<lparr>packet_size := word_of_nat (kCapacity - header_size), last_packet := False\<rparr> else h)"
    by (simp add: p_def first_packet_def max_data_def)
  show ?thesis
    unfolding WriteOnePacket_def start len fst send_first_def
    by (simp add: space need Let_def not_le)
qed

lemma send_first_ok:
  assumes wf: "q_wf q" and sz: "packet_size h = word_of_nat (length d)"
    and room: "length (q_content q) + length (packet_bytes (first_packet h d)) \<le> kCapacity"
  shows "\<exists>q'. send_first (fst (first_packet h d)) d oq \<lparr>tx_dirty = False, tx_cb = cb_of (q_buffer q)\<rparr> q
      = Some (True, fst (first_packet h d), oq, q') \<and> q_sent q (packet_bytes (first_packet h d)) q'"
proof -
  let ?p = "first_packet h d"
  obtain rest where d: "d = snd ?p @ rest"
  proof (cases "header_size + length d > kCapacity")
    case True
    show thesis by (rule that [of "drop max_data d"]) (simp add: first_packet_def True)
  next
    case False
    show thesis by (rule that [of "[]"]) (simp add: first_packet_def False)
  qed
  have fits: "packet_size (fst ?p) = word_of_nat (length (snd ?p))" "length (snd ?p) < 2 ^ 31"
    using first_packet_fits [OF sz] by (auto simp: packet_fits_def kCapacity_eq)
  from tx_write_packet [OF tx_started(1) [OF wf] fits refl, of rest "fst ?p" oq] room
  show ?thesis unfolding d [symmetric]
    by (auto simp: send_first_def q_sent_def q_content_def length_packet_bytes)
qed

lemma WriteOnePacket_ok:
  assumes wf: "q_wf q" and sz: "packet_size h = word_of_nat (length d)" "length d < 2 ^ 31"
  shows "\<exists>ok h' q'. WriteOnePacket True h d allow oq q = Some (ok, h', oq, q') \<and>
    ok = ((header_size + length d \<le> kCapacity \<or> allow) \<and>
          length (q_content q) + length (packet_bytes (first_packet h d)) \<le> kCapacity) \<and>
    (if ok then h' = fst (first_packet h d) \<and> q_sent q (packet_bytes (first_packet h d)) q' else q_same q q')"
proof -
  have same: "q_same q (write_tx_end \<lparr>tx_dirty = False, tx_cb = cb_of (q_buffer q)\<rparr> q)"
    using write_tx_end_ok [OF tx_started(1) [OF wf]] by (auto simp: q_same_def q_content_def)
  show ?thesis
    using WriteOnePacket_eq [OF wf sz, of allow oq] same send_first_ok [OF wf sz(1), of oq]
      q_content_bound [OF wf] by (auto split: if_splits)
qed

end
