(* ===== verification/IpcDelivery.thy ===== *)
theory IpcDelivery
  imports IpcTransport
begin

text \<open>
  Delivery over one queue: what the two ends of \<open>src/common/ipc_message_queue_win32.cc\<close> do
  together. The sender's pending messages are a stream of packets (\<open>todo\<close>); every call of
  \<open>WritePendingMessages\<close> moves a prefix of it into the shared buffer, and the receiver reads the
  packets in order and puts the messages together again. The step relation \<open>link_step\<close>
  interleaves both ends.
\<close>

section \<open>The sender\<close>

text \<open>The packets of a message, from the sequence number \<open>s\<close> on, for the bytes still to send.\<close>

definition packet_header :: "IpcProcessId \<Rightarrow> int32 \<Rightarrow> int32 \<Rightarrow> byte list \<Rightarrow> MessagePacketHeader" where
  "packet_header src ty s bs = (header_of src ty (word_of_nat (length bs)))\<lparr>sequence_number := s\<rparr>"

function frags :: "IpcProcessId \<Rightarrow> int32 \<Rightarrow> int32 \<Rightarrow> byte list \<Rightarrow> packet list" where
  "frags src ty s bs = first_packet (packet_header src ty s bs) bs #
     (if header_size + length bs > kCapacity then frags src ty (s + 1) (drop max_data bs) else [])"
  by pat_completeness auto
termination
  by (relation "measure (\<lambda>(src, ty, s, bs). length bs)")
    (auto simp: max_data_def kCapacity_eq header_size_def)

declare frags.simps [simp del]

lemma q_same_sent: "q_same q q' \<longleftrightarrow> q_sent q [] q'"
  by (auto simp: q_same_def q_sent_def)

lemma q_sent_trans: "q_sent q xs q1 \<Longrightarrow> q_sent q1 ys q2 \<Longrightarrow> q_sent q (xs @ ys) q2"
  by (auto simp: q_sent_def)

lemma word_of_nat_minus: "w \<le> n \<Longrightarrow> word_of_nat n - word_of_nat w = (word_of_nat (n - w) :: 'a::len word)"
  by (simp add: of_nat_diff)

text \<open>Only the pending messages and the message in progress differ.\<close>

definition oq_frame :: "'o OutboundQueue \<Rightarrow> 'o OutboundQueue \<Rightarrow> bool" where
  "oq_frame oq oq' \<longleftrightarrow> oq' = oq\<lparr>oq_pending := oq_pending oq', oq_in_progress := oq_in_progress oq',
     oq_in_progress_written := oq_in_progress_written oq', oq_in_progress_sequence := oq_in_progress_sequence oq'\<rparr>"

lemma oq_frame_trans: "oq_frame a b \<Longrightarrow> oq_frame b c \<Longrightarrow> oq_frame a c"
  by (cases a; cases b; cases c) (simp add: oq_frame_def)

lemma oq_frameD:
  "oq_frame a b \<Longrightarrow> oq_has_write_mutex b = oq_has_write_mutex a \<and> oq_waiting_mutex b = oq_waiting_mutex a \<and>
    oq_waiting_space b = oq_waiting_space a \<and> oq_process_open b = oq_process_open a \<and>
    oq_process_id b = oq_process_id a \<and> oq_last_active_time b = oq_last_active_time a"
  by (cases a; cases b) (simp add: oq_frame_def)

text \<open>A queue whose data event is set whenever it holds data.\<close>

definition q_ready :: "queue_base \<Rightarrow> bool" where
  "q_ready q \<longleftrightarrow> q_wf q \<and> (q_content q \<noteq> [] \<longrightarrow> q_data_available q)"

lemma q_sent_refl: "q_ready q \<Longrightarrow> q_sent q [] q"
  by (simp add: q_ready_def q_sent_def)

lemma q_sent_ready: "q_sent q bs q' \<Longrightarrow> q_ready q'"
  by (simp add: q_ready_def q_sent_def)

text \<open>The state of the message in progress is consistent with its serialized form.\<close>

context serializable_class
begin

definition msg_bytes :: "'o ShareableIpcMessage \<Rightarrow> byte list" where
  "msg_bytes m = bytes_of (Some (ipc_message_data m))"

definition msg_packets :: "IpcProcessId \<Rightarrow> 'o ShareableIpcMessage \<Rightarrow> packet list" where
  "msg_packets self m = frags self (ipc_message_type m) 0 (msg_bytes m)"

definition front_packets :: "IpcProcessId \<Rightarrow> 'o OutboundQueue \<Rightarrow> 'o ShareableIpcMessage \<Rightarrow> packet list" where
  "front_packets self oq m = (case oq_in_progress oq of
     None \<Rightarrow> msg_packets self m
   | Some ip \<Rightarrow> frags self (ipc_message_type m) (oq_in_progress_sequence oq + 1)
       (drop (oq_in_progress_written oq) (msg_bytes m)))"

definition todo :: "IpcProcessId \<Rightarrow> 'o OutboundQueue \<Rightarrow> packet list" where
  "todo self oq = (case oq_pending oq of [] \<Rightarrow> []
     | m # rest \<Rightarrow> front_packets self oq m @ concat (map (msg_packets self) rest))"

definition sender_ok :: "'o OutboundQueue \<Rightarrow> bool" where
  "sender_ok oq \<longleftrightarrow> (case oq_in_progress oq of
     None \<Rightarrow> oq_in_progress_written oq = 0 \<and> oq_in_progress_sequence oq = 0
   | Some ip \<Rightarrow> (\<exists>rest. oq_pending oq = ip # rest) \<and> oq_in_progress_written oq \<le> length (msg_bytes ip))"

lemma length_msg_bytes: "length (msg_bytes m) = 8 + length (payload (ipc_message_data m))"
  by (simp add: msg_bytes_def bytes_of_def object_bytes_def)

lemma msg_bytes_size: "length (msg_bytes m) < 2 ^ 31" "msg_bytes m \<noteq> []"
  using payload_size [of "ipc_message_data m"] length_msg_bytes [of m] by auto

lemma serialized_eq: "serialized_message_data vt m = Some (Some (msg_bytes m))"
  by (simp add: serialized_message_data_def write_object msg_bytes_def)

text \<open>The sequence number and the bytes of the packets still to send of the front message.\<close>

definition front_seq :: "'o OutboundQueue \<Rightarrow> int32" where
  "front_seq oq = (case oq_in_progress oq of None \<Rightarrow> 0 | Some ip \<Rightarrow> oq_in_progress_sequence oq + 1)"

definition front_bytes :: "'o OutboundQueue \<Rightarrow> 'o ShareableIpcMessage \<Rightarrow> byte list" where
  "front_bytes oq m = drop (oq_in_progress_written oq) (msg_bytes m)"

lemma front_packets_eq:
  "sender_ok oq \<Longrightarrow> front_packets self oq m = frags self (ipc_message_type m) (front_seq oq) (front_bytes oq m)"
  by (auto simp: front_packets_def front_seq_def front_bytes_def sender_ok_def msg_packets_def split: option.splits)

lemma WriteOneMessage_eq:
  assumes ok: "sender_ok oq" "oq_pending oq = m # rest" "oq_has_write_mutex oq"
    and allow: "allow \<or> oq_in_progress oq = None"
  shows "WriteOneMessage vt self True m allow oq q = do {
     (written, header2, oq1, q1) \<leftarrow> WriteOnePacket True
       (packet_header self (ipc_message_type m) (front_seq oq) (front_bytes oq m)) (front_bytes oq m) allow oq q;
     if \<not> written then Some (False, oq1, q1)
     else if last_packet header2 then
       Some (True, oq1\<lparr>oq_in_progress := None, oq_in_progress_written := 0, oq_in_progress_sequence := 0\<rparr>, q1)
     else do {
       assert_that (case oq_in_progress oq1 of None \<Rightarrow> True | Some ip \<Rightarrow> im_ptr m = im_ptr ip);
       Some (False, oq1\<lparr>oq_in_progress := Some m,
         oq_in_progress_written := oq_in_progress_written oq1 + unat (packet_size header2),
         oq_in_progress_sequence := sequence_number header2\<rparr>, q1) } }"
proof (cases "oq_in_progress oq")
  case None
  have "header_of self (ipc_message_type m) (word_of_nat (length (msg_bytes m)))
      = packet_header self (ipc_message_type m) 0 (msg_bytes m)"
    by (simp add: packet_header_def header_of_def)
  then show ?thesis
    using None ok msg_bytes_size(2) [of m]
    by (simp add: WriteOneMessage_def serialized_eq front_seq_def front_bytes_def sender_ok_def)
next
  case (Some ip)
  then have ip: "ip = m" "oq_in_progress_written oq \<le> length (msg_bytes m)"
    using ok by (auto simp: sender_ok_def)
  then have "(header_of self (ipc_message_type m) (word_of_nat (length (msg_bytes m))))
      \<lparr>packet_size := packet_size (header_of self (ipc_message_type m) (word_of_nat (length (msg_bytes m))))
           - word_of_nat (oq_in_progress_written oq), sequence_number := oq_in_progress_sequence oq + 1\<rparr>
      = packet_header self (ipc_message_type m) (oq_in_progress_sequence oq + 1) (front_bytes oq m)"
    by (simp add: packet_header_def header_of_def front_bytes_def of_nat_diff)
  then show ?thesis
    using Some ok allow ip msg_bytes_size(2) [of m]
    by (simp add: WriteOneMessage_def serialized_eq front_seq_def front_bytes_def)
qed

lemma WriteOneMessage_ok:
  assumes wf: "q_wf q" and ok: "sender_ok oq" "oq_pending oq = m # rest" "oq_has_write_mutex oq"
    and allow: "allow \<or> oq_in_progress oq = None"
    and front: "front_packets self oq m = p # ps"
  shows "\<exists>sent oq' q'. WriteOneMessage vt self True m allow oq q = Some (sent \<and> ps = [], oq', q') \<and>
    sent = ((ps = [] \<or> allow) \<and> length (q_content q) + length (packet_bytes p) \<le> kCapacity) \<and>
    (if sent then q_sent q (packet_bytes p) q' else q_sent q [] q') \<and>
    oq' = (if \<not> sent then oq else if ps = []
       then oq\<lparr>oq_in_progress := None, oq_in_progress_written := 0, oq_in_progress_sequence := 0\<rparr>
       else oq\<lparr>oq_in_progress := Some m, oq_in_progress_written := oq_in_progress_written oq + max_data,
               oq_in_progress_sequence := front_seq oq\<rparr>)"
proof -
  let ?d = "front_bytes oq m" and ?h = "packet_header self (ipc_message_type m) (front_seq oq) (front_bytes oq m)"
  have p: "p = first_packet ?h ?d"
    and ps: "ps = (if header_size + length ?d > kCapacity
      then frags self (ipc_message_type m) (front_seq oq + 1) (drop max_data ?d) else [])"
    using front front_packets_eq [OF ok(1)] frags.simps [of self "ipc_message_type m" "front_seq oq" ?d] by auto
  have psn: "ps = [] \<longleftrightarrow> header_size + length ?d \<le> kCapacity"
    using ps frags.simps [of self "ipc_message_type m" "front_seq oq + 1" "drop max_data ?d"] by auto
  have sz: "packet_size ?h = word_of_nat (length ?d)" by (simp add: packet_header_def header_of_def)
  have len: "length ?d < 2 ^ 31" using msg_bytes_size(1) [of m] by (simp add: front_bytes_def)
  from WriteOnePacket_ok [OF wf sz len, of allow oq] obtain sent h' q' where
    w: "WriteOnePacket True ?h ?d allow oq q = Some (sent, h', oq, q')"
      "sent = ((ps = [] \<or> allow) \<and> length (q_content q) + length (packet_bytes p) \<le> kCapacity)"
      "if sent then h' = fst p \<and> q_sent q (packet_bytes p) q' else q_sent q [] q'"
    unfolding p [symmetric] q_same_sent psn [symmetric] by blast
  have fields: "last_packet (fst p) \<longleftrightarrow> ps = []" "sequence_number (fst p) = front_seq oq"
    "ps \<noteq> [] \<Longrightarrow> unat (packet_size (fst p)) = max_data"
    unfolding psn p
    by (auto simp: first_packet_def packet_header_def header_of_def unat_of_nat max_data_def kCapacity_eq header_size_def)
  have ptr: "case oq_in_progress oq of None \<Rightarrow> True | Some ip \<Rightarrow> im_ptr m = im_ptr ip"
    using ok by (auto simp: sender_ok_def split: option.splits)
  show ?thesis
    using WriteOneMessage_eq [OF ok allow, of self q] w fields ptr by (auto split: if_splits)
qed

lemma front_packet_fits: "sender_ok oq \<Longrightarrow> front_packets self oq m = p # ps \<Longrightarrow> length (packet_bytes p) \<le> kCapacity"
  using first_packet_fits [of "packet_header self (ipc_message_type m) (front_seq oq) (front_bytes oq m)" "front_bytes oq m"]
  by (auto simp: front_packets_eq frags.simps [of self "ipc_message_type m" "front_seq oq"] packet_fits_def
      length_packet_bytes packet_header_def header_of_def)

lemma front_packets_Cons: "\<exists>p ps. front_packets self oq m = p # ps"
  by (auto simp: front_packets_def msg_packets_def frags.simps [of self] split: option.splits)

text \<open>What a call that sends the packets \<open>ps\<close> does to the queue and its pending messages.\<close>

definition sends :: "IpcProcessId \<Rightarrow> 'o OutboundQueue \<Rightarrow> queue_base \<Rightarrow> packet list \<Rightarrow> 'o ShareableIpcMessage list \<Rightarrow>
    'o OutboundQueue \<Rightarrow> queue_base \<Rightarrow> bool" where
  "sends self oq q ps sent oq' q' \<longleftrightarrow> q_sent q (concat (map packet_bytes ps)) q' \<and>
     todo self oq = ps @ todo self oq' \<and> sender_ok oq' \<and> oq_pending oq = sent @ oq_pending oq' \<and> oq_frame oq oq' \<and>
     length sent \<le> length ps"

lemma sends_one:
  assumes ok: "sender_ok oq" "oq_pending oq = m # rest" "oq_has_write_mutex oq"
    and front: "front_packets self oq m = p # ps" "q_sent q (packet_bytes p) q'"
  defines "oq1 \<equiv> oq\<lparr>oq_pending := rest, oq_in_progress := None, oq_in_progress_written := 0, oq_in_progress_sequence := 0\<rparr>"
    and "oq2 \<equiv> oq\<lparr>oq_in_progress := Some m, oq_in_progress_written := oq_in_progress_written oq + max_data,
               oq_in_progress_sequence := front_seq oq\<rparr>"
  shows "ps = [] \<Longrightarrow> sends self oq q [p] [m] oq1 q'" "ps \<noteq> [] \<Longrightarrow> sends self oq q [p] [] oq2 q'"
proof -
  assume "ps = []"
  have "todo self oq1 = concat (map (msg_packets self) rest)"
    by (cases rest) (simp_all add: todo_def oq1_def front_packets_def)
  then show "sends self oq q [p] [m] oq1 q'"
    using ok front \<open>ps = []\<close> by (simp add: sends_def todo_def oq1_def sender_ok_def oq_frame_def)
next
  assume ps: "ps \<noteq> []"
  let ?d = "front_bytes oq m"
  have large: "header_size + length ?d > kCapacity"
    and ps_eq: "ps = frags self (ipc_message_type m) (front_seq oq + 1) (drop max_data ?d)"
    using front front_packets_eq [OF ok(1)] frags.simps [of self "ipc_message_type m" "front_seq oq" ?d] ps
    by (auto split: if_splits)
  have "front_packets self oq2 m = ps"
    by (simp add: front_packets_def oq2_def ps_eq front_bytes_def add.commute)
  moreover have "sender_ok oq2"
    using large ok(2) by (auto simp: sender_ok_def oq2_def front_bytes_def max_data_def kCapacity_eq header_size_def)
  ultimately show "sends self oq q [p] [] oq2 q'"
    using ok front by (simp add: sends_def todo_def oq2_def oq_frame_def)
qed

lemma todo_cong:
  "oq_pending oq' = oq_pending oq \<Longrightarrow> oq_in_progress oq' = oq_in_progress oq \<Longrightarrow>
    oq_in_progress_written oq' = oq_in_progress_written oq \<Longrightarrow>
    oq_in_progress_sequence oq' = oq_in_progress_sequence oq \<Longrightarrow>
    todo self oq' = todo self oq \<and> sender_ok oq' = sender_ok oq"
  by (simp add: todo_def front_packets_def sender_ok_def split: list.splits option.splits)

lemma sends_trans:
  "sends self oq q ps sent oq1 q1 \<Longrightarrow> sends self oq1 q1 ps' sent' oq2 q2 \<Longrightarrow>
    sends self oq q (ps @ ps') (sent @ sent') oq2 q2"
  by (auto simp: sends_def intro: q_sent_trans oq_frame_trans)

lemma sends_nothing: "q_sent q [] q' \<Longrightarrow> sender_ok oq \<Longrightarrow> sends self oq q [] [] oq q'"
  by (simp add: sends_def oq_frame_def)

lemma write_pending_loop_ok:
  "q_ready q \<Longrightarrow> sender_ok oq \<Longrightarrow> oq_has_write_mutex oq \<Longrightarrow> allow \<or> oq_in_progress oq = None \<Longrightarrow>
    \<exists>sent oq' q' ps. write_pending_loop vt self True n allow oq q = Some (n + length sent, sent, oq', q') \<and>
      sends self oq q ps sent oq' q' \<and> (sent \<noteq> [] \<or> \<not> allow \<longrightarrow> oq_in_progress oq' = None) \<and>
      (allow \<and> q_content q = [] \<and> oq_pending oq \<noteq> [] \<longrightarrow> ps \<noteq> [])"
proof (induction "length (oq_pending oq)" arbitrary: n allow oq q)
  case 0
  then show ?case
    using sends_nothing [OF q_sent_refl, of q oq self]
    by (auto simp: write_pending_loop.simps [of vt self True n allow oq q] todo_def)
next
  case (Suc k)
  then obtain m rest where pending: "oq_pending oq = m # rest" by (cases "oq_pending oq") auto
  obtain p ps where front: "front_packets self oq m = p # ps" using front_packets_Cons by blast
  have wf: "q_wf q" using Suc.prems(1) by (simp add: q_ready_def)
  from WriteOneMessage_ok [OF wf Suc.prems(2) pending Suc.prems(3,4) front] obtain b oq1 q1 where
    w: "WriteOneMessage vt self True m allow oq q = Some (b \<and> ps = [], oq1, q1)"
      "b = ((ps = [] \<or> allow) \<and> length (q_content q) + length (packet_bytes p) \<le> kCapacity)"
      "if b then q_sent q (packet_bytes p) q1 else q_sent q [] q1"
      "oq1 = (if \<not> b then oq else if ps = []
       then oq\<lparr>oq_in_progress := None, oq_in_progress_written := 0, oq_in_progress_sequence := 0\<rparr>
       else oq\<lparr>oq_in_progress := Some m, oq_in_progress_written := oq_in_progress_written oq + max_data,
               oq_in_progress_sequence := front_seq oq\<rparr>)" by blast
  note loop = write_pending_loop.simps [of vt self True n allow oq q]
  note fits = front_packet_fits [OF Suc.prems(2) front]
  consider (stop) "\<not> b" | (part) "b" "ps \<noteq> []" | (full) "b" "ps = []" by blast
  then show ?case
  proof cases
    case stop
    have "write_pending_loop vt self True n allow oq q = Some (n + length [], [], oq, q1)"
      using w(1,4) stop by (simp add: loop pending)
    moreover have "sends self oq q [] [] oq q1" using w(3) stop sends_nothing Suc.prems(2) by simp
    moreover have "\<not> (allow \<and> q_content q = [])" using w(2) stop fits by auto
    ultimately show ?thesis using Suc.prems(4) by blast
  next
    case part
    have "write_pending_loop vt self True n allow oq q = Some (n + length [], [], oq1, q1)"
      using w(1) part by (simp add: loop pending)
    moreover have "q_sent q (packet_bytes p) q1" using w(3) part by simp
    then have "sends self oq q [p] [] oq1 q1"
      using sends_one(2) [OF Suc.prems(2) pending Suc.prems(3) front _ part(2), of q q1] w(4) part by simp
    moreover have "allow" using w(2) part by simp
    ultimately show ?thesis by blast
  next
    case full
    let ?oq = "oq\<lparr>oq_pending := rest, oq_in_progress := None, oq_in_progress_written := 0, oq_in_progress_sequence := 0\<rparr>"
    have one: "sends self oq q [p] [m] ?oq q1"
      using w full sends_one(1) [OF Suc.prems(2) pending Suc.prems(3) front, of q q1] by auto
    have "\<exists>sent oq' q' ps. write_pending_loop vt self True (n + 1) False ?oq q1 = Some (n + 1 + length sent, sent, oq', q') \<and>
      sends self ?oq q1 ps sent oq' q' \<and> (sent \<noteq> [] \<or> \<not> False \<longrightarrow> oq_in_progress oq' = None) \<and>
      (False \<and> q_content q1 = [] \<and> oq_pending ?oq \<noteq> [] \<longrightarrow> ps \<noteq> [])"
    proof (rule Suc.hyps(1))
      show "k = length (oq_pending ?oq)" using Suc.hyps(2) pending by simp
      show "q_ready q1" using one by (auto simp: sends_def intro: q_sent_ready)
      show "sender_ok ?oq" using one by (simp add: sends_def)
      show "oq_has_write_mutex ?oq" using Suc.prems(3) by simp
    qed simp
    then obtain sent oq' q' ps' where
      "write_pending_loop vt self True (n + 1) False ?oq q1 = Some (n + 1 + length sent, sent, oq', q')"
      "sends self ?oq q1 ps' sent oq' q'" "oq_in_progress oq' = None" by auto
    moreover have "oq1\<lparr>oq_pending := rest\<rparr> = ?oq" using w(4) full by simp
    ultimately have "write_pending_loop vt self True n allow oq q = Some (n + length (m # sent), m # sent, oq', q')"
      "sends self oq q ([p] @ ps') ([m] @ sent) oq' q'"
      using w(1) full sends_trans [OF one] by (simp_all add: loop pending)
    then show ?thesis using \<open>oq_in_progress oq' = None\<close> by fastforce
  qed
qed

text \<open>
  Between two calls a queue that has pending messages waits for the write mutex or, owning it,
  for space.
\<close>

definition wait_ok :: "'o OutboundQueue \<Rightarrow> bool" where
  "wait_ok oq \<longleftrightarrow> oq_has_write_mutex oq = oq_waiting_space oq \<and>
     (if oq_pending oq = [] then \<not> oq_waiting_space oq \<and> \<not> oq_waiting_mutex oq
      else oq_waiting_space oq \<noteq> oq_waiting_mutex oq) \<and>
     (oq_in_progress oq \<noteq> None \<longrightarrow> oq_waiting_space oq)"

lemma WritePendingMessages_ok:
  assumes q: "q_ready q" "q_mutex q = Some self"
    and oq: "sender_ok oq" "oq_has_write_mutex oq" "\<not> oq_waiting_space oq" "\<not> oq_waiting_mutex oq"
  shows "\<exists>sent oq' q' ps. WritePendingMessages vt self True now oq q = Some (sent, oq', q') \<and>
    q_ready q' \<and> q_content q' = q_content q @ concat (map packet_bytes ps) \<and>
    q_space_available q' = q_space_available q \<and>
    q_mutex q' = (if oq_has_write_mutex oq' then Some self else None) \<and>
    todo self oq = ps @ todo self oq' \<and> oq_pending oq = sent @ oq_pending oq' \<and>
    sender_ok oq' \<and> wait_ok oq' \<and> oq_process_open oq' = oq_process_open oq \<and>
    (ps = [] \<longrightarrow> oq_pending oq \<noteq> [] \<longrightarrow> oq_waiting_space oq') \<and>
    (oq_waiting_space oq' \<longrightarrow> q_content q' \<noteq> []) \<and> (q_content q = [] \<longrightarrow> oq_pending oq \<noteq> [] \<longrightarrow> ps \<noteq> [])"
proof -
  from write_pending_loop_ok [OF q(1) oq(1,2), of True self 0] obtain sent oq1 q1 ps where
    loop: "write_pending_loop vt self True 0 True oq q = Some (length sent, sent, oq1, q1)"
      "sends self oq q ps sent oq1 q1" "sent \<noteq> [] \<longrightarrow> oq_in_progress oq1 = None"
      "q_content q = [] \<and> oq_pending oq \<noteq> [] \<longrightarrow> ps \<noteq> []" by auto
  have frame: "oq_has_write_mutex oq1" "\<not> oq_waiting_space oq1" "\<not> oq_waiting_mutex oq1"
    "oq_process_open oq1 = oq_process_open oq"
    using loop(2) oq oq_frameD [of oq oq1] by (auto simp: sends_def)
  have sent: "q_sent q (concat (map packet_bytes ps)) q1" "todo self oq = ps @ todo self oq1"
    "sender_ok oq1" "oq_pending oq = sent @ oq_pending oq1" "length sent \<le> length ps" using loop(2) by (auto simp: sends_def)
  have bytes: "ps \<noteq> [] \<Longrightarrow> concat (map packet_bytes ps) \<noteq> []"
    by (cases ps) (auto simp: packet_bytes_def header_bytes_def)
  show ?thesis
  proof (cases "sent = [] \<and> oq_pending oq1 \<noteq> []")
    case True
    let ?oq2 = "oq1\<lparr>oq_waiting_space := True, oq_wait_start_time := now\<rparr>"
    have "WritePendingMessages vt self True now oq q = Some (sent, ?oq2, q1)"
      using True frame loop(1) oq by (simp add: WritePendingMessages_def WaitForSpaceAvailable_def)
    moreover have "q_ready q1" using sent(1) by (rule q_sent_ready)
    moreover have "todo self ?oq2 = todo self oq1" "sender_ok ?oq2"
      using todo_cong [of ?oq2 oq1 self] sent(3) by simp_all
    moreover have "q_content q1 \<noteq> []"
      using sent(1,4) loop(4) True bytes by (auto simp: q_sent_def)
    ultimately show ?thesis
      using True frame sent q loop(4)
      by (intro exI [of _ sent] exI [of _ ?oq2] exI [of _ q1] exI [of _ ps]) (auto simp: wait_ok_def q_sent_def)
  next
    case False
    have ip: "oq_in_progress oq1 = None"
      using False loop(3) sent(3) by (auto simp: sender_ok_def split: option.splits)
    let ?oq2 = "oq1\<lparr>oq_has_write_mutex := False\<rparr>"
    let ?oq3 = "if oq_pending oq1 \<noteq> [] then ?oq2\<lparr>oq_waiting_mutex := True, oq_wait_start_time := now\<rparr> else ?oq2"
    let ?q2 = "q1\<lparr>q_mutex := None\<rparr>"
    have "WritePendingMessages vt self True now oq q = Some (sent, ?oq3, ?q2)"
      using False frame loop(1) oq ip sent(1) q(2) by (auto simp: WritePendingMessages_def q_sent_def)
    moreover have "q_ready ?q2" "q_content ?q2 = q_content q1" "q_space_available ?q2 = q_space_available q1"
      using q_sent_ready [OF sent(1)] by (simp_all add: q_ready_def q_wf_def q_content_def)
    moreover have "todo self ?oq3 = todo self oq1" "sender_ok ?oq3"
      using todo_cong [of ?oq3 oq1 self] sent(3) by simp_all
    moreover have "wait_ok ?oq3" using frame ip by (simp add: wait_ok_def)
    moreover have "ps \<noteq> []" if "oq_pending oq \<noteq> []"
      using that False sent(4,5) by auto
    ultimately show ?thesis
      using frame sent loop(4)
      by (intro exI [of _ sent] exI [of _ ?oq3] exI [of _ ?q2] exI [of _ ps]) (auto simp: q_sent_def)
  qed
qed

end

section \<open>The receiver\<close>

text \<open>The receiver as a machine on packets: the messages (source, type, bytes) it completes.\<close>

type_synonym raw_message = "IpcProcessId \<times> int32 \<times> byte list"

definition accepts :: "InboundQueue \<Rightarrow> packet \<Rightarrow> bool" where
  "accepts iq p \<longleftrightarrow> packet_fits p \<and> (sequence_number (fst p) = 0 \<or>
     (\<not> last_packet (last_packet_header iq) \<and> msg_source (fst p) = msg_source (last_packet_header iq) \<and>
      msg_type (fst p) = msg_type (last_packet_header iq) \<and>
      sequence_number (fst p) = sequence_number (last_packet_header iq) + 1))"

definition recv_data :: "InboundQueue \<Rightarrow> packet \<Rightarrow> byte list" where
  "recv_data iq p = (if sequence_number (fst p) = 0 then [] else message_data_buffer iq) @ snd p"

definition recv_packet :: "InboundQueue \<Rightarrow> packet \<Rightarrow> InboundQueue" where
  "recv_packet iq p = \<lparr>last_packet_header = fst p,
     message_data_buffer = (if last_packet (fst p) then [] else recv_data iq p)\<rparr>"

fun recv :: "InboundQueue \<Rightarrow> packet list \<Rightarrow> raw_message list" where
  "recv iq [] = []"
| "recv iq (p # ps) =
     (if last_packet (fst p) then [(msg_source (fst p), msg_type (fst p), recv_data iq p)] else []) @
     recv (recv_packet iq p) ps"

fun accepts_all :: "InboundQueue \<Rightarrow> packet list \<Rightarrow> bool" where
  "accepts_all iq [] = True"
| "accepts_all iq (p # ps) = (accepts iq p \<and> accepts_all (recv_packet iq p) ps)"

definition recv_state :: "InboundQueue \<Rightarrow> packet list \<Rightarrow> InboundQueue" where
  "recv_state iq ps = foldl recv_packet iq ps"

lemma recv_append: "recv iq (ps @ qs) = recv iq ps @ recv (recv_state iq ps) qs"
  by (induction ps arbitrary: iq) (simp_all add: recv_state_def)

lemma accepts_all_append: "accepts_all iq (ps @ qs) \<longleftrightarrow> accepts_all iq ps \<and> accepts_all (recv_state iq ps) qs"
  by (induction ps arbitrary: iq) (simp_all add: recv_state_def)

lemma recv_state_append: "recv_state iq (ps @ qs) = recv_state (recv_state iq ps) qs"
  by (simp add: recv_state_def)

definition q_taken :: "queue_base \<Rightarrow> byte list \<Rightarrow> queue_base \<Rightarrow> bool" where
  "q_taken q rest q' \<longleftrightarrow> q_wf q' \<and> q_content q' = rest \<and> q_mutex q' = q_mutex q \<and>
     q_data_available q' = q_data_available q \<and> q_space_available q'"

lemma ReadOnePacket_empty:
  assumes "q_wf q" "q_content q = []"
  shows "\<exists>q'. ReadOnePacket iq q = Some (None, iq, q') \<and> q_taken q [] q'"
proof -
  let ?tx = "\<lparr>tx_dirty = False, tx_cb = cb_of (q_buffer q)\<rparr>"
  have "cb_data_available (cb_of (q_buffer q)) = 0"
    using assms length_cb_content [of "cb_of (q_buffer q)"] by (simp add: cb_of_wf q_content_def)
  with tx_start_ok [OF assms(1)] have "ReadOnePacket iq q = Some (None, iq, read_tx_end ?tx q)"
    by (simp add: ReadOnePacket_def)
  moreover have "q_taken q [] (read_tx_end ?tx q)"
    using read_tx_end_ok [OF tx_started(2) [OF assms(1)]] assms(2)
    by (simp add: q_taken_def q_content_def kCapacity_eq)
  ultimately show ?thesis by blast
qed

lemma ReadOnePacket_ok:
  assumes wf: "q_wf q" and c: "q_content q = packet_bytes p @ rest" and acc: "accepts iq p"
  shows "\<exists>q'. ReadOnePacket iq q = Some (Some (fst p), \<lparr>last_packet_header = fst p, message_data_buffer = recv_data iq p\<rparr>, q') \<and>
    q_taken q rest q'"
proof -
  let ?tx = "\<lparr>tx_dirty = False, tx_cb = cb_of (q_buffer q)\<rparr>" and ?h = "fst p" and ?d = "snd p"
  have fits: "packet_size ?h = word_of_nat (length ?d)" "length ?d < 2 ^ 31"
    using acc by (auto simp: accepts_def packet_fits_def kCapacity_eq)
  have c0: "cb_content (tx_cb ?tx) = header_bytes ?h @ (?d @ rest)"
    using c by (simp add: q_content_def packet_bytes_def)
  have avail: "cb_data_available (tx_cb ?tx) = length (q_content q)"
    using wf length_cb_content by (simp add: cb_of_wf q_content_def)
  from tx_read_ok [OF tx_started(2) [OF wf] c0] obtain tx1 where tx1:
    "tx_read header_size ?tx = Some (header_bytes ?h, tx1)" "read_tx tx1 q" "cb_content (tx_cb tx1) = ?d @ rest" by auto
  have avail1: "cb_data_available (tx_cb tx1) = length (?d @ rest)"
    using tx1(2,3) length_cb_content [of "tx_cb tx1"] by (simp add: read_tx_def tx_on_def)
  from tx_read_ok [OF tx1(2,3)] obtain tx2 where tx2:
    "tx_read (length ?d) tx1 = Some (?d, tx2)" "read_tx tx2 q" "cb_content (tx_cb tx2) = rest" by auto
  have sz: "sint (packet_size ?h) = int (length ?d)" "unat (scast (packet_size ?h) :: size64) = length ?d"
    using fits by (simp_all add: sint_of_nat32 unat_scast32)
  have nil: "tx2 = tx1" if "?d = []" using tx2(1) that by (simp add: tx_read_def)
  have room: "length rest < kCapacity"
    using q_content_bound [OF wf] c by (simp add: packet_bytes_def header_size_def)
  have "ReadOnePacket iq q = Some (Some ?h, \<lparr>last_packet_header = ?h, message_data_buffer = recv_data iq p\<rparr>, read_tx_end tx2 q)"
    using tx_start_ok [OF wf] tx1(1) avail c acc sz avail1 tx2(1) nil
    by (cases "?d = []")
      (simp_all add: ReadOnePacket_def Let_def recv_data_def accepts_def packet_bytes_def header_size_def)
  moreover have "q_taken q rest (read_tx_end tx2 q)"
    using read_tx_end_ok [OF tx2(2)] tx2(3) room by (simp add: q_taken_def)
  ultimately show ?thesis by blast
qed

lemma q_taken_trans: "q_taken q xs q1 \<Longrightarrow> q_taken q1 ys q2 \<Longrightarrow> q_taken q ys q2"
  by (simp add: q_taken_def)

text \<open>
  Reading the packets \<open>ps\<close> to the end dispatches exactly the messages they complete, if each of
  those can be decoded.
\<close>

lemma ReadAndDispatch_ok:
  assumes "\<And>src ty bs. (src, ty, bs) \<in> set (recv iq ps) \<Longrightarrow>
      bs \<noteq> [] \<and> (\<exists>ok ds. CreateAndReadObject vt constructors
        (new_deserializer bs 0 (word_of_nat (length bs))) = Some ((ok, Some (dec bs)), ds))"
    and "q_wf q" "q_content q = concat (map packet_bytes ps)" "accepts_all iq ps"
  shows "\<exists>q'. ReadAndDispatchMessages vt constructors iq q
      = Some (map (\<lambda>(src, ty, bs). (src, ty, dec bs)) (recv iq ps), recv_state iq ps, q') \<and> q_taken q [] q'"
  using assms
proof (induction ps arbitrary: iq q)
  case Nil
  from ReadOnePacket_empty [OF Nil(2), of iq] Nil(3) obtain q' where
    "ReadOnePacket iq q = Some (None, iq, q')" "q_taken q [] q'" by auto
  then show ?case
    by (simp add: ReadAndDispatchMessages.simps [of vt constructors iq q]
        ReadOneMessage.simps [of vt constructors iq q] recv_state_def)
next
  case (Cons p ps)
  from ReadOnePacket_ok [OF Cons.prems(2), of p "concat (map packet_bytes ps)" iq] Cons.prems(3,4)
  obtain q1 where p: "ReadOnePacket iq q
      = Some (Some (fst p), \<lparr>last_packet_header = fst p, message_data_buffer = recv_data iq p\<rparr>, q1)"
    and q1: "q_taken q (concat (map packet_bytes ps)) q1" by auto
  have "\<exists>q'. ReadAndDispatchMessages vt constructors (recv_packet iq p) q1
      = Some (map (\<lambda>(src, ty, bs). (src, ty, dec bs)) (recv (recv_packet iq p) ps),
          recv_state (recv_packet iq p) ps, q') \<and> q_taken q1 [] q'"
  proof (rule Cons.IH)
    show "bs \<noteq> [] \<and> (\<exists>ok ds. CreateAndReadObject vt constructors
        (new_deserializer bs 0 (word_of_nat (length bs))) = Some ((ok, Some (dec bs)), ds))"
      if "(src, ty, bs) \<in> set (recv (recv_packet iq p) ps)" for src ty bs
      using that Cons.prems(1) [of src ty bs] by simp
  qed (use Cons.prems(4) q1 in \<open>simp_all add: q_taken_def\<close>)
  then obtain q' where rest: "ReadAndDispatchMessages vt constructors (recv_packet iq p) q1
      = Some (map (\<lambda>(src, ty, bs). (src, ty, dec bs)) (recv (recv_packet iq p) ps),
          recv_state (recv_packet iq p) ps, q')" "q_taken q [] q'"
    using q_taken_trans [OF q1] by blast
  show ?case
  proof (cases "last_packet (fst p)")
    case False
    then have "ReadOneMessage vt constructors iq q = ReadOneMessage vt constructors (recv_packet iq p) q1"
      using p by (simp add: ReadOneMessage.simps [of vt constructors iq q] recv_packet_def)
    then have "ReadAndDispatchMessages vt constructors iq q = ReadAndDispatchMessages vt constructors (recv_packet iq p) q1"
      by (simp add: ReadAndDispatchMessages.simps [of vt constructors iq q]
          ReadAndDispatchMessages.simps [of vt constructors "recv_packet iq p" q1])
    then show ?thesis using rest False by (simp add: recv_state_def)
  next
    case True
    obtain ok ds where "recv_data iq p \<noteq> []" "CreateAndReadObject vt constructors
        (new_deserializer (recv_data iq p) 0 (word_of_nat (length (recv_data iq p)))) = Some ((ok, Some (dec (recv_data iq p))), ds)"
      using Cons.prems(1) [of "msg_source (fst p)" "msg_type (fst p)" "recv_data iq p"] True by auto
    then have "ReadOneMessage vt constructors iq q
        = Some (Some (msg_source (fst p), msg_type (fst p), Some (dec (recv_data iq p))), recv_packet iq p, q1)"
      using p True by (simp add: ReadOneMessage.simps [of vt constructors iq q] recv_packet_def)
    then show ?thesis
      using rest True by (simp add: ReadAndDispatchMessages.simps [of vt constructors iq q] recv_state_def)
  qed
qed

subsection \<open>Fragments of a message\<close>

definition continues :: "InboundQueue \<Rightarrow> IpcProcessId \<Rightarrow> int32 \<Rightarrow> int32 \<Rightarrow> bool" where
  "continues iq src ty s \<longleftrightarrow> s = 0 \<or> (\<not> last_packet (last_packet_header iq) \<and>
     src = msg_source (last_packet_header iq) \<and> ty = msg_type (last_packet_header iq) \<and>
     s = sequence_number (last_packet_header iq) + 1)"

lemma seq_step: "unat (s :: int32) + n < 2 ^ 32 - 1 \<Longrightarrow> s + 1 \<noteq> 0 \<and> unat (s + 1) = unat s + 1"
proof -
  assume a: "unat s + n < 2 ^ 32 - 1"
  then have "unat (s + 1) = unat s + 1" by (subst unat_word_ariths(1)) simp
  then show ?thesis by (metis add_is_0 one_neq_zero unat_0)
qed

lemma recv_frags:
  "unat s + length bs < 2 ^ 32 - 1 \<Longrightarrow> continues iq src ty s \<Longrightarrow>
    accepts_all iq (frags src ty s bs) \<and>
    recv iq (frags src ty s bs) = [(src, ty, (if s = 0 then [] else message_data_buffer iq) @ bs)]"
proof (induction src ty s bs arbitrary: iq rule: frags.induct)
  case (1 src ty s bs)
  let ?h = "packet_header src ty s bs"
  have h: "packet_size ?h = word_of_nat (length bs)" "sequence_number ?h = s" "msg_source ?h = src" "msg_type ?h = ty"
    "last_packet ?h" by (simp_all add: packet_header_def header_of_def)
  have acc: "accepts iq (first_packet ?h bs)"
    using first_packet_fits [OF h(1)] 1(3) h by (auto simp: accepts_def continues_def first_packet_def)
  show ?case
  proof (cases "header_size + length bs > kCapacity")
    case False
    then show ?thesis
      using acc h by (simp add: frags.simps [of src ty s bs] first_packet_def recv_data_def)
  next
    case True
    let ?iq = "recv_packet iq (first_packet ?h bs)"
    have s1: "s + 1 \<noteq> 0" "unat (s + 1) = unat s + 1" using seq_step 1(2) by blast+
    have "length (drop max_data bs) + 1 \<le> length bs" using True by (auto simp: max_data_def kCapacity_eq header_size_def)
    then have small: "unat (s + 1) + length (drop max_data bs) < 2 ^ 32 - 1" using 1(2) s1(2) by linarith
    have "continues ?iq src ty (s + 1)"
      using True h by (simp add: continues_def recv_packet_def first_packet_def)
    from 1(1) [OF True small this] acc True h s1(1) show ?thesis
      by (simp add: frags.simps [of src ty s bs] first_packet_def recv_packet_def recv_data_def)
  qed
qed

lemma frags_not_last: "p \<in> set (butlast (frags src ty s bs)) \<Longrightarrow> \<not> last_packet (fst p)"
proof (induction src ty s bs rule: frags.induct)
  case (1 src ty s bs)
  show ?case
  proof (cases "header_size + length bs > kCapacity")
    case True
    have "frags src ty (s + 1) (drop max_data bs) \<noteq> []" by (simp add: frags.simps [of src ty "s + 1"])
    then show ?thesis using 1 True by (auto simp: frags.simps [of src ty s bs] first_packet_def)
  next
    case False
    then show ?thesis using 1 by (simp add: frags.simps [of src ty s bs])
  qed
qed

lemma recv_not_last: "\<forall>p \<in> set ps. \<not> last_packet (fst p) \<Longrightarrow> recv iq ps = []"
  by (induction ps arbitrary: iq) auto

text \<open>A message that its sender did not finish completes nothing.\<close>

lemma recv_unfinished: "k < length (frags src ty s bs) \<Longrightarrow> recv iq (take k (frags src ty s bs)) = []"
proof (rule recv_not_last, intro ballI)
  fix p assume k: "k < length (frags src ty s bs)" and p: "p \<in> set (take k (frags src ty s bs))"
  have "take k (frags src ty s bs) = take k (butlast (frags src ty s bs))"
    using k by (simp add: butlast_conv_take)
  then show "\<not> last_packet (fst p)" using p frags_not_last set_take_subset by fastforce
qed

section \<open>A sender and a receiver\<close>

text \<open>
  The state of a link: the outbound queue of the sending process, the kernel objects of the queue,
  the inbound queue of the receiving process, the messages it has dispatched, and (for the
  statements) the messages that were handed to the sender.
\<close>

record 'o link =
  lk_out :: "'o OutboundQueue"
  lk_queue :: queue_base
  lk_in :: InboundQueue
  lk_dispatched :: "(IpcProcessId \<times> int32 \<times> 'o) list"
  lk_sent :: "'o ShareableIpcMessage list"

definition link_init :: "IpcProcessId \<Rightarrow> queue_base \<Rightarrow> 'o link" where
  "link_init dest q = \<lparr>lk_out = snd (oq_open dest True True oq_new), lk_queue = q, lk_in = iq_new,
     lk_dispatched = [], lk_sent = []\<rparr>"

text \<open>
  The steps of the two message loops: a wait on one of the handles of \<open>AddWaitHandles\<close> returns
  when the object is signalled, and the handler runs.
\<close>

inductive link_internal :: "'o serializable \<Rightarrow> 'o constructors \<Rightarrow> IpcProcessId \<Rightarrow> 'o link \<Rightarrow> 'o link \<Rightarrow> bool"
  for vt constructors self where
  lock: "oq_add_wait_handles now (lk_out s) = Some (True, hs) \<Longrightarrow> H_write_mutex \<in> set hs \<Longrightarrow>
    q_mutex (lk_queue s) = None \<Longrightarrow>
    oq_wait_complete vt self True now H_write_mutex (lk_out s) (lk_queue s) = Some (sent, rm, oq, q) \<Longrightarrow>
    link_internal vt constructors self s (s\<lparr>lk_out := oq, lk_queue := q\<rparr>)"
| space: "oq_add_wait_handles now (lk_out s) = Some (True, hs) \<Longrightarrow> H_space_available \<in> set hs \<Longrightarrow>
    q_space_available (lk_queue s) \<Longrightarrow>
    oq_wait_complete vt self True now H_space_available (lk_out s) (lk_queue s) = Some (sent, rm, oq, q) \<Longrightarrow>
    link_internal vt constructors self s (s\<lparr>lk_out := oq, lk_queue := q\<rparr>)"
| data: "q_data_available (lk_queue s) \<Longrightarrow>
    iq_wait_complete vt constructors H_data_available False (lk_in s) (lk_queue s) = Some (msgs, iq, q) \<Longrightarrow>
    link_internal vt constructors self s
      (s\<lparr>lk_in := iq, lk_queue := q, lk_dispatched := lk_dispatched s @ msgs\<rparr>)"

inductive link_step :: "'o serializable \<Rightarrow> 'o constructors \<Rightarrow> IpcProcessId \<Rightarrow> 'o link \<Rightarrow> 'o link \<Rightarrow> bool"
  for vt constructors self where
  send: "link_step vt constructors self s
    (s\<lparr>lk_out := AddMessageToQueue now m (lk_out s), lk_sent := lk_sent s @ [m]\<rparr>)"
| internal: "link_internal vt constructors self s t \<Longrightarrow> link_step vt constructors self s t"

inductive link_reach :: "'o serializable \<Rightarrow> 'o constructors \<Rightarrow> IpcProcessId \<Rightarrow> IpcProcessId \<Rightarrow> 'o link \<Rightarrow> bool"
  for vt constructors self dest where
  init: "iq_create True = Some q \<Longrightarrow> link_reach vt constructors self dest (link_init dest q)"
| step: "link_reach vt constructors self dest s \<Longrightarrow> link_step vt constructors self s t \<Longrightarrow>
    link_reach vt constructors self dest t"

inductive_cases link_internalE: "link_internal vt constructors self s t"
inductive_cases link_stepE: "link_step vt constructors self s t"

lemma wait_handles_cases:
  assumes "oq_add_wait_handles now oq = Some (True, hs)"
  shows "H_write_mutex \<in> set hs \<Longrightarrow> oq_process_open oq \<and> oq_pending oq \<noteq> [] \<and> oq_waiting_mutex oq \<and> \<not> oq_waiting_space oq"
    and "H_space_available \<in> set hs \<Longrightarrow> oq_process_open oq \<and> oq_pending oq \<noteq> [] \<and> oq_waiting_space oq \<and> \<not> oq_waiting_mutex oq"
  using assms by (auto simp: oq_add_wait_handles_def bind_eq_Some_conv split: if_splits)

context serializable_class
begin

definition dec :: "byte list \<Rightarrow> 'o" where
  "dec bs = (case CreateAndReadObject vt constructors (new_deserializer bs 0 (word_of_nat (length bs))) of
     Some ((ok, Some obj), ds) \<Rightarrow> obj)"

lemma read_message:
  "CreateAndReadObject vt constructors (new_deserializer (msg_bytes m) 0 (word_of_nat (length (msg_bytes m))))
    = Some ((True, Some (decoded (ipc_message_data m))), ds_advance (length (msg_bytes m))
        (new_deserializer (msg_bytes m) 0 (word_of_nat (length (msg_bytes m)))))"
proof -
  have "length (msg_bytes m) < 2 ^ 63" using msg_bytes_size(1) [of m] by simp
  note w = whole_buffer [OF this]
  show ?thesis
    using read_object [OF w(1), of "Some (ipc_message_data m)" "[]"] w(2) by (simp add: msg_bytes_def)
qed

lemma dec_msg: "dec (msg_bytes m) = decoded (ipc_message_data m)"
  using read_message [of m] by (simp add: dec_def)

definition stream :: "IpcProcessId \<Rightarrow> 'o ShareableIpcMessage list \<Rightarrow> packet list" where
  "stream self ms = concat (map (msg_packets self) ms)"

lemma recv_stream:
  "accepts_all iq (stream self ms) \<and> recv iq (stream self ms) = map (\<lambda>m. (self, ipc_message_type m, msg_bytes m)) ms"
proof (induction ms arbitrary: iq)
  case (Cons m ms)
  have "unat (0 :: int32) + length (msg_bytes m) < 2 ^ 32 - 1" using msg_bytes_size(1) [of m] by simp
  from recv_frags [OF this, of iq self "ipc_message_type m"] Cons [of "recv_state iq (msg_packets self m)"]
  show ?case by (simp add: stream_def msg_packets_def continues_def accepts_all_append recv_append)
qed (simp add: stream_def)

text \<open>The invariant: what was read, what is in the buffer and what is to be sent is the whole stream.\<close>

definition link_inv :: "IpcProcessId \<Rightarrow> 'o link \<Rightarrow> bool" where
  "link_inv self s \<longleftrightarrow>
     (\<exists>C R. stream self (lk_sent s) = C @ R @ todo self (lk_out s) \<and>
        q_content (lk_queue s) = concat (map packet_bytes R) \<and> lk_in s = recv_state iq_new C \<and>
        lk_dispatched s = map (\<lambda>(src, ty, bs). (src, ty, dec bs)) (recv iq_new C)) \<and>
     q_ready (lk_queue s) \<and> sender_ok (lk_out s) \<and> wait_ok (lk_out s) \<and> oq_process_open (lk_out s) \<and>
     q_mutex (lk_queue s) = (if oq_has_write_mutex (lk_out s) then Some self else None) \<and>
     (oq_waiting_space (lk_out s) \<longrightarrow> q_content (lk_queue s) \<noteq> [] \<or> q_space_available (lk_queue s))"

lemma todo_append: "sender_ok oq \<Longrightarrow> todo self (oq\<lparr>oq_pending := oq_pending oq @ [m]\<rparr>) = todo self oq @ msg_packets self m"
  by (cases "oq_pending oq") (auto simp: todo_def front_packets_def sender_ok_def split: option.splits)

lemma inv_init: "iq_create True = Some q \<Longrightarrow> link_inv self (link_init dest q)"
proof -
  assume "iq_create True = Some q"
  then have q: "q = \<lparr>q_mutex = None, q_data_available = False, q_space_available = False, q_buffer = buffer_create\<rparr>"
    by (simp add: iq_create_def)
  have "q_wf q" "q_content q = []"
    by (simp_all add: q q_wf_def q_content_def cb_of_def cb_content_def buffer_create_def)
  then show ?thesis
    by (simp add: link_inv_def link_init_def oq_open_def oq_new_def stream_def todo_def recv_state_def q_ready_def
        sender_ok_def wait_ok_def) (simp add: q)
qed

lemma inv_send:
  assumes "link_inv self s"
  shows "link_inv self (s\<lparr>lk_out := AddMessageToQueue now m (lk_out s), lk_sent := lk_sent s @ [m]\<rparr>)"
proof -
  let ?oq = "lk_out s" and ?oq' = "AddMessageToQueue now m (lk_out s)"
  have ok: "sender_ok ?oq" "wait_ok ?oq" using assms by (auto simp: link_inv_def)
  have "todo self ?oq' = todo self (?oq\<lparr>oq_pending := oq_pending ?oq @ [m]\<rparr>) \<and> sender_ok ?oq' = sender_ok (?oq\<lparr>oq_pending := oq_pending ?oq @ [m]\<rparr>)"
    by (rule todo_cong) (simp_all add: AddMessageToQueue_def MaybeWaitForWriteMutex_def)
  moreover have "sender_ok (?oq\<lparr>oq_pending := oq_pending ?oq @ [m]\<rparr>)"
    using ok(1) by (auto simp: sender_ok_def split: option.splits)
  ultimately have "todo self ?oq' = todo self ?oq @ msg_packets self m" "sender_ok ?oq'"
    using todo_append [OF ok(1)] by simp_all
  moreover have "wait_ok ?oq'" "oq_process_open ?oq' = oq_process_open ?oq" "oq_has_write_mutex ?oq' = oq_has_write_mutex ?oq"
    "oq_waiting_space ?oq' = oq_waiting_space ?oq"
    using ok(2) by (auto simp: wait_ok_def AddMessageToQueue_def MaybeWaitForWriteMutex_def split: if_splits)
  ultimately show ?thesis using assms by (auto simp: link_inv_def stream_def)
qed

text \<open>A call of \<open>WritePendingMessages\<close> from a state that agrees with the link in what counts.\<close>

lemma inv_write:
  assumes inv: "link_inv self s"
    and oq: "oq_pending oq = oq_pending (lk_out s)" "oq_in_progress oq = oq_in_progress (lk_out s)"
      "oq_in_progress_written oq = oq_in_progress_written (lk_out s)"
      "oq_in_progress_sequence oq = oq_in_progress_sequence (lk_out s)" "oq_process_open oq"
      "oq_has_write_mutex oq" "\<not> oq_waiting_space oq" "\<not> oq_waiting_mutex oq"
    and q: "q_buffer q = q_buffer (lk_queue s)" "q_data_available q = q_data_available (lk_queue s)" "q_mutex q = Some self"
  shows "\<exists>sent oq' q' ps. WritePendingMessages vt self True now oq q = Some (sent, oq', q') \<and>
    link_inv self (s\<lparr>lk_out := oq', lk_queue := q'\<rparr>) \<and> todo self (lk_out s) = ps @ todo self oq' \<and>
    q_content q' = q_content (lk_queue s) @ concat (map packet_bytes ps) \<and>
    q_space_available q' = q_space_available q \<and>
    (ps = [] \<longrightarrow> oq_pending oq \<noteq> [] \<longrightarrow> oq_waiting_space oq' \<and> q_content q' \<noteq> [] \<and> q_data_available q')"
proof -
  have todo: "todo self oq = todo self (lk_out s)" "sender_ok oq"
    using todo_cong [OF oq(1-4)] inv by (auto simp: link_inv_def)
  have content: "q_content q = q_content (lk_queue s)" by (simp add: q_content_def q(1))
  have ready: "q_ready q" using inv by (auto simp: link_inv_def q_ready_def q_wf_def q q_content_def)
  from WritePendingMessages_ok [OF ready q(3) todo(2) oq(6-8), of now] obtain sent oq' q' ps where
    w: "WritePendingMessages vt self True now oq q = Some (sent, oq', q')"
    "q_ready q'" "q_content q' = q_content q @ concat (map packet_bytes ps)"
    "q_space_available q' = q_space_available q"
    "q_mutex q' = (if oq_has_write_mutex oq' then Some self else None)"
    "todo self oq = ps @ todo self oq'" "sender_ok oq'" "wait_ok oq'" "oq_process_open oq'"
    "ps = [] \<longrightarrow> oq_pending oq \<noteq> [] \<longrightarrow> oq_waiting_space oq'"
    "oq_waiting_space oq' \<longrightarrow> q_content q' \<noteq> []"
    using oq(5) by blast
  obtain C R where "stream self (lk_sent s) = C @ R @ todo self (lk_out s)"
    "q_content (lk_queue s) = concat (map packet_bytes R)" "lk_in s = recv_state iq_new C"
    "lk_dispatched s = map (\<lambda>(src, ty, bs). (src, ty, dec bs)) (recv iq_new C)"
    using inv by (auto simp: link_inv_def)
  then have "\<exists>C R. stream self (lk_sent s) = C @ R @ todo self oq' \<and>
        q_content q' = concat (map packet_bytes R) \<and> lk_in s = recv_state iq_new C \<and>
        lk_dispatched s = map (\<lambda>(src, ty, bs). (src, ty, dec bs)) (recv iq_new C)"
    using todo(1) w(3,6) content by (intro exI [of _ C] exI [of _ "R @ ps"]) simp
  then have "link_inv self (s\<lparr>lk_out := oq', lk_queue := q'\<rparr>)"
    using w by (auto simp: link_inv_def)
  then show ?thesis using w todo(1) content by (auto simp: q_ready_def)
qed

lemma inv_lock:
  assumes inv: "link_inv self s" and wait: "oq_waiting_mutex (lk_out s)"
  shows "\<exists>sent oq q ps. oq_wait_complete vt self True now H_write_mutex (lk_out s) (lk_queue s) = Some (sent, None, oq, q) \<and>
    link_inv self (s\<lparr>lk_out := oq, lk_queue := q\<rparr>) \<and> todo self (lk_out s) = ps @ todo self oq \<and>
    (ps = [] \<longrightarrow> \<not> oq_waiting_mutex oq)"
proof -
  have w: "wait_ok (lk_out s)" "oq_process_open (lk_out s)" using inv by (auto simp: link_inv_def)
  have p: "oq_pending (lk_out s) \<noteq> []" using w(1) wait by (auto simp: wait_ok_def)
  then have "\<not> oq_waiting_space (lk_out s)" using w(1) wait by (auto simp: wait_ok_def)
  then obtain sent oq q ps where r: "WritePendingMessages vt self True now
      ((lk_out s)\<lparr>oq_last_active_time := now, oq_waiting_mutex := False, oq_has_write_mutex := True\<rparr>)
      ((lk_queue s)\<lparr>q_mutex := Some self\<rparr>) = Some (sent, oq, q)"
      "link_inv self (s\<lparr>lk_out := oq, lk_queue := q\<rparr>)" "todo self (lk_out s) = ps @ todo self oq"
      "ps = [] \<longrightarrow> oq_waiting_space oq"
    using inv_write [OF inv, of "(lk_out s)\<lparr>oq_last_active_time := now, oq_waiting_mutex := False, oq_has_write_mutex := True\<rparr>"
        "(lk_queue s)\<lparr>q_mutex := Some self\<rparr>" now] w p by auto
  moreover have "wait_ok oq" using r(2) by (simp add: link_inv_def)
  ultimately show ?thesis using w(2) by (auto simp: oq_wait_complete_def wait_ok_def split: if_splits)
qed

lemma inv_space:
  assumes inv: "link_inv self s" and wait: "oq_waiting_space (lk_out s)"
  shows "\<exists>sent oq q ps. oq_wait_complete vt self True now H_space_available (lk_out s) (lk_queue s) = Some (sent, None, oq, q) \<and>
    link_inv self (s\<lparr>lk_out := oq, lk_queue := q\<rparr>) \<and> todo self (lk_out s) = ps @ todo self oq \<and> \<not> q_space_available q \<and>
    (ps = [] \<longrightarrow> \<not> oq_waiting_mutex oq \<and> q_content q = q_content (lk_queue s) \<and> q_content q \<noteq> [] \<and> q_data_available q)"
proof -
  have w: "wait_ok (lk_out s)" "oq_process_open (lk_out s)" using inv by (auto simp: link_inv_def)
  have p: "oq_pending (lk_out s) \<noteq> []" "\<not> oq_waiting_mutex (lk_out s)" "oq_has_write_mutex (lk_out s)"
    using w(1) wait by (auto simp: wait_ok_def split: if_splits)
  then have "q_mutex (lk_queue s) = Some self" using inv by (simp add: link_inv_def)
  moreover define oq0 q0 where "oq0 = (lk_out s)\<lparr>oq_last_active_time := now, oq_waiting_space := False\<rparr>"
    and "q0 = (lk_queue s)\<lparr>q_space_available := False\<rparr>"
  ultimately have "oq_pending oq0 = oq_pending (lk_out s)" "oq_in_progress oq0 = oq_in_progress (lk_out s)"
      "oq_in_progress_written oq0 = oq_in_progress_written (lk_out s)"
      "oq_in_progress_sequence oq0 = oq_in_progress_sequence (lk_out s)" "oq_process_open oq0"
      "oq_has_write_mutex oq0" "\<not> oq_waiting_space oq0" "\<not> oq_waiting_mutex oq0"
      "q_buffer q0 = q_buffer (lk_queue s)" "q_data_available q0 = q_data_available (lk_queue s)" "q_mutex q0 = Some self"
    using w p by simp_all
  from inv_write [OF inv this, of now] obtain sent oq q ps where r: "WritePendingMessages vt self True now oq0 q0 = Some (sent, oq, q)"
      "link_inv self (s\<lparr>lk_out := oq, lk_queue := q\<rparr>)" "todo self (lk_out s) = ps @ todo self oq"
      "q_content q = q_content (lk_queue s) @ concat (map packet_bytes ps)" "q_space_available q = q_space_available q0"
      "ps = [] \<longrightarrow> oq_pending oq0 \<noteq> [] \<longrightarrow> oq_waiting_space oq \<and> q_content q \<noteq> [] \<and> q_data_available q"
    by blast
  moreover have "wait_ok oq" using r(2) by (simp add: link_inv_def)
  ultimately show ?thesis
    using w(2) p by (auto simp: oq_wait_complete_def wait_ok_def oq0_def q0_def split: if_splits)
qed

lemma inv_data:
  assumes inv: "link_inv self s"
  shows "\<exists>msgs iq q. iq_wait_complete vt constructors H_data_available False (lk_in s) (lk_queue s) = Some (msgs, iq, q) \<and>
    link_inv self (s\<lparr>lk_in := iq, lk_queue := q, lk_dispatched := lk_dispatched s @ msgs\<rparr>) \<and>
    q_content q = [] \<and> \<not> q_data_available q"
proof -
  obtain C R where CR: "stream self (lk_sent s) = C @ R @ todo self (lk_out s)"
    "q_content (lk_queue s) = concat (map packet_bytes R)" "lk_in s = recv_state iq_new C"
    "lk_dispatched s = map (\<lambda>(src, ty, bs). (src, ty, dec bs)) (recv iq_new C)"
    using inv by (auto simp: link_inv_def)
  note S = recv_stream [of iq_new self "lk_sent s"]
  have acc: "accepts_all (recv_state iq_new C) R"
    using S CR(1) by (simp add: accepts_all_append)
  have "set (recv (recv_state iq_new C) R) \<subseteq> set (recv iq_new (stream self (lk_sent s)))"
    unfolding CR(1) recv_append by auto
  then have sub: "set (recv (recv_state iq_new C) R) \<subseteq> (\<lambda>m. (self, ipc_message_type m, msg_bytes m)) ` set (lk_sent s)"
    using S by auto
  let ?q = "(lk_queue s)\<lparr>q_data_available := False\<rparr>"
  have "\<exists>q. ReadAndDispatchMessages vt constructors (recv_state iq_new C) ?q
      = Some (map (\<lambda>(src, ty, bs). (src, ty, dec bs)) (recv (recv_state iq_new C) R),
          recv_state (recv_state iq_new C) R, q) \<and> q_taken ?q [] q"
  proof (rule ReadAndDispatch_ok)
    fix src ty bs assume "(src, ty, bs) \<in> set (recv (recv_state iq_new C) R)"
    then obtain m where "bs = msg_bytes m" using sub by auto
    then show "bs \<noteq> [] \<and> (\<exists>ok ds. CreateAndReadObject vt constructors
        (new_deserializer bs 0 (word_of_nat (length bs))) = Some ((ok, Some (dec bs)), ds))"
      using read_message [of m] msg_bytes_size(2) [of m] dec_msg [of m] by auto
  qed (use inv CR acc in \<open>auto simp: link_inv_def q_ready_def q_wf_def q_content_def\<close>)
  then obtain q where q: "ReadAndDispatchMessages vt constructors (recv_state iq_new C) ?q
      = Some (map (\<lambda>(src, ty, bs). (src, ty, dec bs)) (recv (recv_state iq_new C) R),
          recv_state iq_new (C @ R), q)" "q_taken ?q [] q" by (auto simp: recv_state_append)
  let ?s = "s\<lparr>lk_in := recv_state iq_new (C @ R), lk_queue := q,
      lk_dispatched := lk_dispatched s @ map (\<lambda>(src, ty, bs). (src, ty, dec bs)) (recv (recv_state iq_new C) R)\<rparr>"
  have "\<exists>C R. stream self (lk_sent ?s) = C @ R @ todo self (lk_out ?s) \<and>
        q_content (lk_queue ?s) = concat (map packet_bytes R) \<and> lk_in ?s = recv_state iq_new C \<and>
        lk_dispatched ?s = map (\<lambda>(src, ty, bs). (src, ty, dec bs)) (recv iq_new C)"
    using CR q(2) by (intro exI [of _ "C @ R"] exI [of _ "[]"]) (simp add: recv_append q_taken_def)
  then have "link_inv self ?s"
    using inv q(2) by (auto simp: link_inv_def q_taken_def q_ready_def)
  moreover have "iq_wait_complete vt constructors H_data_available False (lk_in s) (lk_queue s)
      = Some (map (\<lambda>(src, ty, bs). (src, ty, dec bs)) (recv (recv_state iq_new C) R), recv_state iq_new (C @ R), q)"
    using q(1) CR(3) by (simp add: iq_wait_complete_def)
  ultimately show ?thesis using q(2) by (auto simp: q_taken_def)
qed

lemma inv_internal:
  assumes inv: "link_inv self s" and st: "link_internal vt constructors self s t"
  shows "link_inv self t"
  using st
proof (cases rule: link_internal.cases)
  case (lock now hs sent rm oq q)
  with wait_handles_cases(1) [OF lock(2,3)] inv_lock [OF inv, of now] show ?thesis by auto
next
  case (space now hs sent rm oq q)
  with wait_handles_cases(2) [OF space(2,3)] inv_space [OF inv, of now] show ?thesis by auto
next
  case (data msgs iq q)
  with inv_data [OF inv] show ?thesis by auto
qed

lemma inv_reach: "link_reach vt constructors self dest s \<Longrightarrow> link_inv self s"
proof (induction rule: link_reach.induct)
  case (init q)
  then show ?case by (rule inv_init)
next
  case (step s t)
  from step(2) show ?case
    by (cases rule: link_step.cases) (use step(3) inv_send inv_internal in auto)
qed

definition deliveries :: "IpcProcessId \<Rightarrow> 'o ShareableIpcMessage list \<Rightarrow> (IpcProcessId \<times> int32 \<times> 'o) list" where
  "deliveries self ms = map (\<lambda>m. (self, ipc_message_type m, decoded (ipc_message_data m))) ms"

lemma recv_deliveries:
  "map (\<lambda>(src, ty, bs). (src, ty, dec bs)) (recv iq (stream self ms)) = deliveries self ms"
  using recv_stream [of iq self ms] by (simp add: deliveries_def dec_msg)

lemma delivery_prefix:
  assumes "link_reach vt constructors self dest s"
  shows "\<exists>rest. deliveries self (lk_sent s) = lk_dispatched s @ rest"
proof -
  obtain C R where "stream self (lk_sent s) = C @ R @ todo self (lk_out s)"
    "lk_dispatched s = map (\<lambda>(src, ty, bs). (src, ty, dec bs)) (recv iq_new C)"
    using inv_reach [OF assms] by (auto simp: link_inv_def)
  then show ?thesis unfolding recv_deliveries [of iq_new, symmetric] by (simp add: recv_append)
qed

lemma not_stuck:
  assumes reach: "link_reach vt constructors self dest s"
    and work: "oq_pending (lk_out s) \<noteq> [] \<or> q_content (lk_queue s) \<noteq> []"
  shows "\<exists>t. link_internal vt constructors self s t"
proof -
  note inv = inv_reach [OF reach]
  have w: "wait_ok (lk_out s)" "oq_process_open (lk_out s)" using inv by (auto simp: link_inv_def)
  let ?now = "oq_wait_start_time (lk_out s)"
  consider (data) "q_data_available (lk_queue s)"
    | (lock) "oq_waiting_mutex (lk_out s)" "oq_pending (lk_out s) \<noteq> []" "\<not> oq_waiting_space (lk_out s)"
    | (space) "oq_waiting_space (lk_out s)" "oq_pending (lk_out s) \<noteq> []" "q_space_available (lk_queue s)"
        "\<not> oq_waiting_mutex (lk_out s)"
    using work inv by (auto simp: link_inv_def q_ready_def wait_ok_def split: if_splits)
  then show ?thesis
  proof cases
    case data
    then show ?thesis using inv_data [OF inv] link_internal.data [of s vt constructors] by blast
  next
    case lock
    have "oq_add_wait_handles ?now (lk_out s) = Some (True, [H_write_mutex, H_process])"
      using lock w by (simp add: oq_add_wait_handles_def kTimeoutMs_def)
    moreover have "q_mutex (lk_queue s) = None" using inv w(1) lock by (auto simp: link_inv_def wait_ok_def)
    moreover obtain sent oq q where
      "oq_wait_complete vt self True ?now H_write_mutex (lk_out s) (lk_queue s) = Some (sent, None, oq, q)"
      using inv_lock [OF inv lock(1), of ?now] by blast
    ultimately show ?thesis by (meson link_internal.lock list.set_intros(1))
  next
    case space
    have "oq_add_wait_handles ?now (lk_out s) = Some (True, [H_space_available, H_process])"
      using space w by (simp add: oq_add_wait_handles_def kTimeoutMs_def)
    moreover obtain sent oq q where
      "oq_wait_complete vt self True ?now H_space_available (lk_out s) (lk_queue s) = Some (sent, None, oq, q)"
      using inv_space [OF inv space(1), of ?now] by blast
    ultimately show ?thesis using space(3) by (meson link_internal.space list.set_intros(1))
  qed
qed

lemma quiet_delivered:
  assumes reach: "link_reach vt constructors self dest s" and quiet: "\<nexists>t. link_internal vt constructors self s t"
  shows "oq_pending (lk_out s) = [] \<and> lk_dispatched s = deliveries self (lk_sent s)"
proof -
  have e: "oq_pending (lk_out s) = []" "q_content (lk_queue s) = []" using not_stuck [OF reach] quiet by blast+
  obtain C R where CR: "stream self (lk_sent s) = C @ R @ todo self (lk_out s)"
    "q_content (lk_queue s) = concat (map packet_bytes R)"
    "lk_dispatched s = map (\<lambda>(src, ty, bs). (src, ty, dec bs)) (recv iq_new C)"
    using inv_reach [OF reach] by (auto simp: link_inv_def)
  have "R = []" using CR(2) e(2) by (cases R) (auto simp: packet_bytes_def header_bytes_def)
  then have "stream self (lk_sent s) = C" using CR(1) e(1) by (simp add: todo_def)
  then show ?thesis using CR(3) e(1) recv_deliveries [of iq_new self "lk_sent s"] by simp
qed

definition link_measure :: "IpcProcessId \<Rightarrow> ('o link \<times> 'o link) set" where
  "link_measure self = measures [\<lambda>s. length (todo self (lk_out s)),
     \<lambda>s. if oq_waiting_mutex (lk_out s) then 1 else 0,
     \<lambda>s. length (q_content (lk_queue s)) + (if q_data_available (lk_queue s) then 1 else 0),
     \<lambda>s. if q_space_available (lk_queue s) then 1 else 0]"

lemma internal_decreases:
  assumes inv: "link_inv self s" and st: "link_internal vt constructors self s t"
  shows "(t, s) \<in> link_measure self"
  using st
proof (cases rule: link_internal.cases)
  case (lock now hs sent rm oq q)
  note wait = wait_handles_cases(1) [OF lock(2,3)]
  from inv_lock [OF inv, of now] wait lock(5) obtain ps where
    "todo self (lk_out s) = ps @ todo self oq" "ps = [] \<longrightarrow> \<not> oq_waiting_mutex oq" by auto
  then show ?thesis using wait by (cases "ps = []") (auto simp: link_measure_def lock(1))
next
  case (space now hs sent rm oq q)
  note wait = wait_handles_cases(2) [OF space(2,3)]
  from inv_space [OF inv, of now] wait space(5) obtain ps where
    ps: "todo self (lk_out s) = ps @ todo self oq" "\<not> q_space_available q"
    "ps = [] \<longrightarrow> \<not> oq_waiting_mutex oq \<and> q_content q = q_content (lk_queue s) \<and> q_content q \<noteq> [] \<and> q_data_available q" by auto
  have "q_content (lk_queue s) \<noteq> [] \<longrightarrow> q_data_available (lk_queue s)"
    using inv by (simp add: link_inv_def q_ready_def)
  then show ?thesis using ps wait space(4) by (cases "ps = []") (auto simp: link_measure_def space(1))
next
  case (data msgs iq q)
  with inv_data [OF inv] show ?thesis by (auto simp: link_measure_def)
qed

lemma internal_terminates:
  "wf {(t, s). link_reach vt constructors self dest s \<and> link_internal vt constructors self s t}"
proof (rule wf_subset)
  show "wf (link_measure self)" by (simp add: link_measure_def)
qed (use inv_reach internal_decreases in auto)

end

text \<open>Every link reaches a state in which both loops wait.\<close>

lemma link_internal_sent: "link_internal vt constructors self s t \<Longrightarrow> lk_sent t = lk_sent s"
  by (erule link_internalE) simp_all

lemma quiet_exists:
  assumes "link_reach SerializableString16 string16_constructors self dest s0"
  shows "\<exists>s. link_reach SerializableString16 string16_constructors self dest s \<and> lk_sent s = lk_sent s0 \<and>
    (\<nexists>t. link_internal SerializableString16 string16_constructors self s t)"
proof -
  let ?Q = "{s. link_reach SerializableString16 string16_constructors self dest s \<and> lk_sent s = lk_sent s0}"
  have "s0 \<in> ?Q" using assms by simp
  from wfE_min [OF str16.internal_terminates [of self dest] this] obtain s where
    s: "s \<in> ?Q" "\<And>t. (t, s) \<in> {(t, s). link_reach SerializableString16 string16_constructors self dest s \<and>
      link_internal SerializableString16 string16_constructors self s t} \<Longrightarrow> t \<notin> ?Q" by blast
  have "\<not> link_internal SerializableString16 string16_constructors self s t" for t
    using s link_reach.step link_step.internal link_internal_sent by fastforce
  with s(1) show ?thesis by blast
qed

definition example_message :: "char16 list ShareableIpcMessage" where
  "example_message = \<lparr>im_ptr = 0, dest_process_id = 9, ipc_message_type = 1, ipc_message_data = [0x68, 0x69],
     im_callback = None\<rparr>"

lemma example_reach:
  "\<exists>s. link_reach SerializableString16 string16_constructors 7 9 s \<and> lk_sent s = [example_message] \<and>
     oq_waiting_mutex (lk_out s)"
proof -
  obtain q where "iq_create True = Some q" by (simp add: iq_create_def)
  from link_reach.step [OF link_reach.init [OF this] link_step.send [where now = 0 and m = example_message]]
  show ?thesis
    by (intro exI conjI) (auto simp: link_init_def AddMessageToQueue_def MaybeWaitForWriteMutex_def oq_open_def oq_new_def)
qed

lemma example_value: "string_value [0x68, 0x69] = [0x68, 0x69]"
  by code_simp

text \<open>The packets of a message that carries a string.\<close>

definition string_object :: "char16 list \<Rightarrow> byte list" where
  "string_object str = object_bytes (class_id_code SERIALIZABLE_STRING16) (string_bytes str)"

definition string_packets :: "IpcProcessId \<Rightarrow> int32 \<Rightarrow> char16 list \<Rightarrow> packet list" where
  "string_packets src ty str = frags src ty 0 (string_object str)"

lemma string_object_msg: "string_object str = str16.msg_bytes (example_message\<lparr>ipc_message_data := str\<rparr>)"
proof -
  have "GetSerializableClassId SerializableString16 str = SERIALIZABLE_STRING16"
    by (simp add: SerializableString16_def)
  then show ?thesis by (simp add: string_object_def str16.msg_bytes_def str16.bytes_of_def)
qed

lemma string_object_read:
  "string_object str \<noteq> [] \<and> str16.dec (string_object str) = string_value str \<and>
   (\<exists>ds. CreateAndReadObject SerializableString16 string16_constructors
     (new_deserializer (string_object str) 0 (word_of_nat (length (string_object str)))) = Some ((True, Some (string_value str)), ds))"
  using str16.read_message [of "example_message\<lparr>ipc_message_data := str\<rparr>"] str16.msg_bytes_size(2)
    str16.dec_msg [of "example_message\<lparr>ipc_message_data := str\<rparr>"] by (simp add: string_object_msg)

lemma recv_chunks:
  "accepts_all iq (concat (map (\<lambda>(src, ty, str, k). take k (string_packets src ty str)) cs)) \<and>
   recv iq (concat (map (\<lambda>(src, ty, str, k). take k (string_packets src ty str)) cs))
     = map (\<lambda>(src, ty, str, k). (src, ty, string_object str))
         (filter (\<lambda>(src, ty, str, k). length (string_packets src ty str) \<le> k) cs)"
proof (induction cs arbitrary: iq)
  case (Cons c cs)
  obtain src ty str k where c: "c = (src, ty, str, k)" by (cases c)
  let ?ps = "string_packets src ty str"
  have "unat (0 :: int32) + length (string_object str) < 2 ^ 32 - 1"
    using str16.msg_bytes_size(1) [of "example_message\<lparr>ipc_message_data := str\<rparr>"] by (simp add: string_object_msg)
  from recv_frags [OF this, of iq src ty] have full: "accepts_all iq ?ps" "recv iq ?ps = [(src, ty, string_object str)]"
    by (simp_all add: string_packets_def continues_def)
  have "accepts_all iq (take k ?ps)"
    using full(1) accepts_all_append [of iq "take k ?ps" "drop k ?ps"] by simp
  moreover have "recv iq (take k ?ps) = (if length ?ps \<le> k then [(src, ty, string_object str)] else [])"
    using full(2) recv_unfinished by (auto simp: string_packets_def)
  ultimately show ?case
    using Cons [of "recv_state iq (take k ?ps)"] by (simp add: c accepts_all_append recv_append)
qed simp

section \<open>Properties\<close>





text \<open>
  C7. The loops finish: without further messages, no schedule of the steps of the two loops is
  infinite (so, with the previous property, every schedule ends with all messages dispatched).
\<close>

theorem ipc_delivery_terminates:
  "wf {(t, s). link_reach SerializableString16 string16_constructors self dest s \<and>
     link_internal SerializableString16 string16_constructors self s t}"
  by (rule str16.internal_terminates)

text \<open>
  No assertion fails: in every reachable state the handler of each signalled object returns.
\<close>

theorem ipc_handlers_return:
  assumes "link_reach SerializableString16 string16_constructors self dest s"
  shows "(oq_waiting_mutex (lk_out s) \<longrightarrow>
      oq_wait_complete SerializableString16 self True now H_write_mutex (lk_out s) (lk_queue s) \<noteq> None) \<and>
    (oq_waiting_space (lk_out s) \<longrightarrow>
      oq_wait_complete SerializableString16 self True now H_space_available (lk_out s) (lk_queue s) \<noteq> None) \<and>
    iq_wait_complete SerializableString16 string16_constructors H_data_available False (lk_in s) (lk_queue s) \<noteq> None"
  using str16.inv_lock [OF str16.inv_reach [OF assms], of now]
    str16.inv_space [OF str16.inv_reach [OF assms], of now] str16.inv_data [OF str16.inv_reach [OF assms]]
  by auto

theorem ipc_handlers_return_witness:
  "\<exists>s :: char16 list link. oq_waiting_mutex (lk_out s) \<and>
     oq_wait_complete SerializableString16 7 True 0 H_write_mutex (lk_out s) (lk_queue s) \<noteq> None"
  using example_reach ipc_handlers_return by blast


definition queue_holding :: "byte list \<Rightarrow> queue_base" where
  "queue_holding bs = \<lparr>q_mutex = None, q_data_available = True, q_space_available = True,
     q_buffer = \<lparr>bf_head = 0, bf_tail = length bs, bf_data = bs @ replicate (kCapacity + 1 - length bs) 0\<rparr>\<rparr>"

lemma queue_holding_content: "length bs \<le> kCapacity \<Longrightarrow> q_wf (queue_holding bs) \<and> q_content (queue_holding bs) = bs"
  by (simp add: queue_holding_def q_wf_def q_content_def cb_of_def cb_content_def)

lemma string_object_b: "length (string_object [0x62]) = 13"
  by code_simp

lemma string_packets_b: "length (string_packets 6 1 [0x62]) = 1"
  by (simp add: string_packets_def frags.simps [of 6 1 0] string_object_b header_size_def kCapacity_eq)

lemma string_packets_b_bytes: "length (concat (map packet_bytes (string_packets 6 1 [0x62]))) = 33"
  by (simp add: string_packets_def frags.simps [of 6 1 0] string_object_b header_size_def kCapacity_eq
      first_packet_def length_packet_bytes)


text \<open>
  A packet becomes visible as a whole: while a write transaction stores the header and the data
  the shared buffer, as every other process sees it, keeps its content (so a writer may die at any
  point), and the end of the transaction appends both.
\<close>

theorem ipc_write_atomic:
  assumes "q_wf q" "tx_start True q = Some (Some tx)" "tx_write xs (length xs) tx q = Some (tx1, q1)"
    "tx_write ys (length ys) tx1 q1 = Some (tx2, q2)"
  shows "q_wf q1 \<and> q_content q1 = q_content q \<and> q_wf q2 \<and> q_content q2 = q_content q \<and>
    q_wf (write_tx_end tx2 q2) \<and> q_content (write_tx_end tx2 q2) = q_content q @ xs @ ys"
proof -
  have tx: "tx = \<lparr>tx_dirty = False, tx_cb = cb_of (q_buffer q)\<rparr>" using tx_start_ok [OF assms(1)] assms(2) by simp
  note w0 = tx_started(1) [OF assms(1), folded tx]
  have c0: "cb_content (tx_cb tx) = q_content q" by (simp add: tx q_content_def)
  have room: "length (cb_content (tx_cb t)) + n \<le> kCapacity"
    if "tx_write d n t p = Some r" "write_tx t p" for d n t p r
    using that tx_space [of t p] cb_content_bound [of "tx_cb t"] tx_cap [of t p]
    by (auto simp: tx_write_def write_tx_def tx_on_def bind_eq_Some_conv)
  have r1: "length (cb_content (tx_cb tx)) + length xs \<le> kCapacity" using room [OF assms(3) w0] .
  have s1: "write_tx tx1 q1 \<and> q_wf q1 \<and> q_content q1 = q_content q"
    using tx_write_uncommitted [OF w0 assms(1) _ assms(3) order_refl r1] c0 by auto
  have c1: "cb_content (tx_cb tx1) = q_content q @ xs" using tx_write_ok [OF w0 order_refl r1] assms(3) c0 by auto
  have r2: "length (cb_content (tx_cb tx1)) + length ys \<le> kCapacity" using room [OF assms(4)] s1 by blast
  have s2: "write_tx tx2 q2 \<and> q_wf q2 \<and> q_content q2 = q_content q"
    using tx_write_uncommitted [of tx1 q1 ys "length ys" tx2 q2] s1 c1 assms(4) r2 by auto
  have "cb_content (tx_cb tx2) = q_content q @ xs @ ys"
    using tx_write_ok [OF _ order_refl r2, of q1] s1 assms(4) c1 by auto
  with write_tx_end_ok(1,2) [of tx2 q2] s1 s2 show ?thesis by simp
qed

theorem ipc_write_atomic_witness:
  "\<exists>tx tx1 q1 tx2 q2. tx_start True (queue_holding [1]) = Some (Some tx) \<and>
     tx_write [2, 3] (length [2, 3 :: byte]) tx (queue_holding [1]) = Some (tx1, q1) \<and>
     tx_write [4] (length [4 :: byte]) tx1 q1 = Some (tx2, q2) \<and>
     q_content q2 = [1] \<and> q_content (write_tx_end tx2 q2) = [1, 2, 3, 4]"
proof -
  have q: "q_wf (queue_holding [1])" "q_content (queue_holding [1]) = [1]"
    using queue_holding_content [of "[1]"] by (simp_all add: kCapacity_eq)
  let ?tx = "\<lparr>tx_dirty = False, tx_cb = cb_of (q_buffer (queue_holding [1]))\<rparr>"
  have c: "cb_content (tx_cb ?tx) = [1]" using q(2) by (simp add: q_content_def)
  from tx_write_ok [OF tx_started(1) [OF q(1)], of 2 "[2, 3]"] c obtain tx1 q1 where
    w1: "tx_write [2, 3] 2 ?tx (queue_holding [1]) = Some (tx1, q1)" "write_tx tx1 q1"
      "cb_content (tx_cb tx1) = [1, 2, 3]"
    by (auto simp: kCapacity_eq numeral_2_eq_2)
  from tx_write_ok [OF w1(2), of 1 "[4]"] w1(3) obtain tx2 q2 where
    w2: "tx_write [4] 1 tx1 q1 = Some (tx2, q2)" by (auto simp: kCapacity_eq)
  have "tx_write [2, 3] (length [2, 3 :: byte]) ?tx (queue_holding [1]) = Some (tx1, q1)"
    "tx_write [4] (length [4 :: byte]) tx1 q1 = Some (tx2, q2)" using w1 w2 by (simp_all add: numeral_2_eq_2)
  from ipc_write_atomic [OF q(1) tx_start_ok [OF q(1)] this] tx_start_ok [OF q(1)] this q(2)
  show ?thesis by auto
qed

end
