(* ===== verification/IpcQueue.thy ===== *)
theory IpcQueue
  imports IpcDelivery "HOL-Library.Multiset"
begin

text \<open>
  The per-process message queue, class \<open>Win32IpcMessageQueue\<close> of
  \<open>src/common/ipc_message_queue_win32.cc\<close> and its base class in
  \<open>src/common/ipc_message_queue.h\<close>: the set of outbound queues, sending, the message loop
  \<open>Run\<close> and the reports to the senders. The kernel objects of the peers' queues are a function
  \<open>kern\<close> from process ids; what the kernel answers is an argument.
\<close>

section \<open>Handlers\<close>

type_synonym handlers = "int32 \<Rightarrow> nat option"

definition RegisterHandler :: "int32 \<Rightarrow> nat \<Rightarrow> handlers \<Rightarrow> handlers" where
  "RegisterHandler message_type handler_instance handlers = handlers(message_type \<mapsto> handler_instance)"

text \<open>A \<open>NULL\<close> handler is stored as \<open>0\<close>.\<close>

definition GetRegisteredHandler :: "int32 \<Rightarrow> handlers \<Rightarrow> bool \<times> nat" where
  "GetRegisteredHandler message_type handlers =
     (case handlers message_type of None \<Rightarrow> (False, 0) | Some h \<Rightarrow> (True, h))"

text \<open>The handler that is called, with its arguments.\<close>

definition CallRegisteredHandler ::
    "handlers \<Rightarrow> IpcProcessId \<times> int32 \<times> 'o \<Rightarrow> (nat \<times> IpcProcessId \<times> int32 \<times> 'o) option" where
  "CallRegisteredHandler handlers msg =
     (case msg of (source, type, data) \<Rightarrow>
        let (found, handler) = GetRegisteredHandler type handlers
        in if found \<and> handler \<noteq> 0 then Some (handler, source, type, data) else None)"

section \<open>State\<close>

text \<open>
  \<open>outbound_queues_\<close> is a list of pairs in the order of the process ids, as the \<open>std::map\<close>
  is iterated.
\<close>

type_synonym 'o outbound_map = "(IpcProcessId \<times> 'o OutboundQueue) list"

record 'o win32_queue =
  wq_die :: bool
  wq_registry :: ipc_process_registry
  wq_current_process_id :: IpcProcessId
  wq_inbound :: InboundQueue
  wq_outbound :: "'o outbound_map"
  wq_send_data_event :: bool
  wq_successful :: "'o ShareableIpcMessage list"
  wq_failed :: "'o ShareableIpcMessage list"

fun outbound_insert :: "IpcProcessId \<Rightarrow> 'o OutboundQueue \<Rightarrow> 'o outbound_map \<Rightarrow> 'o outbound_map" where
  "outbound_insert pid oq [] = [(pid, oq)]"
| "outbound_insert pid oq ((p, x) # rest) =
     (if p = pid then (pid, oq) # rest
      else if pid < p then (pid, oq) # (p, x) # rest
      else (p, x) # outbound_insert pid oq rest)"

definition GetOutboundQueue ::
    "(IpcProcessId \<Rightarrow> bool) \<Rightarrow> IpcProcessId \<Rightarrow> 'o win32_queue \<Rightarrow> 'o OutboundQueue option \<times> 'o win32_queue" where
  "GetOutboundQueue open_ok pid w =
     (case map_of (wq_outbound w) pid of
        Some oq \<Rightarrow> (Some oq, w)
      | None \<Rightarrow>
          let (ok, oq) = oq_open pid (open_ok pid) (open_ok pid) oq_new
          in if \<not> ok then (None, w)
             else (Some oq, w\<lparr>wq_outbound := outbound_insert pid oq (wq_outbound w)\<rparr>))"

text \<open>Pushing a message into the queue a pointer of \<open>GetOutboundQueue\<close> points to.\<close>

definition add_to_outbound :: "int \<Rightarrow> 'o ShareableIpcMessage \<Rightarrow> IpcProcessId \<Rightarrow> 'o OutboundQueue \<Rightarrow> 'o win32_queue \<Rightarrow> 'o win32_queue" where
  "add_to_outbound now m pid oq w =
     w\<lparr>wq_outbound := outbound_insert pid (AddMessageToQueue now m oq) (wq_outbound w)\<rparr>"

section \<open>Sending\<close>

definition SendWithCompletion ::
    "(IpcProcessId \<Rightarrow> bool) \<Rightarrow> int \<Rightarrow> 'o ShareableIpcMessage \<Rightarrow> 'o win32_queue \<Rightarrow> 'o win32_queue" where
  "SendWithCompletion open_ok now message w =
     (if wq_die w then w
      else
        let dest = dest_process_id message;
            (queue, w1) = GetOutboundQueue open_ok dest w;
            w2 = (case queue of
                    Some oq \<Rightarrow> add_to_outbound now message dest oq w1
                  | None \<Rightarrow> w1\<lparr>wq_failed := wq_failed w1 @ [message]\<rparr>)
        in w2\<lparr>wq_send_data_event := True\<rparr>)"

text \<open>\<open>Send\<close> has no completion callback.\<close>

definition Send ::
    "(IpcProcessId \<Rightarrow> bool) \<Rightarrow> int \<Rightarrow> nat \<Rightarrow> IpcProcessId \<Rightarrow> int32 \<Rightarrow> 'o \<Rightarrow> 'o win32_queue \<Rightarrow> 'o win32_queue" where
  "Send open_ok now ptr dest type data w =
     SendWithCompletion open_ok now \<lparr>im_ptr = ptr, dest_process_id = dest, ipc_message_type = type,
       ipc_message_data = data, im_callback = None\<rparr> w"

text \<open>
  The loop of \<open>SendToAll\<close> over the process ids: the flag \<open>added_to_queue\<close>, the queue and the
  shared registry, from which processes that cannot be opened are removed.
\<close>

fun send_to_all_loop ::
    "(IpcProcessId \<Rightarrow> bool) \<Rightarrow> bool \<Rightarrow> int \<Rightarrow> 'o ShareableIpcMessage \<Rightarrow> bool \<Rightarrow> IpcProcessId list \<Rightarrow> bool \<Rightarrow>
     'o win32_queue \<Rightarrow> registry \<Rightarrow> (bool \<times> 'o win32_queue \<times> registry) option" where
  "send_to_all_loop open_ok abandoned now m including_self [] added w shared = Some (added, w, shared)"
| "send_to_all_loop open_ok abandoned now m including_self (pid # pids) added w shared =
     (if including_self \<or> pid \<noteq> wq_current_process_id w then
        (case GetOutboundQueue open_ok pid w of
           (Some oq, w1) \<Rightarrow>
             send_to_all_loop open_ok abandoned now m including_self pids True (add_to_outbound now m pid oq w1) shared
         | (None, w1) \<Rightarrow>
             if wq_current_process_id w1 \<noteq> pid then do {
               (removed, shared1) \<leftarrow> registry_remove abandoned pid (wq_registry w1) shared;
               send_to_all_loop open_ok abandoned now m including_self pids added w1 shared1 }
             else send_to_all_loop open_ok abandoned now m including_self pids added w1 shared)
      else send_to_all_loop open_ok abandoned now m including_self pids added w shared)"

definition SendToAll ::
    "(IpcProcessId \<Rightarrow> bool) \<Rightarrow> bool \<Rightarrow> int \<Rightarrow> nat \<Rightarrow> int32 \<Rightarrow> 'o \<Rightarrow> bool \<Rightarrow> 'o win32_queue \<Rightarrow> registry \<Rightarrow>
     ('o win32_queue \<times> registry) option" where
  "SendToAll open_ok abandoned now ptr type data including_self w shared =
     (if wq_die w then Some (w, shared)
      else
        let m = \<lparr>im_ptr = ptr, dest_process_id = 0, ipc_message_type = type, ipc_message_data = data, im_callback = None\<rparr>;
            (pids, reg, shared1) = registry_get_all abandoned (wq_registry w) shared
        in do {
          (added, w1, shared2) \<leftarrow>
            send_to_all_loop open_ok abandoned now m including_self pids False (w\<lparr>wq_registry := reg\<rparr>) shared1;
          Some (if added then w1\<lparr>wq_send_data_event := True\<rparr> else w1, shared2) })"

section \<open>The message loop\<close>

text \<open>Erasing a queue runs its destructor, which may release the write mutex of the peer.\<close>

definition RemoveOutboundQueue ::
    "'o OutboundQueue \<Rightarrow> 'o win32_queue \<Rightarrow> (IpcProcessId \<Rightarrow> queue_base) \<Rightarrow> ('o win32_queue \<times> (IpcProcessId \<Rightarrow> queue_base)) option" where
  "RemoveOutboundQueue oq w kern = do {
     let pid = oq_process_id oq;
     q \<leftarrow> oq_delete (wq_current_process_id w) oq (kern pid);
     Some (w\<lparr>wq_failed := wq_failed w @ oq_pending oq,
             wq_outbound := filter (\<lambda>(p, x). p \<noteq> pid) (wq_outbound w)\<rparr>, kern(pid := q)) }"

fun collect_handles ::
    "int \<Rightarrow> 'o outbound_map \<Rightarrow> (handle \<times> IpcProcessId option) list \<Rightarrow> 'o win32_queue \<Rightarrow> (IpcProcessId \<Rightarrow> queue_base) \<Rightarrow>
     ((handle \<times> IpcProcessId option) list \<times> 'o win32_queue \<times> (IpcProcessId \<Rightarrow> queue_base)) option" where
  "collect_handles now [] handles w kern = Some (handles, w, kern)"
| "collect_handles now ((pid, oq) # rest) handles w kern = do {
     (keep, hs) \<leftarrow> oq_add_wait_handles now oq;
     if keep then collect_handles now rest (handles @ map (\<lambda>h. (h, Some pid)) hs) w kern
     else do {
       (w1, kern1) \<leftarrow> RemoveOutboundQueue oq w kern;
       collect_handles now rest handles w1 kern1 } }"

text \<open>
  The part of an iteration that holds the lock: the handles to wait on, each with the outbound
  queue it belongs to, and the local lists \<open>successful_messages\<close> and \<open>failed_messages\<close>.
\<close>

definition run_prepare ::
    "bool \<Rightarrow> int \<Rightarrow> 'o win32_queue \<Rightarrow> (IpcProcessId \<Rightarrow> queue_base) \<Rightarrow>
     ((handle \<times> IpcProcessId option) list \<times> 'o ShareableIpcMessage list \<times> 'o ShareableIpcMessage list \<times>
      'o win32_queue \<times> (IpcProcessId \<Rightarrow> queue_base)) option" where
  "run_prepare reset_send_data_event now w kern =
     (let w0 = (if reset_send_data_event then w\<lparr>wq_send_data_event := False\<rparr> else w)
      in do {
        (handles, w1, kern1) \<leftarrow>
          collect_handles now (wq_outbound w0) [(H_send_data, None), (H_data_available, None)] w0 kern;
        Some (handles, wq_successful w1, wq_failed w1, w1\<lparr>wq_successful := [], wq_failed := []\<rparr>, kern1) })"

text \<open>The calls of the completion callbacks: the result, the callback and the message.\<close>

definition reports :: "bool \<Rightarrow> 'o ShareableIpcMessage list \<Rightarrow> (bool \<times> nat \<times> 'o ShareableIpcMessage) list" where
  "reports ok ms = concat (map (\<lambda>m. case im_callback m of None \<Rightarrow> [] | Some cb \<Rightarrow> [(ok, cb, m)]) ms)"

definition run_callbacks ::
    "'o ShareableIpcMessage list \<Rightarrow> 'o ShareableIpcMessage list \<Rightarrow> (bool \<times> nat \<times> 'o ShareableIpcMessage) list" where
  "run_callbacks successful_messages failed_messages = reports True successful_messages @ reports False failed_messages"

text \<open>What \<open>WaitForMultipleObjectsEx\<close> on the first 64 handles returns.\<close>

datatype wait_result = WAIT_OBJECT nat | WAIT_ABANDONED nat | WAIT_TIMEOUT | WAIT_IO_COMPLETION | WAIT_FAILED | WAIT_UNKNOWN

definition kMaxWaitHandles :: nat where
  "kMaxWaitHandles = 64"

text \<open>\<open>WaitComplete\<close>: the messages dispatched to handlers, the queue, the kernel objects and the registry.\<close>

definition wq_wait_complete ::
    "'o serializable \<Rightarrow> 'o constructors \<Rightarrow> bool \<Rightarrow> bool \<Rightarrow> int \<Rightarrow> handle \<Rightarrow> IpcProcessId option \<Rightarrow> bool \<Rightarrow>
     'o win32_queue \<Rightarrow> (IpcProcessId \<Rightarrow> queue_base) \<Rightarrow> registry \<Rightarrow>
     ((IpcProcessId \<times> int32 \<times> 'o) list \<times> 'o win32_queue \<times> (IpcProcessId \<Rightarrow> queue_base) \<times> registry) option" where
  "wq_wait_complete vt constructors view_ok reg_abandoned now h queue abandoned w kern shared =
     (case queue of
        None \<Rightarrow> do {
          let self = wq_current_process_id w;
          (msgs, iq, q) \<leftarrow> iq_wait_complete vt constructors h abandoned (wq_inbound w) (kern self);
          Some (msgs, w\<lparr>wq_inbound := iq\<rparr>, kern(self := q), shared) }
      | Some pid \<Rightarrow> do {
          oq \<leftarrow> map_of (wq_outbound w) pid;
          (sent, removed, oq1, q) \<leftarrow> oq_wait_complete vt (wq_current_process_id w) view_ok now h oq (kern pid);
          let w1 = w\<lparr>wq_outbound := outbound_insert pid oq1 (wq_outbound w), wq_successful := wq_successful w @ sent\<rparr>;
          (case removed of
             None \<Rightarrow> Some ([], w1, kern(pid := q), shared)
           | Some dead \<Rightarrow> do {
               (r, shared1) \<leftarrow> registry_remove reg_abandoned dead (wq_registry w1) shared;
               Some ([], w1, kern(pid := q), shared1) }) })"

text \<open>The part of an iteration behind the wait: the flag \<open>reset_send_data_event\<close> comes first.\<close>

definition run_dispatch ::
    "'o serializable \<Rightarrow> 'o constructors \<Rightarrow> bool \<Rightarrow> bool \<Rightarrow> int \<Rightarrow> wait_result \<Rightarrow> (handle \<times> IpcProcessId option) list \<Rightarrow>
     'o win32_queue \<Rightarrow> (IpcProcessId \<Rightarrow> queue_base) \<Rightarrow> registry \<Rightarrow>
     (bool \<times> (IpcProcessId \<times> int32 \<times> 'o) list \<times> 'o win32_queue \<times> (IpcProcessId \<Rightarrow> queue_base) \<times> registry) option" where
  "run_dispatch vt constructors view_ok reg_abandoned now rv handles w kern shared =
     (let num_wait_handles = min (length handles) kMaxWaitHandles;
          die = Some (False, [], w\<lparr>wq_die := True\<rparr>, kern, shared);
          go = (\<lambda>index abandoned. do {
            (msgs, w1, kern1, shared1) \<leftarrow> wq_wait_complete vt constructors view_ok reg_abandoned now
              (fst (handles ! index)) (snd (handles ! index)) abandoned w kern shared;
            Some (False, msgs, w1, kern1, shared1) })
      in case rv of
           WAIT_OBJECT index \<Rightarrow>
             if index < num_wait_handles
             then (if index = 0 then Some (True, [], w, kern, shared) else go index False)
             else die
         | WAIT_ABANDONED index \<Rightarrow> if index < num_wait_handles then go index True else die
         | WAIT_TIMEOUT \<Rightarrow> Some (False, [], w, kern, shared)
         | WAIT_IO_COMPLETION \<Rightarrow> Some (False, [], w, kern, shared)
         | WAIT_FAILED \<Rightarrow> die
         | WAIT_UNKNOWN \<Rightarrow> die)"

text \<open>
  \<open>InstanceThreadProc\<close>: the start-up before \<open>Run\<close> (whether it succeeded), and the clean-up
  after it.
\<close>

definition wq_new :: "IpcProcessId \<Rightarrow> ipc_process_registry \<Rightarrow> 'o win32_queue" where
  "wq_new pid reg = \<lparr>wq_die = False, wq_registry = reg, wq_current_process_id = pid, wq_inbound = iq_new,
     wq_outbound = [], wq_send_data_event = False, wq_successful = [], wq_failed = []\<rparr>"

definition thread_start ::
    "bool \<Rightarrow> bool \<Rightarrow> (IpcProcessId \<Rightarrow> bool) \<Rightarrow> bool \<Rightarrow> bool \<Rightarrow> bool \<Rightarrow> bool \<Rightarrow> registry option \<Rightarrow> 'o win32_queue \<Rightarrow>
     (bool \<times> queue_base option \<times> 'o win32_queue \<times> registry option) option" where
  "thread_start asserts objects_ok alive mutex_ok create_ok view_ok event_ok existing w =
     (case iq_create objects_ok of
        None \<Rightarrow> Some (False, None, w, existing)
      | Some q \<Rightarrow> do {
          (opened, reg, shared) \<leftarrow> registry_open asserts mutex_ok create_ok view_ok False existing (wq_registry w);
          let w1 = w\<lparr>wq_registry := reg\<rparr>;
          case shared of
            Some sh \<Rightarrow>
              if \<not> opened then Some (False, Some q, w1, shared)
              else do {
                (added, sh1) \<leftarrow> registry_add asserts False False alive (wq_current_process_id w1) reg sh;
                Some (added \<and> event_ok, Some q, w1, Some sh1) }
          | None \<Rightarrow> Some (False, Some q, w1, shared) })"

fun delete_all :: "IpcProcessId \<Rightarrow> 'o outbound_map \<Rightarrow> (IpcProcessId \<Rightarrow> queue_base) \<Rightarrow> (IpcProcessId \<Rightarrow> queue_base) option" where
  "delete_all self [] kern = Some kern"
| "delete_all self ((pid, oq) # rest) kern = do {
     q \<leftarrow> oq_delete self oq (kern pid);
     delete_all self rest (kern(pid := q)) }"

definition thread_end ::
    "bool \<Rightarrow> 'o win32_queue \<Rightarrow> (IpcProcessId \<Rightarrow> queue_base) \<Rightarrow> registry \<Rightarrow>
     ('o win32_queue \<times> (IpcProcessId \<Rightarrow> queue_base) \<times> registry) option" where
  "thread_end reg_abandoned w kern shared = do {
     assert_that (wq_die w);
     kern1 \<leftarrow> delete_all (wq_current_process_id w) (wq_outbound w) kern;
     (r, shared1) \<leftarrow> registry_remove reg_abandoned (wq_current_process_id w) (wq_registry w) shared;
     Some (w\<lparr>wq_outbound := []\<rparr>, kern1, shared1) }"

section \<open>The map of outbound queues\<close>

definition outbound_ok :: "'o outbound_map \<Rightarrow> bool" where
  "outbound_ok l \<longleftrightarrow> sorted_wrt (<) (map fst l) \<and> (\<forall>(p, x) \<in> set l. oq_process_id x = p)"

lemma outbound_insert_existing:
  "sorted_wrt (<) (map fst l) \<Longrightarrow> map_of l pid = Some x \<Longrightarrow>
    \<exists>l1 l2. l = l1 @ (pid, x) # l2 \<and> outbound_insert pid y l = l1 @ (pid, y) # l2"
proof (induction l)
  case (Cons a l)
  obtain p z where a: "a = (p, z)" by (cases a)
  show ?case
  proof (cases "p = pid")
    case True
    then show ?thesis using Cons.prems a by (intro exI [of _ "[]"] exI [of _ l]) simp
  next
    case False
    then have m: "map_of l pid = Some x" using Cons.prems a by simp
    then have "(pid, x) \<in> set l" by (rule map_of_SomeD)
    then have "p < pid" using Cons.prems a by fastforce
    from Cons.IH [OF _ m] Cons.prems a obtain l1 l2 where
      "l = l1 @ (pid, x) # l2" "outbound_insert pid y l = l1 @ (pid, y) # l2" by auto
    then show ?thesis using a False \<open>p < pid\<close> by (intro exI [of _ "a # l1"] exI [of _ l2]) auto
  qed
qed simp

lemma outbound_insert_new:
  "sorted_wrt (<) (map fst l) \<Longrightarrow> map_of l pid = None \<Longrightarrow>
    \<exists>l1 l2. l = l1 @ l2 \<and> outbound_insert pid y l = l1 @ (pid, y) # l2 \<and>
      (\<forall>p \<in> fst ` set l1. p < pid) \<and> (\<forall>p \<in> fst ` set l2. pid < p)"
proof (induction l)
  case (Cons a l)
  obtain p z where a: "a = (p, z)" by (cases a)
  have ne: "p \<noteq> pid" "map_of l pid = None" using Cons.prems a by (auto split: if_splits)
  show ?case
  proof (cases "pid < p")
    case True
    then show ?thesis using Cons.prems a ne by (intro exI [of _ "[]"] exI [of _ "a # l"]) (auto intro: less_trans)
  next
    case False
    then have "p < pid" using ne by simp
    from Cons.IH [OF _ ne(2)] Cons.prems a obtain l1 l2 where
      "l = l1 @ l2" "outbound_insert pid y l = l1 @ (pid, y) # l2"
      "\<forall>p \<in> fst ` set l1. p < pid" "\<forall>p \<in> fst ` set l2. pid < p" by auto
    then show ?thesis using a False ne \<open>p < pid\<close> by (intro exI [of _ "a # l1"] exI [of _ l2]) auto
  qed
qed simp

section \<open>Accounting of messages\<close>

definition queued :: "'o outbound_map \<Rightarrow> 'o ShareableIpcMessage multiset" where
  "queued l = mset (concat (map (\<lambda>(p, x). oq_pending x) l))"

definition held :: "'o win32_queue \<Rightarrow> 'o ShareableIpcMessage multiset" where
  "held w = queued (wq_outbound w) + mset (wq_successful w) + mset (wq_failed w)"

lemma queued_append [simp]: "queued (l1 @ l2) = queued l1 + queued l2"
  by (simp add: queued_def)

lemma queued_Cons [simp]: "queued ((p, x) # l) = mset (oq_pending x) + queued l"
  by (simp add: queued_def)

lemma queued_Nil [simp]: "queued [] = {#}"
  by (simp add: queued_def)

lemma outbound_replace:
  assumes "outbound_ok l" "map_of l pid = Some x" "oq_process_id y = pid"
  shows "outbound_ok (outbound_insert pid y l)"
    and "queued (outbound_insert pid y l) + mset (oq_pending x) = queued l + mset (oq_pending y)"
proof -
  obtain l1 l2 where "l = l1 @ (pid, x) # l2" "outbound_insert pid y l = l1 @ (pid, y) # l2"
    using outbound_insert_existing assms(1,2) by (metis outbound_ok_def)
  then show "outbound_ok (outbound_insert pid y l)"
    "queued (outbound_insert pid y l) + mset (oq_pending x) = queued l + mset (oq_pending y)"
    using assms by (auto simp: outbound_ok_def)
qed

lemma outbound_add:
  assumes "outbound_ok l" "map_of l pid = None" "oq_process_id y = pid"
  shows "outbound_ok (outbound_insert pid y l)" "queued (outbound_insert pid y l) = queued l + mset (oq_pending y)"
    "map_of (outbound_insert pid y l) pid = Some y"
proof -
  obtain l1 l2 where l: "l = l1 @ l2" "outbound_insert pid y l = l1 @ (pid, y) # l2"
      "\<forall>p \<in> fst ` set l1. p < pid" "\<forall>p \<in> fst ` set l2. pid < p"
    using outbound_insert_new assms(1,2) by (metis outbound_ok_def)
  then show "outbound_ok (outbound_insert pid y l)" "queued (outbound_insert pid y l) = queued l + mset (oq_pending y)"
    using assms by (auto simp: outbound_ok_def sorted_wrt_append)
  have "pid \<notin> fst ` set l1" using l(3) by auto
  then show "map_of (outbound_insert pid y l) pid = Some y"
    using l(2) map_of_eq_None_iff [of l1 pid] by (simp add: map_add_def)
qed

lemma AddMessageToQueue_fields [simp]:
  "oq_pending (AddMessageToQueue now m oq) = oq_pending oq @ [m]"
  "oq_process_id (AddMessageToQueue now m oq) = oq_process_id oq"
  by (simp_all add: AddMessageToQueue_def MaybeWaitForWriteMutex_def)

lemma GetOutboundQueue_ok:
  assumes "outbound_ok (wq_outbound w)" "GetOutboundQueue open_ok pid w = (r, w1)"
  shows "outbound_ok (wq_outbound w1) \<and> held w1 = held w \<and> w1 = w\<lparr>wq_outbound := wq_outbound w1\<rparr> \<and>
    (r \<noteq> None \<longleftrightarrow> map_of (wq_outbound w) pid \<noteq> None \<or> open_ok pid) \<and>
    (\<forall>oq. r = Some oq \<longrightarrow> map_of (wq_outbound w1) pid = Some oq \<and> oq_process_id oq = pid)"
proof (cases "map_of (wq_outbound w) pid")
  case (Some oq)
  then have "oq_process_id oq = pid"
    using assms(1) by (auto simp: outbound_ok_def dest: map_of_SomeD)
  moreover have "r = Some oq" "w1 = w" using Some assms(2) by (simp_all add: GetOutboundQueue_def)
  ultimately show ?thesis using Some assms(1) by simp
next
  case None
  show ?thesis
  proof (cases "open_ok pid")
    case True
    define y where "y = snd (oq_open pid True True (oq_new :: 'a OutboundQueue))"
    have y: "oq_process_id y = pid" "oq_pending y = []" by (simp_all add: y_def oq_open_def oq_new_def)
    have "r = Some y" "w1 = w\<lparr>wq_outbound := outbound_insert pid y (wq_outbound w)\<rparr>"
      using True None assms(2) by (auto simp: GetOutboundQueue_def oq_open_def y_def)
    then show ?thesis
      using True None y outbound_add [OF assms(1) None y(1)] by (simp add: held_def)
  next
    case False
    then show ?thesis using None assms by (auto simp: GetOutboundQueue_def oq_open_def)
  qed
qed

lemma add_to_outbound_ok:
  assumes "outbound_ok (wq_outbound w)" "map_of (wq_outbound w) pid = Some oq" "oq_process_id oq = pid"
  shows "outbound_ok (wq_outbound (add_to_outbound now m pid oq w)) \<and>
    held (add_to_outbound now m pid oq w) = held w + {#m#}"
  using outbound_replace [OF assms(1,2), of "AddMessageToQueue now m oq"] assms(3)
  by (auto simp: add_to_outbound_def held_def)

lemma SendWithCompletion_held:
  assumes "outbound_ok (wq_outbound w)" "\<not> wq_die w"
  shows "outbound_ok (wq_outbound (SendWithCompletion open_ok now m w)) \<and>
    held (SendWithCompletion open_ok now m w) = held w + {#m#}"
proof (cases "GetOutboundQueue open_ok (dest_process_id m) w")
  case (Pair r w1)
  note g = GetOutboundQueue_ok [OF assms(1) Pair]
  show ?thesis
  proof (cases r)
    case None
    then show ?thesis using g Pair assms by (simp add: SendWithCompletion_def held_def)
  next
    case (Some oq)
    then show ?thesis
      using g Pair assms add_to_outbound_ok [of w1 "dest_process_id m" oq now m]
      by (simp add: SendWithCompletion_def held_def)
  qed
qed

lemma fst_outbound_insert: "fst ` set (outbound_insert pid y l) = insert pid (fst ` set l)"
  by (induction pid y l rule: outbound_insert.induct) auto

text \<open>The processes a message to all goes to.\<close>

definition addressees :: "(IpcProcessId \<Rightarrow> bool) \<Rightarrow> bool \<Rightarrow> 'o win32_queue \<Rightarrow> IpcProcessId list \<Rightarrow> IpcProcessId list" where
  "addressees open_ok incl w pids = filter (\<lambda>pid. (incl \<or> pid \<noteq> wq_current_process_id w) \<and>
     (pid \<in> fst ` set (wq_outbound w) \<or> open_ok pid)) pids"

lemma send_to_all_loop_held:
  "outbound_ok (wq_outbound w) \<Longrightarrow>
    send_to_all_loop open_ok abandoned now m incl pids added w shared = Some (added', w', shared') \<Longrightarrow>
    outbound_ok (wq_outbound w') \<and> held w' = held w + replicate_mset (length (addressees open_ok incl w pids)) m \<and>
    wq_current_process_id w' = wq_current_process_id w \<and> wq_die w' = wq_die w"
proof (induction pids arbitrary: added w shared)
  case (Cons pid pids)
  show ?case
  proof (cases "incl \<or> pid \<noteq> wq_current_process_id w")
    case False
    then show ?thesis using Cons by (simp add: addressees_def)
  next
    case True
    obtain r w1 where g: "GetOutboundQueue open_ok pid w = (r, w1)" by (cases "GetOutboundQueue open_ok pid w")
    note ok = GetOutboundQueue_ok [OF Cons.prems(1) g]
    then obtain l where w1: "w1 = w\<lparr>wq_outbound := l\<rparr>" by blast
    show ?thesis
    proof (cases r)
      case None
      have "w1 = w" using None g by (auto simp: GetOutboundQueue_def Let_def split: option.splits if_splits prod.splits)
      then show ?thesis
        using True None g ok Cons.prems Cons.IH [of w]
        by (auto simp: bind_eq_Some_conv addressees_def map_of_eq_None_iff split: if_splits)
    next
      case (Some oq)
      let ?w2 = "add_to_outbound now m pid oq w1"
      have oq: "map_of (wq_outbound w1) pid = Some oq" "oq_process_id oq = pid" using ok Some by auto
      have a: "outbound_ok (wq_outbound ?w2)" "held ?w2 = held w + {#m#}"
        using add_to_outbound_ok [OF _ oq] ok by auto
      have l: "wq_outbound w1 = wq_outbound w \<or> wq_outbound w1 = outbound_insert pid oq (wq_outbound w)"
        using g Some by (auto simp: GetOutboundQueue_def Let_def split: option.splits if_splits prod.splits)
      have found: "pid \<in> fst ` set (wq_outbound w) \<or> open_ok pid"
        using ok Some by (auto simp: map_of_eq_None_iff)
      have dom: "fst ` set (wq_outbound ?w2) = insert pid (fst ` set (wq_outbound w))"
        using l by (elim disjE) (simp_all add: add_to_outbound_def fst_outbound_insert)
      have "pid' \<in> fst ` set (wq_outbound ?w2) \<or> open_ok pid' \<longleftrightarrow> pid' \<in> fst ` set (wq_outbound w) \<or> open_ok pid'" for pid'
        unfolding dom using found by auto
      then have "addressees open_ok incl ?w2 pids = addressees open_ok incl w pids"
        by (simp add: addressees_def w1 add_to_outbound_def)
      moreover have "addressees open_ok incl w (pid # pids) = pid # addressees open_ok incl w pids"
        using True found by (simp add: addressees_def)
      ultimately show ?thesis
        using Cons.IH [OF a(1), of True shared] Cons.prems(2) True g Some a(2) w1
        by (simp add: add_to_outbound_def)
    qed
  qed
qed (simp add: addressees_def)

text \<open>The message loop keeps every message: what is removed or sent is reported.\<close>

lemma RemoveOutboundQueue_held:
  assumes "outbound_ok (wq_outbound w)" "(pid, oq) \<in> set (wq_outbound w)" "RemoveOutboundQueue oq w kern = Some (w1, kern1)"
  shows "outbound_ok (wq_outbound w1) \<and> held w1 = held w \<and> wq_outbound w1 = filter (\<lambda>(p, x). p \<noteq> pid) (wq_outbound w)"
proof -
  have pid: "oq_process_id oq = pid" using assms(1,2) by (auto simp: outbound_ok_def)
  from assms(2) obtain l1 l2 where l: "wq_outbound w = l1 @ (pid, oq) # l2" by (meson split_list)
  have "pid \<notin> fst ` set l1" "pid \<notin> fst ` set l2"
    using assms(1) l by (auto simp: outbound_ok_def sorted_wrt_append)
  then have "filter (\<lambda>(p, x). p \<noteq> pid) l1 = l1" "filter (\<lambda>(p, x). p \<noteq> pid) l2 = l2"
    by (force simp: filter_id_conv)+
  then have f: "filter (\<lambda>(p, x). p \<noteq> pid) (wq_outbound w) = l1 @ l2" by (simp add: l)
  have "w1 = w\<lparr>wq_failed := wq_failed w @ oq_pending oq, wq_outbound := l1 @ l2\<rparr>"
    using assms(3) f pid by (auto simp: RemoveOutboundQueue_def bind_eq_Some_conv)
  then show ?thesis
    using assms(1) l f by (auto simp: held_def outbound_ok_def sorted_wrt_append)
qed

lemma collect_handles_held:
  "outbound_ok (wq_outbound w) \<Longrightarrow> set l \<subseteq> set (wq_outbound w) \<Longrightarrow> distinct (map fst l) \<Longrightarrow>
    collect_handles now l handles w kern = Some (handles', w', kern') \<Longrightarrow>
    outbound_ok (wq_outbound w') \<and> held w' = held w \<and> length handles' \<le> length handles + 2 * length l \<and>
    set (wq_outbound w') \<subseteq> set (wq_outbound w)"
proof (induction now l handles w kern rule: collect_handles.induct)
  case (2 now pid oq rest handles w kern)
  from "2.prems"(4) obtain keep hs where h: "oq_add_wait_handles now oq = Some (keep, hs)"
    by (auto simp: bind_eq_Some_conv)
  have len: "length hs \<le> 2"
    using h by (auto simp: oq_add_wait_handles_def bind_eq_Some_conv split: if_splits)
  show ?case
  proof (cases keep)
    case True
    then show ?thesis using "2.IH"(1) [OF h refl True] "2.prems" h len by fastforce
  next
    case False
    from "2.prems"(4) h False obtain w1 kern1 where r: "RemoveOutboundQueue oq w kern = Some (w1, kern1)"
      "collect_handles now rest handles w1 kern1 = Some (handles', w', kern')" by (auto simp: bind_eq_Some_conv)
    note rm = RemoveOutboundQueue_held [OF "2.prems"(1) _ r(1), of pid]
    have "set rest \<subseteq> set (wq_outbound w1)" using rm "2.prems"(2,3) by force
    with "2.IH"(2) [OF h refl False r(1) refl] rm "2.prems" r(2) show ?thesis by fastforce
  qed
qed simp

lemma WriteOneMessage_pending:
  "WriteOneMessage vt self view_ok m allow oq q = Some (ok, oq', q') \<Longrightarrow>
    oq_pending oq' = oq_pending oq \<and> oq_process_id oq' = oq_process_id oq"
proof -
  have packet: "oq_pending oq' = oq_pending oq \<and> oq_process_id oq' = oq_process_id oq"
    if "WriteOnePacket view_ok h d allow oq q = Some (ok, h', oq', q')" for h d ok h' oq' q'
    using that by (auto simp: WriteOnePacket_def bind_eq_Some_conv Let_def split: option.splits if_splits)
  show "WriteOneMessage vt self view_ok m allow oq q = Some (ok, oq', q') \<Longrightarrow>
    oq_pending oq' = oq_pending oq \<and> oq_process_id oq' = oq_process_id oq"
    by (auto simp: WriteOneMessage_def bind_eq_Some_conv Let_def dest!: packet split: if_splits)
qed

lemma write_pending_loop_pending:
  "write_pending_loop vt self view_ok n allow oq q = Some (n', sent, oq', q') \<Longrightarrow>
    oq_pending oq = sent @ oq_pending oq' \<and> oq_process_id oq' = oq_process_id oq"
proof (induction "length (oq_pending oq)" arbitrary: n allow oq q n' sent)
  case 0
  then show ?case by (simp add: write_pending_loop.simps [of vt self view_ok n allow oq q])
next
  case (Suc k)
  then obtain m rest where p: "oq_pending oq = m # rest" by (cases "oq_pending oq") auto
  from Suc.prems obtain ok oq1 q1 where w: "WriteOneMessage vt self view_ok m allow oq q = Some (ok, oq1, q1)"
    by (auto simp: write_pending_loop.simps [of vt self view_ok n allow oq q] p bind_eq_Some_conv)
  show ?case
  proof (cases ok)
    case False
    then show ?thesis using Suc.prems w WriteOneMessage_pending [OF w]
      by (auto simp: write_pending_loop.simps [of vt self view_ok n allow oq q] p)
  next
    case True
    with Suc.prems w obtain n2 sent2 where
      r: "write_pending_loop vt self view_ok (n + 1) False (oq1\<lparr>oq_pending := rest\<rparr>) q1 = Some (n2, sent2, oq', q')"
      "sent = m # sent2"
      by (auto simp: write_pending_loop.simps [of vt self view_ok n allow oq q] p bind_eq_Some_conv)
    from Suc.hyps(1) [OF _ r(1)] Suc.hyps(2) p WriteOneMessage_pending [OF w] r(2) show ?thesis by simp
  qed
qed

lemma WritePendingMessages_pending:
  "WritePendingMessages vt self view_ok now oq q = Some (sent, oq', q') \<Longrightarrow>
    oq_pending oq = sent @ oq_pending oq' \<and> oq_process_id oq' = oq_process_id oq"
  by (auto simp: WritePendingMessages_def WaitForSpaceAvailable_def bind_eq_Some_conv Let_def
      dest!: write_pending_loop_pending split: if_splits)

lemma oq_wait_complete_pending:
  "oq_wait_complete vt self view_ok now h oq q = Some (sent, rm, oq', q') \<Longrightarrow>
    oq_pending oq = sent @ oq_pending oq' \<and> oq_process_id oq' = oq_process_id oq"
  by (auto simp: oq_wait_complete_def bind_eq_Some_conv Let_def dest!: WritePendingMessages_pending split: handle.splits)

lemma wq_wait_complete_held:
  assumes "outbound_ok (wq_outbound w)"
    and r: "wq_wait_complete vt constructors view_ok reg_abandoned now h queue abandoned w kern shared = Some (msgs, w', kern', shared')"
  shows "outbound_ok (wq_outbound w') \<and> held w' = held w"
proof (cases queue)
  case None
  then show ?thesis using assms by (auto simp: wq_wait_complete_def bind_eq_Some_conv Let_def held_def)
next
  case (Some pid)
  from r Some obtain oq sent rm oq1 q where oq: "map_of (wq_outbound w) pid = Some oq"
    "oq_wait_complete vt (wq_current_process_id w) view_ok now h oq (kern pid) = Some (sent, rm, oq1, q)"
    by (auto simp: wq_wait_complete_def bind_eq_Some_conv Let_def)
  have w': "w' = w\<lparr>wq_outbound := outbound_insert pid oq1 (wq_outbound w), wq_successful := wq_successful w @ sent\<rparr>"
    using r Some oq by (auto simp: wq_wait_complete_def bind_eq_Some_conv Let_def split: option.splits)
  note p = oq_wait_complete_pending [OF oq(2)]
  have "oq_process_id oq = pid" using assms(1) oq(1) by (auto simp: outbound_ok_def dest: map_of_SomeD)
  with outbound_replace [OF assms(1) oq(1), of oq1] p show ?thesis
    by (auto simp: w' held_def)
qed

lemma run_dispatch_held:
  assumes "outbound_ok (wq_outbound w)"
    and "run_dispatch vt constructors view_ok reg_abandoned now rv handles w kern shared = Some (reset, msgs, w', kern', shared')"
  shows "outbound_ok (wq_outbound w') \<and> held w' = held w"
  using assms by (auto simp: run_dispatch_def Let_def bind_eq_Some_conv held_def
      dest: wq_wait_complete_held split: wait_result.splits if_splits)

lemma run_prepare_held:
  assumes "outbound_ok (wq_outbound w)" "run_prepare reset now w kern = Some (handles, good, bad, w', kern')"
  shows "outbound_ok (wq_outbound w') \<and> held w = held w' + mset good + mset bad \<and>
    length handles \<le> 2 + 2 * length (wq_outbound w)"
proof -
  let ?w0 = "if reset then w\<lparr>wq_send_data_event := False\<rparr> else w"
  from assms(2) obtain w1 where c: "collect_handles now (wq_outbound ?w0) [(H_send_data, None), (H_data_available, None)] ?w0 kern
      = Some (handles, w1, kern')"
    and w': "w' = w1\<lparr>wq_successful := [], wq_failed := []\<rparr>" "good = wq_successful w1" "bad = wq_failed w1"
    by (auto simp: run_prepare_def bind_eq_Some_conv Let_def)
  have w0: "wq_outbound ?w0 = wq_outbound w" "held ?w0 = held w" by (simp_all add: held_def)
  have "distinct (map fst (wq_outbound w))"
    using assms(1) by (auto simp: outbound_ok_def strict_sorted_iff)
  from collect_handles_held [OF _ _ _ c] assms(1) this
  have "outbound_ok (wq_outbound w1) \<and> held w1 = held ?w0 \<and>
      length handles \<le> length [(H_send_data, None :: IpcProcessId option), (H_data_available, None)] + 2 * length (wq_outbound ?w0)"
    unfolding w0 by blast
  then show ?thesis using w' w0 by (auto simp: held_def)
qed

section \<open>Runs\<close>

text \<open>
  A run of a process: calls of \<open>SendWithCompletion\<close> and \<open>SendToAll\<close> by any thread, and the
  two halves of the iterations of \<open>Run\<close>, while other processes may change the kernel objects and
  the registry in between. \<open>accepted\<close> counts the messages handed to an outbound queue (or refused
  at once), \<open>good\<close> and \<open>bad\<close> are those the loop has reported.
\<close>

inductive wq_run ::
    "'o serializable \<Rightarrow> 'o constructors \<Rightarrow> 'o win32_queue \<Rightarrow> 'o ShareableIpcMessage multiset \<Rightarrow>
     'o ShareableIpcMessage list \<Rightarrow> 'o ShareableIpcMessage list \<Rightarrow> bool"
  for vt constructors where
  start: "wq_run vt constructors (wq_new pid reg) {#} [] []"
| send: "wq_run vt constructors w accepted good bad \<Longrightarrow> \<not> wq_die w \<Longrightarrow>
    wq_run vt constructors (SendWithCompletion open_ok now m w) (accepted + {#m#}) good bad"
| send_all: "wq_run vt constructors w accepted good bad \<Longrightarrow> \<not> wq_die w \<Longrightarrow>
    SendToAll open_ok abandoned now ptr type data incl w shared = Some (w', shared') \<Longrightarrow>
    m = \<lparr>im_ptr = ptr, dest_process_id = 0, ipc_message_type = type, ipc_message_data = data, im_callback = None\<rparr> \<Longrightarrow>
    pids = fst (registry_get_all abandoned (wq_registry w) shared) \<Longrightarrow>
    wq_run vt constructors w' (accepted + replicate_mset (length (addressees open_ok incl w pids)) m) good bad"
| prepare: "wq_run vt constructors w accepted good bad \<Longrightarrow>
    run_prepare reset now w kern = Some (handles, new_good, new_bad, w', kern') \<Longrightarrow>
    wq_run vt constructors w' accepted (good @ new_good) (bad @ new_bad)"
| dispatch: "wq_run vt constructors w accepted good bad \<Longrightarrow>
    run_dispatch vt constructors view_ok reg_abandoned now rv handles w kern shared = Some (reset, msgs, w', kern', shared') \<Longrightarrow>
    wq_run vt constructors w' accepted good bad"

lemma SendToAll_held:
  assumes "outbound_ok (wq_outbound w)" "\<not> wq_die w"
    and "SendToAll open_ok abandoned now ptr type data incl w shared = Some (w', shared')"
  defines "m \<equiv> \<lparr>im_ptr = ptr, dest_process_id = 0, ipc_message_type = type, ipc_message_data = data, im_callback = None\<rparr>"
  shows "outbound_ok (wq_outbound w') \<and> held w' = held w +
    replicate_mset (length (addressees open_ok incl w (fst (registry_get_all abandoned (wq_registry w) shared)))) m"
proof -
  obtain pids reg shared1 where g: "registry_get_all abandoned (wq_registry w) shared = (pids, reg, shared1)"
    by (cases "registry_get_all abandoned (wq_registry w) shared") auto
  from assms(2,3) g obtain added w1 where
    l: "send_to_all_loop open_ok abandoned now m incl pids False (w\<lparr>wq_registry := reg\<rparr>) shared1 = Some (added, w1, shared')"
    and w': "w' = (if added then w1\<lparr>wq_send_data_event := True\<rparr> else w1)"
    by (auto simp: SendToAll_def m_def bind_eq_Some_conv Let_def)
  have "addressees open_ok incl (w\<lparr>wq_registry := reg\<rparr>) pids = addressees open_ok incl w pids"
    by (simp add: addressees_def)
  with send_to_all_loop_held [OF _ l] assms(1) w' g show ?thesis by (auto simp: held_def)
qed

lemma wq_run_held:
  "wq_run vt constructors w accepted good bad \<Longrightarrow>
    outbound_ok (wq_outbound w) \<and> accepted = held w + mset good + mset bad"
proof (induction rule: wq_run.induct)
  case (start pid reg)
  then show ?case by (simp add: wq_new_def outbound_ok_def held_def)
next
  case (send w accepted good bad open_ok now m)
  then show ?case using SendWithCompletion_held [of w open_ok now m] by (simp add: ac_simps)
next
  case (send_all w accepted good bad open_ok abandoned now ptr type data incl shared w' shared' m pids)
  then show ?case using SendToAll_held [OF _ send_all(2,3)] by (simp add: ac_simps)
next
  case (prepare w accepted good bad reset now kern handles new_good new_bad w' kern')
  then show ?case using run_prepare_held [OF _ prepare(2)] by (simp add: ac_simps)
next
  case (dispatch w accepted good bad view_ok reg_abandoned now rv handles kern shared reset msgs w' kern' shared')
  then show ?case using run_dispatch_held [OF _ dispatch(2)] by simp
qed

section \<open>Properties\<close>

text \<open>
  C11. No message is lost or reported twice by the message loop: at any point of a run the messages
  that were accepted (counted once per outbound queue) are exactly those still pending in a queue,
  those waiting to be reported, and those reported as sent or as failed.
\<close>

theorem ipc_messages_accounted:
  assumes "wq_run vt constructors w accepted good bad"
  shows "accepted = mset (concat (map (\<lambda>(p, x). oq_pending x) (wq_outbound w))) +
    mset (wq_successful w) + mset (wq_failed w) + mset good + mset bad"
  using wq_run_held [OF assms] by (simp add: held_def queued_def)

theorem ipc_messages_accounted_witness:
  "\<exists>w :: char16 list win32_queue. {#example_message#} = mset (concat (map (\<lambda>(p, x). oq_pending x) (wq_outbound w))) +
    mset (wq_successful w) + mset (wq_failed w) + mset [] + mset []"
proof -
  let ?w = "wq_new 7 \<lparr>is_mapped = False, cached_registry = registry_zero\<rparr> :: char16 list win32_queue"
  have "wq_run SerializableString16 string16_constructors (SendWithCompletion (\<lambda>p. True) 0 example_message ?w)
      ({#} + {#example_message#}) [] []"
    by (rule wq_run.send [OF wq_run.start]) (simp add: wq_new_def)
  from ipc_messages_accounted [OF this] show ?thesis by auto
qed

text \<open>
  As long as there is an outbound queue for at most the 31 processes the registry can hold, the
  loop waits on at most 64 objects, the limit of \<open>WaitForMultipleObjectsEx\<close>: none is ignored.
\<close>

theorem ipc_wait_handles_bound:
  assumes "wq_run vt constructors w accepted good bad" "length (wq_outbound w) \<le> kMaxProcesses"
    and "run_prepare reset now w kern = Some (handles, new_good, new_bad, w', kern')"
  shows "length handles \<le> kMaxWaitHandles"
  using run_prepare_held [OF _ assms(3)] wq_run_held [OF assms(1)] assms(2) by (auto simp: kMaxWaitHandles_def)

theorem ipc_wait_handles_bound_witness:
  "\<exists>handles w' kern'. run_prepare False 0 (wq_new 7 \<lparr>is_mapped = False, cached_registry = registry_zero\<rparr> :: char16 list win32_queue)
      (\<lambda>p. queue_holding []) = Some (handles, [], [], w', kern') \<and> length handles \<le> kMaxWaitHandles"
proof -
  let ?w = "wq_new 7 \<lparr>is_mapped = False, cached_registry = registry_zero\<rparr> :: char16 list win32_queue"
  have r: "run_prepare False 0 ?w (\<lambda>p. queue_holding [])
      = Some ([(H_send_data, None), (H_data_available, None)], [], [], ?w, \<lambda>p. queue_holding [])"
    by (simp add: run_prepare_def wq_new_def)
  from ipc_wait_handles_bound [OF wq_run.start [where vt = SerializableString16 and constructors = string16_constructors] _ r] r
  show ?thesis by (auto simp: wq_new_def)
qed

end
