(* ===== verification/Sync.thy ===== *)
theory Sync
  imports Prelude "HOL-Library.Signed_Division"
begin

text \<open>
  The synchronisation primitives: \<open>Mutex\<close> and \<open>CondVar\<close> of \<open>src/common/mutex.cc\<close> and
  \<open>src/common/mutex_posix.cc\<close> (the build with \<open>DEBUG\<close>, whose assertions are part of the
  model), \<open>Event\<close> of \<open>src/common/event.cc\<close> and \<open>Stopwatch\<close> of \<open>src/common/stopwatch.cc\<close>.
  The threads that use one event are interleaved at every acquisition and release of its mutex. The
  event is shown to implement an atomic flag, and no wake-up is lost.
\<close>

section \<open>Mutex\<close>

text \<open>
  A call of the operating system returns, blocks the calling thread, or the code aborts it by a
  failed assertion. A thread id is never \<open>0\<close>.
\<close>

type_synonym ThreadId = nat

datatype 'a os_result = Blocked | Aborted | Returned 'a

fun os_bind :: "'a os_result \<Rightarrow> ('a \<Rightarrow> 'b os_result) \<Rightarrow> 'b os_result" where
  "os_bind Blocked f = Blocked"
| "os_bind Aborted f = Aborted"
| "os_bind (Returned x) f = f x"

lemma os_bind_eq_Returned [simp]:
  "os_bind r f = Returned y \<longleftrightarrow> (\<exists>x. r = Returned x \<and> f x = Returned y)"
  by (cases r) auto

text \<open>The pthread mutex is the thread that holds it.\<close>

record Mutex =
  mutex_owner :: ThreadId
  mutex_holder :: "ThreadId option"

definition Mutex_new :: Mutex where
  "Mutex_new = \<lparr>mutex_owner = 0, mutex_holder = None\<rparr>"

definition pthread_mutex_lock :: "ThreadId \<Rightarrow> Mutex \<Rightarrow> Mutex os_result" where
  "pthread_mutex_lock me m = (if mutex_holder m = None then Returned (m\<lparr>mutex_holder := Some me\<rparr>) else Blocked)"

definition pthread_mutex_unlock :: "Mutex \<Rightarrow> Mutex" where
  "pthread_mutex_unlock m = m\<lparr>mutex_holder := None\<rparr>"

definition Mutex_Lock :: "ThreadId \<Rightarrow> Mutex \<Rightarrow> Mutex os_result" where
  "Mutex_Lock me m =
     (if mutex_owner m = me then Aborted
      else os_bind (pthread_mutex_lock me m)
        (\<lambda>m1. if mutex_owner m1 \<noteq> 0 then Aborted else Returned (m1\<lparr>mutex_owner := me\<rparr>)))"

definition Mutex_Unlock :: "ThreadId \<Rightarrow> Mutex \<Rightarrow> Mutex os_result" where
  "Mutex_Unlock me m =
     (if mutex_owner m \<noteq> me then Aborted else Returned (pthread_mutex_unlock (m\<lparr>mutex_owner := 0\<rparr>)))"

section \<open>Condition variable\<close>

text \<open>
  The pthread condition variable is the set of the threads that sleep on it. \<open>Wait\<close> is two steps:
  the thread gives up the mutex and falls asleep; once it is woken it takes the mutex again.
\<close>

record CondVar =
  cond_sleepers :: "ThreadId set"

definition CondVar_new :: CondVar where
  "CondVar_new = \<lparr>cond_sleepers = {}\<rparr>"

definition CondVar_Wait_enter ::
    "ThreadId \<Rightarrow> Mutex \<Rightarrow> CondVar \<Rightarrow> (Mutex \<times> CondVar) os_result" where
  "CondVar_Wait_enter me m c =
     (if mutex_owner m \<noteq> me then Aborted
      else Returned (pthread_mutex_unlock (m\<lparr>mutex_owner := 0\<rparr>), c\<lparr>cond_sleepers := insert me (cond_sleepers c)\<rparr>))"

definition CondVar_Wait_leave :: "ThreadId \<Rightarrow> Mutex \<Rightarrow> CondVar \<Rightarrow> Mutex os_result" where
  "CondVar_Wait_leave me m c =
     (if me \<in> cond_sleepers c then Blocked
      else os_bind (pthread_mutex_lock me m)
        (\<lambda>m1. if mutex_owner m1 \<noteq> 0 then Aborted else Returned (m1\<lparr>mutex_owner := me\<rparr>)))"

definition CondVar_SignalAll :: "CondVar \<Rightarrow> CondVar" where
  "CondVar_SignalAll c = c\<lparr>cond_sleepers := {}\<rparr>"

text \<open>
  The absolute time that \<open>CondVar::WaitWithTimeout\<close> hands to \<open>pthread_cond_timedwait\<close>, as
  seconds and nanoseconds. Division and remainder of C++ truncate towards zero.
\<close>

definition timedwait_deadline :: "int \<Rightarrow> int \<Rightarrow> int \<Rightarrow> int \<times> int" where
  "timedwait_deadline now_sec now_usec milliseconds =
     (let tv_sec = now_sec + milliseconds sdiv 1000;
          tv_nsec = now_usec * 1000 + (milliseconds smod 1000) * 1000000
      in if tv_nsec > 999999999 then (tv_sec + 1, tv_nsec - 1000000000) else (tv_sec, tv_nsec))"

text \<open>
  \<open>OsSleep\<close> without \<open>usleep\<close>: whole seconds, rounded up. The result is the time slept.
\<close>

definition OsSleep :: "int \<Rightarrow> int" where
  "OsSleep microseconds = (microseconds + 999999) sdiv 1000000 * 1000000"

section \<open>Waiting for a condition on a mutex\<close>

text \<open>
  \<open>Mutex::AwaitImpl\<close> polls: \<open>cond k\<close> and \<open>clock k\<close> are what the \<open>k\<close>-th round of the loop
  reads while it holds the mutex. The condition is a function of state the mutex protects, so that
  the evaluation after the loop reads what the last test read. A loop that never ends is \<open>None\<close>.
\<close>

partial_function (option) AwaitImpl :: "(nat \<Rightarrow> bool) \<Rightarrow> (nat \<Rightarrow> int) \<Rightarrow> int \<Rightarrow> nat \<Rightarrow> bool option" where
  "AwaitImpl cond clock end_time k =
     (if \<not> cond k \<and> (end_time = 0 \<or> clock k < end_time) then AwaitImpl cond clock end_time (Suc k)
      else Some (cond k))"

declare AwaitImpl.simps [code]

definition AwaitWithTimeout :: "(nat \<Rightarrow> bool) \<Rightarrow> (nat \<Rightarrow> int) \<Rightarrow> int \<Rightarrow> int \<Rightarrow> bool option" where
  "AwaitWithTimeout cond clock now timeout_milliseconds =
     do { assert_that (timeout_milliseconds > 0);
          AwaitImpl cond clock (now + timeout_milliseconds) 0 }"

definition Await :: "(nat \<Rightarrow> bool) \<Rightarrow> (nat \<Rightarrow> int) \<Rightarrow> unit option" where
  "Await cond clock = do { result \<leftarrow> AwaitImpl cond clock 0 0; assert_that result }"

section \<open>Stopwatch\<close>

text \<open>Ticks are microseconds; \<open>gettimeofday\<close> gives seconds and microseconds, or fails.\<close>

definition GetTicks :: "(int \<times> int) option \<Rightarrow> int" where
  "GetTicks t = (case t of Some (tv_sec, tv_usec) \<Rightarrow> tv_sec * 1000000 + tv_usec | None \<Rightarrow> 0)"

definition GetCurrentTimeMillis :: "(int \<times> int) option \<Rightarrow> int" where
  "GetCurrentTimeMillis t = GetTicks t sdiv 1000"

definition GetTickDeltaMicros :: "int \<Rightarrow> int \<Rightarrow> int" where
  "GetTickDeltaMicros start_ticks end_ticks = end_ticks - start_ticks"

definition GetTickDeltaSeconds :: "int \<Rightarrow> int \<Rightarrow> int" where
  "GetTickDeltaSeconds start_ticks end_ticks = GetTickDeltaMicros start_ticks end_ticks sdiv 1000000"

record Stopwatch =
  sw_start_ticks :: int
  sw_total_ticks :: int
  sw_nested_count :: int

definition Stopwatch_new :: Stopwatch where
  "Stopwatch_new = \<lparr>sw_start_ticks = 0, sw_total_ticks = 0, sw_nested_count = 0\<rparr>"

definition Stopwatch_Start :: "int \<Rightarrow> Stopwatch \<Rightarrow> Stopwatch" where
  "Stopwatch_Start ticks w =
     (let w1 = (if sw_nested_count w = 0 then w\<lparr>sw_start_ticks := ticks\<rparr> else w)
      in w1\<lparr>sw_nested_count := sw_nested_count w1 + 1\<rparr>)"

definition Stopwatch_Stop :: "int \<Rightarrow> Stopwatch \<Rightarrow> Stopwatch option" where
  "Stopwatch_Stop ticks w =
     do { assert_that (sw_nested_count w > 0);
          let w1 = w\<lparr>sw_nested_count := sw_nested_count w - 1\<rparr>;
          Some (if sw_nested_count w1 = 0
                then w1\<lparr>sw_total_ticks := sw_total_ticks w1 + (ticks - sw_start_ticks w1)\<rparr> else w1) }"

definition Stopwatch_GetElapsed :: "Stopwatch \<Rightarrow> int" where
  "Stopwatch_GetElapsed w = GetTickDeltaMicros 0 (sw_total_ticks w) sdiv 1000"

section \<open>Event\<close>

text \<open>
  \<open>event_pc\<close> is where a thread stands in \<open>Signal\<close>, \<open>Wait\<close> or \<open>WaitWithTimeout\<close> (whose
  remaining milliseconds are the argument). The threads that use the event are numbered; the id of
  thread \<open>i\<close> is \<open>Suc i\<close>.
\<close>

datatype event_pc =
    Out
  | SigLock | SigBody | SigUnlock
  | WaitLock | WaitLoop | WaitCond | WaitUnlock
  | TimedLock int | TimedLoop int | TimedCond int | TimedExpired | TimedUnlock bool

record Event =
  ev_mutex :: Mutex
  ev_signal :: bool
  ev_condition :: CondVar

definition Event_new :: Event where
  "Event_new = \<lparr>ev_mutex = Mutex_new, ev_signal = False, ev_condition = CondVar_new\<rparr>"

record event_system =
  ev :: Event
  pcs :: "event_pc list"

definition goto :: "nat \<Rightarrow> event_pc \<Rightarrow> Event \<Rightarrow> event_system \<Rightarrow> event_system" where
  "goto i pc e s = s\<lparr>ev := e, pcs := (pcs s)[i := pc]\<rparr>"

text \<open>
  The constructor and the destructor of the \<open>MutexLock\<close> in each of the operations, and the two
  halves of a wait on the condition variable. \<open>CondVar::WaitWithTimeout\<close> checks and sets the owner
  around \<open>pthread_cond_timedwait\<close> as \<open>CondVar::Wait\<close> does around \<open>pthread_cond_wait\<close>.
\<close>

definition step_lock :: "nat \<Rightarrow> event_pc \<Rightarrow> event_system \<Rightarrow> event_system os_result" where
  "step_lock i pc s = os_bind (Mutex_Lock (Suc i) (ev_mutex (ev s)))
     (\<lambda>m. Returned (goto i pc ((ev s)\<lparr>ev_mutex := m\<rparr>) s))"

definition step_unlock :: "nat \<Rightarrow> event_system \<Rightarrow> event_system os_result" where
  "step_unlock i s = os_bind (Mutex_Unlock (Suc i) (ev_mutex (ev s)))
     (\<lambda>m. Returned (goto i Out ((ev s)\<lparr>ev_mutex := m\<rparr>) s))"

definition step_sleep :: "nat \<Rightarrow> event_pc \<Rightarrow> event_system \<Rightarrow> event_system os_result" where
  "step_sleep i pc s = os_bind (CondVar_Wait_enter (Suc i) (ev_mutex (ev s)) (ev_condition (ev s)))
     (\<lambda>(m, c). Returned (goto i pc ((ev s)\<lparr>ev_mutex := m, ev_condition := c\<rparr>) s))"

definition step_wake :: "nat \<Rightarrow> event_pc \<Rightarrow> event_system \<Rightarrow> event_system os_result" where
  "step_wake i pc s = os_bind (CondVar_Wait_leave (Suc i) (ev_mutex (ev s)) (ev_condition (ev s)))
     (\<lambda>m. Returned (goto i pc ((ev s)\<lparr>ev_mutex := m\<rparr>) s))"

text \<open>The body of \<open>Event::Signal\<close> under the mutex.\<close>

definition Event_Signal_body :: "Event \<Rightarrow> Event" where
  "Event_Signal_body e =
     (if \<not> ev_signal e then e\<lparr>ev_signal := True, ev_condition := CondVar_SignalAll (ev_condition e)\<rparr> else e)"

text \<open>One round of the loop of \<open>Event::Wait\<close>.\<close>

definition Event_Wait_round :: "nat \<Rightarrow> event_system \<Rightarrow> event_system os_result" where
  "Event_Wait_round i s =
     (if \<not> ev_signal (ev s) then step_sleep i WaitCond s
      else Returned (goto i WaitUnlock ((ev s)\<lparr>ev_signal := False\<rparr>) s))"

text \<open>
  The loop of \<open>Event::WaitWithTimeout\<close>: the test, and what follows the wait that a wake-up
  ended after \<open>elapsed\<close> milliseconds of the stopwatch.
\<close>

definition Event_WaitWithTimeout_round :: "nat \<Rightarrow> int \<Rightarrow> event_system \<Rightarrow> event_system os_result" where
  "Event_WaitWithTimeout_round i t s =
     (if \<not> ev_signal (ev s) then step_sleep i (TimedCond t) s
      else Returned (goto i (TimedUnlock True) ((ev s)\<lparr>ev_signal := False\<rparr>) s))"

definition Event_WaitWithTimeout_woken :: "nat \<Rightarrow> int \<Rightarrow> int \<Rightarrow> event_system \<Rightarrow> event_system os_result" where
  "Event_WaitWithTimeout_woken i t elapsed s =
     (if \<not> ev_signal (ev s)
      then if t - elapsed \<le> 0 then step_wake i (TimedUnlock False) s
           else step_wake i (TimedLoop (t - elapsed)) s
      else step_wake i (TimedLoop t) s)"

text \<open>
  What the scheduler picks: a call by an idle thread, the next step of a thread (the argument is the
  reading of the stopwatch where the step reads it), a wake-up without a signal, or the expiry of a
  timed wait. A step that is not possible at the place of the thread is \<open>Blocked\<close>.
\<close>

datatype event_action =
  CallSignal | CallWait | CallWaitWithTimeout int | Step int | Interrupt | Expire

fun event_exec :: "nat \<Rightarrow> event_action \<Rightarrow> event_system \<Rightarrow> event_system os_result" where
  "event_exec i a s =
     (if i \<ge> length (pcs s) then Blocked else
      case (a, pcs s ! i) of
        (CallSignal, Out) \<Rightarrow> Returned (goto i SigLock (ev s) s)
      | (CallWait, Out) \<Rightarrow> Returned (goto i WaitLock (ev s) s)
      | (CallWaitWithTimeout t, Out) \<Rightarrow> Returned (goto i (TimedLock t) (ev s) s)
      | (Interrupt, WaitCond) \<Rightarrow> Returned (s\<lparr>ev := (ev s)\<lparr>ev_condition :=
            (ev_condition (ev s))\<lparr>cond_sleepers := cond_sleepers (ev_condition (ev s)) - {Suc i}\<rparr>\<rparr>\<rparr>)
      | (Interrupt, TimedCond t) \<Rightarrow> Returned (s\<lparr>ev := (ev s)\<lparr>ev_condition :=
            (ev_condition (ev s))\<lparr>cond_sleepers := cond_sleepers (ev_condition (ev s)) - {Suc i}\<rparr>\<rparr>\<rparr>)
      | (Expire, TimedCond t) \<Rightarrow> Returned (goto i TimedExpired ((ev s)\<lparr>ev_condition :=
            (ev_condition (ev s))\<lparr>cond_sleepers := cond_sleepers (ev_condition (ev s)) - {Suc i}\<rparr>\<rparr>) s)
      | (Step e, SigLock) \<Rightarrow> step_lock i SigBody s
      | (Step e, SigBody) \<Rightarrow> Returned (goto i SigUnlock (Event_Signal_body (ev s)) s)
      | (Step e, SigUnlock) \<Rightarrow> step_unlock i s
      | (Step e, WaitLock) \<Rightarrow> step_lock i WaitLoop s
      | (Step e, WaitLoop) \<Rightarrow> Event_Wait_round i s
      | (Step e, WaitCond) \<Rightarrow> step_wake i WaitLoop s
      | (Step e, WaitUnlock) \<Rightarrow> step_unlock i s
      | (Step e, TimedLock t) \<Rightarrow> step_lock i (TimedLoop t) s
      | (Step e, TimedLoop t) \<Rightarrow> Event_WaitWithTimeout_round i t s
      | (Step e, TimedCond t) \<Rightarrow> Event_WaitWithTimeout_woken i t e s
      | (Step e, TimedExpired) \<Rightarrow> step_wake i (TimedUnlock False) s
      | (Step e, TimedUnlock b) \<Rightarrow> step_unlock i s
      | _ \<Rightarrow> Blocked)"

definition event_init :: "nat \<Rightarrow> event_system" where
  "event_init n = \<lparr>ev = Event_new, pcs = replicate n Out\<rparr>"

inductive event_reach :: "nat \<Rightarrow> event_system \<Rightarrow> bool" for n where
  init: "event_reach n (event_init n)"
| step: "event_reach n s \<Longrightarrow> event_exec i a s = Returned s' \<Longrightarrow> event_reach n s'"


section \<open>Invariant of the event\<close>

fun in_cs :: "event_pc \<Rightarrow> bool" where
  "in_cs SigBody = True" | "in_cs SigUnlock = True"
| "in_cs WaitLoop = True" | "in_cs WaitUnlock = True"
| "in_cs (TimedLoop t) = True" | "in_cs (TimedUnlock b) = True"
| "in_cs _ = False"

fun in_wait :: "event_pc \<Rightarrow> bool" where
  "in_wait WaitCond = True" | "in_wait (TimedCond t) = True" | "in_wait _ = False"

lemma in_wait_not_in_cs: "in_wait pc \<Longrightarrow> \<not> in_cs pc"
  by (cases pc) auto

abbreviation holder :: "event_system \<Rightarrow> ThreadId option" where
  "holder s \<equiv> mutex_holder (ev_mutex (ev s))"

abbreviation owner :: "event_system \<Rightarrow> ThreadId" where
  "owner s \<equiv> mutex_owner (ev_mutex (ev s))"

abbreviation sleepers :: "event_system \<Rightarrow> ThreadId set" where
  "sleepers s \<equiv> cond_sleepers (ev_condition (ev s))"

definition event_inv :: "event_system \<Rightarrow> bool" where
  "event_inv s \<longleftrightarrow>
     (\<forall>i < length (pcs s). holder s = Some (Suc i) \<longleftrightarrow> in_cs (pcs s ! i)) \<and>
     owner s = (case holder s of None \<Rightarrow> 0 | Some t \<Rightarrow> t) \<and>
     holder s \<noteq> Some 0 \<and>
     (\<forall>t. holder s = Some t \<longrightarrow> t \<le> length (pcs s)) \<and>
     0 \<notin> sleepers s \<and>
     (\<forall>i. Suc i \<in> sleepers s \<longrightarrow> i < length (pcs s) \<and> in_wait (pcs s ! i)) \<and>
     (ev_signal (ev s) \<longrightarrow> sleepers s = {})"

lemmas event_prims = Mutex_Lock_def Mutex_Unlock_def pthread_mutex_lock_def pthread_mutex_unlock_def
  CondVar_Wait_enter_def CondVar_Wait_leave_def CondVar_SignalAll_def
  step_lock_def step_unlock_def step_sleep_def step_wake_def

text \<open>The effects of the four primitive steps, as the invariant lets them happen.\<close>

definition locked :: "nat \<Rightarrow> event_pc \<Rightarrow> event_system \<Rightarrow> event_system" where
  "locked i pc s =
     goto i pc ((ev s)\<lparr>ev_mutex := \<lparr>mutex_owner = Suc i, mutex_holder = Some (Suc i)\<rparr>\<rparr>) s"

definition unlocked :: "nat \<Rightarrow> event_pc \<Rightarrow> event_system \<Rightarrow> event_system" where
  "unlocked i pc s = goto i pc ((ev s)\<lparr>ev_mutex := Mutex_new\<rparr>) s"

definition slept :: "nat \<Rightarrow> event_pc \<Rightarrow> event_system \<Rightarrow> event_system" where
  "slept i pc s = goto i pc ((ev s)\<lparr>ev_mutex := Mutex_new,
     ev_condition := \<lparr>cond_sleepers = insert (Suc i) (sleepers s)\<rparr>\<rparr>) s"

definition roused :: "nat \<Rightarrow> event_pc \<Rightarrow> event_system \<Rightarrow> event_system" where
  "roused i pc s = goto i pc ((ev s)\<lparr>ev_condition := \<lparr>cond_sleepers = sleepers s - {Suc i}\<rparr>\<rparr>) s"

lemmas effect_defs = locked_def unlocked_def slept_def roused_def goto_def

lemma event_inv_owner: "event_inv s \<Longrightarrow> owner s = (case holder s of None \<Rightarrow> 0 | Some t \<Rightarrow> t)"
  by (simp add: event_inv_def)

lemma event_inv_holder:
  "event_inv s \<Longrightarrow> i < length (pcs s) \<Longrightarrow> holder s = Some (Suc i) \<longleftrightarrow> in_cs (pcs s ! i)"
  by (simp add: event_inv_def)

lemma event_inv_owner_cs:
  "event_inv s \<Longrightarrow> i < length (pcs s) \<Longrightarrow> owner s = Suc i \<longleftrightarrow> in_cs (pcs s ! i)"
  by (auto simp: event_inv_def split: option.splits)

lemma event_inv_sleeper:
  "event_inv s \<Longrightarrow> i < length (pcs s) \<Longrightarrow> Suc i \<in> sleepers s \<Longrightarrow> in_wait (pcs s ! i)"
  by (auto simp: event_inv_def)

lemma event_inv_signal: "event_inv s \<Longrightarrow> ev_signal (ev s) \<Longrightarrow> sleepers s = {}"
  by (simp add: event_inv_def)

lemma event_inv_exclusive:
  assumes "event_inv s" "i < length (pcs s)" "in_cs (pcs s ! i)"
  shows "holder s = Some (Suc i)" "\<forall>j < length (pcs s). in_cs (pcs s ! j) \<longleftrightarrow> j = i"
  using assms by (auto simp: event_inv_holder [OF assms(1), symmetric])

lemma Mutex_update [simp]:
  "(m :: Mutex)\<lparr>mutex_holder := h, mutex_owner := t\<rparr> = \<lparr>mutex_owner = t, mutex_holder = h\<rparr>"
  "(m :: Mutex)\<lparr>mutex_owner := t, mutex_holder := h\<rparr> = \<lparr>mutex_owner = t, mutex_holder = h\<rparr>"
  by (cases m, simp)+

lemma CondVar_update [simp]: "(c :: CondVar)\<lparr>cond_sleepers := A\<rparr> = \<lparr>cond_sleepers = A\<rparr>"
  by (cases c) simp

lemma step_lock_result:
  assumes "event_inv s" "i < length (pcs s)" "\<not> in_cs (pcs s ! i)"
  shows "step_lock i pc s = (if holder s = None then Returned (locked i pc s) else Blocked)"
  using assms event_inv_owner [OF assms(1)] event_inv_owner_cs [OF assms(1,2)]
  by (simp add: event_prims locked_def)

lemma step_wake_result:
  assumes "event_inv s"
  shows "step_wake i pc s =
    (if holder s = None \<and> Suc i \<notin> sleepers s then Returned (locked i pc s) else Blocked)"
  using event_inv_owner [OF assms] by (simp add: event_prims locked_def)

lemma step_unlock_result:
  assumes "event_inv s" "i < length (pcs s)" "in_cs (pcs s ! i)"
  shows "step_unlock i s = Returned (unlocked i Out s)"
  using event_inv_owner_cs [OF assms(1,2)] assms(3)
  by (simp add: event_prims unlocked_def Mutex_new_def)

lemma step_sleep_result:
  assumes "event_inv s" "i < length (pcs s)" "in_cs (pcs s ! i)"
  shows "step_sleep i pc s = Returned (slept i pc s)"
  using event_inv_owner_cs [OF assms(1,2)] assms(3)
  by (simp add: event_prims slept_def Mutex_new_def)

text \<open>Every primitive step keeps the invariant.\<close>

lemma event_inv_locked:
  assumes "event_inv s" "holder s = None" "Suc i \<notin> sleepers s" "i < length (pcs s)" "in_cs pc"
  shows "event_inv (locked i pc s)"
  using assms
  by (auto simp: event_inv_def effect_defs nth_list_update)

lemma event_inv_unlocked:
  assumes "event_inv s" "in_cs (pcs s ! i)" "i < length (pcs s)" "\<not> in_cs pc"
  shows "event_inv (unlocked i pc s)"
proof -
  from assms(2) have "\<not> in_wait (pcs s ! i)" by (cases "pcs s ! i") auto
  with assms event_inv_exclusive [OF assms(1,3,2)] show ?thesis
    by (auto simp: event_inv_def effect_defs nth_list_update Mutex_new_def)
qed

lemma event_inv_slept:
  assumes "event_inv s" "in_cs (pcs s ! i)" "i < length (pcs s)" "in_wait pc" "\<not> ev_signal (ev s)"
  shows "event_inv (slept i pc s)"
proof -
  from assms(4) have "\<not> in_cs pc" by (cases pc) auto
  with assms event_inv_exclusive [OF assms(1,3,2)] show ?thesis
    by (auto simp: event_inv_def effect_defs nth_list_update Mutex_new_def)
qed

lemma event_inv_roused:
  assumes "event_inv s" "i < length (pcs s)" "\<not> in_cs (pcs s ! i)" "\<not> in_cs pc"
  shows "event_inv (roused i pc s)"
  using assms
  by (auto simp: event_inv_def effect_defs nth_list_update)

lemma event_inv_goto:
  assumes "event_inv s" "i < length (pcs s)" "\<not> in_cs (pcs s ! i)" "\<not> in_wait (pcs s ! i)" "\<not> in_cs pc"
  shows "event_inv (goto i pc (ev s) s)"
  using assms
  by (auto simp: event_inv_def effect_defs nth_list_update)

lemma event_inv_critical:
  assumes "event_inv s" "i < length (pcs s)" "in_cs (pcs s ! i)" "in_cs pc" "ev_mutex e = ev_mutex (ev s)"
    "cond_sleepers (ev_condition e) \<subseteq> sleepers s" "ev_signal e \<Longrightarrow> cond_sleepers (ev_condition e) = {}"
  shows "event_inv (goto i pc e s)"
proof -
  from assms(3) have "\<not> in_wait (pcs s ! i)" by (cases "pcs s ! i") auto
  with assms show ?thesis
  by (auto simp: event_inv_def effect_defs nth_list_update)
qed


text \<open>The steps of a thread that the invariant allows, with the place the thread was at.\<close>

inductive thread_step :: "nat \<Rightarrow> event_system \<Rightarrow> event_system \<Rightarrow> bool" for i s where
  lock_signal: "pcs s ! i = SigLock \<Longrightarrow> holder s = None \<Longrightarrow> thread_step i s (locked i SigBody s)"
| signal: "pcs s ! i = SigBody \<Longrightarrow> \<not> ev_signal (ev s) \<Longrightarrow>
    thread_step i s (goto i SigUnlock
      ((ev s)\<lparr>ev_signal := True, ev_condition := \<lparr>cond_sleepers = {}\<rparr>\<rparr>) s)"
| signal_again: "pcs s ! i = SigBody \<Longrightarrow> ev_signal (ev s) \<Longrightarrow> thread_step i s (goto i SigUnlock (ev s) s)"
| unlock: "pcs s ! i = SigUnlock \<or> pcs s ! i = WaitUnlock \<or> pcs s ! i = TimedUnlock b \<Longrightarrow>
    thread_step i s (unlocked i Out s)"
| lock_wait: "pcs s ! i = WaitLock \<Longrightarrow> holder s = None \<Longrightarrow> thread_step i s (locked i WaitLoop s)"
| sleep: "pcs s ! i = WaitLoop \<Longrightarrow> \<not> ev_signal (ev s) \<Longrightarrow> thread_step i s (slept i WaitCond s)"
| taken: "pcs s ! i = WaitLoop \<Longrightarrow> ev_signal (ev s) \<Longrightarrow>
    thread_step i s (goto i WaitUnlock ((ev s)\<lparr>ev_signal := False\<rparr>) s)"
| wake: "pcs s ! i = WaitCond \<Longrightarrow> holder s = None \<Longrightarrow> Suc i \<notin> sleepers s \<Longrightarrow>
    thread_step i s (locked i WaitLoop s)"
| lock_timed: "pcs s ! i = TimedLock t \<Longrightarrow> holder s = None \<Longrightarrow> thread_step i s (locked i (TimedLoop t) s)"
| sleep_timed: "pcs s ! i = TimedLoop t \<Longrightarrow> \<not> ev_signal (ev s) \<Longrightarrow> thread_step i s (slept i (TimedCond t) s)"
| taken_timed: "pcs s ! i = TimedLoop t \<Longrightarrow> ev_signal (ev s) \<Longrightarrow>
    thread_step i s (goto i (TimedUnlock True) ((ev s)\<lparr>ev_signal := False\<rparr>) s)"
| wake_timed: "pcs s ! i = TimedCond t \<Longrightarrow> holder s = None \<Longrightarrow> Suc i \<notin> sleepers s \<Longrightarrow>
    thread_step i s (locked i (TimedLoop t') s)"
| give_up: "pcs s ! i = TimedExpired \<or> pcs s ! i = TimedCond t \<Longrightarrow> holder s = None \<Longrightarrow>
    Suc i \<notin> sleepers s \<Longrightarrow> thread_step i s (locked i (TimedUnlock False) s)"

inductive outer_step :: "nat \<Rightarrow> event_system \<Rightarrow> event_system \<Rightarrow> bool" for i s where
  call: "pcs s ! i = Out \<Longrightarrow> pc = SigLock \<or> pc = WaitLock \<or> pc = TimedLock t \<Longrightarrow>
    outer_step i s (goto i pc (ev s) s)"
| interrupt: "pcs s ! i = pc \<Longrightarrow> in_wait pc \<Longrightarrow> outer_step i s (roused i pc s)"
| expire: "pcs s ! i = TimedCond t \<Longrightarrow> outer_step i s (roused i TimedExpired s)"

lemma roused_same: "s\<lparr>ev := (ev s)\<lparr>ev_condition := \<lparr>cond_sleepers = sleepers s - {Suc i}\<rparr>\<rparr>\<rparr> = 
    roused i (pcs s ! i) (s :: event_system)"
  by (simp add: roused_def goto_def)

lemma event_exec_Step:
  assumes inv: "event_inv s" and i: "i < length (pcs s)"
  shows "event_exec i (Step e) s \<noteq> Aborted"
    "event_exec i (Step e) s = Returned s' \<Longrightarrow> thread_step i s s'"
proof -
  show "event_exec i (Step e) s \<noteq> Aborted"
    using i by (cases "pcs s ! i")
      (auto simp: step_lock_result [OF inv i] step_unlock_result [OF inv i] step_sleep_result [OF inv i]
        step_wake_result [OF inv] Event_Wait_round_def Event_WaitWithTimeout_round_def
        Event_WaitWithTimeout_woken_def)
  show "event_exec i (Step e) s = Returned s' \<Longrightarrow> thread_step i s s'"
    using i by (cases "pcs s ! i")
      (auto simp: step_lock_result [OF inv i] step_unlock_result [OF inv i] step_sleep_result [OF inv i]
        step_wake_result [OF inv] Event_Wait_round_def Event_WaitWithTimeout_round_def
        Event_WaitWithTimeout_woken_def Event_Signal_body_def CondVar_SignalAll_def
        split: if_splits intro: thread_step.intros)
qed

lemma event_exec_other:
  assumes "i < length (pcs s)" "\<forall>e. a \<noteq> Step e"
  shows "event_exec i a s \<noteq> Aborted"
    "event_exec i a s = Returned s' \<Longrightarrow> outer_step i s s'"
proof -
  show "event_exec i a s \<noteq> Aborted"
    using assms by (cases a; cases "pcs s ! i") auto
  show "event_exec i a s = Returned s' \<Longrightarrow> outer_step i s s'"
    using assms by (cases a; cases "pcs s ! i")
      (auto intro: outer_step.intros simp: roused_same [simplified] roused_def [symmetric])
qed


lemma thread_step_inv:
  assumes "thread_step i s s'" "event_inv s" "i < length (pcs s)"
  shows "event_inv s'"
  using assms event_inv_sleeper [OF assms(2,3)]
  by (cases rule: thread_step.cases)
    (auto intro!: event_inv_locked event_inv_unlocked event_inv_slept event_inv_critical
      simp: event_inv_signal [OF assms(2)])

lemma outer_step_inv:
  assumes "outer_step i s s'" "event_inv s" "i < length (pcs s)"
  shows "event_inv s'"
  using assms
  by (cases rule: outer_step.cases) (auto intro!: event_inv_goto event_inv_roused dest: in_wait_not_in_cs)

declare event_exec.simps [simp del]

lemma event_exec_inv:
  assumes "event_inv s" "event_exec i a s = Returned s'"
  shows "event_inv s'"
proof -
  from assms(2) have i: "i < length (pcs s)" by (auto simp: event_exec.simps split: if_splits)
  show ?thesis
  proof (cases "\<exists>e. a = Step e")
    case True
    with assms event_exec_Step(2) [OF assms(1) i] thread_step_inv [OF _ assms(1) i] show ?thesis by blast
  next
    case False
    with assms event_exec_other(2) [OF i] outer_step_inv [OF _ assms(1) i] show ?thesis by blast
  qed
qed

lemma event_exec_not_Aborted:
  assumes "event_inv s"
  shows "event_exec i a s \<noteq> Aborted"
proof (cases "i < length (pcs s)")
  case True
  show ?thesis
  proof (cases "\<exists>e. a = Step e")
    case step: True
    with event_exec_Step(1) [OF assms True] show ?thesis by blast
  next
    case False
    with event_exec_other(1) [OF True] show ?thesis by blast
  qed
qed (simp add: event_exec.simps)

lemma event_inv_init: "event_inv (event_init n)"
  by (simp add: event_inv_def event_init_def Event_new_def Mutex_new_def CondVar_new_def)

lemma event_reach_inv: "event_reach n s \<Longrightarrow> event_inv s"
  by (induction rule: event_reach.induct) (auto simp: event_inv_init intro: event_exec_inv)

section \<open>Refinement of an atomic flag\<close>

text \<open>
  What \<open>event.h\<close> promises: an event is a flag; a call of \<open>Signal\<close> sets it at one instant
  between its call and its return, a call of \<open>Wait\<close> passes only at an instant at which the flag is
  set and resets it at that instant, and a call of \<open>WaitWithTimeout\<close> does the same or gives up
  without touching the flag.
\<close>

datatype phase = Ready | Signalling | Signalled | Waiting | Passed | TimedWaiting | TimedPassed bool

inductive flag_step :: "bool \<times> phase list \<Rightarrow> bool \<times> phase list \<Rightarrow> bool" where
  "i < length ps \<Longrightarrow> ps ! i = Ready \<Longrightarrow> p \<in> {Signalling, Waiting, TimedWaiting} \<Longrightarrow>
     flag_step (b, ps) (b, ps[i := p])"
| "i < length ps \<Longrightarrow> ps ! i = Signalling \<Longrightarrow> flag_step (b, ps) (True, ps[i := Signalled])"
| "i < length ps \<Longrightarrow> ps ! i = Waiting \<Longrightarrow> flag_step (True, ps) (False, ps[i := Passed])"
| "i < length ps \<Longrightarrow> ps ! i = TimedWaiting \<Longrightarrow> flag_step (True, ps) (False, ps[i := TimedPassed True])"
| "i < length ps \<Longrightarrow> ps ! i = TimedWaiting \<Longrightarrow> flag_step (b, ps) (b, ps[i := TimedPassed False])"
| "i < length ps \<Longrightarrow> ps ! i \<in> {Signalled, Passed, TimedPassed r} \<Longrightarrow> flag_step (b, ps) (b, ps[i := Ready])"

fun phase_of :: "event_pc \<Rightarrow> phase" where
  "phase_of Out = Ready"
| "phase_of SigLock = Signalling" | "phase_of SigBody = Signalling" | "phase_of SigUnlock = Signalled"
| "phase_of WaitLock = Waiting" | "phase_of WaitLoop = Waiting" | "phase_of WaitCond = Waiting"
| "phase_of WaitUnlock = Passed"
| "phase_of (TimedLock t) = TimedWaiting" | "phase_of (TimedLoop t) = TimedWaiting"
| "phase_of (TimedCond t) = TimedWaiting" | "phase_of TimedExpired = TimedWaiting"
| "phase_of (TimedUnlock b) = TimedPassed b"

definition flag_of :: "event_system \<Rightarrow> bool \<times> phase list" where
  "flag_of s = (ev_signal (ev s), map phase_of (pcs s))"

lemma flag_of_goto: "flag_of (goto i pc e s) = (ev_signal e, (map phase_of (pcs s))[i := phase_of pc])"
  by (simp add: flag_of_def goto_def map_update)

lemma goto_stutters:
  assumes "i < length (pcs s)" "phase_of (pcs s ! i) = phase_of pc" "ev_signal e = ev_signal (ev s)"
  shows "flag_step\<^sup>=\<^sup>= (flag_of s) (flag_of (goto i pc e s))"
proof -
  have "(map phase_of (pcs s))[i := phase_of pc] = map phase_of (pcs s)"
    using assms by (simp add: list_update_same_conv)
  with assms(3) show ?thesis by (simp add: flag_of_goto) (simp add: flag_of_def)
qed

lemma goto_steps:
  assumes "flag_step (ev_signal (ev s), map phase_of (pcs s)) (ev_signal e, (map phase_of (pcs s))[i := phase_of pc])"
  shows "flag_step\<^sup>=\<^sup>= (flag_of s) (flag_of (goto i pc e s))"
  using assms by (simp add: flag_of_goto) (simp add: flag_of_def)

lemma thread_step_refines:
  assumes "thread_step i s s'" "i < length (pcs s)"
  shows "flag_step\<^sup>=\<^sup>= (flag_of s) (flag_of s')"
  using assms(1)
proof (cases rule: thread_step.cases)
  case signal
  then show ?thesis using assms(2) flag_step.intros(2) [of i "map phase_of (pcs s)" "ev_signal (ev s)"]
    by (simp only:) (rule goto_steps, simp)
next
  case signal_again
  then show ?thesis using assms(2) flag_step.intros(2) [of i "map phase_of (pcs s)" "ev_signal (ev s)"]
    by (simp only:) (rule goto_steps, simp)
next
  case (unlock b)
  then have "map phase_of (pcs s) ! i \<in> {Signalled, Passed, TimedPassed b}" using assms(2) by auto
  from flag_step.intros(6) [OF _ this, of "ev_signal (ev s)"] show ?thesis 
    using assms(2) unfolding unlock(1) unlocked_def by (intro goto_steps) simp
next
  case taken
  then show ?thesis using assms(2) flag_step.intros(3) [of i "map phase_of (pcs s)"]
    by (simp only:) (rule goto_steps, simp)
next
  case (taken_timed t)
  then show ?thesis using assms(2) flag_step.intros(4) [of i "map phase_of (pcs s)"]
    by (simp only:) (rule goto_steps, simp)
next
  case (give_up t)
  then have "map phase_of (pcs s) ! i = TimedWaiting" using assms(2) by auto
  from flag_step.intros(5) [OF _ this, of "ev_signal (ev s)"] show ?thesis
    using assms(2) unfolding give_up(1) locked_def by (intro goto_steps) simp
qed (use assms(2) in \<open>simp_all only: locked_def slept_def, (rule goto_stutters; simp)+\<close>)

lemma outer_step_refines:
  assumes "outer_step i s s'" "i < length (pcs s)"
  shows "flag_step\<^sup>=\<^sup>= (flag_of s) (flag_of s')"
  using assms(1)
proof (cases rule: outer_step.cases)
  case (call pc t)
  then have "map phase_of (pcs s) ! i = Ready" "phase_of pc \<in> {Signalling, Waiting, TimedWaiting}"
    using assms(2) by auto
  from flag_step.intros(1) [OF _ this, of "ev_signal (ev s)"] show ?thesis
    using assms(2) unfolding call(1) by (intro goto_steps) simp
qed (use assms(2) in \<open>simp_all only: roused_def, (rule goto_stutters; simp)+\<close>)

lemma event_exec_refines:
  assumes "event_inv s" "event_exec i a s = Returned s'"
  shows "flag_step\<^sup>=\<^sup>= (flag_of s) (flag_of s')"
proof -
  from assms(2) have i: "i < length (pcs s)" by (auto simp: event_exec.simps split: if_splits)
  show ?thesis
  proof (cases "\<exists>e. a = Step e")
    case True
    with assms event_exec_Step(2) [OF assms(1) i] thread_step_refines [OF _ i] show ?thesis by blast
  next
    case False
    with assms event_exec_other(2) [OF i] outer_step_refines [OF _ i] show ?thesis by blast
  qed
qed

lemma event_reach_refines:
  "event_reach n s \<Longrightarrow> flag_step\<^sup>*\<^sup>* (False, replicate n Ready) (flag_of s)"
proof (induction rule: event_reach.induct)
  case init
  show ?case by (simp add: flag_of_def event_init_def Event_new_def)
next
  case (step s i a s')
  from event_exec_refines [OF event_reach_inv [OF step(1)] step(2)] step.IH show ?case
    by (auto intro: rtranclp.rtrancl_into_rtrancl)
qed

section \<open>No wake-up is lost\<close>

text \<open>
  The work that is left in the running calls: the steps of the threads that do not sleep, and the
  steps that a pending signal may give to the threads it wakes.
\<close>

fun steps_left :: "event_pc \<Rightarrow> nat" where
  "steps_left Out = 0"
| "steps_left SigLock = 3" | "steps_left SigBody = 2" | "steps_left SigUnlock = 1"
| "steps_left WaitLock = 3" | "steps_left WaitLoop = 2" | "steps_left WaitCond = 3"
| "steps_left WaitUnlock = 1"
| "steps_left (TimedLock t) = 3" | "steps_left (TimedLoop t) = 2" | "steps_left (TimedCond t) = 3"
| "steps_left TimedExpired = 2" | "steps_left (TimedUnlock b) = 1"

definition thread_work :: "event_system \<Rightarrow> nat \<Rightarrow> nat" where
  "thread_work s i = (if Suc i \<in> sleepers s then 0 else steps_left (pcs s ! i))"

definition signal_pending :: "event_system \<Rightarrow> nat \<Rightarrow> nat" where
  "signal_pending s i = (if pcs s ! i = SigLock \<or> pcs s ! i = SigBody then 1 else 0)"

definition event_work :: "event_system \<Rightarrow> nat" where
  "event_work s = (3 * length (pcs s) + 1) * (\<Sum>i < length (pcs s). signal_pending s i) +
     (\<Sum>i < length (pcs s). thread_work s i)"

lemma sum_change_one:
  fixes f g :: "nat \<Rightarrow> nat"
  assumes "i < n" "\<And>j. j \<noteq> i \<Longrightarrow> g j = f j"
  shows "(\<Sum>j < n. g j) + f i = (\<Sum>j < n. f j) + g i"
proof -
  have "(\<Sum>j < n. g j) = g i + (\<Sum>j \<in> {..<n} - {i}. g j)"
    using assms(1) by (simp add: sum.remove)
  moreover have "(\<Sum>j < n. f j) = f i + (\<Sum>j \<in> {..<n} - {i}. f j)"
    using assms(1) by (simp add: sum.remove)
  moreover have "(\<Sum>j \<in> {..<n} - {i}. g j) = (\<Sum>j \<in> {..<n} - {i}. f j)"
    by (rule sum.cong) (use assms(2) in auto)
  ultimately show ?thesis by simp
qed

lemma steps_left_le: "steps_left pc \<le> 3"
  by (cases pc) auto

lemma event_work_local:
  assumes "i < length (pcs s)" "length (pcs s') = length (pcs s)"
    "\<And>j. j \<noteq> i \<Longrightarrow> signal_pending s' j = signal_pending s j \<and> thread_work s' j = thread_work s j"
    "signal_pending s' i \<le> signal_pending s i" "thread_work s' i < thread_work s i"
  shows "event_work s' < event_work s"
proof -
  have 1: "(\<Sum>j < length (pcs s). signal_pending s' j) \<le> (\<Sum>j < length (pcs s). signal_pending s j)"
    using sum_change_one [OF assms(1), of "signal_pending s'" "signal_pending s"] assms(3,4) by simp
  have 2: "(\<Sum>j < length (pcs s). thread_work s' j) < (\<Sum>j < length (pcs s). thread_work s j)"
    using sum_change_one [OF assms(1), of "thread_work s'" "thread_work s"] assms(3,5) by simp
  from mult_le_mono2 [OF 1, of "3 * length (pcs s) + 1"] 2 assms(2) show ?thesis
    by (simp add: event_work_def)
qed

lemma event_work_signal:
  assumes "i < length (pcs s)" "length (pcs s') = length (pcs s)"
    "\<And>j. j \<noteq> i \<Longrightarrow> signal_pending s' j = signal_pending s j"
    "signal_pending s' i < signal_pending s i" 
  shows "event_work s' < event_work s"
proof -
  let ?n = "length (pcs s)" let ?k = "3 * ?n + 1"
  have "Suc (\<Sum>j < ?n. signal_pending s' j) \<le> (\<Sum>j < ?n. signal_pending s j)"
    using sum_change_one [OF assms(1), of "signal_pending s'" "signal_pending s"] assms(3,4) by simp
  from mult_le_mono2 [OF this, of ?k]
  have 1: "?k * (\<Sum>j < ?n. signal_pending s' j) + ?k \<le> ?k * (\<Sum>j < ?n. signal_pending s j)" by simp
  have "thread_work s' j \<le> 3" for j
    by (simp add: thread_work_def steps_left_le)
  then have "(\<Sum>j < ?n. thread_work s' j) \<le> 3 * ?n"
    using sum_bounded_above [of "{..< ?n}" "thread_work s'" 3] by simp
  with 1 assms(2) show ?thesis by (simp add: event_work_def)
qed

lemmas work_simps = thread_work_def signal_pending_def locked_def unlocked_def slept_def goto_def nth_list_update

lemma thread_step_work:
  assumes "thread_step i s s'" "event_inv s" "i < length (pcs s)"
  shows "event_work s' < event_work s"
proof -
  have sl: "\<not> in_wait (pcs s ! i) \<Longrightarrow> Suc i \<notin> sleepers s"
    using event_inv_sleeper [OF assms(2,3)] by blast
  show ?thesis using assms(1)
  proof (cases rule: thread_step.cases)
    case signal
    then show ?thesis using assms(3) by (intro event_work_signal [OF assms(3)]) (auto simp: work_simps)
  next
    case signal_again
    then show ?thesis using assms(3) by (intro event_work_signal [OF assms(3)]) (auto simp: work_simps)
  qed (use assms(3) sl in \<open>auto intro!: event_work_local [OF assms(3)] simp: work_simps\<close>)
qed

lemma critical_step_enabled:
  assumes "event_inv s" "i < length (pcs s)" "in_cs (pcs s ! i)"
  shows "event_exec i (Step e) s \<noteq> Blocked"
  using assms by (cases "pcs s ! i")
    (auto simp: event_exec.simps step_unlock_result step_sleep_result Event_Wait_round_def
      Event_WaitWithTimeout_round_def)

lemma free_step_enabled:
  assumes "event_inv s" "i < length (pcs s)" "holder s = None" "pcs s ! i \<noteq> Out" "Suc i \<notin> sleepers s"
  shows "event_exec i (Step e) s \<noteq> Blocked"
proof (cases "in_cs (pcs s ! i)")
  case True
  with assms show ?thesis using critical_step_enabled by blast
next
  case False
  with assms show ?thesis by (cases "pcs s ! i")
    (auto simp: event_exec.simps step_lock_result step_wake_result Event_WaitWithTimeout_woken_def)
qed

lemma event_quiescent:
  assumes "event_inv s" "\<forall>i e. event_exec i (Step e) s = Blocked" "i < length (pcs s)"
  shows "pcs s ! i = Out \<or> in_wait (pcs s ! i) \<and> Suc i \<in> sleepers s \<and> \<not> ev_signal (ev s)"
proof -
  have "holder s = None"
  proof (rule ccontr)
    assume "holder s \<noteq> None"
    then obtain t where t: "holder s = Some t" by blast
    with assms(1) obtain j where "t = Suc j" "j < length (pcs s)"
      unfolding event_inv_def by (cases t) (auto simp: Suc_le_eq)
    with t event_inv_holder [OF assms(1)] critical_step_enabled [OF assms(1)] assms(2)
    show False by blast
  qed
  with free_step_enabled [OF assms(1,3)] assms(2) have "pcs s ! i = Out \<or> Suc i \<in> sleepers s"
    by blast
  with event_inv_sleeper [OF assms(1,3)] event_inv_signal [OF assms(1)] show ?thesis by auto
qed

section \<open>Time\<close>

lemma sdiv_nonneg: "0 \<le> (a :: int) \<Longrightarrow> 0 < b \<Longrightarrow> a sdiv b = a div b"
  by (cases "a = 0") (simp_all add: signed_divide_int_def)

lemma smod_nonneg: "0 \<le> (a :: int) \<Longrightarrow> 0 < b \<Longrightarrow> a smod b = a mod b"
  by (cases "a = 0") (simp_all add: signed_modulo_int_def)

lemma AwaitImpl_waits:
  assumes "\<And>j. k \<le> j \<Longrightarrow> j < m \<Longrightarrow> \<not> cond j \<and> (end_time = 0 \<or> clock j < end_time)" "k \<le> m"
  shows "AwaitImpl cond clock end_time k = AwaitImpl cond clock end_time m"
  using assms(2,1)
proof (induction "m - k" arbitrary: k)
  case 0
  then show ?case by simp
next
  case (Suc d)
  then have "AwaitImpl cond clock end_time k = AwaitImpl cond clock end_time (Suc k)"
    by (subst AwaitImpl.simps) simp
  also have "\<dots> = AwaitImpl cond clock end_time m"
    by (rule Suc.hyps(1)) (use Suc.hyps(2) Suc.prems in auto)
  finally show ?case .
qed

lemma AwaitImpl_returns:
  assumes "cond k \<or> end_time \<noteq> 0 \<and> end_time \<le> clock k"
  defines "stop \<equiv> LEAST k. cond k \<or> end_time \<noteq> 0 \<and> end_time \<le> clock k"
  shows "AwaitImpl cond clock end_time 0 = Some (cond stop)"
proof -
  have stop: "cond stop \<or> end_time \<noteq> 0 \<and> end_time \<le> clock stop"
    unfolding stop_def using assms(1) by (rule LeastI)
  have "\<not> cond j \<and> (end_time = 0 \<or> clock j < end_time)" if "j < stop" for j
    using not_less_Least [OF that [unfolded stop_def]] by auto
  then have "AwaitImpl cond clock end_time 0 = AwaitImpl cond clock end_time stop"
    by (intro AwaitImpl_waits) auto
  with stop show ?thesis by (subst (asm) (2) AwaitImpl.simps) auto
qed

text \<open>Nested starts and stops count the time between the outermost pair.\<close>

lemma Stopwatch_nested:
  assumes "0 < sw_nested_count w"
  shows "Stopwatch_Stop t2 (Stopwatch_Start t1 w) = Some w"
  using assms by (simp add: Stopwatch_Start_def Stopwatch_Stop_def)

lemma Stopwatch_outermost:
  assumes "sw_nested_count w = 0"
  shows "Stopwatch_Stop t2 (Stopwatch_Start t1 w) =
    Some (w\<lparr>sw_start_ticks := t1, sw_total_ticks := sw_total_ticks w + (t2 - t1)\<rparr>)"
  using assms by (simp add: Stopwatch_Start_def Stopwatch_Stop_def)

section \<open>Properties\<close>

fun event_run :: "(nat \<times> event_action) list \<Rightarrow> event_system \<Rightarrow> event_system os_result" where
  "event_run [] s = Returned s"
| "event_run ((i, a) # as) s = os_bind (event_exec i a s) (event_run as)"

lemma event_run_reach: "event_run as s = Returned s' \<Longrightarrow> event_reach n s \<Longrightarrow> event_reach n s'"
  by (induction as s rule: event_run.induct) (auto intro: event_reach.step)


lemma event_example_run:
  "event_run [(0, CallWait), (0, Step 0), (0, Step 0), (1, CallSignal), (1, Step 0), (1, Step 0), (1, Step 0),
     (0, Step 0), (0, Step 0)] (event_init 2) =
   Returned \<lparr>ev = \<lparr>ev_mutex = \<lparr>mutex_owner = 1, mutex_holder = Some 1\<rparr>, ev_signal = False,
     ev_condition = \<lparr>cond_sleepers = {}\<rparr>\<rparr>, pcs = [WaitUnlock, Out]\<rparr>"
  by (simp add: event_exec.simps event_init_def Event_new_def Mutex_new_def CondVar_new_def event_prims
      goto_def Event_Wait_round_def Event_Signal_body_def numeral_2_eq_2)


text \<open>
  C8. No wake-up is lost and no call runs on for ever: in a reachable state every further step of a
  running call uses up some of a finite amount of work, and when no step is possible any more, every
  thread has returned from its call or sleeps in a wait while the flag is not set.
\<close>

theorem event_no_lost_wakeup:
  assumes "event_reach n s"
  shows "(\<forall>i e s'. event_exec i (Step e) s = Returned s' \<longrightarrow> event_work s' < event_work s) \<and>
    ((\<forall>i e. event_exec i (Step e) s = Blocked) \<longrightarrow>
      (\<forall>i < length (pcs s). pcs s ! i = Out \<or>
         in_wait (pcs s ! i) \<and> Suc i \<in> sleepers s \<and> \<not> ev_signal (ev s)))"
proof -
  note inv = event_reach_inv [OF assms]
  have "event_work s' < event_work s" if "event_exec i (Step e) s = Returned s'" for i e s'
  proof -
    from that have "i < length (pcs s)" by (auto simp: event_exec.simps split: if_splits)
    with event_exec_Step(2) [OF inv this that] thread_step_work [OF _ inv] show ?thesis by blast
  qed
  with event_quiescent [OF inv] show ?thesis by blast
qed

theorem event_no_lost_wakeup_witness:
  "\<exists>s. event_run [(0, CallWait), (0, Step 0), (0, Step 0), (1, CallSignal), (1, Step 0), (1, Step 0), (1, Step 0),
     (0, Step 0), (0, Step 0)] (event_init 2) = Returned s \<and>
   event_work (unlocked 0 Out s) < event_work s"
proof -
  let ?s = "\<lparr>ev = \<lparr>ev_mutex = \<lparr>mutex_owner = 1, mutex_holder = Some 1\<rparr>, ev_signal = False,
     ev_condition = \<lparr>cond_sleepers = {}\<rparr>\<rparr>, pcs = [WaitUnlock, Out]\<rparr>"
  have "event_exec 0 (Step 0) ?s = Returned (unlocked 0 Out ?s)"
    by (simp add: event_exec.simps event_prims goto_def unlocked_def Mutex_new_def)
  with event_no_lost_wakeup [OF event_run_reach [OF event_example_run event_reach.init]] event_example_run
  show ?thesis by blast
qed

text \<open>
  The deadline of a timed wait is the current time plus the timeout, as a normalised
  \<open>timespec\<close>.
\<close>

theorem timedwait_deadline_normalised:
  assumes "0 \<le> now_usec" "now_usec < 1000000" "0 \<le> milliseconds"
    and "timedwait_deadline now_sec now_usec milliseconds = (tv_sec, tv_nsec)"
  shows "0 \<le> tv_nsec \<and> tv_nsec < 1000000000 \<and>
    tv_sec * 1000000000 + tv_nsec = now_sec * 1000000000 + now_usec * 1000 + milliseconds * 1000000"
proof -
  let ?q = "milliseconds div 1000" let ?r = "milliseconds mod 1000"
  have "?q * 1000 + ?r = milliseconds" by (rule div_mult_mod_eq)
  then have "(?q * 1000 + ?r) * 1000000 = milliseconds * 1000000" by (simp only:)
  then have "?q * 1000000000 + ?r * 1000000 = milliseconds * 1000000" by (simp only: distrib_right mult.assoc)
  moreover have "0 \<le> ?r" "?r < 1000" by simp_all
  ultimately show ?thesis using assms
    by (auto simp: timedwait_deadline_def Let_def sdiv_nonneg smod_nonneg split: if_splits)
qed

theorem timedwait_deadline_normalised_witness:
  "timedwait_deadline 10 999999 2500 = (13, 499999000) \<and>
   13 * 1000000000 + 499999000 = 10 * 1000000000 + 999999 * 1000 + (2500 :: int) * 1000000"
proof -
  have "timedwait_deadline 10 999999 2500 = (13, 499999000)"
    by (simp add: timedwait_deadline_def Let_def sdiv_nonneg smod_nonneg)
  from timedwait_deadline_normalised [OF _ _ _ this] this show ?thesis by simp
qed

text \<open>
  \<open>AwaitWithTimeout\<close> returns if the condition becomes true or the clock reaches the deadline
  in some round; the result is the value of the condition in the first such round.
\<close>

theorem AwaitWithTimeout_returns:
  assumes "0 < timeout" "now + timeout \<noteq> 0" "cond k \<or> now + timeout \<le> clock k"
  shows "AwaitWithTimeout cond clock now timeout =
    Some (cond (LEAST k. cond k \<or> now + timeout \<le> clock k))"
  using AwaitImpl_returns [of cond k "now + timeout" clock] assms
  by (simp add: AwaitWithTimeout_def)

theorem AwaitWithTimeout_returns_witness:
  "AwaitWithTimeout (\<lambda>k. False) (\<lambda>k. 100 + int k) 100 5 = Some False"
  using AwaitWithTimeout_returns [of 5 100 "\<lambda>k. False" 5 "\<lambda>k. 100 + int k"] by simp

end
