(* ===== verification/MessageQueue.thy ===== *)
theory MessageQueue
  imports Sync
begin

text \<open>
  The message queues of the threads: \<open>src/common/message_queue.cc\<close>, \<open>message_queue.h\<close> and
  \<open>message_queue_android.cc\<close>. Threads send each other messages through one
  \<open>ThreadSpecificQueue\<close> per thread; a message loop waits for the event of its queue, takes all
  messages and dispatches them. The threads are interleaved at every use of a mutex or an event; the
  event is the atomic flag that theory \<open>Sync\<close> shows it to be.
\<close>

section \<open>Handlers\<close>

text \<open>Handlers and message data are addresses; \<open>0\<close> is \<open>NULL\<close>.\<close>

definition kMessageService_Notify :: int where "kMessageService_Notify = 1"
definition kAsyncRouter_Call :: int where "kAsyncRouter_Call = 2"
definition kAndroidLoop_Exit :: int where "kAndroidLoop_Exit = 3"
definition kSyncRouter_Call :: int where "kSyncRouter_Call = 4"

type_synonym thread_handlers = "int \<Rightarrow> nat option"

definition tmq_RegisterHandler :: "int \<Rightarrow> nat \<Rightarrow> thread_handlers \<Rightarrow> thread_handlers" where
  "tmq_RegisterHandler message_type inst handlers = handlers(message_type \<mapsto> inst)"

definition tmq_GetRegisteredHandler :: "int \<Rightarrow> thread_handlers \<Rightarrow> nat option" where
  "tmq_GetRegisteredHandler message_type handlers = handlers message_type"

definition tmq_IsRegistered :: "int \<Rightarrow> thread_handlers \<Rightarrow> bool" where
  "tmq_IsRegistered message_type handlers =
     (case handlers message_type of None \<Rightarrow> False | Some h \<Rightarrow> True)"

text \<open>\<open>RegisteredHandler::Invoke\<close>: the handler that is called, if any.\<close>

definition tmq_Invoke :: "nat \<Rightarrow> nat option" where
  "tmq_Invoke inst = (if inst \<noteq> 0 then Some inst else None)"

definition HandleThreadMessage :: "int \<Rightarrow> thread_handlers \<Rightarrow> nat option" where
  "HandleThreadMessage message_type handlers =
     (case tmq_GetRegisteredHandler message_type handlers of
        None \<Rightarrow> None
      | Some inst \<Rightarrow> tmq_Invoke inst)"

section \<open>The queue of a thread\<close>

record Message =
  message_type :: int
  message_data :: nat

record ThreadSpecificQueue =
  tsq_thread_id :: ThreadId
  tsq_event_queue :: "Message list"
  tsq_event :: bool

definition tsq_new :: "ThreadId \<Rightarrow> ThreadSpecificQueue" where
  "tsq_new thread_id = \<lparr>tsq_thread_id = thread_id, tsq_event_queue = [], tsq_event = False\<rparr>"

text \<open>
  \<open>SendMessage\<close> is two steps: the message is pushed under the mutex of the queue, then the event
  is signalled. What follows for the main thread only takes and releases a mutex.
\<close>

definition SendMessage_push :: "int \<Rightarrow> nat \<Rightarrow> ThreadSpecificQueue \<Rightarrow> ThreadSpecificQueue" where
  "SendMessage_push type data q =
     q\<lparr>tsq_event_queue := tsq_event_queue q @ [\<lparr>message_type = type, message_data = data\<rparr>]\<rparr>"

definition SendMessage_signal :: "ThreadSpecificQueue \<Rightarrow> ThreadSpecificQueue" where
  "SendMessage_signal q = q\<lparr>tsq_event := True\<rparr>"

definition PopMessages :: "ThreadSpecificQueue \<Rightarrow> Message list \<times> ThreadSpecificQueue" where
  "PopMessages q = (tsq_event_queue q, q\<lparr>tsq_event_queue := []\<rparr>)"

definition tsq_Wait :: "ThreadSpecificQueue \<Rightarrow> ThreadSpecificQueue os_result" where
  "tsq_Wait q = (if tsq_event q then Returned (q\<lparr>tsq_event := False\<rparr>) else Blocked)"

section \<open>The process\<close>

text \<open>
  \<open>loop_pc\<close> is where a thread stands in a message loop: outside, before the wait, before the
  take-over of the messages, or dispatching the messages it took. The mode is
  \<open>GetAndDispatchMessages\<close> with its exit type, or one round for \<open>RunOnce\<close> and \<open>AsyncCallback\<close>.
  \<open>send_pc\<close> is where it stands in \<open>Send\<close> or in \<open>AndroidMessageLoop::Stop\<close>: after the push and
  before the signal, holding \<open>queue_mutex_\<close> in the first case; \<open>Stop\<close> first gets a pointer
  to the queue.
\<close>

datatype loop_mode = Until int | Once

datatype loop_pc = LoopOut | LoopWait loop_mode | LoopPop loop_mode | LoopDispatch loop_mode "Message list"

datatype send_pc = SendOut | SendSignal ThreadId | StopPush ThreadId | StopSignal ThreadId

text \<open>
  What becomes of a message. In each case its data is deleted: the message is the only owner.
\<close>

datatype fate =
    Handled "nat option"  \<comment> \<open>dispatched, to the handler registered for its type if there is one\<close>
  | ExitLoop              \<comment> \<open>it ended the loop\<close>
  | Skipped               \<comment> \<open>in the batch behind the message that ended the loop\<close>
  | Discarded             \<comment> \<open>still in the queue of a thread that ended\<close>

record process =
  handlers :: thread_handlers
  main_thread_id :: ThreadId
  message_queues :: "ThreadId \<Rightarrow> ThreadSpecificQueue option"
  end_hooks :: "ThreadId set"
  queue_mutex :: "ThreadId option"
  looping :: "ThreadId \<Rightarrow> loop_pc"
  sending :: "ThreadId \<Rightarrow> send_pc"
  sent :: "(ThreadId \<times> Message) list"
  fates :: "(ThreadId \<times> Message \<times> fate) list"
  refused :: "(ThreadId \<times> nat) list"

definition process_init :: "ThreadId \<Rightarrow> process" where
  "process_init main = \<lparr>handlers = (\<lambda>_. None), main_thread_id = main, message_queues = (\<lambda>_. None),
     end_hooks = {}, queue_mutex = None, looping = (\<lambda>_. LoopOut), sending = (\<lambda>_. SendOut),
     sent = [], fates = [], refused = []\<rparr>"

definition InitThreadEndHook :: "ThreadId \<Rightarrow> process \<Rightarrow> process" where
  "InitThreadEndHook me s = (if me \<notin> end_hooks s then s\<lparr>end_hooks := insert me (end_hooks s)\<rparr> else s)"

definition InitThreadMessageQueue :: "ThreadId \<Rightarrow> process \<Rightarrow> process os_result" where
  "InitThreadMessageQueue me s =
     (if queue_mutex s \<noteq> None then Blocked
      else Returned
        (if message_queues s me = None
         then (let s1 = (if me \<noteq> main_thread_id s then InitThreadEndHook me s else s)
               in s1\<lparr>message_queues := (message_queues s1)(me \<mapsto> tsq_new me)\<rparr>)
         else s))"

definition set_queue :: "ThreadId \<Rightarrow> ThreadSpecificQueue \<Rightarrow> process \<Rightarrow> process" where
  "set_queue t q s = s\<lparr>message_queues := (message_queues s)(t \<mapsto> q)\<rparr>"

text \<open>
  \<open>Send\<close>, up to the signal: it returns \<open>false\<close> and deletes the data when the thread has no queue.
\<close>

definition tmq_Send :: "ThreadId \<Rightarrow> ThreadId \<Rightarrow> int \<Rightarrow> nat \<Rightarrow> process \<Rightarrow> process os_result" where
  "tmq_Send me thread type data s =
     (if queue_mutex s \<noteq> None then Blocked
      else Returned
        (case message_queues s thread of
           None \<Rightarrow> s\<lparr>refused := refused s @ [(thread, data)]\<rparr>
         | Some q \<Rightarrow> (set_queue thread (SendMessage_push type data q) s)
             \<lparr>queue_mutex := Some me, sending := (sending s)(me := SendSignal thread),
              sent := sent s @ [(thread, \<lparr>message_type = type, message_data = data\<rparr>)]\<rparr>))"

definition tmq_Send_signal :: "ThreadId \<Rightarrow> ThreadId \<Rightarrow> process \<Rightarrow> process os_result" where
  "tmq_Send_signal me thread s =
     (case message_queues s thread of
        None \<Rightarrow> Aborted
      | Some q \<Rightarrow> Returned ((set_queue thread (SendMessage_signal q) s)
          \<lparr>queue_mutex := None, sending := (sending s)(me := SendOut)\<rparr>))"

definition GetQueue :: "ThreadId \<Rightarrow> process \<Rightarrow> ThreadSpecificQueue os_result" where
  "GetQueue t s =
     (if queue_mutex s \<noteq> None then Blocked
      else case message_queues s t of None \<Rightarrow> Aborted | Some q \<Rightarrow> Returned q)"

text \<open>The destructor of the thread-local value, when a thread has ended.\<close>

definition ThreadEndHook :: "ThreadId \<Rightarrow> process \<Rightarrow> process os_result" where
  "ThreadEndHook t s =
     (if queue_mutex s \<noteq> None then Blocked
      else Returned (s\<lparr>message_queues := (message_queues s)(t := None), end_hooks := end_hooks s - {t},
        fates := fates s @ (case message_queues s t of None \<Rightarrow> []
          | Some q \<Rightarrow> map (\<lambda>m. (t, m, Discarded)) (tsq_event_queue q))\<rparr>))"

text \<open>
  \<open>AndroidMessageLoop::Stop\<close>. The pointer is used after \<open>queue_mutex_\<close> is released: if the queue is
  gone by then the memory is freed.
\<close>

definition Stop :: "ThreadId \<Rightarrow> ThreadId \<Rightarrow> process \<Rightarrow> process os_result" where
  "Stop me thread s = os_bind (GetQueue thread s)
     (\<lambda>q. Returned (s\<lparr>sending := (sending s)(me := StopPush thread)\<rparr>))"

definition Stop_push :: "ThreadId \<Rightarrow> ThreadId \<Rightarrow> process \<Rightarrow> process os_result" where
  "Stop_push me thread s =
     (case message_queues s thread of
        None \<Rightarrow> Aborted
      | Some q \<Rightarrow> Returned ((set_queue thread (SendMessage_push kAndroidLoop_Exit 0 q) s)
          \<lparr>sending := (sending s)(me := StopSignal thread),
           sent := sent s @ [(thread, \<lparr>message_type = kAndroidLoop_Exit, message_data = 0\<rparr>)]\<rparr>))"

definition Stop_signal :: "ThreadId \<Rightarrow> ThreadId \<Rightarrow> process \<Rightarrow> process os_result" where
  "Stop_signal me thread s =
     (case message_queues s thread of
        None \<Rightarrow> Aborted
      | Some q \<Rightarrow> Returned ((set_queue thread (SendMessage_signal q) s)
          \<lparr>sending := (sending s)(me := SendOut)\<rparr>))"

section \<open>Message loops\<close>

definition set_loop :: "ThreadId \<Rightarrow> loop_pc \<Rightarrow> process \<Rightarrow> process" where
  "set_loop t pc s = s\<lparr>looping := (looping s)(t := pc)\<rparr>"

definition AndroidMessageLoop_Start :: "ThreadId \<Rightarrow> process \<Rightarrow> process os_result" where
  "AndroidMessageLoop_Start me s = os_bind (GetQueue me s)
     (\<lambda>q. Returned (set_loop me (LoopWait (Until kAndroidLoop_Exit)) s))"

definition AndroidMessageLoop_RunOnce :: "ThreadId \<Rightarrow> process \<Rightarrow> process os_result" where
  "AndroidMessageLoop_RunOnce me s = os_bind (GetQueue me s)
     (\<lambda>q. Returned (set_loop me (LoopWait Once) s))"

text \<open>\<open>AsyncCallback\<close> of the browser's message loop dispatches without waiting.\<close>

definition AsyncCallback :: "ThreadId \<Rightarrow> process \<Rightarrow> process os_result" where
  "AsyncCallback me s = Returned (set_loop me (LoopPop Once) s)"

text \<open>One message of the local queue.\<close>

definition dispatch_one :: "ThreadId \<Rightarrow> loop_mode \<Rightarrow> Message \<Rightarrow> Message list \<Rightarrow> process \<Rightarrow> process" where
  "dispatch_one me mode msg local s =
     (if mode = Until (message_type msg)
      then (set_loop me LoopOut s)
        \<lparr>fates := fates s @ (me, msg, ExitLoop) # map (\<lambda>m. (me, m, Skipped)) local\<rparr>
      else (set_loop me (LoopDispatch mode local) s)
        \<lparr>fates := fates s @ [(me, msg, Handled (HandleThreadMessage (message_type msg) (handlers s)))]\<rparr>)"

definition loop_step :: "ThreadId \<Rightarrow> process \<Rightarrow> process os_result" where
  "loop_step me s =
     (case looping s me of
        LoopOut \<Rightarrow> Blocked
      | LoopWait mode \<Rightarrow>
          (case message_queues s me of
             None \<Rightarrow> Aborted
           | Some q \<Rightarrow> os_bind (tsq_Wait q)
               (\<lambda>q1. Returned (set_loop me (LoopPop mode) (set_queue me q1 s))))
      | LoopPop mode \<Rightarrow>
          (case message_queues s me of
             None \<Rightarrow> Aborted
           | Some q \<Rightarrow> (let (local, q1) = PopMessages q
               in Returned (set_loop me (LoopDispatch mode local) (set_queue me q1 s))))
      | LoopDispatch mode [] \<Rightarrow>
          Returned (set_loop me (case mode of Until t \<Rightarrow> LoopWait mode | Once \<Rightarrow> LoopOut) s)
      | LoopDispatch mode (msg # local) \<Rightarrow> Returned (dispatch_one me mode msg local s))"

section \<open>Runs\<close>

text \<open>
  A thread starts a call outside of every other one; a handler that is called from the loop of its
  thread, where the fate of the message is recorded, may register, send and stop as well.
\<close>

definition may_call :: "ThreadId \<Rightarrow> process \<Rightarrow> bool" where
  "may_call t s \<longleftrightarrow> sending s t = SendOut \<and>
     (case looping s t of LoopOut \<Rightarrow> True | LoopDispatch mode ms \<Rightarrow> True | _ \<Rightarrow> False)"

datatype tmq_action =
    Register int nat
  | Init ThreadId
  | DoSend ThreadId ThreadId int nat
  | DoStop ThreadId ThreadId
  | SendStep ThreadId
  | StartLoop ThreadId
  | StartOnce ThreadId
  | StartAsync ThreadId
  | LoopStep ThreadId
  | EndThread ThreadId

fun tmq_exec :: "tmq_action \<Rightarrow> process \<Rightarrow> process os_result" where
  "tmq_exec (Register type h) s = Returned (s\<lparr>handlers := tmq_RegisterHandler type h (handlers s)\<rparr>)"
| "tmq_exec (Init t) s = (if may_call t s then InitThreadMessageQueue t s else Blocked)"
| "tmq_exec (DoSend t target type data) s =
     (if may_call t s then tmq_Send t target type data s else Blocked)"
| "tmq_exec (DoStop t target) s = (if may_call t s then Stop t target s else Blocked)"
| "tmq_exec (SendStep t) s =
     (case sending s t of
        SendOut \<Rightarrow> Blocked
      | SendSignal target \<Rightarrow> tmq_Send_signal t target s
      | StopPush target \<Rightarrow> Stop_push t target s
      | StopSignal target \<Rightarrow> Stop_signal t target s)"
| "tmq_exec (StartLoop t) s =
     (if sending s t = SendOut \<and> looping s t = LoopOut then AndroidMessageLoop_Start t s else Blocked)"
| "tmq_exec (StartOnce t) s =
     (if sending s t = SendOut \<and> looping s t = LoopOut then AndroidMessageLoop_RunOnce t s else Blocked)"
| "tmq_exec (StartAsync t) s =
     (if sending s t = SendOut \<and> looping s t = LoopOut \<and> message_queues s t \<noteq> None
      then AsyncCallback t s else Blocked)"
| "tmq_exec (LoopStep t) s = (if sending s t = SendOut then loop_step t s else Blocked)"
| "tmq_exec (EndThread t) s =
     (if sending s t = SendOut \<and> looping s t = LoopOut \<and> t \<in> end_hooks s then ThreadEndHook t s
      else Blocked)"

inductive tmq_reach :: "ThreadId \<Rightarrow> process \<Rightarrow> bool" for main where
  init: "tmq_reach main (process_init main)"
| step: "tmq_reach main s \<Longrightarrow> tmq_exec a s = Returned s' \<Longrightarrow> tmq_reach main s'"

fun tmq_run :: "tmq_action list \<Rightarrow> process \<Rightarrow> process os_result" where
  "tmq_run [] s = Returned s"
| "tmq_run (a # as) s = os_bind (tmq_exec a s) (tmq_run as)"


section \<open>Invariant\<close>

definition sent_to :: "ThreadId \<Rightarrow> process \<Rightarrow> Message list" where
  "sent_to t s = map snd (filter (\<lambda>x. fst x = t) (sent s))"

definition fates_of :: "ThreadId \<Rightarrow> process \<Rightarrow> (Message \<times> fate) list" where
  "fates_of t s = map snd (filter (\<lambda>x. fst x = t) (fates s))"

fun pc_local :: "loop_pc \<Rightarrow> Message list" where
  "pc_local (LoopDispatch mode local) = local"
| "pc_local _ = []"

definition local_of :: "ThreadId \<Rightarrow> process \<Rightarrow> Message list" where
  "local_of t s = pc_local (looping s t)"

definition pending :: "ThreadId \<Rightarrow> process \<Rightarrow> Message list" where
  "pending t s = (case message_queues s t of None \<Rightarrow> [] | Some q \<Rightarrow> tsq_event_queue q)"

definition fifo_inv :: "process \<Rightarrow> bool" where
  "fifo_inv s \<longleftrightarrow> (\<forall>t. sent_to t s = map fst (fates_of t s) @ local_of t s @ pending t s)"

definition lock_inv :: "process \<Rightarrow> bool" where
  "lock_inv s \<longleftrightarrow>
     (\<forall>t. looping s t \<noteq> LoopOut \<longrightarrow> message_queues s t \<noteq> None) \<and>
     (\<forall>u t. sending s u = SendSignal t \<longrightarrow> queue_mutex s = Some u \<and> message_queues s t \<noteq> None) \<and>
     (\<forall>u. queue_mutex s = Some u \<longrightarrow> (\<exists>t. sending s u = SendSignal t))"

text \<open>Some thread has pushed a message for \<open>t\<close> and is about to signal its event.\<close>

definition signalled_soon :: "ThreadId \<Rightarrow> (ThreadId \<Rightarrow> send_pc) \<Rightarrow> bool" where
  "signalled_soon t pcf \<longleftrightarrow> (\<exists>u. pcf u = SendSignal t \<or> pcf u = StopSignal t)"

fun at_pop :: "loop_pc \<Rightarrow> bool" where
  "at_pop (LoopPop mode) = True"
| "at_pop _ = False"

definition wake_inv :: "process \<Rightarrow> bool" where
  "wake_inv s \<longleftrightarrow> (\<forall>t q. message_queues s t = Some q \<longrightarrow>
     tsq_event_queue q = [] \<or> tsq_event q \<or> signalled_soon t (sending s) \<or> at_pop (looping s t))"

lemmas queue_ops = SendMessage_push_def SendMessage_signal_def PopMessages_def tsq_Wait_def tsq_new_def
  set_queue_def set_loop_def

lemmas process_ops = may_call_def InitThreadMessageQueue_def InitThreadEndHook_def tmq_Send_def tmq_Send_signal_def GetQueue_def
  ThreadEndHook_def Stop_def Stop_push_def Stop_signal_def AndroidMessageLoop_Start_def
  AndroidMessageLoop_RunOnce_def AsyncCallback_def dispatch_one_def loop_step_def

lemmas view_defs = sent_to_def fates_of_def local_of_def pending_def

lemma filter_mark [simp]:
  "filter (\<lambda>x. fst x = t) (map (\<lambda>m. (u, m, f)) ms) = (if u = t then map (\<lambda>m. (u, m, f)) ms else [])"
  by (induction ms) auto

text \<open>A step of the loop of one thread.\<close>

lemma loop_step_fifo:
  assumes "fifo_inv s" "loop_step me s = Returned s'"
  shows "fifo_inv s'"
proof -
  from assms(1) have F: "sent_to t s = map fst (fates_of t s) @ local_of t s @ pending t s" for t
    by (simp add: fifo_inv_def)
  show ?thesis
  proof (cases "looping s me")
    case LoopOut
    with assms(2) show ?thesis by (simp add: loop_step_def)
  next
    case (LoopWait mode)
    with assms(2) F show ?thesis
      by (auto simp: loop_step_def queue_ops fifo_inv_def view_defs split: option.splits if_splits)
  next
    case (LoopPop mode)
    with assms(2) F show ?thesis
      by (auto simp: loop_step_def queue_ops fifo_inv_def view_defs split: option.splits if_splits)
  next
    case (LoopDispatch mode ms)
    with assms(2) F show ?thesis
      by (cases ms) (auto simp: loop_step_def dispatch_one_def queue_ops fifo_inv_def view_defs comp_def
        split: option.splits if_splits loop_mode.splits)
  qed
qed

lemma tmq_exec_fifo:
  assumes "fifo_inv s" "lock_inv s" "tmq_exec a s = Returned s'"
  shows "fifo_inv s'"
proof -
  from assms(1) have F: "sent_to t s = map fst (fates_of t s) @ local_of t s @ pending t s" for t
    by (simp add: fifo_inv_def)
  show ?thesis
  proof (cases a)
    case (LoopStep t)
    with assms loop_step_fifo show ?thesis by (auto split: if_splits)
  next
    case (EndThread t)
    with assms(3) F show ?thesis
      by (auto simp: process_ops fifo_inv_def view_defs comp_def split: option.splits if_splits)
  next
    case (SendStep t)
    with assms(3) F show ?thesis
      by (auto simp: process_ops queue_ops fifo_inv_def view_defs comp_def split: option.splits if_splits send_pc.splits)
  qed (use assms(3) F in \<open>auto simp: process_ops queue_ops fifo_inv_def view_defs Let_def split: option.splits if_splits\<close>)
qed

lemma loop_step_lock:
  assumes "lock_inv s" "loop_step me s = Returned s'"
  shows "lock_inv s'"
proof (cases "looping s me")
  case (LoopDispatch mode ms)
  with assms show ?thesis
    by (cases ms) (auto simp: lock_inv_def loop_step_def dispatch_one_def queue_ops split: option.splits if_splits loop_mode.splits)
qed (use assms in \<open>auto simp: lock_inv_def loop_step_def queue_ops split: option.splits if_splits\<close>)

lemma lock_invD:
  assumes "lock_inv s"
  shows "looping s t \<noteq> LoopOut \<Longrightarrow> message_queues s t \<noteq> None"
    "sending s u = SendSignal t \<Longrightarrow> queue_mutex s = Some u"
    "sending s u = SendSignal t \<Longrightarrow> message_queues s t \<noteq> None"
    "queue_mutex s = Some u \<Longrightarrow> \<exists>t. sending s u = SendSignal t"
  using assms by (auto simp: lock_inv_def)

lemma send_step_lock:
  assumes "lock_inv s" "tmq_exec (SendStep t) s = Returned s'"
  shows "lock_inv s'"
proof -
  obtain target q q' where s': "message_queues s target = Some q"
      "message_queues s' = (message_queues s)(target \<mapsto> q')" "looping s' = looping s"
    and cases: "sending s t = SendSignal target \<and> queue_mutex s' = None \<and> sending s' = (sending s)(t := SendOut) \<or>
      (sending s t = StopPush target \<or> sending s t = StopSignal target) \<and> queue_mutex s' = queue_mutex s \<and>
      (sending s' = (sending s)(t := StopSignal target) \<or> sending s' = (sending s)(t := SendOut))"
    using assms(2) by (cases "sending s t"; fastforce simp: process_ops queue_ops split: option.splits)
  have 1: "message_queues s' u \<noteq> None" if "message_queues s u \<noteq> None" for u
    using that s' by auto
  from cases show ?thesis
  proof (elim disjE [where P = "sending s t = SendSignal target \<and> _"] conjE)
    assume c: "sending s t = SendSignal target" "queue_mutex s' = None" "sending s' = (sending s)(t := SendOut)"
    have "\<not> sending s' u = SendSignal v" for u v
      using lock_invD(2) [OF assms(1), of t target] lock_invD(2) [OF assms(1), of u v] c
      by (auto split: if_splits)
    with 1 s'(3) c(2) lock_invD(1) [OF assms(1)] show ?thesis unfolding lock_inv_def by auto
  next
    assume c: "sending s t = StopPush target \<or> sending s t = StopSignal target"
      "queue_mutex s' = queue_mutex s"
      "sending s' = (sending s)(t := StopSignal target) \<or> sending s' = (sending s)(t := SendOut)"
    then have "sending s' u = SendSignal v \<longleftrightarrow> sending s u = SendSignal v" for u v
      by (auto split: if_splits)
    with 1 s'(3) c(2) lock_invD [OF assms(1)] show ?thesis unfolding lock_inv_def by auto
  qed
qed

lemma tmq_exec_lock:
  assumes "lock_inv s" "tmq_exec a s = Returned s'"
  shows "lock_inv s'"
proof (cases a)
  case (LoopStep t)
  with assms loop_step_lock show ?thesis by (auto split: if_splits)
next
  case (SendStep t)
  with assms send_step_lock show ?thesis by blast
next
  case (DoSend t target type data)
  with assms show ?thesis
    by (cases "message_queues s target") (auto simp: lock_inv_def process_ops queue_ops split: if_splits)
next
  case (EndThread t)
  then have "message_queues s' = (message_queues s)(t := None)" "looping s' = looping s"
      "sending s' = sending s" "queue_mutex s' = queue_mutex s" "looping s t = LoopOut" "queue_mutex s = None"
    using assms(2) by (auto simp: process_ops split: if_splits)
  with assms(1) show ?thesis
    by (auto simp: lock_inv_def)
qed (use assms in \<open>auto simp: lock_inv_def process_ops queue_ops Let_def split: if_splits option.splits\<close>)

lemma wake_invD:
  "wake_inv s \<Longrightarrow> message_queues s t = Some q \<Longrightarrow>
    tsq_event_queue q = [] \<or> tsq_event q \<or> signalled_soon t (sending s) \<or> at_pop (looping s t)"
  by (simp add: wake_inv_def)

lemma signalled_soon_simps [simp]:
  "signalled_soon t (pcf(u := SendSignal t))" "signalled_soon t (pcf(u := StopSignal t))"
  by (auto simp: signalled_soon_def)

lemma signalled_soon_update:
  assumes "signalled_soon t pcf" "pcf u \<noteq> SendSignal t" "pcf u \<noteq> StopSignal t"
  shows "signalled_soon t (pcf(u := pc))"
  using assms by (auto simp: signalled_soon_def)

lemma loop_step_wake:
  assumes "wake_inv s" "loop_step me s = Returned s'"
  shows "wake_inv s'"
proof -
  note W = wake_invD [OF assms(1)]
  show ?thesis
  proof (cases "looping s me")
    case (LoopDispatch mode ms)
    have "message_queues s' = message_queues s" "sending s' = sending s"
      "\<And>t. t \<noteq> me \<Longrightarrow> looping s' t = looping s t"
      using LoopDispatch assms(2) by (cases ms; auto simp: loop_step_def dispatch_one_def set_loop_def)+
    with W LoopDispatch show ?thesis unfolding wake_inv_def by (metis at_pop.simps(4))
  next
    case LoopOut
    with assms(2) show ?thesis by (simp add: loop_step_def)
  next
    case (LoopWait mode)
    with assms(2) show ?thesis
      by (auto simp: wake_inv_def loop_step_def queue_ops split: option.splits if_splits dest!: W)
  next
    case (LoopPop mode)
    with assms(2) show ?thesis
      by (auto simp: wake_inv_def loop_step_def queue_ops split: option.splits if_splits dest!: W)
  qed
qed


text \<open>A step that touches only the queue of one thread and the state of one sender.\<close>

lemma wake_inv_step:
  assumes "wake_inv s" "looping s' = looping s"
    "\<And>u. u \<noteq> t \<Longrightarrow> message_queues s' u = message_queues s u"
    "sending s' = (sending s)(v := pc)"
    "\<And>u. sending s v = SendSignal u \<or> sending s v = StopSignal u \<Longrightarrow> u = t"
    "\<And>q. message_queues s' t = Some q \<Longrightarrow> tsq_event_queue q = [] \<or> tsq_event q \<or>
       pc = SendSignal t \<or> pc = StopSignal t"
  shows "wake_inv s'"
  unfolding wake_inv_def
proof (intro allI impI)
  fix u q
  assume q: "message_queues s' u = Some q"
  show "tsq_event_queue q = [] \<or> tsq_event q \<or> signalled_soon u (sending s') \<or> at_pop (looping s' u)"
  proof (cases "u = t")
    case True
    with assms(6) q assms(4) show ?thesis by fastforce
  next
    case False
    with q assms(3) wake_invD [OF assms(1), of u q] have
      "tsq_event_queue q = [] \<or> tsq_event q \<or> signalled_soon u (sending s) \<or> at_pop (looping s u)" by simp
    moreover have "signalled_soon u (sending s) \<Longrightarrow> signalled_soon u (sending s')"
      unfolding assms(4) by (rule signalled_soon_update) (use False assms(5) in blast)+
    ultimately show ?thesis using assms(2) by auto
  qed
qed

lemma wake_inv_same_queues:
  assumes "wake_inv s" "message_queues s' = message_queues s" "looping s' = looping s"
    "\<And>t. signalled_soon t (sending s) \<Longrightarrow> signalled_soon t (sending s')"
  shows "wake_inv s'"
  using assms unfolding wake_inv_def by metis

lemma send_step_wake:
  assumes "wake_inv s" "tmq_exec (SendStep t) s = Returned s'"
  shows "wake_inv s'"
proof (cases "sending s t")
  case SendOut
  with assms show ?thesis by simp
next
  case (SendSignal u)
  with assms(2) show ?thesis
    by (intro wake_inv_step [OF assms(1), where t = u and v = t and pc = SendOut])
      (auto simp: process_ops queue_ops split: option.splits)
next
  case (StopPush u)
  with assms(2) show ?thesis
    by (intro wake_inv_step [OF assms(1), where t = u and v = t and pc = "StopSignal u"])
      (auto simp: process_ops queue_ops split: option.splits)
next
  case (StopSignal u)
  with assms(2) show ?thesis
    by (intro wake_inv_step [OF assms(1), where t = u and v = t and pc = SendOut])
      (auto simp: process_ops queue_ops split: option.splits)
qed

lemma tmq_exec_wake:
  assumes "wake_inv s" "tmq_exec a s = Returned s'"
  shows "wake_inv s'"
proof (cases a)
  case (LoopStep t)
  with assms loop_step_wake show ?thesis by (auto split: if_splits)
next
  case (SendStep t)
  with assms send_step_wake show ?thesis by blast
next
  case (DoSend t target type data)
  show ?thesis
  proof (cases "message_queues s target")
    case None
    with DoSend assms(2) show ?thesis
      by (intro wake_inv_same_queues [OF assms(1)]) (auto simp: process_ops split: if_splits)
  next
    case (Some q)
    with DoSend assms(2) show ?thesis
      by (intro wake_inv_step [OF assms(1), where t = target and v = t and pc = "SendSignal target"])
        (auto simp: process_ops queue_ops split: if_splits)
  qed
next
  case (DoStop t target)
  with assms(2) have "sending s t = SendOut" "s' = s\<lparr>sending := (sending s)(t := StopPush target)\<rparr>"
    by (auto simp: may_call_def process_ops split: if_splits option.splits)
  then show ?thesis
    by (intro wake_inv_same_queues [OF assms(1)]) (auto intro!: signalled_soon_update)
next
  case (Init t)
  show ?thesis
  proof (cases "message_queues s t")
    case None
    with Init assms(2) show ?thesis
      by (auto simp: wake_inv_def process_ops queue_ops Let_def split: if_splits dest!: wake_invD [OF assms(1)])
  next
    case (Some q)
    with Init assms show ?thesis by (auto simp: process_ops split: if_splits)
  qed
next
  case (EndThread t)
  with assms(2) show ?thesis
    by (auto simp: wake_inv_def process_ops split: if_splits dest!: wake_invD [OF assms(1)])
next
  case (Register type h)
  with assms(2) show ?thesis by (intro wake_inv_same_queues [OF assms(1)]) auto
qed (use assms(2) in \<open>auto simp: wake_inv_def process_ops queue_ops split: if_splits option.splits dest!: wake_invD [OF assms(1)]\<close>)

lemma tmq_reach_inv:
  "tmq_reach main s \<Longrightarrow> fifo_inv s \<and> lock_inv s \<and> wake_inv s"
proof (induction rule: tmq_reach.induct)
  case init
  show ?case by (simp add: fifo_inv_def lock_inv_def wake_inv_def process_init_def view_defs)
next
  case (step s a s')
  then show ?case using tmq_exec_fifo tmq_exec_lock tmq_exec_wake by blast
qed

section \<open>Dispatching a batch\<close>

text \<open>
  What the loop should do with the messages it took: everything before the first exit message goes
  to its handler, the exit message ends the loop, what is behind it is not handled.
\<close>

definition batch_fates :: "ThreadId \<Rightarrow> int \<Rightarrow> thread_handlers \<Rightarrow> Message list \<Rightarrow> (ThreadId \<times> Message \<times> fate) list" where
  "batch_fates t e hs ms =
     map (\<lambda>m. (t, m, Handled (HandleThreadMessage (message_type m) hs)))
       (takeWhile (\<lambda>m. message_type m \<noteq> e) ms) @
     (case dropWhile (\<lambda>m. message_type m \<noteq> e) ms of
        [] \<Rightarrow> []
      | m # rest \<Rightarrow> (t, m, ExitLoop) # map (\<lambda>m. (t, m, Skipped)) rest)"

lemma tmq_run_append: "tmq_run (as @ bs) s = os_bind (tmq_run as s) (tmq_run bs)"
proof (induction as arbitrary: s)
  case (Cons a as)
  then show ?case by (cases "tmq_exec a s") auto
qed simp

lemma loop_dispatches_batch:
  assumes "looping s t = LoopDispatch (Until e) ms" "sending s t = SendOut"
  shows "\<exists>n. tmq_run (replicate n (LoopStep t)) s =
    Returned ((set_loop t (if \<exists>m \<in> set ms. message_type m = e then LoopOut else LoopWait (Until e)) s)
      \<lparr>fates := fates s @ batch_fates t e (handlers s) ms\<rparr>)"
  using assms
proof (induction ms arbitrary: s)
  case Nil
  then have "tmq_run (replicate 1 (LoopStep t)) s =
      Returned ((set_loop t (LoopWait (Until e)) s)\<lparr>fates := fates s @ batch_fates t e (handlers s) []\<rparr>)"
    by (simp add: loop_step_def batch_fates_def set_loop_def)
  then show ?case by (intro exI [of _ 1]) simp
next
  case (Cons m ms)
  have step: "tmq_exec (LoopStep t) s = Returned (dispatch_one t (Until e) m ms s)"
    using Cons.prems by (simp add: loop_step_def)
  show ?case
  proof (cases "message_type m = e")
    case True
    with step have "tmq_run (replicate 1 (LoopStep t)) s = Returned ((set_loop t LoopOut s)
        \<lparr>fates := fates s @ batch_fates t e (handlers s) (m # ms)\<rparr>)"
      by (simp add: dispatch_one_def batch_fates_def set_loop_def)
    with True show ?thesis by (intro exI [of _ 1]) simp
  next
    case False
    let ?s1 = "dispatch_one t (Until e) m ms s"
    have s1: "?s1 = (set_loop t (LoopDispatch (Until e) ms) s)
        \<lparr>fates := fates s @ [(t, m, Handled (HandleThreadMessage (message_type m) (handlers s)))]\<rparr>"
      using False by (simp add: dispatch_one_def)
    have "looping ?s1 t = LoopDispatch (Until e) ms" "sending ?s1 t = SendOut"
      using Cons.prems(2) by (simp_all add: s1 set_loop_def)
    from Cons.IH [OF this] obtain n where "tmq_run (replicate n (LoopStep t)) ?s1 =
      Returned ((set_loop t (if \<exists>m \<in> set ms. message_type m = e then LoopOut else LoopWait (Until e)) ?s1)
        \<lparr>fates := fates ?s1 @ batch_fates t e (handlers ?s1) ms\<rparr>)" by blast
    with step have "tmq_run (replicate (Suc n) (LoopStep t)) s =
      Returned ((set_loop t (if \<exists>m \<in> set (m # ms). message_type m = e then LoopOut else LoopWait (Until e)) s)
        \<lparr>fates := fates s @ batch_fates t e (handlers s) (m # ms)\<rparr>)"
      using False by (simp add: s1 set_loop_def batch_fates_def)
    then show ?thesis by blast
  qed
qed

section \<open>The queue for tests\<close>

text \<open>
  \<open>MockThreadMessageQueue\<close>: messages are kept until \<open>DeliverMockMessages\<close> calls the handlers.
  What a handler sends while it runs is the result of the parameter \<open>react\<close>.
\<close>

record mock_queue =
  mock_handlers :: thread_handlers
  mock_current_thread :: ThreadId
  mock_initialized :: "ThreadId set"
  mock_pending :: "(ThreadId \<times> int \<times> nat) list"
  mock_deleted :: "nat list"
  mock_calls :: "(ThreadId \<times> nat \<times> int \<times> nat) list"

definition mock_InitThreadMessageQueue :: "mock_queue \<Rightarrow> mock_queue" where
  "mock_InitThreadMessageQueue q = q\<lparr>mock_initialized := insert (mock_current_thread q) (mock_initialized q)\<rparr>"

definition mock_Send :: "ThreadId \<times> int \<times> nat \<Rightarrow> mock_queue \<Rightarrow> bool \<times> mock_queue" where
  "mock_Send msg q =
     (case msg of (thread_id, type, data) \<Rightarrow>
        if thread_id \<notin> mock_initialized q then (False, q\<lparr>mock_deleted := mock_deleted q @ [data]\<rparr>)
        else (True, q\<lparr>mock_pending := mock_pending q @ [(thread_id, type, data)]\<rparr>))"

definition mock_deliver_one ::
    "(nat \<Rightarrow> int \<Rightarrow> nat \<Rightarrow> (ThreadId \<times> int \<times> nat) list) \<Rightarrow> ThreadId \<times> int \<times> nat \<Rightarrow> mock_queue \<Rightarrow> mock_queue" where
  "mock_deliver_one react msg q =
     (case msg of (thread_id, type, data) \<Rightarrow>
        let q1 = q\<lparr>mock_current_thread := thread_id\<rparr>
        in case HandleThreadMessage type (mock_handlers q1) of
             None \<Rightarrow> q1
           | Some h \<Rightarrow> fold (\<lambda>m. snd \<circ> mock_Send m) (react h type data)
               (q1\<lparr>mock_calls := mock_calls q1 @ [(thread_id, h, type, data)]\<rparr>))"

definition DeliverMockMessages ::
    "(nat \<Rightarrow> int \<Rightarrow> nat \<Rightarrow> (ThreadId \<times> int \<times> nat) list) \<Rightarrow> mock_queue \<Rightarrow> mock_queue" where
  "DeliverMockMessages react q =
     (let q1 = fold (mock_deliver_one react) (mock_pending q) q
      in q1\<lparr>mock_pending := [], mock_deleted := mock_deleted q1 @ map (\<lambda>(t, type, d). d) (mock_pending q1)\<rparr>)"

lemma mock_Send_fields:
  "mock_calls (snd (mock_Send m q)) = mock_calls q" "mock_handlers (snd (mock_Send m q)) = mock_handlers q"
  by (auto simp: mock_Send_def split: prod.splits)

lemma mock_Sends_fields:
  "mock_calls (fold (\<lambda>m. snd \<circ> mock_Send m) ms q) = mock_calls q"
  "mock_handlers (fold (\<lambda>m. snd \<circ> mock_Send m) ms q) = mock_handlers q"
  by (induction ms arbitrary: q) (simp_all add: mock_Send_fields)

lemma mock_deliver_one_fields:
  "mock_handlers (mock_deliver_one react m q) = mock_handlers q"
  "mock_calls (mock_deliver_one react m q) = mock_calls q @
     (case HandleThreadMessage (fst (snd m)) (mock_handlers q) of None \<Rightarrow> []
      | Some h \<Rightarrow> [(fst m, h, fst (snd m), snd (snd m))])"
  by (auto simp: mock_deliver_one_def mock_Sends_fields Let_def split: prod.splits option.splits)

lemma mock_delivers_pending:
  "mock_calls (fold (mock_deliver_one react) ms q) = mock_calls q @
     concat (map (\<lambda>(t, type, d). case HandleThreadMessage type (mock_handlers q) of None \<Rightarrow> []
       | Some h \<Rightarrow> [(t, h, type, d)]) ms)"
  by (induction ms arbitrary: q) (auto simp: mock_deliver_one_fields split: option.splits)

section \<open>Properties\<close>

lemma tmq_run_reach: "tmq_run as s = Returned s' \<Longrightarrow> tmq_reach main s \<Longrightarrow> tmq_reach main s'"
  by (induction as s rule: tmq_run.induct) (auto intro: tmq_reach.step)

text \<open>
  Thread 1 is the main thread; thread 2 registers a handler, initialises its queue, waits in its
  loop, is sent a message and handles it.
\<close>

definition example_actions :: "tmq_action list" where
  "example_actions = [Register 7 90, Init 1, Init 2, StartLoop 2, DoSend 1 2 7 50, SendStep 1,
     LoopStep 2, LoopStep 2, LoopStep 2, LoopStep 2]"

definition example_process :: process where
  "example_process = \<lparr>handlers = [7 \<mapsto> 90], main_thread_id = 1,
     message_queues = (\<lambda>_. None)(1 \<mapsto> tsq_new 1, 2 \<mapsto> tsq_new 2),
     end_hooks = {2}, queue_mutex = None, looping = (\<lambda>_. LoopOut)(2 := LoopWait (Until kAndroidLoop_Exit)),
     sending = (\<lambda>_. SendOut), sent = [(2, \<lparr>message_type = 7, message_data = 50\<rparr>)],
     fates = [(2, \<lparr>message_type = 7, message_data = 50\<rparr>, Handled (Some 90))], refused = []\<rparr>"

lemma fun_upd_idem_SendOut: "(\<lambda>_. SendOut)(t := SendOut) = (\<lambda>_. SendOut)"
  by auto

lemma example_run: "tmq_run example_actions (process_init 1) = Returned example_process"
  by (simp add: example_actions_def example_process_def process_init_def process_ops queue_ops Let_def
      tmq_RegisterHandler_def HandleThreadMessage_def tmq_GetRegisteredHandler_def tmq_Invoke_def
      kAndroidLoop_Exit_def fun_upd_idem_SendOut fun_upd_twist)

text \<open>
  C4. Messages are delivered in order and exactly once: at every moment the messages that were
  queued for a thread are, in the order of the sends, those that have met their fate, those its
  loop is dispatching and those still in its queue.
\<close>

theorem tmq_fifo_exactly_once:
  assumes "tmq_reach main s"
  shows "sent_to t s = map fst (fates_of t s) @ local_of t s @ pending t s"
  using tmq_reach_inv [OF assms] by (simp add: fifo_inv_def)

theorem tmq_fifo_exactly_once_witness:
  "sent_to 2 example_process = map fst (fates_of 2 example_process) \<and>
   fates_of 2 example_process = [(\<lparr>message_type = 7, message_data = 50\<rparr>, Handled (Some 90))]"
  using tmq_fifo_exactly_once [OF tmq_run_reach [OF example_run tmq_reach.init], of 2]
  by (simp add: view_defs example_process_def tsq_new_def)

text \<open>
  C29. No message is left behind: when the loop of a thread is blocked in its wait and no sender
  can take another step, every message that was sent to the thread has met its fate.
\<close>

theorem tmq_waiting_loop_has_handled_all:
  assumes "tmq_reach main s" "looping s t = LoopWait mode" "tmq_exec (LoopStep t) s = Blocked"
    "sending s t = SendOut" "\<forall>u. tmq_exec (SendStep u) s = Blocked"
  shows "sent_to t s = map fst (fates_of t s)"
proof -
  from tmq_reach_inv [OF assms(1)] have F: "fifo_inv s" and L: "lock_inv s" and W: "wake_inv s" by auto
  from lock_invD(1) [OF L, of t] assms(2) obtain q where q: "message_queues s t = Some q" by auto
  have "\<not> tsq_event q"
    using assms(2,3,4) q by (auto simp: loop_step_def tsq_Wait_def)
  moreover have "\<not> signalled_soon t (sending s)"
  proof
    assume "signalled_soon t (sending s)"
    then obtain u where "sending s u = SendSignal t \<or> sending s u = StopSignal t"
      by (auto simp: signalled_soon_def)
    with assms(5) q show False by (auto simp: tmq_Send_signal_def Stop_signal_def dest!: spec [of _ u])
  qed
  ultimately have "pending t s = []"
    using wake_invD [OF W q] assms(2) q by (simp add: pending_def)
  moreover have "local_of t s = []" using assms(2) by (simp add: local_of_def)
  ultimately show ?thesis using F by (simp add: fifo_inv_def)
qed

theorem tmq_waiting_loop_has_handled_all_witness:
  "sent_to 2 example_process = map fst (fates_of 2 example_process)"
  by (rule tmq_waiting_loop_has_handled_all [OF tmq_run_reach [OF example_run tmq_reach.init]])
    (auto simp: example_process_def loop_step_def tsq_Wait_def tsq_new_def)

text \<open>
  The loop refines its specification on a batch of messages: it dispatches those before the
  first exit message in order, each to the handler of its type, and ends with the exit message; what
  is behind it in the batch is dropped without being handled. Without an exit message it
  dispatches all of them and waits again.
\<close>

theorem tmq_loop_dispatches_batch:
  assumes "looping s t = LoopDispatch (Until e) ms" "sending s t = SendOut"
  shows "\<exists>n. tmq_run (replicate n (LoopStep t)) s =
    Returned ((set_loop t (if \<exists>m \<in> set ms. message_type m = e then LoopOut else LoopWait (Until e)) s)
      \<lparr>fates := fates s @ batch_fates t e (handlers s) ms\<rparr>)"
  by (rule loop_dispatches_batch [OF assms])

theorem tmq_loop_dispatches_batch_witness:
  "\<exists>n s'. tmq_run (replicate n (LoopStep 2)) (set_loop 2 (LoopDispatch (Until 3)
      [\<lparr>message_type = 7, message_data = 1\<rparr>, \<lparr>message_type = 3, message_data = 0\<rparr>,
       \<lparr>message_type = 7, message_data = 2\<rparr>]) (process_init 1)) = Returned s' \<and>
    fates s' = [(2, \<lparr>message_type = 7, message_data = 1\<rparr>, Handled None),
      (2, \<lparr>message_type = 3, message_data = 0\<rparr>, ExitLoop),
      (2, \<lparr>message_type = 7, message_data = 2\<rparr>, Skipped)]"
proof -
  let ?ms = "[\<lparr>message_type = 7, message_data = 1\<rparr>, \<lparr>message_type = 3, message_data = 0\<rparr>,
       \<lparr>message_type = 7, message_data = 2\<rparr>]"
  let ?s = "set_loop 2 (LoopDispatch (Until 3) ?ms) (process_init 1)"
  have "looping ?s 2 = LoopDispatch (Until 3) ?ms" "sending ?s 2 = SendOut"
    by (simp_all add: set_loop_def process_init_def)
  from tmq_loop_dispatches_batch [OF this] obtain n where "tmq_run (replicate n (LoopStep 2)) ?s =
    Returned ((set_loop 2 (if \<exists>m \<in> set ?ms. message_type m = 3 then LoopOut else LoopWait (Until 3)) ?s)
      \<lparr>fates := fates ?s @ batch_fates 2 3 (handlers ?s) ?ms\<rparr>)" by blast
  then show ?thesis
    by (intro exI conjI, assumption)
      (simp add: batch_fates_def set_loop_def process_init_def HandleThreadMessage_def tmq_GetRegisteredHandler_def)
qed

text \<open>
  A call aborts in no other way than by naming a thread without a queue to \<open>Start\<close>,
  \<open>RunOnce\<close> or \<open>Stop\<close>, or by a \<open>Stop\<close> whose target has ended after the lookup of its queue;
  \<open>Send\<close> and the message loops never do.
\<close>

theorem tmq_aborts_only_without_queue:
  assumes "tmq_reach main s" "tmq_exec a s = Aborted"
  shows "\<exists>t. message_queues s t = None \<and>
    (a = StartLoop t \<or> a = StartOnce t \<or> (\<exists>u. a = DoStop u t) \<or>
     (\<exists>u. a = SendStep u \<and> (sending s u = StopPush t \<or> sending s u = StopSignal t)))"
proof -
  from tmq_reach_inv [OF assms(1)] have L: "lock_inv s" by blast
  show ?thesis
  proof (cases a)
    case (LoopStep t)
    with assms(2) lock_invD(1) [OF L, of t] show ?thesis
      by (auto simp: loop_step_def tsq_Wait_def Let_def PopMessages_def
        split: if_splits loop_pc.splits option.splits list.splits)
  next
    case (SendStep t)
    with assms(2) lock_invD(3) [OF L, of t] show ?thesis
      by (auto simp: process_ops split: if_splits send_pc.splits option.splits)
  qed (use assms(2) in \<open>auto simp: process_ops Let_def split: if_splits option.splits\<close>)
qed

theorem tmq_aborts_only_without_queue_witness:
  "\<exists>t. message_queues (process_init 1) t = None \<and> (StartLoop 5 = StartLoop t \<or> StartLoop 5 = StartOnce t)"
  using tmq_aborts_only_without_queue [OF tmq_reach.init, of "StartLoop 5" 1]
  by (simp add: process_init_def process_ops)

text \<open>
  \<open>Stop\<close> uses freed memory when two threads stop the same loop: the second stop has looked up
  the queue, the first one ends the loop and the thread, and the second one writes to the queue
  that the end of the thread has deleted.
\<close>

theorem tmq_stop_use_after_free:
  "tmq_run [Init 1, Init 2, Init 3, StartLoop 2, DoStop 1 2, DoStop 3 2, SendStep 1, SendStep 1,
     LoopStep 2, LoopStep 2, LoopStep 2, EndThread 2, SendStep 3] (process_init 1) = Aborted"
  by (simp add: process_init_def process_ops queue_ops Let_def kAndroidLoop_Exit_def)

end
