(* ===== verification/Threads.thy ===== *)
theory Threads
  imports MessageQueue "HOL-Library.Sublist"
begin

text \<open>
  Threads and the calls between them: \<open>Thread\<close> of \<open>src/common/thread.cc\<close> and
  \<open>src/common/thread_posix.cc\<close> with its protocol between the creating thread and the new one, and
  \<open>AsyncRouter\<close> of \<open>src/common/async_router.cc\<close>, which runs functors on another thread through
  the message queues.
\<close>

section \<open>Starting and joining a thread\<close>

text \<open>
  \<open>child_pc\<close> is where the new thread stands in \<open>ThreadMain\<close>; \<open>parent_pc\<close> where the creating
  thread stands: outside, in the wait of \<open>Start\<close>, after \<open>Start\<close> with its result, or in the
  \<open>pthread_join\<close> of \<open>Join\<close>.
\<close>

record Thread =
  th_is_running :: bool
  th_thread_id :: ThreadId
  th_started_event :: bool
  th_handle :: ThreadId

definition Thread_new :: Thread where
  "Thread_new = \<lparr>th_is_running = False, th_thread_id = 0, th_started_event = False, th_handle = 0\<rparr>"

datatype child_pc =
  NoChild | ChildInit | ChildSetId | ChildSetRunning | ChildSignal | ChildRun | ChildClear | ChildEnd

datatype parent_pc = ParentOut | ParentWait | ParentStarted ThreadId | ParentJoin

record thread_system =
  proc :: process
  th :: Thread
  child :: child_pc
  parent :: parent_pc

definition ThreadInternal_Start :: "ThreadId \<Rightarrow> bool \<Rightarrow> thread_system \<Rightarrow> (bool \<times> thread_system) os_result" where
  "ThreadInternal_Start cid created s =
     (if th_handle (th s) \<noteq> 0 then Aborted
      else if created
      then Returned (True, s\<lparr>th := (th s)\<lparr>th_handle := cid\<rparr>, child := ChildInit\<rparr>)
      else Returned (False, s\<lparr>th := (th s)\<lparr>th_handle := 0\<rparr>\<rparr>))"

definition Thread_Start :: "ThreadId \<Rightarrow> bool \<Rightarrow> thread_system \<Rightarrow> thread_system os_result" where
  "Thread_Start cid created s =
     (if th_is_running (th s) \<or> th_thread_id (th s) \<noteq> 0 then Aborted
      else os_bind (ThreadInternal_Start cid created s)
        (\<lambda>(ok, s1). if ok then Returned (s1\<lparr>parent := ParentWait\<rparr>)
                    else Returned (s1\<lparr>parent := ParentStarted 0\<rparr>)))"

definition Thread_Start_wait :: "thread_system \<Rightarrow> thread_system os_result" where
  "Thread_Start_wait s =
     (if \<not> th_started_event (th s) then Blocked
      else let s1 = s\<lparr>th := (th s)\<lparr>th_started_event := False\<rparr>\<rparr>
           in if th_thread_id (th s1) = 0 then Aborted
              else Returned (s1\<lparr>parent := ParentStarted (th_thread_id (th s1))\<rparr>))"

definition ThreadMain :: "ThreadId \<Rightarrow> thread_system \<Rightarrow> thread_system os_result" where
  "ThreadMain cid s =
     (case child s of
        NoChild \<Rightarrow> Blocked
      | ChildInit \<Rightarrow> os_bind (InitThreadMessageQueue cid (proc s))
          (\<lambda>p. Returned (s\<lparr>proc := p, child := ChildSetId\<rparr>))
      | ChildSetId \<Rightarrow> Returned (s\<lparr>th := (th s)\<lparr>th_thread_id := cid\<rparr>, child := ChildSetRunning\<rparr>)
      | ChildSetRunning \<Rightarrow> Returned (s\<lparr>th := (th s)\<lparr>th_is_running := True\<rparr>, child := ChildSignal\<rparr>)
      | ChildSignal \<Rightarrow> Returned (s\<lparr>th := (th s)\<lparr>th_started_event := True\<rparr>, child := ChildRun\<rparr>)
      | ChildRun \<Rightarrow>
          (if sending (proc s) cid = SendOut \<and> looping (proc s) cid = LoopOut
           then Returned (s\<lparr>child := ChildClear\<rparr>) else Blocked)
      | ChildClear \<Rightarrow> Returned (s\<lparr>th := (th s)\<lparr>th_is_running := False\<rparr>, child := ChildEnd\<rparr>)
      | ChildEnd \<Rightarrow>
          (if cid \<in> end_hooks (proc s)
           then os_bind (ThreadEndHook cid (proc s)) (\<lambda>p. Returned (s\<lparr>proc := p, child := NoChild\<rparr>))
           else Returned (s\<lparr>child := NoChild\<rparr>)))"

text \<open>
  \<open>Join\<close>, called by thread \<open>me\<close>; \<open>pthread_join\<close> returns when the thread has ended.
\<close>

definition Thread_Join :: "ThreadId \<Rightarrow> thread_system \<Rightarrow> thread_system os_result" where
  "Thread_Join me s =
     (if th_thread_id (th s) \<noteq> 0
      then if me = th_thread_id (th s) then Aborted
           else Returned (s\<lparr>parent := ParentJoin\<rparr>)
      else Returned (s\<lparr>parent := ParentOut\<rparr>))"

definition ThreadInternal_Join :: "thread_system \<Rightarrow> thread_system os_result" where
  "ThreadInternal_Join s =
     (if th_handle (th s) = 0 then Returned (s\<lparr>th := (th s)\<lparr>th_thread_id := 0\<rparr>, parent := ParentOut\<rparr>)
      else if child s \<noteq> NoChild then Blocked
      else Returned (s\<lparr>th := (th s)\<lparr>th_handle := 0, th_thread_id := 0\<rparr>, parent := ParentOut\<rparr>))"

definition Thread_destroy :: "thread_system \<Rightarrow> unit os_result" where
  "Thread_destroy s =
     (if th_is_running (th s) \<or> th_thread_id (th s) \<noteq> 0 \<or> th_handle (th s) \<noteq> 0 then Aborted else Returned ())"

text \<open>
  The runs: the creating thread starts and joins, the new thread runs \<open>ThreadMain\<close>, and any thread
  uses the message queues, the new one only while it is in \<open>Run\<close>. No other thread ends the queue
  of the new thread.
\<close>

fun acting :: "tmq_action \<Rightarrow> ThreadId option" where
  "acting (Register type h) = None"
| "acting (Init t) = Some t"
| "acting (DoSend t target type data) = Some t"
| "acting (DoStop t target) = Some t"
| "acting (SendStep t) = Some t"
| "acting (StartLoop t) = Some t"
| "acting (StartOnce t) = Some t"
| "acting (StartAsync t) = Some t"
| "acting (LoopStep t) = Some t"
| "acting (EndThread t) = Some t"

inductive thread_run :: "ThreadId \<Rightarrow> ThreadId \<Rightarrow> thread_system \<Rightarrow> bool" for me cid where
  init: "tmq_reach main p \<Longrightarrow> cid \<noteq> main \<Longrightarrow> message_queues p cid = None \<Longrightarrow>
    looping p cid = LoopOut \<Longrightarrow> sending p cid = SendOut \<Longrightarrow>
    thread_run me cid \<lparr>proc = p, th = Thread_new, child = NoChild, parent = ParentOut\<rparr>"
| start: "thread_run me cid s \<Longrightarrow> parent s = ParentOut \<Longrightarrow> Thread_Start cid created s = Returned s' \<Longrightarrow>
    thread_run me cid s'"
| started: "thread_run me cid s \<Longrightarrow> parent s = ParentWait \<Longrightarrow> Thread_Start_wait s = Returned s' \<Longrightarrow>
    thread_run me cid s'"
| join: "thread_run me cid s \<Longrightarrow> parent s = ParentStarted t \<Longrightarrow> Thread_Join me s = Returned s' \<Longrightarrow>
    thread_run me cid s'"
| joined: "thread_run me cid s \<Longrightarrow> parent s = ParentJoin \<Longrightarrow> ThreadInternal_Join s = Returned s' \<Longrightarrow>
    thread_run me cid s'"
| child: "thread_run me cid s \<Longrightarrow> ThreadMain cid s = Returned s' \<Longrightarrow> thread_run me cid s'"
| others: "thread_run me cid s \<Longrightarrow> acting a = Some cid \<longrightarrow> child s = ChildRun \<and> a \<noteq> EndThread cid \<Longrightarrow>
    tmq_exec a (proc s) = Returned p \<Longrightarrow> thread_run me cid (s\<lparr>proc := p\<rparr>)"


lemma tmq_exec_keeps_queue:
  assumes "tmq_exec a p = Returned p'" "a \<noteq> EndThread t" "message_queues p t \<noteq> None"
  shows "message_queues p' t \<noteq> None"
proof (cases a)
  case (LoopStep u)
  with assms show ?thesis
    by (auto simp: loop_step_def dispatch_one_def queue_ops
        split: if_splits loop_pc.splits list.splits option.splits)
next
  case (SendStep u)
  with assms show ?thesis
    by (auto simp: process_ops queue_ops split: send_pc.splits option.splits)
qed (use assms in \<open>auto simp: process_ops queue_ops Let_def split: if_splits option.splits\<close>)

lemma tmq_exec_other_thread:
  assumes "tmq_exec a p = Returned p'" "acting a \<noteq> Some t"
  shows "looping p' t = looping p t \<and> sending p' t = sending p t"
proof (cases a)
  case (LoopStep u)
  with assms show ?thesis
    by (auto simp: loop_step_def dispatch_one_def queue_ops
        split: if_splits loop_pc.splits list.splits option.splits)
next
  case (SendStep u)
  with assms show ?thesis
    by (auto simp: process_ops queue_ops split: send_pc.splits option.splits)
qed (use assms in \<open>auto simp: process_ops queue_ops Let_def split: if_splits option.splits\<close>)

fun before_signal :: "child_pc \<Rightarrow> bool" where
  "before_signal ChildInit = True" | "before_signal ChildSetId = True"
| "before_signal ChildSetRunning = True" | "before_signal ChildSignal = True"
| "before_signal _ = False"

fun has_queue :: "child_pc \<Rightarrow> bool" where
  "has_queue NoChild = False" | "has_queue ChildInit = False" | "has_queue _ = True"

fun has_id :: "child_pc \<Rightarrow> bool" where
  "has_id NoChild = False" | "has_id ChildInit = False" | "has_id ChildSetId = False" | "has_id _ = True"

definition thread_idle :: "thread_system \<Rightarrow> bool" where
  "thread_idle s \<longleftrightarrow> child s = NoChild \<and> th_thread_id (th s) = 0 \<and> th_handle (th s) = 0 \<and>
     \<not> th_started_event (th s)"

definition thread_alive :: "ThreadId \<Rightarrow> thread_system \<Rightarrow> bool" where
  "thread_alive cid s \<longleftrightarrow> th_thread_id (th s) = cid \<and> th_handle (th s) = cid \<and>
     \<not> th_started_event (th s) \<and> \<not> before_signal (child s)"

definition parent_inv :: "ThreadId \<Rightarrow> thread_system \<Rightarrow> bool" where
  "parent_inv cid s \<longleftrightarrow>
     (case parent s of
        ParentOut \<Rightarrow> thread_idle s
      | ParentWait \<Rightarrow> th_handle (th s) = cid \<and>
          (if before_signal (child s) then \<not> th_started_event (th s)
           else th_started_event (th s) \<and> th_thread_id (th s) = cid)
      | ParentStarted t \<Rightarrow> if t = 0 then thread_idle s else t = cid \<and> thread_alive cid s
      | ParentJoin \<Rightarrow> thread_alive cid s)"

definition child_inv :: "ThreadId \<Rightarrow> thread_system \<Rightarrow> bool" where
  "child_inv cid s \<longleftrightarrow>
     (has_id (child s) \<longrightarrow> th_thread_id (th s) = cid) \<and>
     (th_is_running (th s) \<longleftrightarrow> child s = ChildSignal \<or> child s = ChildRun \<or> child s = ChildClear) \<and>
     (has_queue (child s) \<longrightarrow> message_queues (proc s) cid \<noteq> None) \<and>
     (child s \<noteq> ChildRun \<longrightarrow> looping (proc s) cid = LoopOut \<and> sending (proc s) cid = SendOut)"

lemmas thread_inv_defs = parent_inv_def child_inv_def thread_idle_def thread_alive_def

lemma ThreadMain_child_inv:
  assumes inv: "child_inv cid s" and step: "ThreadMain cid s = Returned s'"
  shows "child_inv cid s'"
  using inv step
  by (cases "child s")
    (auto simp: ThreadMain_def child_inv_def process_ops Let_def split: if_splits)

lemma parent_inv_cong:
  "parent s' = parent s \<Longrightarrow> child s' = child s \<Longrightarrow> th_thread_id (th s') = th_thread_id (th s) \<Longrightarrow>
    th_handle (th s') = th_handle (th s) \<Longrightarrow> th_started_event (th s') = th_started_event (th s) \<Longrightarrow>
    parent_inv cid s' = parent_inv cid s"
  by (cases "parent s") (simp_all add: parent_inv_def thread_idle_def thread_alive_def)

lemma parent_inv_later:
  assumes "parent_inv cid s" "before_signal (child s) \<longleftrightarrow> before_signal pc" "child s \<noteq> NoChild"
  shows "parent_inv cid (s\<lparr>child := pc\<rparr>)"
  using assms by (cases "parent s") (auto simp: thread_inv_defs)

lemma parent_inv_before:
  assumes "parent_inv cid s" "before_signal (child s)"
  shows "parent s = ParentWait \<and> th_handle (th s) = cid \<and> \<not> th_started_event (th s)"
proof (cases "parent s")
  case (ParentStarted t)
  with assms show ?thesis by (cases "t = 0") (simp_all add: thread_inv_defs)
qed (use assms in \<open>simp_all add: thread_inv_defs\<close>)

lemma ThreadMain_parent_inv:
  assumes inv: "parent_inv cid s" "child_inv cid s" and step: "ThreadMain cid s = Returned s'"
  shows "parent_inv cid s'"
proof (cases "before_signal (child s)")
  case True
  note p = parent_inv_before [OF inv(1) True]
  show ?thesis
  proof (cases "child s = ChildSignal")
    case c: True
    with step have "s' = s\<lparr>th := (th s)\<lparr>th_started_event := True\<rparr>, child := ChildRun\<rparr>"
      by (simp add: ThreadMain_def)
    moreover have "th_thread_id (th s) = cid" using inv(2) c by (simp add: child_inv_def)
    ultimately show ?thesis using p by (simp add: parent_inv_def)
  next
    case False
    with True step have "parent s' = parent s" "th_handle (th s') = th_handle (th s)"
      "th_started_event (th s') = th_started_event (th s)" "before_signal (child s')"
      by (cases "child s"; auto simp: ThreadMain_def)+
    with p show ?thesis by (simp add: parent_inv_def)
  qed
next
  case False
  then obtain pc where "child s \<noteq> NoChild" "\<not> before_signal pc" "child s' = pc" "parent s' = parent s"
    "th_handle (th s') = th_handle (th s)" "th_started_event (th s') = th_started_event (th s)"
    "th_thread_id (th s') = th_thread_id (th s)"
    using step by (cases "child s") (auto simp: ThreadMain_def split: if_splits)
  with parent_inv_later [OF inv(1), of pc] False parent_inv_cong [of s' "s\<lparr>child := pc\<rparr>" cid]
  show ?thesis by simp
qed

lemma thread_run_inv:
  assumes "thread_run me cid s" "cid \<noteq> 0"
  shows "parent_inv cid s \<and> child_inv cid s"
  using assms(1)
proof (induction rule: thread_run.induct)
  case (init main p)
  then show ?case by (simp add: thread_inv_defs Thread_new_def)
next
  case (start s created s')
  then have "s' = (if created
      then s\<lparr>th := (th s)\<lparr>th_handle := cid\<rparr>, child := ChildInit, parent := ParentWait\<rparr>
      else s\<lparr>th := (th s)\<lparr>th_handle := 0\<rparr>, parent := ParentStarted 0\<rparr>)"
    by (cases created) (auto simp add: Thread_Start_def ThreadInternal_Start_def split: if_splits)
  with start show ?case by (auto simp: thread_inv_defs)
next
  case (started s s')
  then have ok: "th_started_event (th s)" "th_thread_id (th s) = cid" "th_handle (th s) = cid"
      "\<not> before_signal (child s)"
    by (auto simp: parent_inv_def Thread_Start_wait_def split: if_splits)
  with started assms(2) have "s' = s\<lparr>th := (th s)\<lparr>th_started_event := False\<rparr>, parent := ParentStarted cid\<rparr>"
    by (simp add: Thread_Start_wait_def)
  with started ok assms(2) show ?case by (simp add: thread_inv_defs)
next
  case (join s t s')
  show ?case
  proof (cases "t = 0")
    case True
    with join have "thread_idle s" by (simp add: parent_inv_def)
    moreover from this join(3) have "s' = s\<lparr>parent := ParentOut\<rparr>" by (simp add: Thread_Join_def thread_idle_def)
    ultimately show ?thesis using join.IH by (simp add: thread_inv_defs)
  next
    case False
    with join have "thread_alive cid s" by (simp add: parent_inv_def)
    moreover from this join(3) assms(2) have "s' = s\<lparr>parent := ParentJoin\<rparr>"
      by (simp add: Thread_Join_def thread_alive_def split: if_splits)
    ultimately show ?thesis using join.IH by (simp add: thread_inv_defs)
  qed
next
  case (joined s s')
  then show ?case using assms(2)
    by (auto simp: thread_inv_defs ThreadInternal_Join_def split: if_splits)
next
  case (child s s')
  then show ?case using ThreadMain_child_inv ThreadMain_parent_inv by blast
next
  case (others s a p)
  have 1: "message_queues p cid \<noteq> None" if "message_queues (proc s) cid \<noteq> None"
    using tmq_exec_keeps_queue [OF others(3) _ that] others(2) by (cases "a = EndThread cid") auto
  have 2: "looping p cid = LoopOut \<and> sending p cid = SendOut" if "child s \<noteq> ChildRun"
    using tmq_exec_other_thread [OF others(3), of cid] others(2) others.IH that
    by (auto simp: child_inv_def)
  have "parent_inv cid (s\<lparr>proc := p\<rparr>)"
    using others.IH parent_inv_cong [of "s\<lparr>proc := p\<rparr>" s cid] by simp
  moreover have "child_inv cid (s\<lparr>proc := p\<rparr>)"
    using others.IH 1 2 by (simp add: child_inv_def)
  ultimately show ?case by blast
qed


text \<open>
  Once \<open>Start\<close> has returned the id of the new thread, the thread accepts messages until it
  has ended: no \<open>Send\<close> to that id is refused. No assertion of \<open>Start\<close>, \<open>Join\<close> or the
  destructor fails when the creating thread starts, joins and destroys in this order.
\<close>

theorem thread_started_accepts_messages:
  assumes "thread_run me cid s" "cid \<noteq> 0" "me \<noteq> cid"
  shows "(\<forall>t u type data p. parent s = ParentStarted t \<longrightarrow> t \<noteq> 0 \<longrightarrow> child s \<noteq> NoChild \<longrightarrow>
      tmq_exec (DoSend u t type data) (proc s) = Returned p \<longrightarrow>
      sent p = sent (proc s) @ [(t, \<lparr>message_type = type, message_data = data\<rparr>)] \<and>
      refused p = refused (proc s)) \<and>
    (parent s = ParentOut \<longrightarrow> Thread_Start cid created s \<noteq> Aborted \<and> Thread_destroy s \<noteq> Aborted) \<and>
    (parent s = ParentWait \<longrightarrow> Thread_Start_wait s \<noteq> Aborted) \<and>
    (parent s = ParentStarted cid \<longrightarrow> Thread_Join me s \<noteq> Aborted)"
proof -
  from thread_run_inv [OF assms(1,2)] have P: "parent_inv cid s" and C: "child_inv cid s" by auto
  have "sent p = sent (proc s) @ [(t, \<lparr>message_type = type, message_data = data\<rparr>)] \<and>
      refused p = refused (proc s)"
    if *: "parent s = ParentStarted t" "t \<noteq> 0" "child s \<noteq> NoChild"
      "tmq_exec (DoSend u t type data) (proc s) = Returned p" for t u type data p
  proof -
    from P *(1,2) have t: "t = cid" "\<not> before_signal (child s)" by (simp_all add: thread_inv_defs)
    with C *(3) have "message_queues (proc s) cid \<noteq> None" by (cases "child s") (auto simp: child_inv_def)
    with *(4) t show ?thesis by (auto simp: process_ops queue_ops split: if_splits)
  qed
  moreover have "Thread_Start cid created s \<noteq> Aborted \<and> Thread_destroy s \<noteq> Aborted" if "parent s = ParentOut"
    using that P C by (simp add: thread_inv_defs Thread_Start_def ThreadInternal_Start_def Thread_destroy_def)
  moreover have "Thread_Start_wait s \<noteq> Aborted" if "parent s = ParentWait"
    using that P assms(2) by (auto simp: thread_inv_defs Thread_Start_wait_def Let_def split: if_splits)
  moreover have "Thread_Join me s \<noteq> Aborted" if "parent s = ParentStarted cid"
    using that P assms(2,3) by (simp add: thread_inv_defs Thread_Join_def)
  ultimately show ?thesis by blast
qed

lemma thread_example:
  "thread_run 1 2 \<lparr>proc = (process_init 1)\<lparr>end_hooks := {2}, message_queues := [2 \<mapsto> tsq_new 2]\<rparr>,
     th = \<lparr>th_is_running = True, th_thread_id = 2, th_started_event = False, th_handle = 2\<rparr>,
     child = ChildRun, parent = ParentStarted 2\<rparr>"
proof -
  let ?s0 = "\<lparr>proc = process_init 1, th = Thread_new, child = NoChild, parent = ParentOut\<rparr>"
  have "thread_run 1 2 ?s0"
    by (rule thread_run.init [OF tmq_reach.init]) (simp_all add: process_init_def)
  from thread_run.start [OF this, of True] have "thread_run 1 2 \<lparr>proc = process_init 1,
      th = Thread_new\<lparr>th_handle := 2\<rparr>, child = ChildInit, parent = ParentWait\<rparr>"
    by (simp add: Thread_Start_def ThreadInternal_Start_def Thread_new_def)
  from thread_run.child [OF this] have "thread_run 1 2 \<lparr>proc = (process_init 1)\<lparr>end_hooks := {2},
      message_queues := [2 \<mapsto> tsq_new 2]\<rparr>, th = Thread_new\<lparr>th_handle := 2\<rparr>,
      child = ChildSetId, parent = ParentWait\<rparr>"
    by (simp add: ThreadMain_def process_init_def process_ops Let_def)
  from thread_run.child [OF thread_run.child [OF thread_run.child [OF this]]] have
    "thread_run 1 2 \<lparr>proc = (process_init 1)\<lparr>end_hooks := {2}, message_queues := [2 \<mapsto> tsq_new 2]\<rparr>,
       th = \<lparr>th_is_running = True, th_thread_id = 2, th_started_event = True, th_handle = 2\<rparr>,
       child = ChildRun, parent = ParentWait\<rparr>"
    by (simp add: ThreadMain_def Thread_new_def)
  from thread_run.started [OF this] show ?thesis by (simp add: Thread_Start_wait_def)
qed

theorem thread_started_accepts_messages_witness:
  "\<exists>p. tmq_exec (DoSend 1 2 7 50) ((process_init 1)\<lparr>end_hooks := {2}, message_queues := [2 \<mapsto> tsq_new 2]\<rparr>) =
     Returned p \<and> sent p = [(2, \<lparr>message_type = 7, message_data = 50\<rparr>)]"
proof -
  let ?p = "(process_init 1)\<lparr>end_hooks := {2}, message_queues := [2 \<mapsto> tsq_new 2]\<rparr>"
  obtain p where p: "tmq_exec (DoSend 1 2 7 50) ?p = Returned p"
    by (simp add: process_init_def process_ops)
  with thread_started_accepts_messages [OF thread_example] have "sent p = sent ?p @ [(2, \<lparr>message_type = 7, message_data = 50\<rparr>)]"
    by auto
  with p show ?thesis by (simp add: process_init_def)
qed


section \<open>Calls on another thread\<close>

text \<open>
  \<open>AsyncRouter\<close> is the handler of two message types; a functor is the data of a message. The
  effects of handling one are recorded: the functor runs, and for a synchronous call the event the
  caller waits for is signalled.
\<close>

datatype functor_effect = RunFunctor nat | SignalHandledEvent nat

definition AsyncRouter_init :: "nat \<Rightarrow> thread_handlers \<Rightarrow> thread_handlers" where
  "AsyncRouter_init me hs =
     tmq_RegisterHandler kSyncRouter_Call me (tmq_RegisterHandler kAsyncRouter_Call me hs)"

definition CallAsync :: "ThreadId \<Rightarrow> ThreadId \<Rightarrow> nat \<Rightarrow> process \<Rightarrow> process os_result" where
  "CallAsync me thread_id functor s = tmq_exec (DoSend me thread_id kAsyncRouter_Call functor) s"

text \<open>
  \<open>CallSync\<close> up to its wait; \<open>functor\<close> stands for the functor and for the event on the stack of
  the caller that it points to.
\<close>

definition CallSync :: "ThreadId \<Rightarrow> ThreadId \<Rightarrow> nat \<Rightarrow> process \<Rightarrow> process os_result" where
  "CallSync me thread_id functor s = tmq_exec (DoSend me thread_id kSyncRouter_Call functor) s"

definition AsyncRouter_HandleThreadMessage :: "int \<Rightarrow> nat \<Rightarrow> functor_effect list option" where
  "AsyncRouter_HandleThreadMessage type functor =
     do { assert_that (type = kAsyncRouter_Call \<or> type = kSyncRouter_Call);
          Some (if type = kAsyncRouter_Call then [RunFunctor functor]
                else if type = kSyncRouter_Call then [RunFunctor functor, SignalHandledEvent functor]
                else []) }"

text \<open>What the router has done on thread \<open>t\<close>, from the messages it was called with.\<close>

definition router_effect :: "nat \<Rightarrow> Message \<times> fate \<Rightarrow> functor_effect list" where
  "router_effect router mf = (case mf of (m, f) \<Rightarrow>
     if f = Handled (Some router)
     then (case AsyncRouter_HandleThreadMessage (message_type m) (message_data m) of None \<Rightarrow> [] | Some es \<Rightarrow> es)
     else [])"

definition router_effects :: "nat \<Rightarrow> ThreadId \<Rightarrow> process \<Rightarrow> functor_effect list" where
  "router_effects router t s = concat (map (router_effect router) (fates_of t s))"

text \<open>The wait of \<open>CallSync\<close> ends when the event of its functor has been signalled.\<close>

definition CallSync_returns :: "nat \<Rightarrow> ThreadId \<Rightarrow> nat \<Rightarrow> process \<Rightarrow> bool" where
  "CallSync_returns router thread_id functor s \<longleftrightarrow>
     SignalHandledEvent functor \<in> set (router_effects router thread_id s)"

definition router_call :: "Message \<Rightarrow> bool" where
  "router_call m \<longleftrightarrow> message_type m = kAsyncRouter_Call \<or> message_type m = kSyncRouter_Call"

definition run_functors :: "functor_effect list \<Rightarrow> nat list" where
  "run_functors es = concat (map (\<lambda>e. case e of RunFunctor f \<Rightarrow> [f] | SignalHandledEvent f \<Rightarrow> []) es)"

lemma run_functors_simps [simp]:
  "run_functors [] = []" "run_functors (RunFunctor f # es) = f # run_functors es"
  "run_functors (SignalHandledEvent f # es) = run_functors es"
  "run_functors (es @ es') = run_functors es @ run_functors es'"
  by (simp_all add: run_functors_def)

lemma router_effect_simps:
  "f \<noteq> Handled (Some router) \<Longrightarrow> router_effect router (m, f) = []"
  "\<not> router_call m \<Longrightarrow> router_effect router (m, f) = []"
  "router_effect router (\<lparr>message_type = kAsyncRouter_Call, message_data = d\<rparr>, Handled (Some router)) = [RunFunctor d]"
  "router_effect router (\<lparr>message_type = kSyncRouter_Call, message_data = d\<rparr>, Handled (Some router)) =
     [RunFunctor d, SignalHandledEvent d]"
  by (auto simp: router_effect_def AsyncRouter_HandleThreadMessage_def router_call_def
      kAsyncRouter_Call_def kSyncRouter_Call_def)

lemma run_functors_router_effect:
  "run_functors (router_effect router (m, f)) =
    (if f = Handled (Some router) \<and> router_call m then [message_data m] else [])"
  by (auto simp: router_effect_def AsyncRouter_HandleThreadMessage_def router_call_def
      kAsyncRouter_Call_def kSyncRouter_Call_def)

lemma run_functors_fates:
  "run_functors (concat (map (router_effect router) mfs)) =
     map (message_data \<circ> fst) (filter (\<lambda>(m, f). f = Handled (Some router) \<and> router_call m) mfs)"
  by (induction mfs) (auto simp: run_functors_router_effect split: if_splits)

lemma signal_after_run:
  assumes "SignalHandledEvent f \<in> set (concat (map (router_effect router) mfs))"
  shows "f \<in> set (run_functors (concat (map (router_effect router) mfs)))"
  using assms
proof (induction mfs)
  case (Cons mf mfs)
  obtain m g where mf: "mf = (m, g)" by (cases mf)
  have "f \<in> set (run_functors (router_effect router mf))" if sig: "SignalHandledEvent f \<in> set (router_effect router mf)"
  proof -
    have g: "g = Handled (Some router)" using sig router_effect_simps(1) [of g router m] by (cases "g = Handled (Some router)") (auto simp: mf)
    moreover have c: "router_call m" using sig router_effect_simps(2) [of m router g] by (cases "router_call m") (auto simp: mf)
    ultimately show ?thesis using sig router_effect_simps(3,4) [of router "message_data m"]
      by (cases m) (auto simp: mf router_call_def)
  qed
  with Cons show ?case by auto
qed simp

lemma run_functors_subseq:
  "subseq (run_functors (concat (map (router_effect router) mfs))) (map message_data (filter router_call (map fst mfs)))"
proof -
  have "subseq (filter (\<lambda>(m, f). f = Handled (Some router) \<and> router_call m) mfs) (filter (\<lambda>(m, f). router_call m) mfs)"
  proof -
    have "filter (\<lambda>(m, f). f = Handled (Some router) \<and> router_call m) mfs =
        filter (\<lambda>(m, f). f = Handled (Some router)) (filter (\<lambda>(m, f). router_call m) mfs)"
      by (induction mfs) auto
    then show ?thesis by (simp only: subseq_filter_left)
  qed
  moreover have "map message_data (filter router_call (map fst mfs)) =
      map (message_data \<circ> fst) (filter (\<lambda>(m, f). router_call m) mfs)"
    by (induction mfs) auto
  ultimately show ?thesis by (simp add: run_functors_fates subseq_map)
qed

text \<open>
  The functors that are called on a thread run there in the order of the calls, each at most
  once per call, and a synchronous call returns only after its functor has run.
\<close>

theorem router_runs_in_order:
  assumes "tmq_reach main s"
  shows "subseq (run_functors (router_effects router t s))
      (map message_data (filter router_call (sent_to t s))) \<and>
    (CallSync_returns router t functor s \<longrightarrow> functor \<in> set (run_functors (router_effects router t s)))"
proof -
  from tmq_reach_inv [OF assms] have "sent_to t s = map fst (fates_of t s) @ local_of t s @ pending t s"
    by (simp add: fifo_inv_def)
  then have "map message_data (filter router_call (sent_to t s)) =
      map message_data (filter router_call (map fst (fates_of t s))) @
      map message_data (filter router_call (local_of t s @ pending t s))" by simp
  then have "subseq (run_functors (router_effects router t s)) (map message_data (filter router_call (sent_to t s)))"
    using list_emb_prefix [OF run_functors_subseq] by (simp only: router_effects_def)
  with signal_after_run show ?thesis by (simp add: CallSync_returns_def router_effects_def)
qed

definition sync_call_actions :: "tmq_action list" where
  "sync_call_actions = [Register kSyncRouter_Call 90, Init 1, Init 2, StartLoop 2,
     DoSend 1 2 kSyncRouter_Call 50, SendStep 1, LoopStep 2, LoopStep 2, LoopStep 2]"

lemma sync_call_run:
  "\<exists>s. tmq_run sync_call_actions (process_init 1) = Returned s \<and>
    router_effects 90 2 s = [RunFunctor 50, SignalHandledEvent 50]"
  by (simp add: sync_call_actions_def process_init_def process_ops queue_ops Let_def router_effects_def fates_of_def
      tmq_RegisterHandler_def HandleThreadMessage_def tmq_GetRegisteredHandler_def tmq_Invoke_def
      kAndroidLoop_Exit_def kSyncRouter_Call_def kAsyncRouter_Call_def router_effect_def
      AsyncRouter_HandleThreadMessage_def)

theorem router_runs_in_order_witness:
  "\<exists>s. tmq_run sync_call_actions (process_init 1) = Returned s \<and> CallSync_returns 90 2 50 s \<and>
    50 \<in> set (run_functors (router_effects 90 2 s))"
proof -
  from sync_call_run obtain s where s: "tmq_run sync_call_actions (process_init 1) = Returned s"
    "router_effects 90 2 s = [RunFunctor 50, SignalHandledEvent 50]" by blast
  from router_runs_in_order [OF tmq_run_reach [OF s(1) tmq_reach.init], of 90 2 50] s show ?thesis
    by (auto simp: CallSync_returns_def)
qed

text \<open>
  A synchronous call that was accepted may never return: when the target takes the message in
  the same batch behind an exit message, the functor is deleted without being run and its event is
  not signalled; the target has no message left and has ended.
\<close>

theorem sync_call_never_returns:
  "\<exists>s. tmq_run [Register kSyncRouter_Call 90, Init 1, Init 2, Init 3, StartLoop 2, DoStop 3 2, SendStep 3,
      SendStep 3, DoSend 1 2 kSyncRouter_Call 50, SendStep 1, LoopStep 2, LoopStep 2, LoopStep 2,
      EndThread 2] (process_init 1) = Returned s \<and>
    fates_of 2 s = [(\<lparr>message_type = kAndroidLoop_Exit, message_data = 0\<rparr>, ExitLoop),
      (\<lparr>message_type = kSyncRouter_Call, message_data = 50\<rparr>, Skipped)] \<and>
    \<not> CallSync_returns 90 2 50 s \<and> refused s = [] \<and> message_queues s 2 = None"
  by (simp add: process_init_def process_ops queue_ops Let_def router_effects_def fates_of_def
      kAndroidLoop_Exit_def router_effect_simps CallSync_returns_def)

end
