(* ===== verification/TimedCalls.thy ===== *)
theory TimedCalls
  imports Prelude
begin

text \<open>
  Timed calls: \<open>TimedCall\<close>, \<open>TimerSingleton\<close> and the \<open>PlatformTimer\<close> over GLib of
  \<open>src/common/timed_call.cc\<close>. All timers of the thread share one timer of the platform. Timers are
  objects with an address; the use of a deleted one has no result. The readings of the clock are a
  function of their number, and what a callback does to the timers is a parameter: the list of
  timers it creates and deletes.
\<close>

section \<open>Operations\<close>

text \<open>Sums of times wrap in an \<open>int64\<close>.\<close>

definition to_int64 :: "int \<Rightarrow> int" where
  "to_int64 x = sint (word_of_int x :: int64)"

record TimedCall =
  tc_delay :: int
  tc_repeat :: bool
  tc_deadline :: int
  tc_callback :: nat
  tc_parameter :: nat

text \<open>
  The timer of the platform: the id that \<open>PlatformTimer\<close> keeps, and the sources of the GLib main
  loop with the delay they were added with.
\<close>

record PlatformTimer =
  timer_id :: nat
  sources :: "(nat \<times> int) list"
  next_source :: nat

record timers =
  calls :: "nat \<Rightarrow> TimedCall option"
  timer_queue :: "nat list"
  platform_timer :: PlatformTimer
  clock_reads :: nat
  fired :: "(nat \<times> nat) list"

definition timers_new :: timers where
  "timers_new = \<lparr>calls = (\<lambda>_. None), timer_queue = [],
     platform_timer = \<lparr>timer_id = 0, sources = [], next_source = 1\<rparr>, clock_reads = 0, fired = []\<rparr>"

definition read_clock :: "(nat \<Rightarrow> int) \<Rightarrow> timers \<Rightarrow> int \<times> timers" where
  "read_clock clock s = (clock (clock_reads s), s\<lparr>clock_reads := clock_reads s + 1\<rparr>)"

subsection \<open>The timer of the platform\<close>

definition g_source_remove :: "nat \<Rightarrow> PlatformTimer \<Rightarrow> PlatformTimer" where
  "g_source_remove i p = p\<lparr>sources := filter (\<lambda>(j, d). j \<noteq> i) (sources p)\<rparr>"

definition g_timeout_add :: "int \<Rightarrow> PlatformTimer \<Rightarrow> nat \<times> PlatformTimer" where
  "g_timeout_add d p =
     (next_source p, p\<lparr>sources := sources p @ [(next_source p, d)], next_source := next_source p + 1\<rparr>)"

definition PlatformTimer_Cancel :: "PlatformTimer \<Rightarrow> PlatformTimer" where
  "PlatformTimer_Cancel p =
     (if timer_id p \<noteq> 0 then (g_source_remove (timer_id p) p)\<lparr>timer_id := 0\<rparr> else p)"

definition SetNextFire :: "int \<Rightarrow> PlatformTimer \<Rightarrow> PlatformTimer" where
  "SetNextFire timeout0 p0 =
     (let p = PlatformTimer_Cancel p0;
          timeout1 = (if timeout0 > 0x7FFFFFFF then 0x7FFFFFFF else timeout0);
          timeout2 = (if timeout1 < 0x0000000A then 0x0000000A else timeout1);
          (source_id, p') = g_timeout_add timeout2 p
      in p')"

subsection \<open>The queue\<close>

text \<open>
  A \<open>std::set\<close> with the order \<open>TimedCallPtrLessThan\<close>, as the list of its elements. A search in
  it reads the deadlines of its elements, which therefore have to exist.
\<close>

definition deadline_of :: "timers \<Rightarrow> nat \<Rightarrow> int" where
  "deadline_of s a = tc_deadline (the (calls s a))"

definition TimedCallPtrLessThan :: "timers \<Rightarrow> nat \<Rightarrow> nat \<Rightarrow> bool" where
  "TimedCallPtrLessThan s a b =
     (if deadline_of s a \<noteq> deadline_of s b then deadline_of s a < deadline_of s b else a < b)"

fun set_insert :: "(nat \<Rightarrow> nat \<Rightarrow> bool) \<Rightarrow> nat \<Rightarrow> nat list \<Rightarrow> nat list" where
  "set_insert lt x [] = [x]"
| "set_insert lt x (y # ys) =
     (if lt x y then x # y # ys else if lt y x then y # set_insert lt x ys else y # ys)"

fun set_erase :: "(nat \<Rightarrow> nat \<Rightarrow> bool) \<Rightarrow> nat \<Rightarrow> nat list \<Rightarrow> nat list" where
  "set_erase lt x [] = []"
| "set_erase lt x (y # ys) = (if \<not> lt x y \<and> \<not> lt y x then ys else y # set_erase lt x ys)"

definition live :: "timers \<Rightarrow> nat \<Rightarrow> bool" where
  "live s a \<longleftrightarrow> calls s a \<noteq> None"

definition queue_insert :: "nat \<Rightarrow> timers \<Rightarrow> timers option" where
  "queue_insert a s = do {
     assert_that (list_all (live s) (a # timer_queue s));
     Some (s\<lparr>timer_queue := set_insert (TimedCallPtrLessThan s) a (timer_queue s)\<rparr>) }"

definition queue_erase :: "nat \<Rightarrow> timers \<Rightarrow> timers option" where
  "queue_erase a s = do {
     assert_that (list_all (live s) (a # timer_queue s));
     Some (s\<lparr>timer_queue := set_erase (TimedCallPtrLessThan s) a (timer_queue s)\<rparr>) }"

definition RearmTimer :: "(nat \<Rightarrow> int) \<Rightarrow> timers \<Rightarrow> timers option" where
  "RearmTimer clock s =
     (case timer_queue s of
        [] \<Rightarrow> Some (s\<lparr>platform_timer := PlatformTimer_Cancel (platform_timer s)\<rparr>)
      | a # _ \<Rightarrow> do {
          c \<leftarrow> calls s a;
          let (now, s1) = read_clock clock s;
          let next_fire = to_int64 (tc_deadline c - now);
          Some (s1\<lparr>platform_timer :=
            SetNextFire (if next_fire < 0 then 0 else next_fire) (platform_timer s1)\<rparr>) })"

definition TimerSingleton_Insert :: "(nat \<Rightarrow> int) \<Rightarrow> nat \<Rightarrow> timers \<Rightarrow> timers option" where
  "TimerSingleton_Insert clock a s = do { s1 \<leftarrow> queue_insert a s; RearmTimer clock s1 }"

definition TimerSingleton_Erase :: "(nat \<Rightarrow> int) \<Rightarrow> nat \<Rightarrow> timers \<Rightarrow> timers option" where
  "TimerSingleton_Erase clock a s = do { s1 \<leftarrow> queue_erase a s; RearmTimer clock s1 }"

subsection \<open>Timed calls\<close>

text \<open>The constructor at a fresh address, and the destructor.\<close>

definition TimedCall_new ::
    "(nat \<Rightarrow> int) \<Rightarrow> nat \<Rightarrow> int \<Rightarrow> bool \<Rightarrow> nat \<Rightarrow> nat \<Rightarrow> timers \<Rightarrow> timers option" where
  "TimedCall_new clock a delay_millis repeat callback callback_parameter s = do {
     assert_that (calls s a = None);
     let (now, s1) = read_clock clock s;
     let c = \<lparr>tc_delay = delay_millis, tc_repeat = repeat, tc_deadline = to_int64 (now + delay_millis),
              tc_callback = callback, tc_parameter = callback_parameter\<rparr>;
     assert_that (callback \<noteq> 0);
     TimerSingleton_Insert clock a (s1\<lparr>calls := (calls s1)(a \<mapsto> c)\<rparr>) }"

definition TimedCall_Cancel :: "(nat \<Rightarrow> int) \<Rightarrow> nat \<Rightarrow> timers \<Rightarrow> timers option" where
  "TimedCall_Cancel clock a s = TimerSingleton_Erase clock a s"

definition TimedCall_delete :: "(nat \<Rightarrow> int) \<Rightarrow> nat \<Rightarrow> timers \<Rightarrow> timers option" where
  "TimedCall_delete clock a s = do {
     assert_that (live s a);
     s1 \<leftarrow> TimedCall_Cancel clock a s;
     Some (s1\<lparr>calls := (calls s1)(a := None)\<rparr>) }"

datatype timer_op = NewTimer nat int bool nat nat | DeleteTimer nat

fun run_timer_op :: "(nat \<Rightarrow> int) \<Rightarrow> timer_op \<Rightarrow> timers \<Rightarrow> timers option" where
  "run_timer_op clock (NewTimer a delay_millis repeat callback callback_parameter) s =
     TimedCall_new clock a delay_millis repeat callback callback_parameter s"
| "run_timer_op clock (DeleteTimer a) s = TimedCall_delete clock a s"

fun run_timer_ops :: "(nat \<Rightarrow> int) \<Rightarrow> timer_op list \<Rightarrow> timers \<Rightarrow> timers option" where
  "run_timer_ops clock [] s = Some s"
| "run_timer_ops clock (t # ts) s = do { s1 \<leftarrow> run_timer_op clock t s; run_timer_ops clock ts s1 }"

text \<open>\<open>on_fire\<close> gives what a callback does, by its address, its parameter and the timers.\<close>

type_synonym callbacks = "nat \<Rightarrow> nat \<Rightarrow> timers \<Rightarrow> timer_op list"

definition TimedCall_Fire :: "(nat \<Rightarrow> int) \<Rightarrow> callbacks \<Rightarrow> nat \<Rightarrow> timers \<Rightarrow> timers option" where
  "TimedCall_Fire clock on_fire a s = do {
     c \<leftarrow> calls s a;
     s2 \<leftarrow> (if tc_repeat c then do {
              let (now, s1) = read_clock clock s;
              TimerSingleton_Insert clock a
                (s1\<lparr>calls := (calls s1)(a \<mapsto> c\<lparr>tc_deadline := to_int64 (now + tc_delay c)\<rparr>)\<rparr>) }
            else Some s);
     if tc_callback c \<noteq> 0
     then let s3 = s2\<lparr>fired := fired s2 @ [(a, tc_parameter c)]\<rparr>
          in run_timer_ops clock (on_fire (tc_callback c) (tc_parameter c) s3) s3
     else Some s2 }"

text \<open>The loop of \<open>TimerSingleton::Callback\<close> over the copy of the queue.\<close>

fun fire_loop :: "(nat \<Rightarrow> int) \<Rightarrow> callbacks \<Rightarrow> int \<Rightarrow> nat list \<Rightarrow> timers \<Rightarrow> timers option" where
  "fire_loop clock on_fire now [] s = Some s"
| "fire_loop clock on_fire now (a # current) s = do {
     c \<leftarrow> calls s a;
     if tc_deadline c \<le> now then do {
       s1 \<leftarrow> queue_erase a s;
       s2 \<leftarrow> TimedCall_Fire clock on_fire a s1;
       fire_loop clock on_fire now current s2 }
     else Some s }"

definition TimerSingleton_Callback :: "(nat \<Rightarrow> int) \<Rightarrow> callbacks \<Rightarrow> timers \<Rightarrow> timers option" where
  "TimerSingleton_Callback clock on_fire s = do {
     let (now, s1) = read_clock clock s;
     s2 \<leftarrow> fire_loop clock on_fire now (timer_queue s1) s1;
     RearmTimer clock s2 }"

text \<open>A source of the main loop fires; it is removed because \<open>OnTimer\<close> returns false.\<close>

definition OnTimer :: "(nat \<Rightarrow> int) \<Rightarrow> callbacks \<Rightarrow> nat \<Rightarrow> timers \<Rightarrow> timers option" where
  "OnTimer clock on_fire i s = do {
     assert_that (i \<in> fst ` set (sources (platform_timer s)));
     TimerSingleton_Callback clock on_fire
       (s\<lparr>platform_timer := g_source_remove i (platform_timer s)\<rparr>) }"

section \<open>The order of the queue\<close>

lemma TimedCallPtrLessThan_total: "a = b \<or> TimedCallPtrLessThan s a b \<or> TimedCallPtrLessThan s b a"
  by (auto simp: TimedCallPtrLessThan_def)

lemma TimedCallPtrLessThan_trans:
  "TimedCallPtrLessThan s a b \<Longrightarrow> TimedCallPtrLessThan s b c \<Longrightarrow> TimedCallPtrLessThan s a c"
  by (auto simp: TimedCallPtrLessThan_def split: if_splits)

lemma TimedCallPtrLessThan_irrefl [simp]: "\<not> TimedCallPtrLessThan s a a"
  by (simp add: TimedCallPtrLessThan_def)

lemma TimedCallPtrLessThan_asym: "TimedCallPtrLessThan s a b \<Longrightarrow> \<not> TimedCallPtrLessThan s b a"
  by (auto simp: TimedCallPtrLessThan_def split: if_splits)

lemma set_set_insert [simp]: "set (set_insert (TimedCallPtrLessThan s) x q) = insert x (set q)"
  by (induction q) (use TimedCallPtrLessThan_total in auto)

lemma sorted_set_insert:
  "sorted_wrt (TimedCallPtrLessThan s) q \<Longrightarrow> sorted_wrt (TimedCallPtrLessThan s) (set_insert (TimedCallPtrLessThan s) x q)"
  by (induction q) (auto dest: TimedCallPtrLessThan_trans)

lemma set_erase_filter:
  "sorted_wrt (TimedCallPtrLessThan s) q \<Longrightarrow>
     set_erase (TimedCallPtrLessThan s) x q = filter (\<lambda>y. y \<noteq> x) q"
proof (induction q)
  case (Cons y q)
  then show ?case
    using TimedCallPtrLessThan_total [of x y s]
    by (auto intro!: filter_True [symmetric])
qed simp

lemma sorted_wrt_filter_neq: "sorted_wrt P q \<Longrightarrow> sorted_wrt P (filter Q q)"
  by (induction q) auto

lemma sorted_distinct: "sorted_wrt (TimedCallPtrLessThan s) q \<Longrightarrow> distinct q"
  by (induction q) auto

text \<open>The invariant: the timers in the queue exist and are in the order of their deadlines.\<close>

definition queue_ok :: "timers \<Rightarrow> bool" where
  "queue_ok s \<longleftrightarrow> list_all (live s) (timer_queue s) \<and> sorted_wrt (TimedCallPtrLessThan s) (timer_queue s)"

lemma less_cong: "calls s' a = calls s a \<Longrightarrow> calls s' b = calls s b \<Longrightarrow>
    TimedCallPtrLessThan s' a b = TimedCallPtrLessThan s a b"
  by (simp add: TimedCallPtrLessThan_def deadline_of_def)

lemma queue_ok_cong:
  assumes "queue_ok s" "timer_queue s' = timer_queue s" "\<forall>a\<in>set (timer_queue s). calls s' a = calls s a"
  shows "queue_ok s'"
proof -
  have "sorted_wrt (TimedCallPtrLessThan s') (timer_queue s)"
  proof (rule sorted_wrt_mono_rel [of _ "TimedCallPtrLessThan s"])
    show "TimedCallPtrLessThan s' a b"
      if "a \<in> set (timer_queue s)" "b \<in> set (timer_queue s)" "TimedCallPtrLessThan s a b" for a b
      using that assms(3) less_cong [of s' a s b] by simp
    show "sorted_wrt (TimedCallPtrLessThan s) (timer_queue s)" using assms(1) by (simp add: queue_ok_def)
  qed
  with assms show ?thesis by (auto simp: queue_ok_def list_all_iff live_def)
qed

lemma queue_insert_ok:
  assumes "queue_ok s" "live s a"
  shows "\<exists>s'. queue_insert a s = Some s' \<and> queue_ok s' \<and> calls s' = calls s \<and>
    set (timer_queue s') = insert a (set (timer_queue s)) \<and> fired s' = fired s \<and>
    clock_reads s' = clock_reads s \<and> platform_timer s' = platform_timer s"
proof -
  let ?s = "s\<lparr>timer_queue := set_insert (TimedCallPtrLessThan s) a (timer_queue s)\<rparr>"
  have less: "TimedCallPtrLessThan ?s = TimedCallPtrLessThan s"
    by (intro ext less_cong) simp_all
  have "queue_ok ?s"
    using assms unfolding queue_ok_def less by (auto simp: sorted_set_insert list_all_iff live_def)
  with assms show ?thesis by (auto simp: queue_insert_def queue_ok_def list_all_iff)
qed

lemma queue_erase_ok:
  assumes "queue_ok s" "live s a"
  shows "\<exists>s'. queue_erase a s = Some s' \<and> queue_ok s' \<and> calls s' = calls s \<and>
    timer_queue s' = filter (\<lambda>b. b \<noteq> a) (timer_queue s) \<and> fired s' = fired s \<and>
    clock_reads s' = clock_reads s \<and> platform_timer s' = platform_timer s"
proof -
  let ?s = "s\<lparr>timer_queue := set_erase (TimedCallPtrLessThan s) a (timer_queue s)\<rparr>"
  have less: "TimedCallPtrLessThan ?s = TimedCallPtrLessThan s"
    by (intro ext less_cong) simp_all
  have q: "timer_queue ?s = filter (\<lambda>b. b \<noteq> a) (timer_queue s)"
    using assms(1) by (simp add: queue_ok_def set_erase_filter)
  have "queue_ok ?s"
    using assms(1) unfolding queue_ok_def less q
    by (auto simp: list_all_iff live_def intro: sorted_wrt_filter_neq)
  with q assms show ?thesis by (auto simp: queue_erase_def queue_ok_def list_all_iff)
qed


section \<open>The operations keep the invariant\<close>

text \<open>Every timer has a callback.\<close>

definition timers_ok :: "timers \<Rightarrow> bool" where
  "timers_ok s \<longleftrightarrow> queue_ok s \<and> (\<forall>a c. calls s a = Some c \<longrightarrow> tc_callback c \<noteq> 0)"

text \<open>
  A source of the main loop is waiting for the first timer of the queue, with the delay that was
  left when the clock was last read, within the bounds of \<open>SetNextFire\<close>.
\<close>

definition rearmed :: "(nat \<Rightarrow> int) \<Rightarrow> timers \<Rightarrow> bool" where
  "rearmed clock s \<longleftrightarrow> (case timer_queue s of [] \<Rightarrow> True
     | a # _ \<Rightarrow> min 0x7FFFFFFF (max 10 (to_int64 (deadline_of s a - clock (clock_reads s - 1))))
                \<in> snd ` set (sources (platform_timer s)))"

lemma SetNextFire_source: "min 0x7FFFFFFF (max 10 d) \<in> snd ` set (sources (SetNextFire d p))"
  by (auto simp: SetNextFire_def g_timeout_add_def Let_def image_iff)

lemma min_max_zero: "min (0x7FFFFFFF :: int) (max 10 (if d < 0 then 0 else d)) = min 0x7FFFFFFF (max 10 d)"
  by auto

lemma RearmTimer_ok:
  assumes "timers_ok s"
  shows "\<exists>s'. RearmTimer clock s = Some s' \<and> timers_ok s' \<and> rearmed clock s' \<and>
    calls s' = calls s \<and> timer_queue s' = timer_queue s \<and> fired s' = fired s"
proof (cases "timer_queue s")
  case Nil
  let ?s = "s\<lparr>platform_timer := PlatformTimer_Cancel (platform_timer s)\<rparr>"
  have "queue_ok ?s" by (rule queue_ok_cong [of s]) (use assms in \<open>simp_all add: timers_ok_def\<close>)
  with Nil assms show ?thesis by (auto simp: RearmTimer_def timers_ok_def rearmed_def)
next
  case (Cons a rest)
  with assms obtain c where c: "calls s a = Some c" by (auto simp: timers_ok_def queue_ok_def live_def)
  define d where "d = to_int64 (tc_deadline c - clock (clock_reads s))"
  let ?s = "s\<lparr>clock_reads := clock_reads s + 1,
      platform_timer := SetNextFire (if d < 0 then 0 else d) (platform_timer s)\<rparr>"
  have "RearmTimer clock s = Some ?s"
    by (simp add: RearmTimer_def Cons c read_clock_def d_def Let_def)
  moreover have "queue_ok ?s" by (rule queue_ok_cong [of s]) (use assms in \<open>simp_all add: timers_ok_def\<close>)
  moreover have "rearmed clock ?s"
    using SetNextFire_source [of "if d < 0 then 0 else d" "platform_timer s"]
    unfolding min_max_zero by (simp add: rearmed_def Cons deadline_of_def c d_def)
  ultimately show ?thesis using assms by (auto simp: timers_ok_def)
qed

lemma Insert_ok:
  assumes "timers_ok s" "live s a"
  shows "\<exists>s'. TimerSingleton_Insert clock a s = Some s' \<and> timers_ok s' \<and> rearmed clock s' \<and>
    calls s' = calls s \<and> set (timer_queue s') = insert a (set (timer_queue s)) \<and> fired s' = fired s"
proof -
  obtain s1 where s1: "queue_insert a s = Some s1" "queue_ok s1" "calls s1 = calls s"
    "set (timer_queue s1) = insert a (set (timer_queue s))" "fired s1 = fired s"
    using queue_insert_ok [of s a] assms by (auto simp: timers_ok_def)
  then have "timers_ok s1" using assms by (simp add: timers_ok_def)
  from RearmTimer_ok [OF this, of clock] s1 show ?thesis by (auto simp: TimerSingleton_Insert_def)
qed

lemma Erase_ok:
  assumes "timers_ok s" "live s a"
  shows "\<exists>s'. TimerSingleton_Erase clock a s = Some s' \<and> timers_ok s' \<and> rearmed clock s' \<and>
    calls s' = calls s \<and> timer_queue s' = filter (\<lambda>b. b \<noteq> a) (timer_queue s) \<and> fired s' = fired s"
proof -
  obtain s1 where s1: "queue_erase a s = Some s1" "queue_ok s1" "calls s1 = calls s"
    "timer_queue s1 = filter (\<lambda>b. b \<noteq> a) (timer_queue s)" "fired s1 = fired s"
    using queue_erase_ok [of s a] assms by (auto simp: timers_ok_def)
  then have "timers_ok s1" using assms by (simp add: timers_ok_def)
  from RearmTimer_ok [OF this, of clock] s1 show ?thesis by (auto simp: TimerSingleton_Erase_def)
qed

text \<open>A timer outside the queue may change, or appear.\<close>

lemma timers_ok_update:
  assumes "timers_ok s" "a \<notin> set (timer_queue s)" "tc_callback c \<noteq> 0"
    "calls s' = (calls s)(a \<mapsto> c)" "timer_queue s' = timer_queue s"
  shows "timers_ok s'"
proof -
  have "queue_ok s'" by (rule queue_ok_cong [of s]) (use assms in \<open>auto simp: timers_ok_def\<close>)
  with assms show ?thesis by (auto simp: timers_ok_def)
qed

lemma live_in_queue: "timers_ok s \<Longrightarrow> a \<in> set (timer_queue s) \<Longrightarrow> live s a"
  by (simp add: timers_ok_def queue_ok_def list_all_iff)

lemma TimedCall_new_ok:
  assumes "timers_ok s" "calls s a = None" "cb \<noteq> 0"
  shows "\<exists>s' c. TimedCall_new clock a d rep cb p s = Some s' \<and> timers_ok s' \<and> rearmed clock s' \<and>
    c = \<lparr>tc_delay = d, tc_repeat = rep, tc_deadline = to_int64 (clock (clock_reads s) + d),
         tc_callback = cb, tc_parameter = p\<rparr> \<and>
    calls s' = (calls s)(a \<mapsto> c) \<and> set (timer_queue s') = insert a (set (timer_queue s)) \<and> fired s' = fired s"
proof -
  let ?c = "\<lparr>tc_delay = d, tc_repeat = rep, tc_deadline = to_int64 (clock (clock_reads s) + d),
      tc_callback = cb, tc_parameter = p\<rparr>"
  let ?s = "s\<lparr>clock_reads := clock_reads s + 1, calls := (calls s)(a \<mapsto> ?c)\<rparr>"
  have "a \<notin> set (timer_queue s)"
  proof
    assume "a \<in> set (timer_queue s)"
    with live_in_queue [OF assms(1), of a] assms(2) show False by (simp add: live_def)
  qed
  with assms have "timers_ok ?s" by (intro timers_ok_update [of s a ?c ?s]) simp_all
  from Insert_ok [OF this, of a clock] obtain s' where
    "TimerSingleton_Insert clock a ?s = Some s'" "timers_ok s'" "rearmed clock s'" "calls s' = calls ?s"
    "set (timer_queue s') = insert a (set (timer_queue ?s))" "fired s' = fired ?s"
    by (auto simp: live_def)
  with assms show ?thesis by (auto simp: TimedCall_new_def read_clock_def Let_def)
qed

lemma TimedCall_new_Some:
  "TimedCall_new clock a d rep cb p s = Some s' \<Longrightarrow> calls s a = None \<and> cb \<noteq> 0"
  by (auto simp: TimedCall_new_def bind_eq_Some_conv read_clock_def Let_def)

lemma TimedCall_delete_ok:
  assumes "timers_ok s" "live s a"
  shows "\<exists>s'. TimedCall_delete clock a s = Some s' \<and> timers_ok s' \<and> rearmed clock s' \<and>
    calls s' = (calls s)(a := None) \<and> timer_queue s' = filter (\<lambda>b. b \<noteq> a) (timer_queue s) \<and> fired s' = fired s"
proof -
  obtain s1 where s1: "TimerSingleton_Erase clock a s = Some s1" "timers_ok s1" "rearmed clock s1"
    "calls s1 = calls s" "timer_queue s1 = filter (\<lambda>b. b \<noteq> a) (timer_queue s)" "fired s1 = fired s"
    using Erase_ok [OF assms] by blast
  let ?s = "s1\<lparr>calls := (calls s1)(a := None)\<rparr>"
  have "queue_ok ?s" by (rule queue_ok_cong [of s1]) (use s1 in \<open>auto simp: timers_ok_def\<close>)
  then have "timers_ok ?s" using s1(2) by (auto simp: timers_ok_def)
  moreover have "rearmed clock ?s"
  proof (cases "timer_queue s1")
    case (Cons b rest)
    then have "b \<in> set (timer_queue s1)" by simp
    then have "b \<noteq> a" unfolding s1(5) by simp
    with Cons s1(3) show ?thesis by (simp add: rearmed_def deadline_of_def)
  qed (simp add: rearmed_def)
  ultimately show ?thesis using s1 assms(2) by (auto simp: TimedCall_delete_def TimedCall_Cancel_def)
qed

lemma TimedCall_delete_Some: "TimedCall_delete clock a s = Some s' \<Longrightarrow> live s a"
  by (auto simp: TimedCall_delete_def bind_eq_Some_conv)

lemma run_timer_ops_ok:
  "run_timer_ops clock ts s = Some s' \<Longrightarrow> timers_ok s \<Longrightarrow> timers_ok s' \<and> fired s' = fired s"
proof (induction clock ts s rule: run_timer_ops.induct)
  case (2 clock t ts s)
  then obtain s1 where s1: "run_timer_op clock t s = Some s1" "run_timer_ops clock ts s1 = Some s'"
    by (auto simp: bind_eq_Some_conv)
  have "timers_ok s1 \<and> fired s1 = fired s"
  proof (cases t)
    case (NewTimer a d rep cb p)
    with s1(1) have n: "TimedCall_new clock a d rep cb p s = Some s1" by simp
    with TimedCall_new_ok [OF 2(3), of a cb clock d rep p] TimedCall_new_Some [OF n] show ?thesis by auto
  next
    case (DeleteTimer a)
    with s1(1) have n: "TimedCall_delete clock a s = Some s1" by simp
    with TimedCall_delete_ok [OF 2(3) TimedCall_delete_Some [OF n], of clock] show ?thesis by auto
  qed
  with 2(1) [OF s1] show ?case by simp
qed simp

section \<open>Firing\<close>

text \<open>The callbacks return and leave the other timers of the queue alone.\<close>

definition polite :: "(nat \<Rightarrow> int) \<Rightarrow> callbacks \<Rightarrow> nat set \<Rightarrow> bool" where
  "polite clock on_fire Q \<longleftrightarrow> (\<forall>s a c. timers_ok s \<longrightarrow> a \<in> Q \<longrightarrow> calls s a = Some c \<longrightarrow>
     (\<exists>s'. run_timer_ops clock (on_fire (tc_callback c) (tc_parameter c) s) s = Some s' \<and>
           (\<forall>b\<in>Q. b \<noteq> a \<longrightarrow> calls s' b = calls s b)))"

lemma timers_ok_fired: "timers_ok s \<Longrightarrow> timers_ok (s\<lparr>fired := l\<rparr>)"
  using queue_ok_cong [of s "s\<lparr>fired := l\<rparr>"] by (simp add: timers_ok_def)

text \<open>What \<open>Fire\<close> does before the callback: a repeating timer is in the queue again.\<close>

lemma Fire_reschedule_ok:
  assumes "timers_ok s" "calls s a = Some c" "a \<notin> set (timer_queue s)"
  shows "\<exists>s2 c2. (if tc_repeat c then do {
              let (now, s1) = read_clock clock s;
              TimerSingleton_Insert clock a
                (s1\<lparr>calls := (calls s1)(a \<mapsto> c\<lparr>tc_deadline := to_int64 (now + tc_delay c)\<rparr>)\<rparr>) }
            else Some s) = Some s2 \<and>
    timers_ok s2 \<and> fired s2 = fired s \<and> calls s2 a = Some c2 \<and> tc_callback c2 = tc_callback c \<and>
    tc_parameter c2 = tc_parameter c \<and> (\<forall>b. b \<noteq> a \<longrightarrow> calls s2 b = calls s b)"
proof (cases "tc_repeat c")
  case True
  have cb: "tc_callback c \<noteq> 0" using assms(1,2) by (auto simp: timers_ok_def)
  let ?c = "c\<lparr>tc_deadline := to_int64 (clock (clock_reads s) + tc_delay c)\<rparr>"
  let ?s = "s\<lparr>clock_reads := clock_reads s + 1, calls := (calls s)(a \<mapsto> ?c)\<rparr>"
  have "timers_ok ?s" by (rule timers_ok_update [of s a ?c]) (use assms cb in simp_all)
  from Insert_ok [OF this, of a clock] obtain s' where
    s': "TimerSingleton_Insert clock a ?s = Some s'" "timers_ok s'" "calls s' = calls ?s" "fired s' = fired ?s"
    by (auto simp: live_def)
  with True show ?thesis by (intro exI [of _ s'] exI [of _ ?c]) (simp add: read_clock_def)
next
  case False
  with assms show ?thesis by simp
qed

lemma TimedCall_Fire_Some:
  assumes "timers_ok s" "calls s a = Some c" "a \<notin> set (timer_queue s)"
  shows "\<exists>s3 c3. TimedCall_Fire clock on_fire a s =
      run_timer_ops clock (on_fire (tc_callback c) (tc_parameter c) s3) s3 \<and> timers_ok s3 \<and>
    fired s3 = fired s @ [(a, tc_parameter c)] \<and> calls s3 a = Some c3 \<and> tc_callback c3 = tc_callback c \<and>
    tc_parameter c3 = tc_parameter c \<and> (\<forall>b. b \<noteq> a \<longrightarrow> calls s3 b = calls s b)"
proof -
  have cb: "tc_callback c \<noteq> 0" using assms(1,2) by (auto simp: timers_ok_def)
  from Fire_reschedule_ok [OF assms, of clock] obtain s2 c2 where s2: "(if tc_repeat c then do {
              let (now, s1) = read_clock clock s;
              TimerSingleton_Insert clock a
                (s1\<lparr>calls := (calls s1)(a \<mapsto> c\<lparr>tc_deadline := to_int64 (now + tc_delay c)\<rparr>)\<rparr>) }
            else Some s) = Some s2"
    and ok: "timers_ok s2" "fired s2 = fired s" "calls s2 a = Some c2" "tc_callback c2 = tc_callback c"
    "tc_parameter c2 = tc_parameter c" "\<forall>b. b \<noteq> a \<longrightarrow> calls s2 b = calls s b" by blast
  let ?s3 = "s2\<lparr>fired := fired s2 @ [(a, tc_parameter c)]\<rparr>"
  have "TimedCall_Fire clock on_fire a s =
      run_timer_ops clock (on_fire (tc_callback c) (tc_parameter c) ?s3) ?s3"
    unfolding TimedCall_Fire_def using assms(2) s2 cb by (simp add: Let_def)
  with ok timers_ok_fired [OF ok(1), of "fired s2 @ [(a, tc_parameter c)]"] show ?thesis
    by (intro exI [of _ ?s3] exI [of _ c2]) simp
qed

lemma TimedCall_Fire_ok:
  assumes "timers_ok s" "calls s a = Some c" "a \<notin> set (timer_queue s)" "a \<in> Q" "polite clock on_fire Q"
  shows "\<exists>s'. TimedCall_Fire clock on_fire a s = Some s' \<and> timers_ok s' \<and>
    fired s' = fired s @ [(a, tc_parameter c)] \<and> (\<forall>b\<in>Q. b \<noteq> a \<longrightarrow> calls s' b = calls s b)"
proof -
  from TimedCall_Fire_Some [OF assms(1-3), of clock on_fire] obtain s3 c3 where
    s3: "TimedCall_Fire clock on_fire a s =
      run_timer_ops clock (on_fire (tc_callback c) (tc_parameter c) s3) s3" "timers_ok s3"
    "fired s3 = fired s @ [(a, tc_parameter c)]" "calls s3 a = Some c3" "tc_callback c3 = tc_callback c"
    "tc_parameter c3 = tc_parameter c" "\<forall>b. b \<noteq> a \<longrightarrow> calls s3 b = calls s b" by blast
  from assms(5) s3(2,4) assms(4) obtain s' where
    r: "run_timer_ops clock (on_fire (tc_callback c) (tc_parameter c) s3) s3 = Some s'"
    and keep: "\<forall>b\<in>Q. b \<noteq> a \<longrightarrow> calls s' b = calls s3 b"
    unfolding polite_def by (metis s3(5,6))
  from run_timer_ops_ok [OF r s3(2)] s3 r keep show ?thesis by simp
qed

lemma fire_loop_ok:
  assumes "polite clock on_fire Q"
  shows "timers_ok s \<Longrightarrow> set current \<subseteq> Q \<Longrightarrow> distinct current \<Longrightarrow> list_all (live s) current \<Longrightarrow>
    \<exists>s'. fire_loop clock on_fire now current s = Some s' \<and> timers_ok s' \<and>
      fired s' = fired s @ map (\<lambda>a. (a, tc_parameter (the (calls s a))))
        (takeWhile (\<lambda>a. deadline_of s a \<le> now) current)"
proof (induction current arbitrary: s)
  case (Cons a current)
  from Cons.prems(4) obtain c where c: "calls s a = Some c" by (auto simp: live_def)
  show ?case
  proof (cases "tc_deadline c \<le> now")
    case True
    obtain s1 where s1: "queue_erase a s = Some s1" "queue_ok s1" "calls s1 = calls s"
      "timer_queue s1 = filter (\<lambda>b. b \<noteq> a) (timer_queue s)" "fired s1 = fired s"
      using queue_erase_ok [of s a] Cons.prems c by (auto simp: timers_ok_def live_def)
    have "timers_ok s1" using s1 Cons.prems(1) by (simp add: timers_ok_def)
    from TimedCall_Fire_ok [OF this _ _ _ assms, of a c] c s1 Cons.prems(2) obtain s2 where
      s2: "TimedCall_Fire clock on_fire a s1 = Some s2" "timers_ok s2"
      "fired s2 = fired s @ [(a, tc_parameter c)]" "\<forall>b\<in>Q. b \<noteq> a \<longrightarrow> calls s2 b = calls s b"
      by auto
    have same: "calls s2 b = calls s b" if "b \<in> set current" for b
      using s2(4) that Cons.prems(2,3) by auto
    have "list_all (live s2) current" using Cons.prems(4) same by (auto simp: list_all_iff live_def)
    from Cons.IH [OF s2(2) _ _ this] Cons.prems(2,3) obtain s' where
      s': "fire_loop clock on_fire now current s2 = Some s'" "timers_ok s'"
      "fired s' = fired s2 @ map (\<lambda>a. (a, tc_parameter (the (calls s2 a))))
        (takeWhile (\<lambda>a. deadline_of s2 a \<le> now) current)" by auto
    have tw: "takeWhile (\<lambda>a. deadline_of s2 a \<le> now) current = takeWhile (\<lambda>a. deadline_of s a \<le> now) current"
      using same by (intro takeWhile_cong) (auto simp: deadline_of_def)
    have "map (\<lambda>a. (a, tc_parameter (the (calls s2 a)))) (takeWhile (\<lambda>a. deadline_of s a \<le> now) current) =
        map (\<lambda>a. (a, tc_parameter (the (calls s a)))) (takeWhile (\<lambda>a. deadline_of s a \<le> now) current)"
      using same by (intro map_cong refl) (auto dest: set_takeWhileD)
    with s' s2(1,3) s1(1) tw True c show ?thesis by (simp add: deadline_of_def)
  next
    case False
    with c Cons.prems show ?thesis by (simp add: deadline_of_def)
  qed
qed simp

lemma takeWhile_sorted:
  "sorted_wrt (TimedCallPtrLessThan s) q \<Longrightarrow>
     takeWhile (\<lambda>a. deadline_of s a \<le> now) q = filter (\<lambda>a. deadline_of s a \<le> now) q"
proof (induction q)
  case (Cons a q)
  then have "deadline_of s a \<le> deadline_of s b" if "b \<in> set q" for b
    using that by (auto simp: TimedCallPtrLessThan_def split: if_splits)
  note le = this
  show ?case
  proof (cases "deadline_of s a \<le> now")
    case True
    with Cons show ?thesis by simp
  next
    case False
    have "filter (\<lambda>a. deadline_of s a \<le> now) q = []"
    proof (rule filter_False, rule ballI)
      fix b
      assume "b \<in> set q"
      from le [OF this] False show "\<not> deadline_of s b \<le> now" by simp
    qed
    with False show ?thesis by simp
  qed
qed simp

section \<open>Properties\<close>


text \<open>Three timers, the second of which is late; the callback of the first adds a timer.\<close>

definition three_timers :: timers where
  "three_timers = \<lparr>calls = [10 \<mapsto> \<lparr>tc_delay = 5, tc_repeat = True, tc_deadline = 105, tc_callback = 1, tc_parameter = 7\<rparr>,
       20 \<mapsto> \<lparr>tc_delay = 90, tc_repeat = False, tc_deadline = 190, tc_callback = 1, tc_parameter = 8\<rparr>,
       15 \<mapsto> \<lparr>tc_delay = 8, tc_repeat = False, tc_deadline = 108, tc_callback = 2, tc_parameter = 9\<rparr>],
     timer_queue = [10, 15, 20],
     platform_timer = \<lparr>timer_id = 0, sources = [], next_source = 4\<rparr>, clock_reads = 3, fired = []\<rparr>"

definition add_once :: callbacks where
  "add_once cb p s = (if cb = 1 \<and> calls s 30 = None then [NewTimer 30 50 False 2 3] else [])"

lemma three_timers_ok: "timers_ok three_timers"
  by (simp add: timers_ok_def queue_ok_def three_timers_def live_def TimedCallPtrLessThan_def deadline_of_def)

lemma add_once_polite: "polite clock add_once {10, 15, 20}"
  unfolding polite_def
proof (intro allI impI)
  fix s a c
  assume s: "timers_ok s" "a \<in> {10, 15, 20 :: nat}" "calls s a = Some c"
  show "\<exists>s'. run_timer_ops clock (add_once (tc_callback c) (tc_parameter c) s) s = Some s' \<and>
      (\<forall>b\<in>{10, 15, 20}. b \<noteq> a \<longrightarrow> calls s' b = calls s b)"
  proof (cases "tc_callback c = 1 \<and> calls s 30 = None")
    case True
    from TimedCall_new_ok [OF s(1), of 30 2 clock 50 False 3] True obtain s' where
      s': "TimedCall_new clock 30 50 False 2 3 s = Some s'"
      and c: "\<exists>x. calls s' = (calls s)(30 \<mapsto> x)" by auto
    from c have "\<forall>b\<in>{10, 15, 20}. calls s' b = calls s b" by auto
    with True s' show ?thesis by (simp add: add_once_def)
  next
    case False
    then have "add_once (tc_callback c) (tc_parameter c) s = []" by (simp add: add_once_def)
    then show ?thesis by simp
  qed
qed


text \<open>
  A callback that deletes another timer which is due in the same round makes the loop read the
  deleted timer: the loop walks over a copy of the queue, from which the destructor does not take it.
\<close>

theorem timed_call_deleted_in_callback:
  assumes "timers_ok s" "timer_queue s = a # b # rest" "calls s a = Some c"
    and "deadline_of s a \<le> clock (clock_reads s)"
    and "\<forall>s. on_fire (tc_callback c) (tc_parameter c) s = [DeleteTimer b]"
  shows "TimerSingleton_Callback clock on_fire s = None"
proof -
  let ?s = "s\<lparr>clock_reads := clock_reads s + 1\<rparr>"
  have ok: "timers_ok ?s" using assms(1) queue_ok_cong [of s ?s] by (auto simp: timers_ok_def)
  have "distinct (timer_queue s)"
    using assms(1) sorted_distinct by (auto simp: timers_ok_def queue_ok_def)
  then have ab: "a \<noteq> b" using assms(2) by simp
  obtain s1 where s1: "queue_erase a ?s = Some s1" "queue_ok s1" "calls s1 = calls s"
    "timer_queue s1 = filter (\<lambda>b. b \<noteq> a) (timer_queue s)"
    using queue_erase_ok [of ?s a] ok assms(3) by (auto simp: timers_ok_def live_def)
  have ok1: "timers_ok s1" using s1 assms(1) by (simp add: timers_ok_def)
  have "calls s1 a = Some c" "a \<notin> set (timer_queue s1)" using s1 assms(3) by auto
  from TimedCall_Fire_Some [OF ok1 this, of clock on_fire] obtain s3 where
    s3: "TimedCall_Fire clock on_fire a s1 = run_timer_ops clock [DeleteTimer b] s3" "timers_ok s3"
    "\<forall>b. b \<noteq> a \<longrightarrow> calls s3 b = calls s1 b" using assms(5) by auto
  have "live s b" using live_in_queue [OF assms(1), of b] assms(2) by simp
  with ab s3(3) s1(3) have "live s3 b" by (simp add: live_def)
  from TimedCall_delete_ok [OF s3(2) this, of clock] obtain s4 where
    s4: "TimedCall_delete clock b s3 = Some s4" "calls s4 = (calls s3)(b := None)" by blast
  have "calls s4 b = None" using s4(2) by simp
  with assms(2,3,4) s1(1) s3(1) s4(1) show ?thesis
    by (simp add: TimerSingleton_Callback_def read_clock_def deadline_of_def)
qed

lemma timed_call_deleted_in_callback_witness:
  "TimerSingleton_Callback (\<lambda>n. 110) (\<lambda>cb p s. if cb = 1 then [DeleteTimer 15] else []) three_timers = None"
  by (rule timed_call_deleted_in_callback [OF three_timers_ok, of 10 15 "[20]"
        "\<lparr>tc_delay = 5, tc_repeat = True, tc_deadline = 105, tc_callback = 1, tc_parameter = 7\<rparr>"])
    (simp_all add: three_timers_def deadline_of_def)

section \<open>The id of the source is never kept\<close>

text \<open>
  \<open>SetNextFire\<close> does not store the result of \<open>g_timeout_add\<close>, so that \<open>Cancel\<close> never has a source to
  remove: every change of the queue leaves one more source in the main loop.
\<close>

lemma PlatformTimer_Cancel_never_removes: "timer_id p = 0 \<Longrightarrow> PlatformTimer_Cancel p = p"
  by (simp add: PlatformTimer_Cancel_def)

lemma SetNextFire_leaks:
  "timer_id p = 0 \<Longrightarrow>
     timer_id (SetNextFire d p) = 0 \<and> (\<exists>e. sources (SetNextFire d p) = sources p @ [e])"
  by (simp add: SetNextFire_def PlatformTimer_Cancel_def g_timeout_add_def Let_def)

lemma RearmTimer_leaks:
  "RearmTimer clock s = Some s' \<Longrightarrow> timer_id (platform_timer s) = 0 \<Longrightarrow> timer_id (platform_timer s') = 0 \<and>
     length (sources (platform_timer s')) =
       length (sources (platform_timer s)) + (if timer_queue s = [] then 0 else 1)"
  by (auto simp: RearmTimer_def read_clock_def Let_def bind_eq_Some_conv PlatformTimer_Cancel_never_removes
      SetNextFire_def g_timeout_add_def split: list.splits)

end
