(* ===== verification/ThreadLocals.thy ===== *)
theory ThreadLocals
  imports Sync "HOL-Library.Multiset"
begin

text \<open>
  Thread-local values: \<open>ThreadLocals\<close> of \<open>src/common/thread_locals.cc\<close> (the POSIX build), a
  fixed number of slots per thread whose values have destructors, and \<open>ThreadExit\<close> of
  \<open>src/common/thread_exit.cc\<close>, a list of things to delete when a thread ends. Values and functions
  are addresses, \<open>0\<close> is \<open>NULL\<close>; the calls of destructors are recorded. A destructor that uses
  thread-local values itself is not modelled.
\<close>

section \<open>Slots\<close>

definition kMaxSlots :: int where "kMaxSlots = 64"

record tls_entry =
  te_value :: nat
  te_destructor :: nat
  te_valid :: bool

definition Entry_empty :: tls_entry where
  "Entry_empty = \<lparr>te_value = 0, te_destructor = 0, te_valid = False\<rparr>"

definition Entry :: "nat \<Rightarrow> nat \<Rightarrow> tls_entry" where
  "Entry value destructor = \<lparr>te_value = value, te_destructor = destructor, te_valid = True\<rparr>"

text \<open>
  \<open>tls\<close> is the one pthread slot of each thread, the array of its entries if it has one.
  \<open>destructor_calls\<close> lists the thread a value belonged to, its destructor and the value.
\<close>

record thread_locals =
  next_slot :: int
  tls :: "ThreadId \<Rightarrow> tls_entry list option"
  destructor_calls :: "(ThreadId \<times> nat \<times> nat) list"

definition tls_init :: thread_locals where
  "tls_init = \<lparr>next_slot = 0, tls = (\<lambda>_. None), destructor_calls = []\<rparr>"

definition Alloc :: "thread_locals \<Rightarrow> (int \<times> thread_locals) option" where
  "Alloc s =
     (let s1 = s\<lparr>next_slot := next_slot s + 1\<rparr>;
          slot = next_slot s1 - 1
      in do { assert_that (\<not> next_slot s1 \<ge> kMaxSlots); Some (slot, s1) })"

definition GetTlsEntries :: "ThreadId \<Rightarrow> thread_locals \<Rightarrow> tls_entry list option" where
  "GetTlsEntries me s = tls s me"

definition SetTlsEntries :: "ThreadId \<Rightarrow> tls_entry list option \<Rightarrow> thread_locals \<Rightarrow> thread_locals" where
  "SetTlsEntries me entries s = s\<lparr>tls := (tls s)(me := entries)\<rparr>"

definition GetEntries :: "ThreadId \<Rightarrow> bool \<Rightarrow> thread_locals \<Rightarrow> tls_entry list option \<times> thread_locals" where
  "GetEntries me createIfNeeded s =
     (case GetTlsEntries me s of
        None \<Rightarrow> if createIfNeeded
                then (let entries = replicate (nat kMaxSlots) Entry_empty
                      in (Some entries, SetTlsEntries me (Some entries) s))
                else (None, s)
      | Some entries \<Rightarrow> (Some entries, s))"

definition bad_key :: "int \<Rightarrow> bool" where
  "bad_key key \<longleftrightarrow> key < 0 \<or> key \<ge> kMaxSlots"

definition GetValue :: "ThreadId \<Rightarrow> int \<Rightarrow> thread_locals \<Rightarrow> nat" where
  "GetValue me key s =
     (if bad_key key then 0
      else case GetEntries me False s of
             (None, s1) \<Rightarrow> 0
           | (Some entries, s1) \<Rightarrow>
               if te_valid (entries ! nat key) then te_value (entries ! nat key) else 0)"

definition HasValue :: "ThreadId \<Rightarrow> int \<Rightarrow> thread_locals \<Rightarrow> bool" where
  "HasValue me key s =
     (if bad_key key then False
      else case GetEntries me False s of
             (None, s1) \<Rightarrow> False
           | (Some entries, s1) \<Rightarrow> te_valid (entries ! nat key))"

text \<open>The call of the destructor of a valid entry that has one.\<close>

definition destroy_call :: "ThreadId \<Rightarrow> tls_entry \<Rightarrow> (ThreadId \<times> nat \<times> nat) list" where
  "destroy_call me e =
     (if te_valid e \<and> te_destructor e \<noteq> 0 then [(me, te_destructor e, te_value e)] else [])"

definition DestroyValue :: "ThreadId \<Rightarrow> int \<Rightarrow> thread_locals \<Rightarrow> thread_locals" where
  "DestroyValue me key s =
     (if bad_key key then s
      else case GetEntries me False s of
             (None, s1) \<Rightarrow> s1
           | (Some entries, s1) \<Rightarrow>
               if te_valid (entries ! nat key)
               then (SetTlsEntries me (Some (entries[nat key := (entries ! nat key)\<lparr>te_valid := False\<rparr>])) s1)
                 \<lparr>destructor_calls := destructor_calls s1 @ destroy_call me (entries ! nat key)\<rparr>
               else s1)"

definition SetValue :: "ThreadId \<Rightarrow> int \<Rightarrow> nat \<Rightarrow> nat \<Rightarrow> thread_locals \<Rightarrow> thread_locals" where
  "SetValue me key value destructor s =
     (if bad_key key then s
      else let s1 = DestroyValue me key s
           in case GetEntries me True s1 of
                (None, s2) \<Rightarrow> s2
              | (Some entries, s2) \<Rightarrow>
                  SetTlsEntries me (Some (entries[nat key := Entry value destructor])) s2)"

text \<open>The loop of \<open>ClearEntries\<close> and \<open>DestroyEntries\<close>: the calls and the entries it leaves.\<close>

fun destroy_loop :: "ThreadId \<Rightarrow> tls_entry list \<Rightarrow> (ThreadId \<times> nat \<times> nat) list \<times> tls_entry list" where
  "destroy_loop me [] = ([], [])"
| "destroy_loop me (e # es) =
     (let (calls, es1) = destroy_loop me es
      in (destroy_call me e @ calls, e\<lparr>te_valid := False\<rparr> # es1))"

definition ClearEntries :: "ThreadId \<Rightarrow> thread_locals \<Rightarrow> thread_locals" where
  "ClearEntries me s =
     (case GetTlsEntries me s of
        None \<Rightarrow> s
      | Some entries \<Rightarrow> (let (calls, entries1) = destroy_loop me entries
          in (SetTlsEntries me (Some entries1) s)\<lparr>destructor_calls := destructor_calls s @ calls\<rparr>))"

definition DestroyEntries :: "ThreadId \<Rightarrow> tls_entry list \<Rightarrow> thread_locals \<Rightarrow> thread_locals" where
  "DestroyEntries me entries s =
     (let (calls, entries1) = destroy_loop me entries
      in s\<lparr>destructor_calls := destructor_calls s @ calls\<rparr>)"

text \<open>
  The end of a thread: if the pthread slot is not \<open>NULL\<close>, it is set to \<open>NULL\<close> and
  \<open>FinalizeKey\<close> is called with the old value.
\<close>

definition FinalizeKey :: "ThreadId \<Rightarrow> thread_locals \<Rightarrow> thread_locals" where
  "FinalizeKey me s =
     (case tls s me of
        None \<Rightarrow> s
      | Some entries \<Rightarrow> DestroyEntries me entries (SetTlsEntries me None s))"

section \<open>Clean-up at the end of a thread\<close>

text \<open>
  A \<open>ThreadExit\<close> object is its map \<open>todo_\<close> in the order of the keys; \<open>exits\<close> holds the objects
  by address. \<open>thread_exit_key\<close> is its slot and \<open>thread_exit_destructor\<close> the address of its
  destructor callback.
\<close>

record thread_exits =
  locals :: thread_locals
  exits :: "nat \<Rightarrow> (nat \<times> nat) list option"
  deallocations :: "(nat \<times> nat) list"

fun todo_insert :: "nat \<Rightarrow> nat \<Rightarrow> (nat \<times> nat) list \<Rightarrow> (nat \<times> nat) list" where
  "todo_insert k v [] = [(k, v)]"
| "todo_insert k v ((k', v') # xs) =
     (if k < k' then (k, v) # (k', v') # xs
      else if k = k' then (k, v) # xs
      else (k', v') # todo_insert k v xs)"

definition GetMe :: "int \<Rightarrow> nat \<Rightarrow> nat \<Rightarrow> ThreadId \<Rightarrow> thread_exits \<Rightarrow> nat \<times> thread_exits" where
  "GetMe key destructor fresh me s =
     (let p = GetValue me key (locals s)
      in if p = 0
         then (fresh, s\<lparr>exits := (exits s)(fresh \<mapsto> []),
                locals := SetValue me key fresh destructor (locals s)\<rparr>)
         else (p, s))"

definition ThreadExit_Add :: "int \<Rightarrow> nat \<Rightarrow> nat \<Rightarrow> ThreadId \<Rightarrow> nat \<Rightarrow> nat \<Rightarrow> thread_exits \<Rightarrow> thread_exits option" where
  "ThreadExit_Add key destructor fresh me closure dealloc s =
     (let (p, s1) = GetMe key destructor fresh me s
      in do { todo \<leftarrow> exits s1 p;
              assert_that (map_of todo closure = None);
              Some (s1\<lparr>exits := (exits s1)(p \<mapsto> todo_insert closure dealloc todo)\<rparr>) })"

definition ThreadExit_Remove :: "int \<Rightarrow> nat \<Rightarrow> nat \<Rightarrow> ThreadId \<Rightarrow> nat \<Rightarrow> thread_exits \<Rightarrow> thread_exits option" where
  "ThreadExit_Remove key destructor fresh me closure s =
     (let (p, s1) = GetMe key destructor fresh me s
      in do { todo \<leftarrow> exits s1 p;
              assert_that (map_of todo closure \<noteq> None);
              Some (s1\<lparr>exits := (exits s1)(p \<mapsto> filter (\<lambda>x. fst x \<noteq> closure) todo)\<rparr>) })"

text \<open>\<open>ThreadExit::Destructor\<close>: every deallocator is called with its closure, then the object goes.\<close>

definition ThreadExit_Destructor :: "nat \<Rightarrow> thread_exits \<Rightarrow> thread_exits option" where
  "ThreadExit_Destructor p s =
     do { todo \<leftarrow> exits s p;
          Some (s\<lparr>deallocations := deallocations s @ map (\<lambda>(closure, dealloc). (dealloc, closure)) todo,
                  exits := (exits s)(p := None)\<rparr>) }"

section \<open>Invariant and values\<close>

definition tls_inv :: "thread_locals \<Rightarrow> bool" where
  "tls_inv s \<longleftrightarrow> (\<forall>t es. tls s t = Some es \<longrightarrow> length es = nat kMaxSlots)"

definition tls_value :: "ThreadId \<Rightarrow> int \<Rightarrow> thread_locals \<Rightarrow> nat option" where
  "tls_value t key s = (if HasValue t key s then Some (GetValue t key s) else None)"

lemmas tls_defs = GetTlsEntries_def SetTlsEntries_def GetEntries_def GetValue_def HasValue_def
  DestroyValue_def SetValue_def ClearEntries_def DestroyEntries_def FinalizeKey_def bad_key_def

lemma tls_inv_length [simp]: "tls_inv s \<Longrightarrow> tls s t = Some es \<Longrightarrow> length es = nat kMaxSlots"
  by (simp add: tls_inv_def)

lemma destroy_loop_eq:
  "destroy_loop me es = (concat (map (destroy_call me) es), map (\<lambda>e. e\<lparr>te_valid := False\<rparr>) es)"
  by (induction es) simp_all

lemma tls_inv_init: "tls_inv tls_init"
  by (simp add: tls_inv_def tls_init_def)

lemma tls_inv_DestroyValue: "tls_inv s \<Longrightarrow> tls_inv (DestroyValue me key s)"
  by (auto simp: tls_inv_def tls_defs split: option.splits)

lemma tls_inv_SetValue: "tls_inv s \<Longrightarrow> tls_inv (SetValue me key v d s)"
  using tls_inv_DestroyValue [of s me key]
  by (auto simp: tls_inv_def SetValue_def GetEntries_def GetTlsEntries_def SetTlsEntries_def Let_def split: option.splits)

lemma tls_inv_ClearEntries: "tls_inv s \<Longrightarrow> tls_inv (ClearEntries me s)"
  by (auto simp: tls_inv_def ClearEntries_def SetTlsEntries_def GetTlsEntries_def destroy_loop_eq split: option.splits)

lemma tls_inv_FinalizeKey: "tls_inv s \<Longrightarrow> tls_inv (FinalizeKey me s)"
  by (auto simp: tls_inv_def FinalizeKey_def DestroyEntries_def SetTlsEntries_def destroy_loop_eq split: option.splits)

lemmas tls_inv_intros = tls_inv_init tls_inv_DestroyValue tls_inv_SetValue tls_inv_ClearEntries tls_inv_FinalizeKey

text \<open>The destructors that are still to be called for a thread.\<close>

definition live_destructors :: "ThreadId \<Rightarrow> thread_locals \<Rightarrow> (ThreadId \<times> nat \<times> nat) list" where
  "live_destructors t s = (case tls s t of None \<Rightarrow> [] | Some es \<Rightarrow> concat (map (destroy_call t) es))"

definition calls_for :: "ThreadId \<Rightarrow> (ThreadId \<times> nat \<times> nat) list \<Rightarrow> (ThreadId \<times> nat \<times> nat) multiset" where
  "calls_for t calls = filter_mset (\<lambda>c. fst c = t) (mset calls)"

definition account :: "ThreadId \<Rightarrow> thread_locals \<Rightarrow> (ThreadId \<times> nat \<times> nat) multiset" where
  "account t s = calls_for t (destructor_calls s) + mset (live_destructors t s)"

lemma calls_for_append [simp]: "calls_for t (xs @ ys) = calls_for t xs + calls_for t ys"
  by (simp add: calls_for_def)

lemma calls_for_destroy: "calls_for t (destroy_call u e) = (if t = u then mset (destroy_call u e) else {#})"
  by (simp add: calls_for_def destroy_call_def)

lemma calls_for_destroys:
  "calls_for t (concat (map (destroy_call u) es)) = (if t = u then mset (concat (map (destroy_call u) es)) else {#})"
  by (induction es) (simp_all add: calls_for_destroy, simp add: calls_for_def)

lemma mset_destroy_update:
  assumes "k < length es"
  shows "mset (concat (map (destroy_call t) (es[k := e]))) + mset (destroy_call t (es ! k)) =
    mset (concat (map (destroy_call t) es)) + mset (destroy_call t e)"
  using assms
proof (induction es arbitrary: k)
  case (Cons x es)
  then show ?case by (cases k) (auto simp: ac_simps)
qed simp

lemma destroy_call_invalid [simp]: "destroy_call t (e\<lparr>te_valid := False\<rparr>) = []"
  "destroy_call t Entry_empty = []"
  by (simp_all add: destroy_call_def Entry_empty_def)

lemma destroy_calls_empty [simp]:
  "concat (map (destroy_call t) (replicate n Entry_empty)) = []"
  "concat (map (destroy_call t) (map (\<lambda>e. e\<lparr>te_valid := False\<rparr>) es)) = []"
  by (induction n) (simp_all add: comp_def)

lemma key_in_range: "tls_inv s \<Longrightarrow> tls s t = Some es \<Longrightarrow> \<not> bad_key key \<Longrightarrow> nat key < length es"
  by (auto simp: bad_key_def kMaxSlots_def nat_less_iff)

lemma account_DestroyValue:
  assumes "tls_inv s"
  shows "account t (DestroyValue me key s) = account t s"
proof (cases "bad_key key \<or> tls s me = None")
  case True
  then show ?thesis by (auto simp: DestroyValue_def GetEntries_def GetTlsEntries_def)
next
  case False
  then obtain es where es: "tls s me = Some es" "\<not> bad_key key" by auto
  let ?e = "es ! nat key"
  show ?thesis
  proof (cases "te_valid ?e")
    case False
    with es show ?thesis by (simp add: DestroyValue_def GetEntries_def GetTlsEntries_def)
  next
    case True
    have "DestroyValue me key s = s\<lparr>tls := (tls s)(me \<mapsto> es[nat key := ?e\<lparr>te_valid := False\<rparr>]),
        destructor_calls := destructor_calls s @ destroy_call me ?e\<rparr>"
      using es True by (simp add: DestroyValue_def GetEntries_def GetTlsEntries_def SetTlsEntries_def)
    with es mset_destroy_update [OF key_in_range [OF assms es], of me "?e\<lparr>te_valid := False\<rparr>"]
    show ?thesis by (auto simp: account_def live_destructors_def calls_for_destroy ac_simps)
  qed
qed

lemma DestroyValue_clears:
  assumes "tls_inv s" "tls (DestroyValue me key s) me = Some es" "\<not> bad_key key"
  shows "\<not> te_valid (es ! nat key)"
proof -
  from assms(2,3) obtain es0 where es0: "tls s me = Some es0"
    by (auto simp: DestroyValue_def GetEntries_def GetTlsEntries_def split: option.splits)
  with assms key_in_range [OF assms(1) es0 assms(3)] show ?thesis
    by (auto simp: DestroyValue_def GetEntries_def GetTlsEntries_def SetTlsEntries_def split: if_splits)
qed

lemma account_SetValue:
  assumes "tls_inv s"
  shows "account t (SetValue me key v d s) =
    account t s + (if t = me \<and> \<not> bad_key key \<and> d \<noteq> 0 then {#(me, d, v)#} else {#})"
proof (cases "bad_key key")
  case True
  then show ?thesis by (simp add: SetValue_def)
next
  case False
  let ?s1 = "DestroyValue me key s"
  have inv1: "tls_inv ?s1" by (rule tls_inv_DestroyValue [OF assms])
  define es where "es = (case tls ?s1 me of None \<Rightarrow> replicate (nat kMaxSlots) Entry_empty | Some es \<Rightarrow> es)"
  have len: "nat key < length es"
    using False key_in_range [OF inv1 _ False] by (auto simp: es_def bad_key_def kMaxSlots_def split: option.splits)
  have "destroy_call me (es ! nat key) = []"
    using DestroyValue_clears [OF assms _ False] len
    by (auto simp: es_def destroy_call_def Entry_empty_def split: option.splits)
  with mset_destroy_update [OF len, of me "Entry v d"]
  have upd: "mset (concat (map (destroy_call me) (es[nat key := Entry v d]))) =
      mset (concat (map (destroy_call me) es)) + mset (destroy_call me (Entry v d))" by simp
  have live: "mset (live_destructors me ?s1) = mset (concat (map (destroy_call me) es))"
    by (auto simp: live_destructors_def es_def split: option.splits)
  have "SetValue me key v d s = ?s1\<lparr>tls := (tls ?s1)(me \<mapsto> es[nat key := Entry v d])\<rparr>"
    using False by (auto simp: SetValue_def GetEntries_def GetTlsEntries_def SetTlsEntries_def es_def Let_def split: option.splits)
  then have "account t (SetValue me key v d s) = calls_for t (destructor_calls ?s1) +
      (if t = me then mset (live_destructors me ?s1) + mset (destroy_call me (Entry v d))
       else mset (live_destructors t ?s1))"
    using upd live by (simp add: account_def live_destructors_def)
  also have "\<dots> = account t ?s1 + (if t = me then mset (destroy_call me (Entry v d)) else {#})"
    by (simp add: account_def)
  finally show ?thesis using False
    by (simp add: account_DestroyValue [OF assms] destroy_call_def Entry_def)
qed

lemma account_ClearEntries: "account t (ClearEntries me s) = account t s"
  by (cases "tls s me")
    (auto simp: ClearEntries_def GetTlsEntries_def SetTlsEntries_def destroy_loop_eq account_def
      live_destructors_def calls_for_destroys)

lemma account_FinalizeKey: "account t (FinalizeKey me s) = account t s"
  by (cases "tls s me")
    (auto simp: FinalizeKey_def DestroyEntries_def SetTlsEntries_def destroy_loop_eq account_def
      live_destructors_def calls_for_destroys)

lemma live_FinalizeKey: "live_destructors me (FinalizeKey me s) = []"
  by (cases "tls s me")
    (auto simp: FinalizeKey_def DestroyEntries_def SetTlsEntries_def destroy_loop_eq live_destructors_def)

text \<open>The values: an operation changes the slot it names, on the thread it runs on.\<close>

lemma tls_value_eq:
  "tls_value t k s = (if bad_key k then None else case tls s t of None \<Rightarrow> None
     | Some es \<Rightarrow> if te_valid (es ! nat k) then Some (te_value (es ! nat k)) else None)"
  by (simp add: tls_value_def HasValue_def GetValue_def GetEntries_def GetTlsEntries_def split: option.splits)

lemma tls_after_DestroyValue:
  assumes "\<not> bad_key key" "tls s me = Some es"
  shows "tls (DestroyValue me key s) = (tls s)(me \<mapsto> es[nat key := (es ! nat key)\<lparr>te_valid := False\<rparr>])"
proof (cases "te_valid (es ! nat key)")
  case True
  with assms show ?thesis by (simp add: DestroyValue_def GetEntries_def GetTlsEntries_def SetTlsEntries_def)
next
  case False
  then have "(es ! nat key)\<lparr>te_valid := False\<rparr> = es ! nat key" by (cases "es ! nat key") simp
  then have "es[nat key := (es ! nat key)\<lparr>te_valid := False\<rparr>] = es" by (simp only: list_update_id)
  with False assms show ?thesis
    by (simp add: DestroyValue_def GetEntries_def GetTlsEntries_def fun_upd_idem)
qed

lemma replicate_slot [simp]: "\<not> bad_key k \<Longrightarrow> replicate (nat kMaxSlots) e ! nat k = e"
  by (intro nth_replicate) (auto simp: bad_key_def nat_less_iff)

lemma nat_key_inj: "\<not> bad_key k \<Longrightarrow> \<not> bad_key key \<Longrightarrow> nat k = nat key \<longleftrightarrow> k = key"
  by (auto simp: bad_key_def)

lemma tls_value_update:
  assumes "\<not> bad_key key" "tls s me = Some es" "nat key < length es" "tls s' = (tls s)(me \<mapsto> es[nat key := e])"
  shows "tls_value t k s' = (if t = me \<and> k = key then (if te_valid e then Some (te_value e) else None)
    else tls_value t k s)"
  using assms nat_key_inj [OF _ assms(1), of k]
  by (auto simp: tls_value_eq nth_list_update split: option.splits)

lemma tls_value_DestroyValue:
  assumes "tls_inv s"
  shows "tls_value t k (DestroyValue me key s) = (if t = me \<and> k = key then None else tls_value t k s)"
proof (cases "bad_key key \<or> tls s me = None")
  case True
  then show ?thesis by (auto simp: tls_value_eq DestroyValue_def GetEntries_def GetTlsEntries_def)
next
  case False
  then obtain es where es: "tls s me = Some es" "\<not> bad_key key" by auto
  from tls_value_update [OF es(2,1) key_in_range [OF assms es] tls_after_DestroyValue [OF es(2,1)]]
  show ?thesis by simp
qed

lemma tls_value_SetValue:
  assumes "tls_inv s" "\<not> bad_key key"
  shows "tls_value t k (SetValue me key v d s) = (if t = me \<and> k = key then Some v else tls_value t k s)"
proof -
  let ?s1 = "DestroyValue me key s"
  have inv1: "tls_inv ?s1" by (rule tls_inv_DestroyValue [OF assms(1)])
  let ?s2 = "snd (GetEntries me True ?s1)"
  obtain es where es: "tls ?s2 me = Some es" "SetValue me key v d s = SetTlsEntries me (Some (es[nat key := Entry v d])) ?s2"
    using assms(2) by (cases "tls ?s1 me") (auto simp: SetValue_def GetEntries_def GetTlsEntries_def SetTlsEntries_def Let_def)
  have inv2: "tls_inv ?s2"
    using inv1 by (auto simp: tls_inv_def GetEntries_def GetTlsEntries_def SetTlsEntries_def Let_def split: option.splits)
  have "tls_value t k ?s2 = tls_value t k ?s1"
    by (cases "bad_key k") (auto simp: tls_value_eq GetEntries_def GetTlsEntries_def SetTlsEntries_def Let_def Entry_empty_def
        split: option.splits)
  moreover have "tls_value t k (SetValue me key v d s) = (if t = me \<and> k = key then Some v else tls_value t k ?s2)"
    using tls_value_update [OF assms(2) es(1) key_in_range [OF inv2 es(1) assms(2)], of "SetValue me key v d s" "Entry v d" t k]
    unfolding es(2) by (simp add: SetTlsEntries_def Entry_def)
  ultimately show ?thesis by (simp add: tls_value_DestroyValue [OF assms(1)])
qed

section \<open>Properties\<close>

datatype tls_op = OpSet ThreadId int nat nat | OpDestroy ThreadId int | OpClear ThreadId | OpExit ThreadId

fun tls_exec :: "tls_op \<Rightarrow> thread_locals \<Rightarrow> thread_locals" where
  "tls_exec (OpSet t key v d) s = SetValue t key v d s"
| "tls_exec (OpDestroy t key) s = DestroyValue t key s"
| "tls_exec (OpClear t) s = ClearEntries t s"
| "tls_exec (OpExit t) s = FinalizeKey t s"

text \<open>The values that an operation stores with a destructor.\<close>

fun stored :: "tls_op \<Rightarrow> (ThreadId \<times> nat \<times> nat) list" where
  "stored (OpSet t key v d) = (if \<not> bad_key key \<and> d \<noteq> 0 then [(t, d, v)] else [])"
| "stored _ = []"

lemma tls_exec_step:
  assumes "tls_inv s"
  shows "tls_inv (tls_exec op s) \<and> account t (tls_exec op s) = account t s + calls_for t (stored op)"
  using assms
  by (cases op) (auto simp: tls_inv_intros account_SetValue account_DestroyValue account_ClearEntries
      account_FinalizeKey calls_for_def)

lemma tls_run_account:
  assumes "tls_inv s"
  shows "tls_inv (fold tls_exec ops s) \<and>
    account t (fold tls_exec ops s) = account t s + calls_for t (concat (map stored ops))"
  using assms
proof (induction ops arbitrary: s)
  case Nil
  then show ?case by (simp add: calls_for_def)
next
  case (Cons op ops)
  with tls_exec_step [of s op t] show ?case by (simp add: ac_simps)
qed

lemma account_init: "account t tls_init = {#}"
  by (simp add: account_def calls_for_def live_destructors_def tls_init_def)

text \<open>
  C18. Every value that was stored with a destructor is destroyed exactly once: after any sequence of
  operations of any threads, the values stored for a thread are those whose destructor was called
  and those still in its slots; after the end of the thread none is left.
\<close>

theorem tls_destroyed_exactly_once:
  "let s = fold tls_exec ops tls_init in
     calls_for t (concat (map stored ops)) = calls_for t (destructor_calls s) + mset (live_destructors t s) \<and>
     live_destructors t (FinalizeKey t s) = []"
  using tls_run_account [OF tls_inv_init, of ops t]
  by (simp add: Let_def account_init account_def [of _ "fold tls_exec ops tls_init"] live_FinalizeKey)

text \<open>
  Only 63 slots can be allocated although the table has 64: the last one aborts.
\<close>

lemma Alloc_last_slot: "Alloc (s\<lparr>next_slot := 63\<rparr>) = None"
  by (simp add: Alloc_def kMaxSlots_def)

text \<open>The closures that were added and not removed are deallocated when the thread ends.\<close>

lemma todo_insert_map_of: "map_of (todo_insert k v xs) = (map_of xs)(k \<mapsto> v)"
  by (induction k v xs rule: todo_insert.induct) auto

lemma todo_remove_map_of: "map_of (filter (\<lambda>x. fst x \<noteq> k) xs) = (map_of xs)(k := None)"
  by (induction xs) auto

end
