(* ===== verification/SharedOwner.thy ===== *)
theory SharedOwner
  imports Prelude
begin

text \<open>
  The contract of a smart pointer that shares the ownership of an object: pointers are copied and
  dropped, and the object is deleted when the last pointer to it is dropped. The two smart pointers
  of the sources, \<open>linked_ptr\<close> and \<open>scoped_refptr\<close>, are its instances. An object is an
  address; \<open>0\<close> is \<open>NULL\<close>.
\<close>

fun run_all :: "('p \<Rightarrow> 's \<Rightarrow> 's option) \<Rightarrow> 'p list \<Rightarrow> 's \<Rightarrow> 's option" where
  "run_all f [] s = Some s"
| "run_all f (p # ps) s = do { s1 \<leftarrow> f p s; run_all f ps s1 }"

definition last_holder :: "('p \<Rightarrow> nat option) \<Rightarrow> 'p \<Rightarrow> nat \<Rightarrow> bool" where
  "last_holder h p v \<longleftrightarrow> (\<forall>q. q \<noteq> p \<longrightarrow> h q \<noteq> Some v)"

locale shared_owner =
  fixes inv :: "'s \<Rightarrow> bool"
    and holds :: "'s \<Rightarrow> 'p \<Rightarrow> nat option"
    and deleted :: "'s \<Rightarrow> nat list"
    and copy :: "'p \<Rightarrow> 'p \<Rightarrow> 's \<Rightarrow> 's option"
    and drop_ptr :: "'p \<Rightarrow> 's \<Rightarrow> 's option"
  assumes alive: "inv s \<Longrightarrow> holds s p = Some v \<Longrightarrow> v \<noteq> 0 \<Longrightarrow> v \<notin> set (deleted s)"
    and copy_law: "inv s \<Longrightarrow> holds s p = None \<Longrightarrow> holds s q = Some v \<Longrightarrow>
      \<exists>s'. copy p q s = Some s' \<and> inv s' \<and> holds s' = (holds s)(p \<mapsto> v) \<and> deleted s' = deleted s"
    and drop_law: "inv s \<Longrightarrow> holds s p = Some v \<Longrightarrow>
      \<exists>s'. drop_ptr p s = Some s' \<and> inv s' \<and> holds s' = (holds s)(p := None) \<and>
        deleted s' = deleted s @ (if v \<noteq> 0 \<and> last_holder (holds s) p v then [v] else [])"
begin

text \<open>Dropping some of the pointers to an object keeps it as long as another one is left.\<close>

lemma drop_some:
  assumes "inv s" "distinct ps" "\<forall>p \<in> set ps. holds s p = Some v" "holds s q = Some v" "q \<notin> set ps"
  shows "\<exists>s'. run_all drop_ptr ps s = Some s' \<and> inv s' \<and>
    holds s' = (\<lambda>p. if p \<in> set ps then None else holds s p) \<and> deleted s' = deleted s"
  using assms
proof (induction ps arbitrary: s)
  case Nil
  then show ?case by simp
next
  case (Cons p ps)
  from Cons.prems have p: "holds s p = Some v" and nl: "\<not> last_holder (holds s) p v"
    by (auto simp: last_holder_def)
  from drop_law [OF Cons.prems(1) p] nl obtain s1 where s1: "drop_ptr p s = Some s1" "inv s1"
    "holds s1 = (holds s)(p := None)" "deleted s1 = deleted s" by auto
  have "\<exists>s'. run_all drop_ptr ps s1 = Some s' \<and> inv s' \<and>
    holds s' = (\<lambda>p. if p \<in> set ps then None else holds s1 p) \<and> deleted s' = deleted s1"
    by (rule Cons.IH [OF s1(2)]) (use Cons.prems s1(3) in auto)
  with s1 show ?case by (auto simp: fun_eq_iff)
qed

text \<open>Dropping all pointers to an object, in any order, deletes it once.\<close>

lemma drop_all:
  assumes "inv s" "distinct ps" "ps \<noteq> []" "v \<noteq> 0" "\<And>p. holds s p = Some v \<longleftrightarrow> p \<in> set ps"
  shows "\<exists>s'. run_all drop_ptr ps s = Some s' \<and> inv s' \<and> deleted s' = deleted s @ [v] \<and>
    v \<notin> set (deleted s)"
proof -
  obtain qs q where ps: "ps = qs @ [q]" using assms(3) by (cases ps rule: rev_cases) auto
  have q: "holds s q = Some v" "q \<notin> set qs" using assms(2,5) ps by auto
  have "\<forall>p \<in> set qs. holds s p = Some v" using assms(5) ps by auto
  from drop_some [OF assms(1) _ this q] assms(2) ps obtain s1 where s1: "run_all drop_ptr qs s = Some s1" "inv s1"
    "holds s1 = (\<lambda>p. if p \<in> set qs then None else holds s p)" "deleted s1 = deleted s" by auto
  have "holds s1 q = Some v" "last_holder (holds s1) q v"
    using q s1(3) assms(5) ps by (auto simp: last_holder_def)
  with drop_law [OF s1(2), of q v] assms(4) s1(4) obtain s2 where s2: "drop_ptr q s1 = Some s2" "inv s2"
    "deleted s2 = deleted s @ [v]" by auto
  have "run_all drop_ptr (qs @ rs) s = do { s1 \<leftarrow> run_all drop_ptr qs s; run_all drop_ptr rs s1 }" for rs s qs
    by (induction qs arbitrary: s) (auto split: Option.bind_splits)
  with s1(1) s2 ps alive [OF assms(1) q(1) assms(4)] show ?thesis by auto
qed

end

end
