(* ===== verification/LinkedPtr.thy ===== *)
theory LinkedPtr
  imports SharedOwner
begin

text \<open>
  \<open>linked_ptr\<close> of \<open>src/common/linked_ptr.h\<close>: all pointers to an object are linked in a circle; a
  pointer that leaves a circle of which it is the only member deletes the object. The pointers are
  objects in memory, addressed by numbers; the loops over a circle have no result if they do not
  end.
\<close>

section \<open>The circle\<close>

record lp_heap =
  lp_next :: "nat \<Rightarrow> nat"
  lp_value :: "nat \<Rightarrow> nat"
  lp_live :: "nat set"
  lp_deleted :: "nat list"

definition join_new :: "nat \<Rightarrow> lp_heap \<Rightarrow> lp_heap" where
  "join_new this h = h\<lparr>lp_next := (lp_next h)(this := this)\<rparr>"

text \<open>The loop \<open>while (p->next_ != ptr) p = p->next_\<close>.\<close>

partial_function (option) find_last :: "(nat \<Rightarrow> nat) \<Rightarrow> nat \<Rightarrow> nat \<Rightarrow> nat option" where
  "find_last nx ptr p = (if nx p = ptr then Some p else find_last nx ptr (nx p))"

declare find_last.simps [code]

definition join :: "nat \<Rightarrow> nat \<Rightarrow> lp_heap \<Rightarrow> lp_heap option" where
  "join this ptr h =
     do { p \<leftarrow> find_last (lp_next h) ptr ptr;
          let h1 = h\<lparr>lp_next := (lp_next h)(p := this)\<rparr>;
          Some (h1\<lparr>lp_next := (lp_next h1)(this := ptr)\<rparr>) }"

definition link_depart :: "nat \<Rightarrow> lp_heap \<Rightarrow> (bool \<times> lp_heap) option" where
  "link_depart this h =
     (if lp_next h this = this then Some (True, h)
      else do { p \<leftarrow> find_last (lp_next h) this (lp_next h this);
                Some (False, h\<lparr>lp_next := (lp_next h)(p := lp_next h this)\<rparr>) })"

section \<open>The smart pointer\<close>

definition lp_depart :: "nat \<Rightarrow> lp_heap \<Rightarrow> lp_heap option" where
  "lp_depart this h =
     do { (last_one, h1) \<leftarrow> link_depart this h;
          Some (if last_one \<and> lp_value h1 this \<noteq> 0
                then h1\<lparr>lp_deleted := lp_deleted h1 @ [lp_value h1 this]\<rparr> else h1) }"

definition lp_capture :: "nat \<Rightarrow> nat \<Rightarrow> lp_heap \<Rightarrow> lp_heap" where
  "lp_capture this ptr h = join_new this (h\<lparr>lp_value := (lp_value h)(this := ptr)\<rparr>)"

definition lp_copy :: "nat \<Rightarrow> nat \<Rightarrow> lp_heap \<Rightarrow> lp_heap option" where
  "lp_copy this ptr h =
     (let h1 = h\<lparr>lp_value := (lp_value h)(this := lp_value h ptr)\<rparr>
      in if lp_value h1 this \<noteq> 0 then join this ptr h1 else Some (join_new this h1))"

definition lp_construct :: "nat \<Rightarrow> nat \<Rightarrow> lp_heap \<Rightarrow> lp_heap" where
  "lp_construct this ptr h = lp_capture this ptr (h\<lparr>lp_live := insert this (lp_live h)\<rparr>)"

definition lp_destroy :: "nat \<Rightarrow> lp_heap \<Rightarrow> lp_heap option" where
  "lp_destroy this h = do { h1 \<leftarrow> lp_depart this h; Some (h1\<lparr>lp_live := lp_live h1 - {this}\<rparr>) }"

definition lp_copy_construct :: "nat \<Rightarrow> nat \<Rightarrow> lp_heap \<Rightarrow> lp_heap option" where
  "lp_copy_construct this ptr h =
     do { assert_that (ptr \<noteq> this); lp_copy this ptr (h\<lparr>lp_live := insert this (lp_live h)\<rparr>) }"

definition lp_assign :: "nat \<Rightarrow> nat \<Rightarrow> lp_heap \<Rightarrow> lp_heap option" where
  "lp_assign this ptr h =
     (if ptr \<noteq> this then do { h1 \<leftarrow> lp_depart this h; lp_copy this ptr h1 } else Some h)"

definition lp_reset :: "nat \<Rightarrow> nat \<Rightarrow> lp_heap \<Rightarrow> lp_heap option" where
  "lp_reset this ptr h = do { h1 \<leftarrow> lp_depart this h; Some (lp_capture this ptr h1) }"

definition lp_release :: "nat \<Rightarrow> lp_heap \<Rightarrow> (nat \<times> lp_heap) option" where
  "lp_release this h =
     do { (last_one, h1) \<leftarrow> link_depart this h;
          assert_that last_one;
          Some (lp_value h1 this, h1\<lparr>lp_value := (lp_value h1)(this := 0)\<rparr>) }"

definition lp_get :: "nat \<Rightarrow> lp_heap \<Rightarrow> nat" where
  "lp_get this h = lp_value h this"

definition lp_equal :: "nat \<Rightarrow> nat \<Rightarrow> lp_heap \<Rightarrow> bool" where
  "lp_equal this ptr h \<longleftrightarrow> lp_value h this = lp_get ptr h"

section \<open>Chains\<close>

text \<open>\<open>chain nx xs b\<close>: following \<open>nx\<close> from the head of \<open>xs\<close> visits \<open>xs\<close> and ends in \<open>b\<close>.\<close>

fun chain :: "(nat \<Rightarrow> nat) \<Rightarrow> nat list \<Rightarrow> nat \<Rightarrow> bool" where
  "chain nx [] b \<longleftrightarrow> True"
| "chain nx (x # xs) b \<longleftrightarrow> nx x = hd (xs @ [b]) \<and> chain nx xs b"

definition circle :: "(nat \<Rightarrow> nat) \<Rightarrow> nat \<Rightarrow> nat list \<Rightarrow> bool" where
  "circle nx a xs \<longleftrightarrow> xs \<noteq> [] \<and> hd xs = a \<and> distinct xs \<and> chain nx xs a"

lemma chain_append: "chain nx (xs @ ys) b \<longleftrightarrow> chain nx xs (hd (ys @ [b])) \<and> chain nx ys b"
proof (induction xs)
  case (Cons x xs)
  have "hd (xs @ ys @ [b]) = hd (xs @ [hd (ys @ [b])])" by (cases xs; cases ys) auto
  with Cons show ?case by auto
qed simp

lemma chain_cong: "(\<And>x. x \<in> set xs \<Longrightarrow> nx x = nx' x) \<Longrightarrow> chain nx xs b = chain nx' xs b"
  by (induction xs) auto

lemma circle_cong: "(\<And>x. x \<in> set xs \<Longrightarrow> nx x = nx' x) \<Longrightarrow> circle nx a xs = circle nx' a xs"
  unfolding circle_def by (simp cong: chain_cong)

lemma chain_redirect:
  assumes "chain nx xs b" "xs \<noteq> []" "distinct xs"
  shows "chain (nx(last xs := c)) xs c"
proof -
  obtain ys l where xs: "xs = ys @ [l]" using assms(2) by (cases xs rule: rev_cases) auto
  with assms have "chain nx ys l" "l \<notin> set ys" by (auto simp: chain_append)
  then have "chain (nx(l := c)) ys l" by (subst chain_cong [where nx' = nx]) auto
  with xs show ?thesis by (simp add: chain_append)
qed

lemma circle_rotate:
  assumes "circle nx a xs" "b \<in> set xs"
  obtains ys where "circle nx b ys" "set ys = set xs"
proof -
  from assms(2) obtain us vs where xs: "xs = us @ b # vs" by (auto dest: split_list)
  have "circle nx b ((b # vs) @ us)"
  proof (cases "us = []")
    case True
    with assms xs show ?thesis by (auto simp: circle_def)
  next
    case False
    with assms xs have "hd us = a" "chain nx us b" "chain nx (b # vs) a"
      by (auto simp: circle_def chain_append)
    moreover from False \<open>hd us = a\<close> have "hd (us @ [b]) = a" by (cases us) auto
    ultimately have "chain nx ((b # vs) @ us) b" by (simp only: chain_append)
    with assms(1) xs show ?thesis by (auto simp: circle_def)
  qed
  with that [of "(b # vs) @ us"] xs show thesis by auto
qed

lemma find_last_chain:
  assumes "chain nx xs ptr" "xs \<noteq> []" "ptr \<notin> set (tl xs)"
  shows "find_last nx ptr (hd xs) = Some (last xs)"
  using assms
proof (induction xs)
  case (Cons x xs)
  show ?case
  proof (cases xs)
    case Nil
    with Cons.prems show ?thesis by (simp add: find_last.simps)
  next
    case (Cons y ys)
    with Cons.prems Cons.IH have "find_last nx ptr y = Some (last xs)" "nx x = y" "y \<noteq> ptr" by auto
    with Cons show ?thesis by (subst find_last.simps) simp
  qed
qed simp

section \<open>Invariant\<close>

text \<open>The pointers that share the object of \<open>a\<close>; a \<open>NULL\<close> pointer is alone.\<close>

definition peers :: "lp_heap \<Rightarrow> nat \<Rightarrow> nat set" where
  "peers h a = (if lp_value h a = 0 then {a} else {b \<in> lp_live h. lp_value h b = lp_value h a})"

definition lp_inv :: "lp_heap \<Rightarrow> bool" where
  "lp_inv h \<longleftrightarrow> (\<forall>a \<in> lp_live h. \<exists>xs. circle (lp_next h) a xs \<and> set xs = peers h a) \<and>
     (\<forall>a \<in> lp_live h. lp_value h a \<noteq> 0 \<longrightarrow> lp_value h a \<notin> set (lp_deleted h))"

definition lp_holds :: "lp_heap \<Rightarrow> nat \<Rightarrow> nat option" where
  "lp_holds h a = (if a \<in> lp_live h then Some (lp_value h a) else None)"

lemma peers_self: "a \<in> lp_live h \<Longrightarrow> a \<in> peers h a"
  by (simp add: peers_def)

lemma peers_eq: "b \<in> peers h a \<Longrightarrow> peers h b = peers h a"
  by (auto simp: peers_def split: if_splits)

lemma peers_disjoint: "b \<notin> peers h a \<Longrightarrow> a \<in> lp_live h \<Longrightarrow> b \<in> lp_live h \<Longrightarrow> peers h b \<inter> peers h a = {}"
  by (auto simp: peers_def split: if_splits)

lemma lp_circle:
  assumes "lp_inv h" "a \<in> lp_live h"
  obtains ys where "chain (lp_next h) (a # ys) a" "distinct (a # ys)" "set (a # ys) = peers h a"
proof -
  from assms obtain xs where "circle (lp_next h) a xs" "set xs = peers h a" by (auto simp: lp_inv_def)
  then show thesis using that [of "tl xs"] by (cases xs) (auto simp: circle_def)
qed

text \<open>
  It is enough to show a circle for one member of each class of pointers that changed.
\<close>

lemma circles_from_one:
  assumes "circle nx a xs" "set xs = P" "b \<in> P"
  shows "\<exists>ys. circle nx b ys \<and> set ys = P"
  using circle_rotate [OF assms(1)] assms(2,3) by metis

lemma depart_last:
  assumes "lp_inv h" "a \<in> lp_live h" "peers h a = {a}"
  shows "link_depart a h = Some (True, h)"
proof -
  from lp_circle [OF assms(1,2)] obtain ys where "chain (lp_next h) (a # ys) a" "distinct (a # ys)"
    "set (a # ys) = {a}" using assms(3) by metis
  then have "lp_next h a = a" by (cases ys) auto
  then show ?thesis by (simp add: link_depart_def)
qed

lemma depart_other:
  assumes "lp_inv h" "a \<in> lp_live h" "peers h a \<noteq> {a}"
  obtains nx ys where "link_depart a h = Some (False, h\<lparr>lp_next := nx\<rparr>)" "ys \<noteq> []"
    "circle nx (hd ys) ys" "set ys = peers h a - {a}" "\<And>x. x \<notin> set ys \<Longrightarrow> nx x = lp_next h x"
proof -
  from lp_circle [OF assms(1,2)] obtain ys where ys: "chain (lp_next h) (a # ys) a" "distinct (a # ys)"
    "set (a # ys) = peers h a" by metis
  with assms(3) have ne: "ys \<noteq> []" by auto
  then have nxa: "lp_next h a = hd ys" "hd ys \<noteq> a" and c: "chain (lp_next h) ys a"
    using ys by (cases ys; auto)+
  from c ne have "find_last (lp_next h) a (hd ys) = Some (last ys)"
    by (rule find_last_chain) (use ys(2) ne in \<open>auto dest: list.set_sel(2)\<close>)
  then have "link_depart a h = Some (False, h\<lparr>lp_next := (lp_next h)(last ys := hd ys)\<rparr>)"
    using nxa by (simp add: link_depart_def)
  moreover have "circle ((lp_next h)(last ys := hd ys)) (hd ys) ys"
    using chain_redirect [OF c ne] ys(2) ne by (simp add: circle_def)
  moreover have "set ys = peers h a - {a}" using ys(2,3) by auto
  moreover have "((lp_next h)(last ys := hd ys)) x = lp_next h x" if "x \<notin> set ys" for x
    using that ne by auto
  ultimately show thesis using that [OF _ ne] by blast
qed

lemma join_circle:
  assumes "chain (lp_next h) (b # ys) b" "distinct (b # ys)" "a \<notin> set (b # ys)"
  shows "join a b h = Some (h\<lparr>lp_next := (lp_next h)(last (b # ys) := a, a := b)\<rparr>)"
    "circle ((lp_next h)(last (b # ys) := a, a := b)) b (b # ys @ [a])"
proof -
  have "find_last (lp_next h) b (hd (b # ys)) = Some (last (b # ys))"
    by (rule find_last_chain [OF assms(1)]) (use assms(2) in auto)
  then show "join a b h = Some (h\<lparr>lp_next := (lp_next h)(last (b # ys) := a, a := b)\<rparr>)"
    by (simp add: join_def)
  have "chain ((lp_next h)(last (b # ys) := a)) (b # ys) a"
    by (rule chain_redirect [OF assms(1) _ assms(2)]) simp
  then have "chain ((lp_next h)(last (b # ys) := a, a := b)) (b # ys) a"
    by (subst chain_cong [where nx' = "(lp_next h)(last (b # ys) := a)"]) (use assms(3) in auto)
  then have "chain ((lp_next h)(last (b # ys) := a, a := b)) ((b # ys) @ [a]) b"
    by (simp add: chain_append del: append_Cons)
  with assms(2,3) show "circle ((lp_next h)(last (b # ys) := a, a := b)) b (b # ys @ [a])"
    by (auto simp: circle_def)
qed

lemma lp_inv_leave:
  assumes inv: "lp_inv h" and a: "a \<in> lp_live h"
    and rest: "\<And>b. b \<in> peers h a - {a} \<Longrightarrow> \<exists>ys. circle nx b ys \<and> set ys = peers h a - {a}"
    and same: "\<And>x. x \<notin> peers h a - {a} \<Longrightarrow> nx x = lp_next h x"
    and dels: "ds = [] \<or> ds = [lp_value h a] \<and> peers h a = {a} \<and> lp_value h a \<noteq> 0"
  shows "lp_inv (h\<lparr>lp_next := nx, lp_live := lp_live h - {a}, lp_deleted := lp_deleted h @ ds\<rparr>)"
    (is "lp_inv ?h")
proof -
  have "\<exists>xs. circle nx b xs \<and> set xs = peers ?h b" if b: "b \<in> lp_live h" "b \<noteq> a" for b
  proof (cases "b \<in> peers h a")
    case True
    then have "peers ?h b = peers h a - {a}"
      using b by (auto simp: peers_def split: if_splits)
    with rest [of b] True b show ?thesis by simp
  next
    case False
    then have p: "peers ?h b = peers h b" using a b by (auto simp: peers_def split: if_splits)
    from inv b obtain xs where xs: "circle (lp_next h) b xs" "set xs = peers h b" by (auto simp: lp_inv_def)
    have "circle nx b xs = circle (lp_next h) b xs"
      by (rule circle_cong) (use same xs(2) peers_disjoint [OF False a b(1)] in auto)
    with xs p show ?thesis by auto
  qed
  moreover have "lp_value h b \<notin> set (lp_deleted h @ ds)" if "b \<in> lp_live h" "b \<noteq> a" "lp_value h b \<noteq> 0" for b
    using that inv dels by (auto simp: lp_inv_def peers_def split: if_splits)
  ultimately show ?thesis unfolding lp_inv_def by simp
qed

lemma lp_depart_law:
  assumes inv: "lp_inv h" and a: "a \<in> lp_live h"
  shows "\<exists>nx. let ds = (if lp_value h a \<noteq> 0 \<and> peers h a = {a} then [lp_value h a] else []) in
    lp_depart a h = Some (h\<lparr>lp_next := nx, lp_deleted := lp_deleted h @ ds\<rparr>) \<and>
    lp_inv (h\<lparr>lp_next := nx, lp_live := lp_live h - {a}, lp_deleted := lp_deleted h @ ds\<rparr>)"
proof (cases "peers h a = {a}")
  case True
  have "lp_inv (h\<lparr>lp_next := lp_next h, lp_live := lp_live h - {a}, lp_deleted := lp_deleted h @
      (if lp_value h a \<noteq> 0 \<and> peers h a = {a} then [lp_value h a] else [])\<rparr>)"
    by (rule lp_inv_leave [OF inv a]) (use True in auto)
  with depart_last [OF inv a True] True show ?thesis
    by (intro exI [of _ "lp_next h"]) (simp add: lp_depart_def)
next
  case False
  from depart_other [OF inv a False] obtain nx ys where d: "link_depart a h = Some (False, h\<lparr>lp_next := nx\<rparr>)"
    "circle nx (hd ys) ys" "set ys = peers h a - {a}" "\<And>x. x \<notin> set ys \<Longrightarrow> nx x = lp_next h x" by metis
  have "lp_inv (h\<lparr>lp_next := nx, lp_live := lp_live h - {a}, lp_deleted := lp_deleted h @ []\<rparr>)"
    by (rule lp_inv_leave [OF inv a]) (use d circles_from_one [OF d(2,3)] in auto)
  with d(1) False show ?thesis by (intro exI [of _ nx]) (simp add: lp_depart_def)
qed

lemma lp_inv_enter:
  assumes inv: "lp_inv h" and a: "a \<notin> lp_live h"
    and circ: "\<And>b. b \<in> insert a P \<Longrightarrow> \<exists>ys. circle nx b ys \<and> set ys = insert a P"
    and P: "P = (if v = 0 then {} else {b \<in> lp_live h. lp_value h b = v})"
    and same: "\<And>x. x \<notin> insert a P \<Longrightarrow> nx x = lp_next h x"
    and alive: "v \<noteq> 0 \<Longrightarrow> v \<notin> set (lp_deleted h)"
  shows "lp_inv (h\<lparr>lp_next := nx, lp_value := (lp_value h)(a := v), lp_live := insert a (lp_live h)\<rparr>)"
    (is "lp_inv ?h")
proof -
  have "\<exists>xs. circle nx b xs \<and> set xs = peers ?h b" if b: "b \<in> insert a (lp_live h)" for b
  proof (cases "b \<in> insert a P")
    case True
    then have "peers ?h b = insert a P"
      using a P b by (auto simp: peers_def split: if_splits)
    with circ [OF True] show ?thesis by simp
  next
    case False
    with b have b': "b \<in> lp_live h" "b \<noteq> a" by auto
    have p: "peers ?h b = peers h b" using False a b' P by (auto simp: peers_def split: if_splits)
    from inv b' obtain xs where xs: "circle (lp_next h) b xs" "set xs = peers h b" by (auto simp: lp_inv_def)
    have "x \<notin> insert a P" if "x \<in> peers h b" for x
      using that False a b' P by (auto simp: peers_def split: if_splits)
    with same xs(2) have "circle nx b xs = circle (lp_next h) b xs" by (intro circle_cong) auto
    with xs p show ?thesis by auto
  qed
  moreover have "lp_value ?h b \<notin> set (lp_deleted h)" if "b \<in> insert a (lp_live h)" "lp_value ?h b \<noteq> 0" for b
    using that inv alive by (auto simp: lp_inv_def split: if_splits)
  ultimately show ?thesis unfolding lp_inv_def by simp
qed

lemma circle_single: "nx a = a \<Longrightarrow> circle nx a [a]"
  by (simp add: circle_def)

lemma lp_copy_law:
  assumes inv: "lp_inv h" and a: "a \<notin> lp_live h" and b: "b \<in> lp_live h"
  shows "\<exists>nx. (\<forall>L. lp_copy a b (h\<lparr>lp_live := L\<rparr>) =
      Some (h\<lparr>lp_next := nx, lp_value := (lp_value h)(a := lp_value h b), lp_live := L\<rparr>)) \<and>
    lp_inv (h\<lparr>lp_next := nx, lp_value := (lp_value h)(a := lp_value h b), lp_live := insert a (lp_live h)\<rparr>)"
proof (cases "lp_value h b = 0")
  case True
  let ?nx = "(lp_next h)(a := a)"
  have "lp_inv (h\<lparr>lp_next := ?nx, lp_value := (lp_value h)(a := 0), lp_live := insert a (lp_live h)\<rparr>)"
    by (rule lp_inv_enter [OF inv a, where P = "{}"]) (use circle_single [of ?nx a] in auto)
  with True show ?thesis by (intro exI [of _ ?nx]) (simp add: lp_copy_def join_new_def)
next
  case False
  from lp_circle [OF inv b] obtain ys where ys: "chain (lp_next h) (b # ys) b" "distinct (b # ys)"
    "set (b # ys) = peers h b" by metis
  have an: "a \<notin> set (b # ys)" using ys(3) a False by (auto simp: peers_def)
  let ?nx = "(lp_next h)(last (b # ys) := a, a := b)"
  have P: "peers h b = {c \<in> lp_live h. lp_value h c = lp_value h b}" using False by (simp add: peers_def)
  have J: "join a b k = Some (k\<lparr>lp_next := ?nx\<rparr>)" if "lp_next k = lp_next h" for k
  proof -
    have "join a b k = Some (k\<lparr>lp_next := (lp_next k)(last (b # ys) := a, a := b)\<rparr>)"
      by (rule join_circle(1)) (use ys(1,2) an that in auto)
    then show ?thesis by (simp only: that)
  qed
  have C: "circle ?nx b (b # ys @ [a])" by (rule join_circle(2) [OF ys(1,2) an])
  have "last (b # ys) \<in> set (b # ys)" by (rule last_in_set) simp
  then have same: "?nx x = lp_next h x" if "x \<notin> insert a (peers h b)" for x
    using that unfolding ys(3) by (metis fun_upd_other insertCI)
  have "lp_inv (h\<lparr>lp_next := ?nx, lp_value := (lp_value h)(a := lp_value h b), lp_live := insert a (lp_live h)\<rparr>)"
  proof (rule lp_inv_enter [OF inv a, where P = "peers h b"])
    fix c
    assume "c \<in> insert a (peers h b)"
    moreover have "set (b # ys @ [a]) = insert a (peers h b)" unfolding ys(3) [symmetric] by auto
    ultimately show "\<exists>ys. circle ?nx c ys \<and> set ys = insert a (peers h b)"
      using circles_from_one [OF C] by blast
  next
    show "lp_value h b \<notin> set (lp_deleted h)" if "lp_value h b \<noteq> 0"
      using inv b that by (simp add: lp_inv_def)
  next
    show "peers h b = (if lp_value h b = 0 then {} else {c \<in> lp_live h. lp_value h c = lp_value h b})"
      using P False by simp
  qed (rule same)
  moreover have "lp_copy a b (h\<lparr>lp_live := L\<rparr>) =
      Some (h\<lparr>lp_next := ?nx, lp_value := (lp_value h)(a := lp_value h b), lp_live := L\<rparr>)" for L
    using False J by (simp add: lp_copy_def)
  ultimately show ?thesis by blast
qed

lemma lp_capture_law:
  assumes "lp_inv h" "a \<notin> lp_live h" "v = 0 \<or> v \<notin> set (lp_deleted h) \<and> (\<forall>b \<in> lp_live h. lp_value h b \<noteq> v)"
  shows "lp_inv ((lp_capture a v h)\<lparr>lp_live := insert a (lp_live h)\<rparr>)"
proof -
  let ?nx = "(lp_next h)(a := a)"
  have "lp_inv (h\<lparr>lp_next := ?nx, lp_value := (lp_value h)(a := v), lp_live := insert a (lp_live h)\<rparr>)"
    by (rule lp_inv_enter [OF assms(1,2), where P = "{}"]) (use circle_single [of ?nx a] assms(3) in auto)
  moreover have "(lp_capture a v h)\<lparr>lp_live := insert a (lp_live h)\<rparr> =
      h\<lparr>lp_next := ?nx, lp_value := (lp_value h)(a := v), lp_live := insert a (lp_live h)\<rparr>"
    by (simp add: lp_capture_def join_new_def)
  ultimately show ?thesis by (simp only:)
qed

section \<open>Shared ownership\<close>

lemma last_holder_peers:
  assumes "a \<in> lp_live h" "lp_value h a \<noteq> 0"
  shows "last_holder (lp_holds h) a (lp_value h a) \<longleftrightarrow> peers h a = {a}"
  using assms by (auto simp: last_holder_def lp_holds_def peers_def split: if_splits)

lemma lp_destroy_law:
  assumes "lp_inv h" "lp_holds h a = Some v"
  shows "\<exists>h'. lp_destroy a h = Some h' \<and> lp_inv h' \<and> lp_holds h' = (lp_holds h)(a := None) \<and>
    lp_deleted h' = lp_deleted h @ (if v \<noteq> 0 \<and> last_holder (lp_holds h) a v then [v] else [])"
proof -
  from assms(2) have a: "a \<in> lp_live h" "v = lp_value h a" by (auto simp: lp_holds_def split: if_splits)
  let ?ds = "if lp_value h a \<noteq> 0 \<and> peers h a = {a} then [lp_value h a] else []"
  from lp_depart_law [OF assms(1) a(1)] obtain nx where
    d: "lp_depart a h = Some (h\<lparr>lp_next := nx, lp_deleted := lp_deleted h @ ?ds\<rparr>)"
    "lp_inv (h\<lparr>lp_next := nx, lp_live := lp_live h - {a}, lp_deleted := lp_deleted h @ ?ds\<rparr>)"
    by (auto simp: Let_def)
  let ?h = "h\<lparr>lp_next := nx, lp_live := lp_live h - {a}, lp_deleted := lp_deleted h @ ?ds\<rparr>"
  have "lp_destroy a h = Some ?h" using d(1) by (simp add: lp_destroy_def)
  moreover have "lp_holds ?h = (lp_holds h)(a := None)" by (auto simp: lp_holds_def fun_eq_iff)
  moreover have "?ds = (if v \<noteq> 0 \<and> last_holder (lp_holds h) a v then [v] else [])"
    using last_holder_peers [OF a(1)] a(2) by auto
  ultimately show ?thesis using d(2) by auto
qed

lemma lp_copy_construct_law:
  assumes "lp_inv h" "lp_holds h a = None" "lp_holds h b = Some v"
  shows "\<exists>h'. lp_copy_construct a b h = Some h' \<and> lp_inv h' \<and> lp_holds h' = (lp_holds h)(a \<mapsto> v) \<and>
    lp_deleted h' = lp_deleted h"
proof -
  from assms(2,3) have a: "a \<notin> lp_live h" and b: "b \<in> lp_live h" "v = lp_value h b"
    by (auto simp: lp_holds_def split: if_splits)
  from lp_copy_law [OF assms(1) a b(1)] obtain nx where c: "lp_copy a b (h\<lparr>lp_live := L\<rparr>) =
      Some (h\<lparr>lp_next := nx, lp_value := (lp_value h)(a := lp_value h b), lp_live := L\<rparr>)"
    and i: "lp_inv (h\<lparr>lp_next := nx, lp_value := (lp_value h)(a := lp_value h b), lp_live := insert a (lp_live h)\<rparr>)"
    for L by blast
  let ?h = "h\<lparr>lp_next := nx, lp_value := (lp_value h)(a := lp_value h b), lp_live := insert a (lp_live h)\<rparr>"
  have "lp_copy_construct a b h = Some ?h"
  proof -
    have "b \<noteq> a" using a b by blast
    then show ?thesis using c [of "insert a (lp_live h)"] by (simp add: lp_copy_construct_def)
  qed
  moreover have "lp_holds ?h = (lp_holds h)(a \<mapsto> v)" using a b by (auto simp: lp_holds_def fun_eq_iff)
  ultimately show ?thesis using i by auto
qed

interpretation linked: shared_owner lp_inv lp_holds lp_deleted lp_copy_construct lp_destroy
proof (unfold_locales, goal_cases)
  case (1 s p v)
  then show ?case by (auto simp: lp_inv_def lp_holds_def split: if_splits)
next
  case (2 s p q v)
  then show ?case by (rule lp_copy_construct_law)
next
  case (3 s p v)
  then show ?case by (rule lp_destroy_law)
qed

text \<open>Assignment is the release of the old object followed by a copy.\<close>

lemma lp_assign_law:
  assumes "lp_inv h" "a \<in> lp_live h" "b \<in> lp_live h" "a \<noteq> b"
  shows "\<exists>h'. lp_assign a b h = Some h' \<and> lp_inv h' \<and> lp_holds h' = (lp_holds h)(a \<mapsto> lp_value h b) \<and>
    lp_deleted h' = lp_deleted h @ (if lp_value h a \<noteq> 0 \<and> peers h a = {a} then [lp_value h a] else [])"
proof -
  let ?ds = "if lp_value h a \<noteq> 0 \<and> peers h a = {a} then [lp_value h a] else []"
  from lp_depart_law [OF assms(1,2)] obtain nx where
    d: "lp_depart a h = Some (h\<lparr>lp_next := nx, lp_deleted := lp_deleted h @ ?ds\<rparr>)"
    "lp_inv (h\<lparr>lp_next := nx, lp_live := lp_live h - {a}, lp_deleted := lp_deleted h @ ?ds\<rparr>)"
    by (auto simp: Let_def)
  let ?h1 = "h\<lparr>lp_next := nx, lp_live := lp_live h - {a}, lp_deleted := lp_deleted h @ ?ds\<rparr>"
  from lp_copy_law [OF d(2), of a b] assms(3,4) obtain nx' where
    c: "lp_copy a b (?h1\<lparr>lp_live := L\<rparr>) =
      Some (?h1\<lparr>lp_next := nx', lp_value := (lp_value h)(a := lp_value h b), lp_live := L\<rparr>)"
    and i: "lp_inv (?h1\<lparr>lp_next := nx', lp_value := (lp_value h)(a := lp_value h b),
      lp_live := insert a (lp_live h - {a})\<rparr>)" for L by auto
  have eq: "?h1\<lparr>lp_live := lp_live h\<rparr> = h\<lparr>lp_next := nx, lp_deleted := lp_deleted h @ ?ds\<rparr>" by simp
  let ?h' = "?h1\<lparr>lp_next := nx', lp_value := (lp_value h)(a := lp_value h b), lp_live := lp_live h\<rparr>"
  have "lp_assign a b h = Some ?h'"
    using d(1) assms(4) c [of "lp_live h"] unfolding eq by (simp add: lp_assign_def)
  moreover have "lp_inv ?h'" using i assms(2) by (simp add: insert_absorb)
  moreover have "lp_holds ?h' = (lp_holds h)(a \<mapsto> lp_value h b)"
    using assms(2) by (auto simp: lp_holds_def fun_eq_iff)
  ultimately show ?thesis by auto
qed

text \<open>
  C19. When all \<open>linked_ptr\<close>s to an object are destroyed, in any order, every loop over their circle
  ends and the object, which was not deleted before, is deleted exactly once, by the last of them.
\<close>

theorem linked_ptr_deletes_once:
  assumes "lp_inv h" "distinct ps" "ps \<noteq> []" "v \<noteq> 0" "\<forall>p. lp_holds h p = Some v \<longleftrightarrow> p \<in> set ps"
  shows "\<exists>h'. run_all lp_destroy ps h = Some h' \<and> lp_inv h' \<and>
    lp_deleted h' = lp_deleted h @ [v] \<and> v \<notin> set (lp_deleted h)"
  by (rule linked.drop_all [OF assms(1-4)]) (use assms(5) in blast)

definition two_pointers :: lp_heap where
  "two_pointers = \<lparr>lp_next = (\<lambda>x. x)(10 := 11, 11 := 10), lp_value = (\<lambda>x. 0)(10 := 5, 11 := 5),
     lp_live = {10, 11}, lp_deleted = []\<rparr>"

lemma two_pointers_inv: "lp_inv two_pointers"
proof -
  have "circle (lp_next two_pointers) 10 [10, 11] \<and> set [10, 11] = peers two_pointers 10"
    "circle (lp_next two_pointers) 11 [11, 10] \<and> set [11, 10] = peers two_pointers 11"
    by (auto simp: circle_def peers_def two_pointers_def)
  then have "\<exists>xs. circle (lp_next two_pointers) 10 xs \<and> set xs = peers two_pointers 10"
    "\<exists>xs. circle (lp_next two_pointers) 11 xs \<and> set xs = peers two_pointers 11" by blast+
  moreover have "lp_live two_pointers = {10, 11}" "lp_deleted two_pointers = []" by (simp_all add: two_pointers_def)
  ultimately show ?thesis by (simp add: lp_inv_def)
qed

theorem linked_ptr_deletes_once_witness:
  "\<exists>h'. run_all lp_destroy [10, 11] two_pointers = Some h' \<and> lp_deleted h' = [5]"
proof -
  have "\<forall>p. lp_holds two_pointers p = Some 5 \<longleftrightarrow> p \<in> set [10, 11]"
    by (auto simp: lp_holds_def two_pointers_def)
  from linked_ptr_deletes_once [OF two_pointers_inv _ _ _ this] show ?thesis
    by (auto simp: two_pointers_def)
qed

end
