(* ===== verification/RefPtr.thy ===== *)
theory RefPtr
  imports SharedOwner
begin

text \<open>
  \<open>scoped_refptr\<close>, \<open>RefCount\<close> and \<open>RefCounted\<close> of \<open>src/common/scoped_refptr.h\<close>: a smart pointer
  that counts the references inside the object. Pointers and objects are addresses, \<open>0\<close> is
  \<open>NULL\<close>. A reference to an object that was deleted has no result.
\<close>

section \<open>Counted objects\<close>

record rp_heap =
  rp_count :: "nat \<Rightarrow> int"
  rp_ptr :: "nat \<Rightarrow> nat"
  rp_live :: "nat set"
  rp_deleted :: "nat list"

definition RefCount_Ref :: "nat \<Rightarrow> rp_heap \<Rightarrow> bool \<times> rp_heap" where
  "RefCount_Ref v h =
     (let h1 = h\<lparr>rp_count := (rp_count h)(v := rp_count h v + 1)\<rparr> in (rp_count h1 v = 1, h1))"

definition RefCount_Unref :: "nat \<Rightarrow> rp_heap \<Rightarrow> (bool \<times> rp_heap) option" where
  "RefCount_Unref v h =
     (let h1 = h\<lparr>rp_count := (rp_count h)(v := rp_count h v - 1)\<rparr>;
          count = rp_count h1 v
      in do { assert_that (count \<ge> 0); Some (count = 0, h1) })"

definition RefCounted_Ref :: "nat \<Rightarrow> rp_heap \<Rightarrow> rp_heap option" where
  "RefCounted_Ref v h = do { assert_that (v \<notin> set (rp_deleted h)); Some (snd (RefCount_Ref v h)) }"

definition RefCounted_Unref :: "nat \<Rightarrow> rp_heap \<Rightarrow> rp_heap option" where
  "RefCounted_Unref v h =
     do { assert_that (v \<notin> set (rp_deleted h));
          (last_one, h1) \<leftarrow> RefCount_Unref v h;
          Some (if last_one then h1\<lparr>rp_deleted := rp_deleted h1 @ [v]\<rparr> else h1) }"

definition GetRef :: "nat \<Rightarrow> rp_heap \<Rightarrow> int" where
  "GetRef v h = rp_count h v"

section \<open>The smart pointer\<close>

definition DoRef :: "nat \<Rightarrow> rp_heap \<Rightarrow> rp_heap option" where
  "DoRef p h = (if p \<noteq> 0 then RefCounted_Ref p h else Some h)"

definition DoUnref :: "nat \<Rightarrow> rp_heap \<Rightarrow> rp_heap option" where
  "DoUnref p h = (if p \<noteq> 0 then RefCounted_Unref p h else Some h)"

definition rp_construct :: "nat \<Rightarrow> nat \<Rightarrow> rp_heap \<Rightarrow> rp_heap option" where
  "rp_construct this p h =
     (let h1 = h\<lparr>rp_ptr := (rp_ptr h)(this := p), rp_live := insert this (rp_live h)\<rparr>
      in DoRef (rp_ptr h1 this) h1)"

definition rp_get :: "nat \<Rightarrow> rp_heap \<Rightarrow> nat" where
  "rp_get this h = rp_ptr h this"

definition rp_copy_construct :: "nat \<Rightarrow> nat \<Rightarrow> rp_heap \<Rightarrow> rp_heap option" where
  "rp_copy_construct this b h = rp_construct this (rp_get b h) h"

definition rp_destroy :: "nat \<Rightarrow> rp_heap \<Rightarrow> rp_heap option" where
  "rp_destroy this h = do { h1 \<leftarrow> DoUnref (rp_ptr h this) h; Some (h1\<lparr>rp_live := rp_live h1 - {this}\<rparr>) }"

definition rp_reset :: "nat \<Rightarrow> nat \<Rightarrow> rp_heap \<Rightarrow> rp_heap option" where
  "rp_reset this p h =
     (let tmp = rp_ptr h this;
          h1 = h\<lparr>rp_ptr := (rp_ptr h)(this := p)\<rparr>
      in do { h2 \<leftarrow> DoRef (rp_ptr h1 this) h1; DoUnref tmp h2 })"

definition rp_assign_raw :: "nat \<Rightarrow> nat \<Rightarrow> rp_heap \<Rightarrow> rp_heap option" where
  "rp_assign_raw this p h = rp_reset this p h"

definition rp_assign :: "nat \<Rightarrow> nat \<Rightarrow> rp_heap \<Rightarrow> rp_heap option" where
  "rp_assign this b h = rp_assign_raw this (rp_get b h) h"

definition rp_deref :: "nat \<Rightarrow> rp_heap \<Rightarrow> nat option" where
  "rp_deref this h = do { assert_that (rp_ptr h this \<noteq> 0); Some (rp_ptr h this) }"

definition rp_equal_raw :: "nat \<Rightarrow> nat \<Rightarrow> rp_heap \<Rightarrow> bool" where
  "rp_equal_raw this p h \<longleftrightarrow> rp_ptr h this = p"

definition rp_equal :: "nat \<Rightarrow> nat \<Rightarrow> rp_heap \<Rightarrow> bool" where
  "rp_equal this b h \<longleftrightarrow> rp_equal_raw this (rp_get b h) h"

text \<open>The slot whose address is given out, for a function that stores an object there.\<close>

definition as_out_parameter :: "nat \<Rightarrow> rp_heap \<Rightarrow> nat option" where
  "as_out_parameter this h = do { assert_that (rp_ptr h this = 0); Some this }"

section \<open>Invariant\<close>

text \<open>The count of an object is the number of the smart pointers that point to it.\<close>

definition holders :: "rp_heap \<Rightarrow> nat \<Rightarrow> nat set" where
  "holders h v = {a \<in> rp_live h. rp_ptr h a = v}"

definition rp_inv :: "rp_heap \<Rightarrow> bool" where
  "rp_inv h \<longleftrightarrow> finite (rp_live h) \<and> (\<forall>v. v \<noteq> 0 \<longrightarrow> rp_count h v = int (card (holders h v))) \<and>
     (\<forall>a \<in> rp_live h. rp_ptr h a \<noteq> 0 \<longrightarrow> rp_ptr h a \<notin> set (rp_deleted h))"

definition rp_holds :: "rp_heap \<Rightarrow> nat \<Rightarrow> nat option" where
  "rp_holds h a = (if a \<in> rp_live h then Some (rp_ptr h a) else None)"

lemma finite_holders: "rp_inv h \<Longrightarrow> finite (holders h v)"
  by (simp add: rp_inv_def holders_def)

lemma rp_count_holders: "rp_inv h \<Longrightarrow> v \<noteq> 0 \<Longrightarrow> rp_count h v = int (card (holders h v))"
  by (simp add: rp_inv_def)

lemma holders_single: "a \<in> holders h v \<Longrightarrow> finite (holders h v) \<Longrightarrow> card (holders h v) = 1 \<longleftrightarrow> holders h v = {a}"
  by (auto simp: card_1_singleton_iff)

lemma last_holder_holders:
  "a \<in> holders h v \<Longrightarrow> last_holder (rp_holds h) a v \<longleftrightarrow> holders h v = {a}"
  by (auto simp: last_holder_def rp_holds_def holders_def split: if_splits)

text \<open>
  \<open>DoRef\<close> for a pointer that is about to hold \<open>p\<close>, and \<open>DoUnref\<close> for one that holds it no more.
\<close>

lemma DoRef_result:
  assumes "p = 0 \<or> p \<notin> set (rp_deleted h)"
  shows "DoRef p h = Some (if p = 0 then h else h\<lparr>rp_count := (rp_count h)(p := rp_count h p + 1)\<rparr>)"
  using assms by (auto simp: DoRef_def RefCounted_Ref_def RefCount_Ref_def)

lemma DoUnref_result:
  assumes "p = 0 \<or> p \<notin> set (rp_deleted h) \<and> rp_count h p \<ge> 1"
  shows "DoUnref p h = Some (if p = 0 then h else
    h\<lparr>rp_count := (rp_count h)(p := rp_count h p - 1),
      rp_deleted := rp_deleted h @ (if rp_count h p = 1 then [p] else [])\<rparr>)"
  using assms by (auto simp: DoUnref_def RefCounted_Unref_def RefCount_Unref_def Let_def)

lemma rp_destroy_law:
  assumes inv: "rp_inv h" and a: "rp_holds h a = Some v"
  shows "\<exists>h'. rp_destroy a h = Some h' \<and> rp_inv h' \<and> rp_holds h' = (rp_holds h)(a := None) \<and>
    rp_deleted h' = rp_deleted h @ (if v \<noteq> 0 \<and> last_holder (rp_holds h) a v then [v] else [])"
proof -
  from a have al: "a \<in> rp_live h" "rp_ptr h a = v" by (auto simp: rp_holds_def split: if_splits)
  then have ah: "a \<in> holders h v" by (simp add: holders_def)
  have c: "rp_count h v \<ge> 1" "rp_count h v = 1 \<longleftrightarrow> last_holder (rp_holds h) a v" if "v \<noteq> 0"
    using rp_count_holders [OF inv that] holders_single [OF ah finite_holders [OF inv]]
      last_holder_holders [OF ah] card_gt_0_iff [of "holders h v"] finite_holders [OF inv] ah
    by auto
  let ?ds = "if v \<noteq> 0 \<and> last_holder (rp_holds h) a v then [v] else []"
  let ?h = "h\<lparr>rp_count := (if v = 0 then rp_count h else (rp_count h)(v := rp_count h v - 1)),
    rp_live := rp_live h - {a}, rp_deleted := rp_deleted h @ ?ds\<rparr>"
  have "v = 0 \<or> v \<notin> set (rp_deleted h) \<and> rp_count h v \<ge> 1" using inv al c by (auto simp: rp_inv_def)
  from DoUnref_result [OF this] have "rp_destroy a h = Some ?h"
    using al c by (auto simp: rp_destroy_def)
  moreover have "rp_inv ?h"
  proof -
    have "rp_count ?h w = int (card (holders ?h w))" if w: "w \<noteq> 0" for w
    proof (cases "w = v")
      case True
      then have "holders ?h w = holders h v - {a}" by (auto simp: holders_def)
      with True w rp_count_holders [OF inv] ah finite_holders [OF inv, of v] c(1) show ?thesis
        by (simp add: card_Diff_singleton of_nat_diff)
    next
      case False
      then have "holders ?h w = holders h w" using al by (auto simp: holders_def)
      with False w rp_count_holders [OF inv w] show ?thesis by simp
    qed
    moreover have "\<forall>b \<in> rp_live ?h. rp_ptr ?h b \<noteq> 0 \<longrightarrow> rp_ptr ?h b \<notin> set (rp_deleted ?h)"
      using inv by (auto simp: rp_inv_def last_holder_def rp_holds_def)
    moreover have "finite (rp_live ?h)" using inv by (simp add: rp_inv_def)
    ultimately show ?thesis unfolding rp_inv_def by blast
  qed
  moreover have "rp_holds ?h = (rp_holds h)(a := None)" by (auto simp: rp_holds_def fun_eq_iff)
  ultimately show ?thesis by auto
qed

lemma rp_construct_law:
  assumes inv: "rp_inv h" and a: "a \<notin> rp_live h" and p: "p = 0 \<or> p \<notin> set (rp_deleted h)"
  shows "\<exists>h'. rp_construct a p h = Some h' \<and> rp_inv h' \<and> rp_holds h' = (rp_holds h)(a \<mapsto> p) \<and>
    rp_deleted h' = rp_deleted h"
proof -
  let ?h = "h\<lparr>rp_count := (if p = 0 then rp_count h else (rp_count h)(p := rp_count h p + 1)),
    rp_ptr := (rp_ptr h)(a := p), rp_live := insert a (rp_live h)\<rparr>"
  have "rp_construct a p h = Some ?h"
    using DoRef_result [of p "h\<lparr>rp_ptr := (rp_ptr h)(a := p), rp_live := insert a (rp_live h)\<rparr>"] p
    by (auto simp: rp_construct_def)
  moreover have "rp_inv ?h"
  proof -
    have "rp_count ?h w = int (card (holders ?h w))" if w: "w \<noteq> 0" for w
    proof (cases "w = p")
      case True
      then have "holders ?h w = insert a (holders h p)" "a \<notin> holders h p" using a by (auto simp: holders_def)
      with True w rp_count_holders [OF inv] finite_holders [OF inv, of p] show ?thesis by simp
    next
      case False
      then have "holders ?h w = holders h w" using a by (auto simp: holders_def)
      with False w rp_count_holders [OF inv w] show ?thesis by simp
    qed
    moreover have "\<forall>b \<in> rp_live ?h. rp_ptr ?h b \<noteq> 0 \<longrightarrow> rp_ptr ?h b \<notin> set (rp_deleted ?h)"
      using inv p by (auto simp: rp_inv_def)
    moreover have "finite (rp_live ?h)" using inv by (simp add: rp_inv_def)
    ultimately show ?thesis unfolding rp_inv_def by blast
  qed
  moreover have "rp_holds ?h = (rp_holds h)(a \<mapsto> p)" by (auto simp: rp_holds_def fun_eq_iff)
  ultimately show ?thesis by auto
qed

interpretation counted: shared_owner rp_inv rp_holds rp_deleted rp_copy_construct rp_destroy
proof (unfold_locales, goal_cases)
  case (1 s p v)
  then show ?case by (auto simp: rp_inv_def rp_holds_def split: if_splits)
next
  case (2 s p q v)
  then have "p \<notin> rp_live s" "v = 0 \<or> v \<notin> set (rp_deleted s)" "rp_get q s = v"
    by (auto simp: rp_inv_def rp_holds_def rp_get_def split: if_splits)
  with rp_construct_law [OF 2(1)] show ?case by (auto simp: rp_copy_construct_def)
next
  case (3 s p v)
  then show ?case by (rule rp_destroy_law)
qed

text \<open>
  Setting a \<open>scoped_refptr\<close> to another object, by \<open>reset\<close> or by an assignment, makes it hold
  the new object and deletes the old one exactly when no other pointer holds it; setting it to the
  object it holds already, as in a self-assignment, deletes nothing.
\<close>

theorem scoped_refptr_reset:
  assumes inv: "rp_inv h" and a: "a \<in> rp_live h" and p: "p = 0 \<or> p \<notin> set (rp_deleted h)"
  shows "\<exists>h'. rp_reset a p h = Some h' \<and> rp_inv h' \<and> rp_holds h' = (rp_holds h)(a \<mapsto> p) \<and>
    rp_deleted h' = rp_deleted h @ (if rp_ptr h a \<noteq> 0 \<and> rp_ptr h a \<noteq> p \<and>
      last_holder (rp_holds h) a (rp_ptr h a) then [rp_ptr h a] else [])"
proof (cases "rp_ptr h a = p")
  case True
  let ?h1 = "if p = 0 then h else h\<lparr>rp_count := (rp_count h)(p := rp_count h p + 1)\<rparr>"
  have nn: "rp_count h p \<ge> 0" if "p \<noteq> 0" using rp_count_holders [OF inv that] by simp
  have upd: "(rp_ptr h)(a := p) = rp_ptr h" using True by auto
  have c: "rp_count h p \<ge> 1" if "p \<noteq> 0"
    using rp_count_holders [OF inv that] card_gt_0_iff [of "holders h p"] finite_holders [OF inv, of p] a True
    by (auto simp: holders_def)
  have upd': "h\<lparr>rp_ptr := (rp_ptr h)(a := p)\<rparr> = h" by (simp only: upd) simp
  have "rp_reset a p h = Some h"
    unfolding rp_reset_def Let_def upd' True
    using p c True DoRef_result [OF p] DoUnref_result [of p ?h1] by (cases "p = 0") auto
  moreover have "rp_holds h = (rp_holds h)(a \<mapsto> p)" using a True by (auto simp: rp_holds_def)
  ultimately show ?thesis using inv True by auto
next
  case False
  let ?v = "rp_ptr h a"
  have ah: "a \<in> holders h ?v" "a \<notin> holders h p" using a False by (auto simp: holders_def)
  have c: "rp_count h ?v \<ge> 1" "rp_count h ?v = 1 \<longleftrightarrow> last_holder (rp_holds h) a ?v" if "?v \<noteq> 0"
    using rp_count_holders [OF inv that] holders_single [OF ah(1) finite_holders [OF inv]]
      last_holder_holders [OF ah(1)] card_gt_0_iff [of "holders h ?v"] finite_holders [OF inv] ah(1)
    by auto
  have vd: "?v = 0 \<or> ?v \<notin> set (rp_deleted h)" using inv a by (auto simp: rp_inv_def)
  let ?ds = "if ?v \<noteq> 0 \<and> last_holder (rp_holds h) a ?v then [?v] else []"
  let ?c1 = "if p = 0 then rp_count h else (rp_count h)(p := rp_count h p + 1)"
  let ?h = "h\<lparr>rp_count := (if ?v = 0 then ?c1 else ?c1(?v := ?c1 ?v - 1)), rp_ptr := (rp_ptr h)(a := p),
    rp_deleted := rp_deleted h @ ?ds\<rparr>"
  let ?h1 = "h\<lparr>rp_count := ?c1, rp_ptr := (rp_ptr h)(a := p)\<rparr>"
  have "DoRef p (h\<lparr>rp_ptr := (rp_ptr h)(a := p)\<rparr>) = Some ?h1"
    using DoRef_result [of p "h\<lparr>rp_ptr := (rp_ptr h)(a := p)\<rparr>"] p by auto
  moreover have "DoUnref ?v ?h1 = Some ?h"
    using DoUnref_result [of ?v ?h1] vd c False by auto
  ultimately have "rp_reset a p h = Some ?h" by (simp add: rp_reset_def Let_def)
  moreover have "rp_inv ?h"
  proof -
    have "rp_count ?h w = int (card (holders ?h w))" if w: "w \<noteq> 0" for w
    proof -
      consider "w = p" | "w = ?v" "w \<noteq> p" | "w \<noteq> p" "w \<noteq> ?v" by blast
      then show ?thesis
      proof cases
        case 1
        then have "holders ?h w = insert a (holders h p)" using a by (auto simp: holders_def)
        with 1 w False ah(2) rp_count_holders [OF inv w] finite_holders [OF inv, of p] show ?thesis by auto
      next
        case 2
        then have "holders ?h w = holders h ?v - {a}" using a False by (auto simp: holders_def)
        with 2 w ah(1) rp_count_holders [OF inv w] finite_holders [OF inv, of ?v] c(1) show ?thesis
          by (simp add: card_Diff_singleton of_nat_diff)
      next
        case 3
        then have "holders ?h w = holders h w" using a by (auto simp: holders_def)
        with 3 w rp_count_holders [OF inv w] show ?thesis by auto
      qed
    qed
    moreover have "\<forall>b \<in> rp_live ?h. rp_ptr ?h b \<noteq> 0 \<longrightarrow> rp_ptr ?h b \<notin> set (rp_deleted ?h)"
      using inv p False by (auto simp: rp_inv_def last_holder_def rp_holds_def)
    moreover have "finite (rp_live ?h)" using inv by (simp add: rp_inv_def)
    ultimately show ?thesis unfolding rp_inv_def by blast
  qed
  moreover have "rp_holds ?h = (rp_holds h)(a \<mapsto> p)" using a by (auto simp: rp_holds_def fun_eq_iff)
  ultimately show ?thesis using False by auto
qed

theorem scoped_refptr_reset_witness:
  "\<exists>h'. rp_reset 10 6 \<lparr>rp_count = (\<lambda>_. 0)(5 := 1), rp_ptr = (\<lambda>_. 0)(10 := 5), rp_live = {10}, rp_deleted = []\<rparr> =
     Some h' \<and> rp_deleted h' = [5]"
proof -
  let ?h = "\<lparr>rp_count = (\<lambda>_. 0)(5 := 1), rp_ptr = (\<lambda>_. 0)(10 := 5), rp_live = {10}, rp_deleted = []\<rparr>"
  have "holders ?h v = (if v = 5 then {10} else {})" if "v \<noteq> 0" for v using that by (auto simp: holders_def)
  then have "rp_inv ?h" by (simp add: rp_inv_def)
  from scoped_refptr_reset [OF this, of 10 6] show ?thesis
    by (auto simp: last_holder_def rp_holds_def)
qed

end
