(* ===== verification/MessageService.thy ===== *)
theory MessageService
  imports Sync Serialization "HOL-Library.Sublist"
begin

text \<open>
  The observer service of \<open>src/common/message_service.cc\<close>: threads register observers for topics; a
  notification of a topic is posted once to every thread that has observers of it, and the thread
  calls those of its observers that are still registered. Observers are addresses. The objects whose
  identity the code compares have a number of their own: an \<open>ObserverCollection\<close> per topic, and in
  it an \<open>ObserverSet\<close> per thread.
\<close>

section \<open>State\<close>

record observer_set =
  os_id :: nat
  os_members :: "nat list"

record observer_collection =
  oc_id :: nat
  oc_sets :: "(ThreadId \<times> observer_set) list"

text \<open>
  \<open>std::map\<close> and \<open>std::set\<close> are lists in the order of their keys. \<open>ms_end_hooks\<close> are the threads
  with the thread-local value that removes their observers when they end, \<open>ms_queues\<close> those whose
  message queue the service has initialised.
\<close>

record message_service =
  ms_topics :: "char16 list \<Rightarrow> observer_collection option"
  ms_next_id :: nat
  ms_singleton :: bool
  ms_end_hooks :: "ThreadId set"
  ms_queues :: "ThreadId set"

fun sets_insert :: "ThreadId \<Rightarrow> 'a \<Rightarrow> (ThreadId \<times> 'a) list \<Rightarrow> (ThreadId \<times> 'a) list" where
  "sets_insert t v [] = [(t, v)]"
| "sets_insert t v ((u, w) # xs) =
     (if t < u then (t, v) # (u, w) # xs
      else if t = u then (t, v) # xs
      else (u, w) # sets_insert t v xs)"

definition sets_erase :: "ThreadId \<Rightarrow> (ThreadId \<times> 'a) list \<Rightarrow> (ThreadId \<times> 'a) list" where
  "sets_erase t xs = filter (\<lambda>x. fst x \<noteq> t) xs"

section \<open>The observers of a topic\<close>

definition ms_InitThreadEndHook :: "ThreadId \<Rightarrow> message_service \<Rightarrow> message_service" where
  "ms_InitThreadEndHook me s =
     (if ms_singleton s then
        if me \<notin> ms_end_hooks s then s\<lparr>ms_end_hooks := insert me (ms_end_hooks s)\<rparr> else s
      else s)"

definition GetThreadObserverSet ::
    "ThreadId \<Rightarrow> ThreadId \<Rightarrow> bool \<Rightarrow> observer_collection \<Rightarrow> message_service \<Rightarrow>
      (observer_set option \<times> observer_collection \<times> message_service) option" where
  "GetThreadObserverSet me thread_id create_if_needed c s =
     (case map_of (oc_sets c) thread_id of
        Some os \<Rightarrow> Some (Some os, c, s)
      | None \<Rightarrow>
          if \<not> create_if_needed then Some (None, c, s)
          else do {
            assert_that (me = thread_id);
            let s1 = ms_InitThreadEndHook me s;
            let s2 = s1\<lparr>ms_queues := insert me (ms_queues s1)\<rparr>;
            let os = \<lparr>os_id = ms_next_id s2, os_members = []\<rparr>;
            Some (Some os, c\<lparr>oc_sets := sets_insert thread_id os (oc_sets c)\<rparr>,
                  s2\<lparr>ms_next_id := ms_next_id s2 + 1\<rparr>) })"

definition ObserverCollection_Add ::
    "ThreadId \<Rightarrow> nat \<Rightarrow> observer_collection \<Rightarrow> message_service \<Rightarrow>
      (bool \<times> observer_collection \<times> message_service) option" where
  "ObserverCollection_Add me observer c s =
     do { (os, c1, s1) \<leftarrow> GetThreadObserverSet me me True c s;
          set1 \<leftarrow> os;
          Some (if observer \<in> set (os_members set1) then (False, c1, s1)
                else (True, c1\<lparr>oc_sets := sets_insert me
                        (set1\<lparr>os_members := insort observer (os_members set1)\<rparr>) (oc_sets c1)\<rparr>, s1)) }"

definition ObserverCollection_Remove :: "ThreadId \<Rightarrow> nat \<Rightarrow> observer_collection \<Rightarrow> bool \<times> observer_collection" where
  "ObserverCollection_Remove me observer c =
     (case map_of (oc_sets c) me of
        None \<Rightarrow> (False, c)
      | Some set1 \<Rightarrow>
          if observer \<notin> set (os_members set1) then (False, c)
          else (let set2 = set1\<lparr>os_members := remove1 observer (os_members set1)\<rparr>
                in (True, if os_members set2 = []
                          then c\<lparr>oc_sets := sets_erase me (oc_sets c)\<rparr>
                          else c\<lparr>oc_sets := sets_insert me set2 (oc_sets c)\<rparr>)))"

definition IsEmpty :: "observer_collection \<Rightarrow> bool" where
  "IsEmpty c \<longleftrightarrow> oc_sets c = []"

definition oc_RemoveObserversForThread :: "ThreadId \<Rightarrow> observer_collection \<Rightarrow> observer_collection" where
  "oc_RemoveObserversForThread thread_id c = c\<lparr>oc_sets := sets_erase thread_id (oc_sets c)\<rparr>"

text \<open>The messages that are sent: the thread and the data all of them share.\<close>

definition PostThreadNotifications :: "'d \<Rightarrow> observer_collection \<Rightarrow> (ThreadId \<times> 'd) list" where
  "PostThreadNotifications shared_data c = map (\<lambda>(t, os). (t, shared_data)) (oc_sets c)"

section \<open>The service\<close>

definition GetTopicObserverCollection ::
    "char16 list \<Rightarrow> bool \<Rightarrow> message_service \<Rightarrow> observer_collection option \<times> message_service" where
  "GetTopicObserverCollection topic create_if_needed s =
     (case ms_topics s topic of
        Some c \<Rightarrow> (Some c, s)
      | None \<Rightarrow>
          if \<not> create_if_needed then (None, s)
          else (let c = \<lparr>oc_id = ms_next_id s, oc_sets = []\<rparr>
                in (Some c, s\<lparr>ms_topics := (ms_topics s)(topic \<mapsto> c), ms_next_id := ms_next_id s + 1\<rparr>)))"

definition DeleteTopicObserverCollection :: "char16 list \<Rightarrow> message_service \<Rightarrow> message_service" where
  "DeleteTopicObserverCollection topic s = s\<lparr>ms_topics := (ms_topics s)(topic := None)\<rparr>"

definition store_collection :: "char16 list \<Rightarrow> observer_collection \<Rightarrow> message_service \<Rightarrow> message_service" where
  "store_collection topic c s = s\<lparr>ms_topics := (ms_topics s)(topic \<mapsto> c)\<rparr>"

text \<open>A \<open>NULL\<close> topic is treated as the empty one.\<close>

definition AddObserver :: "ThreadId \<Rightarrow> nat \<Rightarrow> char16 list \<Rightarrow> message_service \<Rightarrow> (bool \<times> message_service) option" where
  "AddObserver me observer topic s =
     (if topic = [] then Some (False, s)
      else case GetTopicObserverCollection topic True s of
             (None, s1) \<Rightarrow> None
           | (Some c, s1) \<Rightarrow>
               do { (ok, c1, s2) \<leftarrow> ObserverCollection_Add me observer c s1;
                    Some (ok, store_collection topic c1 s2) })"

definition RemoveObserver :: "ThreadId \<Rightarrow> nat \<Rightarrow> char16 list \<Rightarrow> message_service \<Rightarrow> bool \<times> message_service" where
  "RemoveObserver me observer topic s =
     (if topic = [] then (False, s)
      else case GetTopicObserverCollection topic False s of
             (None, s1) \<Rightarrow> (False, s1)
           | (Some c, s1) \<Rightarrow>
               let (removed, c1) = ObserverCollection_Remove me observer c;
                   s2 = store_collection topic c1 s1
               in (removed, if removed \<and> IsEmpty c1 then DeleteTopicObserverCollection topic s2 else s2))"

definition ms_RemoveObserversForThread :: "ThreadId \<Rightarrow> message_service \<Rightarrow> message_service" where
  "ms_RemoveObserversForThread thread_id s = s\<lparr>ms_topics := (\<lambda>topic.
     case ms_topics s topic of
       None \<Rightarrow> None
     | Some c \<Rightarrow> let c1 = oc_RemoveObserversForThread thread_id c in if IsEmpty c1 then None else Some c1)\<rparr>"

definition ms_ThreadEndHook :: "ThreadId option \<Rightarrow> message_service \<Rightarrow> message_service" where
  "ms_ThreadEndHook value s =
     (case value of None \<Rightarrow> s | Some thread_id \<Rightarrow> ms_RemoveObserversForThread thread_id s)"

text \<open>
  \<open>NotifyObserversImpl\<close>: the message that is sent to the other processes, if any, and those that are
  posted to the threads. \<open>has_ipc\<close> tells whether there is an inter-process queue.
\<close>

definition NotifyObserversImpl ::
    "bool \<Rightarrow> char16 list \<times> 'd \<Rightarrow> bool \<Rightarrow> message_service \<Rightarrow> (char16 list \<times> 'd) option \<times> (ThreadId \<times> char16 list \<times> 'd) list" where
  "NotifyObserversImpl has_ipc shared_data send_ipc s =
     (if send_ipc \<and> has_ipc then Some shared_data else None,
      case GetTopicObserverCollection (fst shared_data) False s of
        (None, s1) \<Rightarrow> []
      | (Some c, s1) \<Rightarrow> PostThreadNotifications shared_data c)"

definition NotifyObservers ::
    "bool \<Rightarrow> char16 list \<Rightarrow> 'd \<Rightarrow> message_service \<Rightarrow> (char16 list \<times> 'd) option \<times> (ThreadId \<times> char16 list \<times> 'd) list" where
  "NotifyObservers has_ipc topic data s = NotifyObserversImpl has_ipc (topic, data) True s"

definition HandleIpcMessage ::
    "nat \<Rightarrow> nat \<Rightarrow> bool \<Rightarrow> char16 list \<times> 'd \<Rightarrow> message_service \<Rightarrow>
      ((char16 list \<times> 'd) option \<times> (ThreadId \<times> char16 list \<times> 'd) list) option" where
  "HandleIpcMessage source_process_id current_process_id is_notify shared_data s =
     do { assert_that is_notify;
          assert_that (source_process_id \<noteq> current_process_id);
          Some (NotifyObserversImpl True shared_data False s) }"

text \<open>
  The loop of \<open>ProcessThreadNotification\<close> over the copy of the set. \<open>on_notify\<close> is what happens to
  the service while the mutex is released: the observer runs, and other threads may as well. The
  result lists the observers that were called, each with the service at that moment.
\<close>

fun notify_loop ::
    "(nat \<Rightarrow> message_service \<Rightarrow> message_service) \<Rightarrow> ThreadId \<Rightarrow> char16 list \<Rightarrow> nat \<Rightarrow> nat \<Rightarrow> nat list \<Rightarrow>
      message_service \<Rightarrow> (nat \<times> message_service) list \<times> message_service" where
  "notify_loop on_notify me topic this set_id [] s = ([], s)"
| "notify_loop on_notify me topic this set_id (ob # obs) s =
     (case ms_topics s topic of
        None \<Rightarrow> ([], s)
      | Some c \<Rightarrow>
          if oc_id c \<noteq> this then ([], s)
          else case map_of (oc_sets c) me of
                 None \<Rightarrow> ([], s)
               | Some set1 \<Rightarrow>
                   if os_id set1 \<noteq> set_id then ([], s)
                   else if ob \<in> set (os_members set1)
                   then (let (calls, s1) = notify_loop on_notify me topic this set_id obs (on_notify ob s)
                         in ((ob, s) # calls, s1))
                   else notify_loop on_notify me topic this set_id obs s)"

definition ProcessThreadNotification ::
    "(nat \<Rightarrow> message_service \<Rightarrow> message_service) \<Rightarrow> ThreadId \<Rightarrow> char16 list \<Rightarrow> observer_collection \<Rightarrow>
      message_service \<Rightarrow> (nat \<times> message_service) list \<times> message_service" where
  "ProcessThreadNotification on_notify me topic c s =
     (case map_of (oc_sets c) me of
        None \<Rightarrow> ([], s)
      | Some set1 \<Rightarrow> notify_loop on_notify me topic (oc_id c) (os_id set1) (os_members set1) s)"

definition ms_HandleThreadMessage ::
    "(nat \<Rightarrow> message_service \<Rightarrow> message_service) \<Rightarrow> ThreadId \<Rightarrow> bool \<Rightarrow> char16 list \<Rightarrow> message_service \<Rightarrow>
      ((nat \<times> message_service) list \<times> message_service) option" where
  "ms_HandleThreadMessage on_notify me is_notify topic s =
     do { assert_that is_notify;
          Some (case GetTopicObserverCollection topic False s of
                  (None, s1) \<Rightarrow> ([], s1)
                | (Some c, s1) \<Rightarrow> ProcessThreadNotification on_notify me topic c s1) }"

section \<open>Notifications between processes\<close>

text \<open>
  \<open>NotificationMessage\<close>: the topic and the data, an object of a serializable class \<open>vt\<close> or
  \<open>NULL\<close>.
\<close>

definition NotificationMessage_Serialize ::
    "'o serializable \<Rightarrow> char16 list \<times> 'o option \<Rightarrow> byte list \<Rightarrow> (bool \<times> byte list) option" where
  "NotificationMessage_Serialize vt shared out = WriteObject vt (snd shared) (WriteString (fst shared) out)"

definition NotificationMessage_Deserialize ::
    "'o serializable \<Rightarrow> 'o constructors \<Rightarrow> deserializer \<Rightarrow> ((char16 list \<times> 'o option) option \<times> deserializer) option" where
  "NotificationMessage_Deserialize vt constructors ds =
     do { (topic, ds1) \<leftarrow> ReadString ds;
          case topic of
            None \<Rightarrow> Some (None, ds1)
          | Some t \<Rightarrow> do {
              ((ok, data), ds2) \<leftarrow> CreateAndReadObject vt constructors ds1;
              Some (if \<not> ok then None else Some (t, data), ds2) } }"

context serializable_class
begin

lemma notification_round_trip:
  assumes "NotificationMessage_Serialize vt (topic, p) [] = Some (ok, out)" "ds_wf ds" "remaining ds = out @ rest"
  shows "ok \<and> NotificationMessage_Deserialize vt constructors ds =
    Some (Some (string_value topic, map_option decoded p), ds_advance (length out) ds)"
proof -
  have out: "ok" "out = string_bytes topic @ bytes_of p"
    using assms(1) by (auto simp: NotificationMessage_Serialize_def write_object WriteString_append)
  let ?ds = "ds_advance (length (string_bytes topic)) ds"
  have "ReadString ds = Some (Some (string_value topic), ?ds)"
    using assms(2,3) out by (intro ReadString_ok) auto
  moreover have "ds_wf ?ds" "remaining ?ds = bytes_of p @ rest"
    using assms(2,3) out by (simp_all add: ds_wf_advance remaining_advance)
  from read_object [OF this] have "CreateAndReadObject vt constructors ?ds =
      Some ((True, map_option decoded p), ds_advance (length out) ds)"
    by (simp add: ds_advance_add out)
  ultimately show ?thesis using out by (simp add: NotificationMessage_Deserialize_def)
qed

end

section \<open>Invariant and abstraction\<close>

text \<open>The specification: a set of registrations, each a topic, a thread and an observer.\<close>

definition registered :: "message_service \<Rightarrow> char16 list \<Rightarrow> ThreadId \<Rightarrow> nat \<Rightarrow> bool" where
  "registered s topic t ob \<longleftrightarrow> (\<exists>c os. ms_topics s topic = Some c \<and> map_of (oc_sets c) t = Some os \<and>
     ob \<in> set (os_members os))"

definition registrations :: "message_service \<Rightarrow> (char16 list \<times> ThreadId \<times> nat) set" where
  "registrations s = {(topic, t, ob). registered s topic t ob}"

definition sets_ok :: "message_service \<Rightarrow> (ThreadId \<times> observer_set) list \<Rightarrow> bool" where
  "sets_ok s xs \<longleftrightarrow> sorted_wrt (<) (map fst xs) \<and> (\<forall>t os. map_of xs t = Some os \<longrightarrow> os_members os \<noteq> [] \<and>
     distinct (os_members os) \<and> t \<in> ms_queues s \<and> (ms_singleton s \<longrightarrow> t \<in> ms_end_hooks s))"

definition ms_inv :: "message_service \<Rightarrow> bool" where
  "ms_inv s \<longleftrightarrow> (\<forall>topic c. ms_topics s topic = Some c \<longrightarrow> topic \<noteq> [] \<and> oc_sets c \<noteq> [] \<and> sets_ok s (oc_sets c))"

lemma map_of_sets_insert [simp]: "map_of (sets_insert t v xs) = (map_of xs)(t \<mapsto> v)"
  by (induction t v xs rule: sets_insert.induct) auto

lemma keys_sets_insert [simp]: "fst ` set (sets_insert t v xs) = insert t (fst ` set xs)"
  by (induction t v xs rule: sets_insert.induct) auto

lemma sets_insert_nonempty [simp]: "sets_insert t v xs \<noteq> []"
  by (cases "(t, v, xs)" rule: sets_insert.cases) auto

lemma sorted_sets_insert [simp]:
  "sorted_wrt (<) (map fst xs) \<Longrightarrow> sorted_wrt (<) (map fst (sets_insert t v xs))"
  by (induction t v xs rule: sets_insert.induct) (auto simp flip: image_set)

lemma map_of_sets_erase [simp]: "map_of (sets_erase t xs) = (map_of xs)(t := None)"
  by (induction xs) (auto simp: sets_erase_def)

lemma sorted_sets_erase [simp]: "sorted_wrt (<) (map fst xs) \<Longrightarrow> sorted_wrt (<) (map fst (sets_erase t xs))"
  by (induction xs) (auto simp: sets_erase_def)

lemma sets_ok_erase: "sets_ok s xs \<Longrightarrow> sets_ok s (sets_erase t xs)"
  by (auto simp: sets_ok_def)

lemma sets_ok_insert:
  "sets_ok s xs \<Longrightarrow> os_members os \<noteq> [] \<Longrightarrow> distinct (os_members os) \<Longrightarrow> t \<in> ms_queues s \<Longrightarrow>
    (ms_singleton s \<Longrightarrow> t \<in> ms_end_hooks s) \<Longrightarrow> sets_ok s (sets_insert t os xs)"
  by (auto simp: sets_ok_def)

lemma sets_ok_mono:
  "sets_ok s xs \<Longrightarrow> ms_queues s \<subseteq> ms_queues s' \<Longrightarrow> ms_end_hooks s \<subseteq> ms_end_hooks s' \<Longrightarrow>
    ms_singleton s' = ms_singleton s \<Longrightarrow> sets_ok s' xs"
  by (auto simp: sets_ok_def)

lemma ms_invD: "ms_inv s \<Longrightarrow> ms_topics s topic = Some c \<Longrightarrow> topic \<noteq> [] \<and> oc_sets c \<noteq> [] \<and> sets_ok s (oc_sets c)"
  by (simp add: ms_inv_def)

text \<open>Storing a changed collection, with at least the threads known before.\<close>

lemma ms_inv_store:
  assumes "ms_inv s" "ms_topics s' = (ms_topics s)(topic := co)" "ms_queues s \<subseteq> ms_queues s'"
    "ms_end_hooks s \<subseteq> ms_end_hooks s'" "ms_singleton s' = ms_singleton s"
    "\<And>c. co = Some c \<Longrightarrow> topic \<noteq> [] \<and> oc_sets c \<noteq> [] \<and> sets_ok s' (oc_sets c)"
  shows "ms_inv s'"
  using assms sets_ok_mono [of s _ s'] ms_invD [OF assms(1)] unfolding ms_inv_def by (metis fun_upd_apply)

text \<open>The members a collection has for a thread.\<close>

definition members :: "observer_collection option \<Rightarrow> ThreadId \<Rightarrow> nat set" where
  "members co t = (case co of None \<Rightarrow> {} | Some c \<Rightarrow>
     (case map_of (oc_sets c) t of None \<Rightarrow> {} | Some os \<Rightarrow> set (os_members os)))"

lemma registered_members: "registered s topic t ob \<longleftrightarrow> ob \<in> members (ms_topics s topic) t"
  by (auto simp: registered_def members_def split: option.splits)

lemma registrations_store:
  assumes "ms_topics s' = (ms_topics s)(topic := co)"
    "\<And>t. members co t = (if t = me then M else members (ms_topics s topic) t)"
  shows "registrations s' = {(u, t, ob). if u = topic \<and> t = me then ob \<in> M else (u, t, ob) \<in> registrations s}"
  using assms by (auto simp: registrations_def registered_members split: if_splits)

lemma ms_InitThreadEndHook_eq:
  "ms_InitThreadEndHook me s =
    s\<lparr>ms_end_hooks := (if ms_singleton s then insert me (ms_end_hooks s) else ms_end_hooks s)\<rparr>"
  by (auto simp: ms_InitThreadEndHook_def insert_absorb)

lemma AddObserver_law:
  assumes inv: "ms_inv s" and topic: "topic \<noteq> []"
  shows "\<exists>s'. AddObserver me ob topic s = Some ((topic, me, ob) \<notin> registrations s, s') \<and> ms_inv s' \<and>
    registrations s' = insert (topic, me, ob) (registrations s)"
proof -
  define c where "c = (case ms_topics s topic of None \<Rightarrow> \<lparr>oc_id = ms_next_id s, oc_sets = []\<rparr> | Some c \<Rightarrow> c)"
  have ok: "sets_ok s (oc_sets c)"
    using ms_invD [OF inv] by (auto simp: c_def sets_ok_def split: option.splits)
  have mem: "members (ms_topics s topic) = members (Some c)"
    by (auto simp: c_def members_def fun_eq_iff split: option.splits)
  obtain s1 where s1: "GetTopicObserverCollection topic True s = (Some c, s1)"
    "ms_topics s1 = (ms_topics s)(topic \<mapsto> c)" "ms_queues s1 = ms_queues s" "ms_end_hooks s1 = ms_end_hooks s"
    "ms_singleton s1 = ms_singleton s"
    by (cases "ms_topics s topic") (auto simp: GetTopicObserverCollection_def c_def fun_upd_idem Let_def)
  define hooks where "hooks = (if ms_singleton s then insert me (ms_end_hooks s) else ms_end_hooks s)"
  show ?thesis
  proof (cases "map_of (oc_sets c) me")
    case None
    let ?os = "\<lparr>os_id = ms_next_id s1, os_members = [ob]\<rparr>"
    let ?c = "c\<lparr>oc_sets := sets_insert me ?os (sets_insert me \<lparr>os_id = ms_next_id s1, os_members = []\<rparr> (oc_sets c))\<rparr>"
    obtain s2 where s2: "AddObserver me ob topic s = Some (True, s2)" "ms_topics s2 = (ms_topics s)(topic \<mapsto> ?c)"
      "ms_queues s2 = insert me (ms_queues s)" "ms_end_hooks s2 = hooks" "ms_singleton s2 = ms_singleton s"
      using None s1 topic
      by (auto simp: AddObserver_def ObserverCollection_Add_def GetThreadObserverSet_def ms_InitThreadEndHook_eq
          store_collection_def hooks_def Let_def)
    have nr: "(topic, me, ob) \<notin> registrations s"
      using None by (simp add: registrations_def registered_members mem) (simp add: members_def)
    have "sets_ok s2 (oc_sets c)"
      by (rule sets_ok_mono [OF ok]) (use s2 in \<open>auto simp: hooks_def\<close>)
    then have "sets_ok s2 (oc_sets ?c)"
      using s2 by (auto simp: sets_ok_def hooks_def)
    then have "ms_inv s2"
      by (intro ms_inv_store [OF inv s2(2)]) (use s2 topic in \<open>auto simp: hooks_def\<close>)
    moreover have "members (Some ?c) t = (if t = me then {ob} else members (ms_topics s topic) t)" for t
      by (simp add: mem) (simp add: members_def)
    with registrations_store [OF s2(2)] have "registrations s2 = {(u, t, ob'). if u = topic \<and> t = me then ob' \<in> {ob}
        else (u, t, ob') \<in> registrations s}" by blast
    moreover have "(topic, me, ob') \<notin> registrations s" for ob'
      using None by (simp add: registrations_def registered_members mem) (simp add: members_def)
    ultimately show ?thesis using s2(1) nr by auto
  next
    case (Some os)
    have r: "(topic, me, ob') \<in> registrations s \<longleftrightarrow> ob' \<in> set (os_members os)" for ob'
      using Some by (simp add: registrations_def registered_members mem) (simp add: members_def)
    from ok Some have os: "os_members os \<noteq> []" "distinct (os_members os)" "me \<in> ms_queues s"
      "ms_singleton s \<Longrightarrow> me \<in> ms_end_hooks s" by (auto simp: sets_ok_def)
    show ?thesis
    proof (cases "ob \<in> set (os_members os)")
      case True
      with Some s1 topic have a: "AddObserver me ob topic s = Some (False, store_collection topic c s1)"
        by (simp add: AddObserver_def ObserverCollection_Add_def GetThreadObserverSet_def)
      have t: "ms_topics (store_collection topic c s1) = (ms_topics s)(topic \<mapsto> c)"
        using s1 by (simp add: store_collection_def)
      have "oc_sets c \<noteq> []" using Some by auto
      then have "ms_inv (store_collection topic c s1)"
        by (intro ms_inv_store [OF inv t]) (use s1 ok topic in \<open>auto simp: store_collection_def sets_ok_def\<close>)
      moreover have "registrations (store_collection topic c s1) = registrations s"
        using mem by (auto simp: registrations_def registered_members t split: if_splits)
      ultimately show ?thesis using a r True by auto
    next
      case False
      let ?c = "c\<lparr>oc_sets := sets_insert me (os\<lparr>os_members := insort ob (os_members os)\<rparr>) (oc_sets c)\<rparr>"
      let ?s = "store_collection topic ?c s1"
      from False Some s1 topic have a: "AddObserver me ob topic s = Some (True, ?s)"
        by (simp add: AddObserver_def ObserverCollection_Add_def GetThreadObserverSet_def)
      have t: "ms_topics ?s = (ms_topics s)(topic \<mapsto> ?c)" using s1 by (simp add: store_collection_def)
      have "sets_ok ?s (oc_sets ?c)"
        using ok os False s1 by (auto simp: sets_ok_def store_collection_def distinct_insort insort_not_Nil)
      then have "ms_inv ?s"
        by (intro ms_inv_store [OF inv t]) (use s1 topic in \<open>auto simp: store_collection_def\<close>)
      moreover have "members (Some ?c) t = (if t = me then insert ob (set (os_members os)) else members (ms_topics s topic) t)" for t
        by (simp add: mem) (simp add: members_def set_insort_key)
      with registrations_store [OF t] have "registrations ?s = {(u, t, ob'). if u = topic \<and> t = me
          then ob' \<in> insert ob (set (os_members os)) else (u, t, ob') \<in> registrations s}" by blast
      ultimately show ?thesis using a r False by auto
    qed
  qed
qed

lemma ObserverCollection_Remove_law:
  assumes ok: "sets_ok s (oc_sets c)" and r: "ObserverCollection_Remove me ob c = (removed, c')"
  shows "removed \<longleftrightarrow> ob \<in> members (Some c) me"
    "members (Some c') t = (if t = me then members (Some c) t - {ob} else members (Some c) t)"
    "sets_ok s (oc_sets c')" "\<not> removed \<Longrightarrow> c' = c"
proof -
  consider (none) "map_of (oc_sets c) me = None"
    | (other) os where "map_of (oc_sets c) me = Some os" "ob \<notin> set (os_members os)"
    | (member) os where "map_of (oc_sets c) me = Some os" "ob \<in> set (os_members os)" by (cases "map_of (oc_sets c) me") auto
  then have "(removed \<longleftrightarrow> ob \<in> members (Some c) me) \<and>
    members (Some c') t = (if t = me then members (Some c) t - {ob} else members (Some c) t) \<and>
    sets_ok s (oc_sets c') \<and> (\<not> removed \<longrightarrow> c' = c)"
  proof cases
    case none
    with r ok show ?thesis by (auto simp: ObserverCollection_Remove_def members_def)
  next
    case (other os)
    with r ok show ?thesis by (auto simp: ObserverCollection_Remove_def members_def)
  next
    case (member os)
    from ok member have os: "distinct (os_members os)" "me \<in> ms_queues s"
      "ms_singleton s \<Longrightarrow> me \<in> ms_end_hooks s" by (auto simp: sets_ok_def)
    show ?thesis
    proof (cases "remove1 ob (os_members os) = []")
      case True
      then have e: "set (os_members os) = {ob}" using os(1) member(2) set_remove1_eq [OF os(1), of ob] by auto
      from True r member have c': "removed" "c' = c\<lparr>oc_sets := sets_erase me (oc_sets c)\<rparr>"
        by (simp_all add: ObserverCollection_Remove_def)
      have "members (Some c') t = (if t = me then members (Some c) t - {ob} else members (Some c) t)"
        using e member by (simp add: c'(2) members_def)
      with c' member ok show ?thesis by (auto simp: members_def intro: sets_ok_erase)
    next
      case False
      let ?os = "os\<lparr>os_members := remove1 ob (os_members os)\<rparr>"
      from False r member have c': "removed" "c' = c\<lparr>oc_sets := sets_insert me ?os (oc_sets c)\<rparr>"
        by (simp_all add: ObserverCollection_Remove_def Let_def)
      have "sets_ok s (sets_insert me ?os (oc_sets c))"
        using False os by (intro sets_ok_insert [OF ok]) (auto simp: distinct_remove1)
      moreover have "members (Some c') t = (if t = me then members (Some c) t - {ob} else members (Some c) t)"
        using member os(1) by (simp add: c'(2) members_def set_remove1_eq)
      ultimately show ?thesis using c' member by (auto simp: members_def)
    qed
  qed
  then show "removed \<longleftrightarrow> ob \<in> members (Some c) me"
    "members (Some c') t = (if t = me then members (Some c) t - {ob} else members (Some c) t)"
    "sets_ok s (oc_sets c')" "\<not> removed \<Longrightarrow> c' = c" by auto
qed

lemma RemoveObserver_law:
  assumes inv: "ms_inv s"
  shows "\<exists>s'. RemoveObserver me ob topic s = ((topic, me, ob) \<in> registrations s, s') \<and> ms_inv s' \<and>
    registrations s' = registrations s - {(topic, me, ob)}"
proof (cases "topic = [] \<or> ms_topics s topic = None")
  case True
  then have "(topic, me, ob) \<notin> registrations s"
    using ms_invD [OF inv] by (auto simp: registrations_def registered_def)
  with True inv show ?thesis
    by (auto simp: RemoveObserver_def GetTopicObserverCollection_def)
next
  case False
  then obtain c where c: "topic \<noteq> []" "ms_topics s topic = Some c" by auto
  obtain removed c' where r: "ObserverCollection_Remove me ob c = (removed, c')" by fastforce
  from ms_invD [OF inv c(2)] have ok: "sets_ok s (oc_sets c)" "oc_sets c \<noteq> []" by auto
  note law = ObserverCollection_Remove_law [OF ok(1) r]
  define s' where "s' = snd (RemoveObserver me ob topic s)"
  have res: "RemoveObserver me ob topic s = (removed, s')"
    using c r by (simp add: s'_def RemoveObserver_def GetTopicObserverCollection_def Let_def)
  define co where "co = (if removed \<and> IsEmpty c' then None else Some c')"
  have t: "ms_topics s' = (ms_topics s)(topic := co)" and q: "ms_queues s' = ms_queues s"
    "ms_end_hooks s' = ms_end_hooks s" "ms_singleton s' = ms_singleton s"
    using c r by (auto simp: s'_def co_def RemoveObserver_def GetTopicObserverCollection_def Let_def
        store_collection_def DeleteTopicObserverCollection_def)
  have mem: "members co t = (if t = me then members (ms_topics s topic) me - {ob} else members (ms_topics s topic) t)" for t
    using law(2) [of t] c(2) by (auto simp: co_def IsEmpty_def members_def)
  have "ms_inv s'"
    by (rule ms_inv_store [OF inv t])
      (use q c ok law(3,4) in \<open>auto simp: co_def IsEmpty_def sets_ok_def split: if_splits\<close>)
  moreover have "removed \<longleftrightarrow> (topic, me, ob) \<in> registrations s"
    using law(1) c(2) by (simp add: registrations_def registered_members)
  moreover have "registrations s' = registrations s - {(topic, me, ob)}"
    unfolding registrations_store [OF t mem] by (auto simp: registrations_def registered_members)
  ultimately show ?thesis using res by auto
qed

lemma RemoveObserversForThread_law:
  assumes inv: "ms_inv s"
  shows "ms_inv (ms_RemoveObserversForThread t s)"
    "registrations (ms_RemoveObserversForThread t s) = {(topic, u, ob) \<in> registrations s. u \<noteq> t}"
proof -
  have topics: "ms_topics (ms_RemoveObserversForThread t s) topic = (case ms_topics s topic of None \<Rightarrow> None
      | Some c \<Rightarrow> if sets_erase t (oc_sets c) = [] then None else Some (c\<lparr>oc_sets := sets_erase t (oc_sets c)\<rparr>))" for topic
    by (auto simp: ms_RemoveObserversForThread_def oc_RemoveObserversForThread_def IsEmpty_def Let_def split: option.splits)
  have same: "sets_ok (ms_RemoveObserversForThread t s) = sets_ok s"
    by (simp add: sets_ok_def fun_eq_iff ms_RemoveObserversForThread_def)
  show "ms_inv (ms_RemoveObserversForThread t s)"
    unfolding ms_inv_def topics same using ms_invD [OF inv]
    by (auto split: option.splits if_splits intro: sets_ok_erase)
  have "members (ms_topics (ms_RemoveObserversForThread t s) topic) u =
      (if u = t then {} else members (ms_topics s topic) u)" for topic u
  proof (cases "ms_topics s topic")
    case (Some c)
    have "map_of (sets_erase t (oc_sets c)) u = (if u = t then None else map_of (oc_sets c) u)" by simp
    with Some show ?thesis by (auto simp: topics members_def simp del: map_of_sets_erase)
  qed (simp add: topics members_def)
  then show "registrations (ms_RemoveObserversForThread t s) = {(topic, u, ob) \<in> registrations s. u \<noteq> t}"
    by (auto simp: registrations_def registered_members split: if_splits)
qed

section \<open>Properties\<close>

definition ms_empty :: message_service where
  "ms_empty = \<lparr>ms_topics = (\<lambda>_. None), ms_next_id = 0, ms_singleton = True, ms_end_hooks = {}, ms_queues = {}\<rparr>"

lemma ms_empty_inv: "ms_inv ms_empty" "registrations ms_empty = {}"
  by (simp_all add: ms_inv_def ms_empty_def registrations_def registered_def)

text \<open>
  C12. The service implements a set of registrations: \<open>AddObserver\<close> returns whether the observer is
  new for the topic on this thread and adds it, \<open>RemoveObserver\<close> returns whether it was there and
  removes it, the end of a thread removes its observers on all topics, and no operation changes
  anything else. The invariant that makes this work is kept.
\<close>

theorem message_service_refines_registrations:
  assumes "ms_inv s"
  shows "(\<exists>s'. AddObserver me ob topic s = Some (topic \<noteq> [] \<and> (topic, me, ob) \<notin> registrations s, s') \<and> ms_inv s' \<and>
      registrations s' = (if topic = [] then registrations s else insert (topic, me, ob) (registrations s))) \<and>
    (\<exists>s'. RemoveObserver me ob topic s = ((topic, me, ob) \<in> registrations s, s') \<and> ms_inv s' \<and>
      registrations s' = registrations s - {(topic, me, ob)}) \<and>
    ms_inv (ms_RemoveObserversForThread t s) \<and>
    registrations (ms_RemoveObserversForThread t s) = {(topic, u, ob) \<in> registrations s. u \<noteq> t}"
proof (cases "topic = []")
  case True
  then have "AddObserver me ob topic s = Some (False, s)" by (simp add: AddObserver_def)
  with True assms RemoveObserver_law [OF assms] RemoveObserversForThread_law [OF assms] show ?thesis by simp
next
  case False
  with AddObserver_law [OF assms False] RemoveObserver_law [OF assms] RemoveObserversForThread_law [OF assms]
  show ?thesis by simp
qed

theorem message_service_refines_registrations_witness:
  "\<exists>s1 s2. AddObserver 1 7 [65] ms_empty = Some (True, s1) \<and> RemoveObserver 1 7 [65] s1 = (True, s2) \<and>
    registrations s2 = {}"
proof -
  from message_service_refines_registrations [OF ms_empty_inv(1), of 1 7 "[65]" 1] obtain s1 where
    s1: "AddObserver 1 7 [65] ms_empty = Some (True, s1)" "ms_inv s1" "registrations s1 = {([65], 1, 7)}"
    by (auto simp: ms_empty_inv(2))
  from message_service_refines_registrations [OF s1(2), of 1 7 "[65]" 1] s1(1,3) show ?thesis by auto
qed

text \<open>
  A notification is posted exactly once to each thread that has an observer of the topic and to
  no other, with the topic and the data of the call; the queue of such a thread is initialised. A
  notification from another process is not sent on to the processes.
\<close>

theorem notify_posts_once_per_thread:
  assumes "ms_inv s" "NotifyObserversImpl has_ipc (topic, data) send_ipc s = (ipc, posts)"
  shows "distinct (map fst posts) \<and> set posts = {(t, topic, data) | t. \<exists>ob. (topic, t, ob) \<in> registrations s} \<and>
    fst ` set posts \<subseteq> ms_queues s \<and> (ipc = Some (topic, data) \<longleftrightarrow> send_ipc \<and> has_ipc)"
proof -
  have ipc: "ipc = Some (topic, data) \<longleftrightarrow> send_ipc \<and> has_ipc"
    using assms(2) by (auto simp: NotifyObserversImpl_def split: if_splits)
  show ?thesis
  proof (cases "ms_topics s topic")
    case None
    with assms(2) ipc show ?thesis
      by (auto simp: NotifyObserversImpl_def GetTopicObserverCollection_def registrations_def registered_def)
  next
    case (Some c)
    then have p: "posts = map (\<lambda>(t, os). (t, topic, data)) (oc_sets c)"
      using assms(2) by (auto simp: NotifyObserversImpl_def GetTopicObserverCollection_def PostThreadNotifications_def)
    from ms_invD [OF assms(1) Some] have ok: "sets_ok s (oc_sets c)" by blast
    then have d: "distinct (map fst (oc_sets c))" by (simp add: sets_ok_def strict_sorted_iff)
    have fsts: "map fst posts = map fst (oc_sets c)" by (simp add: p case_prod_beta comp_def)
    have keys: "t \<in> fst ` set (oc_sets c) \<longleftrightarrow> (\<exists>ob. (topic, t, ob) \<in> registrations s)" for t
    proof
      assume "t \<in> fst ` set (oc_sets c)"
      then obtain os where "map_of (oc_sets c) t = Some os" by (auto simp: map_of_eq_None_iff dest: weak_map_of_SomeI)
      with ok have "os_members os \<noteq> []" by (auto simp: sets_ok_def)
      then obtain ob where "ob \<in> set (os_members os)" by (cases "os_members os") auto
      with Some \<open>map_of (oc_sets c) t = Some os\<close> show "\<exists>ob. (topic, t, ob) \<in> registrations s"
        by (auto simp: registrations_def registered_def)
    next
      assume "\<exists>ob. (topic, t, ob) \<in> registrations s"
      with Some obtain os where "map_of (oc_sets c) t = Some os" by (auto simp: registrations_def registered_def)
      then show "t \<in> fst ` set (oc_sets c)" by (force dest: map_of_SomeD)
    qed
    have "set posts = (\<lambda>t. (t, topic, data)) ` fst ` set (oc_sets c)" by (force simp: p)
    moreover have "fst ` set (oc_sets c) = {t. \<exists>ob. (topic, t, ob) \<in> registrations s}"
      by (rule set_eqI) (simp only: keys mem_Collect_eq)
    ultimately have "set posts = {(t, topic, data) | t. \<exists>ob. (topic, t, ob) \<in> registrations s}"
      by (simp only:) blast
    moreover have "fst ` set posts \<subseteq> ms_queues s"
    proof
      fix t
      assume "t \<in> fst ` set posts"
      then have "t \<in> fst ` set (oc_sets c)" using fsts by (metis set_map)
      then obtain os where "map_of (oc_sets c) t = Some os" by (auto simp: map_of_eq_None_iff dest: weak_map_of_SomeI)
      with ok show "t \<in> ms_queues s" by (auto simp: sets_ok_def)
    qed
    ultimately show ?thesis using d fsts ipc by simp
  qed
qed

lemma notify_loop_registered:
  "\<forall>(ob, s') \<in> set (fst (notify_loop on_notify me topic this set_id obs s)). registered s' topic me ob"
  by (induction on_notify me topic this set_id obs s rule: notify_loop.induct)
    (auto simp: registered_def case_prod_beta Let_def split: option.splits if_splits)

lemma notify_loop_subseq: "subseq (map fst (fst (notify_loop on_notify me topic this set_id obs s))) obs"
  by (induction on_notify me topic this set_id obs s rule: notify_loop.induct)
    (auto simp: case_prod_beta Let_def split: option.splits if_splits)

lemma subseq_keeps_distinct: "subseq xs ys \<Longrightarrow> distinct ys \<Longrightarrow> distinct xs"
  by (induction rule: list_emb.induct) (auto dest: list_emb_set)

lemma notify_loop_all:
  assumes "\<And>ob s. ms_topics (on_notify ob s) topic = ms_topics s topic"
    "ms_topics s topic = Some c" "map_of (oc_sets c) me = Some os" "set obs \<subseteq> set (os_members os)"
  shows "map fst (fst (notify_loop on_notify me topic (oc_id c) (os_id os) obs s)) = obs"
  using assms(2-4)
proof (induction obs arbitrary: s)
  case (Cons ob obs)
  then have "ms_topics (on_notify ob s) topic = Some c" using assms(1) by simp
  from Cons.IH [OF this] Cons.prems show ?case by (simp add: case_prod_beta Let_def)
qed simp

theorem notify_posts_once_per_thread_witness:
  "\<exists>s. AddObserver 1 7 [65] ms_empty = Some (True, s) \<and> snd (NotifyObserversImpl False ([65], 9 :: nat) True s) = [(1, [65], 9)]"
proof -
  from AddObserver_law [OF ms_empty_inv(1), of "[65]" 1 7] obtain s where
    s: "AddObserver 1 7 [65] ms_empty = Some (True, s)" "ms_inv s" "registrations s = {([65], 1, 7)}"
    by (auto simp: ms_empty_inv(2))
  obtain ipc posts where n: "NotifyObserversImpl False ([65], 9 :: nat) True s = (ipc, posts)" by fastforce
  from notify_posts_once_per_thread [OF s(2) n] s(3) have "distinct (map fst posts)" "set posts = {(1, [65], 9)}" by auto
  then have "posts = [(1, [65], 9)]"
    by (cases posts; cases "tl posts") (auto dest!: arg_cong [where f = set])
  with s(1) n show ?thesis by simp
qed

text \<open>
  C27. Whatever the observers and other threads do to the service while they are called, an observer
  is called at most once, in the order of the set, and only while it is registered for the topic on
  this thread. If the registrations of the topic do not change, all observers are called.
\<close>

theorem notification_calls_registered_observers:
  assumes "ms_inv s" "ms_topics s topic = Some c"
    "ProcessThreadNotification on_notify me topic c s = (calls, s')"
  shows "(\<forall>(ob, s1) \<in> set calls. registered s1 topic me ob) \<and> distinct (map fst calls) \<and>
    (\<forall>os. map_of (oc_sets c) me = Some os \<longrightarrow> subseq (map fst calls) (os_members os) \<and>
      ((\<forall>ob s. ms_topics (on_notify ob s) topic = ms_topics s topic) \<longrightarrow> map fst calls = os_members os))"
proof (cases "map_of (oc_sets c) me")
  case None
  with assms(3) show ?thesis by (simp add: ProcessThreadNotification_def)
next
  case (Some os)
  then have l: "notify_loop on_notify me topic (oc_id c) (os_id os) (os_members os) s = (calls, s')"
    using assms(3) by (simp add: ProcessThreadNotification_def)
  have "distinct (os_members os)" using ms_invD [OF assms(1,2)] Some by (auto simp: sets_ok_def)
  have sub: "subseq (map fst calls) (os_members os)"
    using notify_loop_subseq [of on_notify me topic "oc_id c" "os_id os" "os_members os" s] by (simp add: l)
  from this \<open>distinct (os_members os)\<close> have "distinct (map fst calls)" by (rule subseq_keeps_distinct)
  moreover have "\<forall>(ob, s1) \<in> set calls. registered s1 topic me ob"
    using notify_loop_registered [of on_notify me topic "oc_id c" "os_id os" "os_members os" s] by (simp add: l)
  moreover have "map fst calls = os_members os" if "\<And>ob s. ms_topics (on_notify ob s) topic = ms_topics s topic"
    using notify_loop_all [where on_notify = on_notify, OF that assms(2) Some subset_refl] by (simp add: l)
  ultimately show ?thesis using sub Some by simp
qed

theorem notification_calls_registered_observers_witness:
  "\<exists>s c calls s'. AddObserver 1 7 [65] ms_empty = Some (True, s) \<and> ms_topics s [65] = Some c \<and>
    ProcessThreadNotification (\<lambda>ob s. s) 1 [65] c s = (calls, s') \<and> map fst calls = [7]"
proof -
  from AddObserver_law [OF ms_empty_inv(1), of "[65]" 1 7] obtain s where
    s: "AddObserver 1 7 [65] ms_empty = Some (True, s)" "ms_inv s" "registrations s = {([65], 1, 7)}"
    by (auto simp: ms_empty_inv(2))
  have "([65], 1, 7) \<in> registrations s" using s(3) by simp
  then have "registered s [65] 1 7" by (simp add: registrations_def)
  then obtain c os where c: "ms_topics s [65] = Some c" "map_of (oc_sets c) 1 = Some os" "7 \<in> set (os_members os)"
    by (auto simp: registered_def)
  have "ob = 7" if "ob \<in> set (os_members os)" for ob
  proof -
    have "([65], 1, ob) \<in> registrations s" using that c by (auto simp: registrations_def registered_def)
    with s(3) show ?thesis by simp
  qed
  moreover have "distinct (os_members os)" using ms_invD [OF s(2) c(1)] c(2) by (auto simp: sets_ok_def)
  ultimately have "os_members os = [7]"
    using c(3) by (cases "os_members os"; cases "tl (os_members os)") auto
  moreover obtain calls s' where p: "ProcessThreadNotification (\<lambda>ob s. s) 1 [65] c s = (calls, s')" by fastforce
  ultimately have "map fst calls = [7]"
    using notification_calls_registered_observers [OF s(2) c(1) p] c(2) by auto
  with s(1) c(1) p show ?thesis by (intro exI conjI)
qed

end
