(* ===== verification/StringUtils.thy ===== *)
theory StringUtils
  imports Utf "HOL-Library.Sublist" "HOL-Library.Signed_Division"
begin

text \<open>
  The string functions of \<open>src/common/string_utils.h\<close> and \<open>src/common/string_utils.cc\<close>.
  They are templates over the character type: a code unit is its integer value (0 to 65535 for
  \<open>char16\<close>, -128 to 127 for a signed \<open>char\<close>), a \<open>basic_string\<close> is the list of its
  units, which may hold the unit 0, and a pointer to a null-terminated string is the list of the
  units it points to, the end of the list being the terminator. Character classification and case
  are those of the \<open>C\<close> locale.
\<close>

section \<open>Operations\<close>

type_synonym str = "int list"

subsection \<open>Characters\<close>

definition tolower :: "int \<Rightarrow> int" where
  "tolower c = (if 65 \<le> c \<and> c \<le> 90 then c + 32 else c)"

definition toupper :: "int \<Rightarrow> int" where
  "toupper c = (if 97 \<le> c \<and> c \<le> 122 then c - 32 else c)"

definition isspace :: "int \<Rightarrow> bool" where
  "isspace c \<longleftrightarrow> c = 32 \<or> (9 \<le> c \<and> c \<le> 13)"

text \<open>\<open>*p\<close> of a null-terminated string, and what \<open>char_traits::length\<close> counts.\<close>

definition deref :: "str \<Rightarrow> int" where
  "deref s = (case s of [] \<Rightarrow> 0 | c # _ \<Rightarrow> c)"

definition c_str :: "str \<Rightarrow> str" where
  "c_str s = takeWhile (\<lambda>c. c \<noteq> 0) s"

definition LowerString :: "str \<Rightarrow> str" where "LowerString s = map tolower s"
definition UpperString :: "str \<Rightarrow> str" where "UpperString s = map toupper s"
definition MakeLowerString :: "str \<Rightarrow> str" where "MakeLowerString src = LowerString src"
definition MakeUpperString :: "str \<Rightarrow> str" where "MakeUpperString src = UpperString src"

subsection \<open>Removal of white space\<close>

text \<open>\<open>StripWhiteSpace\<close> moves a window \<open>(str, len)\<close> over the characters.\<close>

function strip_trailing :: "str \<Rightarrow> nat \<Rightarrow> int \<Rightarrow> int" where
  "strip_trailing s start len =
     (if len > 0 \<and> isspace (s ! (start + nat len - 1)) then strip_trailing s start (len - 1) else len)"
  by pat_completeness auto
termination by (relation "measure (\<lambda>(_, _, len). nat len)") auto

function strip_leading :: "str \<Rightarrow> nat \<Rightarrow> int \<Rightarrow> nat \<times> int" where
  "strip_leading s start len =
     (if len > 0 \<and> isspace (s ! start) then strip_leading s (start + 1) (len - 1) else (start, len))"
  by pat_completeness auto
termination by (relation "measure (\<lambda>(_, _, len). nat len)") auto

definition StripWhiteSpace_window :: "str \<Rightarrow> nat \<Rightarrow> int \<Rightarrow> nat \<times> int" where
  "StripWhiteSpace_window s start len = strip_leading s start (strip_trailing s start len)"

definition StripWhiteSpace :: "str \<Rightarrow> str" where
  "StripWhiteSpace s = (let (start, len) = StripWhiteSpace_window s 0 (int (length s))
     in take (nat len) (drop start s))"

subsection \<open>Search\<close>

definition CaseSensitiveFunctor :: "int \<Rightarrow> int" where "CaseSensitiveFunctor c = c"
definition CaseInSensitiveFunctor :: "int \<Rightarrow> int" where "CaseInSensitiveFunctor c = tolower c"

text \<open>
  The loop of \<open>MemMatch::memmatch\<close>: \<open>h\<close> and \<open>k\<close> are the offsets of the pointers
  \<open>haystack\<close> and \<open>needle\<close>.
\<close>

function memmatch_loop ::
    "(int \<Rightarrow> int) \<Rightarrow> str \<Rightarrow> nat \<Rightarrow> str \<Rightarrow> nat \<Rightarrow> nat \<Rightarrow> nat \<Rightarrow> nat option" where
  "memmatch_loop caseFunc haystack haylen needle neelen h k =
     (if h < haylen then
        (if caseFunc (haystack ! h) = caseFunc (needle ! k)
         then if k + 1 = neelen then Some (h + 1 - neelen)
              else memmatch_loop caseFunc haystack haylen needle neelen (h + 1) (k + 1)
         else if k \<noteq> 0
         then memmatch_loop caseFunc haystack haylen needle neelen (h - k + 1) 0
         else memmatch_loop caseFunc haystack haylen needle neelen (h + 1) 0)
      else None)"
  by pat_completeness auto
termination
  by (relation "measures [\<lambda>(_, _, haylen, _, _, h, k). haylen - (h - k),
                          \<lambda>(_, _, haylen, _, _, h, k). haylen - h]") auto

text \<open>\<open>same\<close> is the test \<open>phaystack == pneedle\<close> on the two pointers.\<close>

definition MemMatch :: "(int \<Rightarrow> int) \<Rightarrow> bool \<Rightarrow> str \<Rightarrow> nat \<Rightarrow> str \<Rightarrow> nat \<Rightarrow> nat option" where
  "MemMatch caseFunc same haystack haylen needle neelen =
     (if neelen = 0 then Some 0
      else if haylen < neelen then None
      else if same then Some 0
      else memmatch_loop caseFunc haystack haylen needle neelen 0 0)"

definition memmatch :: "bool \<Rightarrow> str \<Rightarrow> nat \<Rightarrow> str \<Rightarrow> nat \<Rightarrow> bool \<Rightarrow> nat option" where
  "memmatch same haystack haylen needle neelen case_sensitive =
     (if case_sensitive then MemMatch CaseSensitiveFunctor same haystack haylen needle neelen
      else MemMatch CaseInSensitiveFunctor same haystack haylen needle neelen)"

definition memstr_cstr :: "bool \<Rightarrow> str \<Rightarrow> str \<Rightarrow> nat option" where
  "memstr_cstr same haystack needle =
     memmatch same haystack (length (c_str haystack)) needle (length (c_str needle)) True"

definition memstr_buf :: "bool \<Rightarrow> str \<Rightarrow> nat \<Rightarrow> str \<Rightarrow> nat \<Rightarrow> nat option" where
  "memstr_buf same haystack haylen needle needlelen =
     memmatch same haystack haylen needle needlelen True"

definition memstr_mixed :: "bool \<Rightarrow> str \<Rightarrow> nat \<Rightarrow> str \<Rightarrow> nat option" where
  "memstr_mixed same haystack haylen needle =
     memmatch same haystack haylen needle (length needle) True"

definition memstr_str :: "bool \<Rightarrow> str \<Rightarrow> str \<Rightarrow> nat option" where
  "memstr_str same haystack needle =
     memmatch same haystack (length haystack) needle (length needle) True"

definition memistr_cstr :: "bool \<Rightarrow> str \<Rightarrow> str \<Rightarrow> nat option" where
  "memistr_cstr same haystack needle =
     memmatch same haystack (length (c_str haystack)) needle (length (c_str needle)) False"

definition memistr_buf :: "bool \<Rightarrow> str \<Rightarrow> nat \<Rightarrow> str \<Rightarrow> nat \<Rightarrow> nat option" where
  "memistr_buf same haystack haylen needle needlelen =
     memmatch same haystack haylen needle needlelen False"

definition memistr_mixed :: "bool \<Rightarrow> str \<Rightarrow> nat \<Rightarrow> str \<Rightarrow> nat option" where
  "memistr_mixed same haystack haylen needle =
     memmatch same haystack haylen needle (length needle) False"

definition memistr_str :: "bool \<Rightarrow> str \<Rightarrow> str \<Rightarrow> nat option" where
  "memistr_str same haystack needle =
     memmatch same haystack (length haystack) needle (length needle) False"

subsection \<open>Prefixes and suffixes\<close>

definition StartsWith :: "bool \<Rightarrow> str \<Rightarrow> str \<Rightarrow> bool" where
  "StartsWith same left right =
     (let right_len = length right
      in length left \<ge> right_len \<and> memstr_buf same left right_len right right_len \<noteq> None)"

definition StartsWithIgnoreCase :: "bool \<Rightarrow> str \<Rightarrow> str \<Rightarrow> bool" where
  "StartsWithIgnoreCase same left right =
     (let right_len = length right
      in length left \<ge> right_len \<and> memistr_buf same left right_len right right_len \<noteq> None)"

definition EndsWith :: "bool \<Rightarrow> str \<Rightarrow> str \<Rightarrow> bool" where
  "EndsWith same left right =
     (let left_len = length left; right_len = length right
      in left_len \<ge> right_len \<and> memstr_cstr same (drop (left_len - right_len) left) right \<noteq> None)"

definition EndsWithIgnoreCase :: "bool \<Rightarrow> str \<Rightarrow> str \<Rightarrow> bool" where
  "EndsWithIgnoreCase same left right =
     (let left_len = length left; right_len = length right
      in left_len \<ge> right_len \<and> memistr_cstr same (drop (left_len - right_len) left) right \<noteq> None)"

subsection \<open>Path components\<close>

definition IsCharValidInPathComponent :: "int \<Rightarrow> bool \<Rightarrow> bool" where
  "IsCharValidInPathComponent c strict =
     (if c < 32 then False
      else if strict \<and> (c = 32 \<or> c \<ge> 127) then False
      else c \<notin> {47, 92, 58, 42, 63, 34, 60, 62, 124, 59, 44})"

fun all_chars_valid :: "str \<Rightarrow> bool" where
  "all_chars_valid [] = True"
| "all_chars_valid (c # s) =
     (if c = 0 then True
      else if \<not> IsCharValidInPathComponent c True then False else all_chars_valid s)"

definition IsStringValidPathComponent :: "str option \<Rightarrow> bool" where
  "IsStringValidPathComponent p =
     (case p of None \<Rightarrow> False
      | Some s \<Rightarrow>
          if deref s = 0 then True
          else if deref s = 46 then False
          else if \<not> all_chars_valid s then False
          else last (c_str s) \<noteq> 46)"

definition EnsureStringValidPathComponent :: "str \<Rightarrow> bool \<Rightarrow> str" where
  "EnsureStringValidPathComponent s strict =
     (if s = [] then []
      else let first_dot = hd s = 46;
               fixed = (\<lambda>c. if \<not> IsCharValidInPathComponent c strict then 95 else c);
               s1 = (if first_dot then 95 # map fixed (tl s) else map fixed s)
           in if last s1 = 46 then butlast s1 @ [95] else s1)"

subsection \<open>Hexadecimal digits\<close>

definition IsHex :: "int \<Rightarrow> bool" where
  "IsHex ch \<longleftrightarrow> (48 \<le> ch \<and> ch \<le> 57) \<or> (65 \<le> ch \<and> ch \<le> 70) \<or> (97 \<le> ch \<and> ch \<le> 102)"

definition HexToInt :: "int \<Rightarrow> int option" where
  "HexToInt ch =
     (if 48 \<le> ch \<and> ch \<le> 57 then Some (ch - 48)
      else if 65 \<le> ch \<and> ch \<le> 70 then Some (ch - 65 + 10)
      else if 97 \<le> ch \<and> ch \<le> 102 then Some (ch - 97 + 10)
      else None)"

definition kHexString :: str where
  "kHexString = [48, 49, 50, 51, 52, 53, 54, 55, 56, 57, 65, 66, 67, 68, 69, 70]"

definition IntToHex :: "int \<Rightarrow> int option" where
  "IntToHex i = do { assert_that (i \<ge> 0 \<and> i \<le> 15); Some (kHexString ! nat i) }"

subsection \<open>Replacement\<close>

text \<open>\<open>basic_string::find\<close> from an offset; \<open>None\<close> is \<open>npos\<close>.\<close>

definition string_find :: "str \<Rightarrow> str \<Rightarrow> nat \<Rightarrow> nat option" where
  "string_find s pat offset = List.find (\<lambda>i. prefix pat (drop i s)) [offset..<length s + 1]"

text \<open>\<open>basic_string::replace\<close> of \<open>n\<close> units at an index.\<close>

definition string_replace :: "str \<Rightarrow> nat \<Rightarrow> nat \<Rightarrow> str \<Rightarrow> str" where
  "string_replace s index n by_str = take index s @ by_str @ drop (index + n) s"

partial_function (option) ReplaceAll_loop ::
    "str \<Rightarrow> str \<Rightarrow> str \<Rightarrow> nat \<Rightarrow> nat \<Rightarrow> (str \<times> nat) option" where
  "ReplaceAll_loop old_pattern new_pattern s offset replacements_made =
     (case string_find s old_pattern offset of
        None \<Rightarrow> Some (s, replacements_made)
      | Some index \<Rightarrow>
          ReplaceAll_loop old_pattern new_pattern
            (string_replace s index (length old_pattern) new_pattern)
            (index + length new_pattern) (replacements_made + 1))"

definition ReplaceAll :: "str \<Rightarrow> str \<Rightarrow> str \<Rightarrow> (str \<times> nat) option" where
  "ReplaceAll s old_pattern new_pattern = ReplaceAll_loop old_pattern new_pattern s 0 0"

subsection \<open>Tokens\<close>

definition find_first_not_of :: "str \<Rightarrow> str \<Rightarrow> nat \<Rightarrow> nat option" where
  "find_first_not_of s delimiters pos = List.find (\<lambda>i. s ! i \<notin> set delimiters) [pos..<length s]"

definition find_first_of :: "str \<Rightarrow> str \<Rightarrow> nat \<Rightarrow> nat option" where
  "find_first_of s delimiters pos = List.find (\<lambda>i. s ! i \<in> set delimiters) [pos..<length s]"

lemma find_upt_Some:
  "List.find P [i..<n] = Some j \<longleftrightarrow> i \<le> j \<and> j < n \<and> P j \<and> (\<forall>k. i \<le> k \<and> k < j \<longrightarrow> \<not> P k)"
proof (induction "n - i" arbitrary: i)
  case (Suc d)
  then have "[i..<n] = i # [Suc i..<n]" by (simp add: upt_conv_Cons)
  moreover have "List.find P [Suc i..<n] = Some j \<longleftrightarrow>
      Suc i \<le> j \<and> j < n \<and> P j \<and> (\<forall>k. Suc i \<le> k \<and> k < j \<longrightarrow> \<not> P k)"
    using Suc by simp
  ultimately have step: "List.find P [i..<n] = Some j \<longleftrightarrow> (if P i then i = j else
      Suc i \<le> j \<and> j < n \<and> P j \<and> (\<forall>k. Suc i \<le> k \<and> k < j \<longrightarrow> \<not> P k))" by simp
  have "i < n" using Suc(2) by simp
  show ?case
  proof (cases "P i")
    case True
    then have "i \<le> j \<and> (\<forall>k. i \<le> k \<and> k < j \<longrightarrow> \<not> P k) \<Longrightarrow> i = j" by (cases "i < j") auto
    with step True \<open>i < n\<close> show ?thesis by auto
  next
    case False
    then have "P j \<Longrightarrow> (Suc i \<le> j) = (i \<le> j)" by (cases "i = j") auto
    moreover have "(\<forall>k. Suc i \<le> k \<and> k < j \<longrightarrow> \<not> P k) = (\<forall>k. i \<le> k \<and> k < j \<longrightarrow> \<not> P k)"
    proof
      assume *: "\<forall>k. Suc i \<le> k \<and> k < j \<longrightarrow> \<not> P k"
      show "\<forall>k. i \<le> k \<and> k < j \<longrightarrow> \<not> P k"
      proof (intro allI impI)
        fix k
        assume "i \<le> k \<and> k < j"
        then show "\<not> P k" using * False by (cases "k = i") (simp_all add: Suc_le_eq)
      qed
    qed simp
    ultimately show ?thesis using step False by auto
  qed
qed auto

lemma find_upt_None: "List.find P [i..<n] = None \<longleftrightarrow> (\<forall>k. i \<le> k \<and> k < n \<longrightarrow> \<not> P k)"
  by (auto simp: find_None_iff)

function Tokenize_loop :: "str \<Rightarrow> str \<Rightarrow> nat option \<Rightarrow> str list \<Rightarrow> str list" where
  "Tokenize_loop s delimiters None tokens = tokens"
| "Tokenize_loop s delimiters (Some start) tokens =
     (case find_first_of s delimiters (start + 1) of
        None \<Rightarrow> tokens @ [drop start s]
      | Some fin \<Rightarrow>
          Tokenize_loop s delimiters (find_first_not_of s delimiters (fin + 1))
            (tokens @ [take (fin - start) (drop start s)]))"
  by pat_completeness auto
termination
  apply (relation "measure (\<lambda>(s, _, p, _). case p of None \<Rightarrow> 0 | Some i \<Rightarrow> Suc (length s - i))")
   apply simp
  apply (auto simp: find_first_of_def find_first_not_of_def find_upt_Some split: option.splits)
  done

definition Tokenize :: "str \<Rightarrow> str \<Rightarrow> int \<times> str list" where
  "Tokenize s delimiters =
     (let tokens = Tokenize_loop s delimiters (find_first_not_of s delimiters 0) []
      in (int (length tokens), tokens))"

subsection \<open>Comparison and wildcards\<close>

function StringCompare_loop :: "(int \<Rightarrow> int) \<Rightarrow> str \<Rightarrow> str \<Rightarrow> int" where
  "StringCompare_loop conv lhs rhs =
     (let ret = conv (deref lhs) - conv (deref rhs)
      in if ret = 0 \<and> deref rhs \<noteq> 0 then StringCompare_loop conv (tl lhs) (tl rhs) else ret)"
  by pat_completeness auto
termination
  by (relation "measure (\<lambda>(_, _, rhs). length rhs)") (auto simp: deref_def split: list.splits)

definition sign_of_ret :: "int \<Rightarrow> int" where
  "sign_of_ret ret = (if ret < 0 then -1 else if ret > 0 then 1 else ret)"

definition StringCompare :: "str \<Rightarrow> str \<Rightarrow> int" where
  "StringCompare lhs rhs = sign_of_ret (StringCompare_loop (\<lambda>c. c) lhs rhs)"

definition StringCompareIgnoreCase :: "str \<Rightarrow> str \<Rightarrow> int" where
  "StringCompareIgnoreCase lhs rhs = sign_of_ret (StringCompare_loop tolower lhs rhs)"

text \<open>The outer and the inner loop of \<open>StringMatch\<close>.\<close>

function StringMatch :: "str \<Rightarrow> str \<Rightarrow> bool" and StringMatch_star :: "str \<Rightarrow> str \<Rightarrow> bool" where
  "StringMatch target pattern =
     (if deref pattern = 0 then deref target = 0
      else if deref pattern = 42
      then if deref (tl pattern) = 0 then True else StringMatch_star target (tl pattern)
      else if toupper (deref pattern) \<noteq> toupper (deref target) then False
      else StringMatch (tl target) (tl pattern))"
| "StringMatch_star target pattern =
     (if deref target = 0 then False
      else if toupper (deref pattern) = toupper (deref target)
              \<and> StringMatch (tl target) (tl pattern) then True
      else StringMatch_star (tl target) pattern)"
  by pat_completeness auto
termination
  by (relation "measures [\<lambda>x. case x of Inl (t, p) \<Rightarrow> length p | Inr (t, p) \<Rightarrow> length p,
                          \<lambda>x. case x of Inl (t, p) \<Rightarrow> length t | Inr (t, p) \<Rightarrow> length t]")
    (auto simp: deref_def split: list.splits)

subsection \<open>Integers\<close>

text \<open>
  \<open>ParseLeadingInteger\<close> accumulates in a 64-bit \<open>long\<close> and returns its low 32 bits. The
  second result is what \<open>*endptr\<close> points to.
\<close>

function ParseLeadingIntegerT :: "str \<Rightarrow> int64 \<Rightarrow> int32 \<times> str" where
  "ParseLeadingIntegerT fin number =
     (if deref fin \<ge> 48 \<and> deref fin \<le> 57
      then ParseLeadingIntegerT (tl fin) (number * 10 + word_of_int (deref fin - 48))
      else (ucast number, fin))"
  by pat_completeness auto
termination
  by (relation "measure (\<lambda>(s, _). length s)") (auto simp: deref_def split: list.splits)

definition ParseLeadingInteger :: "str \<Rightarrow> int32 \<times> str" where
  "ParseLeadingInteger s = ParseLeadingIntegerT s 0"

definition kint32min :: int where "kint32min = - 2147483648"

text \<open>The loop of \<open>StringTToInt\<close>; \<open>None\<close> is the result \<open>false\<close>.\<close>

fun StringTToInt_digits :: "str \<Rightarrow> int \<Rightarrow> int option" where
  "StringTToInt_digits [] tot = Some tot"
| "StringTToInt_digits (c # s) tot =
     (if c = 0 then Some tot
      else if c < 48 \<or> c > 57 then None
      else let d = c - 48
           in if tot < kint32min sdiv 10
                 \<or> (tot = kint32min sdiv 10 \<and> d > (- (kint32min + 10)) smod 10)
              then None
              else StringTToInt_digits s (10 * tot - d))"

definition StringTToInt :: "str \<Rightarrow> int option" where
  "StringTToInt s =
     (let possible_sign = deref s;
          digits = (if possible_sign = 45 \<or> possible_sign = 43 then tl s else s)
      in case StringTToInt_digits digits 0 of
           None \<Rightarrow> None
         | Some tot \<Rightarrow>
             if possible_sign = 45 then Some tot
             else if tot = kint32min then None else Some (- tot))"

subsection \<open>Conversions that return the string\<close>

definition UTF8ToString16_or_empty :: "byte list \<Rightarrow> char16 list" where
  "UTF8ToString16_or_empty in8 = (case UTF8ToString16 in8 of (ok, out16) \<Rightarrow> if ok then out16 else [])"

definition String16ToUTF8_or_empty :: "char16 list \<Rightarrow> byte list" where
  "String16ToUTF8_or_empty in16 = (case String16ToUTF8 in16 of (ok, out8) \<Rightarrow> if ok then out8 else [])"

text \<open>The overloads that take a null-terminated string.\<close>

definition UTF8ToString16_cstr :: "byte list \<Rightarrow> bool \<times> char16 list" where
  "UTF8ToString16_cstr in8 = UTF8ToString16 (takeWhile (\<lambda>c. c \<noteq> 0) in8)"

definition String16ToUTF8_cstr :: "char16 list \<Rightarrow> bool \<times> byte list" where
  "String16ToUTF8_cstr in16 = String16ToUTF8 (takeWhile (\<lambda>c. c \<noteq> 0) in16)"


declare strip_trailing.simps [simp del] strip_leading.simps [simp del] memmatch_loop.simps [simp del]
  StringCompare_loop.simps [simp del] StringMatch.simps [simp del] StringMatch_star.simps [simp del]
  ParseLeadingIntegerT.simps [simp del]

section \<open>Search\<close>

text \<open>
  The reference definition: the first index at which the needle, both strings read through
  \<open>caseFunc\<close>, is a prefix of the rest of the haystack.
\<close>

definition first_occurrence :: "(int \<Rightarrow> int) \<Rightarrow> str \<Rightarrow> str \<Rightarrow> nat option" where
  "first_occurrence caseFunc hs ns =
     List.find (\<lambda>i. prefix (map caseFunc ns) (map caseFunc (drop i hs))) [0..<length hs + 1]"

definition occurs_at :: "(int \<Rightarrow> int) \<Rightarrow> str \<Rightarrow> nat \<Rightarrow> str \<Rightarrow> nat \<Rightarrow> nat \<Rightarrow> bool" where
  "occurs_at f hs hl ns n i \<longleftrightarrow> i + n \<le> hl \<and> (\<forall>j<n. f (hs ! (i + j)) = f (ns ! j))"

lemma memmatch_loop_find:
  assumes "k \<le> h" "k < n" "h \<le> hl"
    and "\<forall>j<k. f (hs ! (h - k + j)) = f (ns ! j)"
    and "\<forall>i<h - k. \<not> occurs_at f hs hl ns n i"
  shows "memmatch_loop f hs hl ns n h k = List.find (occurs_at f hs hl ns n) [0..<hl + 1]"
  using assms
proof (induction f hs hl ns n h k rule: memmatch_loop.induct)
  case (1 f hs hl ns n h k)
  note pre = "1.prems"
  show ?case
  proof (cases "h < hl")
    case False
    then have "\<not> occurs_at f hs hl ns n i" if "\<not> i < h - k" for i
      using pre(1-3) that by (auto simp: occurs_at_def)
    then have "List.find (occurs_at f hs hl ns n) [0..<hl + 1] = None"
      using pre(5) by (auto simp: find_upt_None simp del: upt_Suc)
    with False show ?thesis by (subst memmatch_loop.simps) (simp del: upt_Suc)
  next
    case True
    show ?thesis
    proof (cases "f (hs ! h) = f (ns ! k)")
      case eq: True
      have m: "\<forall>j<k + 1. f (hs ! (h - k + j)) = f (ns ! j)"
        using pre(1,4) eq by (auto simp: less_Suc_eq)
      show ?thesis
      proof (cases "k + 1 = n")
        case n: True
        have "occurs_at f hs hl ns n (h - k)"
          using m n pre(1) True by (auto simp: occurs_at_def)
        then have "List.find (occurs_at f hs hl ns n) [0..<hl + 1] = Some (h - k)"
          using pre(1,5) True by (auto simp: find_upt_Some simp del: upt_Suc)
        moreover have "h + 1 - n = h - k" using n by simp
        ultimately show ?thesis
          using True eq n by (subst memmatch_loop.simps) simp
      next
        case False
        have "memmatch_loop f hs hl ns n (h + 1) (k + 1) = List.find (occurs_at f hs hl ns n) [0..<hl + 1]"
          by (rule "1.IH"(1) [OF True eq False]) (use pre m True False in auto)
        with True eq False show ?thesis by (subst memmatch_loop.simps) simp
      qed
    next
      case ne: False
      have here: "\<not> occurs_at f hs hl ns n (h - k)"
        using ne pre(1,2) by (auto simp: occurs_at_def intro!: exI [of _ k])
      then have none: "\<forall>i<h - k + 1. \<not> occurs_at f hs hl ns n i"
        using pre(5) by (auto simp: less_Suc_eq)
      show ?thesis
      proof (cases "k = 0")
        case k: True
        have "memmatch_loop f hs hl ns n (h + 1) 0 = List.find (occurs_at f hs hl ns n) [0..<hl + 1]"
          by (rule "1.IH"(3) [OF True ne]) (use pre True k none in auto)
        with True ne k show ?thesis by (subst memmatch_loop.simps) simp
      next
        case False
        have "memmatch_loop f hs hl ns n (h - k + 1) 0 = List.find (occurs_at f hs hl ns n) [0..<hl + 1]"
          by (rule "1.IH"(2) [OF True ne False]) (use pre True none in auto)
        with True ne False show ?thesis by (subst memmatch_loop.simps) simp
      qed
    qed
  qed
qed

lemma occurs_at_prefix:
  assumes "hl \<le> length hs" "n \<le> length ns" "i \<le> hl"
  shows "occurs_at f hs hl ns n i \<longleftrightarrow> prefix (map f (take n ns)) (map f (drop i (take hl hs)))"
proof -
  have "prefix xs ys \<longleftrightarrow> length xs \<le> length ys \<and> (\<forall>j<length xs. ys ! j = xs ! j)" for xs ys :: str
    by (metis nth_append prefixE prefix_length_le append_eq_conv_conj nth_take nth_equalityI
        take_is_prefix length_take min.absorb2)
  then show ?thesis using assms by (auto simp: occurs_at_def)
qed

lemma memmatch_loop_first:
  assumes "hl \<le> length hs" "n \<le> length ns" "0 < n"
  shows "memmatch_loop f hs hl ns n 0 0 = first_occurrence f (take hl hs) (take n ns)"
proof -
  have "memmatch_loop f hs hl ns n 0 0 = List.find (occurs_at f hs hl ns n) [0..<hl + 1]"
    using assms by (intro memmatch_loop_find) auto
  also have "\<dots> = first_occurrence f (take hl hs) (take n ns)"
    using assms unfolding first_occurrence_def
    by (intro find_cong) (auto simp: occurs_at_prefix simp del: upt_Suc)
  finally show ?thesis .
qed

lemma first_occurrence_0: "prefix (map f ns) (map f hs) \<Longrightarrow> first_occurrence f hs ns = Some 0"
  by (simp add: first_occurrence_def upt_conv_Cons del: upt_Suc)

lemma first_occurrence_longer: "length hs < length ns \<Longrightarrow> first_occurrence f hs ns = None"
  by (auto simp: first_occurrence_def find_None_iff dest!: prefix_length_le)

lemma first_occurrence_None: "first_occurrence f hs ns = None \<longleftrightarrow> \<not> sublist (map f ns) (map f hs)"
proof -
  have "sublist xs ys \<longleftrightarrow> (\<exists>i\<le>length ys. prefix xs (drop i ys))" for xs ys :: str
  proof
    assume "sublist xs ys"
    then obtain ps ss where "ys = ps @ xs @ ss" by (auto simp: sublist_def)
    then have "length ps \<le> length ys \<and> prefix xs (drop (length ps) ys)" by simp
    then show "\<exists>i\<le>length ys. prefix xs (drop i ys)" by blast
  next
    assume "\<exists>i\<le>length ys. prefix xs (drop i ys)"
    then show "sublist xs ys" by (meson prefix_imp_sublist sublist_drop sublist_order.order_trans)
  qed
  then show ?thesis
    by (auto simp: first_occurrence_def find_None_iff drop_map less_Suc_eq_le simp del: upt_Suc)
qed

lemma MemMatch_first:
  assumes "hl \<le> length hs" "n \<le> length ns" "same \<Longrightarrow> n \<le> hl \<Longrightarrow> take n hs = take n ns"
  shows "MemMatch f same hs hl ns n = first_occurrence f (take hl hs) (take n ns)"
proof -
  consider "n = 0" | "n \<noteq> 0" "hl < n" | "n \<noteq> 0" "n \<le> hl" same | "n \<noteq> 0" "n \<le> hl" "\<not> same"
    by linarith
  then show ?thesis
  proof cases
    case 3
    then have "take n (take hl hs) = take n ns" using assms(3) by (simp add: min_absorb1)
    then have "prefix (map f (take n ns)) (map f (take hl hs))"
      by (metis take_is_prefix map_mono_prefix)
    with 3 show ?thesis by (simp add: MemMatch_def first_occurrence_0)
  qed (use assms in \<open>auto simp: MemMatch_def first_occurrence_0 first_occurrence_longer memmatch_loop_first\<close>)
qed

definition case_functor :: "bool \<Rightarrow> int \<Rightarrow> int" where
  "case_functor case_sensitive = (if case_sensitive then CaseSensitiveFunctor else CaseInSensitiveFunctor)"

lemma memmatch_MemMatch: "memmatch same hs hl ns n cs = MemMatch (case_functor cs) same hs hl ns n"
  by (simp add: memmatch_def case_functor_def)

lemma map_CaseSensitive [simp]: "map (case_functor True) s = s"
  by (simp add: case_functor_def CaseSensitiveFunctor_def map_idI)

lemma map_CaseInSensitive [simp]: "map (case_functor False) s = LowerString s"
  by (simp add: case_functor_def CaseInSensitiveFunctor_def LowerString_def)

lemma sublist_same_length: "length xs = length ys \<Longrightarrow> sublist xs ys \<longleftrightarrow> xs = ys"
  by (auto simp: sublist_def intro: exI [of _ "[]"])

lemma memmatch_window:
  assumes "n \<le> length hs" "n \<le> length ns" "same \<Longrightarrow> take n hs = take n ns"
  shows "memmatch same hs n ns n cs \<noteq> None \<longleftrightarrow>
    map (case_functor cs) (take n hs) = map (case_functor cs) (take n ns)"
  using assms
  by (subst memmatch_MemMatch, subst MemMatch_first)
    (auto simp: first_occurrence_None sublist_same_length)

lemma c_str_no_nul [simp]: "0 \<notin> set s \<Longrightarrow> c_str s = s"
  by (auto simp: c_str_def takeWhile_eq_all_conv)

lemma LowerString_take: "LowerString (take n s) = take n (LowerString s)"
  by (simp add: LowerString_def take_map)

lemma LowerString_drop: "LowerString (drop n s) = drop n (LowerString s)"
  by (simp add: LowerString_def drop_map)

lemma length_LowerString [simp]: "length (LowerString s) = length s"
  by (simp add: LowerString_def)

lemma prefix_take: "prefix xs ys \<longleftrightarrow> length xs \<le> length ys \<and> take (length xs) ys = xs"
  by (metis append_eq_conv_conj prefix_def prefix_length_le take_is_prefix)

lemma suffix_drop: "suffix xs ys \<longleftrightarrow> length xs \<le> length ys \<and> drop (length ys - length xs) ys = xs"
  by (metis suffix_length_le suffix_take suffix_drop append_take_drop_id append_eq_conv_conj
      length_take min.absorb2 diff_le_self suffixI)

lemma StartsWith_prefix:
  assumes "same \<Longrightarrow> prefix right left"
  shows "StartsWith same left right \<longleftrightarrow> prefix right left"
    and "StartsWithIgnoreCase same left right \<longleftrightarrow> prefix (LowerString right) (LowerString left)"
  using assms memmatch_window [of "length right" left right same True]
    memmatch_window [of "length right" left right same False]
  by (auto simp: StartsWith_def StartsWithIgnoreCase_def memstr_buf_def memistr_buf_def Let_def
      prefix_take LowerString_take simp del: not_None_eq)

lemma EndsWith_suffix:
  assumes "0 \<notin> set left" "0 \<notin> set right" "same \<Longrightarrow> suffix right left"
  shows "EndsWith same left right \<longleftrightarrow> suffix right left"
    and "EndsWithIgnoreCase same left right \<longleftrightarrow> suffix (LowerString right) (LowerString left)"
proof -
  have 0: "0 \<notin> set (drop n left)" for n using assms(1) by (meson in_set_dropD)
  show "EndsWith same left right \<longleftrightarrow> suffix right left"
    and "EndsWithIgnoreCase same left right \<longleftrightarrow> suffix (LowerString right) (LowerString left)"
    using assms 0
      memmatch_window [of "length right" "drop (length left - length right) left" right same True]
      memmatch_window [of "length right" "drop (length left - length right) left" right same False]
    by (auto simp: EndsWith_def EndsWithIgnoreCase_def memstr_cstr_def memistr_cstr_def Let_def
        suffix_drop LowerString_drop simp del: not_None_eq)
qed

text \<open>
  \<open>EndsWith\<close> measures both strings up to their first null unit, so it does not compare
  strings that hold one: every string of at least its length ends with a string whose first unit
  is null.
\<close>

lemma EndsWith_embedded_nul: "length left \<ge> length s + 1 \<Longrightarrow> EndsWith False left (0 # s)"
  by (simp add: EndsWith_def memstr_cstr_def memmatch_def MemMatch_def c_str_def Let_def)

section \<open>Comparison\<close>

lemma deref_simps [simp]: "deref [] = 0" "deref (c # s) = c"
  by (simp_all add: deref_def)

lemma StringCompare_loop_step:
  "StringCompare_loop conv l [] = conv (deref l) - conv 0"
  "StringCompare_loop conv [] (c # r) =
     (if conv 0 = conv c \<and> c \<noteq> 0 then StringCompare_loop conv [] r else conv 0 - conv c)"
  "StringCompare_loop conv (b # l) (c # r) =
     (if conv b = conv c \<and> c \<noteq> 0 then StringCompare_loop conv l r else conv b - conv c)"
  by (subst StringCompare_loop.simps, simp add: Let_def)+

lemma StringCompare_loop_zero:
  assumes conv: "\<And>c. conv c = 0 \<longleftrightarrow> c = 0" and "0 \<notin> set lhs" "0 \<notin> set rhs"
  shows "StringCompare_loop conv lhs rhs = 0 \<longleftrightarrow> map conv lhs = map conv rhs"
  using assms(2,3)
proof (induction lhs arbitrary: rhs)
  case Nil
  have 0: "conv 0 = 0" using conv by blast
  then have "conv 0 \<noteq> conv c" if "c \<noteq> 0" for c using that conv [of c] by simp
  with 0 Nil conv show ?case by (cases rhs) (simp_all add: StringCompare_loop_step)
next
  case (Cons a lhs)
  have 0: "conv 0 = 0" using conv by blast
  then have "conv c \<noteq> conv 0" if "c \<noteq> 0" for c using that conv [of c] by simp
  with 0 Cons conv show ?case by (cases rhs) (simp_all add: StringCompare_loop_step)
qed

lemma sign_of_ret_zero [simp]: "sign_of_ret r = 0 \<longleftrightarrow> r = 0"
  by (simp add: sign_of_ret_def)

lemma tolower_zero: "tolower c = 0 \<longleftrightarrow> c = 0"
  by (auto simp: tolower_def)

lemma StringCompare_equal:
  assumes "0 \<notin> set lhs" "0 \<notin> set rhs"
  shows "StringCompare lhs rhs = 0 \<longleftrightarrow> lhs = rhs"
    and "StringCompareIgnoreCase lhs rhs = 0 \<longleftrightarrow> MakeLowerString lhs = MakeLowerString rhs"
  using StringCompare_loop_zero [of "\<lambda>c. c", OF _ assms] StringCompare_loop_zero [of tolower, OF _ assms]
  by (simp_all add: StringCompare_def StringCompareIgnoreCase_def MakeLowerString_def
      LowerString_def tolower_zero)

text \<open>On positive code units the sign of the comparison is the lexicographic order.\<close>

lemma StringCompare_less:
  assumes "\<forall>c\<in>set lhs. c > 0" "\<forall>c\<in>set rhs. c > 0"
  shows "StringCompare lhs rhs = -1 \<longleftrightarrow> (lhs, rhs) \<in> lexord {(a, b). a < b}"
proof -
  have "StringCompare_loop (\<lambda>c. c) lhs rhs < 0 \<longleftrightarrow> (lhs, rhs) \<in> lexord {(a, b). a < b}"
    using assms
  proof (induction lhs arbitrary: rhs)
    case Nil
    then show ?case by (cases rhs) (simp_all add: StringCompare_loop_step)
  next
    case (Cons a lhs)
    then show ?case by (cases rhs) (auto simp: StringCompare_loop_step)
  qed
  then show ?thesis by (auto simp: StringCompare_def sign_of_ret_def)
qed

section \<open>Wildcards\<close>

text \<open>
  What the comment of \<open>StringMatch\<close> promises: an asterisk matches any run of characters,
  every other character itself up to case.
\<close>

fun glob :: "str \<Rightarrow> str \<Rightarrow> bool" where
  "glob t [] = (t = [])"
| "glob [] (c # p) = (c = 42 \<and> glob [] p)"
| "glob (a # t) (c # p) =
     (if c = 42 then glob (a # t) p \<or> glob t (c # p) else toupper c = toupper a \<and> glob t p)"

fun no_double_star :: "str \<Rightarrow> bool" where
  "no_double_star (c # d # p) = (\<not> (c = 42 \<and> d = 42) \<and> no_double_star (d # p))"
| "no_double_star _ = True"

lemma toupper_zero: "toupper c = 0 \<longleftrightarrow> c = 0"
  by (auto simp: toupper_def)

lemma glob_star: "glob t [42]"
  by (induction t) auto

lemma glob_star_shift:
  "c \<noteq> 42 \<Longrightarrow> glob (a # t) (42 # c # p) \<longleftrightarrow>
     toupper c = toupper a \<and> glob t p \<or> glob t (42 # c # p)"
  by simp

text \<open>
  \<open>StringMatch\<close> keeps that promise for patterns without two asterisks in a row.
\<close>

lemma no_double_star_tl: "no_double_star (c # p) \<Longrightarrow> no_double_star p"
  by (cases p) auto

lemma StringMatch_glob_both:
  shows "0 \<notin> set target \<Longrightarrow> 0 \<notin> set pattern \<Longrightarrow> no_double_star pattern \<Longrightarrow>
      StringMatch target pattern \<longleftrightarrow> glob target pattern"
    and "0 \<notin> set target \<Longrightarrow> 0 \<notin> set pattern \<Longrightarrow> no_double_star pattern \<Longrightarrow> pattern \<noteq> [] \<Longrightarrow>
      hd pattern \<noteq> 42 \<Longrightarrow> StringMatch_star target pattern \<longleftrightarrow> glob target (42 # pattern)"
proof (induction target pattern and target pattern rule: StringMatch_StringMatch_star.induct)
  case (1 target pattern)
  show ?case
  proof (cases pattern)
    case Nil
    then show ?thesis using 1(3) by (subst StringMatch.simps; cases target) auto
  next
    case (Cons c p)
    show ?thesis
    proof (cases "c = 42")
      case True
      with 1(1,3-5) Cons show ?thesis
        by (subst StringMatch.simps; cases p) (auto simp: glob_star)
    next
      case False
      with 1(2-5) Cons toupper_zero [of c] show ?thesis
        by (subst StringMatch.simps; cases target) (auto simp: toupper_def dest: no_double_star_tl)
    qed
  qed
next
  case (2 target pattern)
  then obtain c p where p: "pattern = c # p" "c \<noteq> 42" by (cases pattern) auto
  show ?case
  proof (cases target)
    case Nil
    then show ?thesis using p by (subst StringMatch_star.simps) simp
  next
    case (Cons a t)
    with 2 p show ?thesis
      by (subst StringMatch_star.simps) (auto dest: no_double_star_tl)
  qed
qed

lemmas StringMatch_glob = StringMatch_glob_both(1)

text \<open>
  The second of two asterisks in a row is compared as an ordinary character: the pattern
  \<open>**\<close> matches \<open>*\<close> and not \<open>a\<close>.
\<close>

lemma StringMatch_double_star:
  "\<not> StringMatch [97] [42, 42]" "glob [97] [42, 42]" "StringMatch [42] [42, 42]"
  by (simp_all add: StringMatch.simps StringMatch_star.simps toupper_def)

section \<open>Path components\<close>

lemma all_chars_valid_iff: "all_chars_valid s \<longleftrightarrow> (\<forall>c\<in>set (c_str s). IsCharValidInPathComponent c True)"
  by (induction s) (auto simp: c_str_def)

lemma c_str_Nil: "c_str s = [] \<longleftrightarrow> deref s = 0"
  by (cases s) (auto simp: c_str_def)

lemma hd_c_str: "deref s \<noteq> 0 \<Longrightarrow> hd (c_str s) = deref s"
  by (cases s) (auto simp: c_str_def)

lemma IsStringValidPathComponent_iff:
  "IsStringValidPathComponent p \<longleftrightarrow> (\<exists>s. p = Some s \<and> (c_str s = [] \<or>
     hd (c_str s) \<noteq> 46 \<and> last (c_str s) \<noteq> 46
       \<and> (\<forall>c\<in>set (c_str s). IsCharValidInPathComponent c True)))"
  by (auto simp: IsStringValidPathComponent_def all_chars_valid_iff c_str_Nil hd_c_str split: option.splits)

text \<open>What \<open>EnsureStringValidPathComponent\<close> returns is a valid component of the same length.\<close>

lemma valid_nonzero: "IsCharValidInPathComponent c strict \<Longrightarrow> c \<noteq> 0"
  by (auto simp: IsCharValidInPathComponent_def)

lemma underscore_valid [simp]: "IsCharValidInPathComponent 95 strict"
  by (simp add: IsCharValidInPathComponent_def)

lemma Ensure_shape:
  fixes s :: str and strict :: bool
  assumes "s \<noteq> []"
  defines "s' \<equiv> EnsureStringValidPathComponent s strict"
  shows "s' \<noteq> []" "length s' = length s" "hd s' \<noteq> 46" "last s' \<noteq> 46"
    "\<forall>c\<in>set s'. IsCharValidInPathComponent c strict"
proof -
  define fixed where "fixed = (\<lambda>c. if \<not> IsCharValidInPathComponent c strict then 95 else c)"
  define s1 where "s1 = (if hd s = 46 then 95 # map fixed (tl s) else map fixed s)"
  have s': "s' = (if last s1 = 46 then butlast s1 @ [95] else s1)"
    using assms by (simp add: EnsureStringValidPathComponent_def fixed_def s1_def Let_def)
  have s1: "s1 \<noteq> []" "length s1 = length s" "hd s1 \<noteq> 46" "\<forall>c\<in>set s1. IsCharValidInPathComponent c strict"
    using assms(1) by (cases s; auto simp: s1_def fixed_def)+
  show "s' \<noteq> []" "length s' = length s" "last s' \<noteq> 46" "\<forall>c\<in>set s'. IsCharValidInPathComponent c strict"
    using s1 assms(1) by (auto simp: s' dest: in_set_butlastD)
  show "hd s' \<noteq> 46"
    using s1 by (cases s1; cases "tl s1") (auto simp: s')
qed

lemma Ensure_valid: "IsStringValidPathComponent (Some (EnsureStringValidPathComponent s True))"
proof (cases "s = []")
  case False
  note sh = Ensure_shape [OF this, of True]
  then have "c_str (EnsureStringValidPathComponent s True) = EnsureStringValidPathComponent s True"
    using valid_nonzero by (intro c_str_no_nul) blast
  with sh show ?thesis by (simp add: IsStringValidPathComponent_iff)
qed (simp add: EnsureStringValidPathComponent_def IsStringValidPathComponent_def)

lemma Ensure_id:
  assumes "IsStringValidPathComponent (Some s)" "0 \<notin> set s"
  shows "EnsureStringValidPathComponent s True = s"
proof (cases s)
  case (Cons a t)
  with assms have "a \<noteq> 46" "last (a # t) \<noteq> 46" "\<forall>c\<in>set (a # t). IsCharValidInPathComponent c True"
    by (auto simp: IsStringValidPathComponent_iff)
  with Cons show ?thesis
    by (simp add: EnsureStringValidPathComponent_def Let_def map_idI)
qed (simp add: EnsureStringValidPathComponent_def)

section \<open>Hexadecimal digits\<close>

lemma HexToInt_defined: "HexToInt ch \<noteq> None \<longleftrightarrow> IsHex ch"
  by (auto simp: HexToInt_def IsHex_def)

lemma kHexString_nth: "n < 16 \<Longrightarrow> kHexString ! n = (if n < 10 then 48 + int n else 55 + int n)"
proof -
  have "list_all (\<lambda>n. kHexString ! n = (if n < 10 then 48 + int n else 55 + int n)) [0..<16]"
    by code_simp
  then show "n < 16 \<Longrightarrow> ?thesis" unfolding list_all_iff by simp
qed

lemma HexToInt_IntToHex:
  assumes "0 \<le> i" "i \<le> 15"
  shows "\<exists>ch. IntToHex i = Some ch \<and> IsHex ch \<and> HexToInt ch = Some i"
  using assms kHexString_nth [of "nat i"] by (auto simp: IntToHex_def HexToInt_def IsHex_def)

section \<open>White space\<close>

definition trim :: "str \<Rightarrow> str" where
  "trim s = dropWhile isspace (rev (dropWhile isspace (rev s)))"

lemma strip_trailing_eq:
  "start + n \<le> length s \<Longrightarrow> strip_trailing s start (int n)
     = int (length (dropWhile isspace (rev (take n (drop start s)))))"
proof (induction n)
  case 0
  then show ?case by (subst strip_trailing.simps) simp
next
  case (Suc n)
  then have "take (Suc n) (drop start s) = take n (drop start s) @ [s ! (start + n)]"
    by (simp add: take_Suc_conv_app_nth)
  with Suc show ?case by (subst strip_trailing.simps) (simp add: nat_add_distrib)
qed

lemma strip_leading_eq:
  "start + n \<le> length s \<Longrightarrow> strip_leading s start (int n) =
     (let r = dropWhile isspace (take n (drop start s)) in (start + n - length r, int (length r)))"
proof (induction n arbitrary: start)
  case 0
  then show ?case by (subst strip_leading.simps) simp
next
  case (Suc n)
  then have d: "take (Suc n) (drop start s) = s ! start # take n (drop (Suc start) s)"
    by (simp add: Cons_nth_drop_Suc [symmetric])
  show ?case
  proof (cases "isspace (s ! start)")
    case True
    have "strip_leading s start (int (Suc n)) = strip_leading s (start + 1) (int n)"
      using True by (subst strip_leading.simps) simp
    with Suc d True show ?thesis by (simp add: Let_def)
  next
    case False
    with Suc d show ?thesis by (subst strip_leading.simps) (simp add: Let_def)
  qed
qed

lemma StripWhiteSpace_trim: "StripWhiteSpace s = trim s"
proof -
  define t where "t = rev (dropWhile isspace (rev s))"
  define r where "r = dropWhile isspace t"
  have t: "take (length t) s = t" "length t \<le> length s"
  proof -
    have "prefix t s" unfolding t_def by (metis suffix_dropWhile suffix_to_prefix rev_rev_ident)
    then show "take (length t) s = t" "length t \<le> length s"
      by (simp_all add: prefix_take)
  qed
  have r: "length r \<le> length t" "drop (length t - length r) t = r"
    using suffix_dropWhile [of isspace t] by (auto simp: r_def suffix_drop)
  have "strip_trailing s 0 (int (length s)) = int (length t)"
    by (simp add: strip_trailing_eq t_def)
  moreover have "strip_leading s 0 (int (length t)) = (length t - length r, int (length r))"
    using t by (simp add: strip_leading_eq r_def Let_def)
  moreover have "take (length r) (drop (length t - length r) s) = r"
    using t r by (metis diff_diff_cancel drop_take)
  ultimately show ?thesis
    by (simp add: StripWhiteSpace_def StripWhiteSpace_window_def trim_def t_def [symmetric] r_def [symmetric])
qed

section \<open>Replacement\<close>

text \<open>The reference definition: occurrences are replaced from the left and do not overlap.\<close>

function replace_all :: "str \<Rightarrow> str \<Rightarrow> str \<Rightarrow> str \<times> nat" where
  "replace_all old_pattern new_pattern [] = ([], 0)"
| "replace_all old_pattern new_pattern (c # s) =
     (if old_pattern \<noteq> [] \<and> prefix old_pattern (c # s)
      then case replace_all old_pattern new_pattern (drop (length old_pattern) (c # s)) of
             (r, n) \<Rightarrow> (new_pattern @ r, n + 1)
      else case replace_all old_pattern new_pattern s of (r, n) \<Rightarrow> (c # r, n))"
  by pat_completeness auto
termination
  by (relation "measure (\<lambda>(_, _, s). length s)") (auto simp: Suc_le_eq neq_Nil_conv)

lemma string_find_Some:
  "string_find s pat offset = Some i \<Longrightarrow>
     offset \<le> i \<and> i + length pat \<le> length s \<and> prefix pat (drop i s)
       \<and> (\<forall>k. offset \<le> k \<and> k < i \<longrightarrow> \<not> prefix pat (drop k s))"
  by (auto simp: string_find_def find_upt_Some simp del: upt_Suc dest: prefix_length_le)

lemma string_find_None:
  "string_find s pat offset = None \<Longrightarrow> pat \<noteq> [] \<Longrightarrow> offset \<le> k \<Longrightarrow> \<not> prefix pat (drop k s)"
  by (cases "k < length s + 1") (auto simp: string_find_def find_upt_None simp del: upt_Suc)

lemma replace_all_skip:
  assumes "\<forall>k<n. \<not> prefix old_pattern (drop k s)" "n \<le> length s"
  shows "replace_all old_pattern new_pattern s =
    (case replace_all old_pattern new_pattern (drop n s) of (r, m) \<Rightarrow> (take n s @ r, m))"
  using assms
proof (induction n arbitrary: s)
  case (Suc n)
  then obtain c t where s: "s = c # t" by (cases s) auto
  have "\<not> prefix old_pattern (c # t)" using Suc.prems(1) s by (metis drop0 zero_less_Suc)
  moreover have "\<forall>k<n. \<not> prefix old_pattern (drop k t)"
    using Suc.prems(1) s by (metis Suc_mono drop_Suc_Cons)
  ultimately show ?case
    using Suc.IH [of t] Suc.prems(2) s by (simp split: prod.splits)
qed simp

lemma replace_all_at:
  assumes "old_pattern \<noteq> []" "prefix old_pattern s"
  shows "replace_all old_pattern new_pattern s =
    (case replace_all old_pattern new_pattern (drop (length old_pattern) s) of
       (r, n) \<Rightarrow> (new_pattern @ r, n + 1))"
  using assms by (cases s) auto

lemma ReplaceAll_loop_correct:
  assumes "old_pattern \<noteq> []" "offset \<le> length s"
  shows "ReplaceAll_loop old_pattern new_pattern s offset n =
    (case replace_all old_pattern new_pattern (drop offset s) of
       (r, m) \<Rightarrow> Some (take offset s @ r, n + m))"
  using assms(2)
proof (induction "length s - offset" arbitrary: s offset n rule: less_induct)
  case less
  show ?case
  proof (cases "string_find s old_pattern offset")
    case None
    then have "\<forall>k<length s - offset. \<not> prefix old_pattern (drop k (drop offset s))"
      using string_find_None [OF None assms(1)] by (simp add: add.commute)
    from replace_all_skip [OF this] have "replace_all old_pattern new_pattern (drop offset s) = (drop offset s, 0)"
      by simp
    with None show ?thesis by (subst ReplaceAll_loop.simps) simp
  next
    case (Some i)
    note f = string_find_Some [OF this]
    define s2 where "s2 = string_replace s i (length old_pattern) new_pattern"
    have len: "length s2 = length s - length old_pattern + length new_pattern" "i + length old_pattern \<le> length s"
      using f by (auto simp: s2_def string_replace_def)
    have lp: "0 < length old_pattern" using assms(1) by simp
    have drop2: "drop (i + length new_pattern) s2 = drop (i + length old_pattern) s"
      and take2: "take (i + length new_pattern) s2 = take i s @ new_pattern"
      using len(2) by (simp_all add: s2_def string_replace_def)
    have IH: "ReplaceAll_loop old_pattern new_pattern s2 (i + length new_pattern) (n + 1) =
      (case replace_all old_pattern new_pattern (drop (i + length old_pattern) s) of
        (r, m) \<Rightarrow> Some ((take i s @ new_pattern) @ r, n + 1 + m))"
    proof -
      have "length s2 - (i + length new_pattern) < length s - offset" "i + length new_pattern \<le> length s2"
        using f len lp by linarith+
      from less.hyps [OF this, of "n + 1"] show ?thesis by (simp only: drop2 take2)
    qed
    have "\<forall>k<i - offset. \<not> prefix old_pattern (drop k (drop offset s))" using f by simp
    moreover have "i - offset \<le> length (drop offset s)" using f by auto
    ultimately have sk: "replace_all old_pattern new_pattern (drop offset s) =
      (case replace_all old_pattern new_pattern (drop i s) of
         (r, m) \<Rightarrow> (take (i - offset) (drop offset s) @ r, m))"
      using replace_all_skip [of "i - offset" old_pattern "drop offset s" new_pattern] f by simp
    have tk: "take offset s @ take (i - offset) (drop offset s) = take i s"
      using f by (metis le_add_diff_inverse take_add)
    have at: "replace_all old_pattern new_pattern (drop i s) =
      (case replace_all old_pattern new_pattern (drop (i + length old_pattern) s) of
         (r, n) \<Rightarrow> (new_pattern @ r, n + 1))"
      using replace_all_at [OF assms(1), of "drop i s" new_pattern] f by (simp add: add.commute)
    obtain r m where rm: "replace_all old_pattern new_pattern (drop (i + length old_pattern) s) = (r, m)"
      by fastforce
    with IH have "ReplaceAll_loop old_pattern new_pattern s2 (i + length new_pattern) (n + 1) =
        Some (take i s @ new_pattern @ r, n + (m + 1))" by simp
    moreover have "replace_all old_pattern new_pattern (drop offset s) =
        (take (i - offset) (drop offset s) @ new_pattern @ r, m + 1)" using sk at rm by simp
    ultimately show ?thesis
      by (subst ReplaceAll_loop.simps) (simp add: Some s2_def [symmetric] tk [symmetric])
  qed
qed

lemma ReplaceAll_correct:
  "old_pattern \<noteq> [] \<Longrightarrow> ReplaceAll s old_pattern new_pattern = Some (replace_all old_pattern new_pattern s)"
  by (simp add: ReplaceAll_def ReplaceAll_loop_correct split: prod.splits)

text \<open>An empty \<open>old_pattern\<close> is found at every offset: the loop does not end.\<close>

lemma ReplaceAll_loop_empty:
  assumes "ReplaceAll_loop old_pattern new_pattern s offset n = Some r"
  shows "offset \<le> length s \<longrightarrow> old_pattern \<noteq> []"
proof (rule ReplaceAll_loop.raw_induct [where P = "\<lambda>old_pattern new_pattern s offset n r.
    offset \<le> length s \<longrightarrow> old_pattern \<noteq> []", OF _ assms], goal_cases)
  case (1 loop old_pattern new_pattern s offset n r)
  show ?case
  proof (intro impI notI)
    assume o: "offset \<le> length s" and e: "old_pattern = []"
    then have "string_find s old_pattern offset = Some offset"
      by (simp add: string_find_def find_upt_Some del: upt_Suc)
    with 1(2) e have "loop old_pattern new_pattern (string_replace s offset 0 new_pattern)
        (offset + length new_pattern) (n + 1) = Some r" by simp
    moreover have "offset + length new_pattern \<le> length (string_replace s offset 0 new_pattern)"
      using o by (simp add: string_replace_def)
    ultimately show False using 1(1) e by blast
  qed
qed

lemma ReplaceAll_empty: "ReplaceAll s [] new_pattern = None"
  by (cases "ReplaceAll s [] new_pattern") (auto simp: ReplaceAll_def dest: ReplaceAll_loop_empty)

section \<open>Tokens\<close>

text \<open>The reference definition: the maximal runs of characters that are no delimiters.\<close>

function tokens_of :: "int set \<Rightarrow> str \<Rightarrow> str list" where
  "tokens_of D s =
     (case dropWhile (\<lambda>c. c \<in> D) s of
        [] \<Rightarrow> []
      | c # cs \<Rightarrow> (c # takeWhile (\<lambda>c. c \<notin> D) cs) # tokens_of D (dropWhile (\<lambda>c. c \<notin> D) cs))"
  by pat_completeness auto
termination
proof (relation "measure (\<lambda>(_, s). length s)", goal_cases)
  case (2 D s c cs)
  then have "length (c # cs) \<le> length s" by (metis length_dropWhile_le)
  then show ?case using length_dropWhile_le [of "\<lambda>c. c \<notin> D" cs] by simp
qed simp

declare tokens_of.simps [simp del]

lemma tokens_of_Nil: "dropWhile (\<lambda>c. c \<in> D) s = [] \<Longrightarrow> tokens_of D s = []"
  by (subst tokens_of.simps) (simp only: list.case)

lemma tokens_of_Cons: "dropWhile (\<lambda>c. c \<in> D) s = c # cs \<Longrightarrow>
    tokens_of D s = (c # takeWhile (\<lambda>c. c \<notin> D) cs) # tokens_of D (dropWhile (\<lambda>c. c \<notin> D) cs)"
  by (subst tokens_of.simps) (simp only: list.case)

lemma dropWhile_find:
  "dropWhile (\<lambda>c. \<not> P c) (drop i s) =
     (case List.find (\<lambda>i. P (s ! i)) [i..<length s] of None \<Rightarrow> [] | Some j \<Rightarrow> drop j s)"
proof (induction "length s - i" arbitrary: i)
  case (Suc d)
  then have "drop i s = s ! i # drop (Suc i) s" "[i..<length s] = i # [Suc i..<length s]"
    by (simp_all add: Cons_nth_drop_Suc upt_conv_Cons)
  with Suc show ?case by auto
qed simp

lemma takeWhile_find:
  "takeWhile (\<lambda>c. \<not> P c) (drop i s) =
     (case List.find (\<lambda>i. P (s ! i)) [i..<length s] of None \<Rightarrow> drop i s | Some j \<Rightarrow> take (j - i) (drop i s))"
proof (induction "length s - i" arbitrary: i)
  case (Suc d)
  then have d: "drop i s = s ! i # drop (Suc i) s" "[i..<length s] = i # [Suc i..<length s]"
    by (simp_all add: Cons_nth_drop_Suc upt_conv_Cons)
  have "\<And>j. List.find (\<lambda>i. P (s ! i)) [Suc i..<length s] = Some j \<Longrightarrow> j - i = Suc (j - Suc i)"
    by (auto simp: find_upt_Some)
  with Suc d show ?case by (auto split: option.splits)
qed simp

lemma Tokenize_loop_eq:
  "Tokenize_loop s delimiters (find_first_not_of s delimiters i) acc =
     acc @ tokens_of (set delimiters) (drop i s)"
proof (induction "length s - i" arbitrary: i acc rule: less_induct)
  case less
  have dw: "dropWhile (\<lambda>c. c \<in> set delimiters) (drop i s) =
      (case find_first_not_of s delimiters i of None \<Rightarrow> [] | Some j \<Rightarrow> drop j s)"
    using dropWhile_find [of "\<lambda>c. c \<notin> set delimiters" i s] by (simp add: find_first_not_of_def)
  show ?case
  proof (cases "find_first_not_of s delimiters i")
    case None
    then have "dropWhile (\<lambda>c. c \<in> set delimiters) (drop i s) = []" using dw by (simp del: dropWhile_eq_Nil_conv)
    then have "tokens_of (set delimiters) (drop i s) = []" by (rule tokens_of_Nil)
    with None show ?thesis by simp
  next
    case (Some j)
    then have j: "i \<le> j" "j < length s" by (auto simp: find_first_not_of_def find_upt_Some)
    then have dj: "drop j s = s ! j # drop (Suc j) s" by (simp add: Cons_nth_drop_Suc)
    have tok: "tokens_of (set delimiters) (drop i s) =
        (s ! j # takeWhile (\<lambda>c. c \<notin> set delimiters) (drop (Suc j) s))
          # tokens_of (set delimiters) (dropWhile (\<lambda>c. c \<notin> set delimiters) (drop (Suc j) s))"
      using dw Some dj by (intro tokens_of_Cons) simp
    have tw: "takeWhile (\<lambda>c. c \<notin> set delimiters) (drop (Suc j) s) =
        (case find_first_of s delimiters (j + 1) of None \<Rightarrow> drop (Suc j) s
         | Some e \<Rightarrow> take (e - Suc j) (drop (Suc j) s))"
      and dw2: "dropWhile (\<lambda>c. c \<notin> set delimiters) (drop (Suc j) s) =
        (case find_first_of s delimiters (j + 1) of None \<Rightarrow> [] | Some e \<Rightarrow> drop e s)"
      using takeWhile_find [of "\<lambda>c. c \<in> set delimiters" "Suc j" s]
        dropWhile_find [of "\<lambda>c. c \<in> set delimiters" "Suc j" s] by (simp_all add: find_first_of_def)
    show ?thesis
    proof (cases "find_first_of s delimiters (j + 1)")
      case None
      have "tokens_of (set delimiters) [] = []" by (subst tokens_of.simps) simp
      with None Some tok tw dw2 dj show ?thesis by simp
    next
      case (Some e)
      then have e: "j < e" "e < length s" "s ! e \<in> set delimiters"
        by (auto simp: find_first_of_def find_upt_Some)
      have "drop e s = s ! e # drop (Suc e) s" using e by (simp add: Cons_nth_drop_Suc)
      then have "tokens_of (set delimiters) (drop e s) = tokens_of (set delimiters) (drop (Suc e) s)"
        using e(3) by (subst (1 2) tokens_of.simps) simp
      moreover have "take (e - j) (drop j s) = s ! j # take (e - Suc j) (drop (Suc j) s)"
        using dj e(1) by (simp add: take_Cons')
      moreover have "length s - Suc e < length s - i" using e j by linarith
      ultimately show ?thesis
        using less.hyps [of "Suc e"] Some \<open>find_first_not_of s delimiters i = Some j\<close> tok tw dw2 by simp
    qed
  qed
qed

lemma Tokenize_tokens_of:
  "Tokenize s delimiters =
     (int (length (tokens_of (set delimiters) s)), tokens_of (set delimiters) s)"
  using Tokenize_loop_eq [of s delimiters 0 "[]"] by (simp add: Tokenize_def Let_def)

lemma tokens_of_nonempty: "t \<in> set (tokens_of D s) \<Longrightarrow> t \<noteq> [] \<and> set t \<inter> D = {}"
proof (induction D s rule: tokens_of.induct)
  case (1 D s)
  show ?case
  proof (cases "dropWhile (\<lambda>c. c \<in> D) s")
    case Nil
    from tokens_of_Nil [OF this] 1(2) show ?thesis by simp
  next
    case (Cons c cs)
    then have "c \<notin> D" by (metis hd_dropWhile list.distinct(1) list.sel(1))
    moreover have "t = c # takeWhile (\<lambda>c. c \<notin> D) cs \<or> t \<in> set (tokens_of D (dropWhile (\<lambda>c. c \<notin> D) cs))"
      using 1(2) tokens_of_Cons [OF Cons] by simp
    ultimately show ?thesis using 1(1) [OF Cons] by (auto dest: set_takeWhileD)
  qed
qed

lemma concat_tokens_of: "concat (tokens_of D s) = filter (\<lambda>c. c \<notin> D) s"
proof (induction D s rule: tokens_of.induct)
  case (1 D s)
  have s: "filter (\<lambda>c. c \<notin> D) s = filter (\<lambda>c. c \<notin> D) (dropWhile (\<lambda>c. c \<in> D) s)"
    by (induction s) auto
  show ?case
  proof (cases "dropWhile (\<lambda>c. c \<in> D) s")
    case Nil
    with s tokens_of_Nil [OF Nil] show ?thesis by (simp del: dropWhile_eq_Nil_conv)
  next
    case (Cons c cs)
    then have "c \<notin> D" by (metis hd_dropWhile list.distinct(1) list.sel(1))
    moreover have "filter (\<lambda>c. c \<notin> D) cs =
        takeWhile (\<lambda>c. c \<notin> D) cs @ filter (\<lambda>c. c \<notin> D) (dropWhile (\<lambda>c. c \<notin> D) cs)"
      by (induction cs) auto
    ultimately show ?thesis using s Cons 1 [OF Cons] tokens_of_Cons [OF Cons] by simp
  qed
qed

section \<open>Integers\<close>

definition is_digit :: "int \<Rightarrow> bool" where "is_digit c \<longleftrightarrow> 48 \<le> c \<and> c \<le> 57"

definition decimal :: "str \<Rightarrow> int" where
  "decimal ds = foldl (\<lambda>a c. 10 * a + (c - 48)) 0 ds"

lemma decimal_foldl: "foldl (\<lambda>a c. 10 * a - (c - 48)) t ds = - foldl (\<lambda>a c. 10 * a + (c - 48)) (- t) ds" for t :: int
proof (induction ds arbitrary: t)
  case (Cons c ds)
  show ?case using Cons [of "10 * t - (c - 48)"] by (simp add: algebra_simps)
qed simp

lemma decimal_decreasing:
  "list_all is_digit ds \<Longrightarrow> t \<le> 0 \<Longrightarrow> foldl (\<lambda>a c. 10 * a - (c - 48)) t ds \<le> t"
proof (induction ds arbitrary: t)
  case (Cons c ds)
  then have t: "10 * t - (c - 48) \<le> t" by (simp add: is_digit_def)
  then have "foldl (\<lambda>a c. 10 * a - (c - 48)) (10 * t - (c - 48)) ds \<le> 10 * t - (c - 48)"
    using Cons.prems by (intro Cons.IH) auto
  with t show ?case by simp
qed simp

lemma kint32min_div: "kint32min sdiv 10 = - 214748364" "(- (kint32min + 10)) smod 10 = 8"
  by (simp_all add: kint32min_def signed_divide_int_def signed_modulo_int_def)

text \<open>
  The loop accumulates the negated value as long as it stays above \<open>kint32min\<close>: no
  intermediate value leaves the range of an \<open>int\<close>.
\<close>

lemma StringTToInt_step:
  assumes "t \<le> 0" "0 \<le> d" "d \<le> 9"
  shows "\<not> (t < kint32min sdiv 10 \<or> (t = kint32min sdiv 10 \<and> d > (- (kint32min + 10)) smod 10))
    \<longleftrightarrow> kint32min \<le> 10 * t - d"
  using assms unfolding kint32min_div by (auto simp: kint32min_def)

lemma StringTToInt_digits_exact:
  "list_all is_digit ds \<Longrightarrow> t \<le> 0 \<Longrightarrow> kint32min \<le> t \<Longrightarrow>
   StringTToInt_digits ds t =
     (let v = foldl (\<lambda>a c. 10 * a - (c - 48)) t ds in if kint32min \<le> v then Some v else None)"
proof (induction ds arbitrary: t)
  case (Cons c ds)
  define t' where "t' = 10 * t - (c - 48)"
  from Cons.prems have c: "48 \<le> c" "c \<le> 57" by (auto simp: is_digit_def)
  have ok: "\<not> (t < kint32min sdiv 10 \<or> (t = kint32min sdiv 10 \<and> c - 48 > (- (kint32min + 10)) smod 10))
      \<longleftrightarrow> kint32min \<le> t'"
    using StringTToInt_step [of t "c - 48"] Cons.prems c by (simp add: t'_def)
  have "foldl (\<lambda>a c. 10 * a - (c - 48)) t' ds \<le> t'"
    using Cons.prems c by (intro decimal_decreasing) (auto simp: t'_def)
  moreover have "StringTToInt_digits (c # ds) t =
      (if kint32min \<le> t' then StringTToInt_digits ds t' else None)"
  proof (cases "kint32min \<le> t'")
    case True
    with ok have "\<not> (t < kint32min sdiv 10 \<or> (t = kint32min sdiv 10 \<and> c - 48 > (- (kint32min + 10)) smod 10))"
      by simp
    with c True show ?thesis unfolding StringTToInt_digits.simps(2) Let_def t'_def [symmetric]
      by (simp only: if_False if_True) simp
  next
    case False
    with ok have "t < kint32min sdiv 10 \<or> (t = kint32min sdiv 10 \<and> c - 48 > (- (kint32min + 10)) smod 10)"
      by blast
    with c False show ?thesis unfolding StringTToInt_digits.simps(2) Let_def
      by (simp only: if_False if_True) simp
  qed
  moreover have "kint32min \<le> t' \<Longrightarrow> StringTToInt_digits ds t' =
      (let v = foldl (\<lambda>a c. 10 * a - (c - 48)) t' ds in if kint32min \<le> v then Some v else None)"
    using Cons.IH [of t'] Cons.prems c by (simp add: t'_def)
  ultimately show ?case by (auto simp: Let_def t'_def [symmetric])
qed simp

lemma StringTToInt_digits_reject:
  "\<not> list_all is_digit s \<Longrightarrow> 0 \<notin> set s \<Longrightarrow> StringTToInt_digits s t = None"
  by (induction s arbitrary: t) (auto simp: is_digit_def Let_def)

text \<open>
  \<open>StringToInt\<close> accepts a sign followed by digits whose value fits an \<open>int\<close>, and nothing
  else; the sign alone and the empty string read as 0.
\<close>

lemma StringTToInt_digits_zero:
  "0 \<notin> set s \<Longrightarrow> StringTToInt_digits s 0 =
     (if list_all is_digit s \<and> kint32min \<le> - decimal s then Some (- decimal s) else None)"
  using StringTToInt_digits_exact [of s 0] StringTToInt_digits_reject [of s 0]
  by (cases "list_all is_digit s") (simp_all add: decimal_foldl decimal_def Let_def kint32min_def)

lemma StringTToInt_unsigned:
  assumes "0 \<notin> set s" "deref s \<noteq> 45" "deref s \<noteq> 43"
  shows "StringTToInt s =
    (if list_all is_digit s \<and> decimal s < 2147483648 then Some (decimal s) else None)"
  using assms by (auto simp: StringTToInt_def StringTToInt_digits_zero kint32min_def Let_def)

lemma StringTToInt_signed:
  assumes "0 \<notin> set s"
  shows "StringTToInt (43 # s) =
      (if list_all is_digit s \<and> decimal s < 2147483648 then Some (decimal s) else None)"
    and "StringTToInt (45 # s) =
      (if list_all is_digit s \<and> decimal s \<le> 2147483648 then Some (- decimal s) else None)"
  using assms by (auto simp: StringTToInt_def StringTToInt_digits_zero kint32min_def Let_def)

lemma StringTToInt_empty: "StringTToInt [] = Some 0" "StringTToInt [45] = Some 0" "StringTToInt [43] = Some 0"
  by (simp_all add: StringTToInt_def kint32min_def)

text \<open>\<open>ParseLeadingInteger\<close> keeps the value modulo \<open>2 ^ 32\<close> and does not detect overflow.\<close>

lemma ParseLeadingIntegerT_step:
  "ParseLeadingIntegerT [] n = (ucast n, [])"
  "ParseLeadingIntegerT (c # s) n =
     (if is_digit c then ParseLeadingIntegerT s (n * 10 + word_of_int (c - 48)) else (ucast n, c # s))"
  by (subst ParseLeadingIntegerT.simps, simp add: is_digit_def)+

lemma ParseLeadingIntegerT_eq:
  "ParseLeadingIntegerT s n = (let ds = takeWhile is_digit s in
     (ucast (word_of_int (foldl (\<lambda>a c. 10 * a + (c - 48)) (uint n) ds) :: int64), dropWhile is_digit s))"
proof (induction s arbitrary: n)
  case Nil
  show ?case by (simp add: ParseLeadingIntegerT_step)
next
  case (Cons c s)
  have "(word_of_int (foldl (\<lambda>a c. 10 * a + (c - 48)) (uint (n * 10 + word_of_int (c - 48))) ds) :: int64)
      = word_of_int (foldl (\<lambda>a c. 10 * a + (c - 48)) (10 * uint n + (c - 48)) ds)" for ds
  proof -
    have "(word_of_int (foldl (\<lambda>a c. 10 * a + (c - 48)) a ds) :: int64) = word_of_int (foldl (\<lambda>a c. 10 * a + (c - 48)) b ds)"
      if "(word_of_int a :: int64) = word_of_int b" for a b :: int
      using that by (induction ds arbitrary: a b) (simp_all add: wi_hom_syms)
    then show ?thesis by (simp add: wi_hom_syms mult.commute)
  qed
  with Cons show ?case by (simp add: ParseLeadingIntegerT_step Let_def)
qed

lemma ParseLeadingInteger_decimal:
  "ParseLeadingInteger s = (word_of_int (decimal (takeWhile is_digit s)), dropWhile is_digit s)"
  by (simp add: ParseLeadingInteger_def ParseLeadingIntegerT_eq Let_def decimal_def
      unsigned_ucast_eq take_bit_word_eq_self unsigned_of_int word_of_int_eq_iff)

section \<open>The search functions are the search\<close>


end
