(* ===== verification/HttpHeaders.thy ===== *)
theory HttpHeaders
  imports StringUtils
begin

text \<open>
  HTTP headers: \<open>HTTPHeaders\<close> and \<open>HTTPUtils\<close> of \<open>src/common/http_utils.cc\<close> and
  \<open>http_utils.h\<close>. A null-terminated string is the list of its characters, and a \<open>char*\<close> that
  may be \<open>NULL\<close> an option of it. The document that is parsed is a block of memory without a
  terminator: \<open>content\<close> is the document and \<open>beyond\<close> the memory behind it, which only
  \<open>strtol\<close> reads; a read behind that has no result, like a failed \<open>assert\<close> and the use of a
  \<open>NULL\<close> value. The memory limit of the original sources is compiled out.
\<close>

section \<open>Operations\<close>

datatype HTTPVersion = HTTP_ERROR | HTTP_10 | HTTP_11

datatype overwrite_mode = UNUSED | NO_OVERWRITE | APPEND | OVERWRITE

definition RC_UNDEFINED :: int where "RC_UNDEFINED = 0"
definition RC_FIRST_CODE :: int where "RC_FIRST_CODE = 100"
definition RC_LAST_CODE :: int where "RC_LAST_CODE = 599"

type_synonym header = "str \<times> str option"

record HTTPHeaders =
  firstline :: str
  http_version :: HTTPVersion
  response_code :: int
  reason_phrase :: str
  header_list :: "header list"

definition HTTPHeaders_new :: HTTPHeaders where
  "HTTPHeaders_new = \<lparr>firstline = [], http_version = HTTP_ERROR, response_code = RC_UNDEFINED,
     reason_phrase = [], header_list = []\<rparr>"

definition ClearHeaders :: "HTTPHeaders \<Rightarrow> HTTPHeaders" where
  "ClearHeaders h = h\<lparr>http_version := HTTP_ERROR, response_code := RC_UNDEFINED, reason_phrase := [],
     firstline := [], header_list := []\<rparr>"

definition HTTPHeaders_IsEmpty :: "HTTPHeaders \<Rightarrow> bool" where
  "HTTPHeaders_IsEmpty h \<longleftrightarrow> header_list h = []"

fun http_version_str :: "HTTPVersion \<Rightarrow> str" where
  "http_version_str HTTP_ERROR = []"
| "http_version_str HTTP_10 = [72, 84, 84, 80, 47, 49, 46, 48]"
| "http_version_str HTTP_11 = [72, 84, 84, 80, 47, 49, 46, 49]"

text \<open>\<open>strcasecmp\<close> as a test for equality, and \<open>memcaseis\<close> on a prefix of a line.\<close>

definition strcaseeq :: "str \<Rightarrow> str \<Rightarrow> bool" where
  "strcaseeq s1 s2 \<longleftrightarrow> map tolower s1 = map tolower s2"

definition memcaseis :: "str \<Rightarrow> nat \<Rightarrow> str \<Rightarrow> bool" where
  "memcaseis s len literal \<longleftrightarrow>
     len = length literal \<and> map tolower (take len s) = map tolower literal"

definition var_strcaseprefix :: "str \<Rightarrow> str \<Rightarrow> str option" where
  "var_strcaseprefix s pfx =
     (if map tolower (take (length pfx) s) = map tolower pfx then Some (drop (length pfx) s) else None)"

subsection \<open>Lookup\<close>

fun GetHeader_loop :: "str \<Rightarrow> header list \<Rightarrow> str option" where
  "GetHeader_loop header [] = None"
| "GetHeader_loop header ((k, v) # hs) = (if strcaseeq k header then v else GetHeader_loop header hs)"

definition GetHeader :: "str \<Rightarrow> HTTPHeaders \<Rightarrow> str option" where
  "GetHeader header h = GetHeader_loop header (header_list h)"

definition GetHeaders :: "str \<Rightarrow> HTTPHeaders \<Rightarrow> str option list" where
  "GetHeaders header h = map snd (filter (\<lambda>(k, v). strcaseeq k header) (header_list h))"

definition GetHeaderOr :: "str \<Rightarrow> str \<Rightarrow> HTTPHeaders \<Rightarrow> str" where
  "GetHeaderOr key deflt h = (case GetHeader key h of Some found \<Rightarrow> found | None \<Rightarrow> deflt)"

definition HeaderIs :: "str \<Rightarrow> str \<Rightarrow> HTTPHeaders \<Rightarrow> bool" where
  "HeaderIs key value h =
     (case GetHeader key h of None \<Rightarrow> False | Some real_value \<Rightarrow> strcaseeq real_value value)"

definition HeaderStartsWith :: "str \<Rightarrow> str \<Rightarrow> HTTPHeaders \<Rightarrow> bool" where
  "HeaderStartsWith key value h =
     (case GetHeader key h of None \<Rightarrow> False
      | Some real_value \<Rightarrow> var_strcaseprefix real_value value \<noteq> None)"

subsection \<open>Update\<close>

text \<open>The results of these are the pointer that the code returns and the new headers.\<close>

definition AppendValueToHeader :: "header \<Rightarrow> str \<Rightarrow> str \<Rightarrow> (str option \<times> header) option" where
  "AppendValueToHeader hdr separator value = do {
     second \<leftarrow> snd hdr;
     let new_second = second @ separator @ value;
     Some (Some new_second, (fst hdr, Some new_second)) }"

definition AddNewHeader :: "str \<Rightarrow> str option \<Rightarrow> HTTPHeaders \<Rightarrow> str option \<times> HTTPHeaders" where
  "AddNewHeader key value h = (value, h\<lparr>header_list := header_list h @ [(key, value)]\<rparr>)"

definition ClearHeader :: "str \<Rightarrow> HTTPHeaders \<Rightarrow> bool \<times> HTTPHeaders" where
  "ClearHeader header h =
     (let hs = filter (\<lambda>(k, v). \<not> strcaseeq k header) (header_list h)
      in (length hs < length (header_list h), h\<lparr>header_list := hs\<rparr>))"

definition no_newlines :: "str \<Rightarrow> str" where
  "no_newlines value = map (\<lambda>c. if c = 13 \<or> c = 10 then 95 else c) value"

definition SET_COOKIE :: str where
  "SET_COOKIE = [83, 101, 116, 45, 67, 111, 111, 107, 105, 101]"

definition WWW_AUTHENTICATE :: str where
  "WWW_AUTHENTICATE = [87, 87, 87, 45, 65, 117, 116, 104, 101, 110, 116, 105, 99, 97, 116, 101]"

text \<open>
  The loop of \<open>SetHeader\<close> over the headers: what it returns for the first one with the same
  name, or \<open>Inl ()\<close> when there is none.
\<close>

fun SetHeader_loop ::
    "str \<Rightarrow> str option \<Rightarrow> overwrite_mode \<Rightarrow> header list \<Rightarrow> (unit + str option \<times> header list) option" where
  "SetHeader_loop key value overwrite [] = Some (Inl ())"
| "SetHeader_loop key value overwrite ((k, v) # hs) =
     (if strcaseeq k key then
        (if overwrite = NO_OVERWRITE then Some (Inr (v, (k, v) # hs))
         else if overwrite = OVERWRITE \<or> v = None then Some (Inr (value, (key, value) # hs))
         else do {
           assert_that (overwrite = APPEND);
           case value of
             None \<Rightarrow> Some (Inr (v, (k, v) # hs))
           | Some x \<Rightarrow> do {
               (r, hdr) \<leftarrow> AppendValueToHeader (key, v) [44] x;
               Some (Inr (snd hdr, hdr # hs)) } })
      else do {
        r \<leftarrow> SetHeader_loop key value overwrite hs;
        Some (map_sum id (\<lambda>(ret, hs'). (ret, (k, v) # hs')) r) })"

definition SetHeader ::
    "str \<Rightarrow> str option \<Rightarrow> overwrite_mode \<Rightarrow> HTTPHeaders \<Rightarrow> (str option \<times> HTTPHeaders) option" where
  "SetHeader key value0 overwrite h =
     (let value = map_option no_newlines value0;
          multi = strcaseeq key SET_COOKIE \<or> strcaseeq key WWW_AUTHENTICATE
      in if multi \<and> overwrite = APPEND then Some (AddNewHeader key value h)
         else if multi \<and> overwrite = OVERWRITE
         then Some (AddNewHeader key value (snd (ClearHeader key h)))
         else do {
           r \<leftarrow> SetHeader_loop key value overwrite (header_list h);
           Some (case r of
                   Inl _ \<Rightarrow> AddNewHeader key value h
                 | Inr (ret, hs) \<Rightarrow> (ret, h\<lparr>header_list := hs\<rparr>)) })"

subsection \<open>The first line of a response\<close>

text \<open>
  \<open>strtol\<close> of the C library in base 10: the value, limited to the range of a 64-bit \<open>long\<close>,
  and what follows the digits (\<open>*endptr\<close>), which is the whole string when there are none. The
  string has to end before the memory does.
\<close>

definition LONG_MAX :: int where "LONG_MAX = 9223372036854775807"

definition strtol :: "str \<Rightarrow> (int \<times> str) option" where
  "strtol mem = do {
     let s = dropWhile isspace mem;
     assert_that (s \<noteq> []);
     let unsigned = (if hd s = 45 \<or> hd s = 43 then tl s else s);
     let rest = dropWhile is_digit unsigned;
     assert_that (rest \<noteq> []);
     let ds = takeWhile is_digit unsigned;
     if ds = [] then Some (0, mem)
     else let v = (if hd s = 45 then - decimal ds else decimal ds)
          in Some (max (- LONG_MAX - 1) (min LONG_MAX v), rest) }"

definition CheckResponseProtocol :: "str \<Rightarrow> nat \<Rightarrow> HTTPHeaders \<Rightarrow> bool \<times> HTTPHeaders" where
  "CheckResponseProtocol proto protolen h =
     (if memcaseis proto protolen (http_version_str HTTP_10) then (True, h\<lparr>http_version := HTTP_10\<rparr>)
      else if memcaseis proto protolen (http_version_str HTTP_11) then (True, h\<lparr>http_version := HTTP_11\<rparr>)
      else if memcaseis proto protolen [72, 84, 84, 80] then (True, h\<lparr>http_version := HTTP_10\<rparr>)
      else (False, h))"

definition strchr :: "int \<Rightarrow> str \<Rightarrow> nat option" where
  "strchr c s = List.find (\<lambda>i. s ! i = c) [0..<length s]"

definition AddResponseFirstline :: "str \<Rightarrow> HTTPHeaders \<Rightarrow> (bool \<times> HTTPHeaders) option" where
  "AddResponseFirstline line0 h0 =
     (let h = h0\<lparr>firstline := line0\<rparr>; line = c_str line0
      in if length line0 = 1 then Some (False, h)
         else case strchr 32 line of
             None \<Rightarrow> Some (False, h)
           | Some space \<Rightarrow>
               let (ok, h1) = CheckResponseProtocol line space h
               in if \<not> ok then Some (False, h1)
                  else do {
                    (v, error) \<leftarrow> strtol (drop space line @ [0]);
                    let response_int = sint (word_of_int v :: int32);
                    if error = drop space line @ [0] \<or> \<not> isspace (hd error) \<and> hd error \<noteq> 0
                    then Some (False, h1)
                    else if response_int < RC_FIRST_CODE \<or> response_int > RC_LAST_CODE
                    then Some (False, h1)
                    else Some (True, h1\<lparr>response_code := response_int,
                                reason_phrase := c_str (dropWhile isspace error)\<rparr>) })"

subsection \<open>Header lines\<close>

definition rstrip_spaces :: "str \<Rightarrow> str" where
  "rstrip_spaces s = rev (dropWhile (\<lambda>c. c = 32) (rev s))"

definition HOST_lower :: str where "HOST_lower = [104, 111, 115, 116]"

definition SetHeaderFromLine ::
    "str \<Rightarrow> overwrite_mode \<Rightarrow> HTTPHeaders \<Rightarrow> (str option \<times> HTTPHeaders) option" where
  "SetHeaderFromLine line overwrite h =
     (let start = dropWhile (\<lambda>c. c = 32 \<or> c = 9) line
      in if length start < length line then
           (if header_list h = [] then Some (None, h)
            else do {
              let last_header = last (header_list h);
              second \<leftarrow> snd last_header;
              let separator = (if second \<noteq> [] \<and> start \<noteq> [] then [32] else []);
              (r, hdr) \<leftarrow> AppendValueToHeader last_header separator start;
              Some (r, h\<lparr>header_list := butlast (header_list h) @ [hdr]\<rparr>) })
         else case strchr 58 line of
             None \<Rightarrow> Some (None, h)
           | Some colon \<Rightarrow>
               let key = rstrip_spaces (take colon line);
                   value = dropWhile (\<lambda>c. c = 32) (drop (colon + 1) line)
               in SetHeader key (Some value) (if strcaseeq key HOST_lower then NO_OVERWRITE else overwrite) h)"

subsection \<open>Documents\<close>

text \<open>
  The inner loop of \<open>ParseHTTPHeaders\<close>: the index of the first \<open>\r\<close> that a \<open>\n\<close> follows.
  \<open>memchr\<close> does not look at the last character.
\<close>

definition memchr :: "int \<Rightarrow> str \<Rightarrow> nat \<Rightarrow> nat \<Rightarrow> nat option" where
  "memchr c mem start fin = List.find (\<lambda>i. mem ! i = c) [start..<fin]"

function find_line_end :: "str \<Rightarrow> nat \<Rightarrow> nat option" where
  "find_line_end content start =
     (case memchr 13 content start (length content - 1) of
        None \<Rightarrow> None
      | Some i \<Rightarrow> if content ! (i + 1) = 10 then Some i else find_line_end content (i + 1))"
  by pat_completeness auto
termination
  by (relation "measure (\<lambda>(content, start). length content - start)")
    (auto simp: memchr_def find_upt_Some)

declare find_line_end.simps [simp del]

lemma find_line_end_bounds:
  "find_line_end content start = Some e \<Longrightarrow>
     start \<le> e \<and> e + 1 < length content \<and> content ! e = 13 \<and> content ! (e + 1) = 10"
proof (induction content start rule: find_line_end.induct)
  case (1 content start)
  then show ?case
    by (subst (asm) (2) find_line_end.simps)
      (force simp: memchr_def find_upt_Some split: option.splits if_splits)
qed

text \<open>The search for the end of a line, which needs room for two characters.\<close>

definition line_end_from :: "str \<Rightarrow> nat \<Rightarrow> nat option" where
  "line_end_from content line =
     (if line + 1 \<ge> length content then None else find_line_end content line)"

lemma line_end_from_bounds: "line_end_from content line = Some e \<Longrightarrow> line \<le> e \<and> e + 1 < length content"
  by (auto simp: line_end_from_def dest: find_line_end_bounds split: if_splits)

definition slice :: "nat \<Rightarrow> nat \<Rightarrow> str \<Rightarrow> str" where
  "slice i j s = take (j - i) (drop i s)"

text \<open>
  The test of a line without a colon, before any header was seen: is it a status line? The digits
  are read from the document, not from the line.
\<close>

definition good_first_line :: "str \<Rightarrow> str \<Rightarrow> nat \<Rightarrow> nat \<Rightarrow> bool option" where
  "good_first_line content beyond line line_end =
     (case memchr 32 content line line_end of
        None \<Rightarrow> Some False
      | Some space \<Rightarrow> do {
          let from_digits = drop (space + 1) (content @ beyond);
          (v, errpos) \<leftarrow> strtol from_digits;
          Some (isspace (hd errpos) \<and> length errpos < length from_digits) })"

text \<open>
  The loop of \<open>ParseHTTPHeaders\<close>. The result is what the function returns, the offset of
  \<open>*body\<close> in the document (\<open>None\<close> for \<open>NULL\<close>), \<open>*bodylen\<close> and the headers. The two ways
  to hand a line to \<open>SetHeaderFromLine\<close> (\<open>allow_const_cast\<close>) give it the same characters.
\<close>

type_synonym parse_result = "bool \<times> nat option \<times> nat \<times> HTTPHeaders option"

function parse_loop :: "str \<Rightarrow> str \<Rightarrow> nat \<Rightarrow> nat \<Rightarrow> HTTPHeaders option \<Rightarrow> parse_result option" where
  "parse_loop content beyond line num_headers headers =
     (case line_end_from content line of
        None \<Rightarrow> if num_headers = 0 then Some (False, Some 0, length content, headers)
                else Some (False, Some (length content), 0, headers)
      | Some line_end \<Rightarrow>
          if num_headers = 0 \<and> memchr 10 content line line_end \<noteq> None
          then Some (False, Some 0, length content, headers)
          else if line_end = line
          then Some (True, Some (line_end + 2), length content - (line_end + 2), headers)
          else if num_headers = 0 \<and> memchr 58 content line line_end = None
          then do {
            good \<leftarrow> good_first_line content beyond line line_end;
            if \<not> good then Some (False, Some 0, length content, headers)
            else case headers of
                None \<Rightarrow> parse_loop content beyond (line_end + 2) 1 None
              | Some h \<Rightarrow> do {
                  (ok, h') \<leftarrow> AddResponseFirstline (slice line line_end content) h;
                  parse_loop content beyond (line_end + 2) (if ok then 1 else 0) (Some h') } }
          else case headers of
              None \<Rightarrow> parse_loop content beyond (line_end + 2) (num_headers + 1) None
            | Some h \<Rightarrow> do {
                (r, h') \<leftarrow> SetHeaderFromLine (c_str (slice line line_end content)) APPEND h;
                parse_loop content beyond (line_end + 2) (num_headers + 1) (Some h') })"
  by pat_completeness auto
termination
  by (relation "measure (\<lambda>(content, beyond, line, _, _). length content - line)")
    (auto dest!: line_end_from_bounds)

declare parse_loop.simps [simp del]

definition ParseHTTPHeaders ::
    "str option \<Rightarrow> str \<Rightarrow> HTTPHeaders option \<Rightarrow> parse_result option" where
  "ParseHTTPHeaders body beyond headers =
     (case body of
        None \<Rightarrow> Some (False, None, 0, headers)
      | Some content \<Rightarrow>
          if content = [] then Some (False, None, 0, headers)
          else parse_loop content beyond 0 0 headers)"

definition ExtractBody :: "str option \<Rightarrow> str \<Rightarrow> (nat option \<times> nat) option" where
  "ExtractBody body beyond = do {
     (r, body', bodylen, h) \<leftarrow> ParseHTTPHeaders body beyond None;
     Some (body', bodylen) }"

subsection \<open>Generation\<close>

text \<open>
  \<open>GenerateHeaderString\<close> fills a string of \<open>total_size\<close> units; \<open>written\<close> is the part before
  \<open>target_ptr\<close>, and a write at its end has no result. The conversion moves the pointers of the
  header itself to what it has not read.
\<close>

definition utf8_units :: "str \<Rightarrow> byte list" where
  "utf8_units s = map word_of_int s"

definition put_units :: "nat \<Rightarrow> char16 list \<Rightarrow> char16 list \<Rightarrow> char16 list option" where
  "put_units total_size us written = do {
     assert_that (length written + length us \<le> total_size);
     Some (written @ us) }"

definition convert_checked :: "nat \<Rightarrow> str \<Rightarrow> char16 list \<Rightarrow> bool \<times> str \<times> char16 list" where
  "convert_checked total_size s written =
     (let (result, rest, out) =
        ConvertUTF8toUTF16 strictConversion (utf8_units s) (total_size - length written)
      in (result = conversionOK, drop (length s - length rest) s, written @ out))"

fun generate_loop ::
    "nat \<Rightarrow> header list \<Rightarrow> char16 list \<Rightarrow> (bool \<times> char16 list \<times> header list) option" where
  "generate_loop total_size [] written = Some (True, written, [])"
| "generate_loop total_size ((k, None) # hs) written = None"
| "generate_loop total_size ((k, Some v) # hs) written =
     (let (ok1, k', w1) = convert_checked total_size k written
      in if \<not> ok1 then Some (False, w1, (k', Some v) # hs)
         else do {
           w2 \<leftarrow> put_units total_size [58, 32] w1;
           let (ok2, v', w3) = convert_checked total_size v w2;
           if \<not> ok2 then Some (False, w3, (k', Some v') # hs)
           else do {
             w4 \<leftarrow> put_units total_size [13, 10] w3;
             (ok, w, hs') \<leftarrow> generate_loop total_size hs w4;
             Some (ok, w, (k', Some v') # hs') } })"

definition header_size_sum :: "header list \<Rightarrow> nat" where
  "header_size_sum hs = (\<Sum>(k, v)\<leftarrow>hs. length k + length (the v) + 4)"

definition GenerateHeaderString :: "HTTPHeaders \<Rightarrow> (bool \<times> char16 list \<times> HTTPHeaders) option" where
  "GenerateHeaderString h = do {
     assert_that (\<forall>(k, v)\<in>set (header_list h). v \<noteq> None);
     let total_size = header_size_sum (header_list h) + 2;
     (ok, w, hs) \<leftarrow> generate_loop total_size (header_list h) [];
     w' \<leftarrow> (if ok then put_units total_size [13, 10] w else Some w);
     Some (ok, w' @ replicate (total_size - length w') 0, h\<lparr>header_list := hs\<rparr>) }"


section \<open>Names of headers\<close>

lemma strcaseeq_refl [simp]: "strcaseeq k k"
  by (simp add: strcaseeq_def)

lemma strcaseeq_sym: "strcaseeq k k' \<longleftrightarrow> strcaseeq k' k"
  by (auto simp: strcaseeq_def)

lemma strcaseeq_left: "strcaseeq k k' \<Longrightarrow> strcaseeq k x \<longleftrightarrow> strcaseeq k' x"
  by (simp add: strcaseeq_def)

definition multi_line :: "str \<Rightarrow> bool" where
  "multi_line key \<longleftrightarrow> strcaseeq key SET_COOKIE \<or> strcaseeq key WWW_AUTHENTICATE"

text \<open>The first entry with a name: absent, without a value, or with a value.\<close>

fun lookup_entry :: "str \<Rightarrow> header list \<Rightarrow> str option option" where
  "lookup_entry key [] = None"
| "lookup_entry key ((k, v) # hs) = (if strcaseeq k key then Some v else lookup_entry key hs)"

lemma GetHeader_lookup: "GetHeader key h = Option.bind (lookup_entry key (header_list h)) (\<lambda>v. v)"
proof -
  have "GetHeader_loop key hs = Option.bind (lookup_entry key hs) (\<lambda>v. v)" for hs
    by (induction key hs rule: GetHeader_loop.induct) auto
  then show ?thesis by (simp add: GetHeader_def)
qed

lemma lookup_entry_append:
  "lookup_entry key (hs @ hs') = (case lookup_entry key hs of None \<Rightarrow> lookup_entry key hs' | Some v \<Rightarrow> Some v)"
  by (induction key hs rule: lookup_entry.induct) auto

lemma lookup_entry_cong: "strcaseeq k k' \<Longrightarrow> lookup_entry k hs = lookup_entry k' hs"
  by (induction k hs rule: lookup_entry.induct) (auto simp: strcaseeq_def)

lemma lookup_entry_None: "lookup_entry key hs = None \<longleftrightarrow> (\<forall>(k, v)\<in>set hs. \<not> strcaseeq k key)"
  by (induction key hs rule: lookup_entry.induct) auto

section \<open>Setting a header\<close>

lemma AppendValueToHeader_simps [simp]:
  "AppendValueToHeader (k, Some x) separator y = Some (Some (x @ separator @ y), (k, Some (x @ separator @ y)))"
  by (simp add: AppendValueToHeader_def Let_def)

text \<open>What \<open>SetHeader\<close> leaves as the value of a header whose present entry is \<open>old\<close>.\<close>

definition set_value :: "overwrite_mode \<Rightarrow> str option option \<Rightarrow> str option \<Rightarrow> str option" where
  "set_value overwrite old value =
     (case old of
        None \<Rightarrow> value
      | Some v \<Rightarrow>
          if overwrite = NO_OVERWRITE then v
          else if overwrite = OVERWRITE \<or> v = None then value
          else case value of None \<Rightarrow> v | Some x \<Rightarrow> Some (the v @ [44] @ x))"

lemma SetHeader_loop_absent:
  "lookup_entry key hs = None \<Longrightarrow> SetHeader_loop key value overwrite hs = Some (Inl ())"
  by (induction key "value" overwrite hs rule: SetHeader_loop.induct) (auto split: if_splits)

lemma SetHeader_loop_present:
  assumes "lookup_entry key hs = Some v" "overwrite \<noteq> UNUSED"
  shows "\<exists>hs'. SetHeader_loop key value overwrite hs = Some (Inr (set_value overwrite (Some v) value, hs')) \<and>
    lookup_entry key hs' = Some (set_value overwrite (Some v) value) \<and>
    (\<forall>key'. \<not> strcaseeq key' key \<longrightarrow> lookup_entry key' hs' = lookup_entry key' hs) \<and>
    snd ` set hs' \<subseteq> insert (set_value overwrite (Some v) value) (snd ` set hs)"
  using assms
proof (induction key "value" overwrite hs rule: SetHeader_loop.induct)
  case (2 key "value" overwrite k v' hs)
  show ?case
  proof (cases "strcaseeq k key")
    case True
    then have v: "v' = v" using 2(2) by simp
    have other: "\<not> strcaseeq k key'" if "\<not> strcaseeq key' key" for key'
      using that True by (auto simp: strcaseeq_def)
    consider "overwrite = NO_OVERWRITE" | "overwrite \<noteq> NO_OVERWRITE" "overwrite = OVERWRITE \<or> v = None"
      | x where "overwrite = APPEND" "v = Some x"
      using 2(3) by (cases overwrite) auto
    then show ?thesis
    proof cases
      case 3
      then show ?thesis using True v other
        by (cases "value") (auto simp: set_value_def strcaseeq_sym)
    qed (use True v other in \<open>auto simp: set_value_def strcaseeq_sym\<close>)
  next
    case False
    with 2(1) [OF False] 2(2,3) obtain hs' where
      "SetHeader_loop key value overwrite hs = Some (Inr (set_value overwrite (Some v) value, hs'))"
      "lookup_entry key hs' = Some (set_value overwrite (Some v) value)"
      "\<forall>key'. \<not> strcaseeq key' key \<longrightarrow> lookup_entry key' hs' = lookup_entry key' hs"
      "snd ` set hs' \<subseteq> insert (set_value overwrite (Some v) value) (snd ` set hs)"
      by auto
    with False show ?thesis by (intro exI [of _ "(k, v') # hs'"]) auto
  qed
qed simp

lemma SetHeader_via_loop:
  "\<not> multi_line key \<or> overwrite = NO_OVERWRITE \<Longrightarrow> SetHeader key value overwrite h = do {
     r \<leftarrow> SetHeader_loop key (map_option no_newlines value) overwrite (header_list h);
     Some (case r of
             Inl _ \<Rightarrow> AddNewHeader key (map_option no_newlines value) h
           | Inr (ret, hs) \<Rightarrow> (ret, h\<lparr>header_list := hs\<rparr>)) }"
  by (auto simp: SetHeader_def multi_line_def Let_def)

lemma SetHeader_spec:
  fixes "value" :: "str option" and h :: HTTPHeaders
  assumes "\<not> multi_line key" "overwrite \<noteq> UNUSED"
  defines "r \<equiv> set_value overwrite (lookup_entry key (header_list h)) (map_option no_newlines value)"
  shows "\<exists>hs. SetHeader key value overwrite h = Some (r, h\<lparr>header_list := hs\<rparr>) \<and>
    lookup_entry key hs = Some r \<and>
    (\<forall>key'. \<not> strcaseeq key' key \<longrightarrow> lookup_entry key' hs = lookup_entry key' (header_list h)) \<and>
    snd ` set hs \<subseteq> insert r (snd ` set (header_list h))"
proof (cases "lookup_entry key (header_list h)")
  case None
  then show ?thesis
    using assms(1) SetHeader_loop_absent [OF None]
    by (intro exI [of _ "header_list h @ [(key, r)]"])
      (auto simp: SetHeader_def multi_line_def r_def set_value_def AddNewHeader_def lookup_entry_append
        strcaseeq_sym Let_def split: option.splits)
next
  case (Some v)
  from SetHeader_loop_present [OF Some assms(2), of "map_option no_newlines value"] assms(1)
  show ?thesis by (auto simp: SetHeader_def multi_line_def r_def Some Let_def)
qed

text \<open>Names that may occur on several lines: the new line comes last.\<close>

lemma SetHeader_multi:
  assumes "multi_line key"
  shows "SetHeader key value APPEND h = Some (AddNewHeader key (map_option no_newlines value) h)"
    and "SetHeader key value OVERWRITE h =
      Some (AddNewHeader key (map_option no_newlines value) (snd (ClearHeader key h)))"
  using assms by (simp_all add: SetHeader_def multi_line_def Let_def)

text \<open>No value contains a carriage return or a line feed.\<close>

definition clean :: "str option \<Rightarrow> bool" where
  "clean v \<longleftrightarrow> (case v of None \<Rightarrow> True | Some x \<Rightarrow> 13 \<notin> set x \<and> 10 \<notin> set x)"

definition headers_clean :: "HTTPHeaders \<Rightarrow> bool" where
  "headers_clean h \<longleftrightarrow> (\<forall>v\<in>snd ` set (header_list h). clean v)"

lemma clean_simps [simp]: "clean None" "clean (Some x) \<longleftrightarrow> 13 \<notin> set x \<and> 10 \<notin> set x"
  by (simp_all add: clean_def)

lemma no_newlines_in [simp]: "13 \<notin> set (no_newlines x)" "10 \<notin> set (no_newlines x)"
  by (auto simp: no_newlines_def)

lemma clean_no_newlines [simp]: "clean (map_option no_newlines v)"
  by (cases v) auto

lemma lookup_entry_in: "lookup_entry key hs = Some v \<Longrightarrow> v \<in> snd ` set hs"
  by (induction key hs rule: lookup_entry.induct) (auto split: if_splits)

text \<open>A property of values that the operation keeps holds of all headers afterwards.\<close>

lemma SetHeader_values:
  fixes "value" :: "str option" and h :: HTTPHeaders
  assumes ow: "overwrite \<noteq> UNUSED" and all: "\<forall>v\<in>snd ` set (header_list h). P v"
    and new: "P (map_option no_newlines value)"
    and upd: "\<And>old. P old \<Longrightarrow> P (set_value overwrite (Some old) (map_option no_newlines value))"
  shows "\<exists>r h'. SetHeader key value overwrite h = Some (r, h') \<and> (\<forall>v\<in>snd ` set (header_list h'). P v)"
proof -
  consider "multi_line key" "overwrite = APPEND" | "multi_line key" "overwrite = OVERWRITE"
    | "\<not> multi_line key \<or> overwrite = NO_OVERWRITE" "lookup_entry key (header_list h) = None"
    | v where "\<not> multi_line key \<or> overwrite = NO_OVERWRITE" "lookup_entry key (header_list h) = Some v"
    using ow by (cases overwrite; cases "lookup_entry key (header_list h)"; cases "multi_line key") auto
  then show ?thesis
  proof cases
    case 3
    with SetHeader_loop_absent [OF 3(2)] SetHeader_via_loop [OF 3(1), of "value" h] new all show ?thesis
      by (auto simp: AddNewHeader_def)
  next
    case 4
    from SetHeader_loop_present [OF 4(2) ow, of "map_option no_newlines value"] obtain hs where
      hs: "SetHeader_loop key (map_option no_newlines value) overwrite (header_list h) =
        Some (Inr (set_value overwrite (Some v) (map_option no_newlines value), hs))"
      "snd ` set hs \<subseteq> insert (set_value overwrite (Some v) (map_option no_newlines value)) (snd ` set (header_list h))"
      by blast
    have "P v" using lookup_entry_in [OF 4(2)] all by blast
    then have new': "P (set_value overwrite (Some v) (map_option no_newlines value))" by (rule upd)
    have "P w" if "w \<in> snd ` set hs" for w
      using subsetD [OF hs(2) that] new' bspec [OF all] by (elim insertE) simp_all
    with hs(1) SetHeader_via_loop [OF 4(1), of "value" h] show ?thesis by simp
  qed (use new all in \<open>auto simp: SetHeader_multi AddNewHeader_def ClearHeader_def Let_def\<close>)
qed

lemma SetHeader_clean:
  assumes "SetHeader key value overwrite h = Some (r, h')" "headers_clean h" "overwrite \<noteq> UNUSED"
  shows "headers_clean h'"
proof -
  have "clean (set_value overwrite (Some old) (map_option no_newlines value))" if "clean old" for old
    using that by (cases old; cases "value") (auto simp: set_value_def)
  with SetHeader_values [OF assms(3), of h clean "value" key] assms(1,2) show ?thesis
    by (auto simp: headers_clean_def)
qed

section \<open>Parsing\<close>

definition values_set :: "HTTPHeaders \<Rightarrow> bool" where
  "values_set h \<longleftrightarrow> (\<forall>v\<in>snd ` set (header_list h). v \<noteq> None)"

lemma strtol_terminated:
  assumes "0 \<in> set mem"
  shows "\<exists>v rest. strtol mem = Some (v, rest)"
proof -
  define s where "s = dropWhile isspace mem"
  have s: "0 \<in> set s" unfolding s_def using assms
    by (induction mem) (auto simp: isspace_def)
  define u where "u = (if hd s = 45 \<or> hd s = 43 then tl s else s)"
  have ne: "s \<noteq> []" using s by auto
  have "0 \<in> set u" using s by (cases s) (auto simp: u_def)
  then have "0 \<in> set (dropWhile is_digit u)" by (induction u) (auto simp: is_digit_def)
  then have "dropWhile is_digit u \<noteq> []" by (metis list.set(1) empty_iff)
  with ne show ?thesis
    by (auto simp: strtol_def s_def [symmetric] u_def [symmetric] Let_def simp del: dropWhile_eq_Nil_conv)
qed

lemma AddResponseFirstline_total:
  "\<exists>ok h'. AddResponseFirstline line h = Some (ok, h') \<and> header_list h' = header_list h"
proof (cases "length line = 1 \<or> strchr 32 (c_str line) = None")
  case True
  then show ?thesis by (auto simp: AddResponseFirstline_def Let_def)
next
  case False
  then obtain space where space: "strchr 32 (c_str line) = Some space" and l: "length line \<noteq> 1" by auto
  obtain ok h1 where chk: "CheckResponseProtocol (c_str line) space (h\<lparr>firstline := line\<rparr>) = (ok, h1)"
    by fastforce
  then have h1: "header_list h1 = header_list h"
    by (auto simp: CheckResponseProtocol_def split: if_splits)
  obtain v rest where "strtol (drop space (c_str line) @ [0]) = Some (v, rest)"
    using strtol_terminated [of "drop space (c_str line) @ [0]"] by auto
  with space l chk h1 show ?thesis by (auto simp: AddResponseFirstline_def Let_def)
qed

lemma SetHeader_values_set:
  assumes "values_set h" "overwrite \<noteq> UNUSED"
  shows "\<exists>r h'. SetHeader key (Some x) overwrite h = Some (r, h') \<and> values_set h'"
proof -
  have "set_value overwrite (Some old) (map_option no_newlines (Some x)) \<noteq> None" if "old \<noteq> None" for old
    using that by (auto simp: set_value_def)
  from SetHeader_values [OF assms(2), of h "\<lambda>v. v \<noteq> None" "Some x" key, OF _ _ this] assms(1)
  show ?thesis by (simp add: values_set_def)
qed

lemma SetHeaderFromLine_total:
  assumes "values_set h"
  shows "\<exists>r h'. SetHeaderFromLine line APPEND h = Some (r, h') \<and> values_set h'"
proof -
  define start where "start = dropWhile (\<lambda>c. c = 32 \<or> c = 9) line"
  consider "length start < length line" "header_list h = []" | "length start < length line" "header_list h \<noteq> []"
    | "\<not> length start < length line" "strchr 58 line = None"
    | colon where "\<not> length start < length line" "strchr 58 line = Some colon"
    by (cases "strchr 58 line") auto
  then show ?thesis
  proof cases
    case 2
    obtain hs k v where l: "header_list h = hs @ [(k, v)]" using 2(2) by (metis surj_pair rev_exhaust)
    with assms obtain x where "v = Some x" by (auto simp: values_set_def)
    with 2 l assms show ?thesis
      by (auto simp: SetHeaderFromLine_def start_def [symmetric] values_set_def Let_def)
  next
    case (4 colon)
    have "(if strcaseeq (rstrip_spaces (take colon line)) HOST_lower then NO_OVERWRITE else APPEND) \<noteq> UNUSED"
      by simp
    from SetHeader_values_set [OF assms this] 4 show ?thesis
      by (simp add: SetHeaderFromLine_def start_def [symmetric] Let_def)
  qed (use assms in \<open>auto simp: SetHeaderFromLine_def start_def [symmetric] Let_def\<close>)
qed

text \<open>Line ends and blank lines.\<close>

definition crlf :: "str \<Rightarrow> nat \<Rightarrow> bool" where
  "crlf s i \<longleftrightarrow> i + 1 < length s \<and> s ! i = 13 \<and> s ! (i + 1) = 10"

definition blank_line :: "str \<Rightarrow> nat \<Rightarrow> bool" where
  "blank_line s p \<longleftrightarrow> crlf s p \<and> (p = 0 \<or> p \<ge> 2 \<and> crlf s (p - 2))"

lemma find_line_end_first:
  "find_line_end content start = Some e \<longleftrightarrow> start \<le> e \<and> crlf content e \<and> (\<forall>i. start \<le> i \<and> i < e \<longrightarrow> \<not> crlf content i)"
proof (induction content start rule: find_line_end.induct)
  case (1 content start)
  show ?case
  proof (cases "memchr 13 content start (length content - 1)")
    case None
    then have "\<not> crlf content i" if "start \<le> i" for i
      using that by (auto simp: memchr_def find_upt_None crlf_def)
    with None show ?thesis by (subst find_line_end.simps) auto
  next
    case (Some i)
    then have i: "start \<le> i" "i < length content - 1" "content ! i = 13" "\<forall>k. start \<le> k \<and> k < i \<longrightarrow> \<not> crlf content k"
      by (auto simp: memchr_def find_upt_Some crlf_def)
    show ?thesis
    proof (cases "content ! (i + 1) = 10")
      case True
      with i have "crlf content i" by (auto simp: crlf_def)
      with i Some True show ?thesis
        by (subst find_line_end.simps) (auto intro: linorder_less_linear [THEN disjE])
    next
      case False
      then have "\<not> crlf content i" by (simp add: crlf_def)
      with i(4) have no: "\<not> crlf content k" if "start \<le> k" "k < i + 1" for k
        using that by (cases "k = i") auto
      have "(start \<le> e \<and> crlf content e \<and> (\<forall>k. start \<le> k \<and> k < e \<longrightarrow> \<not> crlf content k)) \<longleftrightarrow>
          (i + 1 \<le> e \<and> crlf content e \<and> (\<forall>k. i + 1 \<le> k \<and> k < e \<longrightarrow> \<not> crlf content k))" (is "?L \<longleftrightarrow> ?R")
      proof
        assume L: ?L
        with no [of e] have "\<not> e < i + 1" by blast
        with L i(1) show ?R by auto
      next
        assume R: ?R
        with no i(1) show ?L by (metis add_leE le_trans not_le)
      qed
      with 1 [OF Some False] Some False show ?thesis
        by (subst find_line_end.simps) auto
    qed
  qed
qed

definition line_start :: "str \<Rightarrow> nat \<Rightarrow> bool" where
  "line_start s p \<longleftrightarrow> p = 0 \<or> p \<ge> 2 \<and> crlf s (p - 2)"

lemma next_line_no_blank:
  assumes "find_line_end content line = Some e" "e \<noteq> line" "line_start content line"
    and "\<forall>p<line. \<not> blank_line content p"
  shows "\<forall>p<e + 2. \<not> blank_line content p" "line_start content (e + 2)"
proof -
  from assms(1) have e: "line \<le> e" "crlf content e" "\<And>i. line \<le> i \<Longrightarrow> i < e \<Longrightarrow> \<not> crlf content i"
    by (auto simp: find_line_end_first)
  then show "line_start content (e + 2)" by (simp add: line_start_def)
  have "\<not> blank_line content e"
  proof
    assume "blank_line content e"
    then have 2: "e \<ge> 2" "crlf content (e - 2)" using e(1) assms(2) by (auto simp: blank_line_def)
    then have "e - 2 < line" using e(3) [of "e - 2"] by linarith
    with assms(2) e(1) 2(1) have "e = line + 1" "line \<noteq> 0" by auto
    with assms(3) obtain k where "line = k + 2" "content ! (k + 1) = 10"
      by (auto simp: line_start_def crlf_def le_iff_add add.commute)
    with 2 \<open>e = line + 1\<close> show False by (simp add: crlf_def)
  qed
  moreover have "\<not> crlf content (e + 1)" using e(2) by (simp add: crlf_def)
  ultimately show "\<forall>p<e + 2. \<not> blank_line content p"
    using assms(4) e(3) by (metis Suc_eq_plus1 add_2_eq_Suc' blank_line_def less_Suc_eq not_le)
qed

text \<open>The result of a parse: behind the first blank line, or no body found.\<close>

definition parse_result_ok :: "str \<Rightarrow> parse_result \<Rightarrow> bool" where
  "parse_result_ok content r \<longleftrightarrow> (case r of (found, body, bodylen, headers) \<Rightarrow>
     if found then \<exists>p. blank_line content p \<and> (\<forall>q<p. \<not> blank_line content q) \<and>
            body = Some (p + 2) \<and> bodylen = length content - (p + 2)
     else (body, bodylen) \<in> {(Some 0, length content), (Some (length content), 0)})"

lemma line_end_from_iff: "line_end_from content line = Some e \<longleftrightarrow> find_line_end content line = Some e"
  by (auto simp: line_end_from_def dest: find_line_end_bounds)

text \<open>One round of the loop, branch by branch.\<close>

lemma parse_loop_end:
  "line_end_from content line = None \<Longrightarrow> parse_loop content beyond line n headers =
     Some (False, Some (if n = 0 then 0 else length content), if n = 0 then length content else 0, headers)"
  by (subst parse_loop.simps) simp

lemma parse_loop_reject:
  "line_end_from content line = Some e \<Longrightarrow> memchr 10 content line e \<noteq> None \<Longrightarrow>
     parse_loop content beyond line 0 headers = Some (False, Some 0, length content, headers)"
  by (subst parse_loop.simps) simp

lemma parse_loop_blank:
  "line_end_from content line = Some line \<Longrightarrow> n = 0 \<longrightarrow> memchr 10 content line line = None \<Longrightarrow>
     parse_loop content beyond line n headers =
       Some (True, Some (line + 2), length content - (line + 2), headers)"
  by (subst parse_loop.simps) (cases "n = 0"; simp)

lemma parse_loop_first:
  "line_end_from content line = Some e \<Longrightarrow> memchr 10 content line e = None \<Longrightarrow> e \<noteq> line \<Longrightarrow>
   memchr 58 content line e = None \<Longrightarrow>
     parse_loop content beyond line 0 headers = do {
       good \<leftarrow> good_first_line content beyond line e;
       if \<not> good then Some (False, Some 0, length content, headers)
       else case headers of
           None \<Rightarrow> parse_loop content beyond (e + 2) 1 None
         | Some h \<Rightarrow> do {
             (ok, h') \<leftarrow> AddResponseFirstline (slice line e content) h;
             parse_loop content beyond (e + 2) (if ok then 1 else 0) (Some h') } }"
  by (subst parse_loop.simps) simp

lemma parse_loop_header:
  "line_end_from content line = Some e \<Longrightarrow> n = 0 \<longrightarrow> memchr 10 content line e = None \<Longrightarrow> e \<noteq> line \<Longrightarrow>
   n = 0 \<longrightarrow> memchr 58 content line e \<noteq> None \<Longrightarrow>
     parse_loop content beyond line n headers = (case headers of
         None \<Rightarrow> parse_loop content beyond (e + 2) (n + 1) None
       | Some h \<Rightarrow> do {
           (r, h') \<leftarrow> SetHeaderFromLine (c_str (slice line e content)) APPEND h;
           parse_loop content beyond (e + 2) (n + 1) (Some h') })"
  by (subst parse_loop.simps) (cases "n = 0"; simp del: not_None_eq)

lemma good_first_line_total:
  assumes "0 \<in> set beyond" "e + 1 < length content"
  shows "\<exists>good. good_first_line content beyond line e = Some good"
proof (cases "memchr 32 content line e")
  case (Some space)
  then have "space < e" by (simp add: memchr_def find_upt_Some)
  with assms have "0 \<in> set (drop (space + 1) (content @ beyond))" by simp
  from strtol_terminated [OF this] Some show ?thesis
    by (auto simp: good_first_line_def Let_def)
qed (auto simp: good_first_line_def)

lemma parse_loop_ok:
  assumes "0 \<in> set beyond" "\<forall>h. headers = Some h \<longrightarrow> values_set h"
    and "line_start content line" "\<forall>p<line. \<not> blank_line content p"
  shows "\<exists>r. parse_loop content beyond line n headers = Some r \<and> parse_result_ok content r"
  using assms(2-4)
proof (induction "length content - line" arbitrary: line n headers rule: less_induct)
  case less
  note pre = less.prems
  show ?case
  proof (cases "line_end_from content line")
    case None
    then show ?thesis by (simp add: parse_loop_end parse_result_ok_def)
  next
    case (Some e)
    then have fe: "find_line_end content line = Some e" by (simp add: line_end_from_iff)
    then have e: "line \<le> e" "crlf content e" "e + 1 < length content"
      by (auto simp: find_line_end_first crlf_def)
    have IH: "\<exists>r. parse_loop content beyond (e + 2) n' hs' = Some r \<and> parse_result_ok content r"
      if "e \<noteq> line" "\<forall>h. hs' = Some h \<longrightarrow> values_set h" for n' hs'
    proof -
      have "length content - (e + 2) < length content - line" using e by linarith
      from less.hyps [OF this that(2)] next_line_no_blank [OF fe that(1) pre(2,3)] show ?thesis by blast
    qed
    consider "n = 0" "memchr 10 content line e \<noteq> None"
      | "n = 0 \<longrightarrow> memchr 10 content line e = None" "e = line"
      | "n = 0" "memchr 10 content line e = None" "e \<noteq> line" "memchr 58 content line e = None"
      | "n = 0 \<longrightarrow> memchr 10 content line e = None" "e \<noteq> line" "n = 0 \<longrightarrow> memchr 58 content line e \<noteq> None"
      by (cases "n = 0"; cases "memchr 10 content line e = None"; cases "e = line";
          cases "memchr 58 content line e = None") auto
    then show ?thesis
    proof cases
      case 1
      with parse_loop_reject [OF Some 1(2)] show ?thesis by (auto simp: parse_result_ok_def)
    next
      case 2
      with e pre(2,3) have "blank_line content e" "\<forall>q<e. \<not> blank_line content q"
        by (auto simp: blank_line_def line_start_def)
      with 2 Some parse_loop_blank [of content line n beyond headers] show ?thesis
        by (auto simp: parse_result_ok_def)
    next
      case 3
      obtain good where g: "good_first_line content beyond line e = Some good"
        using good_first_line_total [OF assms(1) e(3)] by blast
      note step = parse_loop_first [OF Some 3(2-4), of beyond headers]
      show ?thesis
      proof (cases "good \<and> headers \<noteq> None")
        case False
        with step g IH [OF 3(3), of None 1] 3(1) show ?thesis
          by (auto simp: parse_result_ok_def)
      next
        case True
        then obtain h where h: "headers = Some h" by auto
        obtain ok h' where a: "AddResponseFirstline (slice line e content) h = Some (ok, h')"
          "header_list h' = header_list h" using AddResponseFirstline_total by blast
        then have "values_set h'" using pre(1) h by (simp add: values_set_def)
        with IH [OF 3(3), of "Some h'"] step g True h a(1) 3(1) show ?thesis by simp
      qed
    next
      case 4
      note step = parse_loop_header [OF Some 4, of beyond headers]
      show ?thesis
      proof (cases headers)
        case None
        with step IH [OF 4(2), of None] show ?thesis by simp
      next
        case (Some h)
        with pre(1) SetHeaderFromLine_total obtain r h' where
          "SetHeaderFromLine (c_str (slice line e content)) APPEND h = Some (r, h')" "values_set h'"
          by blast
        with step Some IH [OF 4(2), of "Some h'"] show ?thesis by simp
      qed
    qed
  qed
qed

section \<open>Printing and parsing\<close>

fun print_header :: "header \<Rightarrow> str" where
  "print_header (k, v) = k @ [58, 32] @ the v @ [13, 10]"

definition print_headers :: "header list \<Rightarrow> str" where
  "print_headers hs = concat (map print_header hs) @ [13, 10]"

text \<open>A name and a value that survive being printed on a line.\<close>

fun header_ok :: "header \<Rightarrow> bool" where
  "header_ok (k, None) = False"
| "header_ok (k, Some x) =
     (k \<noteq> [] \<and> hd k \<noteq> 32 \<and> hd k \<noteq> 9 \<and> last k \<noteq> 32 \<and> set k \<inter> {0, 10, 13, 58} = {} \<and>
      set x \<inter> {0, 10, 13} = {} \<and> (x \<noteq> [] \<longrightarrow> hd x \<noteq> 32))"

fun distinct_names :: "header list \<Rightarrow> bool" where
  "distinct_names [] = True"
| "distinct_names ((k, v) # hs) = ((multi_line k \<or> lookup_entry k hs = None) \<and> distinct_names hs)"

lemma strchr_append: "c \<notin> set s \<Longrightarrow> strchr c (s @ c # t) = Some (length s)"
  by (auto simp: strchr_def find_upt_Some nth_append simp del: upt_Suc)

lemma rstrip_spaces_id: "s \<noteq> [] \<Longrightarrow> last s \<noteq> 32 \<Longrightarrow> rstrip_spaces s = s"
  by (cases s rule: rev_cases) (auto simp: rstrip_spaces_def)

lemma no_newlines_id: "10 \<notin> set x \<Longrightarrow> 13 \<notin> set x \<Longrightarrow> no_newlines x = x"
  by (induction x) (auto simp: no_newlines_def)

lemma host_not_multi: "strcaseeq k HOST_lower \<Longrightarrow> \<not> multi_line k"
  by (auto simp: strcaseeq_def multi_line_def HOST_lower_def SET_COOKIE_def WWW_AUTHENTICATE_def tolower_def)

lemma SetHeader_fresh:
  assumes "multi_line key \<and> overwrite = APPEND \<or> \<not> multi_line key \<and> lookup_entry key (header_list h) = None"
  shows "SetHeader key value overwrite h = Some (AddNewHeader key (map_option no_newlines value) h)"
proof (cases "multi_line key \<and> overwrite = APPEND")
  case True
  then show ?thesis by (simp add: SetHeader_multi)
next
  case False
  with assms have "\<not> multi_line key \<or> overwrite = NO_OVERWRITE" "lookup_entry key (header_list h) = None" by auto
  then show ?thesis by (simp add: SetHeader_via_loop SetHeader_loop_absent)
qed

lemma SetHeaderFromLine_printed:
  assumes ok: "header_ok (k, Some x)" and "multi_line k \<or> lookup_entry k (header_list h) = None"
  shows "SetHeaderFromLine (k @ [58, 32] @ x) APPEND h = Some (Some x, h\<lparr>header_list := header_list h @ [(k, Some x)]\<rparr>)"
proof -
  let ?line = "k @ [58, 32] @ x"
  from ok have k: "k \<noteq> []" "hd k \<noteq> 32" "hd k \<noteq> 9" "last k \<noteq> 32" "58 \<notin> set k"
    and x: "x \<noteq> [] \<longrightarrow> hd x \<noteq> 32" "10 \<notin> set x" "13 \<notin> set x" by auto
  have start: "dropWhile (\<lambda>c. c = 32 \<or> c = 9) ?line = ?line" using k(1-3) by (cases k) auto
  have colon: "strchr 58 ?line = Some (length k)" using strchr_append [OF k(5), of "32 # x"] by simp
  have val: "dropWhile (\<lambda>c. c = 32) (drop (length k + 1) ?line) = x" using x(1) by (cases x) auto
  let ?ow = "if strcaseeq k HOST_lower then NO_OVERWRITE else APPEND"
  have "multi_line k \<and> ?ow = APPEND \<or> \<not> multi_line k \<and> lookup_entry k (header_list h) = None"
    using assms(2) host_not_multi [of k] by auto
  from SetHeader_fresh [OF this, of "Some x"] show ?thesis
    unfolding SetHeaderFromLine_def Let_def start colon
    using k x by (simp add: rstrip_spaces_id val [simplified] no_newlines_id AddNewHeader_def)
qed

text \<open>A line in the middle of a document.\<close>

lemma line_end_at:
  assumes "13 \<notin> set line"
  shows "line_end_from (pre @ line @ 13 # 10 # post) (length pre) = Some (length pre + length line)"
    and "slice (length pre) (length pre + length line) (pre @ line @ 13 # 10 # post) = line"
proof -
  let ?c = "pre @ line @ 13 # 10 # post"
  have "\<not> crlf ?c i" if "length pre \<le> i" "i < length pre + length line" for i
  proof -
    have j: "i - length pre < length line" using that by linarith
    with that have "?c ! i = line ! (i - length pre)" by (simp add: nth_append)
    moreover have "line ! (i - length pre) \<in> set line" using j by (rule nth_mem)
    ultimately show ?thesis using assms by (metis crlf_def)
  qed
  moreover have "crlf ?c (length pre + length line)" by (simp add: crlf_def nth_append)
  ultimately show "line_end_from ?c (length pre) = Some (length pre + length line)"
    by (simp add: line_end_from_iff find_line_end_first)
  show "slice (length pre) (length pre + length line) ?c = line" by (simp add: slice_def)
qed

lemma memchr_line:
  "memchr c (pre @ line @ post) (length pre) (length pre + length line) = None \<longleftrightarrow> c \<notin> set line"
proof -
  have "(\<forall>k. length pre \<le> k \<and> k < length pre + length line \<longrightarrow> (pre @ line @ post) ! k \<noteq> c) \<longleftrightarrow>
      (\<forall>j<length line. line ! j \<noteq> c)"
  proof (intro iffI allI impI)
    fix j assume "\<forall>k. length pre \<le> k \<and> k < length pre + length line \<longrightarrow> (pre @ line @ post) ! k \<noteq> c" "j < length line"
    then show "line ! j \<noteq> c" by (auto dest: spec [of _ "length pre + j"] simp: nth_append)
  next
    fix k assume "\<forall>j<length line. line ! j \<noteq> c" "length pre \<le> k \<and> k < length pre + length line"
    then show "(pre @ line @ post) ! k \<noteq> c" by (auto simp: nth_append)
  qed
  then show ?thesis by (auto simp: memchr_def find_upt_None in_set_conv_nth)
qed

lemma parse_printed:
  assumes "\<forall>hd\<in>set hs. header_ok hd" "distinct_names hs"
    and "\<forall>(k, v)\<in>set hs. multi_line k \<or> lookup_entry k (header_list h) = None"
  shows "parse_loop (pre @ print_headers hs @ body) beyond (length pre) n (Some h) =
    Some (True, Some (length pre + length (print_headers hs)), length body,
      Some (h\<lparr>header_list := header_list h @ hs\<rparr>))"
  using assms
proof (induction hs arbitrary: pre n h)
  case Nil
  have "line_end_from (pre @ 13 # 10 # body) (length pre) = Some (length pre)"
    using line_end_at(1) [of "[]" pre body] by simp
  moreover have "memchr 10 (pre @ 13 # 10 # body) (length pre) (length pre) = None"
    by (simp add: memchr_def)
  ultimately show ?case by (simp add: print_headers_def parse_loop_blank)
next
  case (Cons kv hs)
  obtain k v where kv: "kv = (k, v)" by fastforce
  with Cons.prems(1) obtain x where v: "v = Some x" by (cases v) auto
  have ok: "header_ok (k, Some x)" using Cons.prems(1) kv v by simp
  define line where "line = k @ [58, 32] @ x"
  define rest where "rest = print_headers hs @ body"
  have content: "pre @ print_headers (kv # hs) @ body = pre @ line @ 13 # 10 # rest"
    by (simp add: print_headers_def line_def rest_def kv v)
  have line: "13 \<notin> set line" "10 \<notin> set line" "0 \<notin> set line" "58 \<in> set line" "line \<noteq> []"
    using ok by (auto simp: line_def)
  note le = line_end_at [OF line(1), of pre rest]
  have fresh: "multi_line k \<or> lookup_entry k (header_list h) = None" using Cons.prems(3) kv by simp
  let ?h = "h\<lparr>header_list := header_list h @ [(k, Some x)]\<rparr>"
  have m: "memchr 10 (pre @ line @ 13 # 10 # rest) (length pre) (length pre + length line) = None"
    "memchr 58 (pre @ line @ 13 # 10 # rest) (length pre) (length pre + length line) \<noteq> None"
    using memchr_line [of 10 pre line] memchr_line [of 58 pre line] line by auto
  have set_line: "SetHeaderFromLine line APPEND h = Some (Some x, ?h)"
    unfolding line_def by (rule SetHeaderFromLine_printed [OF ok fresh])
  have "parse_loop (pre @ line @ 13 # 10 # rest) beyond (length pre) n (Some h) =
      parse_loop (pre @ line @ 13 # 10 # rest) beyond (length pre + length line + 2) (n + 1) (Some ?h)"
    using parse_loop_header [OF le(1), of n beyond "Some h"] m line(2,3,5) le(2) set_line by simp
  also have "\<dots> = parse_loop ((pre @ line @ [13, 10]) @ print_headers hs @ body) beyond
      (length (pre @ line @ [13, 10])) (n + 1) (Some ?h)"
    by (simp add: rest_def)
  also have "\<dots> = Some (True, Some (length (pre @ line @ [13, 10]) + length (print_headers hs)), length body,
      Some (?h\<lparr>header_list := header_list ?h @ hs\<rparr>))"
  proof (rule Cons.IH)
    show "\<forall>hd\<in>set hs. header_ok hd" "distinct_names hs" using Cons.prems(1,2) kv by auto
    have "multi_line k' \<or> lookup_entry k' (header_list ?h) = None" if "(k', v') \<in> set hs" for k' v'
    proof (cases "multi_line k'")
      case False
      with that Cons.prems(3) have "lookup_entry k' (header_list h) = None" by auto
      moreover have "\<not> strcaseeq k k'"
      proof
        assume s: "strcaseeq k k'"
        with False have "\<not> multi_line k" by (simp add: multi_line_def strcaseeq_left [OF s])
        with Cons.prems(2) kv have "lookup_entry k hs = None" by simp
        with that s show False by (auto simp: lookup_entry_None strcaseeq_sym)
      qed
      ultimately show ?thesis by (simp add: lookup_entry_append)
    qed simp
    then show "\<forall>(k, v)\<in>set hs. multi_line k \<or> lookup_entry k (header_list ?h) = None"
      unfolding Ball_def case_prod_unfold by (metis prod.collapse)
  qed
  finally show ?case unfolding content by (simp add: print_headers_def line_def kv v)
qed

section \<open>Generation\<close>

lemma ConvertUTF8toUTF16_rest:
  "ConvertUTF8toUTF16 flags src room = (conversionOK, rest, out) \<Longrightarrow> rest = []"
proof (induction "length src" arbitrary: src room rest out rule: less_induct)
  case less
  show ?case
  proof (cases src)
    case (Cons b bs)
    have IH: "r = []" if "ConvertUTF8toUTF16 flags (drop k bs) m = (conversionOK, r, us)" for k m r us
      using less.hyps [OF _ that] Cons by simp
    from less.prems Cons show ?thesis
      by (auto simp: ConvertUTF8toUTF16.simps(2) Let_def dest: IH split: if_splits prod.splits)
  qed (use less.prems in simp)
qed

lemma convert_ascii:
  "\<forall>c\<in>set s. 0 < c \<and> c < 128 \<Longrightarrow> length s \<le> room \<Longrightarrow>
     ConvertUTF8toUTF16 strictConversion (utf8_units s) room = (conversionOK, [], map word_of_int s)"
proof (induction s arbitrary: room)
  case (Cons c s)
  define ch :: utf32 where "ch = word_of_int c"
  from Cons.prems have c: "0 < c" "c < 128" by auto
  then have u: "uint ch = c" by (simp add: ch_def uint_word_of_int)
  then have "unat ch < 128" using c by (simp add: unat_eq_nat_uint)
  then have d: "utf8_denotes [ucast ch] ch" "is_scalar ch" "code_units ch = [ucast ch]"
    by (auto simp: utf8_denotes_1 is_scalar_def is_high_surrogate_def is_low_surrogate_def code_units_def
        UNI_MAX_BMP_def word_less_nat_alt word_le_nat_alt)
  have cast: "(ucast ch :: byte) = word_of_int c" "(ucast ch :: char16) = word_of_int c"
    by (simp_all add: ucast_eq u)
  show ?case
    using decode_step [OF d(1,2), of room strictConversion "utf8_units s"] Cons.IH [of "room - 1"] Cons.prems
    by (simp add: d(3) cast utf8_units_def)
qed (simp add: utf8_units_def)

lemma convert_checked_ascii:
  "\<forall>c\<in>set s. 0 < c \<and> c < 128 \<Longrightarrow> length w + length s \<le> tot \<Longrightarrow>
     convert_checked tot s w = (True, [], w @ map word_of_int s)"
  by (simp add: convert_checked_def convert_ascii)

definition header_ascii :: "header \<Rightarrow> bool" where
  "header_ascii kv \<longleftrightarrow> (\<forall>c\<in>set (fst kv) \<union> set (the (snd kv)). 0 < c \<and> c < 128)"

lemma generate_loop_ascii:
  "\<forall>kv\<in>set hs. snd kv \<noteq> None \<and> header_ascii kv \<Longrightarrow> length w + header_size_sum hs \<le> tot \<Longrightarrow>
   \<exists>hs'. generate_loop tot hs w = Some (True, w @ map word_of_int (concat (map print_header hs)), hs')"
proof (induction hs arbitrary: w)
  case (Cons kv hs)
  obtain k x where kv: "kv = (k, Some x)" using Cons.prems(1) by (cases kv) auto
  have a: "\<forall>c\<in>set k. 0 < c \<and> c < 128" "\<forall>c\<in>set x. 0 < c \<and> c < 128"
    using Cons.prems(1) kv by (auto simp: header_ascii_def)
  let ?w = "w @ map word_of_int (print_header kv) :: char16 list"
  have len: "length w + (length k + length x + 4) + header_size_sum hs \<le> tot"
    using Cons.prems(2) by (simp add: header_size_sum_def kv)
  then have "length ?w + header_size_sum hs \<le> tot" by (simp add: kv)
  with Cons.IH [of ?w] Cons.prems(1) obtain hs' where
    "generate_loop tot hs ?w = Some (True, ?w @ map word_of_int (concat (map print_header hs)), hs')" by auto
  with a len show ?case
    by (simp add: kv convert_checked_ascii put_units_def)
qed simp

lemma header_size_sum_print: "\<forall>kv\<in>set hs. snd kv \<noteq> None \<Longrightarrow> header_size_sum hs = length (concat (map print_header hs))"
  by (induction hs) (auto simp: header_size_sum_def)

lemma GenerateHeaderString_ascii:
  assumes "\<forall>kv\<in>set (header_list h). snd kv \<noteq> None \<and> header_ascii kv"
  shows "\<exists>h'. GenerateHeaderString h = Some (True, map word_of_int (print_headers (header_list h)), h')"
proof -
  let ?hs = "header_list h"
  obtain hs' where "generate_loop (header_size_sum ?hs + 2) ?hs [] =
      Some (True, map word_of_int (concat (map print_header ?hs)), hs')"
    using generate_loop_ascii [OF assms, of "[]" "header_size_sum ?hs + 2"] by auto
  moreover have "header_size_sum ?hs = length (concat (map print_header ?hs))"
    using assms by (intro header_size_sum_print) auto
  moreover have "\<forall>(k, v)\<in>set ?hs. v \<noteq> None" using assms by auto
  ultimately show ?thesis
    by (simp add: GenerateHeaderString_def put_units_def print_headers_def Let_def)
qed

text \<open>The pointers of the headers end up at the terminators of their strings.\<close>

lemma convert_checked_ok: "convert_checked tot s w = (True, s', w') \<Longrightarrow> s' = []"
  by (auto simp: convert_checked_def split: prod.splits dest: ConvertUTF8toUTF16_rest)

lemma generate_loop_consumes:
  "generate_loop tot hs w = Some (True, w', hs') \<Longrightarrow> hs' = map (\<lambda>_. ([], Some [])) hs"
proof (induction tot hs w arbitrary: w' hs' rule: generate_loop.induct)
  case (3 tot k v hs w)
  obtain ok1 k' w1 where c1: "convert_checked tot k w = (ok1, k', w1)" by (cases "convert_checked tot k w") auto
  with 3(2) have ok1 by (auto split: if_splits)
  with 3(2) c1 obtain w2 where w2: "put_units tot [58, 32] w1 = Some w2"
    by (cases "put_units tot [58, 32] w1") auto
  obtain ok2 v' w3 where c2: "convert_checked tot v w2 = (ok2, v', w3)" by (cases "convert_checked tot v w2") auto
  with 3(2) c1 w2 \<open>ok1\<close> have ok2 by (auto simp: Let_def split: if_splits)
  with 3(2) c1 w2 c2 \<open>ok1\<close> obtain w4 where w4: "put_units tot [13, 10] w3 = Some w4"
    by (cases "put_units tot [13, 10] w3") (auto simp: Let_def)
  with 3(2) c1 w2 c2 \<open>ok1\<close> \<open>ok2\<close> obtain hs1 where
    g: "generate_loop tot hs w4 = Some (True, w', hs1)" "hs' = (k', Some v') # hs1"
    by (cases "generate_loop tot hs w4") (auto simp: Let_def)
  have "hs1 = map (\<lambda>_. ([], Some [])) hs"
    using 3(1) [OF refl c1 [symmetric] refl _ w2 refl c2 [symmetric] refl _ w4 g(1)] \<open>ok1\<close> \<open>ok2\<close> by blast
  with g(2) convert_checked_ok c1 c2 \<open>ok1\<close> \<open>ok2\<close> show ?case by auto
qed auto

section \<open>Properties\<close>



text \<open>
  C35. \<open>ParseHTTPHeaders\<close> ends on every document that is not empty, provided that the memory
  behind it is terminated. It returns true exactly with the body right behind the first blank
  line; otherwise the body is the whole document, or empty at its end.
\<close>

theorem parse_headers_finds_body:
  assumes "content \<noteq> []" "0 \<in> set beyond" "\<forall>h. headers = Some h \<longrightarrow> values_set h"
  shows "\<exists>found body bodylen headers'.
    ParseHTTPHeaders (Some content) beyond headers = Some (found, body, bodylen, headers') \<and>
    (if found
     then \<exists>p. blank_line content p \<and> (\<forall>q<p. \<not> blank_line content q) \<and>
            body = Some (p + 2) \<and> bodylen = length content - (p + 2)
     else (body, bodylen) \<in> {(Some 0, length content), (Some (length content), 0)})"
proof -
  obtain r where "parse_loop content beyond 0 0 headers = Some r" "parse_result_ok content r"
    using parse_loop_ok [OF assms(2,3), of content 0 0] by (auto simp: line_start_def)
  with assms(1) show ?thesis
    by (cases r) (auto simp: ParseHTTPHeaders_def parse_result_ok_def)
qed

theorem parse_headers_finds_body_witness:
  "\<exists>found body bodylen headers'.
    ParseHTTPHeaders (Some [65, 58, 13, 10, 13, 10, 66]) [0] (Some HTTPHeaders_new) =
      Some (found, body, bodylen, headers')"
  using parse_headers_finds_body [of "[65, 58, 13, 10, 13, 10, 66]" "[0]" "Some HTTPHeaders_new"]
  by (auto simp: values_set_def HTTPHeaders_new_def)

text \<open>
  The status line test reads past the end of the document. \<open>strtol\<close> skips the line end
  as white space: on the four characters \<open>"A \r\n"\<close> it goes on in whatever follows the document,
  which need not be terminated. What it finds there decides whether the line counts as a header.
\<close>

theorem parse_headers_reads_beyond:
  "ParseHTTPHeaders (Some [65, 32, 13, 10]) [] headers = None \<and>
   ParseHTTPHeaders (Some [65, 32, 13, 10]) [0] None = Some (False, Some 0, 4, None) \<and>
   ParseHTTPHeaders (Some [65, 32, 13, 10]) [50, 32] None = Some (False, Some 4, 0, None)"
proof -
  have le: "line_end_from [65, 32, 13, 10] 0 = Some 2" "line_end_from [65, 32, 13, 10] 4 = None"
    using line_end_at(1) [of "[65, 32]" "[]" "[]"] by (simp_all add: line_end_from_def)
  have m: "memchr 10 [65, 32, 13, 10] 0 2 = None" "memchr 58 [65, 32, 13, 10] 0 2 = None"
    "memchr 32 [65, 32, 13, 10] 0 2 = Some 1"
    by (simp_all add: memchr_def upt_rec)
  have g: "good_first_line [65, 32, 13, 10] [] 0 2 = None"
    "good_first_line [65, 32, 13, 10] [0] 0 2 = Some False"
    "good_first_line [65, 32, 13, 10] [50, 32] 0 2 = Some True"
    by (simp_all add: good_first_line_def m strtol_def isspace_def is_digit_def)
  note first = parse_loop_first [OF le(1) m(1) _ m(2)]
  show ?thesis
    using le(2) by (simp add: ParseHTTPHeaders_def first g parse_loop_end)
qed

text \<open>
  \<open>SetHeader\<close> of a name that may not repeat: a later \<open>GetHeader\<close> returns the value that
  the mode asks for (the old value, the new one, or both with a comma, without line breaks in
  what was added), which \<open>SetHeader\<close> returns as well; other names keep their values, and no value
  gains a line break.
\<close>

theorem set_header_lookup:
  assumes "\<not> multi_line key" "overwrite \<noteq> UNUSED"
  shows "\<exists>r h'. SetHeader key value overwrite h = Some (r, h') \<and>
    GetHeader key h' = r \<and>
    r = set_value overwrite (lookup_entry key (header_list h)) (map_option no_newlines value) \<and>
    (\<forall>key'. \<not> strcaseeq key' key \<longrightarrow> GetHeader key' h' = GetHeader key' h) \<and>
    (headers_clean h \<longrightarrow> headers_clean h')"
proof -
  obtain hs where "SetHeader key value overwrite h =
      Some (set_value overwrite (lookup_entry key (header_list h)) (map_option no_newlines value), h\<lparr>header_list := hs\<rparr>)"
    "lookup_entry key hs = Some (set_value overwrite (lookup_entry key (header_list h)) (map_option no_newlines value))"
    "\<forall>key'. \<not> strcaseeq key' key \<longrightarrow> lookup_entry key' hs = lookup_entry key' (header_list h)"
    using SetHeader_spec [OF assms, of "value" h] by auto
  moreover from this(1) have "headers_clean h \<longrightarrow> headers_clean (h\<lparr>header_list := hs\<rparr>)"
    using SetHeader_clean [OF _ _ assms(2)] by blast
  ultimately show ?thesis by (simp add: GetHeader_lookup)
qed

theorem set_header_lookup_witness:
  "\<exists>r h'. SetHeader [88] (Some [98, 13, 10]) APPEND (HTTPHeaders_new\<lparr>header_list := [([120], Some [97])]\<rparr>) = Some (r, h') \<and>
    GetHeader [88] h' = r \<and> r = Some [97, 44, 98, 95, 95]"
  using set_header_lookup [of "[88]" APPEND "Some [98, 13, 10]" "HTTPHeaders_new\<lparr>header_list := [([120], Some [97])]\<rparr>"]
  by (auto simp: multi_line_def strcaseeq_def tolower_def SET_COOKIE_def WWW_AUTHENTICATE_def set_value_def no_newlines_def)

text \<open>
  \<open>GenerateHeaderString\<close> destroys the headers it prints: the conversion advances the
  pointers stored in the list, so that after a successful call every name and every value is the
  empty string, and no lookup of a name finds its header.
\<close>

theorem generate_header_string_consumes:
  assumes "GenerateHeaderString h = Some (True, printed, h')"
  shows "header_list h' = map (\<lambda>_. ([], Some [])) (header_list h) \<and>
    (\<forall>key. key \<noteq> [] \<longrightarrow> GetHeader key h' = None)"
proof -
  from assms obtain w hs' where "generate_loop (header_size_sum (header_list h) + 2) (header_list h) [] = Some (True, w, hs')"
    and hs': "header_list h' = hs'"
    by (auto simp: GenerateHeaderString_def Let_def bind_eq_Some_conv split: if_splits)
  from generate_loop_consumes [OF this(1)] hs' have h': "header_list h' = map (\<lambda>_. ([], Some [])) (header_list h)"
    by simp
  have "lookup_entry key (map (\<lambda>_. ([], Some [])) hs) = None" if "key \<noteq> []" for key :: str and hs :: "header list"
    using that by (induction hs) (auto simp: strcaseeq_def)
  with h' show ?thesis by (simp add: GetHeader_lookup)
qed

theorem generate_header_string_consumes_witness:
  "\<exists>printed h'. GenerateHeaderString (HTTPHeaders_new\<lparr>header_list := [([65], Some [98])]\<rparr>) = Some (True, printed, h') \<and>
    header_list h' = [([], Some [])] \<and> GetHeader [65] h' = None"
proof -
  obtain h' printed where g: "GenerateHeaderString (HTTPHeaders_new\<lparr>header_list := [([65], Some [98])]\<rparr>) = Some (True, printed, h')"
    using GenerateHeaderString_ascii [of "HTTPHeaders_new\<lparr>header_list := [([65], Some [98])]\<rparr>"]
    by (auto simp: header_ascii_def)
  from generate_header_string_consumes [OF g] g show ?thesis by simp
qed

text \<open>
  A continuation line is appended without the check for line breaks, so that the value of a header
  may contain one: the line below, which contains a line feed that no carriage return precedes,
  would let the sender of a header add a line to what is generated from it later.
\<close>

lemma continuation_keeps_line_feed:
  "SetHeaderFromLine [32, 10, 99] APPEND (HTTPHeaders_new\<lparr>header_list := [([65], Some [98])]\<rparr>) =
     Some (Some [98, 32, 10, 99], HTTPHeaders_new\<lparr>header_list := [([65], Some [98, 32, 10, 99])]\<rparr>)"
  by (simp add: SetHeaderFromLine_def HTTPHeaders_new_def Let_def)

text \<open>The status code is cut to 32 bits before it is checked: 4294967496 is taken for 200.\<close>

lemma response_code_wraps:
  "\<exists>h'. AddResponseFirstline
      ([72, 84, 84, 80, 32] @ [52, 50, 57, 52, 57, 54, 55, 52, 57, 54] @ [32, 79]) HTTPHeaders_new = Some (True, h')
    \<and> response_code h' = 200 \<and> reason_phrase h' = [79]"
proof -
  let ?line = "[72, 84, 84, 80, 32] @ [52, 50, 57, 52, 57, 54, 55, 52, 57, 54] @ [32, 79] :: str"
  have c: "c_str ?line = ?line" by simp
  have sp: "strchr 32 ?line = Some 4" using strchr_append [of 32 "[72, 84, 84, 80]"] by simp
  have st: "strtol (drop 4 ?line @ [0]) = Some (4294967496, [32, 79, 0])"
    by (simp add: strtol_def isspace_def is_digit_def decimal_def LONG_MAX_def Let_def)
  have p: "CheckResponseProtocol ?line 4 (HTTPHeaders_new\<lparr>firstline := ?line\<rparr>) =
      (True, HTTPHeaders_new\<lparr>firstline := ?line, http_version := HTTP_10\<rparr>)"
    by (simp add: CheckResponseProtocol_def memcaseis_def HTTPHeaders_new_def)
  have w: "sint (word_of_int 4294967496 :: int32) = 200" by simp
  show ?thesis
    unfolding AddResponseFirstline_def Let_def c
    by (subst sp) (simp add: st [simplified] p [simplified] w [simplified] RC_FIRST_CODE_def RC_LAST_CODE_def isspace_def c_str_def)
qed
end
