(* ===== verification/MemoryBuffers.thy ===== *)
theory MemoryBuffers
  imports Prelude
begin

text \<open>
  The growing byte array \<open>MemoryBuffer\<close> of \<open>src/common/memory_buffer.cc\<close>. The block that
  \<open>realloc\<close> returns and the bytes of fresh memory are parameters of the model. The capacity doubles
  until the request fits; the lemmas follow the contents, the capacity and the place of the block.
\<close>

section \<open>Operations\<close>

text \<open>\<open>realloc_at\<close> is the block after a \<open>realloc\<close> of a block to a size, 0 for \<open>NULL\<close>.\<close>

record allocator =
  realloc_at :: "nat \<Rightarrow> int \<Rightarrow> nat"
  junk :: "nat \<Rightarrow> byte"

record MemoryBuffer =
  mb_capacity :: int
  mb_size :: int
  mb_bytes :: "byte list"
  mb_at :: nat

definition gInitialCapacity :: int where
  "gInitialCapacity = 16"

definition MemoryBuffer_new :: MemoryBuffer where
  "MemoryBuffer_new = \<lparr>mb_capacity = 0, mb_size = 0, mb_bytes = [], mb_at = 0\<rparr>"

text \<open>The loop that doubles the capacity; a result beyond an \<open>int64\<close> is undefined.\<close>

function double_capacity :: "int \<Rightarrow> int \<Rightarrow> int option" where
  "double_capacity capacity num =
     (if capacity < num
      then if 0 < capacity \<and> capacity * 2 < 2 ^ 63 then double_capacity (capacity * 2) num else None
      else Some capacity)"
  by auto
termination by (relation "measure (\<lambda>(capacity, num). nat (num - capacity))") auto

declare double_capacity.simps [simp del]

definition MemoryBuffer_Reserve :: "'m allocator_scheme \<Rightarrow> int \<Rightarrow> MemoryBuffer \<Rightarrow> MemoryBuffer option" where
  "MemoryBuffer_Reserve m num b =
     (if num < mb_capacity b then Some b
      else do {
        let capacity0 = (if mb_capacity b = 0 then gInitialCapacity else mb_capacity b);
        assert_that (capacity0 \<ge> gInitialCapacity);
        capacity \<leftarrow> double_capacity capacity0 num;
        let temp = realloc_at m (mb_at b) capacity;
        assert_that (temp \<noteq> 0);
        Some (b\<lparr>mb_capacity := capacity,
                mb_bytes := mb_bytes b @ map (junk m) [length (mb_bytes b)..<nat capacity],
                mb_at := temp\<rparr>) })"

definition MemoryBuffer_Append :: "'m allocator_scheme \<Rightarrow> byte list \<Rightarrow> MemoryBuffer \<Rightarrow> MemoryBuffer option" where
  "MemoryBuffer_Append m data b = do {
     b1 \<leftarrow> MemoryBuffer_Reserve m (mb_size b + int (length data)) b;
     bytes \<leftarrow> store (mb_bytes b1) (nat (mb_size b1)) data;
     Some (b1\<lparr>mb_bytes := bytes, mb_size := mb_size b1 + int (length data)\<rparr>) }"

definition MemoryBuffer_Resize :: "'m allocator_scheme \<Rightarrow> int \<Rightarrow> MemoryBuffer \<Rightarrow> MemoryBuffer option" where
  "MemoryBuffer_Resize m num b = do {
     assert_that (num \<ge> 0);
     b1 \<leftarrow> MemoryBuffer_Reserve m num b;
     Some (b1\<lparr>mb_size := num\<rparr>) }"

definition MemoryBuffer_sized :: "'m allocator_scheme \<Rightarrow> int \<Rightarrow> MemoryBuffer option" where
  "MemoryBuffer_sized m num = MemoryBuffer_Resize m num MemoryBuffer_new"

definition MemoryBuffer_Clear :: "MemoryBuffer \<Rightarrow> MemoryBuffer" where
  "MemoryBuffer_Clear b = b\<lparr>mb_size := 0\<rparr>"

definition MemoryBuffer_Empty :: "MemoryBuffer \<Rightarrow> bool" where
  "MemoryBuffer_Empty b = (mb_size b = 0)"

text \<open>The address of a byte; the bytes themselves are read and written with \<open>load\<close> and \<open>store\<close>.\<close>

definition MemoryBuffer_Data :: "int \<Rightarrow> MemoryBuffer \<Rightarrow> int option" where
  "MemoryBuffer_Data offset b = do {
     assert_that (offset < mb_size b);
     assert_that (offset \<ge> 0);
     Some (int (mb_at b) + offset) }"

definition MemoryBuffer_Swap :: "MemoryBuffer \<times> MemoryBuffer \<Rightarrow> MemoryBuffer \<times> MemoryBuffer" where
  "MemoryBuffer_Swap p = (snd p, fst p)"

section \<open>Invariant and contents\<close>

text \<open>The capacity is 0 or 16 times a power of two, and the block has that many bytes.\<close>

definition mb_ok :: "MemoryBuffer \<Rightarrow> bool" where
  "mb_ok b \<longleftrightarrow> 0 \<le> mb_size b \<and> mb_size b \<le> mb_capacity b \<and> length (mb_bytes b) = nat (mb_capacity b) \<and>
     (mb_capacity b = 0 \<or> (\<exists>k. mb_capacity b = 16 * 2 ^ k))"

definition mb_contents :: "MemoryBuffer \<Rightarrow> byte list" where
  "mb_contents b = take (nat (mb_size b)) (mb_bytes b)"

definition allocates :: "'m allocator_scheme \<Rightarrow> bool" where
  "allocates m \<longleftrightarrow> (\<forall>a n. realloc_at m a n \<noteq> 0)"

lemma MemoryBuffer_new_ok [simp]: "mb_ok MemoryBuffer_new" "mb_contents MemoryBuffer_new = []"
  by (simp_all add: mb_ok_def mb_contents_def MemoryBuffer_new_def)

lemma mb_ok_size: "mb_ok b \<Longrightarrow> 0 \<le> mb_size b" "mb_ok b \<Longrightarrow> mb_size b \<le> mb_capacity b"
  "mb_ok b \<Longrightarrow> length (mb_bytes b) = nat (mb_capacity b)"
  by (simp_all add: mb_ok_def)

lemma length_mb_contents [simp]: "mb_ok b \<Longrightarrow> length (mb_contents b) = nat (mb_size b)"
  by (auto simp: mb_ok_def mb_contents_def min_def nat_le_eq_zle)

lemma double_capacity_ok:
  "num \<le> 2 ^ 62 \<Longrightarrow> 0 < capacity \<Longrightarrow> \<exists>k. double_capacity capacity num = Some (capacity * 2 ^ k) \<and> num \<le> capacity * 2 ^ k \<and>
    (k = 0 \<or> capacity * 2 ^ k < 2 * num)"
proof (induction capacity num rule: double_capacity.induct)
  case (1 capacity num)
  show ?case
  proof (cases "capacity < num")
    case True
    with 1(2,3) have c: "0 < capacity \<and> capacity * 2 < 2 ^ 63" by auto
    from 1(1) [OF True c 1(2)] 1(3) obtain k where k: "double_capacity (capacity * 2) num = Some (capacity * 2 * 2 ^ k)"
      "num \<le> capacity * 2 * 2 ^ k" "k = 0 \<or> capacity * 2 * 2 ^ k < 2 * num" by auto
    with True c show ?thesis
      by (intro exI [of _ "Suc k"]) (auto simp: double_capacity.simps [of capacity num] algebra_simps)
  next
    case False
    then show ?thesis by (intro exI [of _ 0]) (simp add: double_capacity.simps)
  qed
qed

text \<open>
  \<open>Reserve\<close> keeps size and contents and makes room; a capacity that it chooses is less than twice the
  request, or the initial one.
\<close>

lemma MemoryBuffer_Reserve_ok:
  assumes "allocates m" "mb_ok b" "num \<le> 2 ^ 62"
  shows "\<exists>b'. MemoryBuffer_Reserve m num b = Some b' \<and> mb_ok b' \<and> mb_size b' = mb_size b \<and>
    num \<le> mb_capacity b' \<and> mb_capacity b \<le> mb_capacity b' \<and>
    (mb_capacity b' = mb_capacity b \<or> mb_capacity b' = 16 \<or> mb_capacity b' < 2 * num) \<and>
    take (length (mb_bytes b)) (mb_bytes b') = mb_bytes b \<and>
    (num < mb_capacity b \<longrightarrow> b' = b)"
proof (cases "num < mb_capacity b")
  case True
  with assms show ?thesis by (simp add: MemoryBuffer_Reserve_def)
next
  case False
  define c0 where "c0 = (if mb_capacity b = 0 then 16 else mb_capacity b)"
  obtain j where j: "c0 = 16 * 2 ^ j"
  proof (cases "mb_capacity b = 0")
    case True
    with that [of 0] show ?thesis by (simp add: c0_def)
  next
    case False
    with assms(2) that show ?thesis by (auto simp: mb_ok_def c0_def)
  qed
  then have c0: "16 \<le> c0" by simp
  obtain k where k: "double_capacity c0 num = Some (c0 * 2 ^ k)" "num \<le> c0 * 2 ^ k"
    "k = 0 \<or> c0 * 2 ^ k < 2 * num"
    using double_capacity_ok [OF assms(3), of c0] c0 by auto
  define c where "c = c0 * 2 ^ k"
  have le: "c0 \<le> c" using c0 unfolding c_def by (simp add: mult_le_cancel_left1)
  have bounds: "mb_capacity b \<le> c0" "0 \<le> mb_size b" "mb_size b \<le> mb_capacity b"
    "length (mb_bytes b) = nat (mb_capacity b)" using assms(2) by (auto simp: c0_def mb_ok_def)
  let ?b = "b\<lparr>mb_capacity := c, mb_bytes := mb_bytes b @ map (junk m) [length (mb_bytes b)..<nat c],
      mb_at := realloc_at m (mb_at b) c\<rparr>"
  have r: "MemoryBuffer_Reserve m num b = Some ?b"
    using False c0 k(1) assms(1) unfolding MemoryBuffer_Reserve_def gInitialCapacity_def Let_def
    by (simp add: c0_def [symmetric] c_def allocates_def del: if_split)
  have pow: "\<exists>k. c = 16 * 2 ^ k" unfolding c_def j
    by (rule exI [of _ "j + k"]) (simp add: power_add algebra_simps)
  have "mb_ok ?b" unfolding mb_ok_def using bounds le pow by simp
  moreover have "c = mb_capacity b \<or> c = 16 \<or> c < 2 * num"
    using k(3) by (auto simp: c_def c0_def)
  ultimately show ?thesis using r bounds le k(2) False by (auto simp: c_def)
qed

lemma take_of_prefix: "take (length ys) xs = ys \<Longrightarrow> k \<le> length ys \<Longrightarrow> take k xs = take k ys"
  by (metis min.absorb1 take_take)

lemma mb_contents_mono:
  assumes "take (length (mb_bytes b)) (mb_bytes b') = mb_bytes b" "mb_ok b" "mb_size b' = mb_size b"
  shows "mb_contents b' = mb_contents b"
proof -
  have "nat (mb_size b) \<le> length (mb_bytes b)" using assms(2) by (auto simp: mb_ok_def)
  then show ?thesis
    unfolding mb_contents_def assms(3) by (rule take_of_prefix [OF assms(1)])
qed

lemma store_contents:
  "nat n + length xs \<le> length mem \<Longrightarrow> 0 \<le> n \<Longrightarrow>
     \<exists>mem'. store mem (nat n) xs = Some mem' \<and> length mem' = length mem \<and>
       take (nat n) mem' = take (nat n) mem \<and> take (nat (n + int (length xs))) mem' = take (nat n) mem @ xs"
  by (simp add: nat_add_distrib)

lemma MemoryBuffer_Append_ok:
  assumes "allocates m" "mb_ok b" "mb_size b + int (length data) \<le> 2 ^ 62"
  shows "\<exists>b'. MemoryBuffer_Append m data b = Some b' \<and> mb_ok b' \<and>
    mb_contents b' = mb_contents b @ data \<and> mb_size b' = mb_size b + int (length data) \<and>
    mb_capacity b \<le> mb_capacity b' \<and>
    (mb_capacity b' = mb_capacity b \<or> mb_capacity b' = 16 \<or> mb_capacity b' < 2 * mb_size b') \<and>
    (mb_size b' < mb_capacity b \<longrightarrow> mb_capacity b' = mb_capacity b \<and> mb_at b' = mb_at b)"
proof -
  let ?n = "mb_size b + int (length data)"
  obtain b1 where b1: "MemoryBuffer_Reserve m ?n b = Some b1" "mb_ok b1" "mb_size b1 = mb_size b"
    "?n \<le> mb_capacity b1" "mb_capacity b \<le> mb_capacity b1"
    "mb_capacity b1 = mb_capacity b \<or> mb_capacity b1 = 16 \<or> mb_capacity b1 < 2 * ?n"
    "take (length (mb_bytes b)) (mb_bytes b1) = mb_bytes b" "?n < mb_capacity b \<longrightarrow> b1 = b"
    using MemoryBuffer_Reserve_ok [OF assms] by blast
  have c: "mb_contents b1 = mb_contents b" using b1(7) assms(2) b1(3) by (rule mb_contents_mono)
  have "nat (mb_size b1) + length data \<le> length (mb_bytes b1)" "0 \<le> mb_size b1"
    using b1(3,4) mb_ok_size [OF b1(2)] by linarith+
  from store_contents [OF this] obtain mem where mem: "store (mb_bytes b1) (nat (mb_size b1)) data = Some mem"
    "length mem = length (mb_bytes b1)" "take (nat (mb_size b1 + int (length data))) mem = mb_contents b1 @ data"
    unfolding mb_contents_def by auto
  let ?b = "b1\<lparr>mb_bytes := mem, mb_size := mb_size b1 + int (length data)\<rparr>"
  have "MemoryBuffer_Append m data b = Some ?b" using b1(1) mem(1) by (simp add: MemoryBuffer_Append_def)
  moreover have "mb_ok ?b" using b1(2,3,4) mem(2) by (simp add: mb_ok_def)
  moreover have "mb_contents ?b = mb_contents b @ data" using mem(3) c by (simp add: mb_contents_def)
  ultimately show ?thesis using b1(3,5,6,8) by (intro exI [of _ ?b]) auto
qed

lemma MemoryBuffer_Resize_ok:
  assumes "allocates m" "mb_ok b" "0 \<le> num" "num \<le> 2 ^ 62"
  shows "\<exists>b'. MemoryBuffer_Resize m num b = Some b' \<and> mb_ok b' \<and> mb_size b' = num \<and>
    take (length (mb_bytes b)) (mb_bytes b') = mb_bytes b \<and> mb_capacity b \<le> mb_capacity b' \<and>
    (num < mb_capacity b \<longrightarrow> mb_at b' = mb_at b)"
proof -
  obtain b1 where b1: "MemoryBuffer_Reserve m num b = Some b1" "mb_ok b1" "num \<le> mb_capacity b1"
    "mb_capacity b \<le> mb_capacity b1" "take (length (mb_bytes b)) (mb_bytes b1) = mb_bytes b"
    "num < mb_capacity b \<longrightarrow> b1 = b"
    using MemoryBuffer_Reserve_ok [OF assms(1,2,4)] by blast
  let ?b = "b1\<lparr>mb_size := num\<rparr>"
  have "mb_ok ?b" using b1(2,3) assms(3) by (simp add: mb_ok_def)
  with b1 assms(3) show ?thesis by (intro exI [of _ ?b]) (auto simp: MemoryBuffer_Resize_def)
qed

lemma MemoryBuffer_Clear_ok: "mb_ok b \<Longrightarrow> mb_ok (MemoryBuffer_Clear b)" "mb_size (MemoryBuffer_Clear b) = 0"
  "mb_contents (MemoryBuffer_Clear b) = []"
  by (auto simp: mb_ok_def MemoryBuffer_Clear_def mb_contents_def)

lemma MemoryBuffer_Data_ok: "0 \<le> offset \<Longrightarrow> offset < mb_size b \<Longrightarrow>
    MemoryBuffer_Data offset b = Some (int (mb_at b) + offset)"
  by (simp add: MemoryBuffer_Data_def)

text \<open>A number of appends.\<close>

fun append_all :: "'m allocator_scheme \<Rightarrow> byte list list \<Rightarrow> MemoryBuffer \<Rightarrow> MemoryBuffer option" where
  "append_all m [] b = Some b"
| "append_all m (d # ds) b = do { b1 \<leftarrow> MemoryBuffer_Append m d b; append_all m ds b1 }"

lemma append_all_ok:
  assumes "allocates m"
  shows "mb_ok b \<Longrightarrow> mb_size b + int (length (concat ds)) \<le> 2 ^ 62 \<Longrightarrow>
    mb_capacity b \<le> max 16 (2 * mb_size b) \<Longrightarrow>
    \<exists>b'. append_all m ds b = Some b' \<and> mb_ok b' \<and> mb_contents b' = mb_contents b @ concat ds \<and>
      mb_capacity b' \<le> max 16 (2 * mb_size b')"
proof (induction ds arbitrary: b)
  case (Cons d ds)
  have n: "mb_size b + int (length d) \<le> 2 ^ 62" using Cons.prems(2) by simp
  from MemoryBuffer_Append_ok [OF assms Cons.prems(1) n] obtain b1 where
    b1: "MemoryBuffer_Append m d b = Some b1" "mb_ok b1" "mb_contents b1 = mb_contents b @ d"
    "mb_size b1 = mb_size b + int (length d)"
    "mb_capacity b1 = mb_capacity b \<or> mb_capacity b1 = 16 \<or> mb_capacity b1 < 2 * mb_size b1" by blast
  have "mb_capacity b1 \<le> max 16 (2 * mb_size b1)" using b1(4,5) Cons.prems(3) by (auto simp: max_def split: if_splits)
  from Cons.IH [OF b1(2) _ this] Cons.prems(2) b1(4) obtain b' where
    "append_all m ds b1 = Some b'" "mb_ok b'" "mb_contents b' = mb_contents b1 @ concat ds"
    "mb_capacity b' \<le> max 16 (2 * mb_size b')" by auto
  with b1(1,3) show ?case by simp
qed simp

section \<open>Properties\<close>

text \<open>
  Appending any pieces to a new buffer leaves their concatenation as the contents, in a block of
  a capacity of at most twice the size (16 at least) that is 16 times a power of two: the doubling
  ends, and no byte is written outside the block.
\<close>

theorem memory_buffer_appends:
  assumes "allocates m" "int (length (concat ds)) \<le> 2 ^ 62"
  shows "\<exists>b. append_all m ds MemoryBuffer_new = Some b \<and> mb_contents b = concat ds \<and>
    mb_size b = int (length (concat ds)) \<and> mb_size b \<le> mb_capacity b \<and>
    mb_capacity b \<le> max 16 (2 * mb_size b) \<and> (mb_capacity b = 0 \<or> (\<exists>k. mb_capacity b = 16 * 2 ^ k))"
proof -
  have "mb_size MemoryBuffer_new + int (length (concat ds)) \<le> 2 ^ 62" using assms(2) by (simp add: MemoryBuffer_new_def)
  moreover have "mb_capacity MemoryBuffer_new \<le> max 16 (2 * mb_size MemoryBuffer_new)"
    by (simp add: MemoryBuffer_new_def)
  ultimately obtain b where b: "append_all m ds MemoryBuffer_new = Some b" "mb_ok b" "mb_contents b = concat ds"
    "mb_capacity b \<le> max 16 (2 * mb_size b)"
    using append_all_ok [OF assms(1) MemoryBuffer_new_ok(1)] by auto
  have "int (length (concat ds)) = mb_size b"
    using length_mb_contents [OF b(2)] b(3) mb_ok_size(1) [OF b(2)] by simp
  with b show ?thesis by (simp add: mb_ok_def)
qed

lemma memory_buffer_appends_witness:
  "\<exists>b. append_all \<lparr>realloc_at = (\<lambda>a n. a + 1), junk = (\<lambda>_. 0)\<rparr> [[1, 2], [], [3]] MemoryBuffer_new = Some b \<and>
     mb_contents b = [1, 2, 3]"
  using memory_buffer_appends [of "\<lparr>realloc_at = (\<lambda>a n. a + 1), junk = (\<lambda>_. 0)\<rparr>" "[[1, 2], [], [3]]"]
  by (auto simp: allocates_def)

end
