(* ===== verification/ByteStores.thy ===== *)
theory ByteStores
  imports MemoryBuffers
begin

text \<open>
  The byte container \<open>ByteStore\<close> of \<open>src/common/byte_store.cc\<close>, over \<open>MemoryBuffer\<close> and over the
  operations of \<open>File\<close> (\<open>src/common/file_posix.cc\<close>) that it uses. Up to 1 MB of data is kept in memory;
  beyond, everything moves to a temporary file. A \<open>FILE\<close> stream of the C library is its bytes, its
  position, its error and end-of-file marks and the direction of the last transfer; streams are not
  buffered here, and how many bytes a write takes and whether a file can be created are parameters.
  All public operations run under \<open>mutex_\<close> and are single steps.
\<close>

section \<open>Files\<close>

datatype OpenAccessMode = READ | WRITE | READ_WRITE

datatype SeekMethod = SEEK_FROM_START | SEEK_FROM_CURRENT | SEEK_FROM_END

text \<open>
  \<open>room\<close> gives the bytes that the \<open>n\<close>-th write of a file has room for, \<open>can_create\<close> whether the
  \<open>n\<close>-th attempt to create the temporary file succeeds.
\<close>

record machine = allocator +
  can_create :: "nat \<Rightarrow> bool"
  room :: "nat \<Rightarrow> nat"

record File =
  f_mode :: OpenAccessMode
  f_path :: string
  f_data :: "byte list"
  f_pos :: nat
  f_error :: bool
  f_eof :: bool
  f_last :: "OpenAccessMode option"
  f_writes :: nat

definition kReadWriteFailure :: int where
  "kReadWriteFailure = -1"

text \<open>
  The C library: a transfer against the direction of the last one needs a seek in between; a short
  write sets the error mark, which stays set; a seek clears the mark for the end of the file only.
\<close>

definition fwrite :: "machine \<Rightarrow> byte list \<Rightarrow> File \<Rightarrow> (nat \<times> File) option" where
  "fwrite m source f =
     (if f_last f = Some READ then None
      else let n = min (length source) (room m (f_writes f));
               old = f_data f @ replicate (f_pos f - length (f_data f)) 0
           in Some (n, f\<lparr>f_data := take (f_pos f) old @ take n source @ drop (f_pos f + n) old,
                         f_pos := f_pos f + n, f_error := (f_error f \<or> n < length source),
                         f_last := Some WRITE, f_writes := f_writes f + 1\<rparr>))"

definition fread :: "nat \<Rightarrow> File \<Rightarrow> (byte list \<times> File) option" where
  "fread n f =
     (if f_last f = Some WRITE then None
      else let bs = take n (drop (f_pos f) (f_data f))
           in Some (bs, f\<lparr>f_pos := f_pos f + length bs, f_eof := (f_eof f \<or> length bs < n),
                          f_last := Some READ\<rparr>))"

definition fseeko :: "int \<Rightarrow> SeekMethod \<Rightarrow> File \<Rightarrow> bool \<times> File" where
  "fseeko offset whence f =
     (let target = offset + (case whence of SEEK_FROM_START \<Rightarrow> 0 | SEEK_FROM_CURRENT \<Rightarrow> int (f_pos f)
                               | SEEK_FROM_END \<Rightarrow> int (length (f_data f)))
      in if target < 0 then (False, f)
         else (True, f\<lparr>f_pos := nat target, f_eof := False, f_last := None\<rparr>))"

text \<open>The members of \<open>File\<close>, with an \<open>off_t\<close> as wide as an \<open>int64\<close>.\<close>

definition File_Write :: "machine \<Rightarrow> byte list \<Rightarrow> File \<Rightarrow> (int \<times> File) option" where
  "File_Write m source f =
     (if f_mode f = READ then Some (kReadWriteFailure, f)
      else do {
        (bytes_written, f1) \<leftarrow> fwrite m source f;
        Some (if f_error f1 then kReadWriteFailure else int bytes_written, f1) })"

definition File_Read :: "int \<Rightarrow> File \<Rightarrow> (int \<times> byte list \<times> File) option" where
  "File_Read max_bytes f =
     (if f_mode f = WRITE then Some (kReadWriteFailure, [], f)
      else if max_bytes < 0 then Some (kReadWriteFailure, [], f)
      else do {
        (bs, f1) \<leftarrow> fread (nat max_bytes) f;
        Some (if f_error f1 \<and> \<not> f_eof f1 then kReadWriteFailure else int (length bs), bs, f1) })"

definition File_Seek :: "int \<Rightarrow> SeekMethod \<Rightarrow> File \<Rightarrow> bool \<times> File" where
  "File_Seek offset seek_method f = fseeko offset seek_method f"

definition File_Tell :: "File \<Rightarrow> int" where
  "File_Tell f = int (f_pos f)"

definition File_Truncate :: "int \<Rightarrow> File \<Rightarrow> bool \<times> File" where
  "File_Truncate len f =
     (if len < 0 then (False, f)
      else (True, f\<lparr>f_data := take (nat len) (f_data f) @ replicate (nat len - length (f_data f)) 0\<rparr>))"

definition File_CreateNewTempFile :: "machine \<Rightarrow> nat \<Rightarrow> File option" where
  "File_CreateNewTempFile m n =
     (if can_create m n
      then Some \<lparr>f_mode = READ_WRITE, f_path = [], f_data = [], f_pos = 0, f_error = False,
                 f_eof = False, f_last = None, f_writes = 0\<rparr>
      else None)"

section \<open>The byte store\<close>

text \<open>Outside Android.\<close>

definition kMaxBufferSize :: int where
  "kMaxBufferSize = 1024 * 1024"

text \<open>\<open>creates\<close> counts the attempts to create the file.\<close>

record ByteStore =
  bs_data :: MemoryBuffer
  bs_file :: "File option"
  file_op :: OpenAccessMode
  is_finalized :: bool
  preserve_data :: bool
  read_buffer :: MemoryBuffer
  write_buffer :: MemoryBuffer
  async_add_length :: int
  bs_length :: int
  creates :: nat

definition ByteStore_new :: ByteStore where
  "ByteStore_new = \<lparr>bs_data = MemoryBuffer_new, bs_file = None, file_op = WRITE, is_finalized = False,
     preserve_data = False, read_buffer = MemoryBuffer_new, write_buffer = MemoryBuffer_new,
     async_add_length = 0, bs_length = 0, creates = 0\<rparr>"

definition IsUsingFile :: "ByteStore \<Rightarrow> bool" where
  "IsUsingFile s = (bs_file s \<noteq> None)"

definition IsUsingData :: "ByteStore \<Rightarrow> bool" where
  "IsUsingData s = (\<not> IsUsingFile s)"

subsection \<open>Adding\<close>

text \<open>The first block of \<open>AddDataToFile\<close>: create the file and move the data there.\<close>

definition create_file :: "machine \<Rightarrow> ByteStore \<Rightarrow> (bool \<times> ByteStore) option" where
  "create_file m s =
     (case bs_file s of
        Some f \<Rightarrow> Some (True, s)
      | None \<Rightarrow> (case File_CreateNewTempFile m (creates s) of
          None \<Rightarrow> Some (False, s\<lparr>creates := creates s + 1\<rparr>)
        | Some f \<Rightarrow> do {
            (complete, f1) \<leftarrow> (if \<not> MemoryBuffer_Empty (bs_data s) then do {
                MemoryBuffer_Data 0 (bs_data s);
                bytes \<leftarrow> load (mb_bytes (bs_data s)) 0 (nat (mb_size (bs_data s)));
                (result, f1) \<leftarrow> File_Write m bytes f;
                Some (result = mb_size (bs_data s), f1) }
              else Some (True, f));
            if \<not> complete then Some (False, s\<lparr>creates := creates s + 1\<rparr>)
            else Some (True, s\<lparr>creates := creates s + 1, bs_file := Some f1,
              bs_data := (if \<not> preserve_data s then MemoryBuffer_Clear (bs_data s) else bs_data s)\<rparr>) }))"

text \<open>The second block, with the file in place.\<close>

definition write_file :: "machine \<Rightarrow> byte list \<Rightarrow> File \<Rightarrow> ByteStore \<Rightarrow> (bool \<times> ByteStore) option" where
  "write_file m data f0 s1 = do {
       let (f1, op) = (if file_op s1 = READ then (snd (File_Seek 0 SEEK_FROM_END f0), WRITE) else (f0, file_op s1));
       let pos = File_Tell f1;
       (result, f2) \<leftarrow> File_Write m data f1;
       if result \<noteq> int (length data)
       then let f3 = snd (File_Truncate pos f2);
                f4 = snd (File_Seek 0 SEEK_FROM_END f3)
            in Some (False, s1\<lparr>bs_file := Some f4, file_op := op\<rparr>)
       else Some (True, s1\<lparr>bs_file := Some f2, file_op := op, bs_length := bs_length s1 + int (length data)\<rparr>) }"

definition AddDataToFile :: "machine \<Rightarrow> byte list \<Rightarrow> ByteStore \<Rightarrow> (bool \<times> ByteStore) option" where
  "AddDataToFile m data s = do {
     (created, s1) \<leftarrow> create_file m s;
     if \<not> created then Some (False, s1)
     else if length data > 0 then do { f0 \<leftarrow> bs_file s1; write_file m data f0 s1 }
     else Some (True, s1) }"

definition AddData :: "machine \<Rightarrow> byte list \<Rightarrow> ByteStore \<Rightarrow> (bool \<times> ByteStore) option" where
  "AddData m data s =
     (if length data = 0 then Some (True, s)
      else do {
        assert_that (\<not> is_finalized s);
        assert_that (async_add_length s = 0);
        if IsUsingData s \<and> int (length data) + mb_size (bs_data s) \<le> kMaxBufferSize then do {
          d \<leftarrow> MemoryBuffer_Append m data (bs_data s);
          Some (True, s\<lparr>bs_data := d, bs_length := bs_length s + int (length data)\<rparr>) }
        else AddDataToFile m data s })"

text \<open>
  A \<open>Writer\<close> gives, for its \<open>n\<close>-th call and the number of bytes it may write, its result and the
  bytes it stores from the start of the place it is given (an asynchronous writer may store them at
  any time before it reports the end).
\<close>

type_synonym Writer = "nat \<Rightarrow> int \<Rightarrow> int \<times> byte list"

definition ASYNC :: int where
  "ASYNC = -9"

function direct_memory_loop ::
    "Writer \<Rightarrow> nat \<Rightarrow> int \<Rightarrow> int \<Rightarrow> int \<Rightarrow> ByteStore \<Rightarrow> (bool \<times> int \<times> int \<times> ByteStore) option" where
  "direct_memory_loop writer n offset max_length added s =
     (if max_length > 0 then do {
        MemoryBuffer_Data offset (bs_data s);
        let bytes_added = fst (writer n max_length);
        mem \<leftarrow> store (mb_bytes (bs_data s)) (nat offset) (snd (writer n max_length));
        let s1 = s\<lparr>bs_data := (bs_data s)\<lparr>mb_bytes := mem\<rparr>\<rparr>;
        if bytes_added = ASYNC
        then Some (True, added, offset, s1\<lparr>async_add_length := max_length\<rparr>)
        else if bytes_added < 0 then None
        else if bytes_added = 0 then Some (False, added, offset, s1)
        else direct_memory_loop writer (Suc n) (offset + bytes_added) (max_length - bytes_added)
               (added + bytes_added) (s1\<lparr>bs_length := bs_length s1 + bytes_added\<rparr>) }
      else Some (False, added, offset, s))"
  by auto
termination by (relation "measure (\<lambda>(writer, n, offset, max_length, added, s). nat max_length)") auto

function direct_file_loop ::
    "machine \<Rightarrow> Writer \<Rightarrow> nat \<Rightarrow> int \<Rightarrow> int \<Rightarrow> int \<Rightarrow> ByteStore \<Rightarrow> (int \<times> ByteStore) option" where
  "direct_file_loop m writer n buffer_size max_length added s =
     (if max_length > 0 then do {
        MemoryBuffer_Data 0 (write_buffer s);
        let bytes_added = fst (writer n buffer_size);
        mem \<leftarrow> store (mb_bytes (write_buffer s)) 0 (snd (writer n buffer_size));
        let s1 = s\<lparr>write_buffer := (write_buffer s)\<lparr>mb_bytes := mem\<rparr>\<rparr>;
        if bytes_added = ASYNC then do {
          (_, s2) \<leftarrow> AddDataToFile m [] s1;
          Some (added, s2\<lparr>async_add_length := buffer_size\<rparr>) }
        else if bytes_added < 0 then None
        else if bytes_added = 0 then Some (added, s1)
        else do {
          bytes \<leftarrow> load mem 0 (nat bytes_added);
          (stored, s2) \<leftarrow> AddDataToFile m bytes s1;
          if \<not> stored then Some (added, s2)
          else direct_file_loop m writer (Suc n) (min (max_length - bytes_added) buffer_size)
                 (max_length - bytes_added) (added + bytes_added) s2 } }
      else Some (added, s))"
  by auto
termination by (relation "measure (\<lambda>(m, writer, n, buffer_size, max_length, added, s). nat max_length)") auto

declare direct_memory_loop.simps [simp del] direct_file_loop.simps [simp del]

definition AddDataDirect :: "machine \<Rightarrow> Writer \<Rightarrow> int \<Rightarrow> ByteStore \<Rightarrow> (int \<times> ByteStore) option" where
  "AddDataDirect m writer max_length s =
     (if max_length < 0 then Some (0, s)
      else do {
        assert_that (\<not> is_finalized s);
        assert_that (async_add_length s = 0);
        if IsUsingData s \<and> max_length + mb_size (bs_data s) \<le> kMaxBufferSize then do {
          let offset = mb_size (bs_data s);
          d \<leftarrow> MemoryBuffer_Resize m (mb_size (bs_data s) + max_length) (bs_data s);
          (async, added, offset1, s1) \<leftarrow> direct_memory_loop writer 0 offset max_length 0 (s\<lparr>bs_data := d\<rparr>);
          if async then Some (added, s1)
          else do {
            d1 \<leftarrow> MemoryBuffer_Resize m offset1 (bs_data s1);
            Some (added, s1\<lparr>bs_data := d1\<rparr>) } }
        else do {
          let buffer_size = min max_length kMaxBufferSize;
          w \<leftarrow> (if mb_size (write_buffer s) < buffer_size
               then MemoryBuffer_Resize m buffer_size (write_buffer s) else Some (write_buffer s));
          direct_file_loop m writer 0 buffer_size max_length 0 (s\<lparr>write_buffer := w\<rparr>) } })"

definition AddDataDirectFinishAsync :: "machine \<Rightarrow> int \<Rightarrow> ByteStore \<Rightarrow> ByteStore option" where
  "AddDataDirectFinishAsync m len s = do {
     assert_that (\<not> is_finalized s);
     assert_that (len \<le> async_add_length s);
     if len = 0 \<and> async_add_length s = 0 then Some s
     else do {
       assert_that (async_add_length s > 0);
       s1 \<leftarrow> (if IsUsingData s then do {
               d \<leftarrow> MemoryBuffer_Resize m (mb_size (bs_data s) - (async_add_length s - len)) (bs_data s);
               Some (s\<lparr>bs_data := d, bs_length := bs_length s + len\<rparr>) }
             else do {
               MemoryBuffer_Data 0 (write_buffer s);
               bytes \<leftarrow> load (mb_bytes (write_buffer s)) 0 (nat len);
               (_, s1) \<leftarrow> AddDataToFile m bytes s;
               Some s1 });
       Some (s1\<lparr>async_add_length := 0\<rparr>) } }"

definition Finalize :: "ByteStore \<Rightarrow> ByteStore" where
  "Finalize s =
     (let s1 = s\<lparr>is_finalized := True\<rparr>
      in if mb_capacity (write_buffer s1) \<noteq> 0
         then s1\<lparr>write_buffer := fst (MemoryBuffer_Swap (write_buffer s1, MemoryBuffer_new))\<rparr> else s1)"

definition ByteStore_Reserve :: "machine \<Rightarrow> int \<Rightarrow> ByteStore \<Rightarrow> ByteStore option" where
  "ByteStore_Reserve m len s =
     (if IsUsingFile s then Some s
      else if len > kMaxBufferSize then do { (_, s1) \<leftarrow> AddDataToFile m [] s; Some s1 }
      else do { d \<leftarrow> MemoryBuffer_Reserve m len (bs_data s); Some (s\<lparr>bs_data := d\<rparr>) })"

subsection \<open>Reading\<close>

definition Length :: "ByteStore \<Rightarrow> int" where
  "Length s = bs_length s"

definition ReadFromFile :: "int \<Rightarrow> int \<Rightarrow> ByteStore \<Rightarrow> (int \<times> byte list \<times> ByteStore) option" where
  "ReadFromFile offset max_length s = do {
     f \<leftarrow> bs_file s;
     assert_that (MemoryBuffer_Empty (bs_data s) \<or> preserve_data s);
     let s1 = (if file_op s = WRITE then s\<lparr>file_op := READ\<rparr> else s);
     let (result, f1) = File_Seek offset SEEK_FROM_START f;
     if \<not> result then Some (-1, [], s1)
     else do {
       (r, bs, f2) \<leftarrow> File_Read max_length f1;
       Some (r, bs, s1\<lparr>bs_file := Some f2\<rparr>) } }"

definition Read :: "int \<Rightarrow> int \<Rightarrow> ByteStore \<Rightarrow> (int \<times> byte list \<times> ByteStore) option" where
  "Read offset max_length s =
     (if offset < 0 \<or> max_length < 0 then Some (-1, [], s)
      else if IsUsingData s then
        if mb_size (bs_data s) \<le> offset then Some (0, [], s)
        else do {
          let max_length1 = (if mb_size (bs_data s) - offset < max_length
                             then mb_size (bs_data s) - offset else max_length);
          MemoryBuffer_Data offset (bs_data s);
          bs \<leftarrow> load (mb_bytes (bs_data s)) (nat offset) (nat max_length1);
          Some (max_length1, bs, s) }
      else ReadFromFile offset max_length s)"

text \<open>
  A \<open>Reader\<close> gives, for its \<open>n\<close>-th call and the bytes it is offered, how many it takes. The bytes
  taken are collected in a result of their own.
\<close>

type_synonym Reader = "nat \<Rightarrow> byte list \<Rightarrow> int"

definition to_int32 :: "int \<Rightarrow> int" where
  "to_int32 x = sint (word_of_int x :: int32)"

function read_memory_loop ::
    "Reader \<Rightarrow> nat \<Rightarrow> int \<Rightarrow> int \<Rightarrow> int \<Rightarrow> byte list \<Rightarrow> MemoryBuffer \<Rightarrow> (int \<times> byte list) option" where
  "read_memory_loop reader n pos max_length bytes_taken seen d =
     (if max_length > 0 then do {
        MemoryBuffer_Data pos d;
        bs \<leftarrow> load (mb_bytes d) (nat pos) (nat max_length);
        let bytes_read = reader n bs;
        if bytes_read < 0 then None
        else if bytes_read = 0 then Some (bytes_taken, seen)
        else if \<not> bytes_read \<le> max_length then None
        else read_memory_loop reader (Suc n) (to_int32 (pos + to_int32 bytes_read)) (max_length - bytes_read)
               (bytes_taken + bytes_read) (seen @ take (nat bytes_read) bs) d }
      else Some (bytes_taken, seen))"
  by auto
termination by (relation "measure (\<lambda>(reader, n, pos, max_length, bytes_taken, seen, d). nat max_length)") auto

function read_file_loop ::
    "Reader \<Rightarrow> nat \<Rightarrow> int \<Rightarrow> int \<Rightarrow> int \<Rightarrow> int \<Rightarrow> byte list \<Rightarrow> ByteStore \<Rightarrow> (int \<times> byte list \<times> ByteStore) option" where
  "read_file_loop reader n offset buffer_size max_length bytes_taken seen s =
     (if max_length > 0 then do {
        MemoryBuffer_Data 0 (read_buffer s);
        (bytes_read1, bs, s1) \<leftarrow> ReadFromFile offset buffer_size s;
        mem \<leftarrow> store (mb_bytes (read_buffer s1)) 0 bs;
        let s2 = s1\<lparr>read_buffer := (read_buffer s1)\<lparr>mb_bytes := mem\<rparr>\<rparr>;
        if bytes_read1 \<le> 0 then Some (bytes_taken, seen, s2)
        else do {
          bs1 \<leftarrow> load mem 0 (nat bytes_read1);
          let bytes_read = reader n bs1;
          if bytes_read < 0 then None
          else if bytes_read = 0 then Some (bytes_taken, seen, s2)
          else read_file_loop reader (Suc n) (offset + bytes_read) (min (max_length - bytes_read) buffer_size)
                 (max_length - bytes_read) (bytes_taken + bytes_read) (seen @ take (nat bytes_read) bs1) s2 } }
      else Some (bytes_taken, seen, s))"
  by auto
termination by (relation "measure (\<lambda>(reader, n, offset, buffer_size, max_length, bytes_taken, seen, s). nat max_length)") auto

declare read_memory_loop.simps [simp del] read_file_loop.simps [simp del]

definition ReadDirect :: "machine \<Rightarrow> Reader \<Rightarrow> int \<Rightarrow> int \<Rightarrow> ByteStore \<Rightarrow> (int \<times> byte list \<times> ByteStore) option" where
  "ReadDirect m reader offset max_length s =
     (if offset < 0 \<or> max_length < 0 then Some (-1, [], s)
      else if IsUsingData s then
        if mb_size (bs_data s) \<le> offset then Some (0, [], s)
        else do {
          let max_length1 = (if mb_size (bs_data s) - offset < max_length
                             then mb_size (bs_data s) - offset else max_length);
          (r, bs) \<leftarrow> read_memory_loop reader 0 (to_int32 offset) max_length1 0 [] (bs_data s);
          Some (r, bs, s) }
      else do {
        let buffer_size = min max_length kMaxBufferSize;
        rb \<leftarrow> (if mb_size (read_buffer s) < buffer_size
              then MemoryBuffer_Resize m buffer_size (read_buffer s) else Some (read_buffer s));
        read_file_loop reader 0 offset buffer_size max_length 0 [] (s\<lparr>read_buffer := rb\<rparr>) })"

text \<open>The element refers to the bytes in memory by their address.\<close>

datatype DataElement = ElementBytes int int | ElementFilePath string

definition GetDataElement :: "machine \<Rightarrow> ByteStore \<Rightarrow> (DataElement \<times> ByteStore) option" where
  "GetDataElement m s = do {
     s1 \<leftarrow> (if \<not> is_finalized s \<and> IsUsingData s \<and> \<not> preserve_data s then do {
             d \<leftarrow> MemoryBuffer_Reserve m kMaxBufferSize (bs_data s);
             Some (s\<lparr>bs_data := d, preserve_data := True\<rparr>) }
           else Some s);
     case bs_file s1 of
       Some f \<Rightarrow> Some (ElementFilePath (f_path f), s1)
     | None \<Rightarrow>
         if \<not> MemoryBuffer_Empty (bs_data s1) then do {
           p \<leftarrow> MemoryBuffer_Data 0 (bs_data s1);
           Some (ElementBytes p (to_int32 (mb_size (bs_data s1))), s1) }
         else Some (ElementBytes 0 0, s1) }"

subsection \<open>Blobs\<close>

text \<open>A snapshot of the store is its length at the time.\<close>

definition Blob_new :: "ByteStore \<Rightarrow> int" where
  "Blob_new s = Length s"

definition blob_max :: "int \<Rightarrow> int \<Rightarrow> int \<Rightarrow> int" where
  "blob_max blob_length offset max_bytes =
     (if offset + max_bytes \<ge> blob_length then blob_length - offset else max_bytes)"

definition Blob_Read :: "int \<Rightarrow> int \<Rightarrow> int \<Rightarrow> ByteStore \<Rightarrow> (int \<times> byte list \<times> ByteStore) option" where
  "Blob_Read blob_length offset max_bytes s =
     (if offset \<ge> blob_length then Some (0, [], s)
      else Read offset (blob_max blob_length offset max_bytes) s)"

definition Blob_ReadDirect ::
    "machine \<Rightarrow> int \<Rightarrow> Reader \<Rightarrow> int \<Rightarrow> int \<Rightarrow> ByteStore \<Rightarrow> (int \<times> byte list \<times> ByteStore) option" where
  "Blob_ReadDirect m blob_length reader offset max_bytes s =
     (if offset \<ge> blob_length then Some (0, [], s)
      else ReadDirect m reader offset (blob_max blob_length offset max_bytes) s)"

text \<open>\<open>TrimToLength\<close> belongs to the blobs and is a parameter.\<close>

definition Blob_GetDataElements ::
    "machine \<Rightarrow> (int \<Rightarrow> DataElement \<Rightarrow> DataElement) \<Rightarrow> int \<Rightarrow> DataElement list \<Rightarrow> ByteStore \<Rightarrow>
     (bool \<times> DataElement list \<times> ByteStore) option" where
  "Blob_GetDataElements m TrimToLength blob_length elements s =
     (if blob_length = 0 then Some (True, elements, s)
      else do {
        (element, s1) \<leftarrow> GetDataElement m s;
        if element = ElementFilePath [] then Some (False, elements, s1)
        else Some (True, elements @ [TrimToLength blob_length element], s1) })"

section \<open>Invariant\<close>

text \<open>
  A file that was last written has its position at the end and may be written without a seek. In
  memory, the data is the content; with a file, the file is, and the data may be kept for elements
  that refer to it.
\<close>

definition file_ok :: "File \<Rightarrow> OpenAccessMode \<Rightarrow> bool" where
  "file_ok f op \<longleftrightarrow> f_mode f = READ_WRITE \<and>
     (op = READ \<or> op = WRITE \<and> f_pos f = length (f_data f) \<and> f_last f \<noteq> Some READ)"

definition bs_ok :: "ByteStore \<Rightarrow> bool" where
  "bs_ok s \<longleftrightarrow> mb_ok (bs_data s) \<and> mb_ok (read_buffer s) \<and> mb_ok (write_buffer s) \<and> async_add_length s = 0 \<and>
     (case bs_file s of
        None \<Rightarrow> bs_length s = mb_size (bs_data s) \<and> mb_size (bs_data s) \<le> kMaxBufferSize \<and> file_op s = WRITE
      | Some f \<Rightarrow> file_ok f (file_op s) \<and> bs_length s = int (length (f_data f)) \<and>
                  (mb_size (bs_data s) = 0 \<or> preserve_data s))"

definition bs_content :: "ByteStore \<Rightarrow> byte list" where
  "bs_content s = (case bs_file s of None \<Rightarrow> mb_contents (bs_data s) | Some f \<Rightarrow> f_data f)"

text \<open>No write of the file has failed.\<close>

definition no_error :: "ByteStore \<Rightarrow> bool" where
  "no_error s \<longleftrightarrow> (case bs_file s of None \<Rightarrow> True | Some f \<Rightarrow> \<not> f_error f)"

text \<open>Files can be created and take \<open>n\<close> bytes in each write.\<close>

definition plenty :: "machine \<Rightarrow> nat \<Rightarrow> bool" where
  "plenty m n \<longleftrightarrow> (\<forall>i. can_create m i \<and> n \<le> room m i)"

lemma bs_new_ok [simp]: "bs_ok ByteStore_new" "bs_content ByteStore_new = []" "no_error ByteStore_new"
  "\<not> is_finalized ByteStore_new"
  by (auto simp: bs_ok_def bs_content_def no_error_def ByteStore_new_def kMaxBufferSize_def)
    (simp add: MemoryBuffer_new_def)+

lemma bs_ok_length: "bs_ok s \<Longrightarrow> bs_length s = int (length (bs_content s))"
  by (auto simp: bs_ok_def bs_content_def mb_ok_def split: option.splits)

lemma contents_load: "mb_ok b \<Longrightarrow> load (mb_bytes b) 0 (nat (mb_size b)) = Some (mb_contents b)"
  by (auto simp: load_def mb_ok_def mb_contents_def)

section \<open>Adding\<close>

text \<open>What adding leaves as it was.\<close>

definition same_flags :: "ByteStore \<Rightarrow> ByteStore \<Rightarrow> bool" where
  "same_flags s s' \<longleftrightarrow> is_finalized s' = is_finalized s \<and> preserve_data s' = preserve_data s \<and>
     read_buffer s' = read_buffer s \<and> write_buffer s' = write_buffer s"

lemma same_flags_refl [simp]: "same_flags s s"
  by (simp add: same_flags_def)

lemma same_flags_trans: "same_flags s s' \<Longrightarrow> same_flags s' s'' \<Longrightarrow> same_flags s s''"
  by (simp add: same_flags_def)

text \<open>A write at the end of a file.\<close>

lemma File_Write_end:
  assumes "f_mode f = READ_WRITE" "f_pos f = length (f_data f)" "f_last f \<noteq> Some READ"
  shows "\<exists>r f'. File_Write m xs f = Some (r, f') \<and> f_mode f' = READ_WRITE \<and>
    take (length (f_data f)) (f_data f') = f_data f \<and>
    (r = int (length xs) \<longrightarrow> f_data f' = f_data f @ xs \<and> f_pos f' = length (f_data f')) \<and>
    f_last f' = Some WRITE \<and> length (f_data f) \<le> length (f_data f') \<and>
    (length xs \<le> room m (f_writes f) \<and> \<not> f_error f \<longrightarrow> r = int (length xs)) \<and> (r = int (length xs) \<longrightarrow> \<not> f_error f')"
  using assms by (auto simp: File_Write_def fwrite_def kReadWriteFailure_def Let_def min_def)

lemma create_file_ok:
  assumes "bs_ok s"
  shows "\<exists>r s'. create_file m s = Some (r, s') \<and> bs_ok s' \<and> bs_content s' = bs_content s \<and> same_flags s s' \<and>
    bs_length s' = bs_length s \<and> (r \<longrightarrow> bs_file s' \<noteq> None) \<and> (\<not> r \<longrightarrow> bs_file s' = None \<and> bs_data s' = bs_data s) \<and>
    (no_error s \<longrightarrow> no_error s') \<and> (plenty m n \<and> kMaxBufferSize \<le> int n \<longrightarrow> r)"
proof (cases "bs_file s")
  case (Some f)
  with assms show ?thesis by (intro exI [of _ True] exI [of _ s]) (simp add: create_file_def)
next
  case None
  let ?s = "s\<lparr>creates := creates s + 1\<rparr>"
  have ok: "mb_ok (bs_data s)" "bs_length s = mb_size (bs_data s)" "mb_size (bs_data s) \<le> kMaxBufferSize"
    "file_op s = WRITE" "async_add_length s = 0" "mb_ok (read_buffer s)" "mb_ok (write_buffer s)"
    using assms None by (auto simp: bs_ok_def)
  have sok: "bs_ok ?s" "bs_content ?s = bs_content s" "no_error ?s"
    using assms None by (auto simp: bs_ok_def bs_content_def no_error_def)
  show ?thesis
  proof (cases "can_create m (creates s)")
    case False
    with sok None show ?thesis
      by (intro exI [of _ False] exI [of _ ?s])
        (auto simp add: create_file_def File_CreateNewTempFile_def same_flags_def plenty_def)
  next
    case True
    let ?f = "\<lparr>f_mode = READ_WRITE, f_path = [], f_data = [], f_pos = 0, f_error = False,
                 f_eof = False, f_last = None, f_writes = 0\<rparr>"
    let ?d = "if \<not> preserve_data s then MemoryBuffer_Clear (bs_data s) else bs_data s"
    have d: "mb_ok ?d" "mb_size ?d = 0 \<or> preserve_data s" using ok(1) MemoryBuffer_Clear_ok by auto
    let ?xs = "mb_contents (bs_data s)"
    have len: "int (length ?xs) = mb_size (bs_data s)" using ok(1) by (simp add: mb_ok_size)
    show ?thesis
    proof (cases "mb_size (bs_data s) = 0")
      case z: True
      then have e: "?xs = []" using len by simp
      let ?s' = "s\<lparr>creates := creates s + 1, bs_file := Some ?f, bs_data := ?d\<rparr>"
      have "create_file m s = Some (True, ?s')"
        using None True z by (simp add: create_file_def File_CreateNewTempFile_def MemoryBuffer_Empty_def)
      moreover have "bs_ok ?s'" unfolding bs_ok_def using ok d z by (simp add: file_ok_def)
      moreover have "bs_content ?s' = bs_content s" using None e by (simp add: bs_content_def)
      ultimately show ?thesis by (intro exI [of _ True] exI [of _ ?s']) (simp add: same_flags_def no_error_def)
    next
      case nz: False
      then have p: "MemoryBuffer_Data 0 (bs_data s) = Some (int (mb_at (bs_data s)))"
        using mb_ok_size(1) [OF ok(1)] by (simp add: MemoryBuffer_Data_def)
      from File_Write_end [of ?f m ?xs] obtain r f' where w: "File_Write m ?xs ?f = Some (r, f')"
        "f_mode f' = READ_WRITE" "r = int (length ?xs) \<Longrightarrow> f_data f' = ?xs \<and> f_pos f' = length (f_data f')"
        "f_last f' = Some WRITE" "length ?xs \<le> room m 0 \<Longrightarrow> r = int (length ?xs)"
        "r = int (length ?xs) \<Longrightarrow> \<not> f_error f'" by auto
      have c: "create_file m s = (if r = mb_size (bs_data s)
          then Some (True, s\<lparr>creates := creates s + 1, bs_file := Some f', bs_data := ?d\<rparr>) else Some (False, ?s))"
        using None True nz p w(1) contents_load [OF ok(1)]
        by (simp add: create_file_def File_CreateNewTempFile_def MemoryBuffer_Empty_def)
      show ?thesis
      proof (cases "r = mb_size (bs_data s)")
        case yes: True
        let ?s' = "s\<lparr>creates := creates s + 1, bs_file := Some f', bs_data := ?d\<rparr>"
        have f': "f_data f' = ?xs" "f_pos f' = length (f_data f')" "\<not> f_error f'" using w(3,6) yes len by auto
        have "bs_ok ?s'" unfolding bs_ok_def using ok d f' w(2,4) len by (simp add: file_ok_def)
        moreover have "bs_content ?s' = bs_content s" using None f' by (simp add: bs_content_def)
        ultimately show ?thesis using c yes f'(3)
          by (intro exI [of _ True] exI [of _ ?s']) (simp add: same_flags_def no_error_def)
      next
        case no: False
        have "\<not> (plenty m n \<and> kMaxBufferSize \<le> int n)"
        proof
          assume "plenty m n \<and> kMaxBufferSize \<le> int n"
          then have "length ?xs \<le> n" "n \<le> room m 0" using ok(3) len by (auto simp: plenty_def)
          with w(5) no len show False by simp
        qed
        with c no sok None show ?thesis
          by (intro exI [of _ False] exI [of _ ?s]) (simp add: same_flags_def)
      qed
    qed
  qed
qed

lemma write_file_ok:
  assumes "bs_ok s" "bs_file s = Some f"
  shows "\<exists>r s'. write_file m xs f s = Some (r, s') \<and> bs_ok s' \<and> bs_file s' \<noteq> None \<and>
    bs_content s' = bs_content s @ (if r then xs else []) \<and> same_flags s s' \<and> bs_data s' = bs_data s \<and>
    (no_error s \<and> plenty m n \<and> length xs \<le> n \<longrightarrow> r) \<and> (r \<longrightarrow> no_error s')"
proof -
  have f: "file_ok f (file_op s)" "bs_length s = int (length (f_data f))"
    using assms by (auto simp: bs_ok_def)
  define f1 where "f1 = (if file_op s = READ then snd (File_Seek 0 SEEK_FROM_END f) else f)"
  have f1: "f_mode f1 = READ_WRITE" "f_pos f1 = length (f_data f1)" "f_last f1 \<noteq> Some READ"
    "f_data f1 = f_data f" "f_error f1 = f_error f"
    using f(1) by (auto simp: f1_def file_ok_def File_Seek_def fseeko_def)
  have sel: "(if file_op s = READ then (snd (File_Seek 0 SEEK_FROM_END f), WRITE) else (f, file_op s)) = (f1, WRITE)"
    using f(1) by (auto simp: f1_def file_ok_def)
  from File_Write_end [OF f1(1-3), of m xs] obtain r f2 where w: "File_Write m xs f1 = Some (r, f2)"
    "f_mode f2 = READ_WRITE" "take (length (f_data f1)) (f_data f2) = f_data f1"
    "r = int (length xs) \<Longrightarrow> f_data f2 = f_data f1 @ xs \<and> f_pos f2 = length (f_data f2)"
    "f_last f2 = Some WRITE" "length (f_data f1) \<le> length (f_data f2)"
    "length xs \<le> room m (f_writes f1) \<Longrightarrow> \<not> f_error f1 \<Longrightarrow> r = int (length xs)"
    "r = int (length xs) \<Longrightarrow> \<not> f_error f2" by auto
  let ?f4 = "snd (File_Seek 0 SEEK_FROM_END (snd (File_Truncate (File_Tell f1) f2)))"
  have eq: "write_file m xs f s = (if r \<noteq> int (length xs)
      then Some (False, s\<lparr>bs_file := Some ?f4, file_op := WRITE\<rparr>)
      else Some (True, s\<lparr>bs_file := Some f2, file_op := WRITE, bs_length := bs_length s + int (length xs)\<rparr>))"
    unfolding write_file_def sel using w(1) by (simp add: Let_def)
  show ?thesis
  proof (cases "r = int (length xs)")
    case True
    let ?s' = "s\<lparr>bs_file := Some f2, file_op := WRITE, bs_length := bs_length s + int (length xs)\<rparr>"
    have "bs_ok ?s'" unfolding bs_ok_def
      using assms w(2,5) w(4) [OF True] f(2) f1(4) by (simp add: bs_ok_def file_ok_def)
    moreover have "bs_content ?s' = bs_content s @ xs" using w(4) [OF True] f1(4) assms(2) by (simp add: bs_content_def)
    ultimately show ?thesis using eq True w(8)
      by (intro exI [of _ True] exI [of _ ?s']) (simp add: same_flags_def no_error_def)
  next
    case False
    let ?s' = "s\<lparr>bs_file := Some ?f4, file_op := WRITE\<rparr>"
    have f4: "f_data ?f4 = f_data f" "f_pos ?f4 = length (f_data ?f4)" "f_last ?f4 = None" "f_mode ?f4 = READ_WRITE"
      using w(2,3,6) f1(2,4) by (simp_all add: File_Tell_def File_Truncate_def File_Seek_def fseeko_def)
    have "bs_ok ?s'" unfolding bs_ok_def using assms f4 f(2) by (simp add: bs_ok_def file_ok_def)
    moreover have "bs_content ?s' = bs_content s" using f4(1) assms(2) by (simp add: bs_content_def)
    moreover have "\<not> (no_error s \<and> plenty m n \<and> length xs \<le> n)"
    proof
      assume a: "no_error s \<and> plenty m n \<and> length xs \<le> n"
      then have "n \<le> room m (f_writes f1)" by (simp add: plenty_def)
      with a have "length xs \<le> room m (f_writes f1)" by linarith
      moreover have "\<not> f_error f1" using a assms(2) f1(5) by (simp add: no_error_def)
      ultimately show False using w(7) False by simp
    qed
    ultimately show ?thesis using eq False
      by (intro exI [of _ False] exI [of _ ?s']) (simp add: same_flags_def)
  qed
qed

lemma AddDataToFile_ok:
  assumes "bs_ok s"
  shows "\<exists>r s'. AddDataToFile m xs s = Some (r, s') \<and> bs_ok s' \<and>
    bs_content s' = bs_content s @ (if r then xs else []) \<and> same_flags s s' \<and>
    (r \<longrightarrow> bs_file s' \<noteq> None) \<and> (bs_file s \<noteq> None \<longrightarrow> bs_file s' \<noteq> None) \<and>
    (no_error s \<and> plenty m n \<and> kMaxBufferSize \<le> int n \<and> length xs \<le> n \<longrightarrow> r) \<and>
    (no_error s \<and> r \<longrightarrow> no_error s')"
proof -
  from create_file_ok [OF assms, of m n] obtain c s1 where c: "create_file m s = Some (c, s1)" "bs_ok s1"
    "bs_content s1 = bs_content s" "same_flags s s1" "c \<Longrightarrow> bs_file s1 \<noteq> None" "\<not> c \<Longrightarrow> bs_file s1 = None"
    "no_error s \<Longrightarrow> no_error s1" "plenty m n \<and> kMaxBufferSize \<le> int n \<Longrightarrow> c"
    by auto
  have keep: "bs_file s \<noteq> None \<Longrightarrow> c" using c(1) by (auto simp: create_file_def)
  show ?thesis
  proof (cases "c \<and> xs \<noteq> []")
    case True
    then obtain f where f: "bs_file s1 = Some f" using c(5) by auto
    from write_file_ok [OF c(2) f, of m xs n] obtain r s' where
      w: "write_file m xs f s1 = Some (r, s')" "bs_ok s'" "bs_file s' \<noteq> None"
      "bs_content s' = bs_content s1 @ (if r then xs else [])" "same_flags s1 s'"
      "no_error s1 \<and> plenty m n \<and> length xs \<le> n \<longrightarrow> r" "r \<longrightarrow> no_error s'" by blast
    have "AddDataToFile m xs s = Some (r, s')" using c(1) True f w(1) by (simp add: AddDataToFile_def)
    with w c(3,4,7) same_flags_trans show ?thesis
      by (intro exI [of _ r] exI [of _ s']) auto
  next
    case False
    then have "AddDataToFile m xs s = Some (c, s1)" using c(1) by (auto simp: AddDataToFile_def)
    with False c keep show ?thesis by (intro exI [of _ c] exI [of _ s1]) auto
  qed
qed

lemma AddData_ok:
  assumes "allocates m" "bs_ok s" "\<not> is_finalized s"
  shows "\<exists>r s'. AddData m xs s = Some (r, s') \<and> bs_ok s' \<and>
    bs_content s' = bs_content s @ (if r then xs else []) \<and> same_flags s s' \<and>
    (no_error s \<and> plenty m n \<and> kMaxBufferSize \<le> int n \<and> length xs \<le> n \<longrightarrow> r) \<and>
    (no_error s \<and> r \<longrightarrow> no_error s')"
proof -
  consider "xs = []" | "xs \<noteq> []" "IsUsingData s" "int (length xs) + mb_size (bs_data s) \<le> kMaxBufferSize"
    | "xs \<noteq> []" "\<not> (IsUsingData s \<and> int (length xs) + mb_size (bs_data s) \<le> kMaxBufferSize)" by blast
  then show ?thesis
  proof cases
    case 1
    with assms(2) show ?thesis by (intro exI [of _ True] exI [of _ s]) (simp add: AddData_def)
  next
    case 2
    have d: "mb_ok (bs_data s)" "async_add_length s = 0" using assms(2) by (auto simp: bs_ok_def)
    have "mb_size (bs_data s) + int (length xs) \<le> 2 ^ 62" using 2(3) by (simp add: kMaxBufferSize_def)
    from MemoryBuffer_Append_ok [OF assms(1) d(1) this] obtain b where
      b: "MemoryBuffer_Append m xs (bs_data s) = Some b" "mb_ok b" "mb_contents b = mb_contents (bs_data s) @ xs"
      "mb_size b = mb_size (bs_data s) + int (length xs)" by blast
    let ?s' = "s\<lparr>bs_data := b, bs_length := bs_length s + int (length xs)\<rparr>"
    have none: "bs_file s = None" using 2(2) by (simp add: IsUsingData_def IsUsingFile_def)
    have "AddData m xs s = Some (True, ?s')" using 2 b(1) assms(3) d(2) by (simp add: AddData_def)
    moreover have "bs_ok ?s'" using assms(2) none b(2,4) 2(3) by (simp add: bs_ok_def)
    moreover have "bs_content ?s' = bs_content s @ xs" using none b(3) by (simp add: bs_content_def)
    ultimately show ?thesis using none by (intro exI [of _ True] exI [of _ ?s']) (simp add: same_flags_def no_error_def)
  next
    case 3
    then have "AddData m xs s = AddDataToFile m xs s"
      using assms(2,3) by (auto simp: AddData_def bs_ok_def)
    with AddDataToFile_ok [OF assms(2), of m xs n] show ?thesis by auto
  qed
qed

section \<open>Reading\<close>

text \<open>
  A read of a file whose error mark is set fails, unless it runs into the end of the file.
\<close>

definition read_result :: "ByteStore \<Rightarrow> int \<Rightarrow> byte list \<Rightarrow> int" where
  "read_result s max_length bs = (if no_error s \<or> int (length bs) < max_length then int (length bs) else -1)"

lemma ReadFromFile_ok:
  assumes "bs_ok s" "bs_file s = Some f" "0 \<le> offset" "0 \<le> len"
  shows "\<exists>s'. ReadFromFile offset len s =
      Some (read_result s len (take (nat len) (drop (nat offset) (f_data f))), take (nat len) (drop (nat offset) (f_data f)), s') \<and>
    bs_ok s' \<and> bs_content s' = bs_content s \<and> same_flags s s' \<and> bs_file s' \<noteq> None \<and> no_error s' = no_error s"
proof -
  let ?bs = "take (nat len) (drop (nat offset) (f_data f))"
  let ?f1 = "f\<lparr>f_pos := nat offset, f_eof := False, f_last := None\<rparr>"
  let ?f2 = "?f1\<lparr>f_pos := nat offset + length ?bs, f_eof := length ?bs < nat len, f_last := Some READ\<rparr>"
  have f: "file_ok f (file_op s)" "MemoryBuffer_Empty (bs_data s) \<or> preserve_data s" "f_mode f = READ_WRITE"
    using assms(1,2) by (auto simp: bs_ok_def MemoryBuffer_Empty_def file_ok_def)
  have op: "(if file_op s = WRITE then s\<lparr>file_op := READ\<rparr> else s) = s\<lparr>file_op := READ\<rparr>"
    using f(1) by (auto simp: file_ok_def)
  have sk: "File_Seek offset SEEK_FROM_START f = (True, ?f1)" using assms(3) by (simp add: File_Seek_def fseeko_def)
  have rd: "File_Read len ?f1 = Some (if f_error f \<and> \<not> length ?bs < nat len then -1 else int (length ?bs), ?bs, ?f2)"
    using assms(4) f(3) by (simp add: File_Read_def fread_def kReadWriteFailure_def)
  let ?s' = "s\<lparr>file_op := READ, bs_file := Some ?f2\<rparr>"
  have "(if f_error f \<and> \<not> length ?bs < nat len then -1 else int (length ?bs)) = read_result s len ?bs"
    using assms(2,4) by (auto simp: read_result_def no_error_def zless_nat_eq_int_zless)
  then have "ReadFromFile offset len s = Some (read_result s len ?bs, ?bs, ?s')"
    using assms(2) f(2) sk rd by (simp add: ReadFromFile_def op)
  moreover have "bs_ok ?s'" using assms(1,2) f(3) by (simp add: bs_ok_def file_ok_def)
  moreover have "bs_content ?s' = bs_content s" using assms(2) by (simp add: bs_content_def)
  moreover have "no_error ?s' = no_error s" using assms(2) by (simp add: no_error_def)
  ultimately show ?thesis by (intro exI [of _ ?s']) (simp add: same_flags_def)
qed

lemma to_int32_small: "0 \<le> x \<Longrightarrow> x < 2 ^ 31 \<Longrightarrow> to_int32 x = x"
  by (simp add: to_int32_def int_word_sint)

lemma take_drop_bytes:
  assumes "mb_ok b" "n + k \<le> nat (mb_size b)"
  shows "load (mb_bytes b) n k = Some (take k (drop n (mb_contents b)))"
proof -
  have "nat (mb_size b) \<le> length (mb_bytes b)" using assms(1) by (auto simp: mb_ok_def)
  moreover have "take k (drop n (take (nat (mb_size b)) (mb_bytes b))) = take k (drop n (mb_bytes b))"
    using assms(2) by (simp add: drop_take min_def)
  ultimately show ?thesis using assms(2) by (simp add: mb_contents_def)
qed

lemma Read_ok:
  assumes "bs_ok s" "0 \<le> offset" "0 \<le> len"
  shows "\<exists>s'. Read offset len s =
      Some (read_result s len (take (nat len) (drop (nat offset) (bs_content s))), take (nat len) (drop (nat offset) (bs_content s)), s') \<and>
    bs_ok s' \<and> bs_content s' = bs_content s \<and> same_flags s s' \<and> no_error s' = no_error s"
proof (cases "bs_file s")
  case (Some f)
  with assms(2,3) ReadFromFile_ok [OF assms(1) Some assms(2,3)] show ?thesis
    by (auto simp: Read_def IsUsingData_def IsUsingFile_def bs_content_def)
next
  case None
  let ?c = "mb_contents (bs_data s)"
  have d: "mb_ok (bs_data s)" using assms(1) by (simp add: bs_ok_def)
  have len: "int (length ?c) = mb_size (bs_data s)" using d by (simp add: mb_ok_size)
  have c: "bs_content s = ?c" "no_error s" using None by (simp_all add: bs_content_def no_error_def)
  show ?thesis
  proof (cases "mb_size (bs_data s) \<le> offset")
    case True
    then have "drop (nat offset) ?c = []" using len assms(2) by simp
    with True None assms c show ?thesis
      by (simp add: Read_def IsUsingData_def IsUsingFile_def read_result_def)
  next
    case False
    define l where "l = (if mb_size (bs_data s) - offset < len then mb_size (bs_data s) - offset else len)"
    have l: "0 \<le> l" "offset + l \<le> mb_size (bs_data s)" using False assms(3) by (auto simp: l_def)
    then have "nat offset + nat l \<le> nat (mb_size (bs_data s))" using assms(2) by linarith
    from take_drop_bytes [OF d this] have ld:
      "load (mb_bytes (bs_data s)) (nat offset) (nat l) = Some (take (nat l) (drop (nat offset) ?c))" .
    have eq: "take (nat l) (drop (nat offset) ?c) = take (nat len) (drop (nat offset) ?c)"
    proof (cases "mb_size (bs_data s) - offset < len")
      case True
      have "length (drop (nat offset) ?c) = nat l" using len assms(2) True by (simp add: l_def nat_diff_distrib)
      moreover have "nat l \<le> nat len" using True by (simp add: l_def)
      ultimately show ?thesis by simp
    qed (simp add: l_def)
    have "int (length (take (nat l) (drop (nat offset) ?c))) = l" using len l assms(2) by simp
    with eq have ll: "int (length (take (nat len) (drop (nat offset) ?c))) = l" by simp
    have p: "MemoryBuffer_Data offset (bs_data s) = Some (int (mb_at (bs_data s)) + offset)"
      using False assms(2) by (simp add: MemoryBuffer_Data_def)
    have "Read offset len s = Some (l, take (nat len) (drop (nat offset) ?c), s)"
      using None assms(2,3) False p ld eq
      by (simp add: Read_def IsUsingData_def IsUsingFile_def l_def [symmetric] Let_def)
    with assms(1) c ll show ?thesis by (simp add: read_result_def)
  qed
qed

section \<open>Reserving and elements\<close>

lemma update_data_ok:
  assumes "bs_ok s" "bs_file s = None" "mb_ok b" "mb_size b = mb_size (bs_data s)"
    "mb_contents b = mb_contents (bs_data s)"
  shows "bs_ok (s\<lparr>bs_data := b\<rparr>)" "bs_content (s\<lparr>bs_data := b\<rparr>) = bs_content s"
    "no_error (s\<lparr>bs_data := b\<rparr>)"
  using assms by (auto simp: bs_ok_def bs_content_def no_error_def)

lemma Reserve_ok:
  assumes "allocates m" "bs_ok s" "len \<le> kMaxBufferSize"
  shows "\<exists>b. MemoryBuffer_Reserve m len (bs_data s) = Some b \<and> mb_ok b \<and> mb_size b = mb_size (bs_data s) \<and>
    mb_contents b = mb_contents (bs_data s) \<and> len \<le> mb_capacity b"
proof -
  have d: "mb_ok (bs_data s)" using assms(2) by (simp add: bs_ok_def)
  have "len \<le> 2 ^ 62" using assms(3) by (simp add: kMaxBufferSize_def)
  from MemoryBuffer_Reserve_ok [OF assms(1) d this] obtain b where
    b: "MemoryBuffer_Reserve m len (bs_data s) = Some b" "mb_ok b" "mb_size b = mb_size (bs_data s)"
    "len \<le> mb_capacity b" "take (length (mb_bytes (bs_data s))) (mb_bytes b) = mb_bytes (bs_data s)" by blast
  with mb_contents_mono [OF b(5) d b(3)] show ?thesis by auto
qed

lemma ByteStore_Reserve_ok:
  assumes "allocates m" "bs_ok s"
  shows "\<exists>s'. ByteStore_Reserve m len s = Some s' \<and> bs_ok s' \<and> bs_content s' = bs_content s \<and>
    same_flags s s' \<and> (no_error s \<and> plenty m n \<and> kMaxBufferSize \<le> int n \<longrightarrow> no_error s')"
proof (cases "IsUsingFile s")
  case True
  with assms(2) show ?thesis by (intro exI [of _ s]) (simp add: ByteStore_Reserve_def)
next
  case False
  then have none: "bs_file s = None" by (simp add: IsUsingFile_def)
  show ?thesis
  proof (cases "len > kMaxBufferSize")
    case True
    from AddDataToFile_ok [OF assms(2), of m "[]" n] obtain r s' where
      "AddDataToFile m [] s = Some (r, s')" "bs_ok s'" "bs_content s' = bs_content s" "same_flags s s'"
      "no_error s \<and> plenty m n \<and> kMaxBufferSize \<le> int n \<longrightarrow> r" "no_error s \<and> r \<longrightarrow> no_error s'"
      by auto
    with True False show ?thesis by (simp add: ByteStore_Reserve_def)
  next
    case le: False
    then have "len \<le> kMaxBufferSize" by simp
    from Reserve_ok [OF assms this] obtain b where b: "MemoryBuffer_Reserve m len (bs_data s) = Some b"
      "mb_ok b" "mb_size b = mb_size (bs_data s)" "mb_contents b = mb_contents (bs_data s)" by blast
    with False le update_data_ok [OF assms(2) none b(2-4)] show ?thesis
      by (simp add: ByteStore_Reserve_def same_flags_def)
  qed
qed

text \<open>Memory that elements refer to is kept, with the capacity for all that goes to memory.\<close>

definition pinned :: "ByteStore \<Rightarrow> bool" where
  "pinned s \<longleftrightarrow> preserve_data s \<and> kMaxBufferSize \<le> mb_capacity (bs_data s)"

lemma GetDataElement_ok:
  assumes "allocates m" "bs_ok s"
  shows "\<exists>e s'. GetDataElement m s = Some (e, s') \<and> bs_ok s' \<and> bs_content s' = bs_content s \<and>
    no_error s' = no_error s \<and> is_finalized s' = is_finalized s \<and>
    (bs_file s = None \<and> \<not> is_finalized s \<and> \<not> preserve_data s \<longrightarrow> pinned s') \<and>
    (bs_file s = None \<longrightarrow> bs_file s' = None \<and>
       (bs_content s \<noteq> [] \<longrightarrow> e = ElementBytes (int (mb_at (bs_data s'))) (int (length (bs_content s)))))"
proof -
  let ?c = "\<not> is_finalized s \<and> IsUsingData s \<and> \<not> preserve_data s"
  obtain s1 where s1: "(if ?c then do {
             d \<leftarrow> MemoryBuffer_Reserve m kMaxBufferSize (bs_data s);
             Some (s\<lparr>bs_data := d, preserve_data := True\<rparr>) }
           else Some s) = Some s1" "bs_ok s1" "bs_content s1 = bs_content s" "no_error s1 = no_error s"
    "bs_file s1 = bs_file s" "is_finalized s1 = is_finalized s" "?c \<longrightarrow> pinned s1"
  proof (cases ?c)
    case True
    then have none: "bs_file s = None" by (simp add: IsUsingData_def IsUsingFile_def)
    from Reserve_ok [OF assms, of kMaxBufferSize] obtain b where b:
      "MemoryBuffer_Reserve m kMaxBufferSize (bs_data s) = Some b"
      "mb_ok b" "mb_size b = mb_size (bs_data s)" "mb_contents b = mb_contents (bs_data s)"
      "kMaxBufferSize \<le> mb_capacity b" by auto
    let ?s = "s\<lparr>bs_data := b, preserve_data := True\<rparr>"
    have "bs_ok ?s" "bs_content ?s = bs_content s" "no_error ?s = no_error s"
      using assms(2) none b by (auto simp: bs_ok_def bs_content_def no_error_def)
    with True b that [of ?s] show ?thesis by (simp add: pinned_def)
  next
    case False
    with assms that [of s] show ?thesis by simp
  qed
  show ?thesis
  proof (cases "bs_file s")
    case (Some f)
    with s1 show ?thesis
      by (intro exI [of _ "ElementFilePath (f_path f)"] exI [of _ s1])
        (simp add: GetDataElement_def IsUsingData_def IsUsingFile_def)
  next
    case None
    have d: "mb_ok (bs_data s1)" "mb_size (bs_data s1) \<le> kMaxBufferSize" using s1(2,5) None by (auto simp: bs_ok_def)
    have len: "int (length (bs_content s1)) = mb_size (bs_data s1)"
      using d(1) s1(5) None by (simp add: bs_content_def mb_ok_size)
    have cast: "to_int32 (mb_size (bs_data s1)) = mb_size (bs_data s1)"
      using mb_ok_size(1) [OF d(1)] d(2) by (intro to_int32_small) (simp_all add: kMaxBufferSize_def)
    show ?thesis
    proof (cases "mb_size (bs_data s1) = 0")
      case True
      with len have "bs_content s1 = []" by simp
      with s1 None True show ?thesis
        by (intro exI [of _ "ElementBytes 0 0"] exI [of _ s1])
          (simp add: GetDataElement_def MemoryBuffer_Empty_def IsUsingData_def IsUsingFile_def)
    next
      case False
      then have "MemoryBuffer_Data 0 (bs_data s1) = Some (int (mb_at (bs_data s1)))"
        using mb_ok_size(1) [OF d(1)] by (simp add: MemoryBuffer_Data_def)
      with s1 None False cast len show ?thesis
        by (intro exI [of _ "ElementBytes (int (mb_at (bs_data s1))) (mb_size (bs_data s1))"] exI [of _ s1])
          (simp add: GetDataElement_def MemoryBuffer_Empty_def IsUsingData_def IsUsingFile_def)
    qed
  qed
qed

section \<open>Adding through a writer\<close>

text \<open>
  A synchronous writer stores as many bytes as it says. The bytes it delivers, when each call may
  store at most \<open>cap\<close>:
\<close>

definition writer_ok :: "Writer \<Rightarrow> bool" where
  "writer_ok writer \<longleftrightarrow> (\<forall>n k. 0 < k \<longrightarrow> 0 \<le> fst (writer n k) \<and> fst (writer n k) \<le> k \<and>
     int (length (snd (writer n k))) = fst (writer n k))"

function writer_bytes :: "Writer \<Rightarrow> int \<Rightarrow> nat \<Rightarrow> int \<Rightarrow> byte list" where
  "writer_bytes writer cap n max_length =
     (if max_length > 0 \<and> fst (writer n (min max_length cap)) > 0
      then snd (writer n (min max_length cap)) @
        writer_bytes writer cap (Suc n) (max_length - fst (writer n (min max_length cap)))
      else [])"
  by auto
termination by (relation "measure (\<lambda>(writer, cap, n, max_length). nat max_length)") auto

declare writer_bytes.simps [simp del]

lemma writer_okD:
  assumes "writer_ok writer" "0 < k"
  shows "0 \<le> fst (writer n k)" "fst (writer n k) \<le> k" "int (length (snd (writer n k))) = fst (writer n k)"
  using assms by (auto simp: writer_ok_def)

text \<open>The memory loop, on data whose size already includes the place for the new bytes.\<close>

lemma direct_memory_loop_ok:
  "writer_ok writer \<Longrightarrow> mb_ok (bs_data s) \<Longrightarrow> 0 \<le> offset \<Longrightarrow> 0 \<le> max_length \<Longrightarrow>
     offset + max_length = mb_size (bs_data s) \<Longrightarrow> max_length \<le> cap \<Longrightarrow>
   \<exists>d'. direct_memory_loop writer n offset max_length added s =
       Some (False, added + int (length (writer_bytes writer cap n max_length)),
             offset + int (length (writer_bytes writer cap n max_length)),
             s\<lparr>bs_data := d', bs_length := bs_length s + int (length (writer_bytes writer cap n max_length))\<rparr>) \<and>
     mb_ok d' \<and> mb_size d' = mb_size (bs_data s) \<and>
     offset + int (length (writer_bytes writer cap n max_length)) \<le> mb_size (bs_data s) \<and>
     take (nat offset + length (writer_bytes writer cap n max_length)) (mb_bytes d') =
       take (nat offset) (mb_bytes (bs_data s)) @ writer_bytes writer cap n max_length"
proof (induction "nat max_length" arbitrary: n offset max_length added s rule: less_induct)
  case less
  note loop = direct_memory_loop.simps [of writer n offset max_length added s]
  note wb = writer_bytes.simps [of writer cap n max_length]
  let ?d = "bs_data s"
  show ?case
  proof (cases "max_length > 0")
    case False
    then have e: "writer_bytes writer cap n max_length = []" by (subst wb) simp
    have "direct_memory_loop writer n offset max_length added s = Some (False, added, offset, s)"
      using False by (subst loop) simp
    with e less(3) less(4-6) False show ?thesis
      by (intro exI [of _ "bs_data s"]) simp
  next
    case True
    have cap: "min max_length cap = max_length" using less(7) by simp
    let ?r = "fst (writer n max_length)" and ?bs = "snd (writer n max_length)"
    note w = writer_okD [OF less(2) True, of n]
    have p: "MemoryBuffer_Data offset ?d = Some (int (mb_at ?d) + offset)"
      using True less(4,6) by (simp add: MemoryBuffer_Data_def)
    have fits: "nat offset + length ?bs \<le> length (mb_bytes ?d)"
      using mb_ok_size [OF less(3)] w less(4,6) by linarith
    let ?mem = "take (nat offset) (mb_bytes ?d) @ ?bs @ drop (nat offset + length ?bs) (mb_bytes ?d)"
    have st: "store (mb_bytes ?d) (nat offset) ?bs = Some ?mem" using fits by simp
    let ?d1 = "?d\<lparr>mb_bytes := ?mem\<rparr>"
    have d1: "mb_ok ?d1" using less(3) fits by (simp add: mb_ok_def)
    show ?thesis
    proof (cases "?r = 0")
      case zero: True
      then have e: "writer_bytes writer cap n max_length = []" by (subst wb) (simp add: cap)
      have bs: "?bs = []" using w(3) zero by simp
      have "direct_memory_loop writer n offset max_length added s = Some (False, added, offset, s\<lparr>bs_data := ?d1\<rparr>)"
        using True p st zero by (subst loop) (simp add: ASYNC_def Let_def)
      with e d1 bs less(4-6) fits show ?thesis
        by (intro exI [of _ ?d1]) simp
    next
      case False
      then have pos: "0 < ?r" using w(1) by simp
      have e: "writer_bytes writer cap n max_length = ?bs @ writer_bytes writer cap (Suc n) (max_length - ?r)"
        using pos True by (subst wb) (simp add: cap)
      let ?s2 = "s\<lparr>bs_data := ?d1, bs_length := bs_length s + ?r\<rparr>"
      let ?rest = "writer_bytes writer cap (Suc n) (max_length - ?r)"
      have step: "direct_memory_loop writer n offset max_length added s =
          direct_memory_loop writer (Suc n) (offset + ?r) (max_length - ?r) (added + ?r) ?s2"
        using True p st pos by (subst loop) (simp add: ASYNC_def Let_def)
      have a: "offset + ?r + (max_length - ?r) = mb_size (bs_data ?s2)" using less(6) by simp
      have "nat (max_length - ?r) < nat max_length" using pos True by simp
      note IH = less(1) [OF this less(2), of ?s2 "offset + ?r" "Suc n" "added + ?r"]
      have "mb_ok (bs_data ?s2)" "0 \<le> offset + ?r" "0 \<le> max_length - ?r" "max_length - ?r \<le> cap"
        using d1 less(4,7) w by simp_all
      from IH [OF this(1-3) a this(4)] obtain d' where d': "direct_memory_loop writer (Suc n) (offset + ?r) (max_length - ?r) (added + ?r) ?s2 =
          Some (False, added + ?r + int (length ?rest), offset + ?r + int (length ?rest),
             ?s2\<lparr>bs_data := d', bs_length := bs_length ?s2 + int (length ?rest)\<rparr>)"
        "mb_ok d'" "mb_size d' = mb_size ?d" "offset + ?r + int (length ?rest) \<le> mb_size ?d"
        "take (nat (offset + ?r) + length ?rest) (mb_bytes d') = take (nat (offset + ?r)) ?mem @ ?rest" by auto
      have n: "nat (offset + ?r) = nat offset + length ?bs" using less(4) w by linarith
      have "take (nat (offset + ?r)) ?mem = take (nat offset) (mb_bytes ?d) @ ?bs" unfolding n using fits by simp
      with d' n w(3) show ?thesis unfolding step e
        by (intro exI [of _ d']) (simp add: add.assoc)
    qed
  qed
qed

text \<open>The file loop; what it stores is the part of the writer's bytes that its result counts.\<close>

lemma update_write_buffer_ok:
  assumes "bs_ok s" "mb_ok b"
  shows "bs_ok (s\<lparr>write_buffer := b\<rparr>)" "bs_content (s\<lparr>write_buffer := b\<rparr>) = bs_content s"
    "no_error (s\<lparr>write_buffer := b\<rparr>) = no_error s"
  using assms by (auto simp: bs_ok_def bs_content_def no_error_def split: option.splits)

lemma min_shrink: "0 \<le> r \<Longrightarrow> min (x - r) (min x k) = min (x - r) (k :: int)"
  by auto

lemma direct_file_loop_ok:
  "writer_ok writer \<Longrightarrow> bs_ok s \<Longrightarrow> 0 \<le> max_length \<Longrightarrow> buffer_size = min max_length kMaxBufferSize \<Longrightarrow>
     buffer_size \<le> mb_size (write_buffer s) \<Longrightarrow>
   \<exists>r s'. direct_file_loop m writer n buffer_size max_length added s = Some (added + r, s') \<and> bs_ok s' \<and>
     0 \<le> r \<and> r \<le> int (length (writer_bytes writer kMaxBufferSize n max_length)) \<and>
     bs_content s' = bs_content s @ take (nat r) (writer_bytes writer kMaxBufferSize n max_length) \<and>
     is_finalized s' = is_finalized s \<and> preserve_data s' = preserve_data s \<and>
     (no_error s \<and> plenty m big \<and> kMaxBufferSize \<le> int big \<longrightarrow>
        r = int (length (writer_bytes writer kMaxBufferSize n max_length)) \<and> no_error s')"
proof (induction "nat max_length" arbitrary: n buffer_size max_length added s rule: less_induct)
  case less
  note loop = direct_file_loop.simps [of m writer n buffer_size max_length added s]
  note wb = writer_bytes.simps [of writer kMaxBufferSize n max_length]
  show ?case
  proof (cases "max_length > 0")
    case False
    then have "writer_bytes writer kMaxBufferSize n max_length = []" by (subst wb) simp
    moreover have "direct_file_loop m writer n buffer_size max_length added s = Some (added, s)"
      using False by (subst loop) simp
    ultimately show ?thesis using less(3) by (intro exI [of _ 0] exI [of _ s]) simp
  next
    case True
    then have bpos: "0 < buffer_size" using less(5) by (simp add: kMaxBufferSize_def)
    let ?r = "fst (writer n buffer_size)" and ?bs = "snd (writer n buffer_size)" and ?w = "write_buffer s"
    note w = writer_okD [OF less(2) bpos, of n]
    have wok: "mb_ok ?w" using less(3) by (simp add: bs_ok_def)
    have p: "MemoryBuffer_Data 0 ?w = Some (int (mb_at ?w))"
      using bpos less(6) by (simp add: MemoryBuffer_Data_def)
    have fits: "length ?bs \<le> length (mb_bytes ?w)" using mb_ok_size [OF wok] w less(6) by linarith
    let ?mem = "?bs @ drop (length ?bs) (mb_bytes ?w)"
    have st: "store (mb_bytes ?w) 0 ?bs = Some ?mem" using fits by simp
    let ?w1 = "?w\<lparr>mb_bytes := ?mem\<rparr>"
    let ?s1 = "s\<lparr>write_buffer := ?w1\<rparr>"
    have w1: "mb_ok ?w1" using wok fits by (simp add: mb_ok_def)
    note s1 = update_write_buffer_ok [OF less(3) w1]
    show ?thesis
    proof (cases "?r = 0")
      case zero: True
      then have "writer_bytes writer kMaxBufferSize n max_length = []" by (subst wb) (simp add: less(5))
      moreover have "direct_file_loop m writer n buffer_size max_length added s = Some (added, ?s1)"
        using True p st zero by (subst loop) (simp add: ASYNC_def Let_def)
      ultimately show ?thesis using s1 by (intro exI [of _ 0] exI [of _ ?s1]) simp
    next
      case False
      then have pos: "0 < ?r" using w(1) by simp
      let ?rest = "writer_bytes writer kMaxBufferSize (Suc n) (max_length - ?r)"
      have e: "writer_bytes writer kMaxBufferSize n max_length = ?bs @ ?rest"
        using pos True by (subst wb) (simp add: less(5))
      have ld: "load ?mem 0 (nat ?r) = Some ?bs"
        using w(3) fits by (simp add: load_def flip: w(3))
      from AddDataToFile_ok [OF s1(1), of m ?bs big] obtain c s2 where
        a: "AddDataToFile m ?bs ?s1 = Some (c, s2)" "bs_ok s2" "bs_content s2 = bs_content s @ (if c then ?bs else [])"
        "same_flags ?s1 s2" "no_error s \<and> plenty m big \<and> kMaxBufferSize \<le> int big \<and> length ?bs \<le> big \<longrightarrow> c"
        "no_error s \<and> c \<longrightarrow> no_error s2" unfolding s1(2,3) by blast
      have flags: "is_finalized s2 = is_finalized s" "preserve_data s2 = preserve_data s" "write_buffer s2 = ?w1"
        using a(4) by (simp_all add: same_flags_def)
      have step: "direct_file_loop m writer n buffer_size max_length added s =
          (if \<not> c then Some (added, s2) else direct_file_loop m writer (Suc n)
            (min (max_length - ?r) buffer_size) (max_length - ?r) (added + ?r) s2)"
        using True p st pos ld a(1) by (subst loop) (simp add: ASYNC_def Let_def)
      have small: "length ?bs \<le> big" if "kMaxBufferSize \<le> int big" using that w less(5) by linarith
      show ?thesis
      proof (cases c)
        case no: False
        with step a small flags show ?thesis by (intro exI [of _ 0] exI [of _ s2]) auto
      next
        case yes: True
        have "nat (max_length - ?r) < nat max_length" using pos True by simp
        note IH = less(1) [OF this less(2) a(2), of "min (max_length - ?r) buffer_size" "Suc n" "added + ?r"]
        have "buffer_size \<le> max_length" using less(5) by simp
        with w(2) have "0 \<le> max_length - ?r" by linarith
        moreover have "min (max_length - ?r) buffer_size = min (max_length - ?r) kMaxBufferSize"
          using min_shrink [OF w(1)] less(5) by metis
        moreover have "min (max_length - ?r) buffer_size \<le> mb_size (write_buffer s2)"
          using less(6) flags(3) by simp
        ultimately obtain r s' where r: "direct_file_loop m writer (Suc n)
            (min (max_length - ?r) buffer_size) (max_length - ?r) (added + ?r) s2 = Some (added + ?r + r, s')"
          "bs_ok s'" "0 \<le> r" "r \<le> int (length ?rest)" "bs_content s' = bs_content s2 @ take (nat r) ?rest"
          "is_finalized s' = is_finalized s2" "preserve_data s' = preserve_data s2"
          "no_error s2 \<and> plenty m big \<and> kMaxBufferSize \<le> int big \<longrightarrow> r = int (length ?rest) \<and> no_error s'"
          using IH by blast
        have n: "nat (?r + r) = length ?bs + nat r" using w r(3) by linarith
        have "bs_content s' = bs_content s @ take (nat (?r + r)) (?bs @ ?rest)"
          unfolding n using r(5) a(3) yes by simp
        with r step yes a(6) flags w e show ?thesis
          by (intro exI [of _ "?r + r"] exI [of _ s']) (simp add: add.assoc)
      qed
    qed
  qed
qed

lemma AddDataDirect_ok:
  assumes "allocates m" "bs_ok s" "\<not> is_finalized s" "writer_ok writer" "0 \<le> max_length"
    and "W = writer_bytes writer (if IsUsingData s \<and> max_length + mb_size (bs_data s) \<le> kMaxBufferSize
           then max_length else kMaxBufferSize) 0 max_length"
  shows "\<exists>r s'. AddDataDirect m writer max_length s = Some (r, s') \<and> bs_ok s' \<and> 0 \<le> r \<and> r \<le> int (length W) \<and>
    bs_content s' = bs_content s @ take (nat r) W \<and> is_finalized s' = is_finalized s \<and>
    (no_error s \<and> plenty m big \<and> kMaxBufferSize \<le> int big \<longrightarrow> r = int (length W) \<and> no_error s')"
proof (cases "IsUsingData s \<and> max_length + mb_size (bs_data s) \<le> kMaxBufferSize")
  case True
  have W: "W = writer_bytes writer max_length 0 max_length" using assms(6) True by simp
  have none: "bs_file s = None" using True by (simp add: IsUsingData_def IsUsingFile_def)
  have d: "mb_ok (bs_data s)" "async_add_length s = 0" "bs_length s = mb_size (bs_data s)"
    using assms(2) none by (auto simp: bs_ok_def)
  let ?n = "mb_size (bs_data s) + max_length"
  have n: "0 \<le> ?n" "?n \<le> 2 ^ 62" using mb_ok_size(1) [OF d(1)] assms(5) True by (auto simp: kMaxBufferSize_def)
  from MemoryBuffer_Resize_ok [OF assms(1) d(1) n] obtain b where b:
    "MemoryBuffer_Resize m ?n (bs_data s) = Some b" "mb_ok b" "mb_size b = ?n"
    "take (length (mb_bytes (bs_data s))) (mb_bytes b) = mb_bytes (bs_data s)" by blast
  let ?s = "s\<lparr>bs_data := b\<rparr>" and ?o = "mb_size (bs_data s)"
  have pre: "mb_ok (bs_data ?s)" "0 \<le> ?o" "?o + max_length = mb_size (bs_data ?s)"
    using b(2,3) mb_ok_size(1) [OF d(1)] by simp_all
  from direct_memory_loop_ok [OF assms(4) pre(1,2) assms(5) pre(3) order.refl, of 0 0] obtain d' where
    l: "direct_memory_loop writer 0 ?o max_length 0 ?s = Some (False, int (length W), ?o + int (length W),
      ?s\<lparr>bs_data := d', bs_length := bs_length s + int (length W)\<rparr>)"
    "mb_ok d'" "mb_size d' = ?n" "?o + int (length W) \<le> ?n"
    "take (nat ?o + length W) (mb_bytes d') = take (nat ?o) (mb_bytes b) @ W"
    using b(3) unfolding W by auto
  have n2: "0 \<le> ?o + int (length W)" "?o + int (length W) \<le> 2 ^ 62" using l(4) n(2) pre(2) by simp_all
  from MemoryBuffer_Resize_ok [OF assms(1) l(2) n2] obtain d1 where d1:
    "MemoryBuffer_Resize m (?o + int (length W)) d' = Some d1" "mb_ok d1" "mb_size d1 = ?o + int (length W)"
    "take (length (mb_bytes d')) (mb_bytes d1) = mb_bytes d'" by blast
  let ?s' = "s\<lparr>bs_data := d1, bs_length := bs_length s + int (length W)\<rparr>"
  have run: "AddDataDirect m writer max_length s = Some (int (length W), ?s')"
    using True assms(3,5) d(2) b(1) l(1) d1(1) by (simp add: AddDataDirect_def Let_def)
  have nn: "nat (?o + int (length W)) = nat ?o + length W" using pre(2) by linarith
  have "nat ?o + length W \<le> length (mb_bytes d')" using l(3,4) mb_ok_size [OF l(2)] pre(2) by linarith
  then have "take (nat ?o + length W) (mb_bytes d1) = take (nat ?o + length W) (mb_bytes d')"
    by (rule take_of_prefix [OF d1(4)])
  moreover have "nat ?o \<le> length (mb_bytes (bs_data s))" using mb_ok_size [OF d(1)] by linarith
  then have "take (nat ?o) (mb_bytes b) = take (nat ?o) (mb_bytes (bs_data s))"
    by (rule take_of_prefix [OF b(4)])
  ultimately have "mb_contents d1 = mb_contents (bs_data s) @ W"
    using l(5) d1(3) nn by (simp add: mb_contents_def)
  then have "bs_content ?s' = bs_content s @ W" using none by (simp add: bs_content_def)
  moreover have "bs_ok ?s'" using assms(2) none d1(2,3) d(3) l(4) True by (simp add: bs_ok_def)
  ultimately show ?thesis using run none
    by (intro exI [of _ "int (length W)"] exI [of _ ?s']) (simp add: no_error_def)
next
  case False
  have W: "W = writer_bytes writer kMaxBufferSize 0 max_length" unfolding assms(6) using False by (subst if_not_P) auto
  have w: "mb_ok (write_buffer s)" "async_add_length s = 0" using assms(2) by (auto simp: bs_ok_def)
  let ?b = "min max_length kMaxBufferSize"
  have bb: "0 \<le> ?b" "?b \<le> 2 ^ 62" using assms(5) by (auto simp: kMaxBufferSize_def)
  obtain w1 where w1: "(if mb_size (write_buffer s) < ?b then MemoryBuffer_Resize m ?b (write_buffer s)
      else Some (write_buffer s)) = Some w1" "mb_ok w1" "?b \<le> mb_size w1"
    using MemoryBuffer_Resize_ok [OF assms(1) w(1) bb] w(1) by (cases "mb_size (write_buffer s) < ?b") auto
  let ?s = "s\<lparr>write_buffer := w1\<rparr>"
  note s1 = update_write_buffer_ok [OF assms(2) w1(2)]
  have "AddDataDirect m writer max_length s = direct_file_loop m writer 0 ?b max_length 0 ?s"
    unfolding AddDataDirect_def using False assms(3,5) w(2) w1(1) by (auto simp: Let_def)
  moreover have "?b \<le> mb_size (write_buffer ?s)" using w1(3) by simp
  from direct_file_loop_ok [OF assms(4) s1(1) assms(5) refl this, of m 0 0 big] obtain r s' where
    "direct_file_loop m writer 0 ?b max_length 0 ?s = Some (0 + r, s')" "bs_ok s'" "0 \<le> r" "r \<le> int (length W)"
    "bs_content s' = bs_content ?s @ take (nat r) W" "is_finalized s' = is_finalized ?s"
    "no_error ?s \<and> plenty m big \<and> kMaxBufferSize \<le> int big \<longrightarrow> r = int (length W) \<and> no_error s'"
    unfolding W by blast
  ultimately show ?thesis unfolding s1(2,3) by (intro exI [of _ r] exI [of _ s']) simp
qed

section \<open>Reading through a reader\<close>

definition reader_ok :: "Reader \<Rightarrow> bool" where
  "reader_ok reader \<longleftrightarrow> (\<forall>n bs. bs \<noteq> [] \<longrightarrow> 0 \<le> reader n bs \<and> reader n bs \<le> int (length bs))"

text \<open>A reader that takes something each time gets everything.\<close>

definition greedy :: "Reader \<Rightarrow> bool" where
  "greedy reader \<longleftrightarrow> (\<forall>n bs. bs \<noteq> [] \<longrightarrow> 0 < reader n bs)"

text \<open>The bytes taken are a part of \<open>xs\<close> from its start, all of it for a greedy reader.\<close>

definition taken_from :: "Reader \<Rightarrow> byte list \<Rightarrow> byte list \<Rightarrow> bool" where
  "taken_from reader xs t \<longleftrightarrow> t = take (length t) xs \<and> (greedy reader \<longrightarrow> t = xs)"

lemma taken_from_step:
  assumes "taken_from reader (drop k xs) t" "k \<le> length xs"
  shows "taken_from reader xs (take k xs @ t)"
proof -
  have "take k xs @ t = take (k + length t) xs"
    using assms by (simp add: taken_from_def take_add)
  moreover have "length (take k xs @ t) = k + length t" using assms(2) by simp
  ultimately have "take k xs @ t = take (length (take k xs @ t)) xs" by simp
  with assms(1) show ?thesis unfolding taken_from_def by (metis append_take_drop_id)
qed

lemma taken_from_stop: "\<not> greedy reader \<or> xs = [] \<Longrightarrow> taken_from reader xs []"
  by (auto simp: taken_from_def)

lemma drop_nat_split:
  assumes "0 \<le> r" "r \<le> max_length" "0 \<le> pos"
  shows "take (nat (max_length - r)) (drop (nat (pos + r)) xs) = drop (nat r) (take (nat max_length) (drop (nat pos) xs))"
  using assms by (simp add: drop_take nat_add_distrib nat_diff_distrib add.commute)

lemma read_memory_loop_ok:
  "reader_ok reader \<Longrightarrow> mb_ok d \<Longrightarrow> 0 \<le> pos \<Longrightarrow> 0 \<le> max_length \<Longrightarrow> pos + max_length \<le> mb_size d \<Longrightarrow>
     mb_size d \<le> kMaxBufferSize \<Longrightarrow>
   \<exists>t. read_memory_loop reader n pos max_length bytes_taken seen d = Some (bytes_taken + int (length t), seen @ t) \<and>
     taken_from reader (take (nat max_length) (drop (nat pos) (mb_contents d))) t"
proof (induction "nat max_length" arbitrary: n pos max_length bytes_taken seen rule: less_induct)
  case less
  note loop = read_memory_loop.simps [of reader n pos max_length bytes_taken seen d]
  show ?case
  proof (cases "max_length > 0")
    case False
    with less(5) show ?thesis by (intro exI [of _ "[]"], subst loop) (simp add: taken_from_def)
  next
    case True
    define bs where "bs = take (nat max_length) (drop (nat pos) (mb_contents d))"
    have p: "MemoryBuffer_Data pos d = Some (int (mb_at d) + pos)"
      using True less(4,6) by (simp add: MemoryBuffer_Data_def)
    have n: "nat pos + nat max_length \<le> nat (mb_size d)" using less(4-6) by linarith
    note ld = take_drop_bytes [OF less(3) n, folded bs_def]
    have len: "int (length bs) = max_length" using n less(3,4,5) by (simp add: bs_def)
    then have ne: "bs \<noteq> []" using True by auto
    let ?r = "reader n bs"
    have r: "0 \<le> ?r" "?r \<le> max_length"
    proof -
      from less(2) ne have "0 \<le> ?r \<and> ?r \<le> int (length bs)" unfolding reader_ok_def by blast
      with len show "0 \<le> ?r" "?r \<le> max_length" by linarith+
    qed
    show ?thesis
    proof (cases "?r = 0")
      case zero: True
      have "\<not> greedy reader"
      proof
        assume "greedy reader"
        with ne have "0 < ?r" unfolding greedy_def by blast
        with zero show False by simp
      qed
      with True p ld zero show ?thesis unfolding bs_def [symmetric]
        by (intro exI [of _ "[]"], subst loop) (simp add: taken_from_stop Let_def)
    next
      case False
      then have rpos: "0 < ?r" using r(1) by simp
      have k: "to_int32 ?r = ?r" "to_int32 (pos + ?r) = pos + ?r"
        using r less(4-7) by (auto intro!: to_int32_small simp: kMaxBufferSize_def)
      have step: "read_memory_loop reader n pos max_length bytes_taken seen d =
          read_memory_loop reader (Suc n) (pos + ?r) (max_length - ?r) (bytes_taken + ?r) (seen @ take (nat ?r) bs) d"
        using True p ld rpos r k by (subst loop) (simp add: Let_def)
      have "nat (max_length - ?r) < nat max_length" "0 \<le> pos + ?r" "0 \<le> max_length - ?r"
        "pos + ?r + (max_length - ?r) \<le> mb_size d" using rpos r less(4,6) True by simp_all
      from less(1) [OF this(1) less(2,3) this(2-4) less(7), of "Suc n" "bytes_taken + ?r" "seen @ take (nat ?r) bs"]
      obtain t where t: "read_memory_loop reader (Suc n) (pos + ?r) (max_length - ?r) (bytes_taken + ?r)
          (seen @ take (nat ?r) bs) d = Some (bytes_taken + ?r + int (length t), seen @ take (nat ?r) bs @ t)"
        "taken_from reader (take (nat (max_length - ?r)) (drop (nat (pos + ?r)) (mb_contents d))) t" by auto
      have "take (nat (max_length - ?r)) (drop (nat (pos + ?r)) (mb_contents d)) = drop (nat ?r) bs"
        using drop_nat_split [OF r less(4), of "mb_contents d"] by (simp add: bs_def)
      with t(2) have "taken_from reader bs (take (nat ?r) bs @ t)"
        using r len by (intro taken_from_step) auto
      moreover have "int (length (take (nat ?r) bs)) = ?r" using r len by simp
      ultimately show ?thesis using t(1) step unfolding bs_def [symmetric]
        by (intro exI [of _ "take (nat ?r) bs @ t"]) simp
    qed
  qed
qed

lemma update_read_buffer_ok:
  assumes "bs_ok s" "mb_ok b"
  shows "bs_ok (s\<lparr>read_buffer := b\<rparr>)" "bs_content (s\<lparr>read_buffer := b\<rparr>) = bs_content s"
    "no_error (s\<lparr>read_buffer := b\<rparr>) = no_error s"
  using assms by (auto simp: bs_ok_def bs_content_def no_error_def split: option.splits)

lemma read_file_loop_ok:
  "reader_ok reader \<Longrightarrow> bs_ok s \<Longrightarrow> no_error s \<Longrightarrow> bs_file s \<noteq> None \<Longrightarrow> 0 \<le> offset \<Longrightarrow> 0 \<le> max_length \<Longrightarrow>
     buffer_size = min max_length kMaxBufferSize \<Longrightarrow> buffer_size \<le> mb_size (read_buffer s) \<Longrightarrow>
   \<exists>t s'. read_file_loop reader n offset buffer_size max_length bytes_taken seen s =
       Some (bytes_taken + int (length t), seen @ t, s') \<and>
     taken_from reader (take (nat max_length) (drop (nat offset) (bs_content s))) t \<and>
     bs_ok s' \<and> bs_content s' = bs_content s \<and> no_error s' \<and> is_finalized s' = is_finalized s"
proof (induction "nat max_length" arbitrary: n offset buffer_size max_length bytes_taken seen s rule: less_induct)
  case less
  note loop = read_file_loop.simps [of reader n offset buffer_size max_length bytes_taken seen s]
  let ?xs = "take (nat max_length) (drop (nat offset) (bs_content s))"
  show ?case
  proof (cases "max_length > 0")
    case False
    with less(3,4,7) show ?thesis by (intro exI [of _ "[]"] exI [of _ s], subst loop) (simp add: taken_from_def)
  next
    case True
    have b: "0 < buffer_size" "buffer_size \<le> max_length" "0 \<le> buffer_size"
      using less(8) True by (auto simp: kMaxBufferSize_def)
    have rb: "mb_ok (read_buffer s)" using less(3) by (simp add: bs_ok_def)
    have p: "MemoryBuffer_Data 0 (read_buffer s) = Some (int (mb_at (read_buffer s)))"
      using b less(9) by (simp add: MemoryBuffer_Data_def)
    obtain f where f: "bs_file s = Some f" using less(5) by auto
    define bs where "bs = take (nat buffer_size) (drop (nat offset) (f_data f))"
    from ReadFromFile_ok [OF less(3) f less(6) b(3)] obtain s1 where s1: "ReadFromFile offset buffer_size s =
        Some (int (length bs), bs, s1)" "bs_ok s1" "bs_content s1 = bs_content s" "same_flags s s1"
      "bs_file s1 \<noteq> None" "no_error s1" using less(4) by (auto simp: read_result_def bs_def)
    have c: "bs_content s = f_data f" using f by (simp add: bs_content_def)
    have same: "read_buffer s1 = read_buffer s" "is_finalized s1 = is_finalized s" using s1(4) by (simp_all add: same_flags_def)
    have len: "length bs \<le> nat buffer_size" by (simp add: bs_def)
    then have fits: "length bs \<le> length (mb_bytes (read_buffer s1))"
      unfolding same using mb_ok_size [OF rb] less(9) by linarith
    let ?mem = "bs @ drop (length bs) (mb_bytes (read_buffer s1))"
    have st: "store (mb_bytes (read_buffer s1)) 0 bs = Some ?mem" using fits by simp
    let ?b1 = "(read_buffer s1)\<lparr>mb_bytes := ?mem\<rparr>"
    let ?s2 = "s1\<lparr>read_buffer := ?b1\<rparr>"
    have b1: "mb_ok ?b1" using rb fits same(1) by (simp add: mb_ok_def)
    note s2 = update_read_buffer_ok [OF s1(2) b1]
    have ld: "load (xs @ ys) 0 (length xs) = Some xs" for xs ys :: "byte list" by (simp add: load_def)
    show ?thesis
    proof (cases "bs = []")
      case empty: True
      then have "?xs = []" using b(1) c by (auto simp: bs_def)
      moreover have "read_file_loop reader n offset buffer_size max_length bytes_taken seen s = Some (bytes_taken, seen, ?s2)"
        using True p s1(1) st empty by (subst loop) (simp add: Let_def)
      ultimately show ?thesis using s2 s1(3,6) same(2)
        by (intro exI [of _ "[]"] exI [of _ ?s2]) (simp add: taken_from_stop)
    next
      case ne: False
      then have lpos: "0 < length bs" by blast
      let ?r = "reader n bs"
      have r: "0 \<le> ?r" "?r \<le> int (length bs)" using less(2) ne by (auto simp: reader_ok_def)
      have step0: "read_file_loop reader n offset buffer_size max_length bytes_taken seen s =
          (if ?r = 0 then Some (bytes_taken, seen, ?s2)
           else read_file_loop reader (Suc n) (offset + ?r) (min (max_length - ?r) buffer_size)
                 (max_length - ?r) (bytes_taken + ?r) (seen @ take (nat ?r) bs) ?s2)"
        using True p s1(1) st ld lpos r ne by (subst loop) (simp add: Let_def)
      show ?thesis
      proof (cases "?r = 0")
        case zero: True
        have "\<not> greedy reader"
      proof
        assume "greedy reader"
        with ne have "0 < ?r" unfolding greedy_def by blast
        with zero show False by simp
      qed
        with zero step0 s2 s1(3,6) same(2) show ?thesis
          by (intro exI [of _ "[]"] exI [of _ ?s2]) (simp add: taken_from_stop)
      next
        case False
        then have pos: "0 < ?r" using r(1) by simp
        have rmax: "?r \<le> max_length" using r(2) len b by linarith
        have "nat (max_length - ?r) < nat max_length" using pos True by simp
        note IH = less(1) [OF this less(2) s2(1)]
        have "no_error ?s2" "bs_file ?s2 \<noteq> None" using s2(3) s1(5,6) by simp_all
        moreover have "0 \<le> offset + ?r" "0 \<le> max_length - ?r" using less(6) r(1) rmax by simp_all
        moreover have "min (max_length - ?r) buffer_size = min (max_length - ?r) kMaxBufferSize"
          using min_shrink [OF r(1)] less(8) by metis
        moreover have "min (max_length - ?r) buffer_size \<le> mb_size (read_buffer ?s2)" using less(9) same(1) by simp
        ultimately obtain t s' where t: "read_file_loop reader (Suc n) (offset + ?r) (min (max_length - ?r) buffer_size)
            (max_length - ?r) (bytes_taken + ?r) (seen @ take (nat ?r) bs) ?s2 =
            Some (bytes_taken + ?r + int (length t), (seen @ take (nat ?r) bs) @ t, s')"
          "taken_from reader (take (nat (max_length - ?r)) (drop (nat (offset + ?r)) (bs_content ?s2))) t"
          "bs_ok s'" "bs_content s' = bs_content ?s2" "no_error s'" "is_finalized s' = is_finalized ?s2"
          using IH by blast
        have k: "nat ?r \<le> length bs" using r by linarith
        have kx: "nat ?r \<le> length ?xs" using k c b(2) len by (simp add: bs_def) linarith
        have "take (nat (max_length - ?r)) (drop (nat (offset + ?r)) (bs_content ?s2)) = drop (nat ?r) ?xs"
          unfolding s2(2) s1(3) by (rule drop_nat_split [OF r(1) rmax less(6)])
        with t(2) have tf: "taken_from reader ?xs (take (nat ?r) ?xs @ t)" using kx by (intro taken_from_step) simp_all
        have "nat ?r \<le> nat buffer_size" "nat ?r \<le> nat max_length" using k len b(2) by linarith+
        then have eq: "take (nat ?r) ?xs = take (nat ?r) bs" using c by (simp add: bs_def min_absorb1)
        have "int (length (take (nat ?r) bs)) = ?r" using r k by simp
        with tf t(1,3-6) step0 False s2(2) s1(3) same(2) show ?thesis unfolding eq
          by (intro exI [of _ "take (nat ?r) bs @ t"] exI [of _ s']) simp
      qed
    qed
  qed
qed

lemma ReadDirect_ok:
  assumes "allocates m" "bs_ok s" "no_error s" "reader_ok reader" "0 \<le> offset" "0 \<le> max_length"
  shows "\<exists>t s'. ReadDirect m reader offset max_length s = Some (int (length t), t, s') \<and>
     taken_from reader (take (nat max_length) (drop (nat offset) (bs_content s))) t \<and>
     bs_ok s' \<and> bs_content s' = bs_content s \<and> no_error s' \<and> is_finalized s' = is_finalized s"
proof (cases "bs_file s")
  case None
  let ?d = "bs_data s"
  have d: "mb_ok ?d" "mb_size ?d \<le> kMaxBufferSize" using assms(2) None by (auto simp: bs_ok_def)
  have c: "bs_content s = mb_contents ?d" using None by (simp add: bs_content_def)
  have len: "int (length (mb_contents ?d)) = mb_size ?d" using d(1) by (simp add: mb_ok_size)
  show ?thesis
  proof (cases "mb_size ?d \<le> offset")
    case True
    then have "drop (nat offset) (bs_content s) = []" using len c assms(5) by simp
    with True None assms show ?thesis
      by (intro exI [of _ "[]"] exI [of _ s]) (simp add: ReadDirect_def IsUsingData_def IsUsingFile_def taken_from_stop)
  next
    case False
    define l where "l = (if mb_size ?d - offset < max_length then mb_size ?d - offset else max_length)"
    have l: "0 \<le> l" "offset + l \<le> mb_size ?d" using False assms(6) by (auto simp: l_def)
    have o: "to_int32 offset = offset" using False assms(5) d(2) by (intro to_int32_small) (simp_all add: kMaxBufferSize_def)
    from read_memory_loop_ok [OF assms(4) d(1) assms(5) l d(2), of 0 0 "[]"] obtain t where
      t: "read_memory_loop reader 0 offset l 0 [] ?d = Some (int (length t), t)"
      "taken_from reader (take (nat l) (drop (nat offset) (mb_contents ?d))) t" by auto
    have "take (nat l) (drop (nat offset) (mb_contents ?d)) = take (nat max_length) (drop (nat offset) (mb_contents ?d))"
    proof (cases "mb_size ?d - offset < max_length")
      case True
      have "length (drop (nat offset) (mb_contents ?d)) = nat l" using len assms(5) True by (simp add: l_def nat_diff_distrib)
      moreover have "nat l \<le> nat max_length" using True by (simp add: l_def)
      ultimately show ?thesis by simp
    qed (simp add: l_def)
    with t None assms c False o show ?thesis
      by (intro exI [of _ t] exI [of _ s])
        (simp add: ReadDirect_def IsUsingData_def IsUsingFile_def l_def [symmetric] Let_def)
  qed
next
  case (Some f)
  have w: "mb_ok (read_buffer s)" using assms(2) by (auto simp: bs_ok_def)
  let ?b = "min max_length kMaxBufferSize"
  have bb: "0 \<le> ?b" "?b \<le> 2 ^ 62" using assms(6) by (auto simp: kMaxBufferSize_def)
  obtain w1 where w1: "(if mb_size (read_buffer s) < ?b then MemoryBuffer_Resize m ?b (read_buffer s)
      else Some (read_buffer s)) = Some w1" "mb_ok w1" "?b \<le> mb_size w1"
    using MemoryBuffer_Resize_ok [OF assms(1) w bb] w by (cases "mb_size (read_buffer s) < ?b") auto
  let ?s = "s\<lparr>read_buffer := w1\<rparr>"
  note s1 = update_read_buffer_ok [OF assms(2) w1(2)]
  have run: "ReadDirect m reader offset max_length s = read_file_loop reader 0 offset ?b max_length 0 [] ?s"
    unfolding ReadDirect_def using Some assms(5,6) w1(1) by (auto simp: Let_def IsUsingData_def IsUsingFile_def)
  have "no_error ?s" "bs_file ?s \<noteq> None" "?b \<le> mb_size (read_buffer ?s)" using assms(3) s1(3) Some w1(3) by simp_all
  from read_file_loop_ok [OF assms(4) s1(1) this(1,2) assms(5,6) refl this(3), of 0 0 "[]"] obtain t s' where
    "read_file_loop reader 0 offset ?b max_length 0 [] ?s = Some (int (length t), t, s')"
    "taken_from reader (take (nat max_length) (drop (nat offset) (bs_content ?s))) t"
    "bs_ok s'" "bs_content s' = bs_content ?s" "no_error s'" "is_finalized s' = is_finalized ?s" by auto
  with run show ?thesis unfolding s1(2) by (intro exI [of _ t] exI [of _ s']) simp
qed

section \<open>Sequences of operations\<close>

datatype store_op = AddOp "byte list" | ReserveOp int | LengthOp | ReadOp int int | ReadDirectOp int int | ElementOp

datatype store_result = Done | Stored bool | Count int | Bytes int "byte list"

fun run_op :: "machine \<Rightarrow> Reader \<Rightarrow> store_op \<Rightarrow> ByteStore \<Rightarrow> (store_result \<times> ByteStore) option" where
  "run_op m reader (AddOp bs) s = do { (r, s1) \<leftarrow> AddData m bs s; Some (Stored r, s1) }"
| "run_op m reader (ReserveOp n) s = do { s1 \<leftarrow> ByteStore_Reserve m n s; Some (Done, s1) }"
| "run_op m reader LengthOp s = Some (Count (Length s), s)"
| "run_op m reader (ReadOp offset n) s = do { (r, bs, s1) \<leftarrow> Read offset n s; Some (Bytes r bs, s1) }"
| "run_op m reader (ReadDirectOp offset n) s = do { (r, bs, s1) \<leftarrow> ReadDirect m reader offset n s; Some (Bytes r bs, s1) }"
| "run_op m reader ElementOp s = do { (e, s1) \<leftarrow> GetDataElement m s; Some (Done, s1) }"

fun run_ops :: "machine \<Rightarrow> Reader \<Rightarrow> store_op list \<Rightarrow> ByteStore \<Rightarrow> (store_result list \<times> ByteStore) option" where
  "run_ops m reader [] s = Some ([], s)"
| "run_ops m reader (x # xs) s = do {
     (r, s1) \<leftarrow> run_op m reader x s;
     (rs, s2) \<leftarrow> run_ops m reader xs s1;
     Some (r # rs, s2) }"

text \<open>The specification: a sequence of bytes.\<close>

definition spec_read :: "int \<Rightarrow> int \<Rightarrow> byte list \<Rightarrow> store_result" where
  "spec_read offset n c =
     (if offset < 0 \<or> n < 0 then Bytes (-1) []
      else Bytes (int (length (take (nat n) (drop (nat offset) c)))) (take (nat n) (drop (nat offset) c)))"

fun spec_op :: "store_op \<Rightarrow> byte list \<Rightarrow> store_result \<times> byte list" where
  "spec_op (AddOp bs) c = (Stored True, c @ bs)"
| "spec_op (ReserveOp n) c = (Done, c)"
| "spec_op LengthOp c = (Count (int (length c)), c)"
| "spec_op (ReadOp offset n) c = (spec_read offset n c, c)"
| "spec_op (ReadDirectOp offset n) c = (spec_read offset n c, c)"
| "spec_op ElementOp c = (Done, c)"

fun spec_ops :: "store_op list \<Rightarrow> byte list \<Rightarrow> store_result list \<times> byte list" where
  "spec_ops [] c = ([], c)"
| "spec_ops (x # xs) c =
     (let (r, c1) = spec_op x c; (rs, c2) = spec_ops xs c1 in (r # rs, c2))"

lemma read_negative: "offset < 0 \<or> n < 0 \<Longrightarrow> Read offset n s = Some (-1, [], s)"
  "offset < 0 \<or> n < 0 \<Longrightarrow> ReadDirect m reader offset n s = Some (-1, [], s)"
  by (simp_all add: Read_def ReadDirect_def)

lemma run_op_ok:
  assumes "allocates m" "plenty m big" "kMaxBufferSize \<le> int big" "reader_ok reader" "greedy reader"
    and "bs_ok s" "no_error s" "\<not> is_finalized s" "\<forall>bs. x = AddOp bs \<longrightarrow> length bs \<le> big"
  shows "\<exists>s'. run_op m reader x s = Some (fst (spec_op x (bs_content s)), s') \<and> bs_ok s' \<and> no_error s' \<and>
    \<not> is_finalized s' \<and> bs_content s' = snd (spec_op x (bs_content s))"
proof (cases x)
  case (AddOp bs)
  with AddData_ok [OF assms(1,6,8), of bs big] assms(2,3,7,8,9) show ?thesis by (auto simp: same_flags_def)
next
  case (ReserveOp n)
  with ByteStore_Reserve_ok [OF assms(1,6), of n big] assms(2,3,7,8) show ?thesis by (auto simp: same_flags_def)
next
  case LengthOp
  with bs_ok_length [OF assms(6)] assms(6-8) show ?thesis by (simp add: Length_def)
next
  case (ReadOp offset n)
  show ?thesis
  proof (cases "offset < 0 \<or> n < 0")
    case True
    with ReadOp assms(6-8) show ?thesis by (auto simp: read_negative spec_read_def)
  next
    case False
    then have "0 \<le> offset" "0 \<le> n" by auto
    from Read_ok [OF assms(6) this] False ReadOp assms(7,8) show ?thesis
      by (auto simp: read_result_def spec_read_def same_flags_def)
  qed
next
  case (ReadDirectOp offset n)
  show ?thesis
  proof (cases "offset < 0 \<or> n < 0")
    case True
    with ReadDirectOp assms(6-8) show ?thesis by (auto simp: read_negative spec_read_def)
  next
    case False
    then have "0 \<le> offset" "0 \<le> n" by auto
    from ReadDirect_ok [OF assms(1,6,7,4) this] False ReadDirectOp assms(5,8) show ?thesis
      by (auto simp: taken_from_def spec_read_def)
  qed
next
  case ElementOp
  from GetDataElement_ok [OF assms(1,6)] obtain e s' where
    "GetDataElement m s = Some (e, s')" "bs_ok s'" "bs_content s' = bs_content s" "no_error s' = no_error s"
    "is_finalized s' = is_finalized s" by blast
  with ElementOp assms(7,8) show ?thesis by simp
qed

lemma run_ops_ok:
  assumes "allocates m" "plenty m big" "kMaxBufferSize \<le> int big" "reader_ok reader" "greedy reader"
  shows "bs_ok s \<Longrightarrow> no_error s \<Longrightarrow> \<not> is_finalized s \<Longrightarrow> \<forall>bs. AddOp bs \<in> set xs \<longrightarrow> length bs \<le> big \<Longrightarrow>
    \<exists>s'. run_ops m reader xs s = Some (fst (spec_ops xs (bs_content s)), s') \<and>
      bs_content s' = snd (spec_ops xs (bs_content s))"
proof (induction xs arbitrary: s)
  case (Cons x xs)
  have "\<forall>bs. x = AddOp bs \<longrightarrow> length bs \<le> big" using Cons.prems(4) by simp
  from run_op_ok [OF assms Cons.prems(1-3) this] obtain s1 where
    s1: "run_op m reader x s = Some (fst (spec_op x (bs_content s)), s1)" "bs_ok s1" "no_error s1"
    "\<not> is_finalized s1" "bs_content s1 = snd (spec_op x (bs_content s))" by blast
  have "\<forall>bs. AddOp bs \<in> set xs \<longrightarrow> length bs \<le> big" using Cons.prems(4) by simp
  from Cons.IH [OF s1(2-4) this] obtain s2 where
    "run_ops m reader xs s1 = Some (fst (spec_ops xs (bs_content s1)), s2)"
    "bs_content s2 = snd (spec_ops xs (bs_content s1))" by blast
  with s1(1,5) show ?case by (simp add: case_prod_beta Let_def)
qed simp

text \<open>Adding a number of pieces.\<close>

fun add_all :: "machine \<Rightarrow> byte list list \<Rightarrow> ByteStore \<Rightarrow> ByteStore option" where
  "add_all m [] s = Some s"
| "add_all m (d # ds) s = do { (_, s1) \<leftarrow> AddData m d s; add_all m ds s1 }"

lemma add_all_ok:
  assumes "allocates m"
  shows "bs_ok s \<Longrightarrow> \<not> is_finalized s \<Longrightarrow>
    \<exists>s' more. add_all m ds s = Some s' \<and> bs_ok s' \<and> bs_content s' = bs_content s @ more"
proof (induction ds arbitrary: s)
  case (Cons d ds)
  from AddData_ok [OF assms Cons.prems, of d] obtain r s1 where
    s1: "AddData m d s = Some (r, s1)" "bs_ok s1" "bs_content s1 = bs_content s @ (if r then d else [])"
    "same_flags s s1" by blast
  then have "\<not> is_finalized s1" using Cons.prems(2) by (simp add: same_flags_def)
  from Cons.IH [OF s1(2) this] obtain s2 more where
    "add_all m ds s1 = Some s2" "bs_ok s2" "bs_content s2 = bs_content s1 @ more" by blast
  with s1(1,3) show ?case
    by (intro exI [of _ s2] exI [of _ "(if r then d else []) @ more"]) simp
qed simp

text \<open>
  Pinned memory stays where it is: in memory the capacity suffices unless the data fills the buffer
  exactly, and a move to the file leaves it alone.
\<close>

lemma AddData_pinned:
  assumes "allocates m" "bs_ok s" "pinned s" "\<not> is_finalized s"
    and "bs_file s = None \<Longrightarrow> length (bs_content s) + length d \<noteq> nat kMaxBufferSize"
    and "AddData m d s = Some (r, s')"
  shows "pinned s' \<and> mb_at (bs_data s') = mb_at (bs_data s) \<and>
    (\<exists>more. mb_contents (bs_data s') = mb_contents (bs_data s) @ more)"
proof -
  have dok: "mb_ok (bs_data s)" using assms(2) by (simp add: bs_ok_def)
  consider "d = []" | "d \<noteq> []" "IsUsingData s" "int (length d) + mb_size (bs_data s) \<le> kMaxBufferSize"
    | "d \<noteq> []" "\<not> (IsUsingData s \<and> int (length d) + mb_size (bs_data s) \<le> kMaxBufferSize)" by blast
  then show ?thesis
  proof cases
    case 1
    with assms(3,6) show ?thesis by (auto simp: AddData_def)
  next
    case 2
    then have none: "bs_file s = None" by (simp add: IsUsingData_def IsUsingFile_def)
    have len: "int (length (bs_content s)) = mb_size (bs_data s)"
      using none dok by (simp add: bs_content_def mb_ok_size)
    have ne: "mb_size (bs_data s) + int (length d) \<noteq> kMaxBufferSize"
    proof
      assume "mb_size (bs_data s) + int (length d) = kMaxBufferSize"
      with len have "length (bs_content s) + length d = nat kMaxBufferSize" by linarith
      with assms(5) none show False by simp
    qed
    have lt: "mb_size (bs_data s) + int (length d) < kMaxBufferSize" using 2(3) ne by simp
    then have "mb_size (bs_data s) + int (length d) \<le> 2 ^ 62" by (simp add: kMaxBufferSize_def)
    from MemoryBuffer_Append_ok [OF assms(1) dok this] obtain b where
      b: "MemoryBuffer_Append m d (bs_data s) = Some b" "mb_contents b = mb_contents (bs_data s) @ d"
      "mb_size b = mb_size (bs_data s) + int (length d)"
      "mb_size b < mb_capacity (bs_data s) \<longrightarrow> mb_capacity b = mb_capacity (bs_data s) \<and> mb_at b = mb_at (bs_data s)"
      by blast
    have "mb_size b < mb_capacity (bs_data s)" using lt b(3) assms(3) by (simp add: pinned_def)
    with b(4) have "mb_capacity b = mb_capacity (bs_data s)" "mb_at b = mb_at (bs_data s)" by auto
    moreover have "s' = s\<lparr>bs_data := b, bs_length := bs_length s + int (length d)\<rparr>"
      using assms(2,4,6) 2 b(1) by (simp add: AddData_def bs_ok_def)
    ultimately show ?thesis using b(2) assms(3) by (simp add: pinned_def)
  next
    case 3
    then have eq: "AddDataToFile m d s = Some (r, s')" using assms(2,4,6) by (auto simp: AddData_def bs_ok_def)
    from create_file_ok [OF assms(2), of m] obtain c s1 where c: "create_file m s = Some (c, s1)" "bs_ok s1"
      "same_flags s s1" "c \<Longrightarrow> bs_file s1 \<noteq> None" "\<not> c \<Longrightarrow> bs_data s1 = bs_data s" by blast
    have pres: "preserve_data s" using assms(3) by (simp add: pinned_def)
    have d1: "bs_data s1 = bs_data s" using c(1) pres
      by (auto simp: create_file_def bind_eq_Some_conv split: option.splits if_splits)
    have "bs_data s' = bs_data s \<and> same_flags s s'"
    proof (cases "c \<and> d \<noteq> []")
      case True
      then obtain f where f: "bs_file s1 = Some f" using c(4) by auto
      from write_file_ok [OF c(2) f, of m d] obtain r2 s2 where
        "write_file m d f s1 = Some (r2, s2)" "same_flags s1 s2" "bs_data s2 = bs_data s1" by blast
      with eq c(1,3) True f d1 same_flags_trans show ?thesis by (auto simp: AddDataToFile_def)
    next
      case False
      with eq c(1,3) d1 show ?thesis by (auto simp: AddDataToFile_def split: if_splits)
    qed
    with assms(3) show ?thesis by (simp add: pinned_def same_flags_def)
  qed
qed

lemma add_all_pinned:
  assumes "allocates m"
  shows "bs_ok s \<Longrightarrow> pinned s \<Longrightarrow> \<not> is_finalized s \<Longrightarrow>
    (\<forall>j. bs_file s = None \<longrightarrow> length (bs_content s) + length (concat (take (Suc j) ds)) \<noteq> nat kMaxBufferSize) \<Longrightarrow>
    plenty m big \<Longrightarrow> kMaxBufferSize \<le> int big \<Longrightarrow> \<forall>d \<in> set ds. length d \<le> big \<Longrightarrow> no_error s \<Longrightarrow>
    \<exists>s' more. add_all m ds s = Some s' \<and> mb_at (bs_data s') = mb_at (bs_data s) \<and>
      mb_contents (bs_data s') = mb_contents (bs_data s) @ more"
proof (induction ds arbitrary: s)
  case (Cons d ds)
  from AddData_ok [OF assms Cons.prems(1,3), of d big] obtain r s1 where
    s1: "AddData m d s = Some (r, s1)" "bs_ok s1" "bs_content s1 = bs_content s @ (if r then d else [])"
    "same_flags s s1" "no_error s \<and> plenty m big \<and> kMaxBufferSize \<le> int big \<and> length d \<le> big \<longrightarrow> r"
    "no_error s \<and> r \<longrightarrow> no_error s1" by blast
  have r: "r" and ne: "no_error s1" using s1(5,6) Cons.prems(5-8) by simp_all
  have fin: "\<not> is_finalized s1" using s1(4) Cons.prems(3) by (simp add: same_flags_def)
  have "length (bs_content s) + length d \<noteq> nat kMaxBufferSize" if "bs_file s = None"
    using that spec [OF Cons.prems(4), of 0] by simp
  from AddData_pinned [OF assms Cons.prems(1-3) this s1(1)] obtain more1 where
    p: "pinned s1" "mb_at (bs_data s1) = mb_at (bs_data s)"
    "mb_contents (bs_data s1) = mb_contents (bs_data s) @ more1" by blast
  have nfile: "bs_file s1 = None \<Longrightarrow> bs_file s = None"
    using s1(1) Cons.prems(1) AddDataToFile_ok [OF Cons.prems(1), of m d]
    by (auto simp: AddData_def IsUsingData_def IsUsingFile_def bs_ok_def Cons.prems(3) split: if_splits)
  have "\<forall>j. bs_file s1 = None \<longrightarrow> length (bs_content s1) + length (concat (take (Suc j) ds)) \<noteq> nat kMaxBufferSize"
  proof (intro allI impI)
    fix j
    assume "bs_file s1 = None"
    with nfile spec [OF Cons.prems(4), of "Suc j"] s1(3) r
    show "length (bs_content s1) + length (concat (take (Suc j) ds)) \<noteq> nat kMaxBufferSize" by simp
  qed
  from Cons.IH [OF s1(2) p(1) fin this Cons.prems(5,6) _ ne] Cons.prems(7) obtain s2 more where
    "add_all m ds s1 = Some s2" "mb_at (bs_data s2) = mb_at (bs_data s1)"
    "mb_contents (bs_data s2) = mb_contents (bs_data s1) @ more" by auto
  with s1(1) p(2,3) show ?case by (intro exI [of _ s2] exI [of _ "more1 @ more"]) simp
qed simp

section \<open>Failures\<close>

lemma write_file_short:
  assumes "bs_ok s" "bs_file s = Some f" "room m (f_writes f) < length xs"
  shows "\<exists>s'. write_file m xs f s = Some (False, s') \<and> \<not> no_error s'"
proof -
  have f: "file_ok f (file_op s)" using assms(1,2) by (auto simp: bs_ok_def)
  define f1 where "f1 = (if file_op s = READ then snd (File_Seek 0 SEEK_FROM_END f) else f)"
  have f1: "f_mode f1 = READ_WRITE" "f_last f1 \<noteq> Some READ" "f_writes f1 = f_writes f"
    using f by (auto simp: f1_def file_ok_def File_Seek_def fseeko_def)
  have sel: "(if file_op s = READ then (snd (File_Seek 0 SEEK_FROM_END f), WRITE) else (f, file_op s)) = (f1, WRITE)"
    using f by (auto simp: f1_def file_ok_def)
  obtain f2 where w: "File_Write m xs f1 = Some (-1, f2)" "f_error f2"
    using f1 assms(3) by (auto simp: File_Write_def fwrite_def kReadWriteFailure_def Let_def)
  have "f_error (snd (File_Seek 0 SEEK_FROM_END (snd (File_Truncate (File_Tell f1) f2))))"
    using w(2) by (simp add: File_Seek_def fseeko_def File_Truncate_def)
  then show ?thesis unfolding write_file_def sel using w(1) by (simp add: Let_def no_error_def)
qed

lemma AddData_short:
  assumes "bs_ok s" "bs_file s = Some f" "\<not> is_finalized s" "room m (f_writes f) < length xs"
  shows "\<exists>s'. AddData m xs s = Some (False, s') \<and> \<not> no_error s'"
proof -
  from write_file_short [OF assms(1,2,4)] obtain s' where
    "write_file m xs f s = Some (False, s')" "\<not> no_error s'" by blast
  moreover have "create_file m s = Some (True, s)" using assms(2) by (simp add: create_file_def)
  ultimately show ?thesis using assms
    by (auto simp: AddData_def AddDataToFile_def IsUsingData_def IsUsingFile_def bs_ok_def)
qed

section \<open>Properties\<close>

text \<open>
  C5. The store behaves as a sequence of bytes: while files can be created and have room, every
  sequence of additions, reservations, readings and requests for an element, from a new store on,
  has the results it has on a list of bytes to which \<open>AddData\<close> appends, whether the bytes are in
  memory or have moved to the file.
\<close>

theorem byte_store_refines_bytes:
  assumes "allocates m" "plenty m big" "kMaxBufferSize \<le> int big" "reader_ok reader" "greedy reader"
    and "\<forall>bs. AddOp bs \<in> set xs \<longrightarrow> length bs \<le> big"
  shows "\<exists>s. run_ops m reader xs ByteStore_new = Some (fst (spec_ops xs []), s) \<and> bs_content s = snd (spec_ops xs [])"
  using run_ops_ok [OF assms(1-5) bs_new_ok(1,3,4) assms(6)] by simp

definition roomy :: machine where
  "roomy = \<lparr>realloc_at = (\<lambda>a n. a + 1), junk = (\<lambda>_. 0), can_create = (\<lambda>_. True), room = (\<lambda>_. 2 ^ 30)\<rparr>"

lemma roomy_simps [simp]: "allocates roomy" "n \<le> 2 ^ 30 \<Longrightarrow> plenty roomy n"
  by (auto simp: allocates_def plenty_def roomy_def)

lemma byte_store_refines_bytes_witness:
  "\<exists>s. run_ops roomy (\<lambda>n bs. int (length bs))
     [AddOp [1, 2], ReadOp 1 5, ReserveOp (2 * kMaxBufferSize), AddOp [3], LengthOp, ReadDirectOp 1 2] ByteStore_new =
     Some ([Stored True, Bytes 1 [2], Done, Stored True, Count 3, Bytes 2 [2, 3]], s)"
proof -
  let ?xs = "[AddOp [1, 2], ReadOp 1 5, ReserveOp (2 * kMaxBufferSize), AddOp [3], LengthOp, ReadDirectOp 1 2]"
  have "reader_ok (\<lambda>n bs. int (length bs))" "greedy (\<lambda>n bs. int (length bs))"
    by (simp_all add: reader_ok_def greedy_def)
  moreover have "\<forall>bs. AddOp bs \<in> set ?xs \<longrightarrow> length bs \<le> 2 ^ 20" by auto
  moreover have "kMaxBufferSize \<le> int (2 ^ 20)" by (simp add: kMaxBufferSize_def)
  moreover have "plenty roomy (2 ^ 20)" by simp
  ultimately obtain s where
    "run_ops roomy (\<lambda>n bs. int (length bs)) ?xs ByteStore_new = Some (fst (spec_ops ?xs []), s)"
    using byte_store_refines_bytes [of roomy "2 ^ 20" "\<lambda>n bs. int (length bs)" ?xs] roomy_simps(1) by blast
  moreover have "fst (spec_ops ?xs []) = [Stored True, Bytes 1 [2], Done, Stored True, Count 3, Bytes 2 [2, 3]]"
    by (simp add: spec_read_def)
  ultimately show ?thesis by metis
qed



text \<open>
  \<open>AddDataDirect\<close> with a synchronous writer appends what the writer delivers, in its order,
  and its result is the number of bytes; when a write fails, the bytes before it are kept.
\<close>

theorem add_data_direct_appends:
  assumes "allocates m" "bs_ok s" "\<not> is_finalized s" "writer_ok writer" "0 \<le> max_length"
    and "W = writer_bytes writer (if IsUsingData s \<and> max_length + mb_size (bs_data s) \<le> kMaxBufferSize
           then max_length else kMaxBufferSize) 0 max_length"
  shows "\<exists>r s'. AddDataDirect m writer max_length s = Some (r, s') \<and> bs_ok s' \<and>
    bs_content s' = bs_content s @ take (nat r) W \<and> 0 \<le> r \<and> r \<le> int (length W) \<and>
    (no_error s \<and> plenty m big \<and> kMaxBufferSize \<le> int big \<longrightarrow> r = int (length W))"
  using AddDataDirect_ok [OF assms, of big] by blast

text \<open>A writer of three pieces.\<close>

definition three_pieces :: Writer where
  "three_pieces n k = (if n < 2 \<and> 2 \<le> k then (2, [1, 2]) else if n < 3 then (1, [3]) else (0, []))"

lemma add_data_direct_appends_witness:
  "\<exists>r s'. AddDataDirect roomy three_pieces 6 ByteStore_new = Some (r, s') \<and> bs_content s' = [1, 2, 1, 2, 3]"
proof -
  have wb: "writer_bytes three_pieces 6 0 6 = [1, 2, 1, 2, 3]"
    by (simp add: writer_bytes.simps three_pieces_def eval_nat_numeral)
  have w: "writer_ok three_pieces" by (auto simp: writer_ok_def three_pieces_def)
  have "[1, 2, 1, 2, 3] = writer_bytes three_pieces (if IsUsingData ByteStore_new \<and>
      6 + mb_size (bs_data ByteStore_new) \<le> kMaxBufferSize then 6 else kMaxBufferSize) 0 6"
    by (simp add: wb IsUsingData_def IsUsingFile_def ByteStore_new_def MemoryBuffer_new_def kMaxBufferSize_def)
  from add_data_direct_appends [OF roomy_simps(1) bs_new_ok(1,4) w _ this, of "2 ^ 20"] obtain r s' where
    r: "AddDataDirect roomy three_pieces 6 ByteStore_new = Some (r, s')"
    "bs_content s' = bs_content ByteStore_new @ take (nat r) [1, 2, 1, 2, 3]"
    "no_error ByteStore_new \<and> plenty roomy (2 ^ 20) \<and> kMaxBufferSize \<le> int (2 ^ 20) \<longrightarrow>
       r = int (length [1, 2, 1, 2, 3 :: byte])" by force
  then have "r = 5" by (simp add: kMaxBufferSize_def)
  with r show ?thesis by simp
qed

text \<open>
  A blob is a snapshot: whatever is added to the store after its construction, reading it gives
  the bytes of the store at the construction, between the offset and the length.
\<close>

theorem blob_reads_snapshot:
  assumes "allocates m" "bs_ok s" "\<not> is_finalized s" "add_all m ds s = Some s'" "no_error s'"
    and "0 \<le> offset" "0 \<le> n"
  shows "\<exists>s''. Blob_Read (Blob_new s) offset n s' =
      Some (int (length (take (nat n) (drop (nat offset) (bs_content s)))),
            take (nat n) (drop (nat offset) (bs_content s)), s'')"
proof -
  from add_all_ok [OF assms(1-3), of ds] assms(4) obtain more where
    s': "bs_ok s'" "bs_content s' = bs_content s @ more" by auto
  let ?c = "bs_content s"
  have L: "Blob_new s = int (length ?c)" using bs_ok_length [OF assms(2)] by (simp add: Blob_new_def Length_def)
  show ?thesis
  proof (cases "offset \<ge> Blob_new s")
    case True
    then have "drop (nat offset) ?c = []" using L by simp
    with True show ?thesis by (simp add: Blob_Read_def)
  next
    case False
    let ?n = "blob_max (Blob_new s) offset n"
    have n: "0 \<le> ?n" "?n \<le> n" "nat offset + nat ?n \<le> length ?c"
      using False L assms(6,7) by (auto simp: blob_max_def)
    have a: "take (nat ?n) (drop (nat offset) (bs_content s')) = take (nat ?n) (drop (nat offset) ?c)"
      using n(3) s'(2) by simp
    have b: "take (nat ?n) (drop (nat offset) ?c) = take (nat n) (drop (nat offset) ?c)"
    proof (cases "offset + n \<ge> Blob_new s")
      case True
      then have "length (drop (nat offset) ?c) = nat ?n" "nat ?n \<le> nat n"
        using L False assms(6) by (simp_all add: blob_max_def nat_diff_distrib)
      then show ?thesis by simp
    qed (simp add: blob_max_def)
    from Read_ok [OF s'(1) assms(6) n(1)] False a b assms(5) show ?thesis
      by (auto simp: Blob_Read_def read_result_def)
  qed
qed

lemma blob_reads_snapshot_witness:
  "\<exists>s s' s''. add_all roomy [[1, 2, 3]] ByteStore_new = Some s \<and> add_all roomy [[4], [5]] s = Some s' \<and>
     Blob_Read (Blob_new s) 1 9 s' = Some (2, [2, 3], s'')"
proof -
  have big: "plenty roomy (2 ^ 20)" "kMaxBufferSize \<le> int (2 ^ 20)" by (simp_all add: kMaxBufferSize_def)
  have step: "\<exists>s'. AddData roomy xs s = Some (True, s') \<and> bs_ok s' \<and> no_error s' \<and> \<not> is_finalized s' \<and>
      bs_content s' = bs_content s @ xs" if "bs_ok s" "\<not> is_finalized s" "no_error s" "length xs \<le> 2 ^ 20" for s xs
    using AddData_ok [of roomy s xs "2 ^ 20"] that big by (auto simp: same_flags_def)
  obtain s where s: "AddData roomy [1, 2, 3] ByteStore_new = Some (True, s)" "bs_ok s" "no_error s"
    "\<not> is_finalized s" "bs_content s = [1, 2, 3]"
    using step [of ByteStore_new "[1, 2, 3]"] by auto
  obtain s1 where s1: "AddData roomy [4] s = Some (True, s1)" "bs_ok s1" "no_error s1" "\<not> is_finalized s1"
    using step [of s "[4]"] s by auto
  obtain s2 where s2: "AddData roomy [5] s1 = Some (True, s2)" "no_error s2"
    using step [of s1 "[5]"] s1 by auto
  have r: "add_all roomy [[4], [5]] s = Some s2" using s1(1) s2(1) by simp
  from blob_reads_snapshot [OF roomy_simps(1) s(2,4) r s2(2), of 1 9] s(5) obtain s'' where
    "Blob_Read (Blob_new s) 1 9 s2 = Some (2, [2, 3], s'')" by auto
  with s(1) r show ?thesis by auto
qed

text \<open>
  After a write that found no room, the bytes stored before can no longer be read piece by piece:
  the error mark of the stream stays set, and every read that does not run into the end of the file
  returns -1 (\<open>Truncate\<close> and \<open>Seek\<close> do not clear it, and so does no other function of \<open>File\<close>).
\<close>

theorem failed_write_blocks_reads:
  assumes "allocates m" "bs_ok s" "bs_file s = Some f" "\<not> is_finalized s" "room m (f_writes f) < length xs"
    and "0 \<le> offset" "0 \<le> n" "offset + n \<le> Length s"
  shows "\<exists>s' bs s''. AddData m xs s = Some (False, s') \<and> bs_content s' = bs_content s \<and>
    Read offset n s' = Some (-1, bs, s'')"
proof -
  from AddData_short [OF assms(2,3,4,5)] obtain s' where s': "AddData m xs s = Some (False, s')" "\<not> no_error s'" by blast
  from AddData_ok [OF assms(1,2,4), of xs] obtain r s1 where
    "AddData m xs s = Some (r, s1)" "bs_ok s1" "bs_content s1 = bs_content s @ (if r then xs else [])" by blast
  with s'(1) have ok: "bs_ok s'" "bs_content s' = bs_content s" by auto
  have "int (length (take (nat n) (drop (nat offset) (bs_content s)))) = n"
    using assms(6-8) bs_ok_length [OF assms(2)] by (simp add: Length_def)
  with Read_ok [OF ok(1) assms(6,7)] ok(2) s' show ?thesis by (auto simp: read_result_def)
qed

text \<open>Ten bytes in a file on a full disk.\<close>

definition full_disk :: machine where
  "full_disk = \<lparr>realloc_at = (\<lambda>a n. a + 1), junk = (\<lambda>_. 0), can_create = (\<lambda>_. True), room = (\<lambda>_. 0)\<rparr>"

definition ten_in_file :: ByteStore where
  "ten_in_file = ByteStore_new\<lparr>bs_file := Some \<lparr>f_mode = READ_WRITE, f_path = [], f_data = replicate 10 9, f_pos = 10,
     f_error = False, f_eof = False, f_last = Some WRITE, f_writes = 1\<rparr>, bs_length := 10\<rparr>"

lemma failed_write_blocks_reads_witness:
  "\<exists>s' bs s''. AddData full_disk [1] ten_in_file = Some (False, s') \<and> bs_content s' = bs_content ten_in_file \<and>
     Read 2 3 s' = Some (-1, bs, s'')"
proof -
  have "bs_ok ten_in_file" unfolding bs_ok_def
    by (simp add: ten_in_file_def ByteStore_new_def file_ok_def) (simp add: MemoryBuffer_new_def)
  then show ?thesis
    by (intro failed_write_blocks_reads [of full_disk ten_in_file _ "[1]" 2 3])
      (auto simp: allocates_def full_disk_def ten_in_file_def ByteStore_new_def Length_def)
qed

text \<open>
  The memory that a data element refers to stays valid while data is added: the block keeps its
  address and its first bytes those of the time of the request, whether the added data fits or moves
  to the file, provided that the data never fills the buffer of 1 MB exactly.
\<close>

theorem data_element_stays_valid:
  assumes "allocates m" "plenty m big" "kMaxBufferSize \<le> int big" "bs_ok s" "bs_file s = None"
    and "\<not> is_finalized s" "\<not> preserve_data s" "bs_content s \<noteq> []" "\<forall>d \<in> set ds. length d \<le> big"
    and "\<forall>j. length (bs_content s) + length (concat (take (Suc j) ds)) \<noteq> nat kMaxBufferSize"
  shows "\<exists>e s1 s2. GetDataElement m s = Some (e, s1) \<and> add_all m ds s1 = Some s2 \<and>
    e = ElementBytes (int (mb_at (bs_data s2))) (int (length (bs_content s))) \<and>
    take (length (bs_content s)) (mb_contents (bs_data s2)) = bs_content s"
proof -
  from GetDataElement_ok [OF assms(1,4)] assms(5-8) obtain s1 where
    s1: "GetDataElement m s = Some (ElementBytes (int (mb_at (bs_data s1))) (int (length (bs_content s))), s1)"
    "bs_ok s1" "bs_content s1 = bs_content s" "no_error s1 = no_error s" "\<not> is_finalized s1" "pinned s1"
    "bs_file s1 = None" by auto
  have ne: "no_error s1" using s1(7) by (simp add: no_error_def)
  from add_all_pinned [OF assms(1) s1(2,6,5) _ assms(2,3,9) ne] assms(10) s1(3) obtain s2 more where
    s2: "add_all m ds s1 = Some s2" "mb_at (bs_data s2) = mb_at (bs_data s1)"
    "mb_contents (bs_data s2) = mb_contents (bs_data s1) @ more" by auto
  have "mb_contents (bs_data s1) = bs_content s" using s1(3,7) by (simp add: bs_content_def)
  with s1(1) s2 show ?thesis by simp
qed

text \<open>A store of one byte.\<close>

definition one_byte :: ByteStore where
  "one_byte = ByteStore_new\<lparr>bs_data := \<lparr>mb_capacity = 16, mb_size = 1, mb_bytes = 7 # replicate 15 0, mb_at = 5\<rparr>,
     bs_length := 1\<rparr>"

lemma one_byte_ok: "bs_ok one_byte" "bs_content one_byte = [7]"
proof -
  have "mb_ok (bs_data one_byte)" unfolding mb_ok_def by (auto simp: one_byte_def intro: exI [of _ "0 :: nat"])
  then show "bs_ok one_byte"
    unfolding bs_ok_def using bs_new_ok(1) by (simp add: one_byte_def bs_ok_def kMaxBufferSize_def ByteStore_new_def)
qed (simp add: one_byte_def bs_content_def mb_contents_def ByteStore_new_def)

lemma data_element_stays_valid_witness:
  "\<exists>e s1 s2. GetDataElement roomy one_byte = Some (e, s1) \<and> add_all roomy [[1], [2, 3]] s1 = Some s2 \<and>
     e = ElementBytes (int (mb_at (bs_data s2))) 1 \<and> take 1 (mb_contents (bs_data s2)) = [7]"
proof -
  have j: "length (concat (take (Suc j) [[1], [2, 3 :: byte]])) \<le> 3" for j
    by (cases j) (auto simp: take_Cons')
  have "1 + length (concat (take (Suc j) [[1], [2, 3 :: byte]])) \<noteq> nat kMaxBufferSize" for j
    using j [of j] by (simp add: kMaxBufferSize_def del: take_Suc_Cons)
  moreover have "bs_file one_byte = None" "\<not> is_finalized one_byte" "\<not> preserve_data one_byte"
    by (simp_all add: one_byte_def ByteStore_new_def)
  moreover have "kMaxBufferSize \<le> int (2 ^ 20)" "plenty roomy (2 ^ 20)" by (simp_all add: kMaxBufferSize_def)
  ultimately show ?thesis
    using data_element_stays_valid [of roomy "2 ^ 20" one_byte "[[1], [2, 3]]"] one_byte_ok by simp
qed

text \<open>
  The exception is real: data that fills the buffer exactly goes through \<open>realloc\<close> once more, since
  \<open>Reserve\<close> returns early only for a request below the capacity.
\<close>

lemma exact_fill_reallocates:
  assumes "mb_size b + int (length d) = mb_capacity b" "mb_capacity b = kMaxBufferSize" "mb_ok b" "allocates m"
  shows "\<exists>b'. MemoryBuffer_Append m d b = Some b' \<and> mb_at b' = realloc_at m (mb_at b) kMaxBufferSize"
proof -
  have "double_capacity kMaxBufferSize kMaxBufferSize = Some kMaxBufferSize" by (simp add: double_capacity.simps)
  moreover have "nat (mb_size b) + length d \<le> length (mb_bytes b)"
    using assms(1) mb_ok_size [OF assms(3)] by linarith
  ultimately show ?thesis using assms
    by (simp add: MemoryBuffer_Append_def MemoryBuffer_Reserve_def gInitialCapacity_def kMaxBufferSize_def
        allocates_def Let_def)
qed

text \<open>
  An asynchronous write into memory: the bytes that the writer has stored by the time it reports
  their number are appended, and no more.
\<close>

theorem async_write_appends:
  assumes "allocates m" "bs_ok s" "\<not> is_finalized s" "bs_file s = None"
    and "0 < max_length" "max_length + mb_size (bs_data s) \<le> kMaxBufferSize"
    and "writer 0 max_length = (ASYNC, bytes)" "int (length bytes) \<le> max_length"
    and "0 \<le> len" "len \<le> int (length bytes)"
  shows "\<exists>s1 s2. AddDataDirect m writer max_length s = Some (0, s1) \<and> AddDataDirectFinishAsync m len s1 = Some s2 \<and>
    bs_ok s2 \<and> bs_content s2 = bs_content s @ take (nat len) bytes \<and> Length s2 = Length s + len"
proof -
  have d: "mb_ok (bs_data s)" "async_add_length s = 0" "bs_length s = mb_size (bs_data s)" "file_op s = WRITE"
    "mb_ok (read_buffer s)" "mb_ok (write_buffer s)"
    using assms(2,4) by (auto simp: bs_ok_def)
  let ?o = "mb_size (bs_data s)"
  have o: "0 \<le> ?o" using mb_ok_size [OF d(1)] by simp
  have n: "0 \<le> ?o + max_length" "?o + max_length \<le> 2 ^ 62" using o assms(5,6) by (auto simp: kMaxBufferSize_def)
  from MemoryBuffer_Resize_ok [OF assms(1) d(1) n] obtain b where b:
    "MemoryBuffer_Resize m (?o + max_length) (bs_data s) = Some b" "mb_ok b" "mb_size b = ?o + max_length"
    "take (length (mb_bytes (bs_data s))) (mb_bytes b) = mb_bytes (bs_data s)" by blast
  have fits: "nat ?o + length bytes \<le> length (mb_bytes b)" using mb_ok_size [OF b(2)] b(3) assms(8) o by linarith
  let ?mem = "take (nat ?o) (mb_bytes b) @ bytes @ drop (nat ?o + length bytes) (mb_bytes b)"
  let ?b1 = "b\<lparr>mb_bytes := ?mem\<rparr>"
  let ?s1 = "s\<lparr>bs_data := ?b1, async_add_length := max_length\<rparr>"
  have b1: "mb_ok ?b1" using b(2) fits by (simp add: mb_ok_def)
  have "direct_memory_loop writer 0 ?o max_length 0 (s\<lparr>bs_data := b\<rparr>) = Some (True, 0, ?o, ?s1)"
    using assms(5,7) b(3) o fits by (simp add: direct_memory_loop.simps [of writer 0 ?o] MemoryBuffer_Data_def Let_def)
  then have add: "AddDataDirect m writer max_length s = Some (0, ?s1)"
    using assms(3-6) d(2) b(1) by (simp add: AddDataDirect_def IsUsingData_def IsUsingFile_def Let_def)
  have n2: "0 \<le> ?o + len" "?o + len \<le> 2 ^ 62" using n(2) o assms(8,9,10) by simp_all
  from MemoryBuffer_Resize_ok [OF assms(1) b1 n2] obtain b2 where b2:
    "MemoryBuffer_Resize m (?o + len) ?b1 = Some b2" "mb_ok b2" "mb_size b2 = ?o + len"
    "take (length ?mem) (mb_bytes b2) = ?mem" by auto
  let ?s2 = "s\<lparr>bs_data := b2, bs_length := bs_length s + len, async_add_length := 0\<rparr>"
  have "AddDataDirectFinishAsync m len ?s1 = Some ?s2"
  proof -
    have r: "MemoryBuffer_Resize m (mb_size b - (max_length - len)) ?b1 = Some b2" using b(3) b2(1) by simp
    have "len \<le> max_length" using assms(8,10) by simp
    with assms(3,4,5) show ?thesis
      unfolding AddDataDirectFinishAsync_def IsUsingData_def IsUsingFile_def using r by simp
  qed
  moreover have "mb_contents b2 = mb_contents (bs_data s) @ take (nat len) bytes"
  proof -
    have nn: "nat (?o + len) = nat ?o + nat len" using o assms(9) by linarith
    have k: "nat len \<le> length bytes" using assms(10) by linarith
    then have "nat ?o + nat len \<le> length ?mem" using fits by simp
    then have "take (nat ?o + nat len) (mb_bytes b2) = take (nat ?o + nat len) ?mem"
      by (rule take_of_prefix [OF b2(4)])
    also have "\<dots> = take (nat ?o) (mb_bytes b) @ take (nat len) bytes"
      using fits k by simp
    also have "take (nat ?o) (mb_bytes b) = take (nat ?o) (mb_bytes (bs_data s))"
    proof -
      have "nat ?o \<le> length (mb_bytes (bs_data s))" using mb_ok_size [OF d(1)] by linarith
      then show ?thesis by (rule take_of_prefix [OF b(4)])
    qed
    finally show ?thesis using b2(3) nn by (simp add: mb_contents_def)
  qed
  then have "bs_content ?s2 = bs_content s @ take (nat len) bytes" using assms(4) by (simp add: bs_content_def)
  moreover have "bs_ok ?s2" unfolding bs_ok_def using assms(4,6,8,10) d b2(2,3) by simp
  ultimately show ?thesis using add by (intro exI [of _ ?s1] exI [of _ ?s2]) (simp add: Length_def)
qed

lemma async_write_appends_witness:
  "\<exists>s1 s2. AddDataDirect roomy (\<lambda>n k. (ASYNC, [1, 2, 3])) 8 one_byte = Some (0, s1) \<and>
     AddDataDirectFinishAsync roomy 2 s1 = Some s2 \<and> bs_content s2 = [7, 1, 2]"
proof -
  have "\<not> is_finalized one_byte" "bs_file one_byte = None" "8 + mb_size (bs_data one_byte) \<le> kMaxBufferSize"
    by (simp_all add: one_byte_def ByteStore_new_def kMaxBufferSize_def)
  from async_write_appends [OF roomy_simps(1) one_byte_ok(1) this(1,2) _ this(3), of "\<lambda>n k. (ASYNC, [1, 2, 3])" "[1, 2, 3]" 2]
  show ?thesis by (auto simp: one_byte_ok)
qed

text \<open>
  An asynchronous write that is too large for the memory while the file cannot be created
  damages the store: \<open>AddDataDirect\<close> ignores the failure, and the end of the write then takes
  bytes away from the data that was in memory, while the length grows.
\<close>

theorem async_write_loses_data:
  assumes "allocates m" "bs_ok s" "\<not> is_finalized s" "bs_file s = None" "\<not> can_create m (creates s)"
    and "0 < max_length" "max_length \<le> kMaxBufferSize" "kMaxBufferSize < max_length + mb_size (bs_data s)"
    and "writer 0 max_length = (ASYNC, bytes)" "int (length bytes) \<le> max_length"
    and "0 \<le> len" "len \<le> max_length" "max_length - len \<le> Length s"
  shows "\<exists>s1 s2. AddDataDirect m writer max_length s = Some (0, s1) \<and> AddDataDirectFinishAsync m len s1 = Some s2 \<and>
    bs_content s2 = take (nat (Length s - (max_length - len))) (bs_content s) \<and> Length s2 = Length s + len"
proof -
  have d: "mb_ok (bs_data s)" "async_add_length s = 0" "bs_length s = mb_size (bs_data s)" "mb_ok (write_buffer s)"
    using assms(2,4) by (auto simp: bs_ok_def)
  have n: "0 \<le> max_length" "max_length \<le> 2 ^ 62" using assms(6,7) by (auto simp: kMaxBufferSize_def)
  obtain w where w: "(if mb_size (write_buffer s) < max_length then MemoryBuffer_Resize m max_length (write_buffer s)
      else Some (write_buffer s)) = Some w" "mb_ok w" "max_length \<le> mb_size w"
    using MemoryBuffer_Resize_ok [OF assms(1) d(4) n] d(4) by (cases "mb_size (write_buffer s) < max_length") auto
  have fits: "length bytes \<le> length (mb_bytes w)" using mb_ok_size [OF w(2)] w(3) assms(10) by linarith
  let ?w = "w\<lparr>mb_bytes := bytes @ drop (length bytes) (mb_bytes w)\<rparr>"
  let ?s1 = "s\<lparr>write_buffer := ?w, creates := creates s + 1, async_add_length := max_length\<rparr>"
  have "direct_file_loop m writer 0 max_length max_length 0 (s\<lparr>write_buffer := w\<rparr>) = Some (0, ?s1)"
    using assms(4,5,6,9) w(3) fits
    by (simp add: direct_file_loop.simps [of m writer 0] MemoryBuffer_Data_def Let_def AddDataToFile_def create_file_def
        File_CreateNewTempFile_def)
  moreover have "AddDataDirect m writer max_length s = direct_file_loop m writer 0 max_length max_length 0 (s\<lparr>write_buffer := w\<rparr>)"
    unfolding AddDataDirect_def using assms(3,4,6,7,8) d(2) w(1) by (auto simp: Let_def min_def)
  ultimately have add: "AddDataDirect m writer max_length s = Some (0, ?s1)" by simp
  let ?n = "mb_size (bs_data s) - (max_length - len)"
  have nn: "0 \<le> ?n" "?n \<le> mb_size (bs_data s)" "?n \<le> 2 ^ 62"
    using assms(2,4,12,13) d(3) by (auto simp: Length_def bs_ok_def kMaxBufferSize_def)
  from MemoryBuffer_Resize_ok [OF assms(1) d(1) nn(1,3)] obtain b where b:
    "MemoryBuffer_Resize m ?n (bs_data s) = Some b" "mb_size b = ?n"
    "take (length (mb_bytes (bs_data s))) (mb_bytes b) = mb_bytes (bs_data s)" by blast
  let ?s2 = "?s1\<lparr>bs_data := b, bs_length := bs_length s + len, async_add_length := 0\<rparr>"
  have "AddDataDirectFinishAsync m len ?s1 = Some ?s2"
    using assms(3,4,6,12) b(1) by (simp add: AddDataDirectFinishAsync_def IsUsingData_def IsUsingFile_def)
  moreover have "mb_contents b = take (nat ?n) (mb_contents (bs_data s))"
  proof -
    have "nat ?n \<le> length (mb_bytes (bs_data s))" using nn(2) mb_ok_size [OF d(1)] by linarith
    then have "take (nat ?n) (mb_bytes b) = take (nat ?n) (mb_bytes (bs_data s))"
      by (rule take_of_prefix [OF b(3)])
    with b(2) nn(2) show ?thesis by (simp add: mb_contents_def min_absorb1)
  qed
  ultimately show ?thesis using add assms(4) d(3)
    by (intro exI [of _ ?s1] exI [of _ ?s2]) (simp add: Length_def bs_content_def)
qed

lemma async_write_loses_data_witness:
  "\<exists>s1 s2. AddDataDirect (full_disk\<lparr>can_create := \<lambda>_. False\<rparr>) (\<lambda>n k. (ASYNC, [])) kMaxBufferSize one_byte = Some (0, s1) \<and>
     AddDataDirectFinishAsync (full_disk\<lparr>can_create := \<lambda>_. False\<rparr>) (kMaxBufferSize - 1) s1 = Some s2 \<and>
     bs_content s2 = [] \<and> Length s2 = kMaxBufferSize"
proof -
  let ?m = "full_disk\<lparr>can_create := \<lambda>_. False\<rparr>"
  have s: "\<not> is_finalized one_byte" "bs_file one_byte = None" "mb_size (bs_data one_byte) = 1" "Length one_byte = 1"
    by (simp_all add: one_byte_def ByteStore_new_def Length_def)
  have m: "allocates ?m" "\<not> can_create ?m (creates one_byte)" by (simp_all add: allocates_def full_disk_def)
  have k: "0 < kMaxBufferSize" "kMaxBufferSize \<le> kMaxBufferSize" "kMaxBufferSize < kMaxBufferSize + mb_size (bs_data one_byte)"
    using s(3) by (simp_all add: kMaxBufferSize_def)
  have l: "0 \<le> kMaxBufferSize - 1" "kMaxBufferSize - 1 \<le> kMaxBufferSize" "kMaxBufferSize - (kMaxBufferSize - 1) \<le> Length one_byte"
    using s(4) by (simp_all add: kMaxBufferSize_def)
  have w: "(\<lambda>n k. (ASYNC, [])) 0 kMaxBufferSize = (ASYNC, [] :: byte list)" "int (length ([] :: byte list)) \<le> kMaxBufferSize"
    by (simp_all add: kMaxBufferSize_def)
  from async_write_loses_data [OF m(1) one_byte_ok(1) s(1,2) m(2) k w l] s(4) show ?thesis by simp
qed

end
