(* ===== verification/UrlUtils.thy ===== *)
theory UrlUtils
  imports StringUtils
begin

text \<open>
  The URL functions of \<open>src/common/url_utils.cc\<close> and the Base64 functions of
  \<open>src/common/base64.cc\<close>. A \<open>char\<close> is its signed value, as in the string functions. The library
  functions \<open>modp_b64_encode\<close> and \<open>modp_b64_decode\<close>, the class \<open>GURL\<close> and
  \<open>url_parse::ExtractQueryKeyValue\<close>, which are not part of the sources, are parameters.
\<close>

section \<open>Operations\<close>

text \<open>A literal, and the \<open>char\<close> of an \<open>int\<close>.\<close>

definition units :: "string \<Rightarrow> str" where
  "units s = map of_char s"

definition to_char :: "int \<Rightarrow> int" where
  "to_char v = (v + 128) mod 256 - 128"

subsection \<open>Base64\<close>

text \<open>
  The library functions return a size, negative for an error, and fill a buffer that is large enough
  for it.
\<close>

type_synonym modp = "str \<Rightarrow> int \<times> str"

definition base64_run :: "modp \<Rightarrow> str \<Rightarrow> str \<Rightarrow> bool \<times> str" where
  "base64_run modp input out =
     (let (output_size, temp) = modp input
      in if output_size < 0 then (False, out) else (True, take (nat output_size) temp))"

definition Base64Encode :: "modp \<Rightarrow> str \<Rightarrow> str \<Rightarrow> bool \<times> str" where
  "Base64Encode modp_b64_encode input out = base64_run modp_b64_encode input out"

definition Base64Encode_vector :: "modp \<Rightarrow> str \<Rightarrow> str \<Rightarrow> bool \<times> str" where
  "Base64Encode_vector modp_b64_encode input out = base64_run modp_b64_encode input out"

definition Base64Decode :: "modp \<Rightarrow> str \<Rightarrow> str \<Rightarrow> bool \<times> str" where
  "Base64Decode modp_b64_decode input out = base64_run modp_b64_decode input out"

definition char_units :: "byte list \<Rightarrow> str" where
  "char_units bs = map (\<lambda>b. to_char (uint b)) bs"

definition Base64Decode_string16 :: "modp \<Rightarrow> str \<Rightarrow> str \<Rightarrow> bool \<times> str" where
  "Base64Decode_string16 modp_b64_decode input out =
     base64_run modp_b64_decode (char_units (String16ToUTF8_or_empty (map word_of_int input))) out"

subsection \<open>Classification\<close>

definition is_alpha :: "int \<Rightarrow> bool" where
  "is_alpha c \<longleftrightarrow> (c \<ge> 97 \<and> c \<le> 122) \<or> (c \<ge> 65 \<and> c \<le> 90)"

definition is_scheme_char :: "int \<Rightarrow> bool" where
  "is_scheme_char c \<longleftrightarrow> (c \<ge> 97 \<and> c \<le> 122) \<or> (c \<ge> 65 \<and> c \<le> 90) \<or> (c \<ge> 48 \<and> c \<le> 57) \<or> c = 43 \<or> c = 46 \<or> c = 45"

fun skip_scheme :: "str \<Rightarrow> str" where
  "skip_scheme [] = []"
| "skip_scheme (c # s) = (if is_scheme_char c then skip_scheme s else c # s)"

definition IsRelativeUrl :: "bool \<Rightarrow> str \<Rightarrow> bool" where
  "IsRelativeUrl gurl_initialized url =
     (if is_alpha (deref url) \<and> deref (skip_scheme (tl url)) = 58 then False
      else True \<and> gurl_initialized)"

definition IsDataUrl :: "str \<Rightarrow> bool" where
  "IsDataUrl url = (take 5 url = units ''data:'')"

subsection \<open>Unescaping\<close>

text \<open>\<open>conv\<close> is the conversion to the unit of the string.\<close>

function unescape_loop :: "(int \<Rightarrow> int) \<Rightarrow> bool \<Rightarrow> str \<Rightarrow> str option" where
  "unescape_loop conv replace_plus s =
     (case s of
        [] \<Rightarrow> Some []
      | c # r \<Rightarrow>
          if c = 37 \<and> length r \<ge> 2 then
            if IsHex (r ! 0) \<and> IsHex (r ! 1) then do {
              h \<leftarrow> HexToInt (r ! 0);
              l \<leftarrow> HexToInt (r ! 1);
              t \<leftarrow> unescape_loop conv replace_plus (drop 2 r);
              Some (conv (h * 16 + l) # t) }
            else do { t \<leftarrow> unescape_loop conv replace_plus r; Some (37 # t) }
          else if replace_plus \<and> c = 43 then do { t \<leftarrow> unescape_loop conv replace_plus r; Some (32 # t) }
          else do { t \<leftarrow> unescape_loop conv replace_plus r; Some (c # t) })"
  by pat_completeness auto
termination by (relation "measure (\<lambda>(conv, replace_plus, s). length s)") auto

declare unescape_loop.simps [simp del]

definition UnescapeURLImpl :: "(int \<Rightarrow> int) \<Rightarrow> str \<Rightarrow> bool \<Rightarrow> str option" where
  "UnescapeURLImpl conv escaped_text replace_plus =
     (if length escaped_text < 3 \<and> \<not> replace_plus then Some escaped_text
      else unescape_loop conv replace_plus escaped_text)"

definition UnescapeURL :: "str \<Rightarrow> str option" where
  "UnescapeURL escaped_text = UnescapeURLImpl to_char escaped_text False"

definition UnescapeURL16 :: "str \<Rightarrow> str option" where
  "UnescapeURL16 escaped_text = UnescapeURLImpl (\<lambda>v. v) escaped_text False"

subsection \<open>Escaping\<close>

definition ESCAPE_DIRECTORY :: uint32 where "ESCAPE_DIRECTORY = 16"
definition ESCAPE_FORCED :: uint32 where "ESCAPE_FORCED = 1024"
definition ESCAPE_ONLYASCII :: uint32 where "ESCAPE_ONLYASCII = 2048"
definition ESCAPE_ONLYNONASCII :: uint32 where "ESCAPE_ONLYNONASCII = 4096"
definition ESCAPE_COLON :: uint32 where "ESCAPE_COLON = 16384"

text \<open>The rows of the matrix; the entries that are not written are 0.\<close>

definition escape_chars :: "uint32 list" where
  "escape_chars =
     replicate 32 0 @
     [0, 1023, 0, 512, 1023, 0, 1023, 1023, 1023, 1023, 1023, 1023, 1023, 1023, 953, 784] @
     [1023, 1023, 1023, 1023, 1023, 1023, 1023, 1023, 1023, 1023, 1008, 912, 0, 1008, 0, 768] @
     1008 # replicate 15 1023 @
     replicate 11 1023 @ [896, 896, 896, 896, 1023] @
     0 # replicate 15 1023 @
     replicate 11 1023 @ [896, 1012, 896, 1023, 0] @
     replicate 128 0"

definition no_need_esc :: "int \<Rightarrow> uint32 \<Rightarrow> bool" where
  "no_need_esc c flags = (and (escape_chars ! nat c) flags \<noteq> 0)"

definition hex_chars :: str where
  "hex_chars = units ''0123456789ABCDEF''"

text \<open>What is written for the unsigned character \<open>c\<close>.\<close>

definition escape_unit :: "uint32 \<Rightarrow> bool \<Rightarrow> int \<Rightarrow> str" where
  "escape_unit flags previous_is_non_ascii c =
     (let forced = (and flags ESCAPE_FORCED \<noteq> 0);
          ignore_non_ascii = (and flags ESCAPE_ONLYASCII \<noteq> 0);
          ignore_ascii = (and flags ESCAPE_ONLYNONASCII \<noteq> 0);
          colon = (and flags ESCAPE_COLON \<noteq> 0)
      in if (no_need_esc c flags \<or> (c = 37 \<and> \<not> forced) \<or> (c > 0x7f \<and> ignore_non_ascii)
             \<or> (c > 0x1f \<and> c < 0x7f \<and> ignore_ascii))
            \<and> \<not> (c = 58 \<and> colon)
            \<and> \<not> (previous_is_non_ascii \<and> c = 124 \<and> \<not> ignore_non_ascii)
         then [to_char c]
         else [37, hex_chars ! nat (c div 16), hex_chars ! nat (c mod 16)])"

text \<open>The loop, with the buffer of 100 characters that is flushed before it can overflow.\<close>

fun escape_loop :: "uint32 \<Rightarrow> str \<Rightarrow> bool \<Rightarrow> str \<Rightarrow> nat \<Rightarrow> str \<Rightarrow> str option" where
  "escape_loop flags [] previous_is_non_ascii temp_buffer temp_buffer_pos result = do {
     buffer1 \<leftarrow> store temp_buffer temp_buffer_pos [0];
     Some (result @ c_str buffer1) }"
| "escape_loop flags (x # source) previous_is_non_ascii temp_buffer temp_buffer_pos result = do {
     let c = x mod 256;
     let us = escape_unit flags previous_is_non_ascii c;
     buffer1 \<leftarrow> store temp_buffer temp_buffer_pos us;
     let pos1 = temp_buffer_pos + length us;
     if pos1 \<ge> length temp_buffer - 4 then do {
       buffer2 \<leftarrow> store buffer1 pos1 [0];
       escape_loop flags source (c > 0x7f) buffer2 0 (result @ c_str buffer2) }
     else escape_loop flags source (c > 0x7f) buffer1 pos1 result }"

text \<open>The buffer is not initialised: its contents are a parameter.\<close>

definition EscapeUrl :: "str \<Rightarrow> str \<Rightarrow> uint32 \<Rightarrow> str option" where
  "EscapeUrl temp_buffer source flags = escape_loop flags source False temp_buffer 0 []"

definition EscapeUrl16 :: "str \<Rightarrow> str \<Rightarrow> uint32 \<Rightarrow> str option" where
  "EscapeUrl16 temp_buffer source flags = do {
     r \<leftarrow> EscapeUrl temp_buffer (char_units (String16ToUTF8_or_empty (map word_of_int source))) flags;
     Some (map uint (UTF8ToString16_or_empty (map word_of_int r))) }"

subsection \<open>Paths\<close>

partial_function (option) backslash_loop :: "str \<Rightarrow> nat option \<Rightarrow> str option" where
  "backslash_loop result loc =
     (case loc of
        None \<Rightarrow> Some result
      | Some l \<Rightarrow> backslash_loop (string_replace result l 1 [47])
                   (string_find (string_replace result l 1 [47]) [92] (l + 1)))"

partial_function (option) semicolon_loop :: "str \<Rightarrow> nat option \<Rightarrow> str option" where
  "semicolon_loop result loc =
     (case loc of
        None \<Rightarrow> Some result
      | Some l \<Rightarrow> semicolon_loop (string_replace result l 1 [37, 51, 66])
                   (string_find (string_replace result l 1 [37, 51, 66]) [92] (l + 1)))"

definition UTF8PathToUrl :: "str \<Rightarrow> str \<Rightarrow> bool \<Rightarrow> str option" where
  "UTF8PathToUrl temp_buffer path directory = do {
     let result = units ''file:///'' @ path;
     result1 \<leftarrow> backslash_loop result (string_find result [92] 0);
     result2 \<leftarrow> EscapeUrl temp_buffer result1 (or ESCAPE_DIRECTORY ESCAPE_FORCED);
     result3 \<leftarrow> semicolon_loop result2 (string_find result2 [59] 0);
     if directory \<and> last result3 \<noteq> 47 then Some (result3 @ [47]) else Some result3 }"

subsection \<open>Data URLs\<close>

text \<open>\<open>std::find\<close> and \<open>std::search\<close> between two positions; the second is the result when nothing is found.\<close>

definition find_unit :: "str \<Rightarrow> int \<Rightarrow> nat \<Rightarrow> nat \<Rightarrow> nat" where
  "find_unit s c first fin = (case string_find (take fin s) [c] first of None \<Rightarrow> fin | Some i \<Rightarrow> i)"

definition search_units :: "str \<Rightarrow> str \<Rightarrow> nat \<Rightarrow> nat \<Rightarrow> nat" where
  "search_units s pat first fin = (case string_find (take fin s) pat first of None \<Rightarrow> fin | Some i \<Rightarrow> i)"

definition unit_range :: "str \<Rightarrow> nat \<Rightarrow> nat \<Rightarrow> str" where
  "unit_range s first fin = drop first (take fin s)"

text \<open>The MIME type and the character set, from the part between the colon and the comma.\<close>

definition data_url_type :: "str \<Rightarrow> nat \<Rightarrow> nat \<Rightarrow> str \<Rightarrow> str \<Rightarrow> str \<times> str" where
  "data_url_type url after_colon comma mime_type charset =
     (if comma \<noteq> after_colon
      then let semi_colon = find_unit url 59 after_colon comma;
               mime_type1 = (if semi_colon \<noteq> after_colon then LowerString (unit_range url after_colon semi_colon) else mime_type);
               charset1 = (if semi_colon \<noteq> comma
                  then let it = search_units url (units ''charset='') (semi_colon + 1) comma
                       in if it \<noteq> comma then unit_range url (it + 8) comma else charset
                  else charset)
           in (mime_type1, charset1)
      else (mime_type, charset))"

definition ParseDataUrl ::
    "modp \<Rightarrow> str \<Rightarrow> str \<Rightarrow> str \<Rightarrow> str \<Rightarrow> (bool \<times> str \<times> str \<times> str) option" where
  "ParseDataUrl modp_b64_decode url mime_type charset data =
     (let url_end = length url; colon = find_unit url 58 0 url_end
      in if colon = url_end then Some (False, mime_type, charset, data)
      else let after_colon = colon + 1; comma = find_unit url 44 after_colon url_end
      in if comma = url_end then Some (False, mime_type, charset, data)
      else let base64_encoded = (search_units url (units '';base64'') after_colon comma \<noteq> comma);
               (mime_type1, charset1) = data_url_type url after_colon comma mime_type charset;
               mime_type2 = (if mime_type1 = [] then units ''text/plain'' else mime_type1);
               charset2 = (if charset1 = [] then units ''US-ASCII'' else charset1);
               (ok, temp_data) = String16ToUTF8_cstr (map word_of_int (unit_range url (comma + 1) url_end))
      in if \<not> ok then Some (False, mime_type2, charset2, data)
      else do {
        temp_data1 \<leftarrow> UnescapeURL (char_units temp_data);
        let temp_data2 = (if base64_encoded \<or>
              \<not> (take 5 mime_type2 = units ''text/'' \<or> string_find mime_type2 (units ''xml'') 0 \<noteq> None)
            then filter (\<lambda>c. \<not> isspace c) temp_data1 else temp_data1);
        if base64_encoded
        then let (r, data1) = Base64Decode modp_b64_decode temp_data2 data in Some (r, mime_type2, charset2, data1)
        else Some (True, mime_type2, charset2, temp_data2) })"

subsection \<open>GURL\<close>

record 'u gurl =
  gurl_new :: "str \<Rightarrow> 'u"
  gurl_is_valid :: "'u \<Rightarrow> bool"
  gurl_resolve :: "'u \<Rightarrow> str \<Rightarrow> 'u"
  gurl_strip_ref :: "'u \<Rightarrow> 'u"
  gurl_spec :: "'u \<Rightarrow> byte list"

definition ResolveAndNormalize :: "'u gurl \<Rightarrow> str option \<Rightarrow> str \<Rightarrow> str \<Rightarrow> bool \<times> str" where
  "ResolveAndNormalize G base url out =
     (case (case base of
              Some b \<Rightarrow> if gurl_is_valid G (gurl_new G b) then Some (gurl_resolve G (gurl_new G b) url) else None
            | None \<Rightarrow> Some (gurl_new G url)) of
        None \<Rightarrow> (False, out)
      | Some g \<Rightarrow>
          if \<not> gurl_is_valid G g then (False, out)
          else let (ok, r) = UTF8ToString16 (gurl_spec G (gurl_strip_ref G g))
               in if \<not> ok then (False, map uint r) else (True, map uint r))"

text \<open>
  A component of a URL is its begin and length. The loop of \<open>ParseUrlQuery\<close> ends when
  \<open>ExtractQueryKeyValue\<close> finds no more, else it goes on with the query that is left.
\<close>

type_synonym component = "nat \<times> int"
type_synonym extractor = "str \<Rightarrow> component \<Rightarrow> (component \<times> component \<times> component) option"

definition component_str :: "str \<Rightarrow> component \<Rightarrow> str" where
  "component_str s c = take (nat (snd c)) (drop (fst c) s)"

partial_function (option) parse_query_loop ::
    "extractor \<Rightarrow> str \<Rightarrow> component \<Rightarrow> (str \<times> str) list \<Rightarrow> (str \<times> str) list option" where
  "parse_query_loop next_pair query_string query arguments =
     (case next_pair query_string query of
        None \<Rightarrow> Some arguments
      | Some (query1, key, val) \<Rightarrow>
          if snd key > 0 then do {
            key_str \<leftarrow> UnescapeURLImpl (\<lambda>v. v) (component_str query_string key) True;
            value_str \<leftarrow> (if snd val > 0 then UnescapeURLImpl (\<lambda>v. v) (component_str query_string val) True else Some []);
            parse_query_loop next_pair query_string query1 (arguments @ [(key_str, value_str)]) }
          else parse_query_loop next_pair query_string query1 arguments)"

definition ParseUrlQuery :: "extractor \<Rightarrow> str \<Rightarrow> (str \<times> str) list option" where
  "ParseUrlQuery next_pair query_string = do {
     assert_that (deref query_string \<noteq> 63);
     parse_query_loop next_pair query_string (0, int (length (c_str query_string))) [] }"

section \<open>Relative URLs\<close>

lemma skip_scheme_split: "s = takeWhile is_scheme_char s @ skip_scheme s"
  by (induction s) auto

lemma skip_scheme_dropWhile: "skip_scheme s = dropWhile is_scheme_char s"
  by (induction s) auto

lemma colon_not_scheme [simp]: "\<not> is_scheme_char 58" "\<not> is_alpha 0"
  by (simp_all add: is_scheme_char_def is_alpha_def)

text \<open>An absolute URL begins with a scheme, a letter and scheme characters, and a colon.\<close>

definition has_scheme :: "str \<Rightarrow> bool" where
  "has_scheme url \<longleftrightarrow> (\<exists>c scheme rest. url = c # scheme @ 58 # rest \<and> is_alpha c \<and> (\<forall>x\<in>set scheme. is_scheme_char x))"

lemma IsRelativeUrl_iff: "IsRelativeUrl True url \<longleftrightarrow> \<not> has_scheme url"
proof -
  have "is_alpha (deref url) \<and> deref (skip_scheme (tl url)) = 58 \<longleftrightarrow> has_scheme url"
  proof
    assume a: "is_alpha (deref url) \<and> deref (skip_scheme (tl url)) = 58"
    then obtain c s where url: "url = c # s" by (cases url) (auto simp: deref_def)
    from a url obtain rest where "skip_scheme s = 58 # rest" by (auto simp: deref_def split: list.splits)
    with skip_scheme_split [of s] url a show "has_scheme url"
      unfolding has_scheme_def by (intro exI [of _ c] exI [of _ "takeWhile is_scheme_char s"] exI [of _ rest])
        (auto dest: set_takeWhileD)
  next
    assume "has_scheme url"
    then obtain c scheme rest where "url = c # scheme @ 58 # rest" "is_alpha c" "\<forall>x\<in>set scheme. is_scheme_char x"
      by (auto simp: has_scheme_def)
    then show "is_alpha (deref url) \<and> deref (skip_scheme (tl url)) = 58"
      by (simp add: skip_scheme_dropWhile dropWhile_append3)
  qed
  then show ?thesis by (simp add: IsRelativeUrl_def)
qed

section \<open>Escaping and unescaping\<close>

text \<open>What the loop writes, without the buffer.\<close>

fun escaped :: "uint32 \<Rightarrow> bool \<Rightarrow> str \<Rightarrow> str" where
  "escaped flags prev [] = []"
| "escaped flags prev (x # source) = escape_unit flags prev (x mod 256) @ escaped flags (x mod 256 > 0x7f) source"

lemma hex_chars_kHexString: "hex_chars = kHexString"
  by (simp add: hex_chars_def units_def kHexString_def)

lemma escape_chars_length [simp]: "length escape_chars = 256"
  by (simp add: escape_chars_def)

lemma nul_needs_esc [simp]: "\<not> no_need_esc 0 flags"
  by (simp add: no_need_esc_def escape_chars_def numeral_eq_Suc)

lemma hex_digit:
  assumes "0 \<le> n" "n < 16"
  shows "IsHex (hex_chars ! nat n)" "HexToInt (hex_chars ! nat n) = Some n" "hex_chars ! nat n \<noteq> 0"
    "hex_chars ! nat n \<noteq> 59"
proof -
  have "hex_chars ! nat n = (if n < 10 then 48 + n else 55 + n)"
    using assms kHexString_nth [of "nat n"] by (auto simp: hex_chars_kHexString)
  with assms show "IsHex (hex_chars ! nat n)" "HexToInt (hex_chars ! nat n) = Some n" "hex_chars ! nat n \<noteq> 0"
    "hex_chars ! nat n \<noteq> 59" by (auto simp: IsHex_def HexToInt_def)
qed

lemma to_char_mod: "- 128 \<le> x \<Longrightarrow> x < 128 \<Longrightarrow> to_char (x mod 256) = x"
  by (simp add: to_char_def mod_add_left_eq)

lemma to_char_byte:
  assumes "0 \<le> c" "c < 256"
  shows "to_char c = (if c < 128 then c else c - 256)"
proof (cases "c < 128")
  case True
  with assms(1) show ?thesis by (simp add: to_char_def)
next
  case False
  have "(c + 128) mod 256 = (c - 128) mod 256" using mod_add_self2 [of "c - 128" 256] by (simp add: add.commute)
  also have "\<dots> = c - 128" using False assms(2) by simp
  finally show ?thesis using False by (simp add: to_char_def)
qed

lemma to_char_zero: "0 \<le> c \<Longrightarrow> c < 256 \<Longrightarrow> to_char c = 0 \<longleftrightarrow> c = 0"
  by (simp add: to_char_byte)

lemma mod_256: "0 \<le> x mod (256 :: int)" "x mod 256 < (256 :: int)"
  by simp_all

lemma escape_unit_cases:
  "escape_unit flags prev c = [to_char c] \<or>
   escape_unit flags prev c = [37, hex_chars ! nat (c div 16), hex_chars ! nat (c mod 16)]"
  by (simp add: escape_unit_def Let_def)

lemma escape_unit_shape:
  assumes "0 \<le> c" "c < 256"
  shows "length (escape_unit flags prev c) \<le> 3 \<and> 0 \<notin> set (escape_unit flags prev c) \<and> escape_unit flags prev c \<noteq> []"
proof -
  have "c div 16 < 16" "0 \<le> c div 16" "c mod 16 < 16" "0 \<le> c mod 16" using assms by presburger+
  then have h: "hex_chars ! nat (c div 16) \<noteq> 0" "hex_chars ! nat (c mod 16) \<noteq> 0" using hex_digit by auto
  show ?thesis
  proof (cases "c = 0")
    case True
    with h show ?thesis by (simp add: escape_unit_def Let_def)
  next
    case False
    with h to_char_zero [OF assms] show ?thesis by (simp add: escape_unit_def Let_def)
  qed
qed

lemma c_str_prefix: "0 \<notin> set xs \<Longrightarrow> c_str (xs @ 0 # ys) = xs"
  by (simp add: c_str_def takeWhile_tail) (induction xs, auto)

text \<open>The buffer never overflows, and the loop writes exactly that.\<close>

lemma escape_loop_eq:
  "length buffer = 100 \<Longrightarrow> pos \<le> 95 \<Longrightarrow> 0 \<notin> set (take pos buffer) \<Longrightarrow>
     escape_loop flags source prev buffer pos result = Some (result @ take pos buffer @ escaped flags prev source)"
proof (induction source arbitrary: prev buffer pos result)
  case Nil
  then show ?case by (simp add: c_str_prefix)
next
  case (Cons x source)
  let ?us = "escape_unit flags prev (x mod 256)"
  let ?pos = "pos + length ?us"
  let ?b1 = "take pos buffer @ ?us @ drop ?pos buffer"
  note us = escape_unit_shape [OF mod_256, of flags prev x]
  have fits: "?pos \<le> 98" using us Cons.prems(2) by linarith
  have b1: "length ?b1 = 100" "take ?pos ?b1 = take pos buffer @ ?us" "0 \<notin> set (take ?pos ?b1)"
    "store buffer pos ?us = Some ?b1"
    using fits Cons.prems us by auto
  show ?case
  proof (cases "?pos \<ge> 96")
    case True
    let ?b2 = "take ?pos ?b1 @ [0] @ drop (?pos + 1) ?b1"
    have st: "store ?b1 ?pos [0] = Some ?b2" using fits b1(1) by simp
    have "length ?b2 = 100" using fits b1(1) by simp
    from Cons.IH [OF this, of 0] have "escape_loop flags source (x mod 256 > 0x7f) ?b2 0 (result @ c_str ?b2) =
        Some (result @ c_str ?b2 @ escaped flags (x mod 256 > 0x7f) source)" by simp
    moreover have "c_str ?b2 = take pos buffer @ ?us"
      unfolding append.simps using c_str_prefix [OF b1(3)] b1(2) by simp
    ultimately show ?thesis using True b1(4) st Cons.prems(1) by (simp add: Let_def del: store_Some)
  next
    case False
    then have "?pos \<le> 95" by simp
    from Cons.IH [OF b1(1) this b1(3)] b1(2,4) False Cons.prems(1) show ?thesis
      by (simp add: Let_def del: store_Some)
  qed
qed

lemma EscapeUrl_eq: "length temp_buffer = 100 \<Longrightarrow> EscapeUrl temp_buffer source flags = Some (escaped flags False source)"
  by (simp add: EscapeUrl_def escape_loop_eq)

text \<open>Unescaping, step by step.\<close>

lemma unescape_Nil [simp]: "unescape_loop conv replace [] = Some []"
  by (subst unescape_loop.simps) simp

lemma unescape_copy: "c \<noteq> 37 \<Longrightarrow> \<not> (replace \<and> c = 43) \<Longrightarrow>
    unescape_loop conv replace (c # r) = map_option ((#) c) (unescape_loop conv replace r)"
  by (subst unescape_loop.simps) (cases "unescape_loop conv replace r"; auto)

lemma unescape_hex: "IsHex a \<Longrightarrow> IsHex b \<Longrightarrow> HexToInt a = Some h \<Longrightarrow> HexToInt b = Some l \<Longrightarrow>
    unescape_loop conv replace (37 # a # b # r) = map_option ((#) (conv (h * 16 + l))) (unescape_loop conv replace r)"
  by (subst unescape_loop.simps) (cases "unescape_loop conv replace r"; auto)

lemma unescape_short: "length s < 3 \<Longrightarrow> unescape_loop conv False s = Some s"
proof (induction s)
  case (Cons c s)
  then show ?case by (subst unescape_loop.simps) auto
qed simp

lemma UnescapeURL_eq: "UnescapeURL s = unescape_loop to_char False s"
  by (simp add: UnescapeURL_def UnescapeURLImpl_def unescape_short)

lemma unescape_escaped:
  assumes "and flags ESCAPE_FORCED \<noteq> 0" "and flags ESCAPE_ONLYNONASCII = 0"
  shows "\<forall>x\<in>set source. - 128 \<le> x \<and> x < 128 \<Longrightarrow>
    unescape_loop to_char False (escaped flags prev source @ rest) = map_option ((@) source) (unescape_loop to_char False rest)"
proof (induction source arbitrary: prev)
  case Nil
  show ?case by (cases "unescape_loop to_char False rest") auto
next
  case (Cons x source)
  let ?c = "x mod 256"
  have x: "to_char ?c = x" using Cons.prems by (simp add: to_char_mod)
  have IH: "unescape_loop to_char False (escaped flags (?c > 0x7f) source @ rest) =
      map_option ((@) source) (unescape_loop to_char False rest)" using Cons by simp
  have n: "\<not> no_need_esc 37 flags" by (simp add: no_need_esc_def escape_chars_def numeral_eq_Suc)
  consider "escape_unit flags prev ?c = [x]" "x \<noteq> 37"
    | "escape_unit flags prev ?c = [37, hex_chars ! nat (?c div 16), hex_chars ! nat (?c mod 16)]"
  proof (cases "?c = 37")
    case True
    with n assms that show ?thesis by (simp add: escape_unit_def Let_def)
  next
    case False
    have "x \<noteq> 37" using False by auto
    with escape_unit_cases [of flags prev ?c] that show ?thesis unfolding x by blast
  qed
  then show ?case
  proof cases
    case 1
    then show ?thesis
      using IH by (simp add: unescape_copy option.map_comp comp_def)
  next
    case 2
    have r: "?c div 16 < 16" "0 \<le> ?c div 16" "?c mod 16 < 16" "0 \<le> ?c mod 16" by simp_all
    have "?c div 16 * 16 + ?c mod 16 = ?c" by simp
    with 2 IH x unescape_hex [OF hex_digit(1) [OF r(2,1)] hex_digit(1) [OF r(4,3)] hex_digit(2) [OF r(2,1)] hex_digit(2) [OF r(4,3)]]
    show ?thesis by (simp add: option.map_comp comp_def)
  qed
qed

section \<open>Paths\<close>

lemma prefix_single: "prefix [c] (drop i s) \<longleftrightarrow> i < length s \<and> s ! i = c"
  by (cases "i < length s") (auto simp: Cons_nth_drop_Suc [symmetric])

lemma find_absent: "c \<notin> set xs \<Longrightarrow> string_find (ys @ xs) [c] (length ys) = None"
proof (cases "string_find (ys @ xs) [c] (length ys)")
  case (Some i)
  assume "c \<notin> set xs"
  from string_find_Some [OF Some] have i: "length ys \<le> i" "i < length (ys @ xs)" "(ys @ xs) ! i = c"
    unfolding prefix_single by auto
  then have "i - length ys < length xs" "xs ! (i - length ys) = c" by (auto simp: nth_append)
  then have "c \<in> set xs" using nth_mem [of "i - length ys" xs] by simp
  with \<open>c \<notin> set xs\<close> show ?thesis by simp
qed simp

lemma find_first:
  assumes "c \<notin> set xs"
  shows "string_find (ys @ xs @ c # zs) [c] (length ys) = Some (length ys + length xs)"
proof (cases "string_find (ys @ xs @ c # zs) [c] (length ys)")
  case None
  from string_find_None [OF None, of "length ys + length xs"] show ?thesis
    unfolding prefix_single by (simp add: nth_append)
next
  case (Some i)
  let ?s = "ys @ xs @ c # zs" and ?n = "length ys + length xs"
  from string_find_Some [OF Some] have i: "length ys \<le> i" "?s ! i = c"
    "\<forall>k. length ys \<le> k \<and> k < i \<longrightarrow> \<not> (k < length ?s \<and> ?s ! k = c)" unfolding prefix_single by auto
  have "\<not> ?n < i" using spec [OF i(3), of ?n] by (simp add: nth_append)
  moreover have "\<not> i < ?n"
  proof
    assume lt: "i < ?n"
    then have l: "i - length ys < length xs" using i(1) by linarith
    then have "xs ! (i - length ys) = c" using i(1,2) by (simp add: nth_append)
    then have "c \<in> set xs" using l nth_mem [of "i - length ys" xs] by simp
    with assms show False by simp
  qed
  ultimately show ?thesis using Some by simp
qed

definition slashes :: "str \<Rightarrow> str" where
  "slashes s = map (\<lambda>c. if c = 92 then 47 else c) s"

lemma slashes_simps [simp]: "slashes [] = []" "slashes (c # s) = (if c = 92 then 47 else c) # slashes s"
  "slashes (s @ t) = slashes s @ slashes t"
  by (simp_all add: slashes_def)

lemma slashes_id: "92 \<notin> set s \<Longrightarrow> slashes s = s"
  by (induction s) auto

lemma backslash_loop_slashes:
  "backslash_loop (ys @ xs) (string_find (ys @ xs) [92] (length ys)) = Some (ys @ slashes xs)"
proof (induction "length xs" arbitrary: ys xs rule: less_induct)
  case less
  show ?case
  proof (cases "92 \<in> set xs")
    case False
    then show ?thesis by (subst backslash_loop.simps) (simp add: find_absent slashes_id)
  next
    case True
    then obtain a b where xs: "xs = a @ 92 # b" "92 \<notin> set a" by (metis split_list_first)
    have f: "string_find (ys @ xs) [92] (length ys) = Some (length ys + length a)"
      using find_first [OF xs(2), of ys b] xs(1) by simp
    have r: "string_replace (ys @ xs) (length ys + length a) 1 [47] = (ys @ a @ [47]) @ b"
      by (simp add: string_replace_def xs(1))
    have "backslash_loop ((ys @ a @ [47]) @ b) (string_find ((ys @ a @ [47]) @ b) [92] (length (ys @ a @ [47]))) =
        Some ((ys @ a @ [47]) @ slashes b)" by (rule less) (simp add: xs(1))
    moreover have "backslash_loop (ys @ xs) (string_find (ys @ xs) [92] (length ys)) =
        backslash_loop ((ys @ a @ [47]) @ b) (string_find ((ys @ a @ [47]) @ b) [92] (length (ys @ a @ [47])))"
      unfolding f using r by (subst backslash_loop.simps) simp
    ultimately show ?thesis by (simp add: xs(1) slashes_id [OF xs(2)])
  qed
qed

lemma semicolon_loop_none: "59 \<notin> set s \<Longrightarrow> semicolon_loop s (string_find s [59] 0) = Some s"
  using find_absent [of 59 s "[]"] by (subst semicolon_loop.simps) simp

text \<open>Only the first semicolon is replaced: the loop then looks for a backslash.\<close>

lemma semicolon_loop_first:
  assumes "59 \<notin> set a" "92 \<notin> set b"
  shows "semicolon_loop (a @ 59 # b) (string_find (a @ 59 # b) [59] 0) = Some (a @ [37, 51, 66] @ b)"
proof -
  have f: "string_find (a @ 59 # b) [59] 0 = Some (length a)" using find_first [OF assms(1), of "[]" b] by simp
  have r: "string_replace (a @ 59 # b) (length a) 1 [37, 51, 66] = (a @ [37]) @ 51 # 66 # b"
    by (simp add: string_replace_def)
  have "string_find ((a @ [37]) @ 51 # 66 # b) [92] (length (a @ [37])) = None"
    by (rule find_absent) (use assms(2) in simp)
  with r f show ?thesis
    by (subst semicolon_loop.simps) (simp add: semicolon_loop.simps)
qed

definition path_flags :: uint32 where "path_flags = 1040"

lemma path_flags: "or ESCAPE_DIRECTORY ESCAPE_FORCED = path_flags" "and path_flags ESCAPE_FORCED \<noteq> 0"
  "and path_flags ESCAPE_ONLYNONASCII = 0"
  by (simp_all add: path_flags_def ESCAPE_DIRECTORY_def ESCAPE_FORCED_def ESCAPE_ONLYNONASCII_def)

lemma escape_copied: "escape_unit path_flags prev 59 = [59]" "escape_unit path_flags prev 47 = [47]"
proof -
  have "escape_chars ! 59 = 912" "escape_chars ! 47 = 784" by code_simp+
  then show "escape_unit path_flags prev 59 = [59]" "escape_unit path_flags prev 47 = [47]"
    by (simp_all add: escape_unit_def no_need_esc_def path_flags_def ESCAPE_FORCED_def
        ESCAPE_ONLYASCII_def ESCAPE_ONLYNONASCII_def ESCAPE_COLON_def to_char_def)
qed

text \<open>A character that is in what is written for \<open>x\<close> is \<open>x\<close>, a percent sign or a hexadecimal digit.\<close>

lemma escape_unit_set:
  assumes "- 128 \<le> x" "x < 128" "y \<in> set (escape_unit flags prev (x mod 256))"
  shows "y = x \<or> y = 37 \<or> IsHex y"
proof -
  have r: "0 \<le> x mod 256 div 16" "x mod 256 div 16 < 16" "0 \<le> x mod 256 mod 16" "x mod 256 mod 16 < 16" by simp_all
  have "set (escape_unit flags prev (x mod 256)) \<subseteq>
      {x, 37, hex_chars ! nat (x mod 256 div 16), hex_chars ! nat (x mod 256 mod 16)}"
    using escape_unit_cases [of flags prev "x mod 256"] to_char_mod [OF assms(1,2)] by auto
  with assms(3) hex_digit(1) [OF r(1,2)] hex_digit(1) [OF r(3,4)] show ?thesis by auto
qed

lemma escaped_set:
  "\<forall>x\<in>set s. - 128 \<le> x \<and> x < 128 \<Longrightarrow> y \<in> set (escaped flags prev s) \<Longrightarrow> y \<in> set s \<or> y = 37 \<or> IsHex y"
proof (induction s arbitrary: prev)
  case (Cons x s)
  from Cons.prems(2) consider "y \<in> set (escape_unit flags prev (x mod 256))"
    | "y \<in> set (escaped flags (x mod 256 > 0x7f) s)" by auto
  then show ?case
  proof cases
    case 1
    have "- 128 \<le> x" "x < 128" using Cons.prems(1) by auto
    from escape_unit_set [OF this 1] show ?thesis by auto
  next
    case 2
    with Cons.IH [OF _ 2] Cons.prems(1) show ?thesis by auto
  qed
qed simp

lemma escaped_append: "\<exists>p. escaped flags prev (s @ t) = escaped flags prev s @ escaped flags p t"
proof (induction s arbitrary: prev)
  case Nil
  then show ?case by auto
next
  case (Cons x s)
  from Cons.IH [of "x mod 256 > 0x7f"] show ?case by auto
qed

lemma escaped_last:
  assumes "s \<noteq> []" "\<forall>x\<in>set s. - 128 \<le> x \<and> x < 128"
  shows "escaped path_flags prev s \<noteq> [] \<and> (last (escaped path_flags prev s) = 47 \<longleftrightarrow> last s = 47)"
proof -
  let ?x = "last s"
  obtain p where e: "escaped path_flags prev s = escaped path_flags prev (butlast s) @ escape_unit path_flags p (?x mod 256)"
    using escaped_append [of path_flags prev "butlast s" "[?x]"] assms(1) by auto
  have ne: "escape_unit path_flags p (?x mod 256) \<noteq> []" using escape_unit_shape [OF mod_256] by blast
  have x: "- 128 \<le> ?x" "?x < 128" using assms by auto
  have "last (escape_unit path_flags p (?x mod 256)) = 47 \<longleftrightarrow> ?x = 47"
  proof (cases "?x = 47")
    case True
    then have "?x mod 256 = 47" by simp
    with True show ?thesis by (simp add: escape_copied)
  next
    case False
    from escape_unit_set [OF x last_in_set [OF ne]] False show ?thesis by (auto simp: IsHex_def)
  qed
  with e ne show ?thesis by simp
qed

lemma escaped_count:
  "\<forall>x\<in>set s. - 128 \<le> x \<and> x < 128 \<Longrightarrow> count_list (escaped path_flags prev s) 59 = count_list s 59"
proof (induction s arbitrary: prev)
  case (Cons x s)
  have x: "- 128 \<le> x" "x < 128" using Cons.prems by auto
  have "count_list (escape_unit path_flags prev (x mod 256)) 59 = (if x = 59 then 1 else 0)"
  proof (cases "x = 59")
    case True
    then have "x mod 256 = 59" by simp
    with True show ?thesis by (simp add: escape_copied)
  next
    case False
    have "59 \<notin> set (escape_unit path_flags prev (x mod 256))"
      using escape_unit_set [OF x] False by (fastforce simp: IsHex_def)
    with False show ?thesis by simp
  qed
  with Cons show ?case by simp
qed simp

section \<open>Queries\<close>

text \<open>The loop ends when every extraction leaves a shorter query.\<close>

lemma HexToInt_Some: "IsHex c \<Longrightarrow> \<exists>v. HexToInt c = Some v"
  using HexToInt_defined [of c] by auto

lemma unescape_total: "\<exists>t. unescape_loop conv replace s = Some t"
proof (induction conv replace s rule: unescape_loop.induct)
  case (1 conv replace s)
  show ?case
  proof (cases s)
    case (Cons c r)
    show ?thesis
    proof (cases "c = 37 \<and> length r \<ge> 2")
      case esc: True
      show ?thesis
      proof (cases "IsHex (r ! 0) \<and> IsHex (r ! 1)")
        case True
        then obtain h l where hl: "HexToInt (r ! 0) = Some h" "HexToInt (r ! 1) = Some l" using HexToInt_Some by metis
        from 1(1) [OF Cons esc True hl] obtain t where "unescape_loop conv replace (drop 2 r) = Some t" by blast
        with True esc Cons hl show ?thesis by (subst unescape_loop.simps) simp
      next
        case False
        with esc Cons 1(2) [OF Cons esc False] show ?thesis by (subst unescape_loop.simps) auto
      qed
    next
      case no: False
      then show ?thesis using 1(3) [OF Cons no] 1(4) [OF Cons no] Cons
        by (subst unescape_loop.simps) (cases "replace \<and> c = 43"; auto)
    qed
  qed simp
qed

lemma UnescapeURLImpl_total: "\<exists>t. UnescapeURLImpl conv s replace = Some t"
  using unescape_total by (simp add: UnescapeURLImpl_def)

lemma parse_query_loop_ends:
  assumes "\<And>q q1 k v. next_pair s q = Some (q1, k, v) \<Longrightarrow> nat (snd q1) < nat (snd q)"
  shows "\<exists>m. parse_query_loop next_pair s q arguments = Some m"
proof (induction "nat (snd q)" arbitrary: q arguments rule: less_induct)
  case less
  show ?case
  proof (cases "next_pair s q")
    case None
    then show ?thesis by (subst parse_query_loop.simps) simp
  next
    case (Some p)
    obtain q1 k v where p: "p = (q1, k, v)" by (cases p)
    have IH: "\<exists>m. parse_query_loop next_pair s q1 args = Some m" for args
      using less assms Some p by blast
    obtain ks where ks: "UnescapeURLImpl (\<lambda>v. v) (component_str s k) True = Some ks" using UnescapeURLImpl_total by blast
    obtain vs where vs: "(if snd v > 0 then UnescapeURLImpl (\<lambda>v. v) (component_str s v) True else Some []) = Some vs"
      using UnescapeURLImpl_total [of "\<lambda>v. v" "component_str s v" True] by (cases "snd v > 0") auto
    show ?thesis
    proof (cases "snd k > 0")
      case True
      with Some p ks vs IH show ?thesis by (subst parse_query_loop.simps) simp
    next
      case False
      with Some p IH show ?thesis by (subst parse_query_loop.simps) simp
    qed
  qed
qed

section \<open>Data URLs\<close>

lemma find_unit_first: "c \<notin> set xs \<Longrightarrow> length ys = n \<Longrightarrow> fin = length ys + length xs + k \<Longrightarrow> 0 < k \<Longrightarrow>
    find_unit (ys @ xs @ c # zs) c n fin = n + length xs"
  using find_first [of c xs ys "take (k - 1) zs"] by (cases k) (simp_all add: find_unit_def)

lemma find_unit_absent: "c \<notin> set xs \<Longrightarrow> length ys = n \<Longrightarrow> fin = length ys + length xs \<Longrightarrow> find_unit (ys @ xs @ zs) c n fin = fin"
  using find_absent [of c xs ys] by (simp add: find_unit_def)

definition data_tag :: str where "data_tag = units ''data:''"
definition charset_tag :: str where "charset_tag = units '';charset=''"
definition base64_tag :: str where "base64_tag = units '';base64''"

lemma tags: "data_tag = [100, 97, 116, 97, 58]" "charset_tag = [59, 99, 104, 97, 114, 115, 101, 116, 61]"
  "base64_tag = [59, 98, 97, 115, 101, 54, 52]" "units ''charset='' = tl charset_tag"
  by (simp_all add: data_tag_def charset_tag_def base64_tag_def units_def)

lemma string_find_here: "prefix pat (drop k s) \<Longrightarrow> k \<le> length s \<Longrightarrow> string_find s pat k = Some k"
proof -
  assume a: "prefix pat (drop k s)" "k \<le> length s"
  then have "[k..<length s + 1] = k # [Suc k..<length s + 1]" by (simp add: upt_rec)
  with a(1) show ?thesis by (simp add: string_find_def)
qed

text \<open>The type part of a URL \<open>data:type;charset=set\<close>.\<close>

lemma data_url_type_charset:
  assumes "59 \<notin> set mt" "mt \<noteq> []" "fin = length (data_tag @ mt @ charset_tag @ cs)" "cs \<noteq> []"
  shows "data_url_type (data_tag @ mt @ charset_tag @ cs @ rest) 5 fin mime charset = (LowerString mt, cs)"
proof -
  let ?url = "data_tag @ mt @ charset_tag @ cs @ rest"
  have len: "length data_tag = 5" "length charset_tag = 9" by (simp_all add: tags)
  have semi: "find_unit ?url 59 5 fin = 5 + length mt"
    using find_unit_first [OF assms(1), of data_tag 5 fin "9 + length cs" "tl charset_tag @ cs @ rest"] assms(3) len
    by (simp add: tags)
  have pre: "take fin ?url = data_tag @ mt @ charset_tag @ cs" using assms(3) by simp
  have split: "data_tag @ mt @ charset_tag @ cs = (data_tag @ mt @ [59]) @ tl charset_tag @ cs" by (simp add: tags)
  have "length (data_tag @ mt @ [59]) = 5 + length mt + 1" using len by simp
  then have dr: "drop (5 + length mt + 1) (data_tag @ mt @ charset_tag @ cs) = tl charset_tag @ cs"
    unfolding split by (metis append_eq_conv_conj)
  then have "string_find (take fin ?url) (units ''charset='') (5 + length mt + 1) = Some (5 + length mt + 1)"
    unfolding pre using dr len by (intro string_find_here) (simp_all add: tags(4))
  then have it: "search_units ?url (units ''charset='') (5 + length mt + 1) fin = 5 + length mt + 1"
    by (simp add: search_units_def)
  have "unit_range ?url 5 (5 + length mt) = mt" using len by (simp add: unit_range_def)
  moreover have "unit_range ?url (5 + length mt + 1 + 8) fin = cs"
  proof -
    let ?X = "data_tag @ mt @ charset_tag @ cs"
    have e: "5 + length mt + 1 + 8 = 8 + (5 + length mt + 1)" by simp
    have "drop 8 (tl charset_tag @ cs) = cs" by (simp add: tags)
    then show ?thesis unfolding unit_range_def pre e using drop_drop [of 8 "5 + length mt + 1" ?X] dr by metis
  qed
  moreover have "fin \<noteq> 5" "5 + length mt \<noteq> 5" "5 + length mt \<noteq> fin" "5 + length mt + 1 \<noteq> fin"
    using assms(2,3) len by simp_all
  ultimately show ?thesis unfolding data_url_type_def using semi it by (simp add: Let_def)
qed

lemma string_find_None_iff:
  assumes "pat \<noteq> []"
  shows "string_find s pat k = None \<longleftrightarrow> \<not> sublist pat (drop k s)"
proof
  assume n: "string_find s pat k = None"
  show "\<not> sublist pat (drop k s)"
  proof
    assume "sublist pat (drop k s)"
    then obtain a b where "drop k s = a @ pat @ b" by (auto simp: sublist_def)
    then have "drop (length a) (drop k s) = pat @ b" by simp
    then have "drop (k + length a) s = pat @ b" by (simp add: add.commute)
    with string_find_None [OF n assms, of "k + length a"] show False by simp
  qed
next
  assume "\<not> sublist pat (drop k s)"
  then show "string_find s pat k = None"
  proof (rule contrapos_np)
    assume "string_find s pat k \<noteq> None"
    then obtain i where "string_find s pat k = Some i" by auto
    from string_find_Some [OF this] have i: "k \<le> i" "prefix pat (drop i s)" by auto
    from i(2) obtain z where z: "drop i s = pat @ z" by (auto simp: prefix_def)
    have "drop k s = take (i - k) (drop k s) @ drop (i - k) (drop k s)" by (rule append_take_drop_id [symmetric])
    also have "drop (i - k) (drop k s) = pat @ z" using i(1) z by simp
    finally show "sublist pat (drop k s)" unfolding sublist_def by blast
  qed
qed

text \<open>
  The URL \<open>data:type;charset=set,payload\<close>, whose payload has the UTF-8 encoding \<open>bytes\<close>.
\<close>

lemma ParseDataUrl_charset:
  assumes "url = data_tag @ mt @ charset_tag @ cs @ 44 # payload"
    and "mt \<noteq> []" "cs \<noteq> []" "59 \<notin> set mt" "44 \<notin> set mt" "44 \<notin> set cs"
    and "String16ToUTF8_cstr (map word_of_int payload) = (True, bytes)"
    and "UnescapeURL (char_units bytes) = Some t"
    and "b = sublist base64_tag (mt @ charset_tag @ cs)"
    and "t' = (if b \<or> \<not> (take 5 (LowerString mt) = units ''text/'' \<or> sublist (units ''xml'') (LowerString mt))
               then filter (\<lambda>c. \<not> isspace c) t else t)"
  shows "ParseDataUrl modp url mime charset data =
    Some (if b then (fst (Base64Decode modp t' data), LowerString mt, cs, snd (Base64Decode modp t' data))
          else (True, LowerString mt, cs, t'))"
proof -
  let ?c = "5 + length mt + 9 + length cs"
  have len: "length data_tag = 5" "length charset_tag = 9" by (simp_all add: tags)
  have ulen: "length url = ?c + 1 + length payload" using assms(1) len by simp
  have colon: "find_unit url 58 0 (length url) = 4"
    using find_unit_first [of 58 "[100, 97, 116, 97]" "[]" 0 "length url" "length url - 4" "mt @ charset_tag @ cs @ 44 # payload"]
      ulen by (simp add: assms(1) tags)
  have comma: "find_unit url 44 5 (length url) = ?c"
    using find_unit_first [of 44 "mt @ charset_tag @ cs" data_tag 5 "length url" "1 + length payload" payload]
      assms(5,6) ulen len by (simp add: assms(1)) (simp add: tags)
  have type: "data_url_type url 5 ?c mime charset = (LowerString mt, cs)"
    using data_url_type_charset [OF assms(4,2) _ assms(3), of ?c "44 # payload"] assms(1) len by simp
  have pre: "take ?c url = data_tag @ mt @ charset_tag @ cs" using assms(1) len by simp
  have "search_units url (units '';base64'') 5 ?c \<noteq> ?c \<longleftrightarrow> b"
  proof (cases "string_find (take ?c url) base64_tag 5")
    case None
    then have "\<not> sublist base64_tag (mt @ charset_tag @ cs)"
      using string_find_None_iff [of base64_tag "take ?c url" 5] len unfolding pre by (simp add: tags(3))
    with None assms(9) show ?thesis by (simp add: search_units_def base64_tag_def)
  next
    case (Some i)
    then have "sublist base64_tag (mt @ charset_tag @ cs)"
      using string_find_None_iff [of base64_tag "take ?c url" 5] len unfolding pre by (auto simp: tags(3))
    moreover have "i \<noteq> ?c" using string_find_Some [OF Some] ulen by (simp add: tags(3))
    ultimately show ?thesis using Some assms(9) by (simp add: search_units_def base64_tag_def)
  qed
  moreover have "unit_range url (?c + 1) (length url) = payload" using assms(1) len by (simp add: unit_range_def)
  moreover have "LowerString mt \<noteq> []" using assms(2) by (simp add: LowerString_def)
  moreover have "string_find (LowerString mt) (units ''xml'') 0 \<noteq> None \<longleftrightarrow> sublist (units ''xml'') (LowerString mt)"
    using string_find_None_iff [of "units ''xml''" "LowerString mt" 0] by (simp add: units_def)
  ultimately show ?thesis unfolding ParseDataUrl_def colon Let_def
    using ulen assms(3,7,8,10) comma type by (simp add: case_prod_beta)
qed

section \<open>Properties\<close>

text \<open>
  A URL is relative exactly when it does not begin with a scheme, that is a letter, letters,
  digits and the characters \<open>+ . -\<close>, and a colon.
\<close>

theorem is_relative_url_reference:
  "IsRelativeUrl True url \<longleftrightarrow> \<not> (\<exists>c scheme rest. url = c # scheme @ 58 # rest \<and> is_alpha c \<and> list_all is_scheme_char scheme)"
  unfolding IsRelativeUrl_iff has_scheme_def list_all_iff ..



text \<open>
  \<open>UTF8PathToUrl\<close> returns a URL that unescapes to \<open>file:///\<close>, the path with slashes for
  backslashes, and a final slash for a directory; but it escapes only the first semicolon of a path.
\<close>

theorem utf8_path_to_url_semicolons:
  assumes "length temp_buffer = 100" "\<forall>c\<in>set path. - 128 \<le> c \<and> c < 128"
    and "p = slashes (units ''file:///'' @ path)"
  shows "\<exists>u. UTF8PathToUrl temp_buffer path directory = Some u \<and> count_list u 59 = count_list path 59 - 1 \<and>
    UnescapeURL u = Some (p @ (if directory \<and> last p \<noteq> 47 then [47] else []))"
proof -
  have lit: "units ''file:///'' = [102, 105, 108, 101, 58, 47, 47, 47]" by (simp add: units_def)
  have ne: "p \<noteq> []" by (simp add: assms(3) lit)
  have pc: "\<forall>c\<in>set p. - 128 \<le> c \<and> c < 128" using assms(2) by (auto simp: assms(3) lit slashes_def)
  have no92: "92 \<notin> set p" by (auto simp: assms(3) slashes_def)
  have cnt: "count_list p 59 = count_list path 59"
  proof -
    have "count_list (slashes s) 59 = count_list s 59" for s by (induction s) simp_all
    then show ?thesis by (simp add: assms(3) lit)
  qed
  let ?e = "escaped path_flags False p"
  have bsl: "backslash_loop (units ''file:///'' @ path) (string_find (units ''file:///'' @ path) [92] 0) = Some p"
    using backslash_loop_slashes [of "[]" "units ''file:///'' @ path"] assms(3) by simp
  have esc: "EscapeUrl temp_buffer p path_flags = Some ?e" by (rule EscapeUrl_eq [OF assms(1)])
  have no92e: "92 \<notin> set ?e" using escaped_set [OF pc] no92 by (fastforce simp: IsHex_def)
  have un: "unescape_loop to_char False (?e @ rest) = map_option ((@) p) (unescape_loop to_char False rest)" for rest
    by (rule unescape_escaped [OF path_flags(2,3) pc])
  have sl: "unescape_loop to_char False [47] = Some [47]" by (simp add: unescape_short)
  have "\<exists>r. semicolon_loop ?e (string_find ?e [59] 0) = Some r \<and> r \<noteq> [] \<and> (last r = 47 \<longleftrightarrow> last p = 47) \<and>
      count_list r 59 = count_list path 59 - 1 \<and>
      (\<forall>rest. unescape_loop to_char False (r @ rest) = map_option ((@) p) (unescape_loop to_char False rest))"
  proof (cases "59 \<in> set p")
    case False
    have "59 \<notin> set ?e" using escaped_set [OF pc] False by (fastforce simp: IsHex_def)
    with escaped_last [OF ne pc, of False] un cnt False show ?thesis
      by (intro exI [of _ ?e]) (simp add: semicolon_loop_none count_list_0_iff)
  next
    case True
    then obtain s1 s2 where p: "p = s1 @ 59 # s2" "59 \<notin> set s1" by (metis split_list_first)
    have pc12: "\<forall>c\<in>set s1. - 128 \<le> c \<and> c < 128" "\<forall>c\<in>set s2. - 128 \<le> c \<and> c < 128" using pc p(1) by auto
    obtain q where q: "?e = escaped path_flags False s1 @ escaped path_flags q (59 # s2)"
      using escaped_append [of path_flags False s1 "59 # s2"] p(1) by auto
    let ?e1 = "escaped path_flags False s1" and ?e2 = "escaped path_flags False s2"
    have e: "?e = ?e1 @ 59 # ?e2" using q by (simp add: escape_copied)
    have n: "59 \<notin> set ?e1" using escaped_set [OF pc12(1)] p(2) by (fastforce simp: IsHex_def)
    have "92 \<notin> set ?e2" using no92e e by simp
    from semicolon_loop_first [OF n this] have r: "semicolon_loop ?e (string_find ?e [59] 0) = Some (?e1 @ [37, 51, 66] @ ?e2)"
      unfolding e .
    have l: "last (?e1 @ [37, 51, 66] @ ?e2) = 47 \<longleftrightarrow> last p = 47"
      using escaped_last [of s2 False] pc12(2) p(1) by (cases "s2 = []") auto
    have c: "count_list (?e1 @ [37, 51, 66] @ ?e2) 59 = count_list path 59 - 1"
      using escaped_count [OF pc12(1), of False] escaped_count [OF pc12(2), of False] p cnt by (simp flip: cnt)
    have u: "unescape_loop to_char False ((?e1 @ [37, 51, 66] @ ?e2) @ rest) = map_option ((@) p) (unescape_loop to_char False rest)" for rest
    proof -
      have h: "IsHex 51" "IsHex 66" "HexToInt 51 = Some 3" "HexToInt 66 = Some 11" "to_char (3 * 16 + 11) = 59"
        by (simp_all add: IsHex_def HexToInt_def to_char_def)
      have "unescape_loop to_char False (37 # 51 # 66 # ?e2 @ rest) = map_option ((#) 59) (unescape_loop to_char False (?e2 @ rest))"
        using unescape_hex [OF h(1-4)] h(5) by simp
      then show ?thesis
        using unescape_escaped [OF path_flags(2,3) pc12(1), of False "37 # 51 # 66 # ?e2 @ rest"]
          unescape_escaped [OF path_flags(2,3) pc12(2), of False rest] p(1)
        by (cases "unescape_loop to_char False rest") simp_all
    qed
    from r l c u show ?thesis by (intro exI [of _ "?e1 @ [37, 51, 66] @ ?e2"]) simp
  qed
  then obtain r where r: "semicolon_loop ?e (string_find ?e [59] 0) = Some r" "last r = 47 \<longleftrightarrow> last p = 47"
    "count_list r 59 = count_list path 59 - 1"
    "\<And>rest. unescape_loop to_char False (r @ rest) = map_option ((@) p) (unescape_loop to_char False rest)" by blast
  have run: "UTF8PathToUrl temp_buffer path directory = (if directory \<and> last r \<noteq> 47 then Some (r @ [47]) else Some r)"
    unfolding UTF8PathToUrl_def path_flags(1) using bsl esc r(1) by (simp add: Let_def)
  show ?thesis
  proof (cases "directory \<and> last r \<noteq> 47")
    case True
    with run r(2,3) r(4) [of "[47]"] sl show ?thesis by (simp add: UnescapeURL_eq)
  next
    case False
    with run r(2,3) r(4) [of "[]"] show ?thesis by (auto simp: UnescapeURL_eq)
  qed
qed

lemma utf8_path_to_url_semicolons_witness:
  "\<exists>u. UTF8PathToUrl (replicate 100 0) (units ''C:'' @ 92 # units ''a;b;c;d'') True = Some u \<and> count_list u 59 = Suc (Suc 0) \<and>
     UnescapeURL u = Some (units ''file:///C:/a;b;c;d/'')"
  using utf8_path_to_url_semicolons [of "replicate 100 0" "units ''C:'' @ 92 # units ''a;b;c;d''" _ True, OF _ _ refl]
  by (simp add: units_def slashes_def)

text \<open>
  \<open>ParseDataUrl\<close> of a URL with a type and a character set: the type is returned in lower case,
  the character set is everything up to the comma, and the data is the payload, unescaped, without
  white space unless the type is a text or XML, and decoded when \<open>;base64\<close> occurs before the comma.
\<close>

theorem parse_data_url_with_charset:
  assumes "url = data_tag @ mt @ charset_tag @ cs @ 44 # payload"
    and "mt \<noteq> []" "cs \<noteq> []" "59 \<notin> set mt" "44 \<notin> set mt" "44 \<notin> set cs"
    and "String16ToUTF8_cstr (map word_of_int payload) = (True, bytes)"
    and "UnescapeURL (char_units bytes) = Some t"
    and "b = sublist base64_tag (mt @ charset_tag @ cs)"
    and "t' = (if b \<or> \<not> (take 5 (LowerString mt) = units ''text/'' \<or> sublist (units ''xml'') (LowerString mt))
               then filter (\<lambda>c. \<not> isspace c) t else t)"
  shows "ParseDataUrl modp url mime charset data =
    Some (if b then (fst (Base64Decode modp t' data), LowerString mt, cs, snd (Base64Decode modp t' data))
          else (True, LowerString mt, cs, t'))"
  using assms by (rule ParseDataUrl_charset)

lemma parse_data_url_with_charset_witness:
  "ParseDataUrl (\<lambda>s. (-1, [])) (units ''data:Text/plain;charset=utf-8,a%20b'') [] [] [] =
     Some (True, units ''text/plain'', units ''utf-8'', units ''a b'')"
proof -
  have u: "units ''data:Text/plain;charset=utf-8,a%20b'' =
      data_tag @ units ''Text/plain'' @ charset_tag @ units ''utf-8'' @ 44 # units ''a%20b''"
    by (simp add: units_def data_tag_def charset_tag_def)
  have "String16ToUTF8_cstr (map word_of_int (units ''a%20b'')) = (True, [97, 37, 50, 48, 98])" by code_simp
  moreover have "UnescapeURL (char_units [97, 37, 50, 48, 98]) = Some (units ''a b'')" by code_simp
  moreover have "\<not> sublist base64_tag (units ''Text/plain'' @ charset_tag @ units ''utf-8'')" by code_simp
  moreover have "LowerString (units ''Text/plain'') = units ''text/plain''" by code_simp
  moreover have "take 5 (units ''text/plain'') = units ''text/''" by code_simp
  moreover have "units ''Text/plain'' \<noteq> []" "units ''utf-8'' \<noteq> []" "59 \<notin> set (units ''Text/plain'')"
    "44 \<notin> set (units ''Text/plain'')" "44 \<notin> set (units ''utf-8'')" by (simp_all add: units_def)
  ultimately show ?thesis
    using parse_data_url_with_charset [OF u, of "[97, 37, 50, 48, 98]" "units ''a b''" False "units ''a b''"] by simp
qed

text \<open>The character set takes in the mark of Base64 that follows it.\<close>

lemma data_url_charset_takes_base64:
  "ParseDataUrl (\<lambda>s. (int (length s), s)) (units ''data:a/b;charset=utf-8;base64,AAAA'') [] [] [] =
     Some (True, units ''a/b'', units ''utf-8;base64'', units ''AAAA'')"
  by code_simp

text \<open>The outputs are assigned although the result is \<open>false\<close>.\<close>

lemma data_url_failure_assigns:
  "ParseDataUrl (\<lambda>s. (-1, [])) (units ''data:a/b;base64,AAAA'') [] [] [] =
     Some (False, units ''a/b'', units ''US-ASCII'', [])"
  by code_simp

end
