(* ===== verification/IntStrings.thy ===== *)
theory IntStrings
  imports StringUtils
begin

text \<open>
  The conversion of integers to strings of \<open>src/common/string16.cc\<close>: \<open>FastIntToBuffer\<close> writes the
  digits backwards into a buffer of 22 units. Negative numbers take a way of their own that never
  divides a negative number nor negates the smallest one.
\<close>

section \<open>Operations\<close>

definition kFastIntToBufferOffset :: nat where
  "kFastIntToBufferOffset = 21"

text \<open>The values of an \<open>int\<close> type of \<open>w\<close> bits; a result outside is undefined.\<close>

definition fits_int :: "nat \<Rightarrow> int \<Rightarrow> int option" where
  "fits_int w v = do { assert_that (- (2 ^ (w - 1)) \<le> v \<and> v < 2 ^ (w - 1)); Some v }"

text \<open>\<open>*p-- = c\<close>.\<close>

definition put_back :: "int \<Rightarrow> str \<times> nat \<Rightarrow> (str \<times> nat) option" where
  "put_back c bp = do {
     buffer \<leftarrow> store (fst bp) (snd bp) [c];
     assert_that (snd bp > 0);
     Some (buffer, snd bp - 1) }"

text \<open>The two loops, which are the same: digits of a number that is not negative.\<close>

function digits_loop :: "nat \<Rightarrow> int \<Rightarrow> str \<times> nat \<Rightarrow> (str \<times> nat) option" where
  "digits_loop w i bp = do {
     bp1 \<leftarrow> put_back (48 + i mod 10) bp;
     if i div 10 > 0 then digits_loop w (i div 10) bp1 else Some bp1 }"
  by pat_completeness auto
termination by (relation "measure (\<lambda>(w, i, bp). nat i)") auto

declare digits_loop.simps [simp del]

definition FastIntToBuffer :: "nat \<Rightarrow> int \<Rightarrow> str \<Rightarrow> (str \<times> nat) option" where
  "FastIntToBuffer w i buffer = do {
     bp \<leftarrow> put_back 0 (buffer, kFastIntToBufferOffset);
     if i \<ge> 0 then do {
       (b, p) \<leftarrow> digits_loop w i bp;
       Some (b, p + 1) }
     else if i > -10 then do {
       i1 \<leftarrow> fits_int w (- i);
       (b, p) \<leftarrow> put_back (48 + i1) bp;
       b1 \<leftarrow> store b p [45];
       Some (b1, p) }
     else do {
       i1 \<leftarrow> fits_int w (i + 10);
       i2 \<leftarrow> fits_int w (- i1);
       bp1 \<leftarrow> put_back (48 + i2 mod 10) bp;
       i3 \<leftarrow> fits_int w (i2 div 10 + 1);
       (b, p) \<leftarrow> digits_loop w i3 bp1;
       b1 \<leftarrow> store b p [45];
       Some (b1, p) } }"

text \<open>The buffer is not initialised: its contents are a parameter.\<close>

definition IntegerToStringT :: "nat \<Rightarrow> str \<Rightarrow> int \<Rightarrow> str option" where
  "IntegerToStringT w buffer i = do {
     (b, start) \<leftarrow> FastIntToBuffer w i buffer;
     Some (c_str (drop start b)) }"

definition IntegerToString :: "str \<Rightarrow> int \<Rightarrow> str option" where
  "IntegerToString buffer i = IntegerToStringT 32 buffer i"

definition IntegerToString16 :: "str \<Rightarrow> int \<Rightarrow> str option" where
  "IntegerToString16 buffer i = IntegerToStringT 32 buffer i"

definition Integer64ToString :: "str \<Rightarrow> int \<Rightarrow> str option" where
  "Integer64ToString buffer i = IntegerToStringT 64 buffer i"

definition Integer64ToString16 :: "str \<Rightarrow> int \<Rightarrow> str option" where
  "Integer64ToString16 buffer i = IntegerToStringT 64 buffer i"

section \<open>Decimal notation\<close>

function digits_of :: "int \<Rightarrow> str" where
  "digits_of i = (if i < 10 then [48 + i] else digits_of (i div 10) @ [48 + i mod 10])"
  by pat_completeness auto
termination by (relation "measure nat") auto

declare digits_of.simps [simp del]

definition show_int :: "int \<Rightarrow> str" where
  "show_int i = (if i < 0 then 45 # digits_of (- i) else digits_of i)"

lemma digits_of_is_digit: "0 \<le> i \<Longrightarrow> list_all is_digit (digits_of i)"
proof (induction i rule: digits_of.induct)
  case (1 i)
  have "0 \<le> i mod 10" "i mod 10 < 10" by simp_all
  then have d: "is_digit (48 + i mod 10)" by (simp add: is_digit_def)
  show ?case
  proof (cases "i < 10")
    case True
    with 1(2) show ?thesis by (simp add: digits_of.simps is_digit_def)
  next
    case False
    with 1 d show ?thesis by (simp add: digits_of.simps [of i])
  qed
qed

lemma decimal_append: "decimal (ds @ [d]) = 10 * decimal ds + (d - 48)"
  by (simp add: decimal_def)

lemma decimal_digits_of: "0 \<le> i \<Longrightarrow> decimal (digits_of i) = i"
proof (induction i rule: digits_of.induct)
  case (1 i)
  show ?case
  proof (cases "i < 10")
    case True
    with 1(2) show ?thesis by (simp add: digits_of.simps decimal_def)
  next
    case False
    with 1 show ?thesis by (simp add: digits_of.simps [of i] decimal_append)
  qed
qed

text \<open>A number below \<open>10 ^ n\<close> has at most \<open>n\<close> digits.\<close>

lemma length_digits_of: "0 \<le> i \<Longrightarrow> i < 10 ^ n \<Longrightarrow> 0 < n \<Longrightarrow> length (digits_of i) \<le> n"
proof (induction i arbitrary: n rule: digits_of.induct)
  case (1 i)
  show ?case
  proof (cases "i < 10")
    case True
    with 1(4) show ?thesis by (simp add: digits_of.simps)
  next
    case False
    then have n: "1 < n" using 1(3) by (cases n) (auto, metis One_nat_def gr0I less_Suc0 linorder_not_less mult.right_neutral power_0)
    then obtain k where k: "n = Suc k" "0 < k" by (cases n) auto
    have "i div 10 < 10 ^ k" using 1(3) k(1) by simp
    with 1(1) [of k] False 1(2) k show ?thesis by (simp add: digits_of.simps [of i])
  qed
qed

section \<open>The conversion\<close>

text \<open>After a step the buffer holds the written units from \<open>p + 1\<close> on.\<close>

lemma put_back_ok:
  assumes "length b = 22" "0 < p" "p < 22"
  shows "\<exists>b'. put_back c (b, p) = Some (b', p - 1) \<and> length b' = 22 \<and> drop p b' = c # drop (p + 1) b"
  using assms by (simp add: put_back_def)

lemma digits_loop_ok:
  "0 \<le> i \<Longrightarrow> length b = 22 \<Longrightarrow> p < 22 \<Longrightarrow> length (digits_of i) \<le> p \<Longrightarrow>
   \<exists>b'. digits_loop w i (b, p) = Some (b', p - length (digits_of i)) \<and> length b' = 22 \<and>
     drop (p - length (digits_of i) + 1) b' = digits_of i @ drop (p + 1) b"
proof (induction i arbitrary: b p rule: digits_of.induct)
  case (1 i)
  have p: "0 < p" using 1(5) by (cases "i < 10") (auto simp: digits_of.simps [of i])
  from put_back_ok [OF 1(3) p 1(4), of "48 + i mod 10"] obtain b1 where
    b1: "put_back (48 + i mod 10) (b, p) = Some (b1, p - 1)" "length b1 = 22"
    "drop p b1 = (48 + i mod 10) # drop (p + 1) b" by blast
  show ?case
  proof (cases "i < 10")
    case True
    then have "i div 10 = 0" "i mod 10 = i" using 1(2) by simp_all
    with True b1 p show ?thesis by (simp add: digits_loop.simps [of w i] digits_of.simps [of i])
  next
    case False
    then have d: "digits_of i = digits_of (i div 10) @ [48 + i mod 10]" by (simp add: digits_of.simps [of i])
    have "0 \<le> i div 10" "p - 1 < 22" "length (digits_of (i div 10)) \<le> p - 1" using False 1(4,5) d by simp_all
    from 1(1) [OF False this(1) b1(2) this(2,3)] obtain b' where
      "digits_loop w (i div 10) (b1, p - 1) = Some (b', p - 1 - length (digits_of (i div 10)))" "length b' = 22"
      "drop (p - 1 - length (digits_of (i div 10)) + 1) b' = digits_of (i div 10) @ drop (p - 1 + 1) b1" by blast
    with False b1 d p show ?thesis by (simp add: digits_loop.simps [of w i])
  qed
qed

lemma store_minus:
  assumes "length b = 22" "p < 22"
  shows "\<exists>b'. store b p [45] = Some b' \<and> drop p b' = 45 # drop (p + 1) b"
  using assms by simp

lemma digits_of_nonzero: "0 \<le> i \<Longrightarrow> 0 \<notin> set (digits_of i)"
  using digits_of_is_digit [of i] by (auto simp: list_all_iff is_digit_def)

lemma c_str_shown: "0 \<notin> set xs \<Longrightarrow> c_str (xs @ 0 # ys) = xs"
  by (simp add: c_str_def takeWhile_tail) (induction xs, auto)

lemma IntegerToStringT_ok:
  assumes "length buffer = 22" "5 \<le> w" "w \<le> 64" "- (2 ^ (w - 1)) \<le> i" "i < 2 ^ (w - 1)"
  shows "IntegerToStringT w buffer i = Some (show_int i)"
proof -
  have two: "(2 :: int) ^ (w - 1) \<le> 2 ^ 63" "(16 :: int) \<le> 2 ^ (w - 1)"
    using assms(2,3) power_increasing [of "w - 1" 63 "2 :: int"] power_increasing [of 4 "w - 1" "2 :: int"] by simp_all
  obtain b where b: "put_back 0 (buffer, 21) = Some (b, 20)" "length b = 22" "drop 21 b = 0 # drop 22 buffer"
    using put_back_ok [OF assms(1), of 21 0] by auto
  have tail: "drop 21 b = [0]" using b(3) assms(1) by simp
  consider "0 \<le> i" | "i < 0" "-10 < i" | "i \<le> -10" by linarith
  then show ?thesis
  proof cases
    case 1
    have "length (digits_of i) \<le> 20" by (rule length_digits_of) (use 1 assms(5) two(1) in simp_all)
    from digits_loop_ok [OF 1 b(2) _ this, of w] obtain b' where
      "digits_loop w i (b, 20) = Some (b', 20 - length (digits_of i))"
      "drop (20 - length (digits_of i) + 1) b' = digits_of i @ [0]" using tail by auto
    with 1 b(1) c_str_shown [OF digits_of_nonzero [OF 1], of "[]"] show ?thesis
      by (simp add: IntegerToStringT_def FastIntToBuffer_def kFastIntToBufferOffset_def show_int_def)
  next
    case 2
    have f: "fits_int w (- i) = Some (- i)" using 2 two(2) by (simp add: fits_int_def)
    from put_back_ok [OF b(2), of 20 "48 - i"] obtain b1 where
      b1: "put_back (48 - i) (b, 20) = Some (b1, 19)" "length b1 = 22" "drop 20 b1 = (48 - i) # [0]" using tail by auto
    from store_minus [OF b1(2), of 19] obtain b2 where
      b2: "store b1 19 [45] = Some b2" "drop 19 b2 = 45 # (48 - i) # [0]" using b1(3) by auto
    have "c_str [45, 48 - i, 0] = [45, 48 - i]" using 2 c_str_shown [of "[45, 48 - i]" "[]"] by simp
    then show ?thesis using 2 b(1) f b1(1) b2
      by (simp add: IntegerToStringT_def FastIntToBuffer_def kFastIntToBufferOffset_def show_int_def digits_of.simps)
  next
    case 3
    let ?n = "- i"
    have f1: "fits_int w (i + 10) = Some (i + 10)" using 3 assms(4) two(2) by (simp add: fits_int_def)
    have f2: "fits_int w (- (i + 10)) = Some (- (i + 10))" using 3 assms(4) two(2) by (simp add: fits_int_def)
    have m: "- (i + 10) mod 10 = ?n mod 10"
      using mod_add_self2 [of "- (i + 10)" 10] by (simp add: algebra_simps)
    have q: "- (i + 10) div 10 + 1 = ?n div 10"
      using div_add_self2 [of 10 "- (i + 10)"] by (simp add: algebra_simps)
    have pos: "0 < ?n div 10" using 3 by linarith
    have "?n div 10 < 2 ^ (w - 1)" using 3 assms(4) two(2) by linarith
    then have f3: "fits_int w (?n div 10) = Some (?n div 10)"
      using pos two(2) by (simp add: fits_int_def)
    from put_back_ok [OF b(2), of 20 "48 + ?n mod 10"] obtain b1 where
      b1: "put_back (48 + ?n mod 10) (b, 20) = Some (b1, 19)" "length b1 = 22" "drop 20 b1 = (48 + ?n mod 10) # [0]"
      using tail by auto
    have "?n div 10 < 10 ^ 18" using assms(4) two(1) by simp
    then have len: "length (digits_of (?n div 10)) \<le> 18" using pos by (intro length_digits_of) simp_all
    from digits_loop_ok [of "?n div 10" b1 19 w] pos b1(2,3) len obtain b2 where
      b2: "digits_loop w (?n div 10) (b1, 19) = Some (b2, 19 - length (digits_of (?n div 10)))" "length b2 = 22"
      "drop (19 - length (digits_of (?n div 10)) + 1) b2 = digits_of (?n div 10) @ [48 + ?n mod 10, 0]" by auto
    have "19 - length (digits_of (?n div 10)) < 22" by simp
    from store_minus [OF b2(2) this] obtain b3 where
      b3: "store b2 (19 - length (digits_of (?n div 10))) [45] = Some b3"
      "drop (19 - length (digits_of (?n div 10))) b3 = 45 # digits_of (?n div 10) @ [48 + ?n mod 10, 0]"
      using b2(3) by auto
    have d: "digits_of ?n = digits_of (?n div 10) @ [48 + ?n mod 10]" using 3 by (simp add: digits_of.simps [of ?n])
    have "0 \<notin> set (45 # digits_of ?n)" using digits_of_nonzero [of ?n] 3 by simp
    then have "c_str ((45 # digits_of ?n) @ 0 # []) = 45 # digits_of ?n" by (rule c_str_shown)
    then have cs: "c_str (45 # digits_of (?n div 10) @ [48 + ?n mod 10, 0]) = 45 # digits_of ?n" unfolding d by simp
    have "FastIntToBuffer w i buffer = Some (b3, 19 - length (digits_of (?n div 10)))"
      unfolding FastIntToBuffer_def kFastIntToBufferOffset_def using 3 b(1) f1 f2 f3 m q b1(1) b2(1) b3(1)
      by (simp del: minus_add_distrib)
    with b3(2) cs 3 show ?thesis by (simp add: IntegerToStringT_def show_int_def)
  qed
qed

section \<open>Properties\<close>

text \<open>
  \<open>IntegerToString\<close> of every \<open>int32\<close>, the smallest included, writes inside its buffer, computes
  no value outside the type, and returns the decimal notation, which \<open>StringToInt\<close> reads back.
\<close>

theorem integer_to_string_round_trip:
  assumes "length buffer = 22" "- (2 ^ 31) \<le> i" "i < 2 ^ 31"
  shows "\<exists>s. IntegerToString buffer i = Some s \<and> s = show_int i \<and> StringTToInt s = Some i"
proof -
  have "IntegerToString buffer i = Some (show_int i)"
    unfolding IntegerToString_def by (rule IntegerToStringT_ok) (use assms in simp_all)
  moreover have "StringTToInt (show_int i) = Some i"
  proof (cases "i < 0")
    case True
    then have "0 \<le> - i" by simp
    from StringTToInt_signed(2) [OF digits_of_nonzero [OF this]] digits_of_is_digit [OF this] decimal_digits_of [OF this] True assms(2)
    show ?thesis by (simp add: show_int_def)
  next
    case False
    then have "0 \<le> i" by simp
    note facts = digits_of_nonzero [OF this] digits_of_is_digit [OF this] decimal_digits_of [OF this]
    have "deref (digits_of i) \<noteq> 45" "deref (digits_of i) \<noteq> 43"
      using facts(2) by (auto simp: deref_def is_digit_def split: list.splits)
    from StringTToInt_unsigned [OF facts(1) this] facts False assms(3) show ?thesis by (simp add: show_int_def)
  qed
  ultimately show ?thesis by blast
qed

lemma integer_to_string_round_trip_witness:
  "\<exists>s. IntegerToString (replicate 22 7) (- 2147483648) = Some s \<and> StringTToInt s = Some (- 2147483648)"
  using integer_to_string_round_trip [of "replicate 22 7" "- 2147483648"] by auto

text \<open>The functions for \<open>int64\<close> return the decimal notation as well.\<close>

lemma integer64_to_string_shows:
  "length buffer = 22 \<Longrightarrow> - (2 ^ 63) \<le> i \<Longrightarrow> i < 2 ^ 63 \<Longrightarrow> Integer64ToString buffer i = Some (show_int i)"
  unfolding Integer64ToString_def by (rule IntegerToStringT_ok) simp_all

end
