(* ===== verification/SecurityOrigins.thy ===== *)
theory SecurityOrigins
  imports UrlUtils IntStrings
begin

text \<open>
  Origins of URLs: \<open>SecurityOrigin\<close> of \<open>src/common/security_model.h\<close> and
  \<open>src/common/security_model.cc\<close>. The parser \<open>url_parse\<close> and the constants \<open>HttpConstants\<close>, which
  are not part of the sources, are parameters.
\<close>

section \<open>Operations\<close>

text \<open>What \<open>ParseStandardURL\<close> finds; a component that is absent has the length -1.\<close>

record parsed =
  username :: component
  password :: component
  p_host :: component
  p_port :: component

record web =
  ExtractScheme :: "str \<Rightarrow> component option"
  ParseStandardURL :: "str \<Rightarrow> parsed"
  IsDefaultPort :: "str \<Rightarrow> int \<Rightarrow> bool"
  kHttpsScheme :: str
  kFileScheme :: str
  kResScheme :: str
  kHttpsDefaultPort :: int
  kHttpDefaultPort :: int
  int_buffer :: str

record SecurityOrigin =
  initialized :: bool
  so_url :: str
  full_url :: str
  scheme :: str
  host :: str
  so_port :: int
  port_string :: str

definition SecurityOrigin_new :: SecurityOrigin where
  "SecurityOrigin_new = \<lparr>initialized = False, so_url = [], full_url = [], scheme = [], host = [], so_port = 0,
     port_string = []\<rparr>"

definition kUnknownDomain :: str where
  "kUnknownDomain = units ''_null_.localdomain''"

definition CopyFrom :: "SecurityOrigin \<Rightarrow> SecurityOrigin" where
  "CopyFrom o1 = \<lparr>initialized = initialized o1, so_url = c_str (so_url o1), full_url = c_str (full_url o1),
     scheme = c_str (scheme o1), host = c_str (host o1), so_port = so_port o1,
     port_string = c_str (port_string o1)\<rparr>"

definition SecurityOrigin_Init ::
    "web \<Rightarrow> str \<Rightarrow> str \<Rightarrow> str \<Rightarrow> int \<Rightarrow> SecurityOrigin \<Rightarrow> (bool \<times> SecurityOrigin) option" where
  "SecurityOrigin_Init W url1 scheme1 host1 port1 s =
     (if deref url1 = 0 \<or> deref scheme1 = 0 \<or> deref host1 = 0 then Some (False, s)
      else do {
        port_str \<leftarrow> IntegerToString16 (int_buffer W) port1;
        let sch = LowerString (c_str scheme1);
        let base = sch @ units ''://'' @ c_str host1;
        Some (True, s\<lparr>full_url := c_str url1, scheme := sch, host := LowerString (c_str host1), so_port := port1,
          port_string := port_str,
          so_url := (if \<not> IsDefaultPort W sch port1 then base @ units '':'' @ port_str else base),
          initialized := True\<rparr>) })"

definition InitFromUrl :: "web \<Rightarrow> str \<Rightarrow> SecurityOrigin \<Rightarrow> (bool \<times> SecurityOrigin) option" where
  "InitFromUrl W url1 s0 =
     (let s = s0\<lparr>initialized := False\<rparr>
      in case ExtractScheme W url1 of
           None \<Rightarrow> Some (False, s)
         | Some scheme_comp \<Rightarrow>
             let sch = LowerString (component_str url1 scheme_comp)
             in if sch = units ''http'' \<or> sch = units ''https'' then
                  let p = ParseStandardURL W url1
                  in if snd (username p) \<noteq> -1 \<or> snd (password p) \<noteq> -1 then Some (False, s)
                     else if snd (p_host p) = -1 then Some (False, s)
                     else let port1 = (if snd (p_port p) > 0
                                then sint (fst (ParseLeadingInteger (c_str (component_str url1 (p_port p)))))
                                else if sch = kHttpsScheme W then kHttpsDefaultPort W
                                else kHttpDefaultPort W)
                          in SecurityOrigin_Init W url1 sch (component_str url1 (p_host p)) port1 s
                else if sch = units ''file'' then SecurityOrigin_Init W url1 (kFileScheme W) kUnknownDomain 0 s
                else if sch = units ''res'' then SecurityOrigin_Init W url1 (kResScheme W) kUnknownDomain 0 s
                else Some (False, s))"

definition IsSameOrigin :: "SecurityOrigin \<Rightarrow> SecurityOrigin \<Rightarrow> bool option" where
  "IsSameOrigin this other = do {
     assert_that (initialized this);
     assert_that (initialized other);
     Some (so_port this = so_port other \<and> scheme this = scheme other \<and> host this = host other) }"

definition IsSameOriginAsUrl :: "web \<Rightarrow> SecurityOrigin \<Rightarrow> str \<Rightarrow> bool option" where
  "IsSameOriginAsUrl W this url1 = do {
     (ok, origin) \<leftarrow> InitFromUrl W url1 SecurityOrigin_new;
     if ok then IsSameOrigin this origin else Some False }"

text \<open>
  The loop over both hosts from their ends; to read behind the beginning of a host has no result.
\<close>

fun host_loop :: "str \<Rightarrow> str \<Rightarrow> bool option" where
  "host_loop (r # rhost) (p # parent_rhost) =
     (if r \<noteq> p then Some False
      else if parent_rhost = [] then
        case rhost of [] \<Rightarrow> Some True | c # _ \<Rightarrow> Some (c = 46)
      else host_loop rhost parent_rhost)"
| "host_loop rhost parent_rhost = None"

definition IsSubDomainOf :: "SecurityOrigin \<Rightarrow> SecurityOrigin \<Rightarrow> bool option" where
  "IsSubDomainOf this parent =
     (if so_port this \<noteq> so_port parent \<or> scheme this \<noteq> scheme parent \<or> length (host this) < length (host parent)
      then Some False
      else host_loop (rev (host this)) (rev (host parent)))"

text \<open>The list of the release build.\<close>

definition kAuthorized :: "str list" where
  "kAuthorized = map units
     [''http://mail.163.com'', ''http://email.163.com'', ''http://126.com'', ''http://mail.126.net'',
      ''http://yeah.net'', ''http://vip.163.com'', ''http://188.com'', ''http://e.163.com'',
      ''http://webim.163.com'', ''http://mailease.163.com'',
      ''https://mail.163.com'', ''https://email.163.com'', ''https://126.com'', ''https://mail.126.net'',
      ''https://yeah.net'', ''https://vip.163.com'', ''https://188.com'', ''https://e.163.com'',
      ''https://webim.163.com'', ''https://mailease.163.com'']"

fun init_all :: "web \<Rightarrow> str list \<Rightarrow> SecurityOrigin list option" where
  "init_all W [] = Some []"
| "init_all W (u # us) = do {
     (_, d) \<leftarrow> InitFromUrl W u (CopyFrom SecurityOrigin_new);
     ds \<leftarrow> init_all W us;
     Some (d # ds) }"

fun any_sub_domain :: "SecurityOrigin \<Rightarrow> SecurityOrigin list \<Rightarrow> bool option" where
  "any_sub_domain this [] = Some False"
| "any_sub_domain this (d # ds) = do {
     r \<leftarrow> IsSubDomainOf this d;
     if r then Some True else any_sub_domain this ds }"

definition IsAuthorizedOrigin :: "web \<Rightarrow> SecurityOrigin \<Rightarrow> bool option" where
  "IsAuthorizedOrigin W this = do {
     authorized_domains \<leftarrow> init_all W kAuthorized;
     any_sub_domain this authorized_domains }"

section \<open>Sub-domains\<close>

definition sub_host :: "str \<Rightarrow> str \<Rightarrow> bool" where
  "sub_host h p \<longleftrightarrow> h = p \<or> suffix (46 # p) h"

lemma host_loop_iff:
  "p \<noteq> [] \<Longrightarrow> length p \<le> length r \<Longrightarrow> host_loop r p = Some (r = p \<or> prefix (p @ [46]) r)"
proof (induction r p rule: host_loop.induct)
  case (1 r rhost p parent_rhost)
  show ?case
  proof (cases "r = p \<and> parent_rhost \<noteq> []")
    case True
    with 1 show ?thesis by simp
  next
    case False
    then show ?thesis by (auto split: list.splits)
  qed
qed simp_all

lemma IsSubDomainOf_iff:
  assumes "host parent \<noteq> []"
  shows "IsSubDomainOf this parent = Some (so_port this = so_port parent \<and> scheme this = scheme parent \<and>
    sub_host (host this) (host parent))"
proof (cases "so_port this \<noteq> so_port parent \<or> scheme this \<noteq> scheme parent \<or> length (host this) < length (host parent)")
  case True
  have "length (host this) < length (host parent) \<Longrightarrow> \<not> sub_host (host this) (host parent)"
    by (auto simp: sub_host_def suffix_def)
  with True show ?thesis by (auto simp: IsSubDomainOf_def)
next
  case False
  have "host_loop (rev (host this)) (rev (host parent)) =
      Some (rev (host this) = rev (host parent) \<or> prefix (rev (host parent) @ [46]) (rev (host this)))"
    using assms False by (intro host_loop_iff) simp_all
  moreover have "prefix (rev (host parent) @ [46]) (rev (host this)) \<longleftrightarrow> suffix (46 # host parent) (host this)"
    by (simp add: suffix_to_prefix)
  ultimately show ?thesis using False by (simp add: IsSubDomainOf_def sub_host_def)
qed

lemma any_sub_domain_iff:
  "\<forall>d\<in>set ds. host d \<noteq> [] \<Longrightarrow>
     any_sub_domain this ds = Some (\<exists>d\<in>set ds. so_port this = so_port d \<and> scheme this = scheme d \<and>
       sub_host (host this) (host d))"
  by (induction ds) (auto simp: IsSubDomainOf_iff)

section \<open>Well-formed origins\<close>

definition is_lower :: "str \<Rightarrow> bool" where
  "is_lower s \<longleftrightarrow> LowerString s = s"

text \<open>The strings of an initialised origin.\<close>

definition origin_ok :: "SecurityOrigin \<Rightarrow> bool" where
  "origin_ok o1 \<longleftrightarrow> initialized o1 \<and> scheme o1 \<noteq> [] \<and> host o1 \<noteq> [] \<and> is_lower (scheme o1) \<and> is_lower (host o1) \<and>
     0 \<notin> set (scheme o1) \<union> set (host o1) \<union> set (so_url o1) \<union> set (full_url o1) \<union> set (port_string o1)"

lemma tolower_idem: "tolower (tolower c) = tolower c"
  by (simp add: tolower_def)

lemma LowerString_simps [simp]: "is_lower (LowerString s)" "0 \<in> set (LowerString s) \<longleftrightarrow> 0 \<in> set s"
  "LowerString s = [] \<longleftrightarrow> s = []"
  by (auto simp: is_lower_def LowerString_def tolower_idem comp_def) (auto simp: tolower_def image_iff split: if_splits)

lemma c_str_facts [simp]: "0 \<notin> set (c_str s)" "deref s \<noteq> 0 \<Longrightarrow> c_str s \<noteq> []"
  by (auto simp: c_str_def deref_def dest: set_takeWhileD split: list.splits)

lemma no_nul_show_int: "0 \<notin> set (show_int i)"
  using digits_of_nonzero [of i] digits_of_nonzero [of "- i"] by (auto simp: show_int_def)

definition web_ok :: "web \<Rightarrow> bool" where
  "web_ok W \<longleftrightarrow> length (int_buffer W) = 22 \<and> kHttpsScheme W = units ''https'' \<and> kFileScheme W = units ''file'' \<and>
     kResScheme W = units ''res'' \<and> kHttpsDefaultPort W = 443 \<and> kHttpDefaultPort W = 80"

lemma Init_ok:
  assumes "length (int_buffer W) = 22" "- (2 ^ 31) \<le> port1" "port1 < 2 ^ 31"
  shows "SecurityOrigin_Init W url1 scheme1 host1 port1 s =
     (if deref url1 = 0 \<or> deref scheme1 = 0 \<or> deref host1 = 0 then Some (False, s)
      else Some (True, \<lparr>initialized = True,
        so_url = LowerString (c_str scheme1) @ units ''://'' @ c_str host1 @
          (if IsDefaultPort W (LowerString (c_str scheme1)) port1 then [] else units '':'' @ show_int port1),
        full_url = c_str url1, scheme = LowerString (c_str scheme1), host = LowerString (c_str host1),
        so_port = port1, port_string = show_int port1\<rparr>))"
proof -
  have "IntegerToString16 (int_buffer W) port1 = Some (show_int port1)"
    unfolding IntegerToString16_def by (rule IntegerToStringT_ok) (use assms in simp_all)
  then show ?thesis by (cases s) (simp add: SecurityOrigin_Init_def Let_def)
qed

lemma Init_origin_ok:
  assumes "length (int_buffer W) = 22" "- (2 ^ 31) \<le> port1" "port1 < 2 ^ 31"
  shows "\<exists>r s'. SecurityOrigin_Init W url1 scheme1 host1 port1 s = Some (r, s') \<and>
    (if r then origin_ok s' \<and> so_port s' = port1 else s' = s)"
  using no_nul_show_int [of port1] unfolding Init_ok [OF assms] by (auto simp: origin_ok_def units_def)

lemma sint_range: "- (2 ^ 31) \<le> sint (w :: int32)" "sint (w :: int32) < 2 ^ 31"
  using sint_greater_eq [of w] sint_less [of w] by simp_all

lemma InitFromUrl_total:
  assumes "web_ok W"
  shows "\<exists>r s'. InitFromUrl W url1 s = Some (r, s') \<and> (if r then origin_ok s' else \<not> initialized s')"
proof -
  have buf: "length (int_buffer W) = 22" using assms by (simp add: web_ok_def)
  have init: "\<exists>r s'. SecurityOrigin_Init W url1 sc ho po (s\<lparr>initialized := False\<rparr>) = Some (r, s') \<and>
      (if r then origin_ok s' else \<not> initialized s')" if "- (2 ^ 31) \<le> po" "po < 2 ^ 31" for sc ho po
  proof -
    note i = Init_origin_ok [OF buf that, of url1 sc ho "s\<lparr>initialized := False\<rparr>"]
    from i obtain r s' where r: "SecurityOrigin_Init W url1 sc ho po (s\<lparr>initialized := False\<rparr>) = Some (r, s')"
      "if r then origin_ok s' \<and> so_port s' = po else s' = s\<lparr>initialized := False\<rparr>" by blast
    then show ?thesis by (cases r) auto
  qed
  show ?thesis
  proof (cases "ExtractScheme W url1")
    case None
    then show ?thesis by (auto simp: InitFromUrl_def)
  next
    case (Some c)
    define sch where "sch = LowerString (component_str url1 c)"
    let ?p = "ParseStandardURL W url1"
    define po where "po = (if snd (p_port ?p) > 0
        then sint (fst (ParseLeadingInteger (c_str (component_str url1 (p_port ?p)))))
        else if sch = kHttpsScheme W then kHttpsDefaultPort W else kHttpDefaultPort W)"
    have po: "- (2 ^ 31) \<le> po" "po < 2 ^ 31" using assms sint_range by (auto simp: po_def web_ok_def)
    define P where "P x = (\<exists>r s'. x = Some (r, s') \<and> (if r then origin_ok s' else \<not> initialized s'))" for x
    have i: "P (SecurityOrigin_Init W url1 sch (component_str url1 (p_host ?p)) po (s\<lparr>initialized := False\<rparr>))"
      "P (SecurityOrigin_Init W url1 (kFileScheme W) kUnknownDomain 0 (s\<lparr>initialized := False\<rparr>))"
      "P (SecurityOrigin_Init W url1 (kResScheme W) kUnknownDomain 0 (s\<lparr>initialized := False\<rparr>))"
      "P (Some (False, s\<lparr>initialized := False\<rparr>))"
      unfolding P_def using init [OF po] init [of 0 "kFileScheme W" kUnknownDomain]
        init [of 0 "kResScheme W" kUnknownDomain] by auto
    have "P (InitFromUrl W url1 s)"
      unfolding InitFromUrl_def Let_def Some option.case sch_def [symmetric] po_def [symmetric]
      using i by (simp only: if_split [of P] split: if_split) simp
    then show ?thesis by (simp only: P_def)
  qed
qed

lemma c_str_id: "0 \<notin> set s \<Longrightarrow> c_str s = s"
  by simp

lemma CopyFrom_id: "origin_ok o1 \<Longrightarrow> CopyFrom o1 = o1"
  by (simp add: origin_ok_def CopyFrom_def)

section \<open>Properties\<close>

text \<open>
  C38. Every initialised origin is well-formed: \<open>InitFromUrl\<close> returns, and leaves the origin either
  not initialised, with the result \<open>false\<close>, or with a scheme and a host in lower case, neither empty,
  and strings without null units, so that copying it is the identity.
\<close>

theorem init_from_url_well_formed:
  assumes "web_ok W"
  shows "\<exists>r s'. InitFromUrl W url1 s = Some (r, s') \<and>
    (if r then origin_ok s' \<and> CopyFrom s' = s' else \<not> initialized s')"
proof -
  from InitFromUrl_total [OF assms, of url1 s] obtain r s' where
    "InitFromUrl W url1 s = Some (r, s')" "if r then origin_ok s' else \<not> initialized s'" by blast
  then show ?thesis by (cases r) (auto simp: CopyFrom_id)
qed

text \<open>
  A parser for URLs of the form \<open>scheme://host\<close>: the scheme is the part before the first colon, the
  host the part behind the two slashes.
\<close>

definition simple_web :: web where
  "simple_web = \<lparr>ExtractScheme = (\<lambda>u. if 58 \<in> set u then Some (0, int (length (takeWhile (\<lambda>c. c \<noteq> 58) u))) else None),
     ParseStandardURL = (\<lambda>u. let n = length (takeWhile (\<lambda>c. c \<noteq> 58) u) in
       \<lparr>username = (0, -1), password = (0, -1), p_host = (n + 3, int (length u) - int n - 3), p_port = (0, -1)\<rparr>),
     IsDefaultPort = (\<lambda>s p. (s = units ''http'' \<and> p = 80) \<or> (s = units ''https'' \<and> p = 443)),
     kHttpsScheme = units ''https'', kFileScheme = units ''file'', kResScheme = units ''res'',
     kHttpsDefaultPort = 443, kHttpDefaultPort = 80, int_buffer = replicate 22 0\<rparr>"

lemma simple_web_ok: "web_ok simple_web"
  by (simp add: web_ok_def simple_web_def)

lemma init_from_url_well_formed_witness:
  "\<exists>r s'. InitFromUrl simple_web (units ''HTTP://Example.COM'') SecurityOrigin_new = Some (r, s') \<and>
     (if r then origin_ok s' \<and> CopyFrom s' = s' else \<not> initialized s')"
  by (rule init_from_url_well_formed [OF simple_web_ok])

text \<open>
  \<open>IsSubDomainOf\<close> holds exactly for origins with the same port and scheme whose host is the
  host of the parent or ends with a dot and the host of the parent; its loop over the two hosts from
  their ends reads nothing before their beginnings.
\<close>

theorem is_sub_domain_of_reference:
  assumes "host parent \<noteq> []"
  shows "IsSubDomainOf this parent = Some (so_port this = so_port parent \<and> scheme this = scheme parent \<and>
    (host this = host parent \<or> suffix (46 # host parent) (host this)))"
  using IsSubDomainOf_iff [OF assms, of this] by (simp add: sub_host_def)

lemma is_sub_domain_of_reference_witness:
  "IsSubDomainOf (SecurityOrigin_new\<lparr>host := units ''evil-163.com''\<rparr>) (SecurityOrigin_new\<lparr>host := units ''163.com''\<rparr>) = Some False"
  by (subst is_sub_domain_of_reference) (simp_all add: units_def suffix_def SecurityOrigin_new_def eval_nat_numeral
      Cons_eq_append_conv)

text \<open>The authorised hosts, and what the parser is known to do on the entries of the list.\<close>

definition authorized_hosts :: "str list" where
  "authorized_hosts = map units
     [''mail.163.com'', ''email.163.com'', ''126.com'', ''mail.126.net'', ''yeah.net'', ''vip.163.com'',
      ''188.com'', ''e.163.com'', ''webim.163.com'', ''mailease.163.com'']"

lemma kAuthorized_split:
  "kAuthorized = map (\<lambda>h. units ''http'' @ units ''://'' @ h) authorized_hosts @
     map (\<lambda>h. units ''https'' @ units ''://'' @ h) authorized_hosts"
  by (simp add: kAuthorized_def authorized_hosts_def units_def)

definition parses_plain :: "web \<Rightarrow> str \<Rightarrow> str \<Rightarrow> bool" where
  "parses_plain W sch h \<longleftrightarrow>
     (let u = sch @ units ''://'' @ h; p = ParseStandardURL W u
      in ExtractScheme W u = Some (0, int (length sch)) \<and> snd (username p) = -1 \<and> snd (password p) = -1 \<and>
         p_host p = (length sch + 3, int (length h)) \<and> snd (p_port p) = -1)"

lemma InitFromUrl_plain:
  assumes "web_ok W" "parses_plain W sch h" "sch = units ''http'' \<or> sch = units ''https''" "h \<noteq> []" "0 \<notin> set h"
    "is_lower h"
  shows "\<exists>d. InitFromUrl W (sch @ units ''://'' @ h) s = Some (True, d) \<and> scheme d = sch \<and> host d = h \<and>
    so_port d = (if sch = units ''https'' then 443 else 80)"
proof -
  let ?u = "sch @ units ''://'' @ h"
  have sch: "LowerString sch = sch" "deref sch \<noteq> 0" "0 \<notin> set sch"
    using assms(3) by (auto simp: LowerString_def tolower_def units_def)
  have comp: "component_str ?u (0, int (length sch)) = sch"
    "component_str ?u (length sch + 3, int (length h)) = h"
    by (simp_all add: component_str_def units_def)
  have h: "deref h \<noteq> 0" "LowerString h = h" using assms(4-6) by (cases h; auto simp: is_lower_def)+
  have u: "deref ?u \<noteq> 0" using assms(3) by (auto simp: units_def)
  let ?port = "if sch = units ''https'' then 443 else 80 :: int"
  have W: "length (int_buffer W) = 22" "kHttpsScheme W = units ''https''" "kHttpsDefaultPort W = 443" "kHttpDefaultPort W = 80"
    using assms(1) by (simp_all add: web_ok_def)
  have p: "ExtractScheme W ?u = Some (0, int (length sch))" "snd (username (ParseStandardURL W ?u)) = -1"
    "snd (password (ParseStandardURL W ?u)) = -1" "p_host (ParseStandardURL W ?u) = (length sch + 3, int (length h))"
    "snd (p_port (ParseStandardURL W ?u)) = -1"
    using assms(2) by (simp_all add: parses_plain_def Let_def)
  have "InitFromUrl W ?u s = SecurityOrigin_Init W ?u sch h ?port (s\<lparr>initialized := False\<rparr>)"
    unfolding InitFromUrl_def Let_def p(1) option.case comp sch(1)
    using assms(3) p(2-5) comp(2) W(2-4) by auto
  moreover have "- (2 ^ 31) \<le> ?port" "?port < 2 ^ 31" by simp_all
  ultimately show ?thesis
    using Init_ok [OF W(1) \<open>- (2 ^ 31) \<le> ?port\<close> \<open>?port < 2 ^ 31\<close>, of ?u sch h] u sch h assms(5)
    by (simp del: deref_simps)
qed

lemma init_all_plain:
  assumes "web_ok W" "sch = units ''http'' \<or> sch = units ''https''"
  shows "\<forall>h\<in>set hs. parses_plain W sch h \<and> h \<noteq> [] \<and> 0 \<notin> set h \<and> is_lower h \<Longrightarrow>
    init_all W us = Some es \<Longrightarrow>
    \<exists>ds. init_all W (map (\<lambda>h. sch @ units ''://'' @ h) hs @ us) = Some (ds @ es) \<and> map host ds = hs \<and>
      (\<forall>d\<in>set ds. scheme d = sch \<and> so_port d = (if sch = units ''https'' then 443 else 80))"
proof (induction hs)
  case (Cons h hs)
  then have "parses_plain W sch h" "h \<noteq> []" "0 \<notin> set h" "is_lower h" by auto
  from InitFromUrl_plain [OF assms(1) this(1) assms(2) this(2-4)] obtain d where
    d: "InitFromUrl W (sch @ units ''://'' @ h) (CopyFrom SecurityOrigin_new) = Some (True, d)" "scheme d = sch" "host d = h"
    "so_port d = (if sch = units ''https'' then 443 else 80)" by blast
  from Cons obtain ds where "init_all W (map (\<lambda>h. sch @ units ''://'' @ h) hs @ us) = Some (ds @ es)" "map host ds = hs"
    "\<forall>d\<in>set ds. scheme d = sch \<and> so_port d = (if sch = units ''https'' then 443 else 80)" by auto
  with d show ?case by (intro exI [of _ "d # ds"]) simp
qed simp

lemma authorized_hosts_facts:
  "h \<in> set authorized_hosts \<Longrightarrow> h \<noteq> [] \<and> 0 \<notin> set h \<and> is_lower h"
proof -
  have "list_all (\<lambda>h. h \<noteq> [] \<and> 0 \<notin> set h \<and> is_lower h) authorized_hosts" by code_simp
  then show "h \<in> set authorized_hosts \<Longrightarrow> ?thesis" unfolding list_all_iff by blast
qed

text \<open>
  C25. \<open>IsAuthorizedOrigin\<close>, when the parser finds scheme and host of the entries of the list, holds
  exactly for http at port 80 and https at port 443 with one of the ten hosts or a host that ends with
  a dot and one of them.
\<close>

theorem is_authorized_origin_reference:
  assumes "web_ok W"
    and "\<forall>h\<in>set authorized_hosts. parses_plain W (units ''http'') h \<and> parses_plain W (units ''https'') h"
  shows "IsAuthorizedOrigin W this = Some
    ((scheme this = units ''http'' \<and> so_port this = 80 \<or> scheme this = units ''https'' \<and> so_port this = 443) \<and>
     (\<exists>h\<in>set authorized_hosts. host this = h \<or> suffix (46 # h) (host this)))"
proof -
  have facts: "\<forall>h\<in>set authorized_hosts. parses_plain W (units ''https'') h \<and> h \<noteq> [] \<and> 0 \<notin> set h \<and> is_lower h"
    "\<forall>h\<in>set authorized_hosts. parses_plain W (units ''http'') h \<and> h \<noteq> [] \<and> 0 \<notin> set h \<and> is_lower h"
    using assms(2) authorized_hosts_facts by auto
  have ne: "units ''http'' \<noteq> units ''https''" by (simp add: units_def)
  from init_all_plain [OF assms(1) _ facts(1), of "[]" "[]"] obtain es where
    es: "init_all W (map (\<lambda>h. units ''https'' @ units ''://'' @ h) authorized_hosts) = Some es" "map host es = authorized_hosts"
    "\<forall>d\<in>set es. scheme d = units ''https'' \<and> so_port d = 443" by auto
  from init_all_plain [OF assms(1) _ facts(2) es(1)] ne obtain ds where
    ds: "init_all W kAuthorized = Some (ds @ es)" "map host ds = authorized_hosts"
    "\<forall>d\<in>set ds. scheme d = units ''http'' \<and> so_port d = 80" unfolding kAuthorized_split by auto
  have sets: "host ` set es = set authorized_hosts" "host ` set ds = set authorized_hosts"
    using es(2) ds(2) by (metis list.set_map)+
  have "\<forall>d\<in>set (ds @ es). host d \<noteq> []" using sets authorized_hosts_facts by (auto dest!: equalityD1)
  from any_sub_domain_iff [OF this, of this] have
    "IsAuthorizedOrigin W this = Some (\<exists>d\<in>set (ds @ es). so_port this = so_port d \<and> scheme this = scheme d \<and>
       sub_host (host this) (host d))" using ds(1) by (simp add: IsAuthorizedOrigin_def)
  moreover have "(\<exists>d\<in>set ds. so_port this = so_port d \<and> scheme this = scheme d \<and> sub_host (host this) (host d)) \<longleftrightarrow>
      so_port this = 80 \<and> scheme this = units ''http'' \<and> (\<exists>h\<in>set authorized_hosts. sub_host (host this) h)"
    unfolding sets(2) [symmetric] using ds(3) by auto
  moreover have "(\<exists>d\<in>set es. so_port this = so_port d \<and> scheme this = scheme d \<and> sub_host (host this) (host d)) \<longleftrightarrow>
      so_port this = 443 \<and> scheme this = units ''https'' \<and> (\<exists>h\<in>set authorized_hosts. sub_host (host this) h)"
    unfolding sets(1) [symmetric] using es(3) by auto
  ultimately show ?thesis by (auto simp: sub_host_def bex_Un)
qed

lemma is_authorized_origin_reference_witness:
  "IsAuthorizedOrigin simple_web (SecurityOrigin_new\<lparr>scheme := units ''https'', host := units ''a.126.com'', so_port := 443\<rparr>) = Some True"
proof -
  have "list_all (\<lambda>h. parses_plain simple_web (units ''http'') h \<and> parses_plain simple_web (units ''https'') h) authorized_hosts"
    by code_simp
  then have "\<forall>h\<in>set authorized_hosts. parses_plain simple_web (units ''http'') h \<and> parses_plain simple_web (units ''https'') h"
    by (simp add: list_all_iff)
  from is_authorized_origin_reference [OF simple_web_ok this] show ?thesis
    by (simp add: authorized_hosts_def units_def suffix_def Cons_eq_append_conv)
qed

text \<open>
  Two origins that differ in the case of the host letters only are the same origin, but their
  \<open>url()\<close> differs: \<open>Init\<close> composes it from the host as it was given.
\<close>

theorem same_origin_different_url:
  assumes "web_ok W" "- (2 ^ 31) \<le> port1" "port1 < 2 ^ 31"
    and "SecurityOrigin_Init W u1 sc h1 port1 s1 = Some (True, a)"
    and "SecurityOrigin_Init W u2 sc h2 port1 s2 = Some (True, b)"
    and "LowerString (c_str h1) = LowerString (c_str h2)"
  shows "IsSameOrigin a b = Some True \<and> (so_url a = so_url b \<longleftrightarrow> c_str h1 = c_str h2)"
proof -
  have buf: "length (int_buffer W) = 22" using assms(1) by (simp add: web_ok_def)
  have "length (LowerString (c_str h1)) = length (LowerString (c_str h2))" using assms(6) by simp
  then have len: "length (c_str h1) = length (c_str h2)" by simp
  from assms(4,5) show ?thesis
    unfolding Init_ok [OF buf assms(2,3)] using assms(6) len by (auto simp: IsSameOrigin_def split: if_splits)
qed

lemma same_origin_different_url_witness:
  "\<exists>a b. SecurityOrigin_Init simple_web [104] (units ''http'') (units ''A.com'') 80 SecurityOrigin_new = Some (True, a) \<and>
     SecurityOrigin_Init simple_web [104] (units ''http'') (units ''a.com'') 80 SecurityOrigin_new = Some (True, b) \<and>
     IsSameOrigin a b = Some True \<and> so_url a \<noteq> so_url b"
proof -
  have buf: "length (int_buffer simple_web) = 22" by (simp add: simple_web_def)
  have i: "\<exists>a. SecurityOrigin_Init simple_web [104] (units ''http'') h 80 SecurityOrigin_new = Some (True, a)"
    if "deref h \<noteq> 0" for h
    using Init_ok [OF buf, of 80 "[104]" "units ''http''" h SecurityOrigin_new] that by (simp add: units_def)
  obtain a where a: "SecurityOrigin_Init simple_web [104] (units ''http'') (units ''A.com'') 80 SecurityOrigin_new = Some (True, a)"
    using i [of "units ''A.com''"] by (auto simp: units_def)
  obtain b where b: "SecurityOrigin_Init simple_web [104] (units ''http'') (units ''a.com'') 80 SecurityOrigin_new = Some (True, b)"
    using i [of "units ''a.com''"] by (auto simp: units_def)
  have "LowerString (c_str (units ''A.com'')) = LowerString (c_str (units ''a.com''))"
    "c_str (units ''A.com'') \<noteq> c_str (units ''a.com'')" by code_simp+
  with same_origin_different_url [OF simple_web_ok _ _ a b] a b show ?thesis by auto
qed

end
