(* ===== verification/AtomicLists.thy ===== *)
theory AtomicLists
  imports Prelude "HOL-Library.Multiset" "HOL-Library.Sublist"
begin

text \<open>
  The lock-free list of \<open>src/common/atomic_list.h\<close> and the \<open>LazySingleton\<close> of
  \<open>src/common/atomic_ops.h\<close>. Threads are interleaved at every access to shared memory, which is
  sequentially consistent; \<open>CompareAndSwap\<close> is one step. Nodes are never freed.
\<close>

section \<open>Operations of the list\<close>

record 'v node =
  nd_value :: 'v
  nd_next :: "nat option"

text \<open>
  Where a thread is: \<open>Scan\<close> to \<open>Advance\<close> are the loop of \<open>put\<close>, \<open>ReadHead\<close> and \<open>Push\<close> the
  loop of \<open>push_front\<close>; \<open>Dismiss\<close> has to read the value that it passes to \<open>CompareAndSwap\<close>;
  \<open>Walk\<close> and \<open>WalkNext\<close> are a reader that goes from \<open>begin()\<close> to \<open>end()\<close>, with the number of
  values that were in the list when it began and the values it has read. \<open>Lost\<close> is the access
  through a pointer to nothing.
\<close>

datatype 'v al_pc =
    Outside
  | Scan 'v "nat option"
  | Claim 'v nat
  | Advance 'v nat
  | ReadHead nat
  | Push nat "nat option"
  | PutDone nat
  | Dismiss nat
  | DismissSwap nat 'v
  | Walk nat "nat option" "'v list"
  | WalkNext nat nat "'v list"
  | Lost

text \<open>
  \<open>al_puts\<close> records the nodes and values of the calls of \<open>put\<close> that have stored a value other than
  the default, \<open>al_iters\<close> the iterators that \<open>put\<close> has returned.
\<close>

record 'v alist =
  al_head :: "nat option"
  al_nodes :: "nat \<Rightarrow> 'v node option"
  al_pcs :: "nat \<Rightarrow> 'v al_pc"
  al_puts :: "(nat \<times> 'v) list"
  al_iters :: "nat list"

definition AtomicList_new :: "'v alist" where
  "AtomicList_new = \<lparr>al_head = None, al_nodes = (\<lambda>_. None), al_pcs = (\<lambda>_. Outside), al_puts = [], al_iters = []\<rparr>"

definition go :: "nat \<Rightarrow> 'v al_pc \<Rightarrow> 'v alist \<Rightarrow> 'v alist" where
  "go i pc s = s\<lparr>al_pcs := (al_pcs s)(i := pc)\<rparr>"

text \<open>A dereference; \<open>CompareAndSwap\<close> on the value of a node and on the head of the list.\<close>

definition deref_node :: "nat \<Rightarrow> nat \<Rightarrow> ('v node \<Rightarrow> 'v alist) \<Rightarrow> 'v alist \<Rightarrow> 'v alist" where
  "deref_node i p f s = (case al_nodes s p of None \<Rightarrow> go i Lost s | Some x \<Rightarrow> f x)"

definition cas_value :: "nat \<Rightarrow> 'v node \<Rightarrow> 'v \<Rightarrow> 'v \<Rightarrow> 'v alist \<Rightarrow> 'v \<times> 'v alist" where
  "cas_value p x old_value new_value s =
     (nd_value x,
      if nd_value x = old_value then s\<lparr>al_nodes := (al_nodes s)(p \<mapsto> x\<lparr>nd_value := new_value\<rparr>)\<rparr> else s)"

definition cas_head :: "nat option \<Rightarrow> nat \<Rightarrow> 'v alist \<Rightarrow> nat option \<times> 'v alist" where
  "cas_head old_value new_value s =
     (al_head s, if al_head s = old_value then s\<lparr>al_head := Some new_value\<rparr> else s)"

definition put_returns :: "'v \<Rightarrow> nat \<Rightarrow> nat \<Rightarrow> 'v \<Rightarrow> 'v alist \<Rightarrow> 'v alist" where
  "put_returns d i p v s = go i (PutDone p)
     (s\<lparr>al_puts := al_puts s @ (if v = d then [] else [(p, v)]), al_iters := al_iters s @ [p]\<rparr>)"

text \<open>
  The next step of thread \<open>i\<close>, for the default value \<open>d\<close>; \<open>n\<close> is the address that \<open>new\<close> gives, if
  it is called.
\<close>

definition al_run :: "'v \<Rightarrow> nat \<Rightarrow> nat \<Rightarrow> 'v alist \<Rightarrow> 'v alist option" where
  "al_run d i n s = (case al_pcs s i of
       Scan v None \<Rightarrow>
         if al_nodes s n = None
         then Some (go i (ReadHead n) (s\<lparr>al_nodes := (al_nodes s)(n \<mapsto> \<lparr>nd_value = v, nd_next = None\<rparr>)\<rparr>))
         else None
     | Scan v (Some p) \<Rightarrow>
         Some (deref_node i p (\<lambda>x. go i (if nd_value x = d then Claim v p else Advance v p) s) s)
     | Claim v p \<Rightarrow>
         Some (deref_node i p (\<lambda>x.
           let (old, s') = cas_value p x d v s
           in if old = d then put_returns d i p v s' else go i (Advance v p) s') s)
     | Advance v p \<Rightarrow> Some (deref_node i p (\<lambda>x. go i (Scan v (nd_next x)) s) s)
     | ReadHead n' \<Rightarrow>
         Some (deref_node i n' (\<lambda>x.
           let old = al_head s
           in go i (Push n' old) (s\<lparr>al_nodes := (al_nodes s)(n' \<mapsto> x\<lparr>nd_next := old\<rparr>)\<rparr>)) s)
     | Push n' old \<Rightarrow>
         Some (deref_node i n' (\<lambda>x.
           let (result, s') = cas_head old n' s
           in if result \<noteq> old then go i (ReadHead n') s' else put_returns d i n' (nd_value x) s') s)
     | Dismiss p \<Rightarrow> Some (deref_node i p (\<lambda>x. go i (DismissSwap p (nd_value x)) s) s)
     | DismissSwap p v \<Rightarrow> Some (deref_node i p (\<lambda>x. go i Outside (snd (cas_value p x d v s))) s)
     | Walk k (Some p) seen \<Rightarrow> Some (deref_node i p (\<lambda>x. go i (WalkNext k p (seen @ [nd_value x])) s) s)
     | WalkNext k p seen \<Rightarrow> Some (deref_node i p (\<lambda>x. go i (Walk k (nd_next x) seen) s) s)
     | _ \<Rightarrow> None)"

text \<open>A thread that is in no operation begins one; \<open>dismiss\<close> is called on an iterator from \<open>put\<close>.\<close>

datatype 'v al_action = CallPut 'v | CallDismiss nat | CallBegin | Run nat

definition is_idle :: "'v al_pc \<Rightarrow> bool" where
  "is_idle pc = (case pc of Outside \<Rightarrow> True | PutDone _ \<Rightarrow> True | Walk _ None _ \<Rightarrow> True | _ \<Rightarrow> False)"

definition al_exec :: "'v \<Rightarrow> nat \<Rightarrow> 'v al_action \<Rightarrow> 'v alist \<Rightarrow> 'v alist option" where
  "al_exec d i a s = (case a of
       Run n \<Rightarrow> al_run d i n s
     | CallPut v \<Rightarrow> if is_idle (al_pcs s i) then Some (go i (Scan v (al_head s)) s) else None
     | CallDismiss p \<Rightarrow> if is_idle (al_pcs s i) \<and> p \<in> set (al_iters s) then Some (go i (Dismiss p) s) else None
     | CallBegin \<Rightarrow>
         if is_idle (al_pcs s i) then Some (go i (Walk (length (al_puts s)) (al_head s) []) s) else None)"

inductive al_reach :: "'v \<Rightarrow> 'v alist \<Rightarrow> bool" for d where
  init: "al_reach d AtomicList_new"
| step: "al_reach d s \<Longrightarrow> al_exec d i a s = Some s' \<Longrightarrow> al_reach d s'"

section \<open>Invariant\<close>

text \<open>The nodes from a pointer to the end of the list.\<close>

fun path :: "(nat \<Rightarrow> 'v node option) \<Rightarrow> nat option \<Rightarrow> nat list \<Rightarrow> bool" where
  "path N a [] \<longleftrightarrow> a = None"
| "path N a (p # ps) \<longleftrightarrow> a = Some p \<and> (\<exists>x. N p = Some x \<and> path N (nd_next x) ps)"

definition value_at :: "'v alist \<Rightarrow> nat \<Rightarrow> 'v" where
  "value_at s p = nd_value (the (al_nodes s p))"

text \<open>What a reader has still to see of the first \<open>k\<close> values.\<close>

definition covers :: "'v alist \<Rightarrow> nat \<Rightarrow> 'v list \<Rightarrow> nat list \<Rightarrow> bool" where
  "covers s k seen rest \<longleftrightarrow> k \<le> length (al_puts s) \<and>
     (\<forall>(p, v)\<in>set (take k (al_puts s)). v \<in> set seen \<or> p \<in> set rest)"

definition pc_ok :: "'v \<Rightarrow> 'v alist \<Rightarrow> nat list \<Rightarrow> 'v al_pc \<Rightarrow> bool" where
  "pc_ok d s ps pc = (case pc of
       Scan v a \<Rightarrow> \<exists>rest. suffix rest ps \<and> path (al_nodes s) a rest
     | Claim v p \<Rightarrow> p \<in> set ps
     | Advance v p \<Rightarrow> p \<in> set ps
     | ReadHead n \<Rightarrow> n \<notin> set ps \<and> (\<exists>x. al_nodes s n = Some x)
     | Push n old \<Rightarrow> n \<notin> set ps \<and> (\<exists>x. al_nodes s n = Some x \<and> nd_next x = old)
     | PutDone p \<Rightarrow> p \<in> set ps
     | Dismiss p \<Rightarrow> p \<in> set ps
     | DismissSwap p v \<Rightarrow> p \<in> set ps \<and> (v \<noteq> d \<longrightarrow> value_at s p \<noteq> d)
     | Walk k a seen \<Rightarrow> set seen \<subseteq> insert d (snd ` set (al_puts s)) \<and>
         (\<exists>rest. suffix rest ps \<and> path (al_nodes s) a rest \<and> covers s k seen rest)
     | WalkNext k p seen \<Rightarrow> set seen \<subseteq> insert d (snd ` set (al_puts s)) \<and>
         (\<exists>rest. suffix (p # rest) ps \<and> covers s k seen rest)
     | Lost \<Rightarrow> False
     | Outside \<Rightarrow> True)"

text \<open>The node that a thread has allocated and not yet published.\<close>

definition private_node :: "'v al_pc \<Rightarrow> nat option" where
  "private_node pc = (case pc of ReadHead n \<Rightarrow> Some n | Push n _ \<Rightarrow> Some n | _ \<Rightarrow> None)"

definition puts_ok :: "'v \<Rightarrow> 'v alist \<Rightarrow> nat list \<Rightarrow> bool" where
  "puts_ok d s ps \<longleftrightarrow> distinct (map fst (al_puts s)) \<and>
     fst ` set (al_puts s) = {p \<in> set ps. value_at s p \<noteq> d} \<and> (\<forall>(p, v)\<in>set (al_puts s). value_at s p = v)"

definition al_inv :: "'v \<Rightarrow> 'v alist \<Rightarrow> nat list \<Rightarrow> bool" where
  "al_inv d s ps \<longleftrightarrow> path (al_nodes s) (al_head s) ps \<and> distinct ps \<and> puts_ok d s ps \<and>
     set (al_iters s) \<subseteq> set ps \<and> finite (dom (al_nodes s)) \<and>
     (\<forall>i. pc_ok d s ps (al_pcs s i)) \<and>
     (\<forall>i j n. i \<noteq> j \<longrightarrow> private_node (al_pcs s i) = Some n \<longrightarrow> private_node (al_pcs s j) \<noteq> Some n)"

lemma pc_ok_simps [simp]:
  "pc_ok d s ps Outside"
  "pc_ok d s ps (Scan v a) \<longleftrightarrow> (\<exists>rest. suffix rest ps \<and> path (al_nodes s) a rest)"
  "pc_ok d s ps (Claim v p) \<longleftrightarrow> p \<in> set ps"
  "pc_ok d s ps (Advance v p) \<longleftrightarrow> p \<in> set ps"
  "pc_ok d s ps (ReadHead n) \<longleftrightarrow> n \<notin> set ps \<and> (\<exists>x. al_nodes s n = Some x)"
  "pc_ok d s ps (Push n old) \<longleftrightarrow> n \<notin> set ps \<and> (\<exists>x. al_nodes s n = Some x \<and> nd_next x = old)"
  "pc_ok d s ps (PutDone p) \<longleftrightarrow> p \<in> set ps"
  "pc_ok d s ps (Dismiss p) \<longleftrightarrow> p \<in> set ps"
  "pc_ok d s ps (DismissSwap p v) \<longleftrightarrow> p \<in> set ps \<and> (v \<noteq> d \<longrightarrow> value_at s p \<noteq> d)"
  "pc_ok d s ps (Walk k a seen) \<longleftrightarrow> set seen \<subseteq> insert d (snd ` set (al_puts s)) \<and>
     (\<exists>rest. suffix rest ps \<and> path (al_nodes s) a rest \<and> covers s k seen rest)"
  "pc_ok d s ps (WalkNext k p seen) \<longleftrightarrow> set seen \<subseteq> insert d (snd ` set (al_puts s)) \<and>
     (\<exists>rest. suffix (p # rest) ps \<and> covers s k seen rest)"
  "\<not> pc_ok d s ps Lost"
  by (simp_all add: pc_ok_def)

lemma private_node_Some:
  "private_node pc = Some n \<longleftrightarrow> pc = ReadHead n \<or> (\<exists>old. pc = Push n old)"
  by (auto simp: private_node_def split: al_pc.splits)

lemma private_node_simps [simp]:
  "private_node (ReadHead n) = Some n" "private_node (Push n old) = Some n"
  "private_node Outside = None" "private_node (Scan v a) = None" "private_node (Claim v p) = None"
  "private_node (Advance v p) = None" "private_node (PutDone p) = None" "private_node (Dismiss p) = None"
  "private_node (DismissSwap p v) = None" "private_node (Walk k a seen) = None"
  "private_node (WalkNext k p seen) = None" "private_node Lost = None"
  by (simp_all add: private_node_def)

lemma path_Cons_suffix:
  assumes "path N a ps" "suffix (p # rest) ps"
  shows "\<exists>x. N p = Some x \<and> path N (nd_next x) rest"
proof -
  from assms(2) obtain pre where "ps = pre @ p # rest" by (auto simp: suffix_def)
  with assms(1) show ?thesis by (induction pre arbitrary: a ps) auto
qed

lemma path_cong:
  "\<forall>p\<in>set ps. map_option nd_next (N' p) = map_option nd_next (N p) \<Longrightarrow> path N' a ps \<longleftrightarrow> path N a ps"
proof (induction ps arbitrary: a)
  case (Cons p ps)
  then have IH: "path N' b ps \<longleftrightarrow> path N b ps" for b by simp
  have "map_option nd_next (N' p) = map_option nd_next (N p)" using Cons.prems by simp
  then show ?case using IH by (cases "N p"; cases "N' p") auto
qed simp

lemma path_unique: "path N a ps \<Longrightarrow> path N a qs \<Longrightarrow> ps = qs"
proof (induction ps arbitrary: a qs)
  case (Cons p ps)
  then show ?case by (cases qs) auto
next
  case Nil
  then show ?case by (cases qs) auto
qed

lemma suffix_Cons_mem: "suffix (p # rest) ps \<Longrightarrow> p \<in> set ps"
  by (auto simp: suffix_def)

lemma mem_suffix: "p \<in> set ps \<Longrightarrow> \<exists>rest. suffix (p # rest) ps"
  by (auto simp: suffix_def in_set_conv_decomp)

lemma path_node: "path N a ps \<Longrightarrow> p \<in> set ps \<Longrightarrow> \<exists>x. N p = Some x"
  using mem_suffix path_Cons_suffix by metis

lemma covers_mono:
  "covers s k seen rest \<Longrightarrow> al_puts s' = al_puts s @ xs \<Longrightarrow> covers s' k seen rest"
  by (auto simp: covers_def)

text \<open>What another thread may do without disturbing a thread.\<close>

definition extends :: "'v \<Rightarrow> 'v alist \<Rightarrow> nat list \<Rightarrow> 'v alist \<Rightarrow> nat list \<Rightarrow> bool" where
  "extends d s ps s' ps' \<longleftrightarrow> suffix ps ps' \<and> (\<exists>xs. al_puts s' = al_puts s @ xs) \<and>
     (\<forall>p\<in>set ps. map_option nd_next (al_nodes s' p) = map_option nd_next (al_nodes s p) \<and>
       (value_at s p \<noteq> d \<longrightarrow> value_at s' p = value_at s p))"

lemma pc_ok_extends:
  assumes "extends d s ps s' ps'" "pc_ok d s ps pc"
    and "\<forall>n. private_node pc = Some n \<longrightarrow> n \<notin> set ps' \<and> al_nodes s' n = al_nodes s n"
  shows "pc_ok d s' ps' pc"
proof -
  from assms(1) obtain xs where e: "suffix ps ps'" "al_puts s' = al_puts s @ xs"
    "\<forall>p\<in>set ps. map_option nd_next (al_nodes s' p) = map_option nd_next (al_nodes s p) \<and>
       (value_at s p \<noteq> d \<longrightarrow> value_at s' p = value_at s p)" by (auto simp: extends_def)
  have set: "set ps \<subseteq> set ps'" using e(1) by (rule set_mono_suffix)
  have path: "path (al_nodes s') a rest" if "suffix rest ps" "path (al_nodes s) a rest" for a rest
  proof -
    have "\<forall>p\<in>set rest. map_option nd_next (al_nodes s' p) = map_option nd_next (al_nodes s p)"
      using e(3) set_mono_suffix [OF that(1)] by auto
    from path_cong [OF this] that(2) show ?thesis by simp
  qed
  have suf: "suffix rest ps \<Longrightarrow> suffix rest ps'" for rest
    using e(1) suffix_order.trans by blast
  have cov: "covers s k seen rest \<Longrightarrow> covers s' k seen rest" for k seen rest
    using covers_mono e(2) by blast
  show ?thesis
  proof (cases pc)
    case (Walk k a seen)
    with assms(2) obtain rest where "suffix rest ps" "path (al_nodes s) a rest" "covers s k seen rest"
      "set seen \<subseteq> insert d (snd ` set (al_puts s))" by auto
    then have "suffix rest ps' \<and> path (al_nodes s') a rest \<and> covers s' k seen rest"
      "set seen \<subseteq> insert d (snd ` set (al_puts s'))" using e(2) path suf cov by auto
    then show ?thesis using Walk by auto
  next
    case (WalkNext k p seen)
    with assms(2) obtain rest where "suffix (p # rest) ps" "covers s k seen rest"
      "set seen \<subseteq> insert d (snd ` set (al_puts s))" by auto
    then have "suffix (p # rest) ps' \<and> covers s' k seen rest"
      "set seen \<subseteq> insert d (snd ` set (al_puts s'))" using e(2) suf cov by auto
    then show ?thesis using WalkNext by auto
  next
    case (Scan v a)
    then show ?thesis using assms(2) path suf by auto
  next
    case (DismissSwap p v)
    then show ?thesis using assms(2) set e(3) by auto
  next
    case (ReadHead n)
    then show ?thesis using assms(2,3) by auto
  next
    case (Push n old)
    then show ?thesis using assms(2,3) by auto
  qed (use assms(2) set in auto)
qed

lemma extends_refl: "extends d s ps s ps"
  by (simp add: extends_def)

text \<open>A step of thread \<open>i\<close> keeps the invariant if it leaves the memory that others rely on.\<close>

lemma al_inv_step:
  assumes "al_inv d s ps" "extends d s ps s' ps'" "al_pcs s' = (al_pcs s)(i := pc)"
    and "path (al_nodes s') (al_head s') ps'" "distinct ps'" "puts_ok d s' ps'" "set (al_iters s') \<subseteq> set ps'"
    and "finite (dom (al_nodes s'))" "pc_ok d s' ps' pc"
    and "\<forall>j n. j \<noteq> i \<longrightarrow> private_node (al_pcs s j) = Some n \<longrightarrow>
      n \<notin> set ps' \<and> al_nodes s' n = al_nodes s n \<and> private_node pc \<noteq> Some n"
  shows "al_inv d s' ps'"
proof -
  have old: "pc_ok d s ps (al_pcs s j)" for j using assms(1) by (simp add: al_inv_def)
  have "pc_ok d s' ps' (al_pcs s' j)" for j
  proof (cases "j = i")
    case False
    then show ?thesis
      using pc_ok_extends [OF assms(2) old [of j]] assms(3,10) by (simp)
  qed (use assms(3,9) in \<open>simp\<close>)
  moreover have "private_node (al_pcs s' j) = Some n \<longrightarrow> private_node (al_pcs s' k) \<noteq> Some n" if "j \<noteq> k" for j k n
  proof -
    have "private_node (al_pcs s j) = Some n \<longrightarrow> private_node (al_pcs s k) \<noteq> Some n"
      using assms(1) that by (simp add: al_inv_def)
    then show ?thesis using assms(3,10) that by (auto)
  qed
  ultimately show ?thesis using assms by (simp add: al_inv_def)
qed

text \<open>Steps that move a thread and change no memory.\<close>

lemma al_inv_go:
  assumes "al_inv d s ps" "pc_ok d s ps pc" "private_node pc = None \<or> private_node pc = private_node (al_pcs s i)"
  shows "al_inv d (go i pc s) ps"
proof -
  have v: "value_at (go i pc s) = value_at s" by (intro ext) (simp add: value_at_def go_def)
  have e: "extends d s ps (go i pc s) ps" by (simp add: extends_def v) (simp add: go_def)
  have p: "pc_ok d (go i pc s) ps pc" by (rule pc_ok_extends [OF e assms(2)])
      (use assms(2) in \<open>auto simp: go_def private_node_Some\<close>)
  have priv: "n \<notin> set ps" if "private_node (al_pcs s j) = Some n" for j n
  proof -
    have "pc_ok d s ps (al_pcs s j)" using assms(1) by (simp add: al_inv_def)
    then show ?thesis using that by (auto simp: private_node_Some)
  qed
  have excl: "private_node (al_pcs s j) = Some n \<Longrightarrow> j \<noteq> i \<Longrightarrow> private_node pc \<noteq> Some n" for j n
    using assms(1,3) by (auto simp add: al_inv_def)
  have puts: "al_puts (go i pc s) = al_puts s" by (simp add: go_def)
  have "puts_ok d (go i pc s) ps" using assms(1) by (simp add: al_inv_def puts_ok_def v puts)
  then show ?thesis
    by (intro al_inv_step [OF assms(1) e _ _ _ _ _ _ p, of i])
      (use assms(1) priv excl in \<open>auto simp: al_inv_def go_def\<close>)
qed

lemma al_inv_pc: "al_inv d s ps \<Longrightarrow> pc_ok d s ps (al_pcs s i)"
  by (simp add: al_inv_def)

lemma al_inv_node: "al_inv d s ps \<Longrightarrow> p \<in> set ps \<Longrightarrow> \<exists>x. al_nodes s p = Some x"
  unfolding al_inv_def by (blast dest: path_node)

lemma al_inv_private:
  assumes "al_inv d s ps" "private_node (al_pcs s i) = Some n"
  shows "n \<notin> set ps" "\<exists>x. al_nodes s n = Some x"
  using al_inv_pc [OF assms(1), of i] assms(2) by (auto simp: private_node_Some)

lemma al_inv_excl:
  "al_inv d s ps \<Longrightarrow> private_node (al_pcs s i) = Some n \<Longrightarrow> j \<noteq> i \<Longrightarrow> private_node (al_pcs s j) \<noteq> Some n"
  unfolding al_inv_def by blast

lemma puts_ok_same:
  assumes "puts_ok d s ps" "al_puts s' = al_puts s" "\<forall>p\<in>set ps. value_at s' p = value_at s p"
    and "ps' = ps \<or> (\<exists>n. ps' = n # ps \<and> value_at s' n = d)"
  shows "puts_ok d s' ps'"
proof -
  have set: "fst ` set (al_puts s) = {p \<in> set ps. value_at s p \<noteq> d}" using assms(1) by (simp add: puts_ok_def)
  have mem: "p \<in> set ps" if "(p, v) \<in> set (al_puts s)" for p v
  proof -
    have "p \<in> fst ` set (al_puts s)" using that by force
    then show ?thesis using set by simp
  qed
  have "{p \<in> set ps'. value_at s' p \<noteq> d} = {p \<in> set ps. value_at s p \<noteq> d}" using assms(3,4) by auto
  moreover have "\<forall>(p, v)\<in>set (al_puts s). value_at s' p = v"
    using assms(1,3) mem unfolding puts_ok_def by fastforce
  ultimately show ?thesis using assms(1,2) unfolding puts_ok_def by simp
qed

lemma puts_ok_add:
  assumes "puts_ok d s ps" "al_puts s' = al_puts s @ [(p, v)]" "v \<noteq> d" "p \<notin> fst ` set (al_puts s)"
    and "value_at s' p = v" "\<forall>q\<in>set ps. q \<noteq> p \<longrightarrow> value_at s' q = value_at s q" "set ps' = insert p (set ps)"
  shows "puts_ok d s' ps'"
proof -
  have set: "fst ` set (al_puts s) = {p \<in> set ps. value_at s p \<noteq> d}" using assms(1) by (simp add: puts_ok_def)
  have mem: "q \<in> set ps \<and> q \<noteq> p" if "(q, w) \<in> set (al_puts s)" for q w
  proof -
    have "q \<in> fst ` set (al_puts s)" using that by force
    then show ?thesis using set assms(4) by auto
  qed
  have "\<forall>(q, w)\<in>set (al_puts s). value_at s' q = w"
    using assms(1,6) mem unfolding puts_ok_def by fastforce
  moreover have "{q \<in> set ps'. value_at s' q \<noteq> d} = insert p {q \<in> set ps. value_at s q \<noteq> d}"
    using assms(3-7) set by auto
  ultimately show ?thesis using assms(1,2,4,5) unfolding puts_ok_def by simp
qed

lemma al_inv_alloc:
  assumes "al_inv d s ps" "al_nodes s n = None"
  shows "al_inv d (go i (ReadHead n) (s\<lparr>al_nodes := (al_nodes s)(n \<mapsto> x)\<rparr>)) ps" (is "al_inv d ?s' ps")
proof -
  have n: "n \<notin> set ps" using al_inv_node [OF assms(1)] assms(2) by force
  have v: "value_at ?s' p = value_at s p" if "p \<in> set ps" for p
    using n that by (auto simp: value_at_def go_def)
  have e: "extends d s ps ?s' ps" using n v by (auto simp: extends_def) (auto simp: go_def)
  have path: "path (al_nodes ?s') (al_head s) ps"
    using assms(1) path_cong [of ps "al_nodes ?s'" "al_nodes s"] n by (auto simp: al_inv_def go_def)
  have "puts_ok d ?s' ps"
    by (rule puts_ok_same [of d s ps]) (use assms(1) v in \<open>auto simp: al_inv_def\<close>, simp add: go_def)
  moreover have "private_node (al_pcs s j) = Some m \<Longrightarrow> m \<noteq> n" for j m
    using al_inv_private(2) [OF assms(1), of j m] assms(2) by force
  ultimately show ?thesis
    by (intro al_inv_step [OF assms(1) e, of i "ReadHead n"])
      (use assms path n al_inv_private(1) [OF assms(1)] in \<open>auto simp: al_inv_def go_def\<close>)
qed

lemma al_inv_read_head:
  assumes "al_inv d s ps" "al_pcs s i = ReadHead n" "al_nodes s n = Some x"
  shows "al_inv d (go i (Push n (al_head s)) (s\<lparr>al_nodes := (al_nodes s)(n \<mapsto> x\<lparr>nd_next := al_head s\<rparr>)\<rparr>)) ps"
    (is "al_inv d ?s' ps")
proof -
  have n: "n \<notin> set ps" using al_inv_private(1) [OF assms(1), of i n] assms(2) by simp
  have v: "value_at ?s' p = value_at s p" if "p \<in> set ps" for p
    using n that by (auto simp: value_at_def go_def)
  have e: "extends d s ps ?s' ps" using n v by (auto simp: extends_def) (auto simp: go_def)
  have path: "path (al_nodes ?s') (al_head s) ps"
    using assms(1) path_cong [of ps "al_nodes ?s'" "al_nodes s"] n by (auto simp: al_inv_def go_def)
  have "puts_ok d ?s' ps"
    by (rule puts_ok_same [of d s ps]) (use assms(1) v in \<open>auto simp: al_inv_def\<close>, simp add: go_def)
  then show ?thesis
    by (intro al_inv_step [OF assms(1) e, of i "Push n (al_head s)"])
      (use assms path n al_inv_private [OF assms(1)] al_inv_excl [OF assms(1), of i n] in \<open>auto simp: al_inv_def go_def\<close>)
qed

lemma al_inv_claim:
  assumes "al_inv d s ps" "p \<in> set ps" "al_nodes s p = Some x" "nd_value x = d"
  shows "al_inv d (put_returns d i p v (s\<lparr>al_nodes := (al_nodes s)(p \<mapsto> x\<lparr>nd_value := v\<rparr>)\<rparr>)) ps"
    (is "al_inv d ?s' ps")
proof -
  have at: "value_at s p = d" using assms by (simp add: value_at_def)
  have v: "value_at ?s' q = (if q = p then v else value_at s q)" for q
    by (auto simp: value_at_def go_def put_returns_def)
  have e: "extends d s ps ?s' ps"
    unfolding extends_def v using assms(3) at by (auto simp: go_def put_returns_def)
  have path: "path (al_nodes ?s') (al_head s) ps"
    using assms(1,3) path_cong [of ps "al_nodes ?s'" "al_nodes s"] by (auto simp: al_inv_def go_def put_returns_def)
  have old: "puts_ok d s ps" using assms(1) by (simp add: al_inv_def)
  have new: "p \<notin> fst ` set (al_puts s)" using old at by (simp add: puts_ok_def)
  have puts: "puts_ok d ?s' ps"
  proof (cases "v = d")
    case True
    then have "al_puts ?s' = al_puts s" by (simp add: put_returns_def go_def)
    then show ?thesis by (rule puts_ok_same [OF old]) (use True v at in auto)
  next
    case False
    then have "al_puts ?s' = al_puts s @ [(p, v)]" by (simp add: put_returns_def go_def)
    then show ?thesis by (rule puts_ok_add [OF old _ False new]) (use v assms(2) in auto)
  qed
  have priv: "private_node (al_pcs s j) = Some n \<Longrightarrow> n \<noteq> p" for j n
    using al_inv_private(1) [OF assms(1)] assms(2) by blast
  from puts show ?thesis
    by (intro al_inv_step [OF assms(1) e, of i "PutDone p"])
      (use assms path priv al_inv_private(1) [OF assms(1)] in \<open>auto simp: al_inv_def go_def put_returns_def\<close>)
qed

lemma al_inv_push:
  assumes "al_inv d s ps" "al_pcs s i = Push n (al_head s)" "al_nodes s n = Some x"
  shows "al_inv d (put_returns d i n (nd_value x) (s\<lparr>al_head := Some n\<rparr>)) (n # ps)" (is "al_inv d ?s' _")
proof -
  have n: "n \<notin> set ps" "nd_next x = al_head s"
    using al_inv_pc [OF assms(1), of i] assms(2,3) by auto
  have v: "value_at ?s' = value_at s" by (auto simp: value_at_def go_def put_returns_def)
  have nodes: "al_nodes ?s' = al_nodes s" by (simp add: go_def put_returns_def)
  have e: "extends d s ps ?s' (n # ps)"
    unfolding extends_def v nodes by (auto simp: suffix_Cons) (auto simp: go_def put_returns_def)
  have path: "path (al_nodes s) (Some n) (n # ps)" using assms n by (simp add: al_inv_def)
  have old: "puts_ok d s ps" using assms(1) by (simp add: al_inv_def)
  have at: "value_at s n = nd_value x" using assms(3) by (simp add: value_at_def)
  have new: "n \<notin> fst ` set (al_puts s)" using old n by (simp add: puts_ok_def)
  have puts: "puts_ok d ?s' (n # ps)"
  proof (cases "nd_value x = d")
    case True
    then have "al_puts ?s' = al_puts s" by (simp add: put_returns_def go_def)
    then show ?thesis by (rule puts_ok_same [OF old]) (use True at v in auto)
  next
    case False
    then have "al_puts ?s' = al_puts s @ [(n, nd_value x)]" by (simp add: put_returns_def go_def)
    then show ?thesis by (rule puts_ok_add [OF old _ False new]) (use v at in auto)
  qed
  have priv: "private_node (al_pcs s j) = Some m \<Longrightarrow> j \<noteq> i \<Longrightarrow> m \<noteq> n \<and> m \<notin> set ps" for j m
    using al_inv_private(1) [OF assms(1)] al_inv_excl [OF assms(1), of i n j] assms(2) by auto
  from puts show ?thesis
    by (intro al_inv_step [OF assms(1) e, of i "PutDone n"])
      (use assms path n priv in \<open>auto simp: al_inv_def go_def put_returns_def\<close>)
qed

text \<open>\<open>dismiss\<close> stores nothing: a node with the default value gets the default value.\<close>

lemma dismiss_swap_keeps:
  assumes "al_inv d s ps" "al_pcs s i = DismissSwap p v" "al_nodes s p = Some x"
  shows "snd (cas_value p x d v s) = s"
proof (cases "nd_value x = d")
  case True
  then have "v = d" using al_inv_pc [OF assms(1), of i] assms(2,3) by (auto simp: value_at_def)
  then have "x\<lparr>nd_value := v\<rparr> = x" using True by simp
  then have "(al_nodes s)(p \<mapsto> x\<lparr>nd_value := v\<rparr>) = al_nodes s" using assms(3) by (intro ext) simp
  then show ?thesis by (cases s) (simp add: cas_value_def)
qed (simp add: cas_value_def)

lemma al_run_inv:
  assumes "al_inv d s ps" "al_run d i n s = Some s'"
  shows "\<exists>ps'. al_inv d s' ps'"
proof -
  note inv = assms(1) and ok = al_inv_pc [OF assms(1), of i] and node = al_inv_node [OF assms(1)]
  have path: "path (al_nodes s) (al_head s) ps" using inv by (simp add: al_inv_def)
  show ?thesis
  proof (cases "al_pcs s i")
    case (Scan v a)
    show ?thesis
    proof (cases a)
      case None
      then show ?thesis using assms(2) Scan al_inv_alloc [OF inv] by (auto simp: al_run_def split: if_splits)
    next
      case (Some p)
      with Scan ok obtain rest where r: "suffix rest ps" "path (al_nodes s) (Some p) rest" by auto
      then have "p \<in> set ps" by (cases rest) (auto simp: suffix_Cons_mem)
      with node obtain x where x: "al_nodes s p = Some x" "p \<in> set ps" by blast
      then have "s' = go i (if nd_value x = d then Claim v p else Advance v p) s"
        using assms(2) Scan Some by (simp add: al_run_def deref_node_def)
      moreover have "al_inv d (go i (if nd_value x = d then Claim v p else Advance v p) s) ps"
        by (rule al_inv_go [OF inv]) (use x in simp_all)
      ultimately show ?thesis by auto
    qed
  next
    case (Claim v p)
    with ok node obtain x where x: "al_nodes s p = Some x" "p \<in> set ps" by auto
    show ?thesis
    proof (cases "nd_value x = d")
      case True
      then show ?thesis using al_inv_claim [OF inv x(2,1) True] assms(2) x Claim
        by (auto simp: al_run_def deref_node_def cas_value_def)
    next
      case False
      then have "s' = go i (Advance v p) s"
        using assms(2) x Claim by (simp add: al_run_def deref_node_def cas_value_def)
      then show ?thesis using al_inv_go [OF inv, of "Advance v p" i] x by auto
    qed
  next
    case (Advance v p)
    with ok have "p \<in> set ps" by simp
    from mem_suffix [OF this] obtain rest where r: "suffix (p # rest) ps" by blast
    from path_Cons_suffix [OF path r] obtain x where x: "al_nodes s p = Some x" "path (al_nodes s) (nd_next x) rest"
      by blast
    have "suffix rest ps" using r by (rule suffix_ConsD)
    then have "pc_ok d s ps (Scan v (nd_next x))" using x by auto
    from al_inv_go [OF inv this] assms(2) Advance x show ?thesis
      by (auto simp: al_run_def deref_node_def)
  next
    case (ReadHead m)
    with ok obtain x where x: "al_nodes s m = Some x" by auto
    then show ?thesis using al_inv_read_head [OF inv ReadHead x] assms(2) ReadHead
      by (auto simp: al_run_def deref_node_def Let_def)
  next
    case (Push m old)
    with ok obtain x where x: "al_nodes s m = Some x" "m \<notin> set ps" by auto
    show ?thesis
    proof (cases "al_head s = old")
      case True
      then show ?thesis using al_inv_push [OF inv _ x(1), of i] assms(2) Push x
        by (auto simp: al_run_def deref_node_def cas_head_def)
    next
      case False
      then have "s' = go i (ReadHead m) s"
        using assms(2) x Push by (simp add: al_run_def deref_node_def cas_head_def)
      then show ?thesis using al_inv_go [OF inv, of "ReadHead m" i] x Push by auto
    qed
  next
    case (Dismiss p)
    with ok node obtain x where x: "al_nodes s p = Some x" "p \<in> set ps" by auto
    then have "pc_ok d s ps (DismissSwap p (nd_value x))" by (simp add: value_at_def)
    from al_inv_go [OF inv this] assms(2) x Dismiss show ?thesis
      by (auto simp: al_run_def deref_node_def)
  next
    case (DismissSwap p v)
    with ok node obtain x where x: "al_nodes s p = Some x" "p \<in> set ps" by auto
    with dismiss_swap_keeps [OF inv DismissSwap x(1)] have "s' = go i Outside s"
      using assms(2) DismissSwap by (simp add: al_run_def deref_node_def)
    then show ?thesis using al_inv_go [OF inv, of Outside i] by auto
  next
    case (Walk k a seen)
    show ?thesis
    proof (cases a)
      case None
      then show ?thesis using assms(2) Walk by (simp add: al_run_def)
    next
      case (Some p)
      with Walk ok obtain rest where r: "suffix rest ps" "path (al_nodes s) (Some p) rest" "covers s k seen rest"
        "set seen \<subseteq> insert d (snd ` set (al_puts s))" by auto
      then obtain rs where rs: "rest = p # rs" by (cases rest) auto
      with r obtain x where x: "al_nodes s p = Some x" by auto
      have p: "p \<in> set ps" using r(1) rs by (auto simp: suffix_Cons_mem)
      have puts: "puts_ok d s ps" using inv by (simp add: al_inv_def)
      have here: "v = nd_value x" if "(p, v) \<in> set (take k (al_puts s))" for v
        using puts in_set_takeD [OF that] x unfolding puts_ok_def by (auto simp: value_at_def)
      have "nd_value x \<in> insert d (snd ` set (al_puts s))"
      proof (cases "nd_value x = d")
        case False
        then have "p \<in> fst ` set (al_puts s)" using puts x p unfolding puts_ok_def by (simp add: value_at_def)
        then obtain v where v: "(p, v) \<in> set (al_puts s)" by force
        then have "v = nd_value x" using puts x unfolding puts_ok_def by (auto simp: value_at_def)
        then show ?thesis using v by force
      qed simp
      moreover have "covers s k (seen @ [nd_value x]) rs"
        using r(3) here unfolding covers_def rs by auto
      ultimately have "pc_ok d s ps (WalkNext k p (seen @ [nd_value x]))" using r rs by auto
      from al_inv_go [OF inv this] assms(2) x Walk Some show ?thesis
        by (auto simp: al_run_def deref_node_def)
    qed
  next
    case (WalkNext k p seen)
    with ok obtain rest where r: "suffix (p # rest) ps" "covers s k seen rest"
      "set seen \<subseteq> insert d (snd ` set (al_puts s))" by auto
    from path_Cons_suffix [OF path r(1)] obtain x where x: "al_nodes s p = Some x" "path (al_nodes s) (nd_next x) rest"
      by blast
    have "suffix rest ps" using r(1) by (rule suffix_ConsD)
    then have "pc_ok d s ps (Walk k (nd_next x) seen)" using x r by auto
    from al_inv_go [OF inv this] assms(2) WalkNext x show ?thesis
      by (auto simp: al_run_def deref_node_def)
  qed (use assms(2) in \<open>simp_all add: al_run_def\<close>)
qed

lemma al_exec_inv:
  assumes "al_inv d s ps" "al_exec d i a s = Some s'"
  shows "\<exists>ps'. al_inv d s' ps'"
proof -
  have path: "path (al_nodes s) (al_head s) ps" using assms(1) by (simp add: al_inv_def)
  show ?thesis
  proof (cases a)
    case (CallPut v)
    have "pc_ok d s ps (Scan v (al_head s))" using path by auto
    from al_inv_go [OF assms(1) this] show ?thesis
      using assms(2) CallPut by (auto simp: al_exec_def split: if_splits)
  next
    case (CallDismiss p)
    then have "s' = go i (Dismiss p) s" "p \<in> set ps" using assms by (auto simp: al_exec_def al_inv_def split: if_splits)
    then show ?thesis using al_inv_go [OF assms(1), of "Dismiss p" i] by auto
  next
    case CallBegin
    have "puts_ok d s ps" using assms(1) by (simp add: al_inv_def)
    then have "fst ` set (al_puts s) \<subseteq> set ps" by (auto simp: puts_ok_def)
    then have "covers s (length (al_puts s)) [] ps" by (force simp: covers_def)
    then have "pc_ok d s ps (Walk (length (al_puts s)) (al_head s) [])" using path by auto
    from al_inv_go [OF assms(1) this] show ?thesis
      using assms(2) CallBegin by (auto simp: al_exec_def split: if_splits)
  next
    case (Run n)
    then show ?thesis using al_run_inv [OF assms(1)] assms(2) by (simp add: al_exec_def)
  qed
qed

lemma al_reach_inv: "al_reach d s \<Longrightarrow> \<exists>ps. al_inv d s ps"
proof (induction rule: al_reach.induct)
  case init
  have "al_inv d AtomicList_new []" by (simp add: al_inv_def AtomicList_new_def puts_ok_def)
  then show ?case by blast
next
  case (step s i a s')
  then obtain ps where "al_inv d s ps" by blast
  from al_exec_inv [OF this step(2)] show ?case .
qed

section \<open>Running alone\<close>

fun run_alone :: "'v \<Rightarrow> nat \<Rightarrow> nat list \<Rightarrow> 'v alist \<Rightarrow> 'v alist option" where
  "run_alone d i [] s = Some s"
| "run_alone d i (n # ns) s = do { s1 \<leftarrow> al_run d i n s; run_alone d i ns s1 }"

definition finishes :: "'v \<Rightarrow> nat \<Rightarrow> 'v alist \<Rightarrow> bool" where
  "finishes d i s \<longleftrightarrow> (\<exists>ns s' p. run_alone d i ns s = Some s' \<and> al_pcs s' i = PutDone p)"

lemma finishes_step: "al_run d i n s = Some s1 \<Longrightarrow> finishes d i s1 \<Longrightarrow> finishes d i s"
  unfolding finishes_def by (elim exE) (rule_tac x = "n # ns" in exI, auto)

lemma finishes_done: "al_pcs s i = PutDone p \<Longrightarrow> finishes d i s"
  unfolding finishes_def by (intro exI [of _ "[]"]) simp

lemma go_pc [simp]: "al_pcs (go i pc s) i = pc" "al_nodes (go i pc s) = al_nodes s" "al_head (go i pc s) = al_head s"
  by (simp_all add: go_def)

lemma put_returns_pc [simp]: "al_pcs (put_returns d i p v s) i = PutDone p"
  by (simp add: put_returns_def)

lemma finishes_ReadHead:
  assumes "al_pcs s i = ReadHead m" "al_nodes s m = Some x"
  shows "finishes d i s"
proof -
  obtain s1 where s1: "al_run d i 0 s = Some s1" "al_pcs s1 i = Push m (al_head s1)" "\<exists>x. al_nodes s1 m = Some x"
    using assms by (simp add: al_run_def deref_node_def Let_def)
  then obtain s2 where "al_run d i 0 s1 = Some s2" "al_pcs s2 i = PutDone m"
    by (auto simp: al_run_def deref_node_def cas_head_def)
  with s1 show ?thesis using finishes_step finishes_done by metis
qed

lemma finishes_Push:
  assumes "al_pcs s i = Push m old" "al_nodes s m = Some x"
  shows "finishes d i s"
proof (cases "al_head s = old")
  case True
  then show ?thesis using assms
    by (intro finishes_step [of d i 0 s]) (auto simp: al_run_def deref_node_def cas_head_def intro: finishes_done)
next
  case False
  then have "al_run d i 0 s = Some (go i (ReadHead m) s)"
    using assms by (simp add: al_run_def deref_node_def cas_head_def)
  moreover have "finishes d i (go i (ReadHead m) s)" by (rule finishes_ReadHead [of _ _ m x]) (simp_all add: assms)
  ultimately show ?thesis by (rule finishes_step)
qed

lemma finishes_Scan:
  "finite (dom (al_nodes s)) \<Longrightarrow> al_pcs s i = Scan v a \<Longrightarrow> path (al_nodes s) a rest \<Longrightarrow> finishes d i s"
proof (induction rest arbitrary: s a)
  case Nil
  from Nil(1) obtain n where n: "al_nodes s n = None"
    using ex_new_if_finite [OF infinite_UNIV_nat, of "dom (al_nodes s)"] by auto
  let ?s = "go i (ReadHead n) (s\<lparr>al_nodes := (al_nodes s)(n \<mapsto> \<lparr>nd_value = v, nd_next = None\<rparr>)\<rparr>)"
  have "al_run d i n s = Some ?s" using Nil n by (simp add: al_run_def)
  moreover have "finishes d i ?s" by (rule finishes_ReadHead [of _ _ n]) simp_all
  ultimately show ?case by (rule finishes_step)
next
  case (Cons p rest)
  then obtain x where x: "a = Some p" "al_nodes s p = Some x" "path (al_nodes s) (nd_next x) rest" by auto
  show ?case
  proof (cases "nd_value x = d")
    case True
    let ?s = "go i (Claim v p) s"
    have "al_run d i 0 s = Some ?s" using Cons.prems x True by (simp add: al_run_def deref_node_def)
    moreover have "\<exists>s2. al_run d i 0 ?s = Some s2 \<and> al_pcs s2 i = PutDone p"
      using x True by (simp add: al_run_def deref_node_def cas_value_def)
    ultimately show ?thesis using finishes_step finishes_done by metis
  next
    case False
    let ?s = "go i (Advance v p) s" and ?t = "go i (Scan v (nd_next x)) (go i (Advance v p) s)"
    have "al_run d i 0 s = Some ?s" using Cons.prems x False by (simp add: al_run_def deref_node_def)
    moreover have "al_run d i 0 ?s = Some ?t" using x by (simp add: al_run_def deref_node_def)
    moreover have "finishes d i ?t" by (rule Cons.IH [of _ "nd_next x"]) (use Cons.prems x in simp_all)
    ultimately show ?thesis using finishes_step by metis
  qed
qed

lemma finishes_Advance:
  assumes "finite (dom (al_nodes s))" "al_pcs s i = Advance v p" "path (al_nodes s) (al_head s) ps" "p \<in> set ps"
  shows "finishes d i s"
proof -
  from mem_suffix [OF assms(4)] path_Cons_suffix [OF assms(3)] obtain x rest where
    x: "al_nodes s p = Some x" "path (al_nodes s) (nd_next x) rest" by blast
  let ?s = "go i (Scan v (nd_next x)) s"
  have "al_run d i 0 s = Some ?s" using assms(2) x by (simp add: al_run_def deref_node_def)
  moreover have "finishes d i ?s" by (rule finishes_Scan) (use assms(1) x in simp_all)
  ultimately show ?thesis by (rule finishes_step)
qed

lemma finishes_Claim:
  assumes "finite (dom (al_nodes s))" "al_pcs s i = Claim v p" "path (al_nodes s) (al_head s) ps" "p \<in> set ps"
  shows "finishes d i s"
proof -
  obtain x where x: "al_nodes s p = Some x" using path_node [OF assms(3,4)] by blast
  show ?thesis
  proof (cases "nd_value x = d")
    case True
    then show ?thesis using assms(2) x
      by (intro finishes_step [of d i 0 s]) (auto simp: al_run_def deref_node_def cas_value_def intro: finishes_done)
  next
    case False
    then have "al_run d i 0 s = Some (go i (Advance v p) s)"
      using assms(2) x by (simp add: al_run_def deref_node_def cas_value_def)
    moreover have "finishes d i (go i (Advance v p) s)" by (rule finishes_Advance [of _ _ v p ps]) (use assms in simp_all)
    ultimately show ?thesis by (rule finishes_step)
  qed
qed

section \<open>Properties of the list\<close>

lemma al_exec_puts:
  assumes "al_inv d s ps" "al_exec d i a s = Some s'"
  shows "\<exists>xs. al_puts s' = al_puts s @ xs"
proof -
  have *: "al_puts (go i pc t) = al_puts t" for pc t by (simp add: go_def)
  show ?thesis
    using assms(2) by (auto simp: al_exec_def al_run_def deref_node_def cas_value_def cas_head_def put_returns_def * Let_def
        split: al_action.splits al_pc.splits option.splits if_splits)
qed

inductive al_steps :: "'v \<Rightarrow> 'v alist \<Rightarrow> 'v alist \<Rightarrow> bool" for d where
  refl: "al_steps d s s"
| step: "al_steps d s s1 \<Longrightarrow> al_exec d i a s1 = Some s2 \<Longrightarrow> al_steps d s s2"

lemma al_steps_inv:
  "al_steps d s s' \<Longrightarrow> al_inv d s ps \<Longrightarrow> (\<exists>ps'. al_inv d s' ps') \<and> (\<exists>xs. al_puts s' = al_puts s @ xs)"
proof (induction rule: al_steps.induct)
  case (step s s1 i a s2)
  then obtain ps' xs where "al_inv d s1 ps'" "al_puts s1 = al_puts s @ xs" by blast
  with al_exec_inv [OF this(1) step(2)] al_exec_puts [OF this(1) step(2)] show ?case by auto
qed auto

text \<open>The values of the list other than the default.\<close>

definition contents :: "'v \<Rightarrow> 'v alist \<Rightarrow> nat list \<Rightarrow> 'v multiset" where
  "contents d s ps = mset (filter (\<lambda>v. v \<noteq> d) (map (value_at s) ps))"

lemma al_inv_contents:
  assumes "al_inv d s ps"
  shows "contents d s ps = mset (map snd (al_puts s))"
proof -
  let ?qs = "filter (\<lambda>p. value_at s p \<noteq> d) ps"
  have p: "distinct (map fst (al_puts s))" "set (map fst (al_puts s)) = set ?qs" "distinct ?qs"
    "\<forall>(p, v)\<in>set (al_puts s). value_at s p = v"
    using assms by (auto simp: al_inv_def puts_ok_def)
  then have "mset ?qs = mset (map fst (al_puts s))" using set_eq_iff_mset_eq_distinct by metis
  then have "image_mset (value_at s) (mset ?qs) = image_mset (value_at s) (mset (map fst (al_puts s)))" by simp
  also have "\<dots> = mset (map (\<lambda>x. value_at s (fst x)) (al_puts s))" by (simp add: image_mset.compositionality comp_def)
  also have "map (\<lambda>x. value_at s (fst x)) (al_puts s) = map snd (al_puts s)" using p(4) by auto
  finally show ?thesis by (simp add: contents_def filter_map comp_def)
qed

text \<open>
  C23. In every reachable state, whatever the threads do, the nodes from the head form a list that
  ends, without repetition, whose values other than the default are exactly those of the calls of
  \<open>put\<close> so far, each once, and no thread has gone through a pointer to nothing.
\<close>

theorem atomic_list_contents:
  assumes "al_reach d s"
  shows "\<exists>ps. path (al_nodes s) (al_head s) ps \<and> distinct ps \<and> contents d s ps = mset (map snd (al_puts s)) \<and>
    (\<forall>i. al_pcs s i \<noteq> Lost)"
proof -
  from al_reach_inv [OF assms] obtain ps where inv: "al_inv d s ps" by blast
  have "al_pcs s i \<noteq> Lost" for i using al_inv_pc [OF inv, of i] by auto
  with inv al_inv_contents [OF inv] show ?thesis by (auto simp: al_inv_def)
qed

text \<open>
  Two threads put values at the same time: both read the empty head, the second one fails to swap it
  and tries again.
\<close>

fun al_schedule :: "'v \<Rightarrow> (nat \<times> 'v al_action) list \<Rightarrow> 'v alist \<Rightarrow> 'v alist option" where
  "al_schedule d [] s = Some s"
| "al_schedule d ((i, a) # xs) s = do { s1 \<leftarrow> al_exec d i a s; al_schedule d xs s1 }"

lemma al_schedule_reach: "al_schedule d xs s = Some s' \<Longrightarrow> al_reach d s \<Longrightarrow> al_reach d s'"
  by (induction d xs s rule: al_schedule.induct) (auto split: Option.bind_splits intro: al_reach.step)

definition two_puts :: "(nat \<times> int al_action) list" where
  "two_puts = [(0, CallPut 7), (1, CallPut 8), (0, Run 10), (1, Run 11), (0, Run 0), (1, Run 0), (0, Run 0),
     (1, Run 0), (1, Run 0), (1, Run 0)]"

lemma two_puts_run:
  "\<exists>s. al_schedule 0 two_puts AtomicList_new = Some s \<and> al_head s = Some 11 \<and> al_puts s = [(10, 7), (11, 8)]"
  by (simp add: two_puts_def AtomicList_new_def al_exec_def al_run_def is_idle_def go_def deref_node_def cas_head_def
      put_returns_def Let_def)

lemma atomic_list_contents_witness:
  "\<exists>s ps. al_puts s = [(10, 7 :: int), (11, 8)] \<and> path (al_nodes s) (al_head s) ps \<and> contents 0 s ps = {#7, 8#}"
proof -
  from two_puts_run obtain s where s: "al_schedule 0 two_puts AtomicList_new = Some s" "al_puts s = [(10, 7 :: int), (11, 8)]"
    by blast
  from atomic_list_contents [OF al_schedule_reach [OF s(1) al_reach.init]] s(2) show ?thesis
    by (auto simp: add_mset_commute)
qed

text \<open>
  A reader that goes from \<open>begin()\<close> to \<open>end()\<close> while other threads put and dismiss: it sees every
  value whose \<open>put\<close> was over when it began, and no value that was never put.
\<close>

theorem atomic_list_reader_sees:
  assumes "al_reach d s" "al_pcs s i = Walk k None seen"
  shows "snd ` set (take k (al_puts s)) \<subseteq> set seen \<and> set seen \<subseteq> insert d (snd ` set (al_puts s))"
proof -
  from al_reach_inv [OF assms(1)] obtain ps where inv: "al_inv d s ps" by blast
  from al_inv_pc [OF inv, of i] assms(2) obtain rest where
    "path (al_nodes s) None rest" "covers s k seen rest" "set seen \<subseteq> insert d (snd ` set (al_puts s))" by auto
  then show ?thesis by (cases rest) (auto simp: covers_def)
qed

definition put_and_walk :: "(nat \<times> int al_action) list" where
  "put_and_walk = two_puts @ [(0, CallBegin), (1, CallPut 9), (0, Run 0), (0, Run 0), (0, Run 0), (0, Run 0)]"

lemma put_and_walk_run:
  "\<exists>s. al_schedule 0 put_and_walk AtomicList_new = Some s \<and> al_pcs s 0 = Walk 2 None [8, 7] \<and>
     al_puts s = [(10, 7), (11, 8)]"
  by (simp add: put_and_walk_def two_puts_def AtomicList_new_def al_exec_def al_run_def is_idle_def go_def
      deref_node_def cas_head_def put_returns_def Let_def)

lemma atomic_list_reader_sees_witness:
  "\<exists>s. al_schedule 0 put_and_walk AtomicList_new = Some s \<and> al_pcs s 0 = Walk 2 None [8, 7] \<and>
     snd ` set (take 2 (al_puts s)) \<subseteq> {8, 7 :: int}"
proof -
  from put_and_walk_run obtain s where s: "al_schedule 0 put_and_walk AtomicList_new = Some s"
    "al_pcs s 0 = Walk 2 None [8, 7]" "al_puts s = [(10, 7 :: int), (11, 8)]" by blast
  from atomic_list_reader_sees [OF al_schedule_reach [OF s(1) al_reach.init] s(2)] s show ?thesis by auto
qed

text \<open>
  A value that has been put is never removed, by \<open>dismiss\<close> neither: it passes the default as
  the expected and the old value as the new one to \<open>CompareAndSwap\<close>. Whatever the threads do after a
  \<open>put\<close>, its node stays in the list with its value.
\<close>

theorem atomic_list_dismiss_keeps:
  assumes "al_reach d s" "(p, v) \<in> set (al_puts s)" "al_steps d s s'"
  shows "\<exists>ps. path (al_nodes s') (al_head s') ps \<and> p \<in> set ps \<and> value_at s' p = v"
proof -
  from al_reach_inv [OF assms(1)] obtain ps where inv: "al_inv d s ps" by blast
  from al_steps_inv [OF assms(3) inv] assms(2) obtain ps' where
    inv': "al_inv d s' ps'" and mem: "(p, v) \<in> set (al_puts s')" by auto
  have "p \<in> fst ` set (al_puts s')" using mem by force
  with inv' mem show ?thesis unfolding al_inv_def puts_ok_def by auto
qed

lemma al_schedule_steps: "al_schedule d xs s1 = Some s2 \<Longrightarrow> al_steps d s s1 \<Longrightarrow> al_steps d s s2"
  by (induction d xs s1 rule: al_schedule.induct) (auto split: Option.bind_splits intro: al_steps.step)

lemma dismiss_run:
  assumes "al_schedule 0 two_puts AtomicList_new = Some s"
  shows "\<exists>s'. al_schedule 0 [(0, CallDismiss 10), (0, Run 0), (0, Run 0)] s = Some s' \<and> al_pcs s' 0 = Outside"
  using assms by (auto simp: two_puts_def AtomicList_new_def al_exec_def al_run_def is_idle_def go_def deref_node_def
      cas_head_def cas_value_def put_returns_def Let_def)

lemma atomic_list_dismiss_keeps_witness:
  "\<exists>s s'. al_schedule 0 [(0, CallDismiss 10), (0, Run 0), (0, Run 0)] s = Some s' \<and> al_pcs s' 0 = Outside \<and>
     value_at s' 10 = (7 :: int)"
proof -
  from two_puts_run obtain s where s: "al_schedule 0 two_puts AtomicList_new = Some s" "al_puts s = [(10, 7 :: int), (11, 8)]"
    by blast
  from dismiss_run [OF s(1)] obtain s' where s': "al_schedule 0 [(0, CallDismiss 10), (0, Run 0), (0, Run 0)] s = Some s'"
    "al_pcs s' 0 = Outside" by blast
  from atomic_list_dismiss_keeps [OF al_schedule_reach [OF s(1) al_reach.init] _ al_schedule_steps [OF s'(1) al_steps.refl],
      of 10 7] s(2) s' show ?thesis by auto
qed

text \<open>
  \<open>put\<close> is not blocked by threads that have stopped anywhere: a thread that is inside \<open>put\<close>
  finishes it in finitely many steps of its own.
\<close>

theorem atomic_list_put_finishes:
  assumes "al_reach d s" "\<not> is_idle (al_pcs s i)"
    and "\<forall>p v. al_pcs s i \<noteq> Dismiss p \<and> al_pcs s i \<noteq> DismissSwap p v"
    and "\<forall>k a p seen. al_pcs s i \<noteq> Walk k a seen \<and> al_pcs s i \<noteq> WalkNext k p seen"
  shows "\<exists>ns s' p. run_alone d i ns s = Some s' \<and> al_pcs s' i = PutDone p"
proof -
  from al_reach_inv [OF assms(1)] obtain ps where inv: "al_inv d s ps" by blast
  note ok = al_inv_pc [OF inv, of i]
  have fin: "finite (dom (al_nodes s))" "path (al_nodes s) (al_head s) ps" using inv by (simp_all add: al_inv_def)
  have "finishes d i s"
  proof (cases "al_pcs s i")
    case (Scan v a)
    with ok fin show ?thesis by (auto intro: finishes_Scan)
  next
    case (Claim v p)
    with ok fin show ?thesis by (auto intro: finishes_Claim)
  next
    case (Advance v p)
    with ok fin show ?thesis by (auto intro: finishes_Advance)
  next
    case (ReadHead m)
    with ok show ?thesis by (auto intro: finishes_ReadHead)
  next
    case (Push m old)
    with ok show ?thesis by (auto intro: finishes_Push)
  qed (use assms ok in \<open>auto simp: is_idle_def\<close>)
  then show ?thesis by (simp add: finishes_def)
qed

lemma atomic_list_put_finishes_witness:
  "\<exists>s ns s' p. al_schedule 0 [(0, CallPut (7 :: int)), (1, CallPut 8), (0, Run 10), (0, Run 0)] AtomicList_new = Some s \<and>
     run_alone 0 1 ns s = Some s' \<and> al_pcs s' 1 = PutDone p"
proof -
  obtain s where s: "al_schedule 0 [(0, CallPut (7 :: int)), (1, CallPut 8), (0, Run 10), (0, Run 0)] AtomicList_new = Some s"
    "al_pcs s 1 = Scan 8 None"
    by (simp add: AtomicList_new_def al_exec_def al_run_def is_idle_def go_def deref_node_def Let_def)
  from atomic_list_put_finishes [OF al_schedule_reach [OF s(1) al_reach.init], of 1] s show ?thesis
    by (auto simp: is_idle_def)
qed

section \<open>Lazy singletons\<close>

text \<open>
  \<open>me_\<close> of a \<open>LazySingleton\<close>: \<open>NULL\<close>, \<open>-1\<close> or the address of an instance. Each thread calls
  \<open>GetInstance\<close> once.
\<close>

datatype lazy_word = Null | Busy | Instance nat

datatype lazy_pc =
    TestNull | TestBusy | TryBusy | CheckBusy | Create
  | Install nat | CheckInstalled nat | Return | Returned nat | Failed

record lazy =
  me :: lazy_word
  ls_pcs :: "nat \<Rightarrow> lazy_pc"
  made :: "nat list"

definition lazy_new :: lazy where
  "lazy_new = \<lparr>me = Null, ls_pcs = (\<lambda>_. TestNull), made = []\<rparr>"

definition ls_go :: "nat \<Rightarrow> lazy_pc \<Rightarrow> lazy \<Rightarrow> lazy" where
  "ls_go i pc s = s\<lparr>ls_pcs := (ls_pcs s)(i := pc)\<rparr>"

definition cas_me :: "lazy_word \<Rightarrow> lazy_word \<Rightarrow> lazy \<Rightarrow> lazy" where
  "cas_me old_value new_value s = (if me s = old_value then s\<lparr>me := new_value\<rparr> else s)"

text \<open>The next step of thread \<open>i\<close>; \<open>n\<close> is the address of a new instance, \<open>debug\<close> is whether \<open>assert\<close> is on.\<close>

definition ls_run :: "bool \<Rightarrow> nat \<Rightarrow> nat \<Rightarrow> lazy \<Rightarrow> lazy option" where
  "ls_run debug i n s = (case ls_pcs s i of
       TestNull \<Rightarrow> Some (ls_go i (if me s = Null then TryBusy else TestBusy) s)
     | TestBusy \<Rightarrow> Some (ls_go i (if me s = Busy then TryBusy else Return) s)
     | TryBusy \<Rightarrow> Some (ls_go i CheckBusy (cas_me Null Busy s))
     | CheckBusy \<Rightarrow> Some (ls_go i (if me s = Busy then Create else TestNull) s)
     | Create \<Rightarrow> if n \<in> set (made s) then None else Some (ls_go i (Install n) (s\<lparr>made := made s @ [n]\<rparr>))
     | Install m \<Rightarrow> Some (ls_go i (CheckInstalled m) (cas_me Busy (Instance m) s))
     | CheckInstalled m \<Rightarrow> Some (ls_go i (if debug \<and> me s \<noteq> Instance m then Failed else TestNull) s)
     | Return \<Rightarrow> Some (ls_go i (case me s of Instance m \<Rightarrow> Returned m | _ \<Rightarrow> Failed) s)
     | _ \<Rightarrow> None)"

inductive ls_reach :: "bool \<Rightarrow> lazy \<Rightarrow> bool" for debug where
  init: "ls_reach debug lazy_new"
| step: "ls_reach debug s \<Longrightarrow> ls_run debug i n s = Some s' \<Longrightarrow> ls_reach debug s'"

definition ls_pc_ok :: "bool \<Rightarrow> lazy \<Rightarrow> lazy_pc \<Rightarrow> bool" where
  "ls_pc_ok debug s pc = (case pc of
       Returned m \<Rightarrow> me s = Instance m
     | Return \<Rightarrow> \<exists>m. me s = Instance m
     | CheckInstalled m \<Rightarrow> \<exists>m'. me s = Instance m'
     | TestNull \<Rightarrow> True
     | TryBusy \<Rightarrow> True
     | Failed \<Rightarrow> debug
     | _ \<Rightarrow> me s \<noteq> Null)"

lemma ls_run_inv:
  assumes "ls_run debug i n s = Some s'" "\<forall>j. ls_pc_ok debug s (ls_pcs s j)"
  shows "\<forall>j. ls_pc_ok debug s' (ls_pcs s' j)"
proof
  fix j
  from assms(1) have mono: "(\<forall>m. me s = Instance m \<longrightarrow> me s' = Instance m) \<and> (me s \<noteq> Null \<longrightarrow> me s' \<noteq> Null)"
    by (auto simp: ls_run_def ls_go_def cas_me_def split: lazy_pc.splits if_splits)
  have other: "ls_pc_ok debug s' pc" if "ls_pc_ok debug s pc" for pc
    using that mono by (auto simp: ls_pc_ok_def split: lazy_pc.splits)
  show "ls_pc_ok debug s' (ls_pcs s' j)"
  proof (cases "j = i")
    case True
    have "ls_pc_ok debug s (ls_pcs s i)" using assms(2) by blast
    with assms(1) True show ?thesis
      by (cases "me s") (auto simp: ls_run_def ls_go_def cas_me_def ls_pc_ok_def split: lazy_pc.splits if_splits)
  next
    case False
    with assms(1) have "ls_pcs s' j = ls_pcs s j"
      by (auto simp: ls_run_def ls_go_def cas_me_def split: lazy_pc.splits if_splits)
    then show ?thesis using other assms(2) by simp
  qed
qed

lemma ls_reach_inv: "ls_reach debug s \<Longrightarrow> \<forall>j. ls_pc_ok debug s (ls_pcs s j)"
proof (induction rule: ls_reach.induct)
  case init
  show ?case by (simp add: lazy_new_def ls_pc_ok_def)
next
  case (step s i n s')
  from ls_run_inv [OF step(2) step.IH] show ?case .
qed

fun ls_schedule :: "bool \<Rightarrow> (nat \<times> nat) list \<Rightarrow> lazy \<Rightarrow> lazy option" where
  "ls_schedule debug [] s = Some s"
| "ls_schedule debug ((i, n) # xs) s = do { s1 \<leftarrow> ls_run debug i n s; ls_schedule debug xs s1 }"

lemma ls_schedule_reach: "ls_schedule debug xs s = Some s' \<Longrightarrow> ls_reach debug s \<Longrightarrow> ls_reach debug s'"
  by (induction debug xs s rule: ls_schedule.induct) (auto split: Option.bind_splits intro: ls_reach.step)

text \<open>
  All calls of \<open>GetInstance\<close> return the same instance, whatever their order; without
  assertions no call fails.
\<close>

theorem lazy_singleton_one_instance:
  assumes "ls_reach debug s"
  shows "(\<forall>i j m n. ls_pcs s i = Returned m \<longrightarrow> ls_pcs s j = Returned n \<longrightarrow> m = n) \<and>
    (\<not> debug \<longrightarrow> (\<forall>i. ls_pcs s i \<noteq> Failed))"
proof -
  note inv = ls_reach_inv [OF assms, rule_format]
  have "m = n" if "ls_pcs s i = Returned m" "ls_pcs s j = Returned n" for i j m n
    using inv [of i] inv [of j] that by (simp add: ls_pc_ok_def)
  moreover have "ls_pcs s i \<noteq> Failed" if "\<not> debug" for i
    using inv [of i] that by (auto simp: ls_pc_ok_def)
  ultimately show ?thesis by blast
qed

text \<open>A thread that finds the mark of another one constructs a second instance.\<close>

definition two_instances :: "nat \<Rightarrow> nat \<Rightarrow> (nat \<times> nat) list" where
  "two_instances i j = [(i, 0), (i, 0), (i, 0), (j, 0), (j, 0), (j, 0), (j, 0), (i, 1), (j, 2), (i, 0), (j, 0), (i, 0),
     (i, 0), (i, 0), (i, 0)]"

lemma two_instances_run:
  assumes "i \<noteq> j"
  shows "\<exists>s. ls_schedule debug (two_instances i j) lazy_new = Some s \<and> ls_pcs s i = Returned 1 \<and>
    ls_pcs s j = CheckInstalled 2 \<and> me s = Instance 1 \<and> made s = [1, 2]"
  using assms by (simp add: two_instances_def lazy_new_def ls_run_def ls_go_def cas_me_def)

lemma lazy_singleton_one_instance_witness:
  "\<exists>s. ls_schedule False (two_instances 0 1 @ [(1, 0), (1, 0), (1, 0), (1, 0)]) lazy_new = Some s \<and>
     ls_pcs s 1 = Returned 1 \<and> ls_pcs s 1 \<noteq> Failed"
proof -
  obtain s where s: "ls_schedule False (two_instances 0 1 @ [(1, 0), (1, 0), (1, 0), (1, 0)]) lazy_new = Some s"
    "ls_pcs s 1 = Returned 1"
    by (simp add: two_instances_def lazy_new_def ls_run_def ls_go_def cas_me_def)
  from lazy_singleton_one_instance [OF ls_schedule_reach [OF s(1) ls_reach.init]] s show ?thesis by blast
qed

text \<open>
  Two threads can both construct an instance: the one that finds \<open>-1\<close> does not test whether its
  own \<open>CompareAndSwap\<close> has stored it. The assertion of the slower one fails although the other one
  returns.
\<close>

theorem lazy_singleton_assertion_fails:
  assumes "i \<noteq> j"
  shows "\<exists>s. ls_reach True s \<and> ls_pcs s i = Returned 1 \<and> ls_pcs s j = Failed \<and> made s = [1, 2]"
proof -
  from two_instances_run [OF assms, of True] obtain s where
    s: "ls_schedule True (two_instances i j) lazy_new = Some s" "ls_pcs s i = Returned 1" "ls_pcs s j = CheckInstalled 2"
    "me s = Instance 1" "made s = [1, 2]" by blast
  then have "ls_run True j 0 s = Some (ls_go j Failed s)" by (simp add: ls_run_def)
  with ls_reach.step [OF ls_schedule_reach [OF s(1) ls_reach.init] this] s assms show ?thesis
    by (intro exI [of _ "ls_go j Failed s"]) (simp add: ls_go_def)
qed

lemma lazy_singleton_assertion_fails_witness:
  "\<exists>s. ls_reach True s \<and> ls_pcs s 0 = Returned 1 \<and> ls_pcs s 1 = Failed"
  using lazy_singleton_assertion_fails [of 0 1] by auto

end
