(* ===== verification/WindowQueues.thy ===== *)
theory WindowQueues
  imports MessageQueue "HOL-Library.Multiset" "HOL-Library.Sublist"
begin

text \<open>
  The message queue of the Win32 build, \<open>src/common/message_queue_win32.cc\<close>: every thread has a
  window, a message is pushed to the events of the window, and the first one of an empty queue posts
  a window message that makes the thread take and dispatch all events. The handlers are those of
  theory \<open>MessageQueue\<close>. Threads are interleaved at every use of a mutex and at every call and
  return of a handler.
\<close>

section \<open>Operations\<close>

text \<open>
  A window, with the number of window messages posted to it, and the calls of \<open>OnThreadMessage\<close> on
  the stack of its thread, the innermost first: whether a handler runs, and the local events (their
  front is the event the handler runs for).
\<close>

record window =
  events :: "Message list"
  posted :: nat
  frames :: "(bool \<times> Message list) list"

text \<open>
  \<open>tls\<close> is the set of threads whose thread-local value is set, \<open>inserting\<close> and \<open>ending\<close> those in the
  middle of \<open>InitThreadMessageQueue\<close> and \<open>ThreadEndHook\<close>; \<open>w_sent\<close>, \<open>w_fates\<close> and \<open>w_refused\<close> record
  what happens.
\<close>

record wprocess =
  w_handlers :: thread_handlers
  windows :: "ThreadId \<Rightarrow> window option"
  tls :: "ThreadId set"
  thread_map :: "ThreadId set"
  inserting :: "ThreadId set"
  ending :: "ThreadId set"
  w_sent :: "(ThreadId \<times> Message) list"
  w_fates :: "(ThreadId \<times> Message \<times> fate) list"
  w_refused :: "(ThreadId \<times> nat) list"

definition wprocess_init :: wprocess where
  "wprocess_init = \<lparr>w_handlers = (\<lambda>_. None), windows = (\<lambda>_. None), tls = {}, thread_map = {}, inserting = {},
     ending = {}, w_sent = [],
     w_fates = [], w_refused = []\<rparr>"

definition set_window :: "ThreadId \<Rightarrow> window \<Rightarrow> wprocess \<Rightarrow> wprocess" where
  "set_window t w s = s\<lparr>windows := (windows s)(t \<mapsto> w)\<rparr>"

text \<open>\<open>InitThreadMessageQueue\<close>: the window is created before the mutex is taken.\<close>

definition Init_create :: "ThreadId \<Rightarrow> wprocess \<Rightarrow> wprocess" where
  "Init_create t s =
     (if t \<in> tls s then s
      else (set_window t \<lparr>events = [], posted = 0, frames = []\<rparr> s)
        \<lparr>tls := insert t (tls s), inserting := insert t (inserting s)\<rparr>)"

definition Init_insert :: "ThreadId \<Rightarrow> wprocess \<Rightarrow> wprocess" where
  "Init_insert t s = s\<lparr>thread_map := insert t (thread_map s), inserting := inserting s - {t}\<rparr>"

text \<open>\<open>PostThreadMessage\<close>; \<open>ok\<close> is whether \<open>PostMessage\<close> succeeds, which the code does not look at.\<close>

definition PostThreadMessage :: "bool \<Rightarrow> Message \<Rightarrow> window \<Rightarrow> window" where
  "PostThreadMessage ok m w =
     (let es = events w @ [m]
      in if length es = 1 then w\<lparr>events := es, posted := posted w + (if ok then 1 else 0)\<rparr>
         else w\<lparr>events := es\<rparr>)"

definition w_Send :: "bool \<Rightarrow> ThreadId \<Rightarrow> int \<Rightarrow> nat \<Rightarrow> wprocess \<Rightarrow> wprocess os_result" where
  "w_Send ok t type data s =
     (if t \<notin> thread_map s then Returned (s\<lparr>w_refused := w_refused s @ [(t, data)]\<rparr>)
      else case windows s t of
          None \<Rightarrow> Aborted
        | Some w \<Rightarrow> let m = \<lparr>message_type = type, message_data = data\<rparr>
            in Returned ((set_window t (PostThreadMessage ok m w) s)\<lparr>w_sent := w_sent s @ [(t, m)]\<rparr>))"

text \<open>
  \<open>OnThreadMessage\<close>: the events are swapped into a local variable, which the code asserts to be not
  empty; then the handler of the front is called, and the front is removed when it has returned.
\<close>

definition OnThreadMessage :: "window \<Rightarrow> window os_result" where
  "OnThreadMessage w =
     (if events w = [] then Aborted
      else Returned (w\<lparr>events := [], frames := (False, events w) # frames w\<rparr>))"

definition w_Deliver :: "ThreadId \<Rightarrow> wprocess \<Rightarrow> wprocess os_result" where
  "w_Deliver t s = (case windows s t of
       None \<Rightarrow> Blocked
     | Some w \<Rightarrow> if posted w = 0 then Blocked
         else os_bind (OnThreadMessage (w\<lparr>posted := posted w - 1\<rparr>)) (\<lambda>w1. Returned (set_window t w1 s)))"

definition w_Dispatch :: "ThreadId \<Rightarrow> wprocess \<Rightarrow> wprocess os_result" where
  "w_Dispatch t s = (case windows s t of
       None \<Rightarrow> Blocked
     | Some w \<Rightarrow> (case frames w of
         (False, m # ms) # fs \<Rightarrow>
           Returned ((set_window t (w\<lparr>frames := (True, m # ms) # fs\<rparr>) s)
             \<lparr>w_fates := w_fates s @ [(t, m, Handled (HandleThreadMessage (message_type m) (w_handlers s)))]\<rparr>)
       | _ \<Rightarrow> Blocked))"

definition w_Return :: "ThreadId \<Rightarrow> wprocess \<Rightarrow> wprocess os_result" where
  "w_Return t s = (case windows s t of
       None \<Rightarrow> Blocked
     | Some w \<Rightarrow> (case frames w of
         (True, m # ms) # fs \<Rightarrow> Returned (set_window t (w\<lparr>frames := (False, ms) # fs\<rparr>) s)
       | (False, []) # fs \<Rightarrow> Returned (set_window t (w\<lparr>frames := fs\<rparr>) s)
       | _ \<Rightarrow> Blocked))"

text \<open>\<open>ThreadEndHook\<close>: the thread is erased from the map, then its window is destroyed.\<close>

definition End_erase :: "ThreadId \<Rightarrow> wprocess \<Rightarrow> wprocess" where
  "End_erase t s = s\<lparr>thread_map := thread_map s - {t}, ending := insert t (ending s)\<rparr>"

definition End_delete :: "ThreadId \<Rightarrow> wprocess \<Rightarrow> wprocess os_result" where
  "End_delete t s = (case windows s t of
       None \<Rightarrow> Aborted
     | Some w \<Rightarrow> Returned (s\<lparr>windows := (windows s)(t := None), tls := tls s - {t}, ending := ending s - {t},
         w_fates := w_fates s @ map (\<lambda>m. (t, m, Discarded)) (events w)\<rparr>))"

section \<open>Runs\<close>

datatype w_action =
    WRegister int nat
  | WCreate ThreadId
  | WInsert ThreadId
  | WSend bool ThreadId int nat
  | WDeliver ThreadId
  | WDispatch ThreadId
  | WReturn ThreadId
  | WErase ThreadId
  | WDelete ThreadId

definition in_call :: "ThreadId \<Rightarrow> wprocess \<Rightarrow> bool" where
  "in_call t s = (case windows s t of None \<Rightarrow> False | Some w \<Rightarrow> frames w \<noteq> [])"

text \<open>A thread takes window messages in its message loop, or in the loop of a dialog that a handler runs.\<close>

definition may_pump :: "ThreadId \<Rightarrow> wprocess \<Rightarrow> bool" where
  "may_pump t s = (case windows s t of None \<Rightarrow> False
     | Some w \<Rightarrow> (case frames w of [] \<Rightarrow> True | (running, ms) # fs \<Rightarrow> running))"

fun w_exec :: "w_action \<Rightarrow> wprocess \<Rightarrow> wprocess os_result" where
  "w_exec (WRegister type h) s = Returned (s\<lparr>w_handlers := tmq_RegisterHandler type h (w_handlers s)\<rparr>)"
| "w_exec (WCreate t) s = Returned (Init_create t s)"
| "w_exec (WInsert t) s = (if t \<in> inserting s then Returned (Init_insert t s) else Blocked)"
| "w_exec (WSend ok t type data) s = w_Send ok t type data s"
| "w_exec (WDeliver t) s = (if may_pump t s \<and> t \<notin> ending s then w_Deliver t s else Blocked)"
| "w_exec (WDispatch t) s = w_Dispatch t s"
| "w_exec (WReturn t) s = w_Return t s"
| "w_exec (WErase t) s = 
     (if t \<in> tls s - inserting s - ending s \<and> \<not> in_call t s then Returned (End_erase t s) else Blocked)"
| "w_exec (WDelete t) s = (if t \<in> ending s then End_delete t s else Blocked)"

text \<open>
  \<open>reliable\<close> runs are those in which \<open>PostMessage\<close> succeeds, and \<open>nested\<close> ones those in which a
  handler may run a message loop.
\<close>

definition allowed :: "bool \<Rightarrow> bool \<Rightarrow> w_action \<Rightarrow> wprocess \<Rightarrow> bool" where
  "allowed nested reliable a s = (case a of
       WSend ok t type data \<Rightarrow> reliable \<longrightarrow> ok
     | WDeliver t \<Rightarrow> nested \<or> \<not> in_call t s
     | _ \<Rightarrow> True)"

inductive w_reach :: "bool \<Rightarrow> bool \<Rightarrow> wprocess \<Rightarrow> bool" for nested reliable where
  init: "w_reach nested reliable wprocess_init"
| step: "w_reach nested reliable s \<Longrightarrow> allowed nested reliable a s \<Longrightarrow> w_exec a s = Returned s' \<Longrightarrow>
    w_reach nested reliable s'"

fun w_run :: "w_action list \<Rightarrow> wprocess \<Rightarrow> wprocess os_result" where
  "w_run [] s = Returned s"
| "w_run (a # as) s = os_bind (w_exec a s) (w_run as)"

section \<open>Invariants\<close>

definition w_sent_to :: "ThreadId \<Rightarrow> wprocess \<Rightarrow> Message list" where
  "w_sent_to t s = map snd (filter (\<lambda>x. fst x = t) (w_sent s))"

definition w_fates_of :: "ThreadId \<Rightarrow> wprocess \<Rightarrow> (Message \<times> fate) list" where
  "w_fates_of t s = map snd (filter (\<lambda>x. fst x = t) (w_fates s))"

text \<open>The events of a frame that are still to be dispatched, and those of a thread.\<close>

definition undispatched :: "bool \<times> Message list \<Rightarrow> Message list" where
  "undispatched f = (if fst f then tl (snd f) else snd f)"

definition waiting :: "ThreadId \<Rightarrow> wprocess \<Rightarrow> Message list" where
  "waiting t s = (case windows s t of None \<Rightarrow> [] | Some w \<Rightarrow> concat (map undispatched (frames w)) @ events w)"

lemma w_sent_to_simps [simp]:
  "w_sent_to t (set_window u w s) = w_sent_to t s" "w_fates_of t (set_window u w s) = w_fates_of t s"
  "windows (set_window u w s) = (windows s)(u \<mapsto> w)" "tls (set_window u w s) = tls s"
  "thread_map (set_window u w s) = thread_map s" "inserting (set_window u w s) = inserting s"
  "ending (set_window u w s) = ending s" "w_handlers (set_window u w s) = w_handlers s" "w_sent (set_window u w s) = w_sent s"
  "w_fates (set_window u w s) = w_fates s"
  by (simp_all add: w_sent_to_def w_fates_of_def set_window_def)

definition posts_ok :: "wprocess \<Rightarrow> bool" where
  "posts_ok s \<longleftrightarrow> (\<forall>t w. windows s t = Some w \<longrightarrow> posted w = (if events w = [] then 0 else 1))"

definition maps_ok :: "wprocess \<Rightarrow> bool" where
  "maps_ok s \<longleftrightarrow> tls s = dom (windows s) \<and> thread_map s \<subseteq> tls s - ending s \<and> inserting s \<subseteq> tls s \<and>
     ending s \<subseteq> tls s - inserting s \<and> (\<forall>t\<in>ending s. \<not> in_call t s)"

lemma maps_ok_init: "maps_ok wprocess_init"
  by (simp add: maps_ok_def wprocess_init_def)

lemma in_call_set_window: "in_call t (set_window u w s) = (if t = u then frames w \<noteq> [] else in_call t s)"
  by (simp add: in_call_def)

lemma maps_ok_window:
  assumes "maps_ok s" "windows s t = Some w" "t \<in> ending s \<longrightarrow> frames w1 = []"
  shows "maps_ok (set_window t w1 s)"
proof -
  have "dom ((windows s)(t \<mapsto> w1)) = dom (windows s)" using assms(2) by auto
  moreover have "\<forall>u\<in>ending s. \<not> in_call u (set_window t w1 s)"
    using assms by (auto simp: maps_ok_def in_call_set_window)
  ultimately show ?thesis using assms(1) unfolding maps_ok_def by auto
qed

lemma maps_ok_cong:
  "maps_ok s \<Longrightarrow> tls s' = tls s \<Longrightarrow> windows s' = windows s \<Longrightarrow> thread_map s' = thread_map s \<Longrightarrow>
     inserting s' = inserting s \<Longrightarrow> ending s' = ending s \<Longrightarrow> maps_ok s'"
  unfolding maps_ok_def in_call_def by metis

lemma thread_map_window: "maps_ok s \<Longrightarrow> t \<in> thread_map s \<Longrightarrow> \<exists>w. windows s t = Some w"
  unfolding maps_ok_def by blast

text \<open>What a step does to the window of a thread and to its messages.\<close>

inductive window_step :: "bool \<Rightarrow> ThreadId \<Rightarrow> wprocess \<Rightarrow> wprocess \<Rightarrow> bool" for ok t s s' where
  none: "windows s' t = windows s t \<Longrightarrow> w_sent_to t s' = w_sent_to t s \<Longrightarrow> w_fates_of t s' = w_fates_of t s \<Longrightarrow>
    window_step ok t s s'"
| create: "windows s t = None \<Longrightarrow> windows s' t = Some \<lparr>events = [], posted = 0, frames = []\<rparr> \<Longrightarrow>
    w_sent_to t s' = w_sent_to t s \<Longrightarrow> w_fates_of t s' = w_fates_of t s \<Longrightarrow> window_step ok t s s'"
| send: "windows s t = Some w \<Longrightarrow> windows s' t = Some (PostThreadMessage ok m w) \<Longrightarrow>
    w_sent_to t s' = w_sent_to t s @ [m] \<Longrightarrow> w_fates_of t s' = w_fates_of t s \<Longrightarrow> window_step ok t s s'"
| deliver: "windows s t = Some w \<Longrightarrow> posted w \<noteq> 0 \<Longrightarrow> events w \<noteq> [] \<Longrightarrow>
    windows s' t = Some (w\<lparr>posted := posted w - 1, events := [], frames := (False, events w) # frames w\<rparr>) \<Longrightarrow>
    w_sent_to t s' = w_sent_to t s \<Longrightarrow> w_fates_of t s' = w_fates_of t s \<Longrightarrow> window_step ok t s s'"
| dispatch: "windows s t = Some w \<Longrightarrow> frames w = (False, m # ms) # fs \<Longrightarrow>
    windows s' t = Some (w\<lparr>frames := (True, m # ms) # fs\<rparr>) \<Longrightarrow>
    w_sent_to t s' = w_sent_to t s \<Longrightarrow> w_fates_of t s' = w_fates_of t s @ [(m, Handled h)] \<Longrightarrow> window_step ok t s s'"
| handler_returns: "windows s t = Some w \<Longrightarrow> frames w = (True, m # ms) # fs \<Longrightarrow>
    windows s' t = Some (w\<lparr>frames := (False, ms) # fs\<rparr>) \<Longrightarrow>
    w_sent_to t s' = w_sent_to t s \<Longrightarrow> w_fates_of t s' = w_fates_of t s \<Longrightarrow> window_step ok t s s'"
| returns: "windows s t = Some w \<Longrightarrow> frames w = (False, []) # fs \<Longrightarrow>
    windows s' t = Some (w\<lparr>frames := fs\<rparr>) \<Longrightarrow>
    w_sent_to t s' = w_sent_to t s \<Longrightarrow> w_fates_of t s' = w_fates_of t s \<Longrightarrow> window_step ok t s s'"
| delete: "windows s t = Some w \<Longrightarrow> frames w = [] \<Longrightarrow> windows s' t = None \<Longrightarrow>
    w_sent_to t s' = w_sent_to t s \<Longrightarrow> w_fates_of t s' = w_fates_of t s @ map (\<lambda>m. (m, Discarded)) (events w) \<Longrightarrow>
    window_step ok t s s'"

definition post_result :: "w_action \<Rightarrow> bool" where
  "post_result a = (case a of WSend ok t type data \<Rightarrow> ok | _ \<Rightarrow> True)"

lemmas w_view = w_sent_to_def w_fates_of_def

lemma w_exec_window_step:
  assumes "maps_ok s" "w_exec a s = Returned s'"
  shows "window_step (post_result a) t s s'"
proof (cases a)
  case (WRegister type h)
  with assms(2) show ?thesis by (intro none) (auto simp: w_view)
next
  case (WCreate u)
  show ?thesis
  proof (cases "u \<in> tls s \<or> u \<noteq> t")
    case True
    with WCreate assms(2) show ?thesis by (intro none) (auto simp: Init_create_def w_view)
  next
    case False
    then have "windows s t = None" using assms(1) by (auto simp: maps_ok_def)
    with False WCreate assms(2) show ?thesis by (intro create) (auto simp: Init_create_def w_view)
  qed
next
  case (WInsert u)
  with assms(2) show ?thesis by (intro none) (auto simp: Init_insert_def w_view split: if_splits)
next
  case (WSend ok u type data)
  show ?thesis
  proof (cases "u \<in> thread_map s \<and> u = t")
    case True
    then obtain w where "windows s t = Some w" using thread_map_window [OF assms(1), of t] by blast
    with True WSend assms(2) show ?thesis
      by (intro send [of _ _ w _ _ "\<lparr>message_type = type, message_data = data\<rparr>"])
        (auto simp: w_Send_def w_view post_result_def Let_def)
  next
    case False
    with WSend assms(2) show ?thesis
      by (intro none) (auto simp: w_Send_def w_view Let_def split: if_splits option.splits)
  qed
next
  case (WDeliver u)
  with assms(2) obtain w where w: "windows s u = Some w" "posted w \<noteq> 0" "events w \<noteq> []"
    "s' = set_window u (w\<lparr>posted := posted w - 1, events := [], frames := (False, events w) # frames w\<rparr>) s"
    by (auto simp: w_Deliver_def OnThreadMessage_def split: if_splits option.splits)
  show ?thesis
  proof (cases "u = t")
    case True
    with w show ?thesis by (intro deliver [of _ _ w]) simp_all
  next
    case False
    with w show ?thesis by (intro none) simp_all
  qed
next
  case (WDispatch u)
  with assms(2) obtain w m ms fs h where w: "windows s u = Some w" "frames w = (False, m # ms) # fs"
    "s' = (set_window u (w\<lparr>frames := (True, m # ms) # fs\<rparr>) s)\<lparr>w_fates := w_fates s @ [(u, m, Handled h)]\<rparr>"
    by (auto simp: w_Dispatch_def split: option.splits list.splits bool.splits prod.splits)
  show ?thesis
  proof (cases "u = t")
    case True
    with w show ?thesis by (intro dispatch [of _ _ w m ms fs]) (simp_all add: w_view)
  next
    case False
    with w show ?thesis by (intro none) (simp_all add: w_view)
  qed
next
  case (WReturn u)
  with assms(2) obtain w m ms fs where w: "windows s u = Some w"
    "frames w = (True, m # ms) # fs \<and> s' = set_window u (w\<lparr>frames := (False, ms) # fs\<rparr>) s \<or>
     frames w = (False, []) # fs \<and> s' = set_window u (w\<lparr>frames := fs\<rparr>) s"
    by (auto simp: w_Return_def split: option.splits list.splits bool.splits prod.splits)
  show ?thesis
  proof (cases "u = t")
    case True
    with w show ?thesis
      by (elim disjE conjE) (auto intro: handler_returns [of _ _ w m ms fs] returns [of _ _ w fs])
  next
    case False
    with w show ?thesis by (intro none) auto
  qed
next
  case (WErase u)
  with assms(2) show ?thesis by (intro none) (auto simp: End_erase_def w_view split: if_splits)
next
  case (WDelete u)
  with assms obtain w where w: "windows s u = Some w" "frames w = []"
    "s' = s\<lparr>windows := (windows s)(u := None), tls := tls s - {u}, ending := ending s - {u},
         w_fates := w_fates s @ map (\<lambda>m. (u, m, Discarded)) (events w)\<rparr>"
    by (auto simp: End_delete_def maps_ok_def in_call_def split: if_splits option.splits)
  show ?thesis
  proof (cases "u = t")
    case True
    with w show ?thesis by (intro delete [of _ _ w]) (simp_all add: w_view comp_def filter_map)
  next
    case False
    with w show ?thesis by (intro none) (simp_all add: w_view comp_def filter_map)
  qed
qed

lemma w_exec_maps_ok:
  assumes "maps_ok s" "w_exec a s = Returned s'"
  shows "maps_ok s'"
proof (cases a)
  case (WRegister type h)
  with assms show ?thesis by (auto intro: maps_ok_cong)
next
  case (WCreate u)
  show ?thesis
  proof (cases "u \<in> tls s")
    case True
    with WCreate assms show ?thesis by (simp add: Init_create_def)
  next
    case False
    let ?w = "\<lparr>events = [], posted = 0, frames = []\<rparr>"
    have s': "s' = (set_window u ?w s)\<lparr>tls := insert u (tls s), inserting := insert u (inserting s)\<rparr>"
      using WCreate False assms(2) by (simp add: Init_create_def)
    have m: "tls s = dom (windows s)" "thread_map s \<subseteq> tls s - ending s" "inserting s \<subseteq> tls s"
      "ending s \<subseteq> tls s - inserting s" "\<forall>t\<in>ending s. \<not> in_call t s" using assms(1) unfolding maps_ok_def by blast+
    have "\<forall>t\<in>ending s. \<not> in_call t s'" using m(5) s' by (auto simp: in_call_def)
    then show ?thesis using m False unfolding maps_ok_def s' by auto
  qed
next
  case (WInsert u)
  with assms(2) have "u \<in> inserting s" "s' = Init_insert u s" by (auto split: if_splits)
  moreover from this have "\<forall>t\<in>ending s. \<not> in_call t s'" using assms(1) by (simp add: maps_ok_def Init_insert_def in_call_def)
  ultimately show ?thesis using assms(1) unfolding maps_ok_def Init_insert_def by auto
next
  case (WSend ok u type data)
  show ?thesis
  proof (cases "u \<in> thread_map s")
    case True
    then obtain w where w: "windows s u = Some w" using thread_map_window [OF assms(1)] by blast
    let ?w = "PostThreadMessage ok \<lparr>message_type = type, message_data = data\<rparr> w"
    have "u \<in> ending s \<longrightarrow> frames ?w = []" using True assms(1) by (auto simp: maps_ok_def)
    from maps_ok_window [OF assms(1) w this] have "maps_ok (set_window u ?w s)" .
    moreover have "s' = (set_window u ?w s)\<lparr>w_sent := w_sent s @ [(u, \<lparr>message_type = type, message_data = data\<rparr>)]\<rparr>"
      using WSend True w assms(2) by (simp add: w_Send_def Let_def)
    ultimately show ?thesis by (auto intro: maps_ok_cong)
  next
    case False
    with WSend assms show ?thesis by (auto simp: w_Send_def intro: maps_ok_cong)
  qed
next
  case (WDeliver u)
  with assms obtain w w1 where "windows s u = Some w" "u \<notin> ending s" "s' = set_window u w1 s"
    by (auto simp: w_Deliver_def split: if_splits option.splits)
  with maps_ok_window [OF assms(1), of u w w1] show ?thesis by simp
next
  case (WDispatch u)
  with assms(2) obtain w m ms fs h where w: "windows s u = Some w" "frames w = (False, m # ms) # fs"
    "s' = (set_window u (w\<lparr>frames := (True, m # ms) # fs\<rparr>) s)\<lparr>w_fates := w_fates s @ [(u, m, Handled h)]\<rparr>"
    by (auto simp: w_Dispatch_def split: option.splits list.splits bool.splits prod.splits)
  have "u \<notin> ending s" using assms(1) w by (auto simp: maps_ok_def in_call_def)
  with maps_ok_window [OF assms(1) w(1), of "w\<lparr>frames := (True, m # ms) # fs\<rparr>"] w(3) show ?thesis
    by (auto intro: maps_ok_cong)
next
  case (WReturn u)
  with assms(2) obtain w w1 where w: "windows s u = Some w" "frames w \<noteq> []" "s' = set_window u w1 s"
    by (auto simp: w_Return_def split: option.splits list.splits bool.splits prod.splits)
  have "u \<notin> ending s" using assms(1) w by (auto simp: maps_ok_def in_call_def)
  with maps_ok_window [OF assms(1) w(1), of w1] w(3) show ?thesis by simp
next
  case (WErase u)
  with assms(2) have "u \<in> tls s - inserting s - ending s" "\<not> in_call u s" "s' = End_erase u s" by (auto split: if_splits)
  moreover from this have "\<forall>t\<in>insert u (ending s). \<not> in_call t s'"
    using assms(1) by (simp add: maps_ok_def End_erase_def in_call_def)
  ultimately show ?thesis using assms(1) unfolding maps_ok_def End_erase_def by auto
next
  case (WDelete u)
  with assms(2) have "u \<in> ending s" "\<exists>w. windows s u = Some w"
    by (auto simp: End_delete_def split: if_splits option.splits)
  moreover from this WDelete assms(2) obtain fs where "s' = s\<lparr>windows := (windows s)(u := None), tls := tls s - {u},
      ending := ending s - {u}, w_fates := fs\<rparr>" by (auto simp: End_delete_def)
  moreover from this have "\<forall>t\<in>ending s - {u}. \<not> in_call t s'" using assms(1) by (simp add: maps_ok_def in_call_def)
  ultimately show ?thesis using assms(1) unfolding maps_ok_def by auto
qed

lemma w_reach_maps_ok: "w_reach nested reliable s \<Longrightarrow> maps_ok s"
  by (induction rule: w_reach.induct) (auto intro: maps_ok_init w_exec_maps_ok)

text \<open>With reliable posting, exactly the windows with events have a window message under way.\<close>

lemma window_step_posts:
  assumes "window_step True t s s'" "\<forall>w. windows s t = Some w \<longrightarrow> posted w = (if events w = [] then 0 else 1)"
    and "windows s' t = Some w'"
  shows "posted w' = (if events w' = [] then 0 else 1)"
  using assms by (cases rule: window_step.cases) (auto simp: PostThreadMessage_def Let_def split: if_splits)

lemma w_reach_posts:
  "w_reach nested True s \<Longrightarrow> \<forall>t w. windows s t = Some w \<longrightarrow> posted w = (if events w = [] then 0 else 1)"
proof (induction rule: w_reach.induct)
  case init
  show ?case by (simp add: wprocess_init_def)
next
  case (step s a s')
  have "post_result a" using step(2) by (auto simp: allowed_def post_result_def split: w_action.splits)
  with w_exec_window_step [OF w_reach_maps_ok [OF step(1)] step(3)] have "window_step True t s s'" for t by simp
  with step.IH window_step_posts show ?case by blast
qed

definition waiting_in :: "window option \<Rightarrow> Message list" where
  "waiting_in x = (case x of None \<Rightarrow> [] | Some w \<Rightarrow> concat (map undispatched (frames w)) @ events w)"

lemma waiting_windows: "waiting t s = waiting_in (windows s t)"
  by (simp add: waiting_def waiting_in_def split: option.splits)

lemma waiting_in_simps [simp]:
  "waiting_in None = []" "waiting_in (Some w) = concat (map undispatched (frames w)) @ events w"
  by (simp_all add: waiting_in_def)

lemma PostThreadMessage_simps [simp]:
  "events (PostThreadMessage ok m w) = events w @ [m]" "frames (PostThreadMessage ok m w) = frames w"
  by (simp_all add: PostThreadMessage_def Let_def)

lemma window_step_accounts:
  assumes "window_step ok t s s'"
    and "mset (w_sent_to t s) = mset (map fst (w_fates_of t s)) + mset (waiting t s)"
  shows "mset (w_sent_to t s') = mset (map fst (w_fates_of t s')) + mset (waiting t s')"
  using assms by (cases rule: window_step.cases) (auto simp: waiting_windows undispatched_def comp_def)

lemma w_reach_accounts:
  "w_reach nested reliable s \<Longrightarrow> mset (w_sent_to t s) = mset (map fst (w_fates_of t s)) + mset (waiting t s)"
proof (induction rule: w_reach.induct)
  case init
  show ?case by (simp add: wprocess_init_def w_view waiting_windows)
next
  case (step s a s')
  from window_step_accounts [OF w_exec_window_step [OF w_reach_maps_ok [OF step(1)] step(3)] step.IH] show ?case .
qed

text \<open>Without nested message loops a thread is in at most one call.\<close>

definition in_order :: "ThreadId \<Rightarrow> wprocess \<Rightarrow> bool" where
  "in_order t s \<longleftrightarrow> w_sent_to t s = map fst (w_fates_of t s) @ waiting t s \<and>
     (\<forall>w. windows s t = Some w \<longrightarrow> length (frames w) \<le> 1)"

lemma window_step_in_order:
  assumes "window_step ok t s s'" "in_order t s"
    and "\<forall>w. windows s t = Some w \<longrightarrow> frames w \<noteq> [] \<longrightarrow>
      (\<forall>w'. windows s' t = Some w' \<longrightarrow> length (frames w') \<le> length (frames w))"
  shows "in_order t s'"
  using assms
proof (cases rule: window_step.cases)
  case (deliver w)
  then have "frames w = []" using assms(3) by auto
  with deliver assms(2) show ?thesis by (simp add: in_order_def waiting_windows undispatched_def)
qed (auto simp: in_order_def waiting_windows undispatched_def comp_def)

lemma w_reach_in_order: "w_reach False reliable s \<Longrightarrow> in_order t s"
proof (induction rule: w_reach.induct)
  case init
  show ?case by (simp add: wprocess_init_def in_order_def w_view waiting_windows)
next
  case (step s a s')
  have "length (frames w') \<le> length (frames w)"
    if w: "windows s t = Some w" "frames w \<noteq> []" "windows s' t = Some w'" for w w'
  proof (cases "a = WDeliver t")
    case True
    with step(2) w show ?thesis by (simp add: allowed_def in_call_def)
  next
    case False
    with step(3) w(1,3) show ?thesis
      by (cases a) (auto simp: Init_create_def Init_insert_def w_Send_def w_Deliver_def w_Dispatch_def w_Return_def
          End_erase_def End_delete_def OnThreadMessage_def Let_def split: if_splits option.splits list.splits
          bool.splits prod.splits)
  qed
  then have "\<forall>w. windows s t = Some w \<longrightarrow> frames w \<noteq> [] \<longrightarrow>
      (\<forall>w'. windows s' t = Some w' \<longrightarrow> length (frames w') \<le> length (frames w))" by blast
  from window_step_in_order [OF w_exec_window_step [OF w_reach_maps_ok [OF step(1)] step(3)] step.IH this] show ?case .
qed

lemma w_exec_not_Aborted:
  assumes "maps_ok s" "\<forall>t w. windows s t = Some w \<longrightarrow> posted w = (if events w = [] then 0 else 1)"
  shows "w_exec a s \<noteq> Aborted"
proof (cases a)
  case (WSend ok t type data)
  with assms(1) show ?thesis by (auto simp: w_Send_def maps_ok_def Let_def split: option.splits)
next
  case (WDeliver t)
  with assms(2) show ?thesis by (auto simp: w_Deliver_def OnThreadMessage_def split: option.splits if_splits)
next
  case (WDelete t)
  with assms(1) show ?thesis by (auto simp: End_delete_def maps_ok_def split: option.splits)
qed (auto simp: w_Dispatch_def w_Return_def split: option.splits list.splits bool.splits prod.splits)

section \<open>Properties\<close>

text \<open>
  C24. As long as posting a window message succeeds, no event is stranded: a window has exactly one
  window message under way when it has events and none otherwise, so that the assertion in
  \<open>OnThreadMessage\<close> and no other step fails, and every accepted message has been handled, discarded
  with its window or still waits, exactly once, also when handlers run message loops of their own.
\<close>

theorem window_queue_no_event_stranded:
  assumes "w_reach nested True s"
  shows "(\<forall>t w. windows s t = Some w \<longrightarrow> posted w = (if events w = [] then 0 else 1)) \<and>
    (\<forall>a. w_exec a s \<noteq> Aborted) \<and>
    (\<forall>t. mset (w_sent_to t s) = mset (map fst (w_fates_of t s)) + mset (waiting t s))"
  using w_reach_posts [OF assms] w_exec_not_Aborted [OF w_reach_maps_ok [OF assms] w_reach_posts [OF assms]]
    w_reach_accounts [OF assms] by blast

text \<open>
  If no handler runs a message loop of its own, the messages to a thread are handled in the order
  in which they were sent, whether or not window messages get lost.
\<close>

theorem window_queue_fifo:
  assumes "w_reach False reliable s"
  shows "w_sent_to t s = map fst (w_fates_of t s) @ waiting t s"
  using w_reach_in_order [OF assms] by (simp add: in_order_def)

definition msg :: "nat \<Rightarrow> Message" where
  "msg d = \<lparr>message_type = 7, message_data = d\<rparr>"

text \<open>Three messages to thread 2, the third of which is sent while the first one is handled.\<close>

definition three_sends :: "w_action list" where
  "three_sends = [WRegister 7 90, WCreate 2, WInsert 2, WSend True 2 7 1, WSend True 2 7 2, WDeliver 2, WDispatch 2,
     WSend True 2 7 3]"

fun all_allowed :: "bool \<Rightarrow> bool \<Rightarrow> w_action list \<Rightarrow> wprocess \<Rightarrow> bool" where
  "all_allowed nested reliable [] s = True"
| "all_allowed nested reliable (a # as) s =
     (allowed nested reliable a s \<and> (\<forall>s1. w_exec a s = Returned s1 \<longrightarrow> all_allowed nested reliable as s1))"

lemma w_run_reach:
  "w_run as s = Returned s' \<Longrightarrow> all_allowed nested reliable as s \<Longrightarrow> w_reach nested reliable s \<Longrightarrow>
     w_reach nested reliable s'"
  by (induction as arbitrary: s) (auto intro: w_reach.step)

lemmas w_run_simps = wprocess_init_def tmq_RegisterHandler_def Init_create_def Init_insert_def w_Send_def
  PostThreadMessage_def Let_def w_Deliver_def OnThreadMessage_def w_Dispatch_def w_Return_def may_pump_def in_call_def
  set_window_def allowed_def HandleThreadMessage_def tmq_GetRegisteredHandler_def tmq_Invoke_def

lemma three_sends_run:
  "\<exists>s. w_run three_sends wprocess_init = Returned s \<and> all_allowed False True three_sends wprocess_init \<and>
     all_allowed True True three_sends wprocess_init \<and> w_sent_to 2 s = [msg 1, msg 2, msg 3] \<and>
     w_fates_of 2 s = [(msg 1, Handled (Some 90))] \<and>
     windows s 2 = Some \<lparr>events = [msg 3], posted = 1, frames = [(True, [msg 1, msg 2])]\<rparr>"
  by (simp add: three_sends_def w_run_simps w_view msg_def)

lemma window_queue_no_event_stranded_witness:
  "\<exists>s. w_run three_sends wprocess_init = Returned s \<and> (\<forall>a. w_exec a s \<noteq> Aborted) \<and>
     mset (waiting 2 s) = {#msg 2, msg 3#}"
proof -
  from three_sends_run obtain s where s: "w_run three_sends wprocess_init = Returned s"
    "all_allowed True True three_sends wprocess_init" "w_sent_to 2 s = [msg 1, msg 2, msg 3]"
    "w_fates_of 2 s = [(msg 1, Handled (Some 90))]" by blast
  from window_queue_no_event_stranded [OF w_run_reach [OF s(1,2) w_reach.init]]
  have w: "\<forall>a. w_exec a s \<noteq> Aborted" "mset (w_sent_to 2 s) = mset (map fst (w_fates_of 2 s)) + mset (waiting 2 s)" by blast+
  then show ?thesis using s by auto
qed

lemma window_queue_fifo_witness:
  "\<exists>s. w_run three_sends wprocess_init = Returned s \<and> waiting 2 s = [msg 2, msg 3]"
proof -
  from three_sends_run obtain s where s: "w_run three_sends wprocess_init = Returned s"
    "all_allowed False True three_sends wprocess_init" "w_sent_to 2 s = [msg 1, msg 2, msg 3]"
    "w_fates_of 2 s = [(msg 1, Handled (Some 90))]" by blast
  from window_queue_fifo [OF w_run_reach [OF s(1,2) w_reach.init], of 2] s show ?thesis by auto
qed

text \<open>With a message loop inside the first handler the third message overtakes the second one.\<close>

lemma nested_loop_overtakes:
  "\<exists>s. w_run (three_sends @ [WDeliver 2, WDispatch 2, WReturn 2, WReturn 2, WReturn 2, WDispatch 2]) wprocess_init = Returned s \<and>
     w_sent_to 2 s = [msg 1, msg 2, msg 3] \<and> map fst (w_fates_of 2 s) = [msg 1, msg 3, msg 2]"
  by (simp add: three_sends_def w_run_simps w_view msg_def)

text \<open>
  When posting the window message fails, which \<open>PostThreadMessage\<close> does not notice, the queue of
  the thread is stuck for good: later sends are accepted and post nothing, because the queue is not
  empty, and no message is handled any more until the thread ends.
\<close>

theorem window_queue_post_failure:
  assumes "maps_ok s" "windows s t = Some w" "events w \<noteq> []" "posted w = 0" "frames w = []"
    and "w_run as s = Returned s'" "WDelete t \<notin> set as"
  shows "w_fates_of t s' = w_fates_of t s \<and> (\<exists>w'. windows s' t = Some w' \<and> posted w' = 0 \<and>
    (\<exists>ms. events w' = events w @ ms \<and> w_sent_to t s' = w_sent_to t s @ ms))"
  using assms
proof (induction as arbitrary: s w)
  case (Cons a as)
  from Cons.prems(6) obtain s1 where s1: "w_exec a s = Returned s1" "w_run as s1 = Returned s'" by auto
  have "window_step (post_result a) t s s1" by (rule w_exec_window_step [OF Cons.prems(1) s1(1)])
  moreover have "windows s1 t \<noteq> None"
    using s1(1) Cons.prems(2,7) by (cases a) (auto simp: Init_create_def Init_insert_def w_Send_def w_Deliver_def
        w_Dispatch_def w_Return_def End_erase_def End_delete_def OnThreadMessage_def Let_def
        split: if_splits option.splits list.splits bool.splits prod.splits)
  ultimately have "\<exists>w1 ms. windows s1 t = Some w1 \<and> posted w1 = 0 \<and> frames w1 = [] \<and> events w1 = events w @ ms \<and>
      w_fates_of t s1 = w_fates_of t s \<and> w_sent_to t s1 = w_sent_to t s @ ms"
  proof (cases rule: window_step.cases)
    case (send w' m)
    then show ?thesis using Cons.prems(2-5)
      by (intro exI [of _ "w\<lparr>events := events w @ [m]\<rparr>"] exI [of _ "[m]"]) (auto simp: PostThreadMessage_def Let_def)
  qed (use Cons.prems(2-5) in auto)
  then obtain w1 ms where w1: "windows s1 t = Some w1" "posted w1 = 0" "frames w1 = []" "events w1 = events w @ ms"
    "w_fates_of t s1 = w_fates_of t s" "w_sent_to t s1 = w_sent_to t s @ ms" by blast
  have "events w1 \<noteq> []" "WDelete t \<notin> set as" using w1 Cons.prems by auto
  from Cons.IH [OF w_exec_maps_ok [OF Cons.prems(1) s1(1)] w1(1) this(1) w1(2,3) s1(2) this(2)] w1 show ?case by auto
qed auto

definition lost_post :: "w_action list" where
  "lost_post = [WRegister 7 90, WCreate 2, WInsert 2, WSend False 2 7 1]"

lemma lost_post_run:
  "\<exists>s s'. w_run lost_post wprocess_init = Returned s \<and> all_allowed False False lost_post wprocess_init \<and>
     windows s 2 = Some \<lparr>events = [msg 1], posted = 0, frames = []\<rparr> \<and> w_fates_of 2 s = [] \<and>
     w_run [WSend True 2 7 2, WSend True 2 7 3] s = Returned s' \<and> w_sent_to 2 s' = [msg 1, msg 2, msg 3]"
  by (simp add: lost_post_def w_run_simps w_view msg_def)

lemma window_queue_post_failure_witness:
  "\<exists>s s'. w_run lost_post wprocess_init = Returned s \<and> w_run [WSend True 2 7 2, WSend True 2 7 3] s = Returned s' \<and>
     w_sent_to 2 s' = [msg 1, msg 2, msg 3] \<and> w_fates_of 2 s' = []"
proof -
  from lost_post_run obtain s s' where s: "w_run lost_post wprocess_init = Returned s"
    "all_allowed False False lost_post wprocess_init"
    "windows s 2 = Some \<lparr>events = [msg 1], posted = 0, frames = []\<rparr>" "w_fates_of 2 s = []"
    "w_run [WSend True 2 7 2, WSend True 2 7 3] s = Returned s'" "w_sent_to 2 s' = [msg 1, msg 2, msg 3]" by blast
  from window_queue_post_failure [OF w_reach_maps_ok [OF w_run_reach [OF s(1,2) w_reach.init]] s(3) _ _ _ s(5)] s
  show ?thesis by auto
qed

end
