(* ===== verification/Win32Sync.thy ===== *)
theory Win32Sync
  imports Sync
begin

text \<open>
  The Win32 build of the synchronisation primitives, \<open>src/common/mutex_win32.cc\<close>: a mutex over a
  critical section, a condition variable made of events with a reference count, and the \<open>Baton\<close> that
  processes pass on to each other. Threads are interleaved between the statements; the block that holds
  \<open>current_event_mutex_\<close> is one step.
\<close>

section \<open>Mutex\<close>

text \<open>A critical section may be entered again by its owner; the debug build asserts that it is not.\<close>

record win_mutex =
  crit_owner :: "nat option"
  crit_count :: nat
  is_locked :: bool

definition win_mutex_new :: win_mutex where
  "win_mutex_new = \<lparr>crit_owner = None, crit_count = 0, is_locked = False\<rparr>"

definition win_Lock :: "bool \<Rightarrow> nat \<Rightarrow> win_mutex \<Rightarrow> win_mutex os_result" where
  "win_Lock debug me m =
     (if crit_owner m \<noteq> None \<and> crit_owner m \<noteq> Some me then Blocked
      else let m1 = m\<lparr>crit_owner := Some me, crit_count := crit_count m + 1\<rparr>
           in if debug then (if is_locked m1 then Aborted else Returned (m1\<lparr>is_locked := True\<rparr>))
              else Returned m1)"

definition win_Unlock :: "bool \<Rightarrow> nat \<Rightarrow> win_mutex \<Rightarrow> win_mutex os_result" where
  "win_Unlock debug me m =
     (if debug \<and> \<not> is_locked m \<or> crit_owner m \<noteq> Some me then Aborted
      else let m1 = (if debug then m\<lparr>is_locked := False\<rparr> else m); n = crit_count m - 1
           in Returned (m1\<lparr>crit_count := n, crit_owner := (if n = 0 then None else Some me)\<rparr>))"

section \<open>Condition variable\<close>

text \<open>
  A manual-reset event with its reference count. A thread is \<open>Registered\<close> when it has a reference to
  the current event and still holds the mutex; \<open>Sleeping\<close> in \<open>WaitForSingleObject\<close>, where the flag
  says whether the wait has a timeout; in \<open>Relock\<close> and \<open>Leaving\<close> with the result of the wait. In
  \<open>SetsEvent\<close> and \<open>DropsEvent\<close> it is inside \<open>SignalAll\<close>.
\<close>

record win_event =
  event_set :: bool
  event_refs :: nat

datatype cv_pc =
    CvIdle
  | Registered nat bool
  | Sleeping nat bool
  | Relock nat bool
  | Leaving nat bool
  | Woken bool
  | SetsEvent nat
  | DropsEvent nat

record condvar =
  cv_mutex :: win_mutex
  current_event :: "nat option"
  cv_events :: "nat \<Rightarrow> win_event option"
  cv_pcs :: "nat \<Rightarrow> cv_pc"

definition condvar_new :: condvar where
  "condvar_new = \<lparr>cv_mutex = win_mutex_new, current_event = None, cv_events = (\<lambda>_. None), cv_pcs = (\<lambda>_. CvIdle)\<rparr>"

definition cv_go :: "nat \<Rightarrow> cv_pc \<Rightarrow> condvar \<Rightarrow> condvar" where
  "cv_go i pc s = s\<lparr>cv_pcs := (cv_pcs s)(i := pc)\<rparr>"

text \<open>References of \<open>scoped_refptr\<close>; the last one deletes the event and closes its handle.\<close>

definition event_ref :: "nat \<Rightarrow> condvar \<Rightarrow> condvar os_result" where
  "event_ref e s = (case cv_events s e of
       None \<Rightarrow> Aborted
     | Some x \<Rightarrow> Returned (s\<lparr>cv_events := (cv_events s)(e \<mapsto> x\<lparr>event_refs := event_refs x + 1\<rparr>)\<rparr>))"

definition event_unref :: "nat \<Rightarrow> condvar \<Rightarrow> condvar os_result" where
  "event_unref e s = (case cv_events s e of
       None \<Rightarrow> Aborted
     | Some x \<Rightarrow> if event_refs x = 0 then Aborted
         else if event_refs x = 1 then Returned (s\<lparr>cv_events := (cv_events s)(e := None)\<rparr>)
         else Returned (s\<lparr>cv_events := (cv_events s)(e \<mapsto> x\<lparr>event_refs := event_refs x - 1\<rparr>)\<rparr>))"

text \<open>The first block of \<open>WaitWithTimeout\<close>; \<open>n\<close> is the address of a new event, if one is needed.\<close>

definition cv_register :: "nat \<Rightarrow> nat \<Rightarrow> bool \<Rightarrow> condvar \<Rightarrow> condvar os_result" where
  "cv_register i n timeout s =
     (if current_event s = None \<and> cv_events s n \<noteq> None then Blocked
      else os_bind
        (if current_event s = None
         then event_ref n (s\<lparr>cv_events := (cv_events s)(n \<mapsto> \<lparr>event_set = False, event_refs = 0\<rparr>),
           current_event := Some n\<rparr>)
         else Returned s)
        (\<lambda>s1. case current_event s1 of
            None \<Rightarrow> Aborted
          | Some e \<Rightarrow> os_bind (event_ref e s1) (\<lambda>s2. Returned (cv_go i (Registered e timeout) s2))))"

text \<open>The block of \<open>SignalAll\<close>: the local reference is taken before that of the variable is dropped.\<close>

definition cv_take_event :: "nat \<Rightarrow> condvar \<Rightarrow> condvar os_result" where
  "cv_take_event i s = (case current_event s of
       None \<Rightarrow> Returned s
     | Some e \<Rightarrow> os_bind (event_ref e s) (\<lambda>s1.
         os_bind (event_unref e (s1\<lparr>current_event := None\<rparr>)) (\<lambda>s2. Returned (cv_go i (SetsEvent e) s2))))"

definition cv_set_mutex :: "win_mutex \<Rightarrow> condvar \<Rightarrow> condvar" where
  "cv_set_mutex m s = s\<lparr>cv_mutex := m\<rparr>"

text \<open>The next step of thread \<open>i\<close>.\<close>

definition cv_step :: "bool \<Rightarrow> nat \<Rightarrow> condvar \<Rightarrow> condvar os_result" where
  "cv_step debug i s = (case cv_pcs s i of
       Registered e timeout \<Rightarrow>
         os_bind (win_Unlock debug i (cv_mutex s)) (\<lambda>m. Returned (cv_go i (Sleeping e timeout) (cv_set_mutex m s)))
     | Sleeping e timeout \<Rightarrow> (case cv_events s e of
           None \<Rightarrow> Aborted
         | Some x \<Rightarrow> if event_set x then Returned (cv_go i (Relock e False) s) else Blocked)
     | Relock e r \<Rightarrow>
         os_bind (win_Lock debug i (cv_mutex s)) (\<lambda>m. Returned (cv_go i (Leaving e r) (cv_set_mutex m s)))
     | Leaving e r \<Rightarrow> os_bind (event_unref e s) (\<lambda>s1. Returned (cv_go i (Woken r) s1))
     | SetsEvent e \<Rightarrow> (case cv_events s e of
           None \<Rightarrow> Aborted
         | Some x \<Rightarrow> Returned (cv_go i (DropsEvent e) (s\<lparr>cv_events := (cv_events s)(e \<mapsto> x\<lparr>event_set := True\<rparr>)\<rparr>)))
     | DropsEvent e \<Rightarrow> os_bind (event_unref e s) (\<lambda>s1. Returned (cv_go i CvIdle s1))
     | _ \<Rightarrow> Blocked)"

text \<open>
  What the threads may call: the mutex is not locked by its owner, unlocked by its owner only, and
  held by a thread that waits.
\<close>

datatype cv_action = CvLock | CvUnlock | CvWait nat bool | CvSignalAll | CvTimeout | CvStep

definition cv_idle :: "cv_pc \<Rightarrow> bool" where
  "cv_idle pc = (case pc of CvIdle \<Rightarrow> True | Woken r \<Rightarrow> True | _ \<Rightarrow> False)"

definition cv_exec :: "bool \<Rightarrow> nat \<Rightarrow> cv_action \<Rightarrow> condvar \<Rightarrow> condvar os_result" where
  "cv_exec debug i a s = (case a of
       CvLock \<Rightarrow> if cv_idle (cv_pcs s i) \<and> crit_owner (cv_mutex s) \<noteq> Some i
         then os_bind (win_Lock debug i (cv_mutex s)) (\<lambda>m. Returned (cv_set_mutex m s)) else Blocked
     | CvUnlock \<Rightarrow> if cv_idle (cv_pcs s i) \<and> crit_owner (cv_mutex s) = Some i
         then os_bind (win_Unlock debug i (cv_mutex s)) (\<lambda>m. Returned (cv_set_mutex m s)) else Blocked
     | CvWait n timeout \<Rightarrow> if cv_idle (cv_pcs s i) \<and> crit_owner (cv_mutex s) = Some i
         then cv_register i n timeout s else Blocked
     | CvSignalAll \<Rightarrow> if cv_idle (cv_pcs s i) then cv_take_event i s else Blocked
     | CvTimeout \<Rightarrow> (case cv_pcs s i of
           Sleeping e True \<Rightarrow> Returned (cv_go i (Relock e True) s)
         | _ \<Rightarrow> Blocked)
     | CvStep \<Rightarrow> cv_step debug i s)"

inductive cv_reach :: "bool \<Rightarrow> condvar \<Rightarrow> bool" for debug where
  init: "cv_reach debug condvar_new"
| step: "cv_reach debug s \<Longrightarrow> cv_exec debug i a s = Returned s' \<Longrightarrow> cv_reach debug s'"

section \<open>Invariant\<close>

definition held_event :: "cv_pc \<Rightarrow> nat option" where
  "held_event pc = (case pc of
       Registered e t \<Rightarrow> Some e | Sleeping e t \<Rightarrow> Some e | Relock e r \<Rightarrow> Some e | Leaving e r \<Rightarrow> Some e
     | SetsEvent e \<Rightarrow> Some e | DropsEvent e \<Rightarrow> Some e | _ \<Rightarrow> None)"

definition waits_on :: "cv_pc \<Rightarrow> nat option" where
  "waits_on pc = (case pc of Registered e t \<Rightarrow> Some e | Sleeping e t \<Rightarrow> Some e | _ \<Rightarrow> None)"

lemma pc_views [simp]:
  "held_event CvIdle = None" "held_event (Woken r) = None" "held_event (Registered e t) = Some e"
  "held_event (Sleeping e t) = Some e" "held_event (Relock e r) = Some e" "held_event (Leaving e r) = Some e"
  "held_event (SetsEvent e) = Some e" "held_event (DropsEvent e) = Some e"
  "waits_on CvIdle = None" "waits_on (Woken r) = None" "waits_on (Registered e t) = Some e"
  "waits_on (Sleeping e t) = Some e" "waits_on (Relock e r) = None" "waits_on (Leaving e r) = None"
  "waits_on (SetsEvent e) = None" "waits_on (DropsEvent e) = None"
  by (simp_all add: held_event_def waits_on_def)

definition event_holders :: "condvar \<Rightarrow> nat \<Rightarrow> nat set" where
  "event_holders s e = {i. held_event (cv_pcs s i) = Some e}"

text \<open>The count of an event is the number of references to it.\<close>

definition refs_ok :: "condvar \<Rightarrow> bool" where
  "refs_ok s \<longleftrightarrow> (\<forall>e. finite (event_holders s e) \<and> (case cv_events s e of
       None \<Rightarrow> event_holders s e = {} \<and> current_event s \<noteq> Some e
     | Some x \<Rightarrow> event_refs x = card (event_holders s e) + (if current_event s = Some e then 1 else 0) \<and> event_refs x > 0))"

definition flags_ok :: "condvar \<Rightarrow> bool" where
  "flags_ok s \<longleftrightarrow> (\<forall>e x. cv_events s e = Some x \<longrightarrow>
     (event_set x \<longrightarrow> current_event s \<noteq> Some e) \<and>
     (\<forall>i. waits_on (cv_pcs s i) = Some e \<longrightarrow>
        event_set x \<or> current_event s = Some e \<or> (\<exists>j. cv_pcs s j = SetsEvent e)))"

definition signals_ok :: "condvar \<Rightarrow> bool" where
  "signals_ok s \<longleftrightarrow> (\<forall>e j. cv_pcs s j = SetsEvent e \<longrightarrow> current_event s \<noteq> Some e)"

definition mutex_ok :: "bool \<Rightarrow> condvar \<Rightarrow> bool" where
  "mutex_ok debug s \<longleftrightarrow> crit_count (cv_mutex s) = (if crit_owner (cv_mutex s) = None then 0 else 1) \<and>
     (debug \<longrightarrow> (is_locked (cv_mutex s) \<longleftrightarrow> crit_owner (cv_mutex s) \<noteq> None)) \<and>
     (\<forall>i. (\<exists>e t. cv_pcs s i = Registered e t) \<longrightarrow> crit_owner (cv_mutex s) = Some i) \<and>
     (\<forall>i. (\<exists>e t. cv_pcs s i = Sleeping e t \<or> cv_pcs s i = Relock e t) \<longrightarrow> crit_owner (cv_mutex s) \<noteq> Some i)"

definition cv_inv :: "bool \<Rightarrow> condvar \<Rightarrow> bool" where
  "cv_inv debug s \<longleftrightarrow> refs_ok s \<and> flags_ok s \<and> signals_ok s \<and> mutex_ok debug s"

lemma cv_go_simps [simp]:
  "cv_mutex (cv_go i pc s) = cv_mutex s" "current_event (cv_go i pc s) = current_event s"
  "cv_events (cv_go i pc s) = cv_events s" "cv_pcs (cv_go i pc s) = (cv_pcs s)(i := pc)"
  "cv_mutex (cv_set_mutex m s) = m" "current_event (cv_set_mutex m s) = current_event s"
  "cv_events (cv_set_mutex m s) = cv_events s" "cv_pcs (cv_set_mutex m s) = cv_pcs s"
  by (simp_all add: cv_go_def cv_set_mutex_def)

lemma holders_upd:
  "cv_pcs s' = (cv_pcs s)(i := pc) \<Longrightarrow>
     event_holders s' e = (if held_event pc = Some e then insert i (event_holders s e) else event_holders s e - {i})"
  by (auto simp: event_holders_def)

lemma refs_okD:
  assumes "refs_ok s"
  shows "finite (event_holders s e)"
    "cv_events s e = None \<Longrightarrow> event_holders s e = {} \<and> current_event s \<noteq> Some e"
    "cv_events s e = Some x \<Longrightarrow>
       event_refs x = card (event_holders s e) + (if current_event s = Some e then 1 else 0) \<and> event_refs x > 0"
proof -
  from assms have "finite (event_holders s e) \<and> (case cv_events s e of
       None \<Rightarrow> event_holders s e = {} \<and> current_event s \<noteq> Some e
     | Some x \<Rightarrow> event_refs x = card (event_holders s e) + (if current_event s = Some e then 1 else 0) \<and> event_refs x > 0)"
    unfolding refs_ok_def by blast
  note * = this
  show "finite (event_holders s e)" using * by blast
  show "event_holders s e = {} \<and> current_event s \<noteq> Some e" if "cv_events s e = None"
    using * unfolding that option.case by blast
  show "event_refs x = card (event_holders s e) + (if current_event s = Some e then 1 else 0) \<and> event_refs x > 0"
    if "cv_events s e = Some x" using * unfolding that option.case by blast
qed

lemma holders_iff: "i \<in> event_holders s e \<longleftrightarrow> held_event (cv_pcs s i) = Some e"
  by (simp add: event_holders_def)

text \<open>A step that neither takes nor gives up a reference.\<close>

lemma refs_ok_same:
  assumes "refs_ok s" "cv_pcs s' = (cv_pcs s)(i := pc)" "held_event pc = held_event (cv_pcs s i)"
    and "current_event s' = current_event s" "map_option event_refs \<circ> cv_events s' = map_option event_refs \<circ> cv_events s"
  shows "refs_ok s'"
proof -
  have h: "event_holders s' e = event_holders s e" for e
    using holders_upd [OF assms(2), of e] assms(3) by (auto simp: holders_iff)
  have ev: "map_option event_refs (cv_events s' e) = map_option event_refs (cv_events s e)" for e
    using fun_cong [OF assms(5), of e] by simp
  show ?thesis unfolding refs_ok_def
  proof
    fix e
    show "finite (event_holders s' e) \<and> (case cv_events s' e of
         None \<Rightarrow> event_holders s' e = {} \<and> current_event s' \<noteq> Some e
       | Some x \<Rightarrow> event_refs x = card (event_holders s' e) + (if current_event s' = Some e then 1 else 0) \<and> event_refs x > 0)"
      using refs_okD [OF assms(1), of e] ev [of e] assms(4) h
      by (cases "cv_events s e"; cases "cv_events s' e") auto
  qed
qed

text \<open>Giving up the local reference.\<close>

lemma event_unref_ok:
  assumes "refs_ok s" "held_event (cv_pcs s i) = Some e" "held_event pc = None"
  obtains s1 where "event_unref e s = Returned s1" "refs_ok (cv_go i pc s1)" "cv_pcs s1 = cv_pcs s"
    "current_event s1 = current_event s" "cv_mutex s1 = cv_mutex s"
    "\<forall>e' x'. cv_events s1 e' = Some x' \<longrightarrow> (\<exists>x. cv_events s e' = Some x \<and> event_set x' = event_set x)"
proof -
  have mem: "i \<in> event_holders s e" using assms(2) by (simp add: holders_iff)
  then obtain x where x: "cv_events s e = Some x" using refs_okD(2) [OF assms(1), of e] by auto
  have fin: "finite (event_holders s e')" for e' using refs_okD(1) [OF assms(1)] .
  have card: "card (event_holders s e - {i}) = card (event_holders s e) - 1" "card (event_holders s e) > 0"
    using mem fin by (auto simp: card_gt_0_iff)
  have other: "event_holders s e' - {i} = event_holders s e'" if "e' \<noteq> e" for e'
    using assms(2) that by (auto simp: holders_iff)
  note r = refs_okD(3) [OF assms(1) x]
  let ?ev = "(cv_events s)(e := if event_refs x = 1 then None else Some (x\<lparr>event_refs := event_refs x - 1\<rparr>))"
  let ?s = "s\<lparr>cv_events := ?ev\<rparr>"
  have ret: "event_unref e s = Returned ?s" using x conjunct2 [OF r] by (simp add: event_unref_def)
  have "refs_ok (cv_go i pc ?s)" unfolding refs_ok_def
  proof
    fix e'
    have h: "event_holders (cv_go i pc ?s) e' = event_holders s e' - {i}"
      using holders_upd [of "cv_go i pc ?s" s i pc e'] assms(3) by simp
    show "finite (event_holders (cv_go i pc ?s) e') \<and> (case cv_events (cv_go i pc ?s) e' of
         None \<Rightarrow> event_holders (cv_go i pc ?s) e' = {} \<and> current_event (cv_go i pc ?s) \<noteq> Some e'
       | Some x \<Rightarrow> event_refs x = card (event_holders (cv_go i pc ?s) e') +
           (if current_event (cv_go i pc ?s) = Some e' then 1 else 0) \<and> event_refs x > 0)"
    proof (cases "e' = e")
      case True
      show ?thesis
      proof (cases "event_refs x = 1")
        case True
        then have "card (event_holders s e - {i}) = 0" "current_event s \<noteq> Some e" using r card by (auto split: if_splits)
        then have "event_holders s e - {i} = {}" using fin [of e] by simp
        then show ?thesis using \<open>e' = e\<close> True \<open>current_event s \<noteq> Some e\<close> h fin [of e] by simp
      next
        case False
        then show ?thesis using \<open>e' = e\<close> r card h fin [of e] by auto
      qed
    next
      case False
      with refs_okD [OF assms(1), of e'] other [OF False] show ?thesis unfolding h by (auto split: option.splits)
    qed
  qed
  then show ?thesis by (rule that [OF ret]) (use x in \<open>auto split: if_splits\<close>)
qed

text \<open>Taking a reference to an event that has one already, or that is new.\<close>

lemma refs_ok_add:
  assumes "refs_ok s" "held_event (cv_pcs s i) = None" "held_event pc = Some e"
    and "cv_pcs s' = (cv_pcs s)(i := pc)"
    and "\<forall>e'. e' \<noteq> e \<longrightarrow> cv_events s' e' = cv_events s e' \<and> (current_event s' = Some e' \<longleftrightarrow> current_event s = Some e')"
    and "cv_events s' e = Some x" "event_refs x = card (event_holders s e) + 1 + (if current_event s' = Some e then 1 else 0)"
  shows "refs_ok s'"
  unfolding refs_ok_def
proof
  fix e'
  have h: "event_holders s' e' = (if e' = e then insert i (event_holders s e) else event_holders s e' - {i})"
    using holders_upd [OF assms(4), of e'] assms(3) by auto
  have fin: "finite (event_holders s e')" for e' using refs_okD(1) [OF assms(1)] .
  have no: "i \<notin> event_holders s e''" for e'' using assms(2) by (simp add: holders_iff)
  show "finite (event_holders s' e') \<and> (case cv_events s' e' of
       None \<Rightarrow> event_holders s' e' = {} \<and> current_event s' \<noteq> Some e'
     | Some x \<Rightarrow> event_refs x = card (event_holders s' e') + (if current_event s' = Some e' then 1 else 0) \<and> event_refs x > 0)"
  proof (cases "e' = e")
    case True
    then show ?thesis using assms(6,7) fin [of e] no [of e] h by simp
  next
    case False
    have "event_holders s' e' = event_holders s e'" using h False no [of e'] by auto
    then show ?thesis using refs_okD [OF assms(1), of e'] assms(5) False by (auto split: option.splits)
  qed
qed

lemma cv_register_ok:
  assumes "refs_ok s" "held_event (cv_pcs s i) = None" "current_event s = None \<longrightarrow> cv_events s n = None"
  obtains e s' where "cv_register i n t s = Returned s'" "refs_ok s'" "cv_pcs s' = (cv_pcs s)(i := Registered e t)"
    "cv_mutex s' = cv_mutex s" "current_event s' = Some e"
    "\<forall>e'. e' \<noteq> e \<longrightarrow> cv_events s' e' = cv_events s e'"
    "\<forall>x'. cv_events s' e = Some x' \<longrightarrow>
       (if current_event s = None then e = n \<and> \<not> event_set x'
        else current_event s = Some e \<and> (\<exists>x. cv_events s e = Some x \<and> event_set x' = event_set x))"
proof (cases "current_event s")
  case None
  then have n: "cv_events s n = None" using assms(3) by simp
  then have "event_holders s n = {}" using refs_okD(2) [OF assms(1)] by simp
  let ?s = "s\<lparr>current_event := Some n, cv_events := (cv_events s)(n \<mapsto> \<lparr>event_set = False, event_refs = Suc (Suc 0)\<rparr>),
    cv_pcs := (cv_pcs s)(i := Registered n t)\<rparr>"
  have ret: "cv_register i n t s = Returned ?s" using None n by (simp add: cv_register_def event_ref_def cv_go_def)
  have "refs_ok ?s" by (rule refs_ok_add [OF assms(1,2), of "Registered n t" n])
      (use None \<open>event_holders s n = {}\<close> in auto)
  then show ?thesis by (rule that [OF ret]) (use None in auto)
next
  case (Some e)
  then obtain x where x: "cv_events s e = Some x" using refs_okD(2) [OF assms(1), of e] by auto
  note r = refs_okD(3) [OF assms(1) x]
  let ?s = "s\<lparr>cv_events := (cv_events s)(e \<mapsto> x\<lparr>event_refs := event_refs x + 1\<rparr>),
    cv_pcs := (cv_pcs s)(i := Registered e t)\<rparr>"
  have ret: "cv_register i n t s = Returned ?s" using Some x by (simp add: cv_register_def event_ref_def cv_go_def)
  have "refs_ok ?s" by (rule refs_ok_add [OF assms(1,2), of "Registered e t" e])
      (use Some r in auto)
  then show ?thesis by (rule that [OF ret]) (use Some x in auto)
qed

lemma cv_take_event_ok:
  assumes "refs_ok s" "held_event (cv_pcs s i) = None" "current_event s = Some e"
  obtains s' where "cv_take_event i s = Returned s'" "refs_ok s'" "cv_pcs s' = (cv_pcs s)(i := SetsEvent e)"
    "cv_mutex s' = cv_mutex s" "current_event s' = None" "cv_events s' = cv_events s"
proof -
  obtain x where x: "cv_events s e = Some x" using refs_okD(2) [OF assms(1), of e] assms(3) by auto
  from refs_okD(3) [OF assms(1) x]
  have r: "event_refs x = card (event_holders s e) + 1" and r0: "event_refs x > 0" using assms(3) by auto
  let ?s = "s\<lparr>current_event := None, cv_pcs := (cv_pcs s)(i := SetsEvent e)\<rparr>"
  have upd: "(cv_events s)(e \<mapsto> x) = cv_events s" using x by (simp add: fun_upd_idem)
  have ret: "cv_take_event i s = Returned ?s"
    using assms(3) x r0 by (simp add: cv_take_event_def event_ref_def event_unref_def cv_go_def upd)
  have "refs_ok ?s" by (rule refs_ok_add [OF assms(1,2), of "SetsEvent e" e])
      (use assms(3) x r in auto)
  then show ?thesis by (rule that [OF ret]) simp_all
qed

lemma win_Lock_free:
  "crit_owner m = None \<Longrightarrow> debug \<longrightarrow> \<not> is_locked m \<Longrightarrow>
     win_Lock debug i m = Returned (m\<lparr>crit_owner := Some i, crit_count := crit_count m + 1,
       is_locked := (if debug then True else is_locked m)\<rparr>)"
  by (cases m) (simp add: win_Lock_def Let_def)

lemma win_Unlock_own:
  "crit_owner m = Some i \<Longrightarrow> crit_count m = 1 \<Longrightarrow> debug \<longrightarrow> is_locked m \<Longrightarrow>
     win_Unlock debug i m = Returned (m\<lparr>is_locked := (if debug then False else is_locked m), crit_count := 0,
       crit_owner := None\<rparr>)"
  by (cases m) (simp add: win_Unlock_def Let_def)

text \<open>Steps that keep the current event and the flags of all events.\<close>

lemma flags_ok_quiet:
  assumes "flags_ok s" "cv_pcs s' = (cv_pcs s)(i := pc)" "current_event s' = current_event s"
    and "\<forall>e x'. cv_events s' e = Some x' \<longrightarrow> (\<exists>x. cv_events s e = Some x \<and> event_set x' = event_set x)"
    and "waits_on pc = None \<or> waits_on pc = waits_on (cv_pcs s i)" "\<forall>e. cv_pcs s i \<noteq> SetsEvent e"
  shows "flags_ok s'"
  unfolding flags_ok_def
proof (intro allI impI)
  fix e x'
  assume "cv_events s' e = Some x'"
  with assms(4) obtain x where x: "cv_events s e = Some x" "event_set x' = event_set x" by blast
  have f: "event_set x \<longrightarrow> current_event s \<noteq> Some e" using assms(1) x unfolding flags_ok_def by blast
  have "event_set x' \<or> current_event s' = Some e \<or> (\<exists>j. cv_pcs s' j = SetsEvent e)"
    if "waits_on (cv_pcs s' j) = Some e" for j
  proof -
    have "waits_on (cv_pcs s j) = Some e" using that assms(2,5) by (cases "j = i") auto
    with assms(1) x(1) have "event_set x \<or> current_event s = Some e \<or> (\<exists>k. cv_pcs s k = SetsEvent e)"
      unfolding flags_ok_def by blast
    moreover have "cv_pcs s' k = SetsEvent e" if "cv_pcs s k = SetsEvent e" for k
      using that assms(2,6) by (cases "k = i") auto
    ultimately show ?thesis using x(2) assms(3) by auto
  qed
  with f x(2) assms(3) show "(event_set x' \<longrightarrow> current_event s' \<noteq> Some e) \<and>
      (\<forall>i. waits_on (cv_pcs s' i) = Some e \<longrightarrow>
         event_set x' \<or> current_event s' = Some e \<or> (\<exists>j. cv_pcs s' j = SetsEvent e))" by auto
qed

lemma signals_ok_quiet:
  assumes "signals_ok s" "cv_pcs s' = (cv_pcs s)(i := pc)" "current_event s' = current_event s"
    and "\<forall>e. pc \<noteq> SetsEvent e"
  shows "signals_ok s'"
  unfolding signals_ok_def
proof (intro allI impI)
  fix e j
  assume "cv_pcs s' j = SetsEvent e"
  then have "cv_pcs s j = SetsEvent e" using assms(2,4) by (cases "j = i") auto
  then show "current_event s' \<noteq> Some e" using assms(1,3) unfolding signals_ok_def by auto
qed

lemma mutex_okD:
  assumes "mutex_ok debug s" "crit_owner (cv_mutex s) = Some i"
  shows "crit_count (cv_mutex s) = 1" "debug \<longrightarrow> is_locked (cv_mutex s)"
  using assms by (simp_all add: mutex_ok_def)

lemma refs_ok_go:
  "refs_ok s \<Longrightarrow> held_event pc = held_event (cv_pcs s i) \<Longrightarrow> refs_ok (cv_go i pc (cv_set_mutex m s))"
  by (rule refs_ok_same [of s _ i pc]) simp_all

lemma cv_set_mutex_same [simp]: "cv_set_mutex (cv_mutex s) s = s"
  by (simp add: cv_set_mutex_def)

lemma mutex_ok_go:
  assumes "mutex_ok debug s" "cv_mutex s' = cv_mutex s" "cv_pcs s' = (cv_pcs s)(i := pc)"
    and "\<forall>e t. pc = Registered e t \<longrightarrow> crit_owner (cv_mutex s) = Some i"
    and "\<forall>e t. pc = Sleeping e t \<or> pc = Relock e t \<longrightarrow> crit_owner (cv_mutex s) \<noteq> Some i"
  shows "mutex_ok debug s'"
  using assms unfolding mutex_ok_def by (simp add: fun_upd_def) metis

text \<open>The steps of a thread, one by one.\<close>

lemma step_Registered:
  assumes "cv_inv debug s" "cv_pcs s i = Registered e t"
  shows "\<exists>s'. cv_step debug i s = Returned s' \<and> cv_inv debug s'"
proof -
  have inv: "refs_ok s" "flags_ok s" "mutex_ok debug s" "signals_ok s" using assms(1) by (simp_all add: cv_inv_def)
  have own: "crit_owner (cv_mutex s) = Some i" using inv(3) assms(2) by (auto simp: mutex_ok_def)
  let ?m = "(cv_mutex s)\<lparr>is_locked := (if debug then False else is_locked (cv_mutex s)), crit_count := 0, crit_owner := None\<rparr>"
  let ?s = "cv_go i (Sleeping e t) (cv_set_mutex ?m s)"
  have "cv_step debug i s = Returned ?s"
    using assms(2) win_Unlock_own [OF own mutex_okD [OF inv(3) own]] by (simp add: cv_step_def)
  moreover have "refs_ok ?s" by (rule refs_ok_go) (use inv assms in simp_all)
  moreover have "flags_ok ?s" by (rule flags_ok_quiet [OF inv(2), of _ i "Sleeping e t"]) (use assms in auto)
  moreover have "signals_ok ?s" by (rule signals_ok_quiet [OF inv(4), of _ i "Sleeping e t"]) auto
  moreover have "mutex_ok debug ?s" using inv(3) own unfolding mutex_ok_def by auto
  ultimately show ?thesis by (simp add: cv_inv_def)
qed

lemma step_wakes:
  assumes "cv_inv debug s" "cv_pcs s i = Sleeping e t"
  shows "cv_inv debug (cv_go i (Relock e r) s)"
proof -
  have inv: "refs_ok s" "flags_ok s" "mutex_ok debug s" "signals_ok s" using assms(1) by (simp_all add: cv_inv_def)
  have "refs_ok (cv_go i (Relock e r) s)" using refs_ok_go [OF inv(1), of "Relock e r" i "cv_mutex s"] assms(2) by simp
  moreover have "flags_ok (cv_go i (Relock e r) s)"
    by (rule flags_ok_quiet [OF inv(2), of _ i "Relock e r"]) (use assms in auto)
  moreover have "signals_ok (cv_go i (Relock e r) s)" by (rule signals_ok_quiet [OF inv(4), of _ i "Relock e r"]) auto
  moreover have "mutex_ok debug (cv_go i (Relock e r) s)"
    by (rule mutex_ok_go [OF inv(3), of _ i "Relock e r"]) (use inv(3) assms(2) in \<open>auto simp: mutex_ok_def\<close>)
  ultimately show ?thesis by (simp add: cv_inv_def)
qed

lemma step_Relock:
  assumes "cv_inv debug s" "cv_pcs s i = Relock e r" "crit_owner (cv_mutex s) = None"
  shows "\<exists>s'. cv_step debug i s = Returned s' \<and> cv_inv debug s' \<and> cv_pcs s' i = Leaving e r \<and>
    crit_owner (cv_mutex s') = Some i"
proof -
  have inv: "refs_ok s" "flags_ok s" "mutex_ok debug s" "signals_ok s" using assms(1) by (simp_all add: cv_inv_def)
  let ?m = "(cv_mutex s)\<lparr>crit_owner := Some i, crit_count := crit_count (cv_mutex s) + 1,
    is_locked := (if debug then True else is_locked (cv_mutex s))\<rparr>"
  let ?s = "cv_go i (Leaving e r) (cv_set_mutex ?m s)"
  have "debug \<longrightarrow> \<not> is_locked (cv_mutex s)" using inv(3) assms(3) by (simp add: mutex_ok_def)
  from win_Lock_free [OF assms(3) this] have "cv_step debug i s = Returned ?s"
    using assms(2) by (simp add: cv_step_def)
  moreover have "refs_ok ?s" by (rule refs_ok_go) (use inv assms in simp_all)
  moreover have "flags_ok ?s" by (rule flags_ok_quiet [OF inv(2), of _ i "Leaving e r"]) (use assms in auto)
  moreover have "signals_ok ?s" by (rule signals_ok_quiet [OF inv(4), of _ i "Leaving e r"]) auto
  moreover have "mutex_ok debug ?s" using inv(3) assms unfolding mutex_ok_def by auto
  ultimately show ?thesis by (simp add: cv_inv_def)
qed

lemma step_unref:
  assumes "cv_inv debug s" "held_event (cv_pcs s i) = Some e" "waits_on (cv_pcs s i) = None"
    and "\<forall>e. cv_pcs s i \<noteq> SetsEvent e" "pc = Woken r \<or> pc = CvIdle"
  shows "\<exists>s1. event_unref e s = Returned s1 \<and> cv_inv debug (cv_go i pc s1) \<and> cv_mutex s1 = cv_mutex s"
proof -
  have inv: "refs_ok s" "flags_ok s" "mutex_ok debug s" "signals_ok s" using assms(1) by (simp_all add: cv_inv_def)
  have "held_event pc = None" using assms(5) by auto
  from event_unref_ok [OF inv(1) assms(2) this] obtain s1 where s1: "event_unref e s = Returned s1"
    "refs_ok (cv_go i pc s1)" "cv_pcs s1 = cv_pcs s" "current_event s1 = current_event s" "cv_mutex s1 = cv_mutex s"
    "\<forall>e' x'. cv_events s1 e' = Some x' \<longrightarrow> (\<exists>x. cv_events s e' = Some x \<and> event_set x' = event_set x)" by metis
  have "flags_ok (cv_go i pc s1)"
    by (rule flags_ok_quiet [OF inv(2), of _ i pc]) (use s1 assms in auto)
  moreover have "signals_ok (cv_go i pc s1)"
    by (rule signals_ok_quiet [OF inv(4), of _ i pc]) (use s1 assms in auto)
  moreover have "mutex_ok debug (cv_go i pc s1)"
    by (rule mutex_ok_go [OF inv(3), of _ i pc]) (use s1 assms(5) in auto)
  ultimately show ?thesis using s1 by (simp add: cv_inv_def)
qed

lemma step_SetsEvent:
  assumes "cv_inv debug s" "cv_pcs s i = SetsEvent e"
  shows "\<exists>s'. cv_step debug i s = Returned s' \<and> cv_inv debug s'"
proof -
  have inv: "refs_ok s" "flags_ok s" "mutex_ok debug s" "signals_ok s" using assms(1) by (simp_all add: cv_inv_def)
  have "i \<in> event_holders s e" using assms(2) by (simp add: holders_iff)
  then obtain x where x: "cv_events s e = Some x" using refs_okD(2) [OF inv(1), of e] by auto
  let ?s = "cv_go i (DropsEvent e) (s\<lparr>cv_events := (cv_events s)(e \<mapsto> x\<lparr>event_set := True\<rparr>)\<rparr>)"
  have "cv_step debug i s = Returned ?s" using assms(2) x by (simp add: cv_step_def)
  moreover have "refs_ok ?s"
    by (rule refs_ok_same [OF inv(1), of _ i "DropsEvent e"]) (use assms(2) x in auto)
  moreover have "flags_ok ?s" unfolding flags_ok_def
  proof (intro allI impI)
    fix e' x'
    assume x': "cv_events ?s e' = Some x'"
    have cur: "current_event s \<noteq> Some e" using inv(4) assms(2) unfolding signals_ok_def by auto
    show "(event_set x' \<longrightarrow> current_event ?s \<noteq> Some e') \<and> (\<forall>j. waits_on (cv_pcs ?s j) = Some e' \<longrightarrow>
        event_set x' \<or> current_event ?s = Some e' \<or> (\<exists>j. cv_pcs ?s j = SetsEvent e'))"
    proof (cases "e' = e")
      case True
      have "x' = x\<lparr>event_set := True\<rparr>" using x' True by simp
      then have "event_set x'" by simp
      moreover have "current_event ?s \<noteq> Some e'" using cur by (simp add: True)
      ultimately show ?thesis by blast
    next
      case False
      with x' have ev: "cv_events s e' = Some x'" by simp
      have keep: "cv_pcs ?s j = SetsEvent e'" if "cv_pcs s j = SetsEvent e'" for j
        using that assms(2) False by (cases "j = i") simp_all
      have "event_set x' \<or> current_event s = Some e' \<or> (\<exists>j. cv_pcs ?s j = SetsEvent e')"
        if "waits_on (cv_pcs ?s j) = Some e'" for j
      proof -
        have "waits_on (cv_pcs s j) = Some e'" using that by (cases "j = i") auto
        with inv(2) ev have "event_set x' \<or> current_event s = Some e' \<or> (\<exists>j. cv_pcs s j = SetsEvent e')"
          unfolding flags_ok_def by blast
        then show ?thesis using keep by blast
      qed
      moreover have "event_set x' \<longrightarrow> current_event s \<noteq> Some e'" using inv(2) ev unfolding flags_ok_def by blast
      ultimately show ?thesis by simp
    qed
  qed
  moreover have "signals_ok ?s" by (rule signals_ok_quiet [OF inv(4), of _ i "DropsEvent e"]) auto
  moreover have "mutex_ok debug ?s"
    by (rule mutex_ok_go [OF inv(3), of _ i "DropsEvent e"]) auto
  ultimately show ?thesis by (simp add: cv_inv_def)
qed


text \<open>A thread that waits on the event that is or becomes the current one, and \<open>SignalAll\<close>.\<close>

lemma flags_ok_register:
  assumes "refs_ok s" "flags_ok s" "\<forall>e. cv_pcs s i \<noteq> SetsEvent e" "cv_pcs s' = (cv_pcs s)(i := Registered e t)"
    and "current_event s' = Some e" "\<forall>e'. e' \<noteq> e \<longrightarrow> cv_events s' e' = cv_events s e'"
    and "\<forall>x'. cv_events s' e = Some x' \<longrightarrow>
       (if current_event s = None then e = n \<and> \<not> event_set x'
        else current_event s = Some e \<and> (\<exists>x. cv_events s e = Some x \<and> event_set x' = event_set x))"
    and "current_event s = None \<or> current_event s = Some e"
  shows "flags_ok s'"
  unfolding flags_ok_def
proof (intro allI impI)
  fix e' x'
  assume x': "cv_events s' e' = Some x'"
  show "(event_set x' \<longrightarrow> current_event s' \<noteq> Some e') \<and> (\<forall>j. waits_on (cv_pcs s' j) = Some e' \<longrightarrow>
      event_set x' \<or> current_event s' = Some e' \<or> (\<exists>j. cv_pcs s' j = SetsEvent e'))"
  proof (cases "e' = e")
    case True
    have "\<not> event_set x'"
    proof (cases "current_event s")
      case None
      with x' True assms(7) show ?thesis by auto
    next
      case (Some e0)
      with assms(7) x' True obtain x where "current_event s = Some e" "cv_events s e = Some x" "event_set x' = event_set x"
        by auto
      with assms(2) show ?thesis unfolding flags_ok_def by blast
    qed
    with True assms(5) show ?thesis by simp
  next
    case False
    with x' assms(6) have ev: "cv_events s e' = Some x'" by simp
    have keep: "cv_pcs s j = SetsEvent e' \<Longrightarrow> cv_pcs s' j = SetsEvent e'" for j
      using assms(3,4) by auto
    have "event_set x' \<or> (\<exists>j. cv_pcs s' j = SetsEvent e')" if "waits_on (cv_pcs s' j) = Some e'" for j
    proof -
      have "waits_on (cv_pcs s j) = Some e'" using that assms(4) False by (cases "j = i") auto
      with assms(2) ev have "event_set x' \<or> current_event s = Some e' \<or> (\<exists>j. cv_pcs s j = SetsEvent e')"
        unfolding flags_ok_def by blast
      then show ?thesis using keep assms(8) False by auto
    qed
    then show ?thesis using assms(5) False by auto
  qed
qed

lemma flags_ok_take:
  assumes "flags_ok s" "cv_idle (cv_pcs s i)" "current_event s = Some e" "cv_pcs s' = (cv_pcs s)(i := SetsEvent e)"
    and "current_event s' = None" "cv_events s' = cv_events s"
  shows "flags_ok s'"
  unfolding flags_ok_def
proof (intro allI impI)
  fix e' x'
  assume x': "cv_events s' e' = Some x'"
  have keep: "cv_pcs s j = SetsEvent e' \<Longrightarrow> cv_pcs s' j = SetsEvent e'" for j
    using assms(2,4) by (auto simp: cv_idle_def)
  have "event_set x' \<or> (\<exists>j. cv_pcs s' j = SetsEvent e')" if "waits_on (cv_pcs s' j) = Some e'" for j
  proof -
    have "waits_on (cv_pcs s j) = Some e'" using that assms(4) by (cases "j = i") auto
    with assms(1,6) x' have "event_set x' \<or> current_event s = Some e' \<or> (\<exists>j. cv_pcs s j = SetsEvent e')"
      unfolding flags_ok_def by (metis (no_types, lifting))
    then show ?thesis
    proof (elim disjE)
      assume "current_event s = Some e'"
      then have "cv_pcs s' i = SetsEvent e'" using assms(3,4) by simp
      then show ?thesis by blast
    qed (use keep in auto)
  qed
  then show "(event_set x' \<longrightarrow> current_event s' \<noteq> Some e') \<and> (\<forall>j. waits_on (cv_pcs s' j) = Some e' \<longrightarrow>
      event_set x' \<or> current_event s' = Some e' \<or> (\<exists>j. cv_pcs s' j = SetsEvent e'))" using assms(5) by auto
qed

lemma signals_ok_current:
  assumes "refs_ok s" "signals_ok s" "cv_pcs s j = SetsEvent e'"
  shows "current_event s \<noteq> Some e'" "cv_events s e' \<noteq> None"
proof -
  have "j \<in> event_holders s e'" using assms(3) by (simp add: holders_iff)
  then show "cv_events s e' \<noteq> None" using refs_okD(2) [OF assms(1), of e'] by auto
  show "current_event s \<noteq> Some e'" using assms(2,3) unfolding signals_ok_def by blast
qed

lemma register_inv:
  assumes "cv_inv debug s" "cv_idle (cv_pcs s i)" "crit_owner (cv_mutex s) = Some i"
    and "current_event s = None \<longrightarrow> cv_events s n = None"
  shows "\<exists>s'. cv_register i n t s = Returned s' \<and> cv_inv debug s'"
proof -
  have inv: "refs_ok s" "flags_ok s" "mutex_ok debug s" "signals_ok s" using assms(1) by (simp_all add: cv_inv_def)
  have idle: "held_event (cv_pcs s i) = None" "\<forall>e. cv_pcs s i \<noteq> SetsEvent e"
    using assms(2) by (auto simp: cv_idle_def split: cv_pc.splits)
  obtain e s' where s': "cv_register i n t s = Returned s'" "refs_ok s'" "cv_pcs s' = (cv_pcs s)(i := Registered e t)"
    "cv_mutex s' = cv_mutex s" "current_event s' = Some e" "\<forall>e'. e' \<noteq> e \<longrightarrow> cv_events s' e' = cv_events s e'"
    "\<forall>x'. cv_events s' e = Some x' \<longrightarrow>
       (if current_event s = None then e = n \<and> \<not> event_set x'
        else current_event s = Some e \<and> (\<exists>x. cv_events s e = Some x \<and> event_set x' = event_set x))"
    by (rule cv_register_ok [OF inv(1) idle(1) assms(4)]) (rule that)
  obtain x' where x': "cv_events s' e = Some x'"
  proof (cases "cv_events s' e")
    case None
    from refs_okD(2) [OF s'(2) this] s'(5) show ?thesis by blast
  qed (rule that)
  with s'(7) have cur: "current_event s = None \<and> e = n \<or> current_event s = Some e"
    by (cases "current_event s = None") simp_all
  then have cur': "current_event s = None \<or> current_event s = Some e" by blast
  have "flags_ok s'" by (rule flags_ok_register [OF inv(1,2) idle(2) s'(3,5,6,7) cur'])
  moreover have "signals_ok s'" unfolding signals_ok_def
  proof (intro allI impI)
    fix e' j
    assume "cv_pcs s' j = SetsEvent e'"
    then have "cv_pcs s j = SetsEvent e'" using s'(3) by (auto split: if_splits)
    from signals_ok_current [OF inv(1,4) this] cur assms(4) s'(5) show "current_event s' \<noteq> Some e'" by auto
  qed
  moreover have "mutex_ok debug s'" by (rule mutex_ok_go [OF inv(3) s'(4,3)]) (use assms(3) in auto)
  ultimately show ?thesis using s'(1,2) by (auto simp: cv_inv_def)
qed

lemma take_event_inv:
  assumes "cv_inv debug s" "cv_idle (cv_pcs s i)"
  shows "\<exists>s'. cv_take_event i s = Returned s' \<and> cv_inv debug s'"
proof (cases "current_event s")
  case None
  with assms(1) show ?thesis by (simp add: cv_take_event_def)
next
  case (Some e)
  have inv: "refs_ok s" "flags_ok s" "mutex_ok debug s" "signals_ok s" using assms(1) by (simp_all add: cv_inv_def)
  have idle: "held_event (cv_pcs s i) = None" using assms(2) by (auto simp: cv_idle_def split: cv_pc.splits)
  obtain s' where s': "cv_take_event i s = Returned s'" "refs_ok s'" "cv_pcs s' = (cv_pcs s)(i := SetsEvent e)"
    "cv_mutex s' = cv_mutex s" "current_event s' = None" "cv_events s' = cv_events s"
    using cv_take_event_ok [OF inv(1) idle Some] by metis
  have "flags_ok s'" by (rule flags_ok_take [OF inv(2) assms(2) Some s'(3,5,6)])
  moreover have "signals_ok s'" using s'(5) by (simp add: signals_ok_def)
  moreover have "mutex_ok debug s'" by (rule mutex_ok_go [OF inv(3) s'(4,3)]) auto
  ultimately show ?thesis using s'(1,2) by (auto simp: cv_inv_def)
qed

lemma cv_step_inv:
  assumes "cv_inv debug s"
  shows "cv_step debug i s \<noteq> Aborted \<and> (\<forall>s'. cv_step debug i s = Returned s' \<longrightarrow> cv_inv debug s')"
proof (cases "cv_pcs s i")
  case (Registered e t)
  from step_Registered [OF assms this] show ?thesis by auto
next
  case (Sleeping e t)
  have "i \<in> event_holders s e" using Sleeping by (simp add: holders_iff)
  then obtain x where "cv_events s e = Some x" using refs_okD(2) [of s e] assms by (auto simp: cv_inv_def)
  then show ?thesis using Sleeping step_wakes [OF assms Sleeping] by (simp add: cv_step_def)
next
  case (Relock e r)
  show ?thesis
  proof (cases "crit_owner (cv_mutex s)")
    case None
    from step_Relock [OF assms Relock None] show ?thesis by auto
  next
    case (Some j)
    then have "j \<noteq> i" using assms Relock by (auto simp: cv_inv_def mutex_ok_def)
    then show ?thesis using Relock Some by (simp add: cv_step_def win_Lock_def)
  qed
next
  case (Leaving e r)
  with step_unref [OF assms, of i e "Woken r" r] show ?thesis by (auto simp: cv_step_def)
next
  case (SetsEvent e)
  from step_SetsEvent [OF assms this] show ?thesis by auto
next
  case (DropsEvent e)
  with step_unref [OF assms, of i e CvIdle] show ?thesis by (auto simp: cv_step_def)
qed (simp_all add: cv_step_def)

lemma cv_mutex_inv:
  assumes "cv_inv debug s" "mutex_ok debug (cv_set_mutex m s)"
  shows "cv_inv debug (cv_set_mutex m s)"
proof -
  have pcs: "cv_pcs s = (cv_pcs s)(0 := cv_pcs s 0)" by simp
  have "refs_ok (cv_set_mutex m s)" using assms(1) refs_ok_same [of s "cv_set_mutex m s" 0 "cv_pcs s 0"]
    by (simp add: cv_inv_def)
  then show ?thesis using assms by (simp add: cv_inv_def flags_ok_def signals_ok_def)
qed

lemma cv_exec_inv:
  assumes "cv_inv debug s"
  shows "cv_exec debug i a s \<noteq> Aborted \<and> (\<forall>s'. cv_exec debug i a s = Returned s' \<longrightarrow> cv_inv debug s')"
proof (cases a)
  case CvLock
  have m: "mutex_ok debug s" using assms by (simp add: cv_inv_def)
  show ?thesis
  proof (cases "cv_idle (cv_pcs s i) \<and> crit_owner (cv_mutex s) = None")
    case True
    let ?m = "(cv_mutex s)\<lparr>crit_owner := Some i, crit_count := crit_count (cv_mutex s) + 1,
      is_locked := (if debug then True else is_locked (cv_mutex s))\<rparr>"
    have "debug \<longrightarrow> \<not> is_locked (cv_mutex s)" using m True by (simp add: mutex_ok_def)
    with win_Lock_free [of "cv_mutex s" debug i] True CvLock have "cv_exec debug i a s = Returned (cv_set_mutex ?m s)"
      by (simp add: cv_exec_def)
    moreover have "mutex_ok debug (cv_set_mutex ?m s)" using m True unfolding mutex_ok_def
      by (auto simp: cv_idle_def)
    ultimately show ?thesis using cv_mutex_inv [OF assms] by simp
  next
    case False
    then show ?thesis using CvLock by (auto simp: cv_exec_def win_Lock_def)
  qed
next
  case CvUnlock
  have m: "mutex_ok debug s" using assms by (simp add: cv_inv_def)
  show ?thesis
  proof (cases "cv_idle (cv_pcs s i) \<and> crit_owner (cv_mutex s) = Some i")
    case True
    let ?m = "(cv_mutex s)\<lparr>is_locked := (if debug then False else is_locked (cv_mutex s)), crit_count := 0, crit_owner := None\<rparr>"
    have own: "crit_owner (cv_mutex s) = Some i" using True by simp
    have none: "cv_pcs s j \<noteq> Registered e t" for j e t
    proof
      assume reg: "cv_pcs s j = Registered e t"
      with m own have "j = i" unfolding mutex_ok_def by auto
      with reg True show False by (simp add: cv_idle_def)
    qed
    from win_Unlock_own [OF own mutex_okD [OF m own]] True CvUnlock have
      "cv_exec debug i a s = Returned (cv_set_mutex ?m s)" by (simp add: cv_exec_def)
    moreover have "mutex_ok debug (cv_set_mutex ?m s)" using m none by (simp add: mutex_ok_def)
    ultimately show ?thesis using cv_mutex_inv [OF assms] by simp
  next
    case False
    then show ?thesis using CvUnlock by (auto simp: cv_exec_def)
  qed
next
  case (CvWait n t)
  show ?thesis
  proof (cases "cv_idle (cv_pcs s i) \<and> crit_owner (cv_mutex s) = Some i \<and> (current_event s = None \<longrightarrow> cv_events s n = None)")
    case True
    with register_inv [OF assms, of i n t] CvWait show ?thesis by (auto simp: cv_exec_def)
  next
    case False
    then show ?thesis using CvWait by (auto simp: cv_exec_def cv_register_def)
  qed
next
  case CvSignalAll
  with take_event_inv [OF assms, of i] show ?thesis by (auto simp: cv_exec_def)
next
  case CvTimeout
  then show ?thesis using step_wakes [OF assms]
    by (auto simp: cv_exec_def split: cv_pc.splits bool.splits)
next
  case CvStep
  then show ?thesis using cv_step_inv [OF assms, of i] by (simp add: cv_exec_def)
qed

lemma cv_reach_inv: "cv_reach debug s \<Longrightarrow> cv_inv debug s"
proof (induction rule: cv_reach.induct)
  case init
  show ?case by (simp add: cv_inv_def refs_ok_def flags_ok_def signals_ok_def mutex_ok_def condvar_new_def
        win_mutex_new_def event_holders_def)
next
  case (step s i a s')
  with cv_exec_inv [OF step.IH, of i a] show ?case by simp
qed


text \<open>Runs: each entry names a thread and what it does.\<close>

primrec cv_run :: "bool \<Rightarrow> (nat \<times> cv_action) list \<Rightarrow> condvar \<Rightarrow> condvar os_result" where
  "cv_run debug [] s = Returned s"
| "cv_run debug (p # ps) s = os_bind (cv_exec debug (fst p) (snd p) s) (cv_run debug ps)"

lemma cv_run_reach: "cv_run debug ps s = Returned s' \<Longrightarrow> cv_reach debug s \<Longrightarrow> cv_reach debug s'"
proof (induction ps arbitrary: s)
  case (Cons p ps)
  then obtain s1 where s1: "cv_exec debug (fst p) (snd p) s = Returned s1" "cv_run debug ps s1 = Returned s'"
    by (cases "cv_exec debug (fst p) (snd p) s") auto
  from Cons.IH [OF s1(2) cv_reach.step [OF Cons.prems(2) s1(1)]] show ?case .
qed simp

text \<open>A thread whose event is set needs three steps of its own.\<close>

lemma cv_wake_run:
  assumes "cv_inv debug s" "cv_pcs s i = Sleeping e t" "cv_events s e = Some x" "event_set x"
    and "crit_owner (cv_mutex s) = None"
  shows "\<exists>s'. cv_run debug [(i, CvStep), (i, CvStep), (i, CvStep)] s = Returned s' \<and>
    cv_pcs s' i = Woken False \<and> crit_owner (cv_mutex s') = Some i"
proof -
  let ?s1 = "cv_go i (Relock e False) s"
  have s1: "cv_exec debug i CvStep s = Returned ?s1" using assms(2-4) by (simp add: cv_exec_def cv_step_def)
  have "cv_pcs ?s1 i = Relock e False" "crit_owner (cv_mutex ?s1) = None" using assms(5) by simp_all
  from step_Relock [OF step_wakes [OF assms(1,2)] this] obtain s2 where s2:
    "cv_step debug i ?s1 = Returned s2" "cv_inv debug s2" "cv_pcs s2 i = Leaving e False" "crit_owner (cv_mutex s2) = Some i"
    by blast
  from step_unref [OF s2(2), of i e "Woken False" False] s2(3) obtain s3 where s3:
    "event_unref e s2 = Returned s3" "cv_mutex s3 = cv_mutex s2" by auto
  have "cv_exec debug i CvStep s2 = Returned (cv_go i (Woken False) s3)"
    using s2(3) s3(1) by (simp add: cv_exec_def cv_step_def)
  moreover have "cv_exec debug i CvStep ?s1 = Returned s2" using s2(1) by (simp add: cv_exec_def)
  ultimately show ?thesis using s1 s2(4) s3(2) by simp
qed

lemma cv_set_event_step:
  assumes "cv_inv debug s" "cv_pcs s j = SetsEvent e"
  obtains x s' where "cv_exec debug j CvStep s = Returned s'" "cv_inv debug s'" "cv_events s' e = Some x" "event_set x"
    "cv_mutex s' = cv_mutex s" "\<And>i. i \<noteq> j \<Longrightarrow> cv_pcs s' i = cv_pcs s i"
proof -
  have "j \<in> event_holders s e" using assms(2) by (simp add: holders_iff)
  then obtain x where x: "cv_events s e = Some x" using refs_okD(2) [of s e] assms(1) by (auto simp: cv_inv_def)
  let ?x = "x\<lparr>event_set := True\<rparr>"
  let ?s = "cv_go j (DropsEvent e) (s\<lparr>cv_events := (cv_events s)(e \<mapsto> ?x)\<rparr>)"
  have ret: "cv_exec debug j CvStep s = Returned ?s" using assms(2) x by (simp add: cv_exec_def cv_step_def)
  have "cv_inv debug ?s" using cv_exec_inv [OF assms(1), of j CvStep] ret by simp
  then show ?thesis by (rule that [OF ret, of ?x]) simp_all
qed

text \<open>
  No thread ever fails an assertion or uses an event whose handle is closed, whatever the order of the
  steps: the count of an event is the number of threads that refer to it and of the variable itself, so
  that an event lives as long as a thread may wait on it or set it.
\<close>
theorem condvar_win32_safe: "cv_reach debug s \<Longrightarrow> cv_exec debug i a s \<noteq> Aborted"
  using cv_exec_inv [OF cv_reach_inv] by blast


text \<open>Thread 1 waits, thread 2 signals and has not yet set the event, thread 3 has started to wait on a new one.\<close>

definition cv_demo :: "(nat \<times> cv_action) list" where
  "cv_demo = [(1, CvLock), (1, CvWait 7 False), (1, CvStep), (2, CvSignalAll),
     (3, CvLock), (3, CvWait 8 True), (3, CvStep)]"

definition cv_demo_state :: condvar where
  "cv_demo_state = (case cv_run True cv_demo condvar_new of Returned s \<Rightarrow> s | _ \<Rightarrow> condvar_new)"

lemmas cv_eval = cv_demo_state_def cv_demo_def cv_exec_def cv_step_def cv_register_def cv_take_event_def event_ref_def
  event_unref_def win_Lock_def win_Unlock_def condvar_new_def win_mutex_new_def cv_idle_def Let_def cv_go_def cv_set_mutex_def

lemma cv_demo_reach: "cv_reach True cv_demo_state"
  by (rule cv_run_reach [of _ cv_demo condvar_new, OF _ cv_reach.init]) (simp add: cv_eval)

lemma condvar_win32_safe_witness: "cv_exec True 3 CvTimeout cv_demo_state \<noteq> Aborted"
  by (rule condvar_win32_safe [OF cv_demo_reach])


section \<open>Baton\<close>

text \<open>
  The mutex and the event of a baton have a name: the processes that use the name share them. A mutex
  may be taken again by its owner; when the owner dies the next wait takes it (\<open>WAIT_ABANDONED\<close>). The
  system deletes an object when its last handle is closed. Each thread has one \<open>Baton\<close>.
\<close>

record named_mutex =
  nm_owner :: "nat option"
  nm_count :: nat

record baton =
  bt_mutex :: bool
  bt_event :: bool
  mutex_got :: bool

record baton_world =
  named_mutexes :: "named_mutex option"
  named_events :: "bool option"
  batons :: "nat \<Rightarrow> baton option"

definition baton_upd :: "nat \<Rightarrow> (baton \<Rightarrow> baton) \<Rightarrow> baton_world \<Rightarrow> baton_world" where
  "baton_upd i f w = w\<lparr>batons := (batons w)(i := map_option f (batons w i))\<rparr>"

text \<open>The system: an object without a handle is deleted.\<close>

definition delete_unused :: "nat set \<Rightarrow> baton_world \<Rightarrow> baton_world" where
  "delete_unused ps w = w\<lparr>
     named_mutexes := (if \<exists>i\<in>ps. case batons w i of Some b \<Rightarrow> bt_mutex b | None \<Rightarrow> False then named_mutexes w else None),
     named_events := (if \<exists>i\<in>ps. case batons w i of Some b \<Rightarrow> bt_event b | None \<Rightarrow> False then named_events w else None)\<rparr>"

definition baton_close :: "nat set \<Rightarrow> nat \<Rightarrow> baton_world \<Rightarrow> baton_world" where
  "baton_close ps i w = delete_unused ps (baton_upd i (\<lambda>b. b\<lparr>bt_mutex := False, bt_event := False\<rparr>) w)"

definition baton_new :: baton where
  "baton_new = \<lparr>bt_mutex = False, bt_event = False, mutex_got = False\<rparr>"

definition named_create :: "'a \<Rightarrow> 'a option \<Rightarrow> 'a option" where
  "named_create x obj = (case obj of None \<Rightarrow> Some x | Some y \<Rightarrow> Some y)"

text \<open>\<open>ok_m\<close> and \<open>ok_e\<close> say whether the system can create or open the two objects.\<close>

definition baton_init :: "nat set \<Rightarrow> bool \<Rightarrow> bool \<Rightarrow> nat \<Rightarrow> baton_world \<Rightarrow> bool \<times> baton_world" where
  "baton_init ps ok_m ok_e i w =
     (if \<not> ok_m then (False, baton_close ps i w)
      else let w1 = baton_upd i (\<lambda>b. b\<lparr>bt_mutex := True\<rparr>)
             (w\<lparr>named_mutexes := named_create \<lparr>nm_owner = None, nm_count = 0\<rparr> (named_mutexes w)\<rparr>)
      in if \<not> ok_e then (False, baton_close ps i w1)
      else (True, baton_upd i (\<lambda>b. b\<lparr>bt_event := True\<rparr>) (w1\<lparr>named_events := named_create False (named_events w1)\<rparr>)))"

definition nm_wait :: "nat \<Rightarrow> named_mutex \<Rightarrow> named_mutex option" where
  "nm_wait i m = (if nm_owner m \<noteq> None \<and> nm_owner m \<noteq> Some i then None
     else Some (m\<lparr>nm_owner := Some i, nm_count := nm_count m + 1\<rparr>))"

definition nm_release :: "nat \<Rightarrow> named_mutex \<Rightarrow> named_mutex option" where
  "nm_release i m = (if nm_owner m \<noteq> Some i then None
     else Some (if nm_count m = 1 then m\<lparr>nm_owner := None, nm_count := 0\<rparr> else m\<lparr>nm_count := nm_count m - 1\<rparr>))"

text \<open>\<open>Release\<close> on the handle of a baton: an invalid handle and a mutex of another thread fail.\<close>

definition baton_release :: "nat \<Rightarrow> baton \<Rightarrow> baton_world \<Rightarrow> baton_world option" where
  "baton_release i b w = (if \<not> bt_mutex b then None
     else case named_mutexes w of None \<Rightarrow> None
     | Some m \<Rightarrow> map_option (\<lambda>m1. w\<lparr>named_mutexes := Some m1\<rparr>) (nm_release i m))"

definition baton_get :: "nat \<Rightarrow> baton_world \<Rightarrow> (bool \<times> baton_world) os_result" where
  "baton_get i w = (case batons w i of None \<Rightarrow> Aborted
     | Some b \<Rightarrow> if \<not> bt_mutex b then Returned (False, w)
       else case named_mutexes w of None \<Rightarrow> Returned (False, w)
       | Some m \<Rightarrow> (case nm_wait i m of None \<Rightarrow> Blocked
         | Some m1 \<Rightarrow> let w1 = w\<lparr>named_mutexes := Some m1\<rparr> in
             if bt_event b \<and> named_events w = Some True
             then Returned (False, case baton_release i b w1 of Some w2 \<Rightarrow> w2 | None \<Rightarrow> w1)
             else Returned (True, baton_upd i (\<lambda>b. b\<lparr>mutex_got := True\<rparr>) w1)))"

definition baton_pass :: "bool \<Rightarrow> nat \<Rightarrow> baton_world \<Rightarrow> (bool \<times> baton_world) os_result" where
  "baton_pass debug i w = (case batons w i of None \<Rightarrow> Aborted
     | Some b \<Rightarrow> if debug \<and> \<not> mutex_got b then Aborted
       else if \<not> mutex_got b then Returned (False, w)
       else case baton_release i b w of None \<Rightarrow> Returned (False, w)
       | Some w1 \<Rightarrow> Returned (True, baton_upd i (\<lambda>b. b\<lparr>mutex_got := False\<rparr>) w1))"

definition baton_finish :: "nat set \<Rightarrow> bool \<Rightarrow> nat \<Rightarrow> baton_world \<Rightarrow> (bool \<times> baton_world) os_result" where
  "baton_finish ps debug i w = (case batons w i of None \<Rightarrow> Aborted
     | Some b \<Rightarrow> if debug \<and> \<not> mutex_got b then Aborted
       else if \<not> mutex_got b then Returned (False, w)
       else let w1 = (if bt_event b then w\<lparr>named_events := map_option (\<lambda>_. True) (named_events w)\<rparr> else w)
       in case baton_release i b w1 of None \<Rightarrow> Returned (False, baton_close ps i w1)
       | Some w2 \<Rightarrow> Returned (bt_event b, w2))"

text \<open>
  What the threads of the processes do. A thread calls \<open>init\<close> on a baton that has no handles; a thread that
  is killed gives up the mutex and its handles.
\<close>

datatype baton_action = BatonNew | BatonInit bool bool | BatonGet | BatonPass | BatonFinish | BatonDie

definition baton_die :: "nat set \<Rightarrow> nat \<Rightarrow> baton_world \<Rightarrow> baton_world" where
  "baton_die ps i w = delete_unused ps (w\<lparr>batons := (batons w)(i := None),
     named_mutexes := map_option (\<lambda>m. if nm_owner m = Some i then m\<lparr>nm_owner := None, nm_count := 0\<rparr> else m)
       (named_mutexes w)\<rparr>)"

definition baton_exec :: "nat set \<Rightarrow> bool \<Rightarrow> nat \<Rightarrow> baton_action \<Rightarrow> baton_world \<Rightarrow> baton_world os_result" where
  "baton_exec ps debug i a w =
     (if i \<notin> ps then Blocked else case a of
       BatonNew \<Rightarrow> if batons w i = None then Returned (w\<lparr>batons := (batons w)(i \<mapsto> baton_new)\<rparr>) else Blocked
     | BatonInit ok_m ok_e \<Rightarrow> (case batons w i of None \<Rightarrow> Blocked
         | Some b \<Rightarrow> if bt_mutex b \<or> bt_event b \<or> mutex_got b then Blocked else Returned (snd (baton_init ps ok_m ok_e i w)))
     | BatonGet \<Rightarrow> os_bind (baton_get i w) (\<lambda>r. Returned (snd r))
     | BatonPass \<Rightarrow> os_bind (baton_pass debug i w) (\<lambda>r. Returned (snd r))
     | BatonFinish \<Rightarrow> os_bind (baton_finish ps debug i w) (\<lambda>r. Returned (snd r))
     | BatonDie \<Rightarrow> Returned (baton_die ps i w))"

primrec baton_run :: "nat set \<Rightarrow> bool \<Rightarrow> (nat \<times> baton_action) list \<Rightarrow> baton_world \<Rightarrow> baton_world os_result" where
  "baton_run ps debug [] w = Returned w"
| "baton_run ps debug (p # acts) w = os_bind (baton_exec ps debug (fst p) (snd p) w) (baton_run ps debug acts)"

definition baton_world_new :: baton_world where
  "baton_world_new = \<lparr>named_mutexes = None, named_events = None, batons = (\<lambda>_. None)\<rparr>"

text \<open>Thread \<open>i\<close> has both handles, and the objects exist.\<close>

definition baton_open :: "nat \<Rightarrow> baton_world \<Rightarrow> bool" where
  "baton_open i w \<longleftrightarrow> (case batons w i of Some b \<Rightarrow> bt_mutex b \<and> bt_event b | None \<Rightarrow> False)"

definition baton_owns :: "nat \<Rightarrow> baton_world \<Rightarrow> bool" where
  "baton_owns i w \<longleftrightarrow> (case named_mutexes w of Some m \<Rightarrow> nm_owner m = Some i | None \<Rightarrow> False)"

definition baton_inv :: "nat set \<Rightarrow> baton_world \<Rightarrow> bool" where
  "baton_inv ps w \<longleftrightarrow> (\<forall>i b. batons w i = Some b \<longrightarrow> i \<in> ps \<and> bt_mutex b = bt_event b \<and>
     (bt_mutex b \<longrightarrow> named_mutexes w \<noteq> None \<and> named_events w \<noteq> None) \<and>
     (mutex_got b \<and> bt_mutex b \<and> named_events w = Some False \<longrightarrow> baton_owns i w))"

lemma baton_invD:
  assumes "baton_inv ps w" "batons w i = Some b"
  shows "i \<in> ps" "bt_event b = bt_mutex b" "bt_mutex b \<Longrightarrow> named_mutexes w \<noteq> None \<and> named_events w \<noteq> None"
    "mutex_got b \<Longrightarrow> bt_mutex b \<Longrightarrow> named_events w = Some False \<Longrightarrow> baton_owns i w"
  using assms unfolding baton_inv_def by blast+

text \<open>Closing handles, or dying, deletes the objects only when no other thread has them.\<close>

lemma delete_unused_simps [simp]:
  "batons (delete_unused ps w) = batons w"
  "i \<in> ps \<Longrightarrow> baton_open i w \<Longrightarrow> named_mutexes (delete_unused ps w) = named_mutexes w"
  "i \<in> ps \<Longrightarrow> baton_open i w \<Longrightarrow> named_events (delete_unused ps w) = named_events w"
  by (auto simp: delete_unused_def baton_open_def split: option.splits)

lemma delete_unused_inv:
  assumes "baton_inv ps w" shows "baton_inv ps (delete_unused ps w)"
  unfolding baton_inv_def
proof (intro allI impI)
  fix i b
  assume "batons (delete_unused ps w) i = Some b"
  then have b: "batons w i = Some b" by simp
  note inv = baton_invD [OF assms b]
  show "i \<in> ps \<and> bt_mutex b = bt_event b \<and>
     (bt_mutex b \<longrightarrow> named_mutexes (delete_unused ps w) \<noteq> None \<and> named_events (delete_unused ps w) \<noteq> None) \<and>
     (mutex_got b \<and> bt_mutex b \<and> named_events (delete_unused ps w) = Some False \<longrightarrow> baton_owns i (delete_unused ps w))"
  proof (cases "bt_mutex b")
    case True
    then have op: "baton_open i w" using b inv(2) by (simp add: baton_open_def)
    show ?thesis using inv True by (simp add: delete_unused_simps(2,3) [OF inv(1) op] baton_owns_def)
  next
    case False
    then show ?thesis using inv(1,2) by simp
  qed
qed

text \<open>A step that changes one baton and the mutex, and keeps what the others own.\<close>

lemma baton_inv_upd:
  assumes "baton_inv ps w" "i \<in> ps" "batons w' = (batons w)(i := bo)"
    and "\<And>b. bo = Some b \<Longrightarrow> bt_mutex b = bt_event b \<and> (bt_mutex b \<longrightarrow> named_mutexes w' \<noteq> None \<and> named_events w' \<noteq> None) \<and>
      (mutex_got b \<and> bt_mutex b \<and> named_events w' = Some False \<longrightarrow> baton_owns i w')"
    and "named_mutexes w \<noteq> None \<Longrightarrow> named_mutexes w' \<noteq> None" "named_events w \<noteq> None \<Longrightarrow> named_events w' \<noteq> None"
    and "named_events w' = Some False \<Longrightarrow> named_events w \<noteq> None \<Longrightarrow> named_events w = Some False"
    and "\<And>j. j \<noteq> i \<Longrightarrow> baton_owns j w \<Longrightarrow> baton_owns j w'"
  shows "baton_inv ps w'"
  unfolding baton_inv_def
proof (intro allI impI)
  fix j b
  assume b: "batons w' j = Some b"
  show "j \<in> ps \<and> bt_mutex b = bt_event b \<and> (bt_mutex b \<longrightarrow> named_mutexes w' \<noteq> None \<and> named_events w' \<noteq> None) \<and>
     (mutex_got b \<and> bt_mutex b \<and> named_events w' = Some False \<longrightarrow> baton_owns j w')"
  proof (cases "j = i")
    case True
    with b assms(2,3,4) show ?thesis by simp
  next
    case False
    with b assms(3) have "batons w j = Some b" by simp
    note inv = baton_invD [OF assms(1) this]
    show ?thesis using inv assms(5-7) assms(8) [OF False] by (cases "bt_mutex b") auto
  qed
qed

lemma nm_waitD: "nm_wait i m = Some m1 \<Longrightarrow> nm_owner m1 = Some i \<and> (nm_owner m = None \<or> nm_owner m = Some i)"
  by (auto simp: nm_wait_def split: if_splits)

lemma baton_releaseD:
  assumes "baton_release i b w = Some w1"
  obtains m m1 where "named_mutexes w = Some m" "nm_owner m = Some i" "w1 = w\<lparr>named_mutexes := Some m1\<rparr>"
  using assms by (auto simp: baton_release_def nm_release_def split: if_splits option.splits)

lemma baton_upd_simps [simp]:
  "named_mutexes (baton_upd i f w) = named_mutexes w" "named_events (baton_upd i f w) = named_events w"
  "batons (baton_upd i f w) = (batons w)(i := map_option f (batons w i))"
  by (simp_all add: baton_upd_def)

lemma baton_owns_simps [simp]:
  "baton_owns i (w\<lparr>batons := bs\<rparr>) = baton_owns i w" "baton_owns i (baton_upd j f w) = baton_owns i w"
  "baton_owns i (w\<lparr>named_events := e\<rparr>) = baton_owns i w"
  "baton_owns i (w\<lparr>named_mutexes := Some m\<rparr>) \<longleftrightarrow> nm_owner m = Some i"
  by (simp_all add: baton_owns_def baton_upd_def)

lemma baton_close_inv:
  assumes "baton_inv ps w" shows "baton_inv ps (baton_close ps i w)"
proof (cases "batons w i")
  case None
  then have "baton_upd i f w = w" for f by (simp add: baton_upd_def fun_upd_idem)
  then show ?thesis using delete_unused_inv [OF assms] by (simp add: baton_close_def)
next
  case (Some b)
  let ?w = "baton_upd i (\<lambda>b. b\<lparr>bt_mutex := False, bt_event := False\<rparr>) w"
  have "baton_inv ps ?w"
    by (rule baton_inv_upd [OF assms baton_invD(1) [OF assms Some], of _ "map_option (\<lambda>b. b\<lparr>bt_mutex := False, bt_event := False\<rparr>) (batons w i)"])
      (use Some in auto)
  from delete_unused_inv [OF this] show ?thesis by (simp add: baton_close_def)
qed

lemma baton_init_inv:
  assumes "baton_inv ps w" "i \<in> ps" "batons w i = Some b" "\<not> bt_mutex b" "\<not> bt_event b" "\<not> mutex_got b"
  shows "baton_inv ps (snd (baton_init ps ok_m ok_e i w))"
proof -
  let ?w1 = "baton_upd i (\<lambda>b. b\<lparr>bt_mutex := True\<rparr>)
    (w\<lparr>named_mutexes := named_create \<lparr>nm_owner = None, nm_count = 0\<rparr> (named_mutexes w)\<rparr>)"
  have own: "baton_owns j ?w1" if "baton_owns j w" for j
    using that by (auto simp: baton_owns_def named_create_def split: option.splits)
  show ?thesis
  proof (cases "ok_m \<and> ok_e")
    case True
    let ?w2 = "baton_upd i (\<lambda>b. b\<lparr>bt_event := True\<rparr>) (?w1\<lparr>named_events := named_create False (named_events ?w1)\<rparr>)"
    have "baton_inv ps ?w2"
      by (rule baton_inv_upd [OF assms(1,2), of _ "Some (b\<lparr>bt_mutex := True, bt_event := True\<rparr>)"])
        (use assms own in \<open>auto simp: named_create_def split: option.splits\<close>)
    then show ?thesis using True by (simp add: baton_init_def Let_def)
  next
    case False
    have close: "baton_close ps i ?w1 = delete_unused ps (w\<lparr>named_mutexes := named_mutexes ?w1,
        batons := (batons w)(i \<mapsto> b\<lparr>bt_mutex := False, bt_event := False\<rparr>)\<rparr>)"
      using assms(3) by (simp add: baton_close_def baton_upd_def)
    have "baton_inv ps (w\<lparr>named_mutexes := named_mutexes ?w1, batons := (batons w)(i \<mapsto> b\<lparr>bt_mutex := False, bt_event := False\<rparr>)\<rparr>)"
      by (rule baton_inv_upd [OF assms(1,2), of _ "Some (b\<lparr>bt_mutex := False, bt_event := False\<rparr>)"])
        (use own in \<open>auto simp: named_create_def baton_owns_def split: option.splits\<close>)
    from delete_unused_inv [OF this] close baton_close_inv [OF assms(1), of i] False show ?thesis
      by (auto simp: baton_init_def Let_def)
  qed
qed

lemma baton_get_inv:
  assumes "baton_inv ps w" "baton_get i w = Returned (r, w')"
  shows "baton_inv ps w'"
proof -
  obtain b where b: "batons w i = Some b" using assms(2) by (auto simp: baton_get_def split: option.splits)
  note inv = baton_invD [OF assms(1) b]
  show ?thesis
  proof (cases "bt_mutex b")
    case False
    with b assms show ?thesis by (simp add: baton_get_def)
  next
    case True
    with inv(3) obtain m where m: "named_mutexes w = Some m" by auto
    with b True assms(2) obtain m1 where m1: "nm_wait i m = Some m1" by (auto simp: baton_get_def split: option.splits)
    note own = nm_waitD [OF m1]
    have others: "\<not> baton_owns j w" if "j \<noteq> i" for j using that m own by (auto simp: baton_owns_def)
    show ?thesis
    proof (cases "named_events w = Some True")
      case set: True
      have "\<exists>m2. w' = w\<lparr>named_mutexes := Some m2\<rparr>"
        using b True m m1 assms(2) inv(2) set own by (auto simp: baton_get_def baton_release_def nm_release_def)
      then obtain m2 where w': "w' = w\<lparr>named_mutexes := Some m2\<rparr>" by blast
      show ?thesis unfolding w'
        by (rule baton_inv_upd [OF assms(1) inv(1), of _ "Some b"]) (use b inv m set others in auto)
    next
      case unset: False
      then have w': "w' = baton_upd i (\<lambda>b. b\<lparr>mutex_got := True\<rparr>) (w\<lparr>named_mutexes := Some m1\<rparr>)"
        using b True m m1 assms(2) by (simp add: baton_get_def Let_def)
      show ?thesis unfolding w'
        by (rule baton_inv_upd [OF assms(1) inv(1), of _ "Some (b\<lparr>mutex_got := True\<rparr>)"]) (use b inv m own others in auto)
    qed
  qed
qed

lemma baton_pass_inv:
  assumes "baton_inv ps w" "baton_pass debug i w = Returned (r, w')"
  shows "baton_inv ps w'"
proof -
  obtain b where b: "batons w i = Some b" using assms(2) by (auto simp: baton_pass_def split: option.splits)
  note inv = baton_invD [OF assms(1) b]
  show ?thesis
  proof (cases "baton_release i b w")
    case None
    with b assms show ?thesis by (auto simp: baton_pass_def split: if_splits)
  next
    case (Some w1)
    then obtain m m1 where m: "named_mutexes w = Some m" "nm_owner m = Some i" "w1 = w\<lparr>named_mutexes := Some m1\<rparr>"
      by (rule baton_releaseD)
    have others: "\<not> baton_owns j w" if "j \<noteq> i" for j using that m by (auto simp: baton_owns_def)
    have "baton_inv ps (baton_upd i (\<lambda>b. b\<lparr>mutex_got := False\<rparr>) w1)"
      by (rule baton_inv_upd [OF assms(1) inv(1), of _ "Some (b\<lparr>mutex_got := False\<rparr>)"]) (use b inv m others in auto)
    with b Some assms show ?thesis by (auto simp: baton_pass_def split: if_splits)
  qed
qed

lemma baton_finish_inv:
  assumes "baton_inv ps w" "baton_finish ps debug i w = Returned (r, w')"
  shows "baton_inv ps w'"
proof -
  obtain b where b: "batons w i = Some b" using assms(2) by (auto simp: baton_finish_def split: option.splits)
  note inv = baton_invD [OF assms(1) b]
  let ?w1 = "if bt_event b then w\<lparr>named_events := map_option (\<lambda>_. True) (named_events w)\<rparr> else w"
  have set: "baton_inv ps ?w1"
    by (rule baton_inv_upd [OF assms(1) inv(1), of _ "Some b"]) (use b inv in \<open>auto split: if_splits\<close>)
  show ?thesis
  proof (cases "mutex_got b")
    case False
    with b assms show ?thesis by (auto simp: baton_finish_def split: if_splits)
  next
    case got: True
    show ?thesis
    proof (cases "baton_release i b ?w1")
      case None
      with b got assms(2) have "w' = baton_close ps i ?w1" by (simp add: baton_finish_def Let_def)
      with baton_close_inv [OF set] show ?thesis by simp
    next
      case (Some w2)
      then obtain m m1 where m: "named_mutexes ?w1 = Some m" "nm_owner m = Some i" "w2 = ?w1\<lparr>named_mutexes := Some m1\<rparr>"
        by (rule baton_releaseD)
      from b got assms(2) Some have w': "w' = w2" by (simp add: baton_finish_def Let_def)
      have others: "\<not> baton_owns j ?w1" if "j \<noteq> i" for j using that m(1,2) by (auto simp: baton_owns_def)
      have b1: "batons ?w1 i = Some b" using b by simp
      note inv1 = baton_invD [OF set b1]
      have unset: "\<not> (bt_mutex b \<and> named_events ?w1 = Some False)" using inv(2) by (auto split: if_splits)
      show ?thesis unfolding w' m(3)
        by (rule baton_inv_upd [OF set inv(1), of _ "Some b"]) (use b1 inv1 m(1) others unset in auto)
    qed
  qed
qed

lemma baton_die_inv:
  assumes "baton_inv ps w" "i \<in> ps" shows "baton_inv ps (baton_die ps i w)"
  unfolding baton_die_def
  by (intro delete_unused_inv baton_inv_upd [OF assms, of _ None])
    (auto simp: baton_owns_def split: option.splits)

lemma baton_new_inv:
  assumes "baton_inv ps w" "i \<in> ps" shows "baton_inv ps (w\<lparr>batons := (batons w)(i \<mapsto> baton_new)\<rparr>)"
  by (rule baton_inv_upd [OF assms, of _ "Some baton_new"]) (simp_all add: baton_new_def)

lemma baton_exec_inv:
  assumes "baton_inv ps w" "baton_exec ps debug i a w = Returned w'"
  shows "baton_inv ps w'"
proof -
  have i: "i \<in> ps" using assms(2) by (simp add: baton_exec_def split: if_splits)
  show ?thesis
  proof (cases a)
    case BatonNew
    with assms i baton_new_inv [OF assms(1) i] show ?thesis by (auto simp: baton_exec_def split: if_splits)
  next
    case (BatonInit ok_m ok_e)
    with assms i baton_init_inv [OF assms(1) i] show ?thesis
      by (auto simp: baton_exec_def split: if_splits option.splits)
  next
    case BatonGet
    with assms(2) i obtain r where "baton_get i w = Returned (r, w')" by (auto simp: baton_exec_def)
    from baton_get_inv [OF assms(1) this] show ?thesis .
  next
    case BatonPass
    with assms(2) i obtain r where "baton_pass debug i w = Returned (r, w')" by (auto simp: baton_exec_def)
    from baton_pass_inv [OF assms(1) this] show ?thesis .
  next
    case BatonFinish
    with assms(2) i obtain r where "baton_finish ps debug i w = Returned (r, w')" by (auto simp: baton_exec_def)
    from baton_finish_inv [OF assms(1) this] show ?thesis .
  next
    case BatonDie
    with assms i baton_die_inv [OF assms(1) i] show ?thesis by (simp add: baton_exec_def)
  qed
qed

lemma baton_run_inv: "baton_run ps debug acts w = Returned w' \<Longrightarrow> baton_inv ps w \<Longrightarrow> baton_inv ps w'"
  by (induction acts arbitrary: w) (auto dest: baton_exec_inv)

lemma baton_world_new_inv: "baton_inv ps baton_world_new"
  by (simp add: baton_inv_def baton_world_new_def)

text \<open>While a thread keeps its handles the event stays set, whatever the others do.\<close>

definition baton_done :: "nat \<Rightarrow> baton_world \<Rightarrow> bool" where
  "baton_done k w \<longleftrightarrow> baton_open k w \<and> named_events w = Some True"

lemma baton_open_upd [simp]:
  "k \<noteq> i \<Longrightarrow> baton_open k (baton_upd i f w) = baton_open k w"
  "baton_open k (w\<lparr>named_mutexes := m\<rparr>) = baton_open k w" "baton_open k (w\<lparr>named_events := e\<rparr>) = baton_open k w"
  "k \<noteq> i \<Longrightarrow> baton_open k (w\<lparr>batons := (batons w)(i := x)\<rparr>) = baton_open k w"
  "baton_open k (delete_unused ps w) = baton_open k w"
  by (simp_all add: baton_open_def)

lemma baton_done_upd [simp]:
  "k \<noteq> i \<Longrightarrow> baton_done k (baton_upd i f w) = baton_done k w"
  "baton_done k (w\<lparr>named_mutexes := m\<rparr>) = baton_done k w"
  "k \<noteq> i \<Longrightarrow> baton_done k (w\<lparr>batons := (batons w)(i := x)\<rparr>) = baton_done k w"
  "k \<in> ps \<Longrightarrow> k \<noteq> i \<Longrightarrow> baton_done k (delete_unused ps w) = baton_done k w"
  by (auto simp: baton_done_def)

lemma baton_done_close: "k \<in> ps \<Longrightarrow> k \<noteq> i \<Longrightarrow> baton_done k (baton_close ps i w) = baton_done k w"
  by (simp add: baton_close_def)

lemma baton_done_set: "baton_done k w \<Longrightarrow> baton_done k (w\<lparr>named_events := map_option (\<lambda>_. True) (named_events w)\<rparr>)"
  by (simp add: baton_done_def)

lemma baton_done_create: "baton_done k w \<Longrightarrow> baton_done k (w\<lparr>named_events := named_create False (named_events w)\<rparr>)"
  by (simp add: baton_done_def named_create_def)

lemma baton_done_release: "baton_release i b w = Some w' \<Longrightarrow> baton_done k w' = baton_done k w"
  by (erule baton_releaseD) simp

lemma baton_done_init:
  assumes "baton_done k w" "k \<in> ps" "i \<noteq> k" shows "baton_done k (snd (baton_init ps ok_m ok_e i w))"
proof -
  have k: "k \<noteq> i" using assms(3) by simp
  let ?w1 = "baton_upd i (\<lambda>b. b\<lparr>bt_mutex := True\<rparr>)
    (w\<lparr>named_mutexes := named_create \<lparr>nm_owner = None, nm_count = 0\<rparr> (named_mutexes w)\<rparr>)"
  have w1: "baton_done k ?w1" using assms(1) k by simp
  from baton_done_create [OF this] k have "baton_done k (baton_upd i (\<lambda>b. b\<lparr>bt_event := True\<rparr>)
      (?w1\<lparr>named_events := named_create False (named_events ?w1)\<rparr>))" by simp
  then show ?thesis using assms(1) w1 baton_done_close [OF assms(2) k] by (simp add: baton_init_def Let_def)
qed

lemma baton_done_exec:
  assumes "baton_done k w" "k \<in> ps" "i \<noteq> k" "baton_exec ps debug i a w = Returned w'"
  shows "baton_done k w'"
proof -
  have k: "k \<noteq> i" using assms(3) by simp
  have i: "i \<in> ps" using assms(4) by (simp add: baton_exec_def split: if_splits)
  show ?thesis
  proof (cases a)
    case BatonNew
    with assms i k show ?thesis by (auto simp: baton_exec_def split: if_splits)
  next
    case (BatonInit ok_m ok_e)
    with assms(4) i baton_done_init [OF assms(1-3)] show ?thesis
      by (auto simp: baton_exec_def split: if_splits option.splits)
  next
    case BatonGet
    with assms(1,4) i k show ?thesis
      by (auto simp: baton_exec_def baton_get_def Let_def baton_done_release split: if_splits option.splits)
  next
    case BatonPass
    with assms(1,4) i k show ?thesis
      by (auto simp: baton_exec_def baton_pass_def baton_done_release split: if_splits option.splits)
  next
    case BatonFinish
    with assms(1,4) i baton_done_set [OF assms(1)] baton_done_close [OF assms(2) k] show ?thesis
      by (auto simp: baton_exec_def baton_finish_def Let_def baton_done_release split: if_splits option.splits)
  next
    case BatonDie
    with assms i k show ?thesis by (auto simp: baton_exec_def baton_die_def baton_done_def)
  qed
qed

lemma baton_done_run:
  "baton_run ps debug acts w = Returned w' \<Longrightarrow> baton_done k w \<Longrightarrow> k \<in> ps \<Longrightarrow> k \<notin> fst ` set acts \<Longrightarrow> baton_done k w'"
proof (induction acts arbitrary: w)
  case (Cons p acts)
  then obtain w1 where w1: "baton_exec ps debug (fst p) (snd p) w = Returned w1" "baton_run ps debug acts w1 = Returned w'"
    by auto
  have "fst p \<noteq> k" using Cons.prems(4) by auto
  from Cons.IH [OF w1(2) baton_done_exec [OF Cons.prems(2,3) this w1(1)] Cons.prems(3)] Cons.prems(4) show ?case by auto
qed simp

lemma baton_finish_done:
  assumes "baton_inv ps w" "baton_finish ps debug k w = Returned (True, w')"
  shows "baton_done k w'" "k \<in> ps"
proof -
  obtain b where b: "batons w k = Some b" using assms(2) by (auto simp: baton_finish_def split: option.splits)
  note inv = baton_invD [OF assms(1) b]
  show "k \<in> ps" by (rule inv(1))
  from assms(2) b obtain w2 where w2: "baton_release k b (w\<lparr>named_events := map_option (\<lambda>_. True) (named_events w)\<rparr>) = Some w2"
    "w' = w2" "bt_event b" by (auto simp: baton_finish_def Let_def split: if_splits option.splits)
  have "baton_done k (w\<lparr>named_events := map_option (\<lambda>_. True) (named_events w)\<rparr>)"
    using b inv(2,3) w2(3) by (auto simp: baton_done_def baton_open_def)
  with w2(1,2) show "baton_done k w'" by (simp add: baton_done_release)
qed

lemma baton_get_done:
  assumes "baton_inv ps w" "baton_done k w" shows "baton_get j w \<noteq> Returned (True, w')"
proof (cases "batons w j")
  case None
  then show ?thesis by (simp add: baton_get_def)
next
  case (Some b)
  note inv = baton_invD [OF assms(1) Some]
  have set: "named_events w = Some True" using assms(2) by (simp add: baton_done_def)
  show ?thesis
  proof (cases "bt_mutex b")
    case True
    then show ?thesis using Some inv(2) set by (auto simp: baton_get_def Let_def split: option.splits)
  qed (use Some in \<open>simp add: baton_get_def\<close>)
qed

text \<open>
  C33. A job is finished once. When \<open>finish\<close> has returned true in some process, no \<open>get\<close> of any thread
  returns true any more as long as that process keeps its baton, whatever sequence of \<open>init\<close>, \<open>get\<close>,
  \<open>pass\<close>, \<open>finish\<close> and deaths of the other threads came before and comes after it.
\<close>
theorem baton_job_finished_once:
  assumes "baton_run ps debug acts baton_world_new = Returned w" "baton_finish ps debug k w = Returned (True, w1)"
    and "baton_run ps debug acts' w1 = Returned w2" "k \<notin> fst ` set acts'"
  shows "baton_get j w2 \<noteq> Returned (True, w3)"
proof -
  have inv: "baton_inv ps w" by (rule baton_run_inv [OF assms(1) baton_world_new_inv])
  note fin = baton_finish_done [OF inv assms(2)]
  have "baton_inv ps w2" by (rule baton_run_inv [OF assms(3) baton_finish_inv [OF inv assms(2)]])
  then show ?thesis by (rule baton_get_done [OF _ baton_done_run [OF assms(3) fin assms(4)]])
qed

text \<open>
  The baton is at one place. In every state that can be reached, two threads that have got the baton, and
  have not passed it on, are the same while the job is not finished.
\<close>
theorem baton_exclusive:
  assumes "baton_run ps debug acts baton_world_new = Returned w" "named_events w = Some False"
    and "batons w i = Some b" "mutex_got b" "bt_mutex b" "batons w j = Some c" "mutex_got c" "bt_mutex c"
  shows "i = j"
proof -
  have inv: "baton_inv ps w" by (rule baton_run_inv [OF assms(1) baton_world_new_inv])
  have "baton_owns i w" "baton_owns j w"
    using baton_invD(4) [OF inv assms(3-5) assms(2)] baton_invD(4) [OF inv assms(6-8) assms(2)] by blast+
  then show ?thesis by (auto simp: baton_owns_def split: option.splits)
qed

text \<open>Two processes; the first passes the baton on, the second is killed, the first does the rest.\<close>

definition baton_demo :: "(nat \<times> baton_action) list" where
  "baton_demo = [(1, BatonNew), (1, BatonInit True True), (2, BatonNew), (2, BatonInit True True), (1, BatonGet),
     (1, BatonPass), (2, BatonGet), (2, BatonDie), (1, BatonGet)]"

definition baton_demo_state :: baton_world where
  "baton_demo_state = (case baton_run {1, 2, 3} True baton_demo baton_world_new of Returned w \<Rightarrow> w | _ \<Rightarrow> baton_world_new)"

lemmas baton_eval = baton_demo_def baton_exec_def baton_init_def baton_get_def baton_pass_def baton_finish_def
  baton_die_def baton_new_def baton_world_new_def baton_upd_def named_create_def nm_wait_def nm_release_def
  baton_release_def baton_close_def delete_unused_def Let_def

lemma baton_demo_run: "baton_run {1, 2, 3} True baton_demo baton_world_new = Returned baton_demo_state"
  by (simp add: baton_eval baton_demo_state_def)

definition baton_demo_end :: baton_world where
  "baton_demo_end = (case baton_finish {1, 2, 3} True 1 baton_demo_state of Returned (r, w) \<Rightarrow> w | _ \<Rightarrow> baton_world_new)"

definition baton_demo_late :: baton_world where
  "baton_demo_late = (case baton_run {1, 2, 3} True [(3, BatonNew), (3, BatonInit True True)] baton_demo_end of
     Returned w \<Rightarrow> w | _ \<Rightarrow> baton_world_new)"

lemma baton_job_finished_once_witness:
  "baton_finish {1, 2, 3} True 1 baton_demo_state = Returned (True, baton_demo_end) \<and>
   baton_get 3 baton_demo_late \<noteq> Returned (True, baton_demo_end)"
proof -
  have 1: "baton_finish {1, 2, 3} True 1 baton_demo_state = Returned (True, baton_demo_end)"
    by (simp add: baton_eval baton_demo_state_def baton_demo_end_def)
  have 2: "baton_run {1, 2, 3} True [(3, BatonNew), (3, BatonInit True True)] baton_demo_end = Returned baton_demo_late"
    by (simp add: baton_eval baton_demo_state_def baton_demo_end_def baton_demo_late_def)
  show ?thesis using 1 baton_job_finished_once [OF baton_demo_run 1 2] by simp
qed

lemma baton_exclusive_witness:
  "named_events baton_demo_state = Some False \<and> (\<exists>b. batons baton_demo_state 1 = Some b \<and> mutex_got b \<and> (1::nat) = 1)"
proof -
  have ev: "named_events baton_demo_state = Some False" by (simp add: baton_eval baton_demo_state_def)
  have b: "batons baton_demo_state 1 = Some \<lparr>bt_mutex = True, bt_event = True, mutex_got = True\<rparr>"
    by (simp add: baton_eval baton_demo_state_def)
  from baton_exclusive [OF baton_demo_run ev b _ _ b] show ?thesis using ev b by simp
qed

text \<open>
  \<open>finish\<close> leaves \<open>mutex_got_\<close> set: called again it passes the assertion, fails to release the mutex and
  closes both handles. If they are the last ones the event is gone, and the job can be got again.
\<close>

lemma baton_finish_twice_forgets:
  "\<exists>w. baton_finish {1, 2, 3} True 1 baton_demo_end = Returned (False, w) \<and> named_events w = None"
  by (simp add: baton_eval baton_demo_state_def baton_demo_end_def)

end
