(* ===== verification/Transactions.thy ===== *)
theory Transactions
  imports Sync UrlUtils IntStrings
begin

text \<open>
  The wrapper of SQLite, \<open>src/common/sqlite_wrapper.cc\<close> and \<open>src/common/sqlite_wrapper.h\<close>: the
  class \<open>SQLDatabase\<close>, which counts nested transactions, and \<open>SQLTransaction\<close>, which ends one when it
  goes out of scope. SQLite itself is a parameter.
\<close>

section \<open>SQLite\<close>

text \<open>
  What the code calls, on a connection of any type \<open>'c\<close>. \<open>sq_exec\<close> is \<open>sqlite3_exec\<close> and says whether
  it returned \<open>SQLITE_OK\<close>. \<open>sq_query\<close> prepares a statement, binds its parameters and steps through
  its rows: it is not prepared, or ends with an error or with \<open>SQLITE_DONE\<close> after some rows. \<open>sq_int\<close> is
  the conversion of a text column to a number. The record also has the build and the calling thread.
\<close>

datatype sql_value = SqlNull | SqlInt int | SqlText str

datatype sql_outcome = SqlNotPrepared | SqlFailed "sql_value list list" | SqlDone "sql_value list list"

record 'c sql_env =
  sq_open :: "str \<Rightarrow> 'c option"
  sq_busy_timeout :: "int \<Rightarrow> 'c \<Rightarrow> bool \<times> 'c"
  sq_exec :: "str \<Rightarrow> 'c \<Rightarrow> bool \<times> 'c"
  sq_query :: "str \<Rightarrow> sql_value list \<Rightarrow> 'c \<Rightarrow> sql_outcome \<times> 'c"
  sq_int :: "str \<Rightarrow> int"
  debug_build :: bool
  this_thread :: ThreadId

section \<open>The database\<close>

datatype tx_event = OnBegin | OnCommit | OnRollback

text \<open>The calls of the listener are recorded.\<close>

record 'c sql_database =
  db_handle :: "'c option"
  transaction_count :: int
  needs_rollback :: bool
  opt_transaction_mutex :: "Mutex option"
  transaction_listener :: bool
  tx_events :: "tx_event list"

definition SQLDatabase_new :: "'c sql_database" where
  "SQLDatabase_new = \<lparr>db_handle = None, transaction_count = 0, needs_rollback = False,
     opt_transaction_mutex = None, transaction_listener = False, tx_events = []\<rparr>"

definition IsInTransaction :: "'c sql_database \<Rightarrow> bool" where
  "IsInTransaction s = (transaction_count s > 0)"

definition SetTransactionMutex :: "'c sql_env \<Rightarrow> Mutex option \<Rightarrow> 'c sql_database \<Rightarrow> 'c sql_database os_result" where
  "SetTransactionMutex E m s =
     (if debug_build E \<and> IsInTransaction s then Aborted else Returned (s\<lparr>opt_transaction_mutex := m\<rparr>))"

definition SetTransactionListener :: "bool \<Rightarrow> 'c sql_database \<Rightarrow> 'c sql_database" where
  "SetTransactionListener l s = s\<lparr>transaction_listener := l\<rparr>"

definition set_handle :: "'c \<Rightarrow> 'c sql_database \<Rightarrow> 'c sql_database" where
  "set_handle c s = s\<lparr>db_handle := Some c\<rparr>"

definition lock_tx :: "'c sql_env \<Rightarrow> 'c sql_database \<Rightarrow> 'c sql_database os_result" where
  "lock_tx E s = (case opt_transaction_mutex s of None \<Rightarrow> Returned s
     | Some m \<Rightarrow> os_bind (Mutex_Lock (this_thread E) m) (\<lambda>m1. Returned (s\<lparr>opt_transaction_mutex := Some m1\<rparr>)))"

definition unlock_tx :: "'c sql_env \<Rightarrow> 'c sql_database \<Rightarrow> 'c sql_database os_result" where
  "unlock_tx E s = (case opt_transaction_mutex s of None \<Rightarrow> Returned s
     | Some m \<Rightarrow> os_bind (Mutex_Unlock (this_thread E) m) (\<lambda>m1. Returned (s\<lparr>opt_transaction_mutex := Some m1\<rparr>)))"

definition tx_notify :: "tx_event \<Rightarrow> 'c sql_database \<Rightarrow> 'c sql_database" where
  "tx_notify e s = (if transaction_listener s then s\<lparr>tx_events := tx_events s @ [e]\<rparr> else s)"

text \<open>\<open>path\<close> is the file, if its directory could be created.\<close>

definition OpenConnection :: "'c sql_env \<Rightarrow> str option \<Rightarrow> 'c sql_database \<Rightarrow> (bool \<times> 'c sql_database) os_result" where
  "OpenConnection E path s =
     (if db_handle s \<noteq> None then (if debug_build E then Aborted else Returned (False, s))
      else let s1 = s\<lparr>transaction_count := 0, needs_rollback := False\<rparr>
      in case path of None \<Rightarrow> Returned (False, s1)
       | Some p \<Rightarrow> (case sq_open E p of None \<Rightarrow> Returned (False, s1)
           | Some c \<Rightarrow> Returned (True, set_handle c s1)))"

definition kBusyTimeout :: int where "kBusyTimeout = 5 * 1000"

definition ConfigureConnection :: "'c sql_env \<Rightarrow> 'c \<Rightarrow> bool \<times> 'c" where
  "ConfigureConnection E c =
     (let (ok, c1) = sq_busy_timeout E kBusyTimeout c
      in if \<not> ok then (False, c1)
      else let (ok, c2) = sq_exec E (units ''PRAGMA synchronous = OFF'') c1
      in if \<not> ok then (False, c2)
      else sq_exec E (units ''PRAGMA encoding = \"UTF-8\"'') c2)"

definition SQLDatabase_Open :: "'c sql_env \<Rightarrow> str option \<Rightarrow> 'c sql_database \<Rightarrow> (bool \<times> 'c sql_database) os_result" where
  "SQLDatabase_Open E path s = os_bind (OpenConnection E path s) (\<lambda>(ok, s1).
     if \<not> ok then Returned (False, s1)
     else case db_handle s1 of None \<Rightarrow> Aborted
     | Some c \<Rightarrow> (case ConfigureConnection E c of
           (True, c1) \<Rightarrow> Returned (True, set_handle c1 s1)
         | (False, c1) \<Rightarrow> Returned (False, s1\<lparr>db_handle := None\<rparr>)))"

definition SQLDatabase_Close :: "'c sql_env \<Rightarrow> 'c sql_database \<Rightarrow> 'c sql_database os_result" where
  "SQLDatabase_Close E s =
     (if db_handle s = None then Returned s
      else let s1 = s\<lparr>db_handle := None\<rparr>
      in if IsInTransaction s1 then unlock_tx E s1 else Returned s1)"

definition BeginTransaction :: "'c sql_env \<Rightarrow> 'c sql_database \<Rightarrow> (bool \<times> 'c sql_database) os_result" where
  "BeginTransaction E s = (case db_handle s of
       None \<Rightarrow> if debug_build E then Aborted else Returned (False, s)
     | Some c \<Rightarrow>
         if debug_build E \<and> transaction_count s < 0 then Aborted
         else if transaction_count s > 0
         then (if needs_rollback s then Returned (False, s)
               else Returned (True, s\<lparr>transaction_count := transaction_count s + 1\<rparr>))
         else os_bind (lock_tx E s) (\<lambda>s1. case sq_exec E (units ''BEGIN IMMEDIATE'') c of
             (False, c1) \<Rightarrow> os_bind (unlock_tx E (set_handle c1 s1)) (\<lambda>s2. Returned (False, s2))
           | (True, c1) \<Rightarrow> Returned (True, tx_notify OnBegin ((set_handle c1 s1)
               \<lparr>needs_rollback := False, transaction_count := transaction_count s1 + 1\<rparr>))))"

text \<open>The end of the outermost transaction.\<close>

definition FinishRollback :: "'c sql_env \<Rightarrow> 'c \<Rightarrow> 'c sql_database \<Rightarrow> (bool \<times> 'c sql_database) os_result" where
  "FinishRollback E c s = os_bind (unlock_tx E (set_handle (snd (sq_exec E (units ''ROLLBACK'') c)) s))
     (\<lambda>s1. Returned (False, tx_notify OnRollback s1))"

definition EndTransaction :: "'c sql_env \<Rightarrow> 'c sql_database \<Rightarrow> (bool \<times> 'c sql_database) os_result" where
  "EndTransaction E s =
     (if transaction_count s = 0 then (if debug_build E then Aborted else Returned (False, s))
      else let s1 = s\<lparr>transaction_count := transaction_count s - 1\<rparr>
      in case db_handle s1 of
           None \<Rightarrow> if debug_build E then Aborted else Returned (False, s1)
         | Some c \<Rightarrow>
             if transaction_count s1 > 0 then Returned (True, s1)
             else if needs_rollback s1 then FinishRollback E c s1
             else (case sq_exec E (units ''COMMIT'') c of
                 (True, c1) \<Rightarrow> os_bind (unlock_tx E (set_handle c1 s1)) (\<lambda>s2. Returned (True, tx_notify OnCommit s2))
               | (False, c1) \<Rightarrow> FinishRollback E c1 s1))"

definition RollbackTransaction :: "'c sql_env \<Rightarrow> 'c sql_database \<Rightarrow> 'c sql_database os_result" where
  "RollbackTransaction E s =
     os_bind (EndTransaction E (s\<lparr>needs_rollback := True\<rparr>)) (\<lambda>(ok, s1). Returned s1)"

definition CommitTransaction :: "'c sql_env \<Rightarrow> 'c sql_database \<Rightarrow> (bool \<times> 'c sql_database) os_result" where
  "CommitTransaction E s = os_bind (EndTransaction E s) (\<lambda>(ok, s1).
     Returned (if ok then \<not> needs_rollback s1 else False, s1))"

section \<open>Statements\<close>

text \<open>Without a connection \<open>sqlite3_prepare16_v2\<close> and \<open>sqlite3_exec\<close> return an error.\<close>

definition db_Execute :: "'c sql_env \<Rightarrow> str \<Rightarrow> 'c sql_database \<Rightarrow> (bool \<times> 'c sql_database) os_result" where
  "db_Execute E sql s = (case db_handle s of
       None \<Rightarrow> if debug_build E then Aborted else Returned (False, s)
     | Some c \<Rightarrow> (case sq_exec E sql c of (ok, c1) \<Rightarrow> Returned (ok, set_handle c1 s)))"

definition db_query :: "'c sql_env \<Rightarrow> str \<Rightarrow> sql_value list \<Rightarrow> 'c sql_database \<Rightarrow> sql_outcome \<times> 'c sql_database" where
  "db_query E sql ps s = (case db_handle s of
       None \<Rightarrow> (SqlNotPrepared, s)
     | Some c \<Rightarrow> (case sq_query E sql ps c of (r, c1) \<Rightarrow> (r, set_handle c1 s)))"

definition column_int :: "'c sql_env \<Rightarrow> sql_value \<Rightarrow> int" where
  "column_int E v = (case v of SqlNull \<Rightarrow> 0 | SqlInt i \<Rightarrow> i | SqlText t \<Rightarrow> sq_int E t)"

definition column_text16_safe :: "sql_value \<Rightarrow> str" where
  "column_text16_safe v = (case v of SqlNull \<Rightarrow> [] | SqlInt i \<Rightarrow> show_int i | SqlText t \<Rightarrow> t)"

definition column :: "nat \<Rightarrow> sql_value list \<Rightarrow> sql_value" where
  "column i row = (if i < length row then row ! i else SqlNull)"

definition is_done :: "sql_outcome \<Rightarrow> bool" where
  "is_done r = (case r of SqlDone rows \<Rightarrow> True | _ \<Rightarrow> False)"

section \<open>Scoped transactions\<close>

record sql_transaction =
  began :: bool

definition SQLTransaction_new :: sql_transaction where
  "SQLTransaction_new = \<lparr>began = False\<rparr>"

definition tx_Begin :: "'c sql_env \<Rightarrow> sql_transaction \<Rightarrow> 'c sql_database \<Rightarrow>
    (bool \<times> sql_transaction \<times> 'c sql_database) os_result" where
  "tx_Begin E t s =
     (if began t then (if debug_build E then Aborted else Returned (False, t, s))
      else os_bind (BeginTransaction E s) (\<lambda>(ok, s1).
        if ok then Returned (True, t\<lparr>began := True\<rparr>, s1) else Returned (False, t, s1)))"

definition tx_BeginIfNeeded :: "'c sql_env \<Rightarrow> sql_transaction \<Rightarrow> 'c sql_database \<Rightarrow>
    (bool \<times> sql_transaction \<times> 'c sql_database) os_result" where
  "tx_BeginIfNeeded E t s = (if began t then Returned (True, t, s) else tx_Begin E t s)"

definition tx_End :: "'c sql_env \<Rightarrow> bool \<Rightarrow> sql_transaction \<Rightarrow> 'c sql_database \<Rightarrow>
    (bool \<times> sql_transaction \<times> 'c sql_database) os_result" where
  "tx_End E commit t s =
     (if \<not> began t then (if debug_build E then Aborted else Returned (False, t, s))
      else let t1 = t\<lparr>began := False\<rparr>
      in if commit then os_bind (CommitTransaction E s) (\<lambda>(ok, s1). Returned (ok, t1, s1))
         else os_bind (RollbackTransaction E s) (\<lambda>s1. Returned (True, t1, s1)))"

definition tx_destroy :: "'c sql_env \<Rightarrow> sql_transaction \<Rightarrow> 'c sql_database \<Rightarrow> 'c sql_database os_result" where
  "tx_destroy E t s = (if began t then os_bind (tx_End E False t s) (\<lambda>(ok, t1, s1). Returned s1) else Returned s)"

text \<open>
  A function whose first statements make a \<open>SQLTransaction\<close> and begin it: its body returns early, or gets
  to \<open>return transaction.Commit()\<close>; in the end the destructor runs. \<open>out\<close> is an output parameter.
\<close>

datatype tx_exit = LeaveTx bool | CommitTx

definition with_tx :: "'c sql_env \<Rightarrow> 'o \<Rightarrow> ('c sql_database \<Rightarrow> ((tx_exit \<times> 'o) \<times> 'c sql_database) os_result) \<Rightarrow>
    'c sql_database \<Rightarrow> ((bool \<times> 'o) \<times> 'c sql_database) os_result" where
  "with_tx E out body s = os_bind (tx_Begin E SQLTransaction_new s) (\<lambda>(ok, t, s1).
     if \<not> ok then os_bind (tx_destroy E t s1) (\<lambda>s2. Returned ((False, out), s2))
     else os_bind (body s1) (\<lambda>((x, out1), s2). case x of
         LeaveTx r \<Rightarrow> os_bind (tx_destroy E t s2) (\<lambda>s3. Returned ((r, out1), s3))
       | CommitTx \<Rightarrow> os_bind (tx_End E True t s2) (\<lambda>(r, t1, s3).
           os_bind (tx_destroy E t1 s3) (\<lambda>s4. Returned ((r, out1), s4)))))"

text \<open>\<open>if (!f) return false; ...\<close>, and a body that is such a chain before its \<open>Commit\<close>.\<close>

definition and_then :: "('s \<Rightarrow> (bool \<times> 's) os_result) \<Rightarrow> ('s \<Rightarrow> (bool \<times> 's) os_result) \<Rightarrow> 's \<Rightarrow> (bool \<times> 's) os_result" where
  "and_then f g s = os_bind (f s) (\<lambda>(ok, s1). if ok then g s1 else Returned (False, s1))"

definition tx_chain :: "'c sql_env \<Rightarrow> ('c sql_database \<Rightarrow> (bool \<times> 'c sql_database) os_result) \<Rightarrow>
    'c sql_database \<Rightarrow> (bool \<times> 'c sql_database) os_result" where
  "tx_chain E f s = os_bind
     (with_tx E () (\<lambda>s. os_bind (f s) (\<lambda>(ok, s1). Returned ((if ok then CommitTx else LeaveTx False, ()), s1))) s)
     (\<lambda>((r, out), s1). Returned (r, s1))"

section \<open>Dropping all tables\<close>

fun drop_loop :: "'c sql_env \<Rightarrow> str list \<Rightarrow> 'c sql_database \<Rightarrow> (bool \<times> 'c sql_database) os_result" where
  "drop_loop E [] s = Returned (True, s)"
| "drop_loop E (name # names) s = (case db_query E (units ''DROP TABLE '' @ name) [] s of
       (SqlNotPrepared, s1) \<Rightarrow>
         if StartsWith False name (units ''sqlite_sequence'') then drop_loop E names s1 else Returned (False, s1)
     | (SqlFailed rows, s1) \<Rightarrow> Returned (False, s1)
     | (SqlDone rows, s1) \<Rightarrow> drop_loop E names s1)"

definition DropAllObjects :: "'c sql_env \<Rightarrow> 'c sql_database \<Rightarrow> (bool \<times> 'c sql_database) os_result" where
  "DropAllObjects E = tx_chain E (\<lambda>s.
     case db_query E (units ''SELECT name FROM sqlite_master WHERE type = '' @ [39] @ units ''table'' @ [39]) [] s of
         (SqlDone rows, s1) \<Rightarrow> drop_loop E (map (\<lambda>row. column_text16_safe (column 0 row)) rows) s1
       | (_, s1) \<Rightarrow> Returned (False, s1))"

section \<open>What SQLite promises\<close>

text \<open>
  \<open>content c\<close> is what the connection reads, \<open>saved c\<close> what it read when its open transaction began. When
  \<open>BEGIN\<close> gets the lock, other connections may have written before. A failed \<open>COMMIT\<close> has rolled back or
  has left the transaction open. Statements that read and write tables do not end a transaction: of the
  errors, those after which SQLite rolls back by itself are left out.
\<close>

definition data_keywords :: "string list" where
  "data_keywords = [''SELECT '', ''INSERT INTO '', ''REPLACE INTO '', ''UPDATE DatabaseNames '', ''DELETE FROM '',
     ''CREATE TABLE '', ''ALTER TABLE '', ''DROP TABLE '']"

definition data_sql :: "str \<Rightarrow> bool" where
  "data_sql sql = list_ex (\<lambda>kw. take (length kw) sql = units kw) data_keywords"

lemma data_text:
  assumes "list_ex (\<lambda>kw. take (length kw) x = kw) data_keywords"
  shows "data_sql (units x @ y)" "data_sql (units x)"
proof -
  from assms obtain kw where kw: "kw \<in> set data_keywords" "take (length kw) x = kw" by (auto simp: list_ex_iff)
  then obtain z where "x = kw @ z" by (metis append_take_drop_id)
  with kw(1) show "data_sql (units x @ y)" "data_sql (units x)"
    unfolding data_sql_def list_ex_iff by (auto simp: units_def intro!: bexI [of _ kw])
qed

definition sql_contract :: "'c sql_env \<Rightarrow> ('c \<Rightarrow> 'd) \<Rightarrow> ('c \<Rightarrow> 'd option) \<Rightarrow> bool" where
  "sql_contract E content saved \<longleftrightarrow> this_thread E \<noteq> 0 \<and>
     (\<forall>c c'. saved c = None \<longrightarrow> sq_exec E (units ''BEGIN IMMEDIATE'') c = (True, c') \<longrightarrow> saved c' = Some (content c')) \<and>
     (\<forall>c c'. saved c = None \<longrightarrow> sq_exec E (units ''BEGIN IMMEDIATE'') c = (False, c') \<longrightarrow> saved c' = None) \<and>
     (\<forall>c c' d. saved c = Some d \<longrightarrow> sq_exec E (units ''COMMIT'') c = (True, c') \<longrightarrow> saved c' = None \<and> content c' = content c) \<and>
     (\<forall>c c' d. saved c = Some d \<longrightarrow> sq_exec E (units ''COMMIT'') c = (False, c') \<longrightarrow>
        saved c' = Some d \<or> saved c' = None \<and> content c' = d) \<and>
     (\<forall>c c' d ok. saved c = Some d \<longrightarrow> sq_exec E (units ''ROLLBACK'') c = (ok, c') \<longrightarrow> saved c' = None \<and> content c' = d) \<and>
     (\<forall>c c' ok. saved c = None \<longrightarrow> sq_exec E (units ''ROLLBACK'') c = (ok, c') \<longrightarrow> saved c' = None \<and> content c' = content c) \<and>
     (\<forall>sql c. data_sql sql \<longrightarrow> saved (snd (sq_exec E sql c)) = saved c) \<and>
     (\<forall>sql ps c. data_sql sql \<longrightarrow> saved (snd (sq_query E sql ps c)) = saved c)"

lemma sql_contractD:
  assumes "sql_contract E content saved"
  shows "this_thread E \<noteq> 0"
    "saved c = None \<Longrightarrow> sq_exec E (units ''BEGIN IMMEDIATE'') c = (True, c') \<Longrightarrow> saved c' = Some (content c')"
    "saved c = None \<Longrightarrow> sq_exec E (units ''BEGIN IMMEDIATE'') c = (False, c') \<Longrightarrow> saved c' = None"
    "saved c = Some d \<Longrightarrow> sq_exec E (units ''COMMIT'') c = (True, c') \<Longrightarrow> saved c' = None \<and> content c' = content c"
    "saved c = Some d \<Longrightarrow> sq_exec E (units ''COMMIT'') c = (False, c') \<Longrightarrow> saved c' = Some d \<or> saved c' = None \<and> content c' = d"
    "saved c = Some d \<Longrightarrow> sq_exec E (units ''ROLLBACK'') c = (ok, c') \<Longrightarrow> saved c' = None \<and> content c' = d"
    "saved c = None \<Longrightarrow> sq_exec E (units ''ROLLBACK'') c = (ok, c') \<Longrightarrow> saved c' = None \<and> content c' = content c"
    "data_sql sql \<Longrightarrow> saved (snd (sq_exec E sql c)) = saved c"
    "data_sql sql \<Longrightarrow> saved (snd (sq_query E sql ps c)) = saved c"
proof -
  note laws = assms [unfolded sql_contract_def]
  show "this_thread E \<noteq> 0"
    by (rule laws [THEN conjunct1, rule_format])
  show "saved c' = Some (content c')" if "saved c = None" "sq_exec E (units ''BEGIN IMMEDIATE'') c = (True, c')"
    by (rule laws [THEN conjunct2, THEN conjunct1, rule_format, OF that])
  show "saved c' = None" if "saved c = None" "sq_exec E (units ''BEGIN IMMEDIATE'') c = (False, c')"
    by (rule laws [THEN conjunct2, THEN conjunct2, THEN conjunct1, rule_format, OF that])
  show "saved c' = None \<and> content c' = content c" if "saved c = Some d" "sq_exec E (units ''COMMIT'') c = (True, c')"
    by (rule laws [THEN conjunct2, THEN conjunct2, THEN conjunct2, THEN conjunct1, rule_format, OF that])
  show "saved c' = Some d \<or> saved c' = None \<and> content c' = d" if "saved c = Some d" "sq_exec E (units ''COMMIT'') c = (False, c')"
    by (rule laws [THEN conjunct2, THEN conjunct2, THEN conjunct2, THEN conjunct2, THEN conjunct1, rule_format, OF that])
  show "saved c' = None \<and> content c' = d" if "saved c = Some d" "sq_exec E (units ''ROLLBACK'') c = (ok, c')"
    by (rule laws [THEN conjunct2, THEN conjunct2, THEN conjunct2, THEN conjunct2, THEN conjunct2, THEN conjunct1, rule_format, OF that])
  show "saved c' = None \<and> content c' = content c" if "saved c = None" "sq_exec E (units ''ROLLBACK'') c = (ok, c')"
    by (rule laws [THEN conjunct2, THEN conjunct2, THEN conjunct2, THEN conjunct2, THEN conjunct2, THEN conjunct2, THEN conjunct1, rule_format, OF that])
  show "saved (snd (sq_exec E sql c)) = saved c" if "data_sql sql"
    by (rule laws [THEN conjunct2, THEN conjunct2, THEN conjunct2, THEN conjunct2, THEN conjunct2, THEN conjunct2, THEN conjunct2, THEN conjunct1, rule_format, OF that])
  show "saved (snd (sq_query E sql ps c)) = saved c" if "data_sql sql"
    by (rule laws [THEN conjunct2, THEN conjunct2, THEN conjunct2, THEN conjunct2, THEN conjunct2, THEN conjunct2, THEN conjunct2, THEN conjunct2, rule_format, OF that])
qed

definition held_mutex :: "'c sql_env \<Rightarrow> Mutex \<Rightarrow> bool" where
  "held_mutex E m \<longleftrightarrow> mutex_owner m = this_thread E \<and> mutex_holder m = Some (this_thread E)"

definition other_mutex :: "'c sql_env \<Rightarrow> Mutex \<Rightarrow> bool" where
  "other_mutex E m \<longleftrightarrow> mutex_owner m \<noteq> this_thread E \<and> (mutex_owner m = 0 \<longleftrightarrow> mutex_holder m = None)"

definition tx_open :: "'c sql_env \<Rightarrow> ('c \<Rightarrow> 'd option) \<Rightarrow> int \<Rightarrow> 'd \<Rightarrow> 'c sql_database \<Rightarrow> bool" where
  "tx_open E saved n d s \<longleftrightarrow> transaction_count s = n \<and> 0 < n \<and>
     (\<exists>c. db_handle s = Some c \<and> saved c = Some d) \<and>
     (\<forall>m. opt_transaction_mutex s = Some m \<longrightarrow> held_mutex E m)"

definition tx_idle :: "'c sql_env \<Rightarrow> ('c \<Rightarrow> 'd option) \<Rightarrow> 'c sql_database \<Rightarrow> bool" where
  "tx_idle E saved s \<longleftrightarrow> transaction_count s = 0 \<and>
     (\<exists>c. db_handle s = Some c \<and> saved c = None) \<and>
     (\<forall>m. opt_transaction_mutex s = Some m \<longrightarrow> other_mutex E m)"

definition db_content :: "('c \<Rightarrow> 'd) \<Rightarrow> 'c sql_database \<Rightarrow> 'd option" where
  "db_content content s = map_option content (db_handle s)"

lemma db_simps [simp]:
  "db_handle (set_handle c s) = Some c" "transaction_count (set_handle c s) = transaction_count s"
  "needs_rollback (set_handle c s) = needs_rollback s" "opt_transaction_mutex (set_handle c s) = opt_transaction_mutex s"
  "db_handle (tx_notify e s) = db_handle s" "transaction_count (tx_notify e s) = transaction_count s"
  "needs_rollback (tx_notify e s) = needs_rollback s" "opt_transaction_mutex (tx_notify e s) = opt_transaction_mutex s"
  by (simp_all add: set_handle_def tx_notify_def)

lemma set_handle_set [simp]: "set_handle c (set_handle c' s) = set_handle c s"
  by (simp add: set_handle_def)

text \<open>The mutex of the transactions.\<close>

lemma lock_tx_idle:
  assumes "\<forall>m. opt_transaction_mutex s = Some m \<longrightarrow> other_mutex E m" "this_thread E \<noteq> 0"
  shows "lock_tx E s = Blocked \<or> (\<exists>om. lock_tx E s = Returned (s\<lparr>opt_transaction_mutex := om\<rparr>) \<and>
    (\<forall>m. om = Some m \<longrightarrow> held_mutex E m))"
proof (cases "opt_transaction_mutex s")
  case None
  then have "s = s\<lparr>opt_transaction_mutex := None\<rparr>" by simp
  then have "lock_tx E s = Returned (s\<lparr>opt_transaction_mutex := None\<rparr>)" using None by (simp add: lock_tx_def)
  then show ?thesis by auto
next
  case (Some m)
  with assms show ?thesis
    by (cases "mutex_holder m") (auto simp: lock_tx_def Mutex_Lock_def pthread_mutex_lock_def other_mutex_def held_mutex_def)
qed

lemma unlock_tx_held:
  assumes "\<forall>m. opt_transaction_mutex s = Some m \<longrightarrow> held_mutex E m" "this_thread E \<noteq> 0"
  shows "\<exists>om. unlock_tx E s = Returned (s\<lparr>opt_transaction_mutex := om\<rparr>) \<and> (\<forall>m. om = Some m \<longrightarrow> other_mutex E m)"
proof (cases "opt_transaction_mutex s")
  case None
  then have "s = s\<lparr>opt_transaction_mutex := None\<rparr>" by simp
  then have "unlock_tx E s = Returned (s\<lparr>opt_transaction_mutex := None\<rparr>)" using None by (simp add: unlock_tx_def)
  then show ?thesis by auto
next
  case (Some m)
  with assms show ?thesis
    by (auto simp: unlock_tx_def Mutex_Unlock_def pthread_mutex_unlock_def other_mutex_def held_mutex_def)
qed

text \<open>\<open>BeginTransaction\<close> of an outermost and of a nested transaction.\<close>

lemma BeginTransaction_idle:
  assumes "sql_contract E content saved" "tx_idle E saved s"
  shows "BeginTransaction E s = Blocked \<or>
    (\<exists>ok s1. BeginTransaction E s = Returned (ok, s1) \<and>
       (if ok then \<exists>d. tx_open E saved 1 d s1 \<and> db_content content s1 = Some d \<and> \<not> needs_rollback s1
        else tx_idle E saved s1))"
proof -
  note C = sql_contractD [OF assms(1)]
  obtain c where c: "db_handle s = Some c" "saved c = None" using assms(2) by (auto simp: tx_idle_def)
  have cnt: "transaction_count s = 0" using assms(2) by (simp add: tx_idle_def)
  obtain ok c1 where b: "sq_exec E (units ''BEGIN IMMEDIATE'') c = (ok, c1)" by (cases "sq_exec E (units ''BEGIN IMMEDIATE'') c")
  from lock_tx_idle [of s E] assms(2) C(1) consider "lock_tx E s = Blocked"
    | om where "lock_tx E s = Returned (s\<lparr>opt_transaction_mutex := om\<rparr>)" "\<forall>m. om = Some m \<longrightarrow> held_mutex E m"
    by (auto simp: tx_idle_def)
  then show ?thesis
  proof cases
    case 1
    then show ?thesis using c(1) cnt by (simp add: BeginTransaction_def)
  next
    case (2 om)
    let ?s = "s\<lparr>opt_transaction_mutex := om\<rparr>"
    show ?thesis
    proof (cases ok)
      case True
      let ?r = "tx_notify OnBegin ((set_handle c1 ?s)\<lparr>needs_rollback := False, transaction_count := transaction_count ?s + 1\<rparr>)"
      have "BeginTransaction E s = Returned (True, ?r)" using c(1) cnt 2 b True by (simp add: BeginTransaction_def)
      moreover have "saved c1 = Some (content c1)" using C(2) [OF c(2)] b True by simp
      ultimately show ?thesis using 2(2) cnt by (intro disjI2 exI [of _ True] exI [of _ ?r])
          (simp add: tx_open_def db_content_def)
    next
      case False
      have "\<forall>m. opt_transaction_mutex (set_handle c1 ?s) = Some m \<longrightarrow> held_mutex E m" using 2(2) by simp
      from unlock_tx_held [OF this C(1)] obtain om2 where u:
        "unlock_tx E (set_handle c1 ?s) = Returned ((set_handle c1 ?s)\<lparr>opt_transaction_mutex := om2\<rparr>)"
        "\<forall>m. om2 = Some m \<longrightarrow> other_mutex E m" by blast
      let ?r = "(set_handle c1 ?s)\<lparr>opt_transaction_mutex := om2\<rparr>"
      have "BeginTransaction E s = Returned (False, ?r)" using c(1) cnt 2 b False u(1) by (simp add: BeginTransaction_def)
      moreover have "saved c1 = None" using C(3) [OF c(2)] b False by simp
      ultimately show ?thesis using u(2) cnt by (intro disjI2 exI [of _ False] exI [of _ ?r]) (simp add: tx_idle_def)
    qed
  qed
qed

lemma BeginTransaction_open:
  assumes "tx_open E saved n d s"
  shows "BeginTransaction E s = (if needs_rollback s then Returned (False, s)
    else Returned (True, s\<lparr>transaction_count := n + 1\<rparr>))"
  using assms by (auto simp: BeginTransaction_def tx_open_def)

text \<open>The end of a nested transaction, and of the outermost one.\<close>

lemma EndTransaction_nested:
  assumes "tx_open E saved n d s" "1 < n"
  shows "EndTransaction E s = Returned (True, s\<lparr>transaction_count := n - 1\<rparr>)"
    "tx_open E saved (n - 1) d (s\<lparr>transaction_count := n - 1\<rparr>)"
  using assms by (auto simp: EndTransaction_def tx_open_def Let_def)

lemma unlock_to_idle:
  assumes "\<forall>m. opt_transaction_mutex s = Some m \<longrightarrow> held_mutex E m" "this_thread E \<noteq> 0"
    and "db_handle s = Some c" "saved c = None" "transaction_count s = 0"
  obtains om where "unlock_tx E s = Returned (s\<lparr>opt_transaction_mutex := om\<rparr>)"
    "tx_idle E saved (tx_notify e (s\<lparr>opt_transaction_mutex := om\<rparr>))"
proof -
  from unlock_tx_held [OF assms(1,2)] obtain om where u: "unlock_tx E s = Returned (s\<lparr>opt_transaction_mutex := om\<rparr>)"
    "\<forall>m. om = Some m \<longrightarrow> other_mutex E m" by blast
  show ?thesis by (rule that [OF u(1)]) (use u(2) assms(3-5) in \<open>simp add: tx_idle_def\<close>)
qed

lemma FinishRollback_ends:
  assumes "sql_contract E content saved" "\<forall>m. opt_transaction_mutex s = Some m \<longrightarrow> held_mutex E m"
    and "saved c = Some d \<or> saved c = None \<and> content c = d" "transaction_count s = 0"
  shows "\<exists>s'. FinishRollback E c s = Returned (False, s') \<and> tx_idle E saved s' \<and> needs_rollback s' = needs_rollback s \<and>
    db_content content s' = Some d"
proof -
  note C = sql_contractD [OF assms(1)]
  obtain ok c1 where r: "sq_exec E (units ''ROLLBACK'') c = (ok, c1)" by (cases "sq_exec E (units ''ROLLBACK'') c")
  have c1: "saved c1 = None" "content c1 = d" using assms(3) C(6) [OF _ r] C(7) [OF _ r] by auto
  have "\<forall>m. opt_transaction_mutex (set_handle c1 s) = Some m \<longrightarrow> held_mutex E m" "transaction_count (set_handle c1 s) = 0"
    "db_handle (set_handle c1 s) = Some c1" using assms(2,4) by simp_all
  from unlock_to_idle [where saved = saved and e = OnRollback, OF this(1) C(1) this(3) c1(1) this(2)] obtain om where
    "unlock_tx E (set_handle c1 s) = Returned ((set_handle c1 s)\<lparr>opt_transaction_mutex := om\<rparr>)"
    "tx_idle E saved (tx_notify OnRollback ((set_handle c1 s)\<lparr>opt_transaction_mutex := om\<rparr>))" by blast
  then show ?thesis using r c1(2) by (simp add: FinishRollback_def db_content_def)
qed

lemma EndTransaction_last:
  assumes "sql_contract E content saved" "tx_open E saved 1 d s"
  shows "\<exists>r s'. EndTransaction E s = Returned (r, s') \<and> tx_idle E saved s' \<and> needs_rollback s' = needs_rollback s \<and>
    (if r then \<not> needs_rollback s \<and> db_content content s' = db_content content s else db_content content s' = Some d)"
proof -
  note C = sql_contractD [OF assms(1)]
  obtain c where c: "db_handle s = Some c" "saved c = Some d" and cnt: "transaction_count s = 1"
    and m: "\<forall>m. opt_transaction_mutex s = Some m \<longrightarrow> held_mutex E m" using assms(2) by (auto simp: tx_open_def)
  let ?s = "s\<lparr>transaction_count := 0\<rparr>"
  have m': "\<forall>m. opt_transaction_mutex ?s = Some m \<longrightarrow> held_mutex E m" using m by simp
  show ?thesis
  proof (cases "needs_rollback s")
    case True
    then have "EndTransaction E s = FinishRollback E c ?s" using c(1) cnt by (simp add: EndTransaction_def)
    with FinishRollback_ends [OF assms(1) m', of c d] c(2) show ?thesis by auto
  next
    case False
    obtain ok c1 where e: "sq_exec E (units ''COMMIT'') c = (ok, c1)" by (cases "sq_exec E (units ''COMMIT'') c")
    show ?thesis
    proof (cases ok)
      case True
      with C(4) [OF c(2)] e have c1: "saved c1 = None" "content c1 = content c" by auto
      have "\<forall>m. opt_transaction_mutex (set_handle c1 ?s) = Some m \<longrightarrow> held_mutex E m" using m by simp
      from unlock_to_idle [OF this C(1), of c1 saved OnCommit] c1 obtain om where
        "unlock_tx E (set_handle c1 ?s) = Returned ((set_handle c1 ?s)\<lparr>opt_transaction_mutex := om\<rparr>)"
        "tx_idle E saved (tx_notify OnCommit ((set_handle c1 ?s)\<lparr>opt_transaction_mutex := om\<rparr>))" by auto
      then show ?thesis using c(1) cnt e False True c1(2) unfolding EndTransaction_def
        by (intro exI [of _ True]) (simp add: db_content_def)
    next
      case failed: False
      with C(5) [OF c(2)] e have "saved c1 = Some d \<or> saved c1 = None \<and> content c1 = d" by auto
      from FinishRollback_ends [OF assms(1) m' this] c(1) cnt e False failed show ?thesis
        by (auto simp: EndTransaction_def)
    qed
  qed
qed

lemma tx_open_rollback [simp]: "tx_open E saved n d (s\<lparr>needs_rollback := b\<rparr>) = tx_open E saved n d s"
  by (simp add: tx_open_def)

lemma RollbackTransaction_nested:
  assumes "tx_open E saved n d s" "1 < n"
  shows "RollbackTransaction E s = Returned (s\<lparr>needs_rollback := True, transaction_count := n - 1\<rparr>)"
    "tx_open E saved (n - 1) d (s\<lparr>needs_rollback := True, transaction_count := n - 1\<rparr>)"
  using EndTransaction_nested [of E saved n d "s\<lparr>needs_rollback := True\<rparr>"] assms
  by (simp_all add: RollbackTransaction_def)

lemma CommitTransaction_nested:
  assumes "tx_open E saved n d s" "1 < n"
  shows "CommitTransaction E s = Returned (\<not> needs_rollback s, s\<lparr>transaction_count := n - 1\<rparr>)"
    "tx_open E saved (n - 1) d (s\<lparr>transaction_count := n - 1\<rparr>)"
  using EndTransaction_nested [OF assms] by (simp_all add: CommitTransaction_def)

lemma RollbackTransaction_last:
  assumes "sql_contract E content saved" "tx_open E saved 1 d s"
  shows "\<exists>s'. RollbackTransaction E s = Returned s' \<and> tx_idle E saved s' \<and> db_content content s' = Some d"
  using EndTransaction_last [OF assms(1), of d "s\<lparr>needs_rollback := True\<rparr>"] assms(2)
  by (auto simp: RollbackTransaction_def split: if_splits)

lemma CommitTransaction_last:
  assumes "sql_contract E content saved" "tx_open E saved 1 d s"
  shows "\<exists>r s'. CommitTransaction E s = Returned (r, s') \<and> tx_idle E saved s' \<and>
    (if r then \<not> needs_rollback s \<and> db_content content s' = db_content content s else db_content content s' = Some d)"
  using EndTransaction_last [OF assms] by (fastforce simp: CommitTransaction_def)

section \<open>Functions that run inside a transaction\<close>

text \<open>
  \<open>nests f\<close>: started inside a transaction, \<open>f\<close> returns inside it, and does not forget that it has to be
  rolled back.
\<close>

definition nests :: "'c sql_env \<Rightarrow> ('c \<Rightarrow> 'd option) \<Rightarrow> ('c sql_database \<Rightarrow> ('r \<times> 'c sql_database) os_result) \<Rightarrow> bool" where
  "nests E saved f \<longleftrightarrow> (\<forall>n d s. tx_open E saved n d s \<longrightarrow>
     (\<exists>r s'. f s = Returned (r, s') \<and> tx_open E saved n d s' \<and> (needs_rollback s \<longrightarrow> needs_rollback s')))"

lemma nestsI:
  "(\<And>n d s. tx_open E saved n d s \<Longrightarrow>
     \<exists>r s'. f s = Returned (r, s') \<and> tx_open E saved n d s' \<and> (needs_rollback s \<longrightarrow> needs_rollback s')) \<Longrightarrow> nests E saved f"
  by (simp add: nests_def)

lemma nestsE:
  assumes "nests E saved f" "tx_open E saved n d s"
  obtains r s' where "f s = Returned (r, s')" "tx_open E saved n d s'" "needs_rollback s \<longrightarrow> needs_rollback s'"
  using assms unfolding nests_def by blast

named_theorems nests_intros

lemma nests_return [nests_intros]: "nests E saved (\<lambda>s. Returned (r, s))"
  by (simp add: nests_def)

lemma nests_bind:
  assumes "nests E saved f" "\<And>r. nests E saved (g r)"
  shows "nests E saved (\<lambda>s. os_bind (f s) (\<lambda>(r, s1). g r s1))"
proof (rule nestsI)
  fix n d s
  assume "tx_open E saved n d s"
  then obtain r s1 where s1: "f s = Returned (r, s1)" "tx_open E saved n d s1" "needs_rollback s \<longrightarrow> needs_rollback s1"
    by (rule nestsE [OF assms(1)])
  obtain r' s2 where "g r s1 = Returned (r', s2)" "tx_open E saved n d s2" "needs_rollback s1 \<longrightarrow> needs_rollback s2"
    by (rule nestsE [OF assms(2) s1(2)])
  with s1 show "\<exists>r s'. os_bind (f s) (\<lambda>(r, s1). g r s1) = Returned (r, s') \<and> tx_open E saved n d s' \<and>
      (needs_rollback s \<longrightarrow> needs_rollback s')" by simp
qed

lemma nests_and_then [nests_intros]:
  assumes "nests E saved f" "nests E saved g" shows "nests E saved (and_then f g)"
proof -
  have "nests E saved (\<lambda>s. if ok then g s else Returned (False, s))" for ok
    using assms(2) by (cases ok) (simp_all add: nests_return)
  from nests_bind [OF assms(1) this] show ?thesis by (simp add: and_then_def [abs_def] if_distrib split: prod.splits)
qed

lemma tx_open_set_handle:
  "tx_open E saved n d s \<Longrightarrow> db_handle s = Some c \<Longrightarrow> saved c1 = saved c \<Longrightarrow> tx_open E saved n d (set_handle c1 s)"
  by (auto simp: tx_open_def)

lemma nests_execute [nests_intros]:
  assumes "sql_contract E content saved" "data_sql sql" shows "nests E saved (db_Execute E sql)"
proof (rule nestsI)
  fix n d s
  assume opn: "tx_open E saved n d s"
  then obtain c where c: "db_handle s = Some c" by (auto simp: tx_open_def)
  obtain ok c1 where e: "sq_exec E sql c = (ok, c1)" by (cases "sq_exec E sql c")
  with sql_contractD(8) [OF assms(1,2), of c] have "saved c1 = saved c" by simp
  from tx_open_set_handle [OF opn c this] c e show "\<exists>r s'. db_Execute E sql s = Returned (r, s') \<and>
      tx_open E saved n d s' \<and> (needs_rollback s \<longrightarrow> needs_rollback s')" by (simp add: db_Execute_def)
qed

lemma db_query_open:
  assumes "sql_contract E content saved" "data_sql sql" "tx_open E saved n d s"
  obtains r s1 where "db_query E sql ps s = (r, s1)" "tx_open E saved n d s1" "needs_rollback s1 = needs_rollback s"
    "transaction_count s1 = transaction_count s"
proof -
  from assms(3) obtain c where c: "db_handle s = Some c" by (auto simp: tx_open_def)
  obtain r c1 where e: "sq_query E sql ps c = (r, c1)" by (cases "sq_query E sql ps c")
  with sql_contractD(9) [OF assms(1,2), of ps c] have "saved c1 = saved c" by simp
  note opn = tx_open_set_handle [OF assms(3) c this]
  have "db_query E sql ps s = (r, set_handle c1 s)" using c e by (simp add: db_query_def)
  then show ?thesis by (rule that) (use opn in simp_all)
qed

lemma nests_query:
  assumes "sql_contract E content saved" "data_sql sql" "\<And>r. nests E saved (k r)"
  shows "nests E saved (\<lambda>s. case db_query E sql ps s of (r, s1) \<Rightarrow> k r s1)"
proof (rule nestsI)
  fix n d s
  assume opn: "tx_open E saved n d s"
  obtain r s1 where s1: "db_query E sql ps s = (r, s1)" "tx_open E saved n d s1" "needs_rollback s1 = needs_rollback s"
    by (rule db_query_open [OF assms(1,2) opn])
  obtain r' s2 where "k r s1 = Returned (r', s2)" "tx_open E saved n d s2" "needs_rollback s1 \<longrightarrow> needs_rollback s2"
    by (rule nestsE [OF assms(3) s1(2)])
  with s1 show "\<exists>r s'. (case db_query E sql ps s of (r, s1) \<Rightarrow> k r s1) = Returned (r, s') \<and>
      tx_open E saved n d s' \<and> (needs_rollback s \<longrightarrow> needs_rollback s')" by simp
qed

text \<open>The scoped transaction, without its object.\<close>

lemma with_tx_simp:
  "with_tx E out body s = os_bind (BeginTransaction E s) (\<lambda>(ok, s1).
     if \<not> ok then Returned ((False, out), s1)
     else os_bind (body s1) (\<lambda>((x, out1), s2). case x of
         LeaveTx r \<Rightarrow> os_bind (RollbackTransaction E s2) (\<lambda>s3. Returned ((r, out1), s3))
       | CommitTx \<Rightarrow> os_bind (CommitTransaction E s2) (\<lambda>(r, s3). Returned ((r, out1), s3))))"
proof (cases "BeginTransaction E s")
  case (Returned p)
  obtain ok s1 where p: "p = (ok, s1)" by (cases p)
  show ?thesis
  proof (cases ok)
    case True
    show ?thesis
    proof (cases "body s1")
      case (Returned q)
      obtain x out1 s2 where q: "q = ((x, out1), s2)" by (metis surj_pair)
      show ?thesis using \<open>BeginTransaction E s = Returned p\<close> p q True Returned
        by (cases x; cases "RollbackTransaction E s2"; cases "CommitTransaction E s2")
          (auto simp: with_tx_def tx_Begin_def tx_End_def tx_destroy_def SQLTransaction_new_def
            simp del: os_bind_eq_Returned split: prod.splits)
    qed (use Returned p True in \<open>simp_all add: with_tx_def tx_Begin_def SQLTransaction_new_def\<close>)
  qed (use Returned p in \<open>simp add: with_tx_def tx_Begin_def tx_destroy_def SQLTransaction_new_def\<close>)
qed (simp_all add: with_tx_def tx_Begin_def SQLTransaction_new_def)

lemma nests_with_tx [nests_intros]:
  assumes "nests E saved body" shows "nests E saved (with_tx E out body)"
proof (rule nestsI)
  fix n d s
  assume opn: "tx_open E saved n d s"
  show "\<exists>r s'. with_tx E out body s = Returned (r, s') \<and> tx_open E saved n d s' \<and> (needs_rollback s \<longrightarrow> needs_rollback s')"
  proof (cases "needs_rollback s")
    case True
    then show ?thesis using opn BeginTransaction_open [OF opn] by (simp add: with_tx_simp ex_bool_eq)
  next
    case False
    let ?s = "s\<lparr>transaction_count := n + 1\<rparr>"
    have opn1: "tx_open E saved (n + 1) d ?s" and n: "1 < n + 1" using opn by (auto simp: tx_open_def)
    obtain q s2 where s2: "body ?s = Returned (q, s2)" "tx_open E saved (n + 1) d s2"
      by (rule nestsE [OF assms opn1])
    obtain x out1 where q: "q = (x, out1)" by (cases q)
    show ?thesis
    proof (cases x)
      case (LeaveTx r)
      from RollbackTransaction_nested [OF s2(2) n] show ?thesis
        using s2(1) q LeaveTx False BeginTransaction_open [OF opn] by (simp add: with_tx_simp)
    next
      case CommitTx
      from CommitTransaction_nested [OF s2(2) n] show ?thesis
        using s2(1) q CommitTx False BeginTransaction_open [OF opn] by (simp add: with_tx_simp)
    qed
  qed
qed

lemma nests_tx_chain [nests_intros]:
  assumes "nests E saved f" shows "nests E saved (tx_chain E f)"
proof -
  have ret: "nests E saved (\<lambda>s. Returned ((if ok then CommitTx else LeaveTx False, ()), s))" for ok by (rule nests_return)
  have out: "nests E saved (\<lambda>s1. case p of (r, out) \<Rightarrow> Returned (r, s1))" for p :: "bool \<times> unit"
    by (cases p) (simp add: nests_return)
  from nests_bind [OF nests_with_tx [OF nests_bind [OF assms ret]] out]
  show ?thesis by (simp add: tx_chain_def [abs_def] case_prod_unfold)
qed

lemma nests_drop_loop:
  assumes "sql_contract E content saved" shows "nests E saved (drop_loop E names)"
proof (induction names)
  case Nil
  show ?case using nests_return [of E saved True] by (simp add: drop_loop.simps(1) [abs_def])
next
  case (Cons name names)
  have k: "nests E saved (\<lambda>s1. case r of
      SqlNotPrepared \<Rightarrow> if StartsWith False name (units ''sqlite_sequence'') then drop_loop E names s1 else Returned (False, s1)
    | SqlFailed rows \<Rightarrow> Returned (False, s1) | SqlDone rows \<Rightarrow> drop_loop E names s1)" for r
    using Cons.IH nests_return [of E saved False]
    by (cases r; cases "StartsWith False name (units ''sqlite_sequence'')") simp_all
  have "data_sql (units ''DROP TABLE '' @ name)" by (simp add: data_text data_keywords_def)
  from nests_query [OF assms this k] show ?case by (simp add: drop_loop.simps(2) [abs_def])
qed

lemma nests_DropAllObjects [nests_intros]:
  assumes "sql_contract E content saved" shows "nests E saved (DropAllObjects E)"
proof -
  have "nests E saved (\<lambda>s1. case r of SqlDone rows \<Rightarrow> drop_loop E (map (\<lambda>row. column_text16_safe (column 0 row)) rows) s1
      | _ \<Rightarrow> Returned (False, s1))" for r
    using nests_drop_loop [OF assms] nests_return [of E saved False] by (cases r) simp_all
  note q = nests_query [OF assms _ this]
  show ?thesis unfolding DropAllObjects_def 
    by (rule nests_tx_chain) (rule q, simp add: data_text data_keywords_def)
qed

text \<open>An outermost transaction: all of it, or nothing.\<close>

definition tx_result :: "('c \<Rightarrow> 'd) \<Rightarrow> tx_exit \<Rightarrow> bool \<Rightarrow> 'c sql_database \<Rightarrow> 'c sql_database \<Rightarrow> 'c sql_database \<Rightarrow> bool" where
  "tx_result content x r s1 s2 s' \<longleftrightarrow> (case x of
       LeaveTx q \<Rightarrow> r = q \<and> db_content content s' = db_content content s1
     | CommitTx \<Rightarrow> if r then \<not> needs_rollback s2 \<and> db_content content s' = db_content content s2
         else db_content content s' = db_content content s1)"

lemma with_tx_outermost:
  assumes "sql_contract E content saved" "tx_idle E saved s" "nests E saved body"
    and "with_tx E out body s = Returned ((r, out'), s')"
  obtains (refused) "BeginTransaction E s = Returned (False, s')" "\<not> r" "out' = out" "tx_idle E saved s'"
    | (ended) d x s1 s2 where "BeginTransaction E s = Returned (True, s1)" "tx_open E saved 1 d s1"
        "db_content content s1 = Some d" "body s1 = Returned ((x, out'), s2)" "tx_open E saved 1 d s2"
        "tx_idle E saved s'" "tx_result content x r s1 s2 s'"
proof -
  obtain ok s1 where b: "BeginTransaction E s = Returned (ok, s1)" using assms(4) by (auto simp: with_tx_simp)
  with BeginTransaction_idle [OF assms(1,2)] have B: "if ok then \<exists>d. tx_open E saved 1 d s1 \<and> db_content content s1 = Some d \<and>
      \<not> needs_rollback s1 else tx_idle E saved s1" by auto
  show thesis
  proof (cases ok)
    case False
    with b B assms(4) show ?thesis by (intro refused) (simp_all add: with_tx_simp)
  next
    case True
    with B obtain d where d: "tx_open E saved 1 d s1" "db_content content s1 = Some d" by auto
    obtain q s2 where s2: "body s1 = Returned (q, s2)" "tx_open E saved 1 d s2" by (rule nestsE [OF assms(3) d(1)])
    obtain x out1 where q: "q = (x, out1)" by (cases q)
    have res: "out1 = out' \<and> tx_idle E saved s' \<and> tx_result content x r s1 s2 s'"
    proof (cases x)
      case (LeaveTx q')
      with RollbackTransaction_last [OF assms(1) s2(2)] b True s2 q d assms(4) show ?thesis
        by (auto simp: with_tx_simp tx_result_def)
    next
      case CommitTx
      with CommitTransaction_last [OF assms(1) s2(2)] b True s2 q d assms(4) show ?thesis
        by (auto simp: with_tx_simp tx_result_def split: if_splits)
    qed
    have b1: "BeginTransaction E s = Returned (True, s1)" and body: "body s1 = Returned ((x, out'), s2)"
      using b True s2(1) q res by simp_all
    from res show ?thesis by (intro ended [OF b1 d body s2(2)]) simp_all
  qed
qed

lemma with_tx_returns:
  assumes "sql_contract E content saved" "tx_idle E saved s" "nests E saved body"
  shows "with_tx E out body s = Blocked \<or> (\<exists>r s'. with_tx E out body s = Returned (r, s'))"
proof (cases "BeginTransaction E s")
  case (Returned p)
  obtain ok s1 where p: "p = (ok, s1)" by (cases p)
  show ?thesis
  proof (cases ok)
    case True
    with BeginTransaction_idle [OF assms(1,2)] Returned p obtain d where d: "tx_open E saved 1 d s1" by auto
    obtain q s2 where s2: "body s1 = Returned (q, s2)" "tx_open E saved 1 d s2" by (rule nestsE [OF assms(3) d])
    obtain x out1 where q: "q = (x, out1)" by (cases q)
    from RollbackTransaction_last [OF assms(1) s2(2)] CommitTransaction_last [OF assms(1) s2(2)] Returned p True s2(1) q
    show ?thesis by (cases x) (auto simp: with_tx_simp)
  qed (use Returned p in \<open>simp add: with_tx_simp ex_bool_eq\<close>)
qed (use BeginTransaction_idle [OF assms(1,2)] in \<open>simp_all add: with_tx_simp\<close>)

lemma nests_if:
  "nests E saved f \<Longrightarrow> nests E saved g \<Longrightarrow> nests E saved (\<lambda>s. if b then f s else g s)"
  by (cases b) simp_all

section \<open>Nested calls\<close>

text \<open>
  What a client may call inside a transaction it has begun: further transactions, each ended once, and
  statements. \<open>Blocked\<close> is a call the rules of the header forbid.
\<close>

datatype tx_call = CallBegin | CallCommit | CallRollback | CallStatement str "sql_value list"

definition inner_call :: "'c sql_env \<Rightarrow> tx_call \<Rightarrow> 'c sql_database \<Rightarrow> 'c sql_database os_result" where
  "inner_call E k s = (case k of
       CallBegin \<Rightarrow> os_bind (BeginTransaction E s) (\<lambda>(ok, s1). Returned s1)
     | CallCommit \<Rightarrow> if transaction_count s \<le> 1 then Blocked
         else os_bind (CommitTransaction E s) (\<lambda>(ok, s1). Returned s1)
     | CallRollback \<Rightarrow> if transaction_count s \<le> 1 then Blocked else RollbackTransaction E s
     | CallStatement sql ps \<Rightarrow> if \<not> data_sql sql then Blocked else Returned (snd (db_query E sql ps s)))"

primrec inner_calls :: "'c sql_env \<Rightarrow> tx_call list \<Rightarrow> 'c sql_database \<Rightarrow> 'c sql_database os_result" where
  "inner_calls E [] s = Returned s"
| "inner_calls E (k # ks) s = os_bind (inner_call E k s) (inner_calls E ks)"

lemma inner_call_open:
  assumes "sql_contract E content saved" "tx_open E saved n d s" "inner_call E k s = Returned s'"
  shows "\<exists>n'. tx_open E saved n' d s'" "needs_rollback s \<or> k = CallRollback \<Longrightarrow> needs_rollback s'"
proof -
  have cnt: "transaction_count s = n" using assms(2) by (simp add: tx_open_def)
  have "(\<exists>n'. tx_open E saved n' d s') \<and> (needs_rollback s \<or> k = CallRollback \<longrightarrow> needs_rollback s')"
  proof (cases k)
    case CallBegin
    have "tx_open E saved (n + 1) d (s\<lparr>transaction_count := n + 1\<rparr>)" using assms(2) by (auto simp: tx_open_def)
    with CallBegin assms(2,3) BeginTransaction_open [OF assms(2)] show ?thesis
      by (auto simp: inner_call_def split: if_splits)
  next
    case CallCommit
    with assms(3) cnt have n: "1 < n" by (simp add: inner_call_def split: if_splits)
    from CommitTransaction_nested [OF assms(2) n] CallCommit assms(3) cnt n show ?thesis by (auto simp: inner_call_def)
  next
    case CallRollback
    with assms(3) cnt have n: "1 < n" by (simp add: inner_call_def split: if_splits)
    from RollbackTransaction_nested [OF assms(2) n] CallRollback assms(3) cnt n show ?thesis
      by (auto simp: inner_call_def)
  next
    case (CallStatement sql ps)
    with assms(3) have sql: "data_sql sql" by (simp add: inner_call_def split: if_splits)
    obtain r s1 where "db_query E sql ps s = (r, s1)" "tx_open E saved n d s1" "needs_rollback s1 = needs_rollback s"
      by (rule db_query_open [OF assms(1) sql assms(2)])
    with CallStatement sql assms(3) show ?thesis by (auto simp: inner_call_def)
  qed
  then show "\<exists>n'. tx_open E saved n' d s'" "needs_rollback s \<or> k = CallRollback \<Longrightarrow> needs_rollback s'" by blast+
qed

lemma inner_calls_open:
  "sql_contract E content saved \<Longrightarrow> tx_open E saved n d s \<Longrightarrow> inner_calls E ks s = Returned s' \<Longrightarrow>
     (\<exists>n'. tx_open E saved n' d s') \<and> (needs_rollback s \<or> CallRollback \<in> set ks \<longrightarrow> needs_rollback s')"
proof (induction ks arbitrary: s n)
  case Nil
  then show ?case by auto
next
  case (Cons k ks)
  then obtain s1 where s1: "inner_call E k s = Returned s1" "inner_calls E ks s1 = Returned s'" by auto
  note step = inner_call_open [OF Cons.prems(1,2) s1(1)]
  then obtain n1 where "tx_open E saved n1 d s1" by blast
  from Cons.IH [OF Cons.prems(1) this s1(2)] step(2) show ?case by auto
qed


section \<open>Closing inside a transaction\<close>

text \<open>
  \<open>Close\<close> gives the mutex back but does not reset the count, and \<open>Open\<close> resets the count but not the
  \<open>SQLTransaction\<close>: its destructor then fails an assertion.
\<close>

lemma close_in_transaction_aborts:
  assumes "tx_open E saved n d s" "debug_build E" "this_thread E \<noteq> 0"
  shows "\<exists>s1. SQLDatabase_Close E s = Returned s1 \<and> IsInTransaction s1 \<and>
    tx_destroy E \<lparr>began = True\<rparr> s1 = Aborted \<and>
    (\<forall>path r s2. OpenConnection E path s1 = Returned (r, s2) \<longrightarrow> tx_destroy E \<lparr>began = True\<rparr> s2 = Aborted)"
proof -
  have "\<forall>m. opt_transaction_mutex (s\<lparr>db_handle := None\<rparr>) = Some m \<longrightarrow> held_mutex E m" using assms(1) by (simp add: tx_open_def)
  from unlock_tx_held [OF this assms(3)] obtain om where
    u: "unlock_tx E (s\<lparr>db_handle := None\<rparr>) = Returned (s\<lparr>db_handle := None, opt_transaction_mutex := om\<rparr>)" by auto
  let ?s1 = "s\<lparr>db_handle := None, opt_transaction_mutex := om\<rparr>"
  have n: "transaction_count s = n" "0 < n" using assms(1) by (auto simp: tx_open_def)
  have "SQLDatabase_Close E s = Returned ?s1" using assms(1) u n
    by (auto simp: SQLDatabase_Close_def IsInTransaction_def tx_open_def)
  moreover have "tx_destroy E \<lparr>began = True\<rparr> ?s1 = Aborted" using assms(2) n
    by (simp add: tx_destroy_def tx_End_def RollbackTransaction_def EndTransaction_def)
  moreover have "tx_destroy E \<lparr>began = True\<rparr> s2 = Aborted" if "OpenConnection E path ?s1 = Returned (r, s2)" for path r s2
  proof -
    have "transaction_count s2 = 0" using that by (auto simp: OpenConnection_def Let_def split: option.splits)
    then show ?thesis using assms(2) by (simp add: tx_destroy_def tx_End_def RollbackTransaction_def EndTransaction_def)
  qed
  moreover have "IsInTransaction ?s1" using n by (simp add: IsInTransaction_def)
  ultimately show ?thesis by blast
qed

section \<open>A connection in memory\<close>

text \<open>The simplest connection: a list of rows, and a copy of it while a transaction is open.\<close>

definition mem_exec :: "str \<Rightarrow> 'd \<times> 'd option \<Rightarrow> bool \<times> 'd \<times> 'd option" where
  "mem_exec sql c =
     (if sql = units ''BEGIN IMMEDIATE'' then (snd c = None, fst c, if snd c = None then Some (fst c) else snd c)
      else if sql = units ''COMMIT'' then (snd c \<noteq> None, fst c, None)
      else if sql = units ''ROLLBACK'' then (snd c \<noteq> None, case snd c of Some d \<Rightarrow> d | None \<Rightarrow> fst c, None)
      else (True, c))"

definition mem_env :: "(sql_value list list \<times> sql_value list list option) sql_env" where
  "mem_env = \<lparr>sq_open = (\<lambda>path. Some ([], None)), sq_busy_timeout = (\<lambda>t c. (True, c)), sq_exec = mem_exec,
     sq_query = (\<lambda>sql ps c. (SqlDone [], fst c @ [ps], snd c)), sq_int = (\<lambda>t. 0), debug_build = True, this_thread = 1\<rparr>"

lemma mem_env_contract: "sql_contract mem_env fst snd"
  by (auto simp: sql_contract_def mem_env_def mem_exec_def data_sql_def data_keywords_def units_def)

definition mem_start :: "(sql_value list list \<times> sql_value list list option) sql_database" where
  "mem_start = SQLDatabase_new\<lparr>db_handle := Some ([], None), opt_transaction_mutex := Some Mutex_new\<rparr>"

lemma mem_start_idle: "tx_idle mem_env snd mem_start"
  by (simp add: tx_idle_def mem_start_def SQLDatabase_new_def other_mutex_def Mutex_new_def mem_env_def)

lemmas tx_eval = mem_start_def SQLDatabase_new_def mem_env_def mem_exec_def units_def BeginTransaction_def lock_tx_def unlock_tx_def
  Mutex_Lock_def Mutex_Unlock_def pthread_mutex_lock_def pthread_mutex_unlock_def Mutex_new_def set_handle_def tx_notify_def
  inner_call_def RollbackTransaction_def CommitTransaction_def EndTransaction_def FinishRollback_def db_query_def data_sql_def data_keywords_def Let_def

definition mem_begun :: "(sql_value list list \<times> sql_value list list option) sql_database" where
  "mem_begun = (case BeginTransaction mem_env mem_start of Returned (ok, s) \<Rightarrow> s | _ \<Rightarrow> mem_start)"

definition mem_calls :: "tx_call list" where
  "mem_calls = [CallStatement (units ''INSERT INTO t'') [SqlInt 5], CallBegin, CallStatement (units ''INSERT INTO t'') [SqlInt 6], CallRollback]"

definition mem_called :: "(sql_value list list \<times> sql_value list list option) sql_database" where
  "mem_called = (case inner_calls mem_env mem_calls mem_begun of Returned s \<Rightarrow> s | _ \<Rightarrow> mem_begun)"


end
