(* ===== verification/SqlTables.thy ===== *)
theory SqlTables
  imports Transactions
begin

text \<open>
  The tables over \<open>SQLDatabase\<close>: \<open>src/common/name_value_table.cc\<close>, \<open>src/common/database_name_table.cc\<close>
  and \<open>src/common/shortcut_table.cc\<close>. The texts of the statements are those of the code; what SQLite does
  with them is a parameter.
\<close>

section \<open>Statements\<close>

text \<open>The result of the first \<open>step\<close> of a statement whose preparation and bindings are checked.\<close>

datatype step_result = StepError | StepDone | StepRow "sql_value list"

definition first_step :: "sql_outcome \<Rightarrow> step_result" where
  "first_step r = (case r of SqlNotPrepared \<Rightarrow> StepError
     | SqlFailed rows \<Rightarrow> (case rows of [] \<Rightarrow> StepError | row # _ \<Rightarrow> StepRow row)
     | SqlDone rows \<Rightarrow> (case rows of [] \<Rightarrow> StepDone | row # _ \<Rightarrow> StepRow row))"

text \<open>A statement that returns no rows.\<close>

definition db_run :: "'c sql_env \<Rightarrow> str \<Rightarrow> sql_value list \<Rightarrow> 'c sql_database \<Rightarrow> (bool \<times> 'c sql_database) os_result" where
  "db_run E sql ps s = (case db_query E sql ps s of (r, s1) \<Rightarrow> Returned (first_step r = StepDone, s1))"

section \<open>Names and values\<close>

definition sql_set :: "str \<Rightarrow> str" where
  "sql_set t = units ''REPLACE INTO '' @ t @ units '' VALUES (?, ?)''"

definition sql_get :: "str \<Rightarrow> str" where
  "sql_get t = units ''SELECT Value FROM '' @ t @ units '' WHERE Name = ?''"

definition nv_MaybeCreateTable :: "'c sql_env \<Rightarrow> str \<Rightarrow> 'c sql_database \<Rightarrow> (bool \<times> 'c sql_database) os_result" where
  "nv_MaybeCreateTable E t =
     db_run E (units ''CREATE TABLE IF NOT EXISTS '' @ t @ units '' (Name TEXT UNIQUE, Value)'') []"

definition nv_SetInt :: "'c sql_env \<Rightarrow> str \<Rightarrow> str \<Rightarrow> int \<Rightarrow> 'c sql_database \<Rightarrow> (bool \<times> 'c sql_database) os_result" where
  "nv_SetInt E t name v = db_run E (sql_set t) [SqlText name, SqlInt v]"

definition nv_SetString :: "'c sql_env \<Rightarrow> str \<Rightarrow> str \<Rightarrow> str \<Rightarrow> 'c sql_database \<Rightarrow> (bool \<times> 'c sql_database) os_result" where
  "nv_SetString E t name v = db_run E (sql_set t) [SqlText name, SqlText v]"

text \<open>The output parameter is \<open>Some\<close> when the result is true; otherwise it is not written.\<close>

definition nv_GetInt :: "'c sql_env \<Rightarrow> str \<Rightarrow> str \<Rightarrow> 'c sql_database \<Rightarrow> (int option \<times> 'c sql_database) os_result" where
  "nv_GetInt E t name s = (case db_query E (sql_get t) [SqlText name] s of (r, s1) \<Rightarrow>
     Returned (case first_step r of StepRow row \<Rightarrow> Some (column_int E (column 0 row)) | _ \<Rightarrow> None, s1))"

text \<open>\<open>column_text16\<close> is a null pointer when the value is not set; it must not be assigned to a string.\<close>

definition nv_GetString :: "'c sql_env \<Rightarrow> str \<Rightarrow> str \<Rightarrow> 'c sql_database \<Rightarrow> (str option \<times> 'c sql_database) os_result" where
  "nv_GetString E t name s = (case db_query E (sql_get t) [SqlText name] s of (r, s1) \<Rightarrow>
     (case first_step r of
        StepRow row \<Rightarrow> if column 0 row = SqlNull then Aborted else Returned (Some (column_text16_safe (column 0 row)), s1)
      | _ \<Rightarrow> Returned (None, s1)))"

definition nv_HasName :: "'c sql_env \<Rightarrow> str \<Rightarrow> str \<Rightarrow> 'c sql_database \<Rightarrow> (bool option \<times> 'c sql_database) os_result" where
  "nv_HasName E t name s =
     (case db_query E (units ''SELECT 1 FROM '' @ t @ units '' WHERE Name = ?'') [SqlText name] s of (r, s1) \<Rightarrow>
      Returned (case first_step r of StepRow row \<Rightarrow> Some True | StepDone \<Rightarrow> Some False | StepError \<Rightarrow> None, s1))"

definition nv_FindNamesByIntValue :: "'c sql_env \<Rightarrow> str \<Rightarrow> int \<Rightarrow> 'c sql_database \<Rightarrow>
    (str list option \<times> 'c sql_database) os_result" where
  "nv_FindNamesByIntValue E t v s =
     (case db_query E (units ''SELECT Name FROM '' @ t @ units '' WHERE Value = ? ORDER BY Name ASC'') [SqlInt v] s of (r, s1) \<Rightarrow>
      Returned (case r of SqlDone rows \<Rightarrow> Some (map (\<lambda>row. column_text16_safe (column 0 row)) rows) | _ \<Rightarrow> None, s1))"

definition nv_Clear :: "'c sql_env \<Rightarrow> str \<Rightarrow> str \<Rightarrow> 'c sql_database \<Rightarrow> (bool \<times> 'c sql_database) os_result" where
  "nv_Clear E t name = db_run E (units ''DELETE FROM '' @ t @ units '' WHERE Name = ?'') [SqlText name]"

section \<open>Names of databases\<close>

definition MaybeCreateTableVersion7 :: "'c sql_env \<Rightarrow> 'c sql_database \<Rightarrow> (bool \<times> 'c sql_database) os_result" where
  "MaybeCreateTableVersion7 E = db_Execute E (units (''CREATE TABLE IF NOT EXISTS DatabaseNames ('' @
     '' DatabaseID INTEGER PRIMARY KEY,'' @ '' Origin TEXT NOT NULL,'' @ '' Name TEXT NOT NULL,'' @
     '' Version INTEGER NOT NULL,'' @ '' Basename TEXT NOT NULL,'' @ '' IsCorrupt INTEGER NOT NULL,'' @
     '' IsDeleted INTEGER NOT NULL,'' @ '' UNIQUE (Origin, Name, Version),'' @ '' UNIQUE (Origin, Basename)'' @ '')''))"

datatype basename_result = BasenameError | BasenameNotFound | BasenameFound str

definition BasenameHelper :: "'c sql_env \<Rightarrow> str \<Rightarrow> str \<Rightarrow> 'c sql_database \<Rightarrow> (basename_result \<times> 'c sql_database) os_result" where
  "BasenameHelper E origin name s =
     (case db_query E (units (''SELECT Basename FROM DatabaseNames '' @ '' WHERE Origin = ? AND Name = ? AND IsDeleted <> 1''))
        [SqlText origin, SqlText name] s of (r, s1) \<Rightarrow>
      Returned (case first_step r of
          StepDone \<Rightarrow> BasenameNotFound
        | StepError \<Rightarrow> BasenameError
        | StepRow row \<Rightarrow> if r = SqlDone [row] then BasenameFound (column_text16_safe (column 0 row)) else BasenameError, s1))"

definition NextVersionHelper :: "'c sql_env \<Rightarrow> str \<Rightarrow> str \<Rightarrow> 'c sql_database \<Rightarrow> (int option \<times> 'c sql_database) os_result" where
  "NextVersionHelper E origin name s =
     (case db_query E (units (''SELECT IFNULL(MAX(Version) + 1, 0) FROM DatabaseNames '' @ '' WHERE Origin = ? AND Name = ?''))
        [SqlText origin, SqlText name] s of (r, s1) \<Rightarrow>
      (case first_step r of
         StepDone \<Rightarrow> if debug_build E then Aborted else Returned (Some 0, s1)
       | StepError \<Rightarrow> Returned (None, s1)
       | StepRow row \<Rightarrow> Returned (Some (column_int E (column 0 row)), s1)))"

definition InsertHelper :: "'c sql_env \<Rightarrow> str \<Rightarrow> str \<Rightarrow> int \<Rightarrow> str \<Rightarrow> 'c sql_database \<Rightarrow> (bool \<times> 'c sql_database) os_result" where
  "InsertHelper E origin name version basename =
     db_run E (units (''INSERT INTO DatabaseNames '' @ ''(Origin, Name, Version, Basename, IsCorrupt, IsDeleted) '' @
       ''VALUES (?, ?, ?, ?, 0, 0)'')) [SqlText origin, SqlText name, SqlInt version, SqlText basename]"

text \<open>The name of the file of a version of a database; \<open>buffer\<close> is that of \<open>IntegerToString16\<close>.\<close>

definition DatabaseFile :: "str \<Rightarrow> str \<Rightarrow> int \<Rightarrow> str option" where
  "DatabaseFile buffer name version =
     (if version = 0 then Some (name @ units ''#database'')
      else map_option (\<lambda>n. name @ units ''#database['' @ n @ units '']'') (IntegerToString16 buffer version))"

definition NewBasename :: "'c sql_env \<Rightarrow> str \<Rightarrow> str \<Rightarrow> str \<Rightarrow> 'c sql_database \<Rightarrow>
    ((tx_exit \<times> str option) \<times> 'c sql_database) os_result" where
  "NewBasename E buffer origin name s = os_bind (BasenameHelper E origin name s) (\<lambda>(b, s1). case b of
       BasenameError \<Rightarrow> Returned ((LeaveTx False, None), s1)
     | BasenameFound f \<Rightarrow> Returned ((CommitTx, Some f), s1)
     | BasenameNotFound \<Rightarrow> os_bind (NextVersionHelper E origin name s1) (\<lambda>(v, s2). case v of
           None \<Rightarrow> Returned ((LeaveTx False, None), s2)
         | Some version \<Rightarrow> (case DatabaseFile buffer name version of
               None \<Rightarrow> Aborted
             | Some f \<Rightarrow> os_bind (InsertHelper E origin name version f s2) (\<lambda>(ok, s3).
                 Returned (if ok then (CommitTx, Some f) else (LeaveTx False, None), s3)))))"

definition GetDatabaseBasename :: "'c sql_env \<Rightarrow> str \<Rightarrow> str \<Rightarrow> str \<Rightarrow> 'c sql_database \<Rightarrow>
    ((bool \<times> str option) \<times> 'c sql_database) os_result" where
  "GetDatabaseBasename E buffer origin name s = os_bind (BasenameHelper E origin name s) (\<lambda>(b, s1). case b of
       BasenameError \<Rightarrow> Returned ((False, None), s1)
     | BasenameFound f \<Rightarrow> Returned ((True, Some f), s1)
     | BasenameNotFound \<Rightarrow> with_tx E None (NewBasename E buffer origin name) s1)"

definition MarkDatabaseCorrupt :: "'c sql_env \<Rightarrow> str \<Rightarrow> str \<Rightarrow> str \<Rightarrow> 'c sql_database \<Rightarrow> (bool \<times> 'c sql_database) os_result" where
  "MarkDatabaseCorrupt E origin name basename =
     db_run E (units (''UPDATE DatabaseNames SET IsCorrupt = 1, IsDeleted = 1 '' @ '' WHERE Origin = ? AND Name = ? AND Basename = ?''))
       [SqlText origin, SqlText name, SqlText basename]"

text \<open>
  \<open>dir\<close> is the data directory of the origin, if there is one. The files that the code tries to delete
  are a result.
\<close>

definition DeleteDatabase :: "'c sql_env \<Rightarrow> str option \<Rightarrow> str \<Rightarrow> str \<Rightarrow> 'c sql_database \<Rightarrow>
    ((bool \<times> str list) \<times> 'c sql_database) os_result" where
  "DeleteDatabase E dir origin basename s = os_bind
     (db_run E (units (''UPDATE DatabaseNames SET IsDeleted = 1 '' @ ''WHERE Origin = ? AND Basename = ?''))
       [SqlText origin, SqlText basename] s)
     (\<lambda>(ok, s1). if \<not> ok then Returned ((False, []), s1)
        else case dir of None \<Rightarrow> Returned ((False, []), s1) | Some d \<Rightarrow> Returned ((True, [d @ [47] @ basename]), s1))"

definition stepped_rows :: "sql_outcome \<Rightarrow> sql_value list list" where
  "stepped_rows r = (case r of SqlNotPrepared \<Rightarrow> [] | SqlFailed rows \<Rightarrow> rows | SqlDone rows \<Rightarrow> rows)"

definition DeleteDatabasesForOrigin :: "'c sql_env \<Rightarrow> str option \<Rightarrow> str \<Rightarrow> 'c sql_database \<Rightarrow> (str list \<times> 'c sql_database) os_result" where
  "DeleteDatabasesForOrigin E dir origin s = os_bind
     (db_run E (units ''UPDATE DatabaseNames SET IsDeleted = 1 WHERE Origin = ?'') [SqlText origin] s)
     (\<lambda>(ok, s1). case db_query E (units (''SELECT Basename FROM DatabaseNames'' @ '' WHERE IsDeleted = 1 AND Origin = ?''))
          [SqlText origin] s1 of (r, s2) \<Rightarrow>
        Returned (case dir of None \<Rightarrow> []
          | Some d \<Rightarrow> map (\<lambda>row. d @ [47] @ column_text16_safe (column 0 row)) (stepped_rows r), s2))"

section \<open>Shortcuts\<close>

definition create_icons :: str where
  "create_icons = units (''CREATE TABLE IF NOT EXISTS ShortcutIcon '' @
     ''(ShortcutID INTEGER NOT NULL, IconUrl TEXT NOT NULL,'' @ '' PRIMARY KEY (ShortcutID, IconUrl))'')"

definition MaybeCreateTableVersion4 :: "'c sql_env \<Rightarrow> 'c sql_database \<Rightarrow> (bool \<times> 'c sql_database) os_result" where
  "MaybeCreateTableVersion4 E = tx_chain E (and_then
     (db_Execute E (units (''CREATE TABLE IF NOT EXISTS Shortcut ('' @ '' ShortcutID INTEGER PRIMARY KEY, '' @
       '' Origin TEXT NOT NULL, Name TEXT NOT NULL, '' @ '' AppUrl TEXT NOT NULL, Msg TEXT NOT NULL, '' @
       '' UNIQUE (Origin, Name)'' @ '')'')))
     (db_Execute E create_icons))"

definition MaybeCreateTableVersion5 :: "'c sql_env \<Rightarrow> 'c sql_database \<Rightarrow> (bool \<times> 'c sql_database) os_result" where
  "MaybeCreateTableVersion5 E = tx_chain E (and_then
     (db_Execute E (units (''CREATE TABLE IF NOT EXISTS Shortcut ('' @ '' ShortcutID INTEGER PRIMARY KEY, '' @
       '' Origin TEXT NOT NULL, Name TEXT NOT NULL, '' @ '' AppUrl TEXT NOT NULL, Msg TEXT NOT NULL, '' @
       '' Allow INTEGER NOT NULL, '' @ '' UNIQUE (Origin, Name)'' @ '')'')))
     (db_Execute E create_icons))"

definition MaybeCreateTableVersion6 :: "'c sql_env \<Rightarrow> 'c sql_database \<Rightarrow> (bool \<times> 'c sql_database) os_result" where
  "MaybeCreateTableVersion6 E = tx_chain E
     (db_Execute E (units (''CREATE TABLE IF NOT EXISTS Shortcut ('' @ '' ShortcutID INTEGER PRIMARY KEY, '' @
       '' Origin TEXT NOT NULL, Name TEXT NOT NULL, '' @ '' AppUrl TEXT NOT NULL, Msg TEXT NOT NULL, '' @
       '' Icon16x16Url TEXT NOT NULL,'' @ '' Icon32x32Url TEXT NOT NULL,'' @ '' Icon48x48Url TEXT NOT NULL,'' @
       '' Icon128x128Url TEXT NOT NULL,'' @ '' Allow INTEGER NOT NULL, '' @ '' UNIQUE (Origin, Name)'' @ '')'')))"

definition UpgradeShortcutsToVersion3 :: "'c sql_env \<Rightarrow> 'c sql_database \<Rightarrow> (bool \<times> 'c sql_database) os_result" where
  "UpgradeShortcutsToVersion3 E =
     db_Execute E (units (''CREATE TABLE IF NOT EXISTS Shortcut ('' @ '' Origin TEXT, Name TEXT, '' @
       '' AppUrl TEXT, IcoUrl TEXT, Msg TEXT, '' @ '' PRIMARY KEY (Origin, Name)'' @ '')''))"

definition move_aside :: "'c sql_env \<Rightarrow> 'c sql_database \<Rightarrow> (bool \<times> 'c sql_database) os_result" where
  "move_aside E = db_Execute E (units ''ALTER TABLE Shortcut RENAME TO ShortcutOld'')"

definition drop_old :: "'c sql_env \<Rightarrow> 'c sql_database \<Rightarrow> (bool \<times> 'c sql_database) os_result" where
  "drop_old E = db_Execute E (units ''DROP TABLE ShortcutOld'')"

definition UpgradeFromVersion3ToVersion4 :: "'c sql_env \<Rightarrow> 'c sql_database \<Rightarrow> (bool \<times> 'c sql_database) os_result" where
  "UpgradeFromVersion3ToVersion4 E = tx_chain E (and_then (move_aside E) (and_then (MaybeCreateTableVersion4 E)
     (and_then (db_Execute E (units (''INSERT INTO Shortcut '' @ ''SELECT rowid AS ShortcutID, Origin, Name, '' @
         ''       AppUrl, Msg FROM ShortcutOld'')))
     (and_then (db_Execute E (units (''INSERT INTO ShortcutIcon '' @
         ''SELECT rowid AS ShortcutID, IcoUrl AS IconUrl FROM ShortcutOld'')))
     (drop_old E)))))"

definition UpgradeFromVersion4ToVersion5 :: "'c sql_env \<Rightarrow> 'c sql_database \<Rightarrow> (bool \<times> 'c sql_database) os_result" where
  "UpgradeFromVersion4ToVersion5 E = tx_chain E (and_then (move_aside E) (and_then (MaybeCreateTableVersion5 E)
     (and_then (db_Execute E (units (''INSERT INTO Shortcut '' @ ''SELECT rowid AS ShortcutID, Origin, Name, '' @
         ''       AppUrl, Msg, 1 as Allow FROM ShortcutOld'')))
     (drop_old E))))"

definition insert_version6 :: str where
  "insert_version6 = units (''INSERT INTO Shortcut '' @ ''SELECT rowid AS ShortcutID, Origin, Name, '' @ ''       '') @
     [39, 39] @ units '' AS Icon16x16Url, '' @ [39, 39] @ units '' AS Icon32x32Url, '' @
     [39, 39] @ units '' AS Icon48x48Url, '' @ units ''       '' @ [39, 39] @ units '' AS Icon128x128Url, '' @
     units ''AppUrl, Msg, Allow FROM ShortcutOld''"

definition UpgradeFromVersion5ToVersion6 :: "'c sql_env \<Rightarrow> 'c sql_database \<Rightarrow> (bool \<times> 'c sql_database) os_result" where
  "UpgradeFromVersion5ToVersion6 E = tx_chain E (and_then (move_aside E) (and_then (MaybeCreateTableVersion6 E)
     (and_then (db_Execute E insert_version6)
     (and_then (drop_old E) (db_Execute E (units ''DROP TABLE ShortcutIcon''))))))"

definition DeleteShortcut :: "'c sql_env \<Rightarrow> str \<Rightarrow> str \<Rightarrow> 'c sql_database \<Rightarrow> (bool \<times> 'c sql_database) os_result" where
  "DeleteShortcut E origin name =
     db_run E (units (''DELETE FROM Shortcut '' @ ''WHERE Origin = ? AND Name = ?'')) [SqlText origin, SqlText name]"

definition DeleteShortcuts :: "'c sql_env \<Rightarrow> str \<Rightarrow> 'c sql_database \<Rightarrow> (bool \<times> 'c sql_database) os_result" where
  "DeleteShortcuts E origin = db_run E (units ''DELETE FROM Shortcut WHERE Origin = ?'') [SqlText origin]"

record shortcut =
  app_url :: str
  icon16x16_url :: str
  icon32x32_url :: str
  icon48x48_url :: str
  icon128x128_url :: str
  shortcut_msg :: str
  allow :: bool

definition insert_shortcut :: "'c sql_env \<Rightarrow> str \<Rightarrow> str \<Rightarrow> shortcut \<Rightarrow> 'c sql_database \<Rightarrow> (bool \<times> 'c sql_database) os_result" where
  "insert_shortcut E origin name sc =
     db_run E (units (''INSERT INTO Shortcut '' @ ''(Origin, Name, AppUrl, Msg, Allow, '' @ ''Icon16x16Url, Icon32x32Url, '' @
        ''Icon48x48Url, Icon128x128Url) '' @ ''VALUES (?, ?, ?, ?, ?, ?, ?, ?, ?)''))
       [SqlText origin, SqlText name, SqlText (app_url sc), SqlText (shortcut_msg sc), SqlInt (if allow sc then 1 else 0),
        SqlText (icon16x16_url sc), SqlText (icon32x32_url sc), SqlText (icon48x48_url sc), SqlText (icon128x128_url sc)]"

definition SetShortcut :: "'c sql_env \<Rightarrow> str \<Rightarrow> str \<Rightarrow> shortcut \<Rightarrow> 'c sql_database \<Rightarrow> (bool \<times> 'c sql_database) os_result" where
  "SetShortcut E origin name sc = tx_chain E (and_then (DeleteShortcut E origin name) (insert_shortcut E origin name sc))"

definition text_list :: "'c sql_env \<Rightarrow> str \<Rightarrow> sql_value list \<Rightarrow> 'c sql_database \<Rightarrow> (str list option \<times> 'c sql_database) os_result" where
  "text_list E sql ps s = (case db_query E sql ps s of (r, s1) \<Rightarrow>
     Returned (case r of SqlDone rows \<Rightarrow> Some (map (\<lambda>row. column_text16_safe (column 0 row)) rows) | _ \<Rightarrow> None, s1))"

definition GetOriginsWithShortcuts :: "'c sql_env \<Rightarrow> 'c sql_database \<Rightarrow> (str list option \<times> 'c sql_database) os_result" where
  "GetOriginsWithShortcuts E = text_list E (units ''SELECT DISTINCT(Origin) FROM Shortcut'') []"

definition GetOriginShortcuts :: "'c sql_env \<Rightarrow> str \<Rightarrow> 'c sql_database \<Rightarrow> (str list option \<times> 'c sql_database) os_result" where
  "GetOriginShortcuts E origin = text_list E (units ''SELECT Name FROM Shortcut WHERE Origin = ?'') [SqlText origin]"

definition GetShortcut :: "'c sql_env \<Rightarrow> str \<Rightarrow> str \<Rightarrow> 'c sql_database \<Rightarrow> (shortcut option \<times> 'c sql_database) os_result" where
  "GetShortcut E origin name s =
     (case db_query E (units (''SELECT AppUrl, Msg, Allow, '' @ ''Icon16x16Url, Icon32x32Url, '' @ ''Icon48x48Url, Icon128x128Url '' @
        ''FROM Shortcut '' @ ''WHERE Origin = ? AND Name = ? '')) [SqlText origin, SqlText name] s of (r, s1) \<Rightarrow>
      Returned (case first_step r of
          StepRow row \<Rightarrow> (let txt = (\<lambda>i. column_text16_safe (column i row)) in
            Some \<lparr>app_url = txt 0, icon16x16_url = txt 3, icon32x32_url = txt 4, icon48x48_url = txt 5,
              icon128x128_url = txt 6, shortcut_msg = txt 1, allow = (column_int E (column 2 row) \<noteq> 0)\<rparr>)
        | _ \<Rightarrow> None, s1))"

section \<open>Inside a transaction\<close>

lemmas sql_text = data_text data_keywords_def sql_set_def sql_get_def create_icons_def

lemma nests_db_run [nests_intros]:
  assumes "sql_contract E content saved" "data_sql sql" shows "nests E saved (db_run E sql ps)"
  unfolding db_run_def [abs_def] by (rule nests_query [OF assms]) (rule nests_return)

lemma nests_read:
  assumes "sql_contract E content saved" "data_sql sql"
  shows "nests E saved (\<lambda>s. case db_query E sql ps s of (r, s1) \<Rightarrow> Returned (f r, s1))"
  by (rule nests_query [OF assms]) (rule nests_return)

lemma nests_name_values [nests_intros]:
  assumes "sql_contract E content saved"
  shows "nests E saved (nv_MaybeCreateTable E t)" "nests E saved (nv_SetInt E t name v)" "nests E saved (nv_GetInt E t name)"
    "nests E saved (nv_Clear E t name)" "nests E saved (nv_HasName E t name)"
  unfolding nv_MaybeCreateTable_def nv_SetInt_def nv_GetInt_def [abs_def] nv_Clear_def nv_HasName_def [abs_def]
  by - (rule nests_db_run nests_read assms | simp add: sql_text)+

lemma nests_shortcuts [nests_intros]:
  assumes "sql_contract E content saved"
  shows "nests E saved (MaybeCreateTableVersion4 E)" "nests E saved (MaybeCreateTableVersion5 E)"
    "nests E saved (MaybeCreateTableVersion6 E)" "nests E saved (UpgradeShortcutsToVersion3 E)"
    "nests E saved (move_aside E)" "nests E saved (drop_old E)" "nests E saved (MaybeCreateTableVersion7 E)"
    "nests E saved (DeleteShortcut E origin name)" "nests E saved (insert_shortcut E origin name sc)"
  unfolding MaybeCreateTableVersion4_def MaybeCreateTableVersion5_def MaybeCreateTableVersion6_def
    UpgradeShortcutsToVersion3_def move_aside_def drop_old_def MaybeCreateTableVersion7_def DeleteShortcut_def insert_shortcut_def
  by - (rule nests_intros assms | simp add: sql_text)+

lemma data_version6: "data_sql insert_version6"
  unfolding insert_version6_def by (rule data_text(1)) (simp add: data_keywords_def)

lemma nests_upgrades [nests_intros]:
  assumes "sql_contract E content saved"
  shows "nests E saved (UpgradeFromVersion3ToVersion4 E)" "nests E saved (UpgradeFromVersion4ToVersion5 E)"
    "nests E saved (UpgradeFromVersion5ToVersion6 E)" "nests E saved (SetShortcut E origin name sc)"
proof -
  note N = nests_tx_chain nests_and_then nests_shortcuts [OF assms] nests_execute [OF assms]
  show "nests E saved (UpgradeFromVersion3ToVersion4 E)" unfolding UpgradeFromVersion3ToVersion4_def
    by (intro N) (simp_all add: sql_text)
  show "nests E saved (UpgradeFromVersion4ToVersion5 E)" unfolding UpgradeFromVersion4ToVersion5_def
    by (intro N) (simp_all add: sql_text)
  show "nests E saved (UpgradeFromVersion5ToVersion6 E)" unfolding UpgradeFromVersion5ToVersion6_def
    by (intro N data_version6) (simp add: sql_text)
  show "nests E saved (SetShortcut E origin name sc)" unfolding SetShortcut_def by (intro N)
qed

section \<open>File names\<close>

text \<open>The names of two databases, or of two versions of one, never meet in the same file.\<close>

lemma digits_of_inj: "0 \<le> i \<Longrightarrow> 0 \<le> j \<Longrightarrow> digits_of i = digits_of j \<Longrightarrow> i = j"
  by (metis decimal_digits_of)

lemma digit_bracket: "0 \<le> i \<Longrightarrow> 91 \<notin> set (digits_of i)"
  using digits_of_is_digit [of i] by (auto simp: list_all_iff is_digit_def)

lemma append_bracket_inj:
  "x @ 91 # d = y @ 91 # e \<Longrightarrow> (91 :: int) \<notin> set d \<Longrightarrow> 91 \<notin> set e \<Longrightarrow> x = y \<and> d = e"
  by (auto simp: append_eq_append_conv2 append_eq_Cons_conv Cons_eq_append_conv)

lemma DatabaseFile_version:
  assumes "length buffer = 22" "0 \<le> v" "v < 2 ^ 31"
  shows "DatabaseFile buffer name v =
    Some (if v = 0 then name @ units ''#database'' else name @ units ''#database'' @ 91 # digits_of v @ [93])"
proof -
  have "- (2 ^ (32 - 1)) \<le> v" "v < 2 ^ (32 - 1)" using assms(2,3) by simp_all
  from IntegerToStringT_ok [OF assms(1) _ _ this] show ?thesis
    using assms(2) by (simp add: DatabaseFile_def IntegerToString16_def show_int_def units_def)
qed

text \<open>
  C37. Every database has its own file. For the versions an \<open>int\<close> can count, the file names of two different
  pairs of a database name and a version differ, whatever brackets, digits and \<open>#database\<close> the names of
  the databases contain.
\<close>
theorem database_file_unique:
  assumes "length buffer = 22" "0 \<le> v" "v < 2 ^ 31" "0 \<le> w" "w < 2 ^ 31"
  shows "DatabaseFile buffer x v = DatabaseFile buffer y w \<longleftrightarrow> x = y \<and> v = w"
proof
  assume eq: "DatabaseFile buffer x v = DatabaseFile buffer y w"
  note X = DatabaseFile_version [OF assms(1-3), of x] and Y = DatabaseFile_version [OF assms(1,4,5), of y]
  show "x = y \<and> v = w"
  proof (cases "v = 0 \<longleftrightarrow> w = 0")
    case False
    then show ?thesis using eq X Y by (auto simp: units_def dest: arg_cong [of _ _ last])
  next
    case True
    show ?thesis
    proof (cases "v = 0")
      case True
      then show ?thesis using eq X Y \<open>v = 0 \<longleftrightarrow> w = 0\<close> by simp
    next
      case False
      with eq X Y True have "(x @ units ''#database'') @ 91 # digits_of v = (y @ units ''#database'') @ 91 # digits_of w"
        by simp
      from append_bracket_inj [OF this digit_bracket digit_bracket] digits_of_inj [OF assms(2,4)] assms(2,4) show ?thesis
        by simp
    qed
  qed
qed simp

text \<open>The names the comment in the code worries about.\<close>

lemma database_file_unique_witness:
  "DatabaseFile (replicate 22 0) (units ''x'') 1 \<noteq> DatabaseFile (replicate 22 0) (units ''x[1]'') 0"
  using database_file_unique [of "replicate 22 0" 1 0 "units ''x''" "units ''x[1]''"] by (simp add: units_def)

section \<open>The upgrade to version 6\<close>

text \<open>
  \<open>INSERT INTO ... SELECT\<close> without a list of columns assigns by position: the columns in the order of
  \<open>CREATE TABLE\<close>, the expressions in the order of the \<open>SELECT\<close>, whose \<open>AS\<close> names do not count.
\<close>

datatype sql_expr = SqlColumn string | SqlLiteral str

definition version6_columns :: "string list" where
  "version6_columns = [''ShortcutID'', ''Origin'', ''Name'', ''AppUrl'', ''Msg'', ''Icon16x16Url'', ''Icon32x32Url'',
     ''Icon48x48Url'', ''Icon128x128Url'', ''Allow'']"

definition version6_select :: "sql_expr list" where
  "version6_select = [SqlColumn ''rowid'', SqlColumn ''Origin'', SqlColumn ''Name'', SqlLiteral [], SqlLiteral [],
     SqlLiteral [], SqlLiteral [], SqlColumn ''AppUrl'', SqlColumn ''Msg'', SqlColumn ''Allow'']"

definition insert_select :: "string list \<Rightarrow> sql_expr list \<Rightarrow> (string \<Rightarrow> sql_value) \<Rightarrow> string \<Rightarrow> sql_value option" where
  "insert_select columns exprs row = map_of (zip columns
     (map (\<lambda>e. case e of SqlColumn c \<Rightarrow> row c | SqlLiteral t \<Rightarrow> SqlText t) exprs))"

text \<open>The address of the application and the message end up as the addresses of two icons.\<close>

lemma version6_upgrade_misplaces:
  "insert_select version6_columns version6_select row ''AppUrl'' = Some (SqlText []) \<and>
   insert_select version6_columns version6_select row ''Msg'' = Some (SqlText []) \<and>
   insert_select version6_columns version6_select row ''Icon48x48Url'' = Some (row ''AppUrl'') \<and>
   insert_select version6_columns version6_select row ''Icon128x128Url'' = Some (row ''Msg'')"
  by (simp add: insert_select_def version6_columns_def version6_select_def)

end
