(* ===== verification/PermissionsDb.thy ===== *)
theory PermissionsDb
  imports SqlTables SecurityOrigins
begin

text \<open>
  The database of permissions, \<open>src/common/permissions_db.cc\<close>: how it is created and upgraded inside one
  transaction, and how permissions are read and set; and the decisions that are cached for a page,
  \<open>src/common/permissions_manager.cc\<close>.
\<close>

section \<open>Tables\<close>

definition kLocalDataAccessTableName :: str where "kLocalDataAccessTableName = units ''Access''"
definition kLocationDataAccessTableName :: str where "kLocationDataAccessTableName = units ''LocationAccess''"
definition kSupressDialogsKeyName :: str where "kSupressDialogsKeyName = units ''SupressDialogs''"
definition kVersionTableName :: str where "kVersionTableName = units ''VersionInfo''"
definition kVersionKeyName :: str where "kVersionKeyName = units ''Version''"
definition kCurrentVersion :: int where "kCurrentVersion = 9"

text \<open>
  What is outside of the sources: the metadata of \<open>database2\<close>, the data directory of an origin, and
  whether the thread has a \<open>WebCacheDB\<close>.
\<close>

record 'c perm_env =
  md_MaybeCreateTableLatestVersion :: "'c sql_database \<Rightarrow> (bool \<times> 'c sql_database) os_result"
  md_CreateTableVersion8 :: "'c sql_database \<Rightarrow> (bool \<times> 'c sql_database) os_result"
  data_directory :: "str \<Rightarrow> str option"
  has_web_cache :: bool

datatype PermissionType = PERMISSION_LOCAL_DATA | PERMISSION_LOCATION_DATA

definition PERMISSION_NOT_SET :: int where "PERMISSION_NOT_SET = 0"
definition PERMISSION_ALLOWED :: int where "PERMISSION_ALLOWED = 1"
definition PERMISSION_DENIED :: int where "PERMISSION_DENIED = 2"

definition GetTableForPermissionType :: "PermissionType \<Rightarrow> str" where
  "GetTableForPermissionType type = (case type of
       PERMISSION_LOCAL_DATA \<Rightarrow> kLocalDataAccessTableName
     | PERMISSION_LOCATION_DATA \<Rightarrow> kLocationDataAccessTableName)"

text \<open>\<open>GetInt\<close> into a variable that holds \<open>v\<close>.\<close>

definition read_int :: "'c sql_env \<Rightarrow> str \<Rightarrow> str \<Rightarrow> int \<Rightarrow> 'c sql_database \<Rightarrow> (int \<times> 'c sql_database) os_result" where
  "read_int E t name v s = os_bind (nv_GetInt E t name s)
     (\<lambda>(r, s1). Returned (case r of Some i \<Rightarrow> i | None \<Rightarrow> v, s1))"

section \<open>Creation and upgrade\<close>

definition CreateDatabase :: "'c sql_env \<Rightarrow> 'c perm_env \<Rightarrow> 'c sql_database \<Rightarrow> (bool \<times> 'c sql_database) os_result" where
  "CreateDatabase E P = tx_chain E (and_then (DropAllObjects E)
     (and_then (nv_MaybeCreateTable E kVersionTableName)
     (and_then (nv_MaybeCreateTable E kLocalDataAccessTableName)
     (and_then (nv_MaybeCreateTable E kLocationDataAccessTableName)
     (and_then (MaybeCreateTableVersion6 E)
     (and_then (MaybeCreateTableVersion7 E)
     (and_then (md_MaybeCreateTableLatestVersion P)
     (nv_SetInt E kVersionTableName kVersionKeyName kCurrentVersion))))))))"

definition UpgradeToVersion2 :: "'c sql_env \<Rightarrow> 'c sql_database \<Rightarrow> (bool \<times> 'c sql_database) os_result" where
  "UpgradeToVersion2 E s = os_bind (db_Execute E (units ''DELETE FROM ScourAccess'') s) (\<lambda>(ok, s1). Returned (\<not> ok, s1))"

definition upgrade_case :: "'c sql_env \<Rightarrow> 'c perm_env \<Rightarrow> int \<Rightarrow> 'c sql_database \<Rightarrow> (bool \<times> 'c sql_database) os_result" where
  "upgrade_case E P from_version =
     (if from_version = 1 then UpgradeToVersion2 E
      else if from_version = 2 then UpgradeShortcutsToVersion3 E
      else if from_version = 3 then UpgradeFromVersion3ToVersion4 E
      else if from_version = 4 then UpgradeFromVersion4ToVersion5 E
      else if from_version = 5 then UpgradeFromVersion5ToVersion6 E
      else if from_version = 6 then MaybeCreateTableVersion7 E
      else if from_version = 7 then md_CreateTableVersion8 P
      else nv_MaybeCreateTable E kLocationDataAccessTableName)"

text \<open>The cases of the switch from \<open>from_version\<close> on, each of which falls through to the next.\<close>

fun upgrade_cases :: "'c sql_env \<Rightarrow> 'c perm_env \<Rightarrow> int list \<Rightarrow> 'c sql_database \<Rightarrow> (bool \<times> 'c sql_database) os_result" where
  "upgrade_cases E P [] s = Returned (True, s)"
| "upgrade_cases E P (k # ks) s = and_then (upgrade_case E P k) (upgrade_cases E P ks) s"

definition UpgradeDatabase :: "'c sql_env \<Rightarrow> 'c perm_env \<Rightarrow> int \<Rightarrow> 'c sql_database \<Rightarrow> (bool \<times> 'c sql_database) os_result" where
  "UpgradeDatabase E P from_version s =
     (if debug_build E \<and> (from_version \<ge> kCurrentVersion \<or> \<not> IsInTransaction s) then Aborted
      else let hit = (1 \<le> from_version \<and> from_version \<le> 8)
      in and_then (upgrade_cases E P (if hit then [from_version..8] else []))
           (nv_SetInt E kVersionTableName kVersionKeyName (if hit then 9 else from_version)) s)"

text \<open>The part of \<open>Init\<close> inside the transaction; \<open>failed\<close> is an assertion that fails.\<close>

definition failed :: "'c sql_env \<Rightarrow> 'c sql_database \<Rightarrow> ((tx_exit \<times> unit) \<times> 'c sql_database) os_result" where
  "failed E s = (if debug_build E then Aborted else Returned ((LeaveTx False, ()), s))"

definition InitBody :: "'c sql_env \<Rightarrow> 'c perm_env \<Rightarrow> int \<Rightarrow> 'c sql_database \<Rightarrow> ((tx_exit \<times> unit) \<times> 'c sql_database) os_result" where
  "InitBody E P v0 s = os_bind (read_int E kVersionTableName kVersionKeyName v0 s) (\<lambda>(version, s1).
     if version = kCurrentVersion then Returned ((LeaveTx True, ()), s1)
     else if version > kCurrentVersion then failed E s1
     else os_bind (if version = 0 then CreateDatabase E P s1 else UpgradeDatabase E P version s1) (\<lambda>(ok, s2).
       if \<not> ok then Returned ((LeaveTx False, ()), s2)
       else os_bind (read_int E kVersionTableName kVersionKeyName version s2) (\<lambda>(version1, s3).
         if version1 \<noteq> kCurrentVersion then failed E s3 else Returned ((CommitTx, ()), s3))))"

definition InitSchema :: "'c sql_env \<Rightarrow> 'c perm_env \<Rightarrow> 'c sql_database \<Rightarrow> (bool \<times> 'c sql_database) os_result" where
  "InitSchema E P s = os_bind (read_int E kVersionTableName kVersionKeyName 0 s) (\<lambda>(version, s1).
     if version = kCurrentVersion then Returned (True, s1)
     else os_bind (with_tx E () (InitBody E P version) s1) (\<lambda>((r, u), s2). Returned (r, s2)))"

definition PermissionsDB_Init :: "'c sql_env \<Rightarrow> 'c perm_env \<Rightarrow> str option \<Rightarrow> 'c sql_database \<Rightarrow> (bool \<times> 'c sql_database) os_result" where
  "PermissionsDB_Init E P path s =
     os_bind (SQLDatabase_Open E path s) (\<lambda>(ok, s1). if \<not> ok then Returned (False, s1) else InitSchema E P s1)"

section \<open>Permissions\<close>

definition ShouldSupressDialogs :: "'c sql_env \<Rightarrow> 'c sql_database \<Rightarrow> (bool \<times> 'c sql_database) os_result" where
  "ShouldSupressDialogs E s =
     os_bind (read_int E kVersionTableName kSupressDialogsKeyName 0 s) (\<lambda>(v, s1). Returned (v = 1, s1))"

definition GetPermission :: "'c sql_env \<Rightarrow> str \<Rightarrow> PermissionType \<Rightarrow> 'c sql_database \<Rightarrow> (int \<times> 'c sql_database) os_result" where
  "GetPermission E url type = read_int E (GetTableForPermissionType type) url PERMISSION_NOT_SET"

text \<open>The results are the files of databases and the origins whose servers the code tries to delete.\<close>

definition SetPermission :: "'c sql_env \<Rightarrow> 'c perm_env \<Rightarrow> str \<Rightarrow> PermissionType \<Rightarrow> int \<Rightarrow> 'c sql_database \<Rightarrow>
    ((str list \<times> str list) \<times> 'c sql_database) os_result" where
  "SetPermission E P url type v s =
     (if url = [] then (if debug_build E then Aborted else Returned (([], []), s))
      else os_bind
        (if v = PERMISSION_NOT_SET then nv_Clear E (GetTableForPermissionType type) url s
         else if v = PERMISSION_ALLOWED \<or> v = PERMISSION_DENIED then nv_SetInt E (GetTableForPermissionType type) url v s
         else if debug_build E then Aborted else Returned (False, s))
        (\<lambda>(ok, s1).
          if type = PERMISSION_LOCAL_DATA \<and> (v = PERMISSION_DENIED \<or> v = PERMISSION_NOT_SET)
          then os_bind (DeleteDatabasesForOrigin E (data_directory P url) url s1)
            (\<lambda>(files, s2). Returned ((files, if has_web_cache P then [url] else []), s2))
          else Returned (([], []), s1)))"

fun origins_of :: "web \<Rightarrow> str list \<Rightarrow> SecurityOrigin list option" where
  "origins_of W [] = Some []"
| "origins_of W (u # us) = do {
     (ok, origin) \<leftarrow> InitFromUrl W u SecurityOrigin_new;
     rest \<leftarrow> origins_of W us;
     Some (if ok then origin # rest else rest) }"

definition GetOriginsByValue :: "'c sql_env \<Rightarrow> web \<Rightarrow> int \<Rightarrow> PermissionType \<Rightarrow> 'c sql_database \<Rightarrow>
    (SecurityOrigin list option \<times> 'c sql_database) os_result" where
  "GetOriginsByValue E W v type s =
     (if v \<noteq> PERMISSION_ALLOWED \<and> v \<noteq> PERMISSION_DENIED then Returned (None, s)
      else os_bind (nv_FindNamesByIntValue E (GetTableForPermissionType type) v s) (\<lambda>(names, s1). case names of
          None \<Rightarrow> Returned (None, s1)
        | Some us \<Rightarrow> (case origins_of W us of None \<Rightarrow> Aborted | Some os \<Rightarrow> Returned (Some os, s1))))"

definition TryAllow :: "'c sql_env \<Rightarrow> str \<Rightarrow> PermissionType \<Rightarrow> 'c sql_database \<Rightarrow> (bool \<times> 'c sql_database) os_result" where
  "TryAllow E url type s = os_bind (GetPermission E url type s) (\<lambda>(v, s1).
     if v = PERMISSION_ALLOWED then Returned (True, s1)
     else if v = PERMISSION_DENIED then Returned (False, s1)
     else if v = PERMISSION_NOT_SET then nv_SetInt E (GetTableForPermissionType type) url PERMISSION_ALLOWED s1
     else Returned (False, s1))"

definition allow_if_host :: "'c sql_env \<Rightarrow> str \<Rightarrow> str \<Rightarrow> PermissionType \<Rightarrow> 'c sql_database \<Rightarrow> (bool \<times> 'c sql_database) os_result" where
  "allow_if_host E worker parent type s = os_bind (GetPermission E parent type s) (\<lambda>(v, s1).
     if v = PERMISSION_ALLOWED then TryAllow E worker type s1 else Returned (True, s1))"

definition EnableGearsForWorker :: "'c sql_env \<Rightarrow> str \<Rightarrow> str \<Rightarrow> 'c sql_database \<Rightarrow> (bool \<times> 'c sql_database) os_result" where
  "EnableGearsForWorker E worker parent = tx_chain E
     (and_then (allow_if_host E worker parent PERMISSION_LOCAL_DATA) (allow_if_host E worker parent PERMISSION_LOCATION_DATA))"

text \<open>The query, and a row of its result as the permissions of an origin.\<close>

definition select_sorted :: str where
  "select_sorted = units (''SELECT Name, Storage, Location '' @
     ''         FROM (SELECT Access.Name AS Name, '' @
     ''                   LocationAccess.Value AS Location, '' @
     ''                   Access.Value AS Storage FROM '' @
     ''                   Access LEFT OUTER JOIN LocationAccess ON '' @
     ''                   Access.Name = LocationAccess.Name '' @
     ''               UNION '' @
     ''               SELECT DISTINCT LocationAccess.Name, '' @
     ''                   LocationAccess.Value AS Location, '' @
     ''                   null AS Storage '' @
     ''                   FROM LocationAccess '' @
     ''                   WHERE LocationAccess.Name NOT IN '' @
     ''                       (SELECT Access.Name FROM Access)) '' @
     ''         ORDER BY '' @
     ''         ((coalesce(Location, 2) + coalesce(Storage, 2)) < 4) '' @
     ''         DESC, Name'')"

definition origin_permissions :: "'c sql_env \<Rightarrow> sql_value list \<Rightarrow> str \<times> (PermissionType \<times> int) list" where
  "origin_permissions E row =
     (let storage = column_int E (column 1 row); location = column_int E (column 2 row)
      in (column_text16_safe (column 0 row),
          (if storage \<noteq> PERMISSION_NOT_SET then [(PERMISSION_LOCAL_DATA, storage)] else []) @
          (if location \<noteq> PERMISSION_NOT_SET then [(PERMISSION_LOCATION_DATA, location)] else [])))"

definition sorted_row_ok :: "'c sql_env \<Rightarrow> sql_value list \<Rightarrow> bool" where
  "sorted_row_ok E row = (column 0 row \<noteq> SqlNull \<and> (debug_build E \<longrightarrow> snd (origin_permissions E row) \<noteq> []))"

definition GetPermissionsSorted :: "'c sql_env \<Rightarrow> 'c sql_database \<Rightarrow>
    ((str \<times> (PermissionType \<times> int) list) list option \<times> 'c sql_database) os_result" where
  "GetPermissionsSorted E s = (case db_query E select_sorted [] s of (r, s1) \<Rightarrow>
     if \<not> list_all (sorted_row_ok E) (stepped_rows r) then Aborted
     else Returned (case r of SqlDone rows \<Rightarrow> Some (map (origin_permissions E) rows) | _ \<Rightarrow> None, s1))"

section \<open>Shortcuts of an origin\<close>

text \<open>A change of the shortcuts is announced: the topics of the notifications are a result.\<close>

definition kShortcutsChangedTopic :: str where "kShortcutsChangedTopic = units ''base:permissions:shortcuts-changed''"

definition announced :: "('c sql_database \<Rightarrow> (bool \<times> 'c sql_database) os_result) \<Rightarrow> 'c sql_database \<Rightarrow>
    ((bool \<times> str list) \<times> 'c sql_database) os_result" where
  "announced f s = os_bind (f s) (\<lambda>(ok, s1). Returned ((ok, if ok then [kShortcutsChangedTopic] else []), s1))"

definition perm_SetShortcut :: "'c sql_env \<Rightarrow> str \<Rightarrow> str \<Rightarrow> shortcut \<Rightarrow> 'c sql_database \<Rightarrow>
    ((bool \<times> str list) \<times> 'c sql_database) os_result" where
  "perm_SetShortcut E url name sc = announced (SetShortcut E url name sc)"

definition perm_DeleteShortcut :: "'c sql_env \<Rightarrow> str \<Rightarrow> str \<Rightarrow> 'c sql_database \<Rightarrow>
    ((bool \<times> str list) \<times> 'c sql_database) os_result" where
  "perm_DeleteShortcut E url name = announced (DeleteShortcut E url name)"

definition perm_DeleteShortcuts :: "'c sql_env \<Rightarrow> str \<Rightarrow> 'c sql_database \<Rightarrow> ((bool \<times> str list) \<times> 'c sql_database) os_result" where
  "perm_DeleteShortcuts E url = announced (DeleteShortcuts E url)"

definition perm_GetOriginsWithShortcuts :: "'c sql_env \<Rightarrow> web \<Rightarrow> 'c sql_database \<Rightarrow>
    (SecurityOrigin list option \<times> 'c sql_database) os_result" where
  "perm_GetOriginsWithShortcuts E W s = os_bind (GetOriginsWithShortcuts E s) (\<lambda>(us, s1). case us of
       None \<Rightarrow> Returned (None, s1)
     | Some us \<Rightarrow> (case origins_of W us of None \<Rightarrow> Aborted | Some os \<Rightarrow> Returned (Some os, s1)))"

section \<open>The database of a thread\<close>

text \<open>The thread-local value is absent, or the database, or null when it could not be initialised.\<close>

definition PermissionsDB_GetDB :: "'c sql_env \<Rightarrow> 'c perm_env \<Rightarrow> str option \<Rightarrow> 'c sql_database option option \<Rightarrow>
    ('c sql_database option \<times> 'c sql_database option option) os_result" where
  "PermissionsDB_GetDB E P path slot = (case slot of
       Some db \<Rightarrow> Returned (db, slot)
     | None \<Rightarrow> os_bind (PermissionsDB_Init E P path SQLDatabase_new) (\<lambda>(ok, s).
         let db = (if ok then Some s else None) in Returned (db, Some db)))"

section \<open>The decisions of a page\<close>

datatype PermissionState = NOT_SET | ALLOWED_PERMANENTLY | ALLOWED_TEMPORARILY | DENIED_PERMANENTLY | DENIED_TEMPORARILY

record permissions_manager =
  permission_state :: "PermissionType \<Rightarrow> PermissionState option"
  security_origin :: SecurityOrigin

definition ConvertStateToBool :: "PermissionState \<Rightarrow> bool" where
  "ConvertStateToBool state = (case state of ALLOWED_PERMANENTLY \<Rightarrow> True | ALLOWED_TEMPORARILY \<Rightarrow> True | _ \<Rightarrow> False)"

definition ConvertValueToState :: "'c sql_env \<Rightarrow> int \<Rightarrow> PermissionState os_result" where
  "ConvertValueToState E v =
     (if v = PERMISSION_ALLOWED then Returned ALLOWED_PERMANENTLY
      else if v = PERMISSION_DENIED then Returned DENIED_PERMANENTLY
      else if v = PERMISSION_NOT_SET \<or> \<not> debug_build E then Returned NOT_SET else Aborted)"

text \<open>\<open>db\<close> is the database of the thread, if it could be opened.\<close>

definition GetPriorDecision :: "'c sql_env \<Rightarrow> PermissionType \<Rightarrow> 'c sql_database option \<Rightarrow> permissions_manager \<Rightarrow>
    (PermissionState \<times> 'c sql_database option \<times> permissions_manager) os_result" where
  "GetPriorDecision E type db pm = (case permission_state pm type of
       Some st \<Rightarrow> Returned (st, db, pm)
     | None \<Rightarrow> (case db of None \<Rightarrow> Returned (NOT_SET, db, pm)
         | Some s \<Rightarrow> os_bind (GetPermission E (so_url (security_origin pm)) type s) (\<lambda>(v, s1).
             os_bind (ConvertValueToState E v) (\<lambda>st.
               Returned (st, Some s1, pm\<lparr>permission_state := (permission_state pm)(type \<mapsto> st)\<rparr>)))))"

definition HasPermission :: "'c sql_env \<Rightarrow> web \<Rightarrow> PermissionType \<Rightarrow> 'c sql_database option \<Rightarrow> permissions_manager \<Rightarrow>
    (bool \<times> 'c sql_database option \<times> permissions_manager) os_result" where
  "HasPermission E W type db pm = os_bind (GetPriorDecision E type db pm) (\<lambda>(st, db1, pm1).
     if ConvertStateToBool st then Returned (True, db1, pm1)
     else case IsAuthorizedOrigin W (security_origin pm1) of None \<Rightarrow> Aborted | Some b \<Rightarrow> Returned (b, db1, pm1))"

definition ImportPermissions :: "permissions_manager \<Rightarrow> permissions_manager \<Rightarrow> permissions_manager" where
  "ImportPermissions other pm = pm\<lparr>permission_state := permission_state other\<rparr>"

section \<open>Inside a transaction\<close>

lemma nests_read_int [nests_intros]:
  assumes "sql_contract E content saved" shows "nests E saved (read_int E t name v)"
  unfolding read_int_def [abs_def] by (rule nests_bind nests_name_values assms nests_return)+

definition perm_env_ok :: "'c sql_env \<Rightarrow> ('c \<Rightarrow> 'd option) \<Rightarrow> 'c perm_env \<Rightarrow> bool" where
  "perm_env_ok E saved P \<longleftrightarrow> nests E saved (md_MaybeCreateTableLatestVersion P) \<and> nests E saved (md_CreateTableVersion8 P)"

lemma nests_CreateDatabase:
  assumes "sql_contract E content saved" "perm_env_ok E saved P" shows "nests E saved (CreateDatabase E P)"
proof -
  have "nests E saved (md_MaybeCreateTableLatestVersion P)" using assms(2) by (simp add: perm_env_ok_def)
  then show ?thesis unfolding CreateDatabase_def
    by (intro nests_tx_chain nests_and_then nests_DropAllObjects [OF assms(1)] nests_name_values [OF assms(1)]
        nests_shortcuts [OF assms(1)])
qed

lemma nests_upgrade_cases:
  assumes "sql_contract E content saved" "perm_env_ok E saved P" shows "nests E saved (upgrade_cases E P ks)"
proof -
  have "nests E saved (db_Execute E (units ''DELETE FROM ScourAccess''))"
    by (rule nests_execute [OF assms(1)]) (simp add: sql_text)
  then have 2: "nests E saved (UpgradeToVersion2 E)" unfolding UpgradeToVersion2_def [abs_def]
    by (rule nests_bind) (rule nests_return)
  have md: "nests E saved (md_CreateTableVersion8 P)" using assms(2) by (simp add: perm_env_ok_def)
  have k: "nests E saved (upgrade_case E P k)" for k
    using 2 md nests_shortcuts [OF assms(1)] nests_upgrades [OF assms(1)] nests_name_values [OF assms(1)]
    by (simp add: upgrade_case_def)
  show ?thesis
  proof (induction ks)
    case Nil
    show ?case using nests_return [of E saved True] by (simp add: upgrade_cases.simps(1) [abs_def])
  next
    case (Cons k' ks)
    from nests_and_then [OF k Cons.IH] show ?case by (simp add: upgrade_cases.simps(2) [abs_def])
  qed
qed

lemma nests_UpgradeDatabase:
  assumes "sql_contract E content saved" "perm_env_ok E saved P" "\<not> debug_build E"
  shows "nests E saved (UpgradeDatabase E P v)"
  unfolding UpgradeDatabase_def [abs_def] Let_def using assms(3)
  by (simp add: nests_and_then nests_upgrade_cases [OF assms(1,2)] nests_name_values [OF assms(1)] cong: if_cong)

lemma nests_InitBody:
  assumes "sql_contract E content saved" "perm_env_ok E saved P" "\<not> debug_build E"
  shows "nests E saved (InitBody E P v)"
proof -
  have f: "nests E saved (failed E)" using assms(3) by (simp add: failed_def [abs_def] nests_return)
  show ?thesis unfolding InitBody_def [abs_def]
    by (intro nests_bind nests_if nests_return f nests_read_int [OF assms(1)] nests_CreateDatabase [OF assms(1,2)]
        nests_UpgradeDatabase [OF assms])
qed

lemma nests_allow_if_host:
  assumes "sql_contract E content saved" shows "nests E saved (allow_if_host E worker parent type)"
proof -
  have "nests E saved (TryAllow E worker type)" unfolding TryAllow_def [abs_def] GetPermission_def
    by (intro nests_bind nests_if nests_return nests_read_int [OF assms] nests_name_values [OF assms])
  then show ?thesis unfolding allow_if_host_def [abs_def] GetPermission_def
    by (intro nests_bind nests_if nests_return nests_read_int [OF assms])
qed

section \<open>Reading and writing values\<close>

text \<open>
  What the statements of \<open>NameValueTable\<close> do: \<open>perm d t n\<close> is the value of the name \<open>n\<close> in the table \<open>t\<close>
  of the content \<open>d\<close>. Reads do not fail.
\<close>

definition reads_values :: "'c sql_env \<Rightarrow> ('c \<Rightarrow> 'd) \<Rightarrow> ('d \<Rightarrow> str \<Rightarrow> str \<Rightarrow> int option) \<Rightarrow> bool" where
  "reads_values E content perm \<longleftrightarrow> (\<forall>t name c r c'.
     t \<in> {kVersionTableName, kLocalDataAccessTableName, kLocationDataAccessTableName} \<longrightarrow>
     sq_query E (sql_get t) [SqlText name] c = (r, c') \<longrightarrow> content c' = content c \<and>
     (case first_step r of
        StepRow row \<Rightarrow> perm (content c) t name = Some (column_int E (column 0 row))
      | StepDone \<Rightarrow> perm (content c) t name = None
      | StepError \<Rightarrow> False))"

definition writes_values :: "'c sql_env \<Rightarrow> ('c \<Rightarrow> 'd) \<Rightarrow> ('d \<Rightarrow> str \<Rightarrow> str \<Rightarrow> int option) \<Rightarrow> bool" where
  "writes_values E content perm \<longleftrightarrow> (\<forall>t name v c r c'.
     t \<in> {kLocalDataAccessTableName, kLocationDataAccessTableName} \<longrightarrow>
     sq_query E (sql_set t) [SqlText name, SqlInt v] c = (r, c') \<longrightarrow> first_step r = StepDone \<longrightarrow>
     perm (content c') = (perm (content c))(t := (perm (content c) t)(name \<mapsto> v)))"

lemma read_int_value:
  assumes "reads_values E content perm" "db_content content s = Some d"
    and "t \<in> {kVersionTableName, kLocalDataAccessTableName, kLocationDataAccessTableName}"
    and "read_int E t name v s = Returned (i, s1)"
  shows "db_content content s1 = Some d" "i = (case perm d t name of Some x \<Rightarrow> x | None \<Rightarrow> v)"
proof -
  obtain c where c: "db_handle s = Some c" "content c = d" using assms(2) by (auto simp: db_content_def)
  obtain r c' where q: "sq_query E (sql_get t) [SqlText name] c = (r, c')" by (cases "sq_query E (sql_get t) [SqlText name] c")
  have law: "content c' = content c \<and> (case first_step r of
        StepRow row \<Rightarrow> perm (content c) t name = Some (column_int E (column 0 row))
      | StepDone \<Rightarrow> perm (content c) t name = None | StepError \<Rightarrow> False)"
    using assms(1) assms(3) q unfolding reads_values_def by blast
  from assms(4) c q have s1: "s1 = set_handle c' s" "i = (case first_step r of StepRow row \<Rightarrow> column_int E (column 0 row) | _ \<Rightarrow> v)"
    by (auto simp: read_int_def nv_GetInt_def db_query_def split: step_result.splits)
  show "db_content content s1 = Some d" using law c s1 by (simp add: db_content_def)
  show "i = (case perm d t name of Some x \<Rightarrow> x | None \<Rightarrow> v)" using law c s1 by (auto split: step_result.splits)
qed

lemma nv_SetInt_value:
  assumes "writes_values E content perm" "db_content content s = Some d"
    and "t \<in> {kLocalDataAccessTableName, kLocationDataAccessTableName}"
    and "nv_SetInt E t name v s = Returned (True, s1)"
  shows "\<exists>d'. db_content content s1 = Some d' \<and> perm d' = (perm d)(t := (perm d t)(name \<mapsto> v))"
proof -
  obtain c where c: "db_handle s = Some c" "content c = d" using assms(2) by (auto simp: db_content_def)
  obtain r c' where q: "sq_query E (sql_set t) [SqlText name, SqlInt v] c = (r, c')"
    by (cases "sq_query E (sql_set t) [SqlText name, SqlInt v] c")
  from assms(4) c q have s1: "s1 = set_handle c' s" "first_step r = StepDone"
    by (auto simp: nv_SetInt_def db_run_def db_query_def)
  with assms(1) assms(3) q have "perm (content c') = (perm (content c))(t := (perm (content c) t)(name \<mapsto> v))"
    unfolding writes_values_def by blast
  with s1 c show ?thesis by (simp add: db_content_def)
qed

text \<open>A read outside of a transaction.\<close>

lemma read_int_idle:
  assumes "sql_contract E content saved" "tx_idle E saved s"
  obtains i s1 where "read_int E t name v s = Returned (i, s1)" "tx_idle E saved s1"
proof -
  obtain c where c: "db_handle s = Some c" "saved c = None" using assms(2) by (auto simp: tx_idle_def)
  obtain r c' where q: "sq_query E (sql_get t) [SqlText name] c = (r, c')" by (cases "sq_query E (sql_get t) [SqlText name] c")
  have "data_sql (sql_get t)" by (simp add: sql_text)
  from sql_contractD(9) [OF assms(1) this, of "[SqlText name]" c] q c(2) have "saved c' = None" by simp
  then have idle: "tx_idle E saved (set_handle c' s)" using assms(2) by (simp add: tx_idle_def)
  have "\<exists>i. read_int E t name v s = Returned (i, set_handle c' s)"
    using c q by (simp add: read_int_def nv_GetInt_def db_query_def)
  then show ?thesis using that idle by blast
qed

section \<open>Properties\<close>

lemma kCurrentVersion_pos: "kCurrentVersion \<noteq> 0"
  by (simp add: kCurrentVersion_def)

text \<open>What a run of the body tells about the version.\<close>

lemma InitBody_version:
  assumes "sql_contract E content saved" "perm_env_ok E saved P" "\<not> debug_build E" "reads_values E content perm"
    and "tx_open E saved 1 d s" "db_content content s = Some d" "v \<noteq> kCurrentVersion"
    and "InitBody E P v s = Returned ((x, out), s')"
  shows "case x of LeaveTx r \<Rightarrow> r \<longrightarrow> perm d kVersionTableName kVersionKeyName = Some kCurrentVersion
    | CommitTx \<Rightarrow> \<exists>d'. db_content content s' = Some d' \<and> perm d' kVersionTableName kVersionKeyName = Some kCurrentVersion"
proof -
  obtain version s1 where s1: "read_int E kVersionTableName kVersionKeyName v s = Returned (version, s1)" "tx_open E saved 1 d s1"
    by (rule nestsE [OF nests_read_int [OF assms(1)] assms(5)])
  have t: "kVersionTableName \<in> {kVersionTableName, kLocalDataAccessTableName, kLocationDataAccessTableName}" by simp
  note R1 = read_int_value [OF assms(4,6) t s1(1)]
  consider "version = kCurrentVersion" | "version > kCurrentVersion" | "version < kCurrentVersion" by linarith
  then show ?thesis
  proof cases
    case 1
    with R1(2) assms(7) have "perm d kVersionTableName kVersionKeyName = Some kCurrentVersion" by (simp split: option.splits)
    then show ?thesis using assms(8) s1(1) 1 by (auto simp: InitBody_def)
  next
    case 2
    then show ?thesis using assms(3,8) s1(1) by (auto simp: InitBody_def failed_def)
  next
    case 3
    have n: "nests E saved (\<lambda>s. if version = 0 then CreateDatabase E P s else UpgradeDatabase E P version s)"
      by (rule nests_if [OF nests_CreateDatabase [OF assms(1,2)] nests_UpgradeDatabase [OF assms(1-3)]])
    obtain ok s2 where s2: "(if version = 0 then CreateDatabase E P s1 else UpgradeDatabase E P version s1) = Returned (ok, s2)"
      "tx_open E saved 1 d s2" by (rule nestsE [OF n s1(2)])
    obtain version1 s3 where s3: "read_int E kVersionTableName kVersionKeyName version s2 = Returned (version1, s3)"
      by (rule nestsE [OF nests_read_int [OF assms(1)] s2(2)])
    have run: "InitBody E P v s = (if \<not> ok then Returned ((LeaveTx False, ()), s2)
        else if version1 \<noteq> kCurrentVersion then failed E s3 else Returned ((CommitTx, ()), s3))"
      using s1(1) 3 s2(1) s3 by (simp add: InitBody_def)
    show ?thesis
    proof (cases "ok \<and> version1 = kCurrentVersion")
      case True
      obtain d2 where d2: "db_content content s2 = Some d2" using s2(2) by (auto simp: tx_open_def db_content_def)
      from read_int_value [OF assms(4) d2 t s3] True 3 have "db_content content s3 = Some d2"
        "perm d2 kVersionTableName kVersionKeyName = Some kCurrentVersion" by (auto split: option.splits)
      then show ?thesis using run True assms(8) by auto
    next
      case False
      then show ?thesis using run assms(3,8) by (auto simp: failed_def split: if_splits)
    qed
  qed
qed



text \<open>What \<open>allow_if_host\<close> does to the tables, when it returns true.\<close>

definition granted :: "('d \<Rightarrow> str \<Rightarrow> str \<Rightarrow> int option) \<Rightarrow> str \<Rightarrow> str \<Rightarrow> str set \<Rightarrow> 'd \<Rightarrow> 'd \<Rightarrow> bool" where
  "granted perm worker parent ts d d' \<longleftrightarrow>
     (\<forall>t n. perm d' t n = (if t \<in> ts \<and> n = worker \<and> perm d t parent = Some PERMISSION_ALLOWED then Some PERMISSION_ALLOWED
        else perm d t n)) \<and>
     (\<forall>t\<in>ts. perm d t parent = Some PERMISSION_ALLOWED \<longrightarrow>
        perm d t worker \<in> {None, Some PERMISSION_NOT_SET, Some PERMISSION_ALLOWED})"

lemma table_cases: "GetTableForPermissionType type \<in> {kLocalDataAccessTableName, kLocationDataAccessTableName}"
  by (cases type) (simp_all add: GetTableForPermissionType_def)

lemma allow_if_host_grants:
  assumes "sql_contract E content saved" "reads_values E content perm" "writes_values E content perm"
    and "tx_open E saved n d0 s" "db_content content s = Some d" "allow_if_host E worker parent type s = Returned (True, s')"
  shows "\<exists>d'. db_content content s' = Some d' \<and> granted perm worker parent {GetTableForPermissionType type} d d'"
proof -
  let ?t = "GetTableForPermissionType type"
  have t: "?t \<in> {kVersionTableName, kLocalDataAccessTableName, kLocationDataAccessTableName}" using table_cases [of type] by blast
  obtain v s1 where s1: "read_int E ?t parent PERMISSION_NOT_SET s = Returned (v, s1)" "tx_open E saved n d0 s1"
    by (rule nestsE [OF nests_read_int [OF assms(1)] assms(4)])
  note R1 = read_int_value [OF assms(2,5) t s1(1)]
  show ?thesis
  proof (cases "v = PERMISSION_ALLOWED")
    case False
    then have "perm d ?t parent \<noteq> Some PERMISSION_ALLOWED" using R1(2) by auto
    then show ?thesis using assms(6) s1(1) False R1(1) by (auto simp: allow_if_host_def GetPermission_def granted_def)
  next
    case True
    then have parent: "perm d ?t parent = Some PERMISSION_ALLOWED" using R1(2)
      by (auto simp: PERMISSION_ALLOWED_def PERMISSION_NOT_SET_def split: option.splits)
    obtain w s2 where s2: "read_int E ?t worker PERMISSION_NOT_SET s1 = Returned (w, s2)"
      by (rule nestsE [OF nests_read_int [OF assms(1)] s1(2)])
    note R2 = read_int_value [OF assms(2) R1(1) t s2]
    have run: "TryAllow E worker type s1 = Returned (True, s')" using assms(6) s1(1) True
      by (simp add: allow_if_host_def GetPermission_def)
    show ?thesis
    proof (cases "w = PERMISSION_ALLOWED")
      case True
      then have "perm d ?t worker = Some PERMISSION_ALLOWED" using R2(2)
        by (auto simp: PERMISSION_ALLOWED_def PERMISSION_NOT_SET_def split: option.splits)
      then show ?thesis using run s2 True R2(1) parent by (auto simp: TryAllow_def GetPermission_def granted_def)
    next
      case False
      with run s2 have w: "w = PERMISSION_NOT_SET" "nv_SetInt E ?t worker PERMISSION_ALLOWED s2 = Returned (True, s')"
        by (auto simp: TryAllow_def GetPermission_def split: if_splits)
      from nv_SetInt_value [OF assms(3) R2(1) table_cases w(2)] obtain d' where
        d': "db_content content s' = Some d'" "perm d' = (perm d)(?t := (perm d ?t)(worker \<mapsto> PERMISSION_ALLOWED))" by blast
      have "perm d ?t worker \<in> {None, Some PERMISSION_NOT_SET}" using R2(2) w(1) by (auto split: option.splits)
      then show ?thesis using d' parent by (auto simp: granted_def)
    qed
  qed
qed

lemma granted_two:
  assumes "granted perm worker parent {t1} d d1" "granted perm worker parent {t2} d1 d2" "t1 \<noteq> t2"
  shows "granted perm worker parent {t1, t2} d d2"
  using assms unfolding granted_def by auto


section \<open>The decisions of a page are kept\<close>

text \<open>
  A page asks the database once. After \<open>HasPermission\<close> has looked a permission up, every later call gives the
  same answer and does not touch the database, whatever has been written to it since.
\<close>
theorem has_permission_sticky:
  assumes "HasPermission E W type (Some s) pm = Returned (b, db1, pm1)"
  shows "HasPermission E W type db2 pm1 = Returned (b, db2, pm1)"
proof -
  obtain st where st: "GetPriorDecision E type (Some s) pm = Returned (st, db1, pm1)"
    using assms by (auto simp: HasPermission_def split: if_splits option.splits)
  then have cached: "permission_state pm1 type = Some st"
    by (auto simp: GetPriorDecision_def split: option.splits)
  with st assms show ?thesis by (auto simp: HasPermission_def GetPriorDecision_def split: if_splits option.splits)
qed

section \<open>A connection in memory\<close>

text \<open>The values of the three tables, with the statements of \<open>NameValueTable\<close>.\<close>

definition kv_tables :: "str list" where
  "kv_tables = [kVersionTableName, kLocalDataAccessTableName, kLocationDataAccessTableName]"

definition kv_perm :: "((str \<times> str) \<times> int) list \<Rightarrow> str \<Rightarrow> str \<Rightarrow> int option" where
  "kv_perm d t name = map_of d (t, name)"

definition kv_query :: "str \<Rightarrow> sql_value list \<Rightarrow> ((str \<times> str) \<times> int) list \<times> ((str \<times> str) \<times> int) list option \<Rightarrow>
    sql_outcome \<times> ((str \<times> str) \<times> int) list \<times> ((str \<times> str) \<times> int) list option" where
  "kv_query sql ps c = (case ps of
       [SqlText name] \<Rightarrow> (case find (\<lambda>t. sql_get t = sql) kv_tables of
           Some t \<Rightarrow> (SqlDone (case kv_perm (fst c) t name of Some v \<Rightarrow> [[SqlInt v]] | None \<Rightarrow> []), c)
         | None \<Rightarrow> (SqlDone [], c))
     | [SqlText name, SqlInt v] \<Rightarrow> (case find (\<lambda>t. sql_set t = sql) kv_tables of
           Some t \<Rightarrow> (SqlDone [], ((t, name), v) # fst c, snd c)
         | None \<Rightarrow> (SqlDone [], c))
     | _ \<Rightarrow> (SqlDone [], c))"

definition kv_env :: "(((str \<times> str) \<times> int) list \<times> ((str \<times> str) \<times> int) list option) sql_env" where
  "kv_env = \<lparr>sq_open = (\<lambda>path. Some ([], None)), sq_busy_timeout = (\<lambda>t c. (True, c)), sq_exec = mem_exec,
     sq_query = kv_query, sq_int = (\<lambda>t. 0), debug_build = False, this_thread = 1\<rparr>"

lemma kv_query_saved: "snd (snd (kv_query sql ps c)) = snd c"
  by (simp add: kv_query_def split: list.splits sql_value.splits option.splits)

lemma kv_env_contract: "sql_contract kv_env fst snd"
  by (auto simp: sql_contract_def kv_env_def kv_query_saved mem_exec_def data_sql_def data_keywords_def units_def)

lemma find_inj: "inj f \<Longrightarrow> t \<in> set ts \<Longrightarrow> find (\<lambda>u. f u = f t) ts = Some t"
  by (induction ts) (auto simp: inj_eq)

lemma sql_inj: "inj sql_get" "inj sql_set"
  by (auto intro!: injI simp: sql_get_def sql_set_def)

lemma kv_query_get:
  "t \<in> set kv_tables \<Longrightarrow> kv_query (sql_get t) [SqlText name] c =
     (SqlDone (case kv_perm (fst c) t name of Some v \<Rightarrow> [[SqlInt v]] | None \<Rightarrow> []), c)"
  by (simp add: kv_query_def find_inj [OF sql_inj(1)])

lemma kv_query_set:
  "t \<in> set kv_tables \<Longrightarrow> kv_query (sql_set t) [SqlText name, SqlInt v] c = (SqlDone [], ((t, name), v) # fst c, snd c)"
  by (simp add: kv_query_def find_inj [OF sql_inj(2)])

lemma kv_env_reads: "reads_values kv_env fst kv_perm"
  unfolding reads_values_def
proof (intro allI impI)
  fix t name c r c'
  assume "t \<in> {kVersionTableName, kLocalDataAccessTableName, kLocationDataAccessTableName}"
    and q: "sq_query kv_env (sql_get t) [SqlText name] c = (r, c')"
  then have "t \<in> set kv_tables" by (simp add: kv_tables_def)
  with q have "c' = c" "r = SqlDone (case kv_perm (fst c) t name of Some v \<Rightarrow> [[SqlInt v]] | None \<Rightarrow> [])"
    using kv_query_get [of t name c] by (auto simp: kv_env_def)
  then show "fst c' = fst c \<and> (case first_step r of
        StepRow row \<Rightarrow> kv_perm (fst c) t name = Some (column_int kv_env (column 0 row))
      | StepDone \<Rightarrow> kv_perm (fst c) t name = None | StepError \<Rightarrow> False)"
    by (cases "kv_perm (fst c) t name") (simp_all add: first_step_def column_def column_int_def)
qed

lemma kv_env_writes: "writes_values kv_env fst kv_perm"
  unfolding writes_values_def
proof (intro allI impI)
  fix t name v c r c'
  assume "t \<in> {kLocalDataAccessTableName, kLocationDataAccessTableName}"
    and q: "sq_query kv_env (sql_set t) [SqlText name, SqlInt v] c = (r, c')"
  then have "t \<in> set kv_tables" by (auto simp: kv_tables_def)
  with q have "fst c' = ((t, name), v) # fst c" using kv_query_set [of t name v c] by (auto simp: kv_env_def)
  then show "kv_perm (fst c') = (kv_perm (fst c))(t := (kv_perm (fst c) t)(name \<mapsto> v))"
    by (auto simp: kv_perm_def fun_eq_iff)
qed

lemmas kv_env_values = kv_env_reads kv_env_writes

definition kv_start :: "((str \<times> str) \<times> int) list \<Rightarrow>
    (((str \<times> str) \<times> int) list \<times> ((str \<times> str) \<times> int) list option) sql_database" where
  "kv_start d = SQLDatabase_new\<lparr>db_handle := Some (d, None)\<rparr>"

lemma kv_start_idle: "tx_idle kv_env snd (kv_start d)"
  by (simp add: tx_idle_def kv_start_def SQLDatabase_new_def)

definition kv_perm_env :: "(((str \<times> str) \<times> int) list \<times> ((str \<times> str) \<times> int) list option) perm_env" where
  "kv_perm_env = \<lparr>md_MaybeCreateTableLatestVersion = (\<lambda>s. Returned (True, s)),
     md_CreateTableVersion8 = (\<lambda>s. Returned (True, s)), data_directory = (\<lambda>u. None), has_web_cache = False\<rparr>"

lemma kv_perm_env_ok: "perm_env_ok kv_env snd kv_perm_env"
  by (simp add: perm_env_ok_def kv_perm_env_def nests_return)



definition kv_begun :: "(((str \<times> str) \<times> int) list \<times> ((str \<times> str) \<times> int) list option) sql_database" where
  "kv_begun = SQLDatabase_new\<lparr>db_handle := Some ([], Some []), transaction_count := 1\<rparr>"


definition authorized_page :: permissions_manager where
  "authorized_page = \<lparr>permission_state = (\<lambda>type. None), security_origin = SecurityOrigin_new\<lparr>so_url := [112]\<rparr>\<rparr>"

definition asked_page :: permissions_manager where
  "asked_page = authorized_page\<lparr>permission_state := [PERMISSION_LOCAL_DATA \<mapsto> ALLOWED_PERMANENTLY]\<rparr>"

lemma has_permission_sticky_witness:
  "HasPermission kv_env simple_web PERMISSION_LOCAL_DATA (Some (kv_start [((kLocalDataAccessTableName, [112]), 2)])) asked_page =
     Returned (True, Some (kv_start [((kLocalDataAccessTableName, [112]), 2)]), asked_page)"
proof -
  have "HasPermission kv_env simple_web PERMISSION_LOCAL_DATA (Some (kv_start [((kLocalDataAccessTableName, [112]), 1)])) authorized_page =
      Returned (True, Some (kv_start [((kLocalDataAccessTableName, [112]), 1)]), asked_page)"
    by (simp add: HasPermission_def GetPriorDecision_def authorized_page_def asked_page_def GetPermission_def read_int_def
        nv_GetInt_def db_query_def kv_start_def SQLDatabase_new_def kv_env_def kv_query_def kv_tables_def kv_perm_def
        GetTableForPermissionType_def find_inj sql_get_def kVersionTableName_def kLocalDataAccessTableName_def units_def
        first_step_def column_def column_int_def set_handle_def ConvertValueToState_def PERMISSION_ALLOWED_def
        ConvertStateToBool_def SecurityOrigin_new_def)
  from has_permission_sticky [OF this] show ?thesis .
qed

end
