(* ===== verification/JsMarshal.thy ===== *)
theory JsMarshal
  imports UrlUtils "HOL-Library.List_Lexorder" "HOL-Library.AList"
begin

text \<open>
  Values of JavaScript as they are passed between workers, \<open>src/common/js_marshal.cc\<close>: a graph of tokens
  of one engine is copied to a tree, which is restored in another engine. The engines are parameters.
\<close>

section \<open>Engine\<close>

datatype JsParamType = JSPARAM_BOOL | JSPARAM_INT | JSPARAM_DOUBLE | JSPARAM_STRING16 | JSPARAM_OBJECT
  | JSPARAM_ARRAY | JSPARAM_FUNCTION | JSPARAM_NULL | JSPARAM_UNDEFINED | JSPARAM_OTHER

text \<open>
  What \<open>Marshal\<close> asks the engine about a token of type \<open>'t\<close>; \<open>'m\<close> is a marshaled module, which not all
  modules can give. Reading does not change the graph. A double is the word of its bits.
\<close>

record ('t, 'm) js_runner =
  JsTokenType :: "'t \<Rightarrow> JsParamType"
  JsTokenToBool :: "'t \<Rightarrow> bool option"
  JsTokenToInt :: "'t \<Rightarrow> int option"
  JsTokenToDouble :: "'t \<Rightarrow> 64 word option"
  JsTokenToString :: "'t \<Rightarrow> str option"
  JsTokenToModule :: "'t \<Rightarrow> 'm option option"
  JsTokenToObject :: "'t \<Rightarrow> bool"
  JsTokenToArray :: "'t \<Rightarrow> bool"
  GetPropertyNames :: "'t \<Rightarrow> str list option"
  GetProperty :: "'t \<Rightarrow> str \<Rightarrow> 't option"
  GetLength :: "'t \<Rightarrow> nat option"
  GetElement :: "'t \<Rightarrow> nat \<Rightarrow> 't option"
  AbstractJsTokensAreEqual :: "'t \<Rightarrow> 't \<Rightarrow> bool"

section \<open>Marshaled tokens\<close>

text \<open>The members of an object are in the order of their names, as in a \<open>std::map\<close>; an array may have holes.\<close>

datatype 'm marshaled =
    MBool bool
  | MInt int
  | MDouble "64 word"
  | MString str
  | MObject "(str \<times> 'm marshaled) list"
  | MArray "'m marshaled option list"
  | MModule 'm
  | MNull
  | MUndefined

fun map_put :: "str \<Rightarrow> 'v \<Rightarrow> (str \<times> 'v) list \<Rightarrow> (str \<times> 'v) list" where
  "map_put k v [] = [(k, v)]"
| "map_put k v (p # ps) =
     (if k = fst p then (k, v) # ps else if k < fst p then (k, v) # p # ps else p # map_put k v ps)"

text \<open>The messages of the errors; some failures set none.\<close>

datatype marshal_error = ArbitraryModule | CyclicObject | JsFunction | ArbitraryToken | NoMessage

section \<open>Marshal\<close>

definition CausesCycle :: "('t, 'm) js_runner \<Rightarrow> 't \<Rightarrow> 't list \<Rightarrow> bool" where
  "CausesCycle R t stack = list_ex (AbstractJsTokensAreEqual R t) stack"

definition from_option :: "('a \<Rightarrow> 'm marshaled) \<Rightarrow> 'a option \<Rightarrow> (marshal_error + 'm marshaled) option" where
  "from_option f v = Some (case v of None \<Rightarrow> Inl NoMessage | Some x \<Rightarrow> Inr (f x))"

text \<open>
  The loops of \<open>InitializeFromObject\<close> and \<open>InitializeFromArray\<close>; \<open>f\<close> marshals a member and has no result
  when it does not return.
\<close>

fun object_loop :: "('t \<Rightarrow> (marshal_error + 'm marshaled) option) \<Rightarrow> ('t, 'm) js_runner \<Rightarrow> 't \<Rightarrow> str list \<Rightarrow>
    (str \<times> 'm marshaled) list \<Rightarrow> (marshal_error + 'm marshaled) option" where
  "object_loop f R t [] ms = Some (Inr (MObject ms))"
| "object_loop f R t (n # ns) ms = (case GetProperty R t n of
       None \<Rightarrow> Some (Inl NoMessage)
     | Some p \<Rightarrow> (case f p of
           None \<Rightarrow> None
         | Some (Inl e) \<Rightarrow> Some (Inl e)
         | Some (Inr v) \<Rightarrow> object_loop f R t ns (map_put n v ms)))"

fun array_loop :: "('t \<Rightarrow> (marshal_error + 'm marshaled) option) \<Rightarrow> ('t, 'm) js_runner \<Rightarrow> 't \<Rightarrow> nat list \<Rightarrow>
    'm marshaled option list \<Rightarrow> (marshal_error + 'm marshaled) option" where
  "array_loop f R t [] a = Some (Inr (MArray a))"
| "array_loop f R t (i # is) a = (case GetElement R t i of
       None \<Rightarrow> array_loop f R t is (a @ [None])
     | Some p \<Rightarrow> (case f p of
           None \<Rightarrow> None
         | Some (Inl e) \<Rightarrow> Some (Inl e)
         | Some (Inr v) \<Rightarrow> array_loop f R t is (a @ [Some v])))"

definition InitializeFromObject :: "('t \<Rightarrow> (marshal_error + 'm marshaled) option) \<Rightarrow> ('t, 'm) js_runner \<Rightarrow> 't \<Rightarrow>
    (marshal_error + 'm marshaled) option" where
  "InitializeFromObject f R t = (case GetPropertyNames R t of
       None \<Rightarrow> Some (Inl NoMessage) | Some ns \<Rightarrow> object_loop f R t ns [])"

definition InitializeFromArray :: "('t \<Rightarrow> (marshal_error + 'm marshaled) option) \<Rightarrow> ('t, 'm) js_runner \<Rightarrow> 't \<Rightarrow>
    (marshal_error + 'm marshaled) option" where
  "InitializeFromArray f R t = (case GetLength R t of
       None \<Rightarrow> Some (Inl NoMessage) | Some n \<Rightarrow> array_loop f R t [0..<n] [])"

text \<open>One call, with the recursive call as an argument, which gets the stack with the token on it.\<close>

definition marshal_token :: "('t list \<Rightarrow> 't \<Rightarrow> (marshal_error + 'm marshaled) option) \<Rightarrow> ('t, 'm) js_runner \<Rightarrow> 't list \<Rightarrow> 't \<Rightarrow>
    (marshal_error + 'm marshaled) option" where
  "marshal_token rec R stack t = (case JsTokenType R t of
       JSPARAM_BOOL \<Rightarrow> from_option MBool (JsTokenToBool R t)
     | JSPARAM_INT \<Rightarrow> from_option MInt (JsTokenToInt R t)
     | JSPARAM_DOUBLE \<Rightarrow> from_option MDouble (JsTokenToDouble R t)
     | JSPARAM_STRING16 \<Rightarrow> from_option MString (JsTokenToString R t)
     | JSPARAM_OBJECT \<Rightarrow> (case JsTokenToModule R t of
           Some (Some m) \<Rightarrow> Some (Inr (MModule m))
         | Some None \<Rightarrow> Some (Inl ArbitraryModule)
         | None \<Rightarrow> if CausesCycle R t stack then Some (Inl CyclicObject)
             else if JsTokenToObject R t then InitializeFromObject (rec (stack @ [t])) R t
             else Some (Inl NoMessage))
     | JSPARAM_ARRAY \<Rightarrow>
         if CausesCycle R t stack then Some (Inl CyclicObject)
         else if JsTokenToArray R t then InitializeFromArray (rec (stack @ [t])) R t
         else Some (Inl NoMessage)
     | JSPARAM_FUNCTION \<Rightarrow> Some (Inl JsFunction)
     | JSPARAM_NULL \<Rightarrow> Some (Inr MNull)
     | JSPARAM_UNDEFINED \<Rightarrow> Some (Inr MUndefined)
     | JSPARAM_OTHER \<Rightarrow> Some (Inl ArbitraryToken))"

text \<open>\<open>depth\<close> bounds the recursion; without it the calls on an endless graph would not return.\<close>

primrec marshal :: "('t, 'm) js_runner \<Rightarrow> nat \<Rightarrow> 't list \<Rightarrow> 't \<Rightarrow> (marshal_error + 'm marshaled) option" where
  "marshal R 0 = (\<lambda>stack t. None)"
| "marshal R (Suc depth) = marshal_token (marshal R depth) R"

definition Marshal :: "('t, 'm) js_runner \<Rightarrow> nat \<Rightarrow> 't \<Rightarrow> (marshal_error + 'm marshaled) option" where
  "Marshal R depth t = marshal R depth [] t"

section \<open>Unmarshal\<close>

text \<open>
  What \<open>Unmarshal\<close> calls of the engine that restores a token; its state \<open>'s\<close> is the graph of its tokens.
\<close>

record ('s, 't, 'm) js_engine =
  BoolToJsToken :: "bool \<Rightarrow> 's \<Rightarrow> ('t \<times> 's) option"
  IntToJsToken :: "int \<Rightarrow> 's \<Rightarrow> ('t \<times> 's) option"
  DoubleToJsToken :: "64 word \<Rightarrow> 's \<Rightarrow> ('t \<times> 's) option"
  StringToJsToken :: "str \<Rightarrow> 's \<Rightarrow> ('t \<times> 's) option"
  NullToJsToken :: "'s \<Rightarrow> ('t \<times> 's) option"
  UndefinedToJsToken :: "'s \<Rightarrow> ('t \<times> 's) option"
  ModuleUnmarshal :: "'m \<Rightarrow> 's \<Rightarrow> ('t \<times> 's) option"
  NewObject :: "'s \<Rightarrow> ('t \<times> 's) option"
  NewArray :: "'s \<Rightarrow> ('t \<times> 's) option"
  SetProperty :: "'t \<Rightarrow> str \<Rightarrow> 't \<Rightarrow> 's \<Rightarrow> 's option"
  SetElement :: "'t \<Rightarrow> nat \<Rightarrow> 't \<Rightarrow> 's \<Rightarrow> 's option"

fun fill_object :: "('m marshaled \<Rightarrow> 's \<Rightarrow> ('t \<times> 's) option) \<Rightarrow> ('s, 't, 'm) js_engine \<Rightarrow> 't \<Rightarrow>
    (str \<times> 'm marshaled) list \<Rightarrow> 's \<Rightarrow> 's option" where
  "fill_object f E t [] s = Some s"
| "fill_object f E t (p # ps) s = do {
     (v, s1) \<leftarrow> f (snd p) s;
     s2 \<leftarrow> SetProperty E t (fst p) v s1;
     fill_object f E t ps s2 }"

fun fill_array :: "('m marshaled \<Rightarrow> 's \<Rightarrow> ('t \<times> 's) option) \<Rightarrow> ('s, 't, 'm) js_engine \<Rightarrow> 't \<Rightarrow> nat \<Rightarrow>
    'm marshaled option list \<Rightarrow> 's \<Rightarrow> 's option" where
  "fill_array f E t i [] s = Some s"
| "fill_array f E t i (None # vs) s = fill_array f E t (Suc i) vs s"
| "fill_array f E t i (Some m # vs) s = do {
     (v, s1) \<leftarrow> f m s;
     s2 \<leftarrow> SetElement E t i v s1;
     fill_array f E t (Suc i) vs s2 }"

lemma fill_object_eq:
  "(\<And>p s. p \<in> set ps \<Longrightarrow> f (snd p) s = g (snd p) s) \<Longrightarrow> fill_object f E t ps s = fill_object g E t ps s"
proof (induction ps arbitrary: s)
  case (Cons p ps)
  have "f (snd p) s = g (snd p) s" by (rule Cons.prems) simp
  moreover have "fill_object f E t ps = fill_object g E t ps" by (rule ext, rule Cons.IH) (simp add: Cons.prems)
  ultimately show ?case by simp
qed simp

lemma fill_array_eq:
  "(\<And>m s. Some m \<in> set vs \<Longrightarrow> f m s = g m s) \<Longrightarrow> fill_array f E t i vs s = fill_array g E t i vs s"
proof (induction vs arbitrary: i s)
  case (Cons v vs)
  have "fill_array f E t i vs = fill_array g E t i vs" for i by (rule ext, rule Cons.IH) (simp add: Cons.prems)
  then show ?case using Cons.prems by (cases v) simp_all
qed simp

lemma fill_object_cong [fundef_cong]:
  "ps = ps' \<Longrightarrow> E = E' \<Longrightarrow> t = t' \<Longrightarrow> s = s' \<Longrightarrow> (\<And>p s. p \<in> set ps' \<Longrightarrow> f (snd p) s = g (snd p) s) \<Longrightarrow>
     fill_object f E t ps s = fill_object g E' t' ps' s'"
  by hypsubst (rule fill_object_eq)

lemma fill_array_cong [fundef_cong]:
  "vs = vs' \<Longrightarrow> E = E' \<Longrightarrow> t = t' \<Longrightarrow> i = i' \<Longrightarrow> s = s' \<Longrightarrow> (\<And>m s. Some m \<in> set vs' \<Longrightarrow> f m s = g m s) \<Longrightarrow>
     fill_array f E t i vs s = fill_array g E' t' i' vs' s'"
  by hypsubst (rule fill_array_eq)

lemma member_size [termination_simp]:
  "p \<in> set ps \<Longrightarrow> size (snd p) < Suc (size_list (size_prod (\<lambda>_. 0) size) ps)"
  "Some m \<in> set vs \<Longrightarrow> size m < Suc (size_list (size_option size) vs)"
proof -
  show "p \<in> set ps \<Longrightarrow> size (snd p) < Suc (size_list (size_prod (\<lambda>_. 0) size) ps)"
    using size_list_estimation' [of p ps "size (snd p)" "size_prod (\<lambda>_. 0) size"] by (cases p) simp
  show "Some m \<in> set vs \<Longrightarrow> size m < Suc (size_list (size_option size) vs)"
    by (induction vs) auto
qed

fun unmarshal :: "('s, 't, 'm) js_engine \<Rightarrow> 'm marshaled \<Rightarrow> 's \<Rightarrow> ('t \<times> 's) option" where
  "unmarshal E (MObject ps) s = do {
     (t, s1) \<leftarrow> NewObject E s;
     s2 \<leftarrow> fill_object (unmarshal E) E t ps s1;
     Some (t, s2) }"
| "unmarshal E (MArray vs) s = do {
     (t, s1) \<leftarrow> NewArray E s;
     s2 \<leftarrow> fill_array (unmarshal E) E t 0 vs s1;
     Some (t, s2) }"
| "unmarshal E (MBool b) s = BoolToJsToken E b s"
| "unmarshal E (MInt i) s = IntToJsToken E i s"
| "unmarshal E (MDouble d) s = DoubleToJsToken E d s"
| "unmarshal E (MString x) s = StringToJsToken E (c_str x) s"
| "unmarshal E (MModule m) s = ModuleUnmarshal E m s"
| "unmarshal E MNull s = NullToJsToken E s"
| "unmarshal E MUndefined s = UndefinedToJsToken E s"

section \<open>Reference\<close>

text \<open>The tree that a token stands for, without a stack: the graph is unfolded from the token.\<close>

definition build_map :: "(str \<times> 'v) list \<Rightarrow> (str \<times> 'v) list" where
  "build_map ps = fold (\<lambda>p ms. map_put (fst p) (snd p) ms) ps []"

definition plain_object :: "('t, 'm) js_runner \<Rightarrow> 't \<Rightarrow> bool" where
  "plain_object R t \<longleftrightarrow> JsTokenType R t = JSPARAM_OBJECT \<and> JsTokenToModule R t = None \<and> JsTokenToObject R t"

definition plain_array :: "('t, 'm) js_runner \<Rightarrow> 't \<Rightarrow> bool" where
  "plain_array R t \<longleftrightarrow> JsTokenType R t = JSPARAM_ARRAY \<and> JsTokenToArray R t"

inductive denotes :: "('t, 'm) js_runner \<Rightarrow> 't \<Rightarrow> 'm marshaled \<Rightarrow> bool" for R where
  d_bool: "JsTokenType R t = JSPARAM_BOOL \<Longrightarrow> JsTokenToBool R t = Some b \<Longrightarrow> denotes R t (MBool b)"
| d_int: "JsTokenType R t = JSPARAM_INT \<Longrightarrow> JsTokenToInt R t = Some i \<Longrightarrow> denotes R t (MInt i)"
| d_double: "JsTokenType R t = JSPARAM_DOUBLE \<Longrightarrow> JsTokenToDouble R t = Some d \<Longrightarrow> denotes R t (MDouble d)"
| d_string: "JsTokenType R t = JSPARAM_STRING16 \<Longrightarrow> JsTokenToString R t = Some s \<Longrightarrow> denotes R t (MString s)"
| d_module: "JsTokenType R t = JSPARAM_OBJECT \<Longrightarrow> JsTokenToModule R t = Some (Some m) \<Longrightarrow> denotes R t (MModule m)"
| d_null: "JsTokenType R t = JSPARAM_NULL \<Longrightarrow> denotes R t MNull"
| d_undefined: "JsTokenType R t = JSPARAM_UNDEFINED \<Longrightarrow> denotes R t MUndefined"
| d_object: "plain_object R t \<Longrightarrow> GetPropertyNames R t = Some ns \<Longrightarrow>
    list_all2 (\<lambda>n v. \<exists>p. GetProperty R t n = Some p \<and> denotes R p v) ns vs \<Longrightarrow>
    denotes R t (MObject (build_map (zip ns vs)))"
| d_array: "plain_array R t \<Longrightarrow> GetLength R t = Some n \<Longrightarrow>
    list_all2 (\<lambda>i v. (GetElement R t i = None \<and> v = None) \<or>
      (\<exists>p w. GetElement R t i = Some p \<and> v = Some w \<and> denotes R p w)) [0..<n] vs \<Longrightarrow>
    denotes R t (MArray vs)"

text \<open>The members of a token.\<close>

definition child :: "('t, 'm) js_runner \<Rightarrow> 't \<Rightarrow> 't \<Rightarrow> bool" where
  "child R t p \<longleftrightarrow> (plain_object R t \<and> (\<exists>ns n. GetPropertyNames R t = Some ns \<and> n \<in> set ns \<and> GetProperty R t n = Some p)) \<or>
     (plain_array R t \<and> (\<exists>n i. GetLength R t = Some n \<and> i < n \<and> GetElement R t i = Some p))"

section \<open>The loops\<close>

abbreviation put_all :: "(str \<times> 'v) list \<Rightarrow> (str \<times> 'v) list \<Rightarrow> (str \<times> 'v) list" where
  "put_all ps ms \<equiv> fold (\<lambda>p ms. map_put (fst p) (snd p) ms) ps ms"

lemma object_loop_Inr:
  "object_loop f R t ns ms = Some (Inr m) \<longleftrightarrow>
     (\<exists>vs. list_all2 (\<lambda>n v. \<exists>p. GetProperty R t n = Some p \<and> f p = Some (Inr v)) ns vs \<and> m = MObject (put_all (zip ns vs) ms))"
proof (induction ns arbitrary: ms)
  case Nil
  show ?case by auto
next
  case (Cons n ns)
  show ?case
  proof (cases "GetProperty R t n")
    case None
    then show ?thesis by (auto simp: list_all2_Cons1)
  next
    case (Some p)
    show ?thesis
    proof (cases "\<exists>v. f p = Some (Inr v)")
      case True
      then obtain v where "f p = Some (Inr v)" by blast
      with Some Cons.IH [of "map_put n v ms"] show ?thesis by (auto simp: list_all2_Cons1)
    next
      case False
      with Some show ?thesis by (auto simp: list_all2_Cons1 split: option.splits sum.splits)
    qed
  qed
qed

definition element_is :: "('t \<Rightarrow> (marshal_error + 'm marshaled) option) \<Rightarrow> ('t, 'm) js_runner \<Rightarrow> 't \<Rightarrow> nat \<Rightarrow> 'm marshaled option \<Rightarrow> bool" where
  "element_is f R t i v \<longleftrightarrow> (GetElement R t i = None \<and> v = None) \<or>
     (\<exists>p w. GetElement R t i = Some p \<and> v = Some w \<and> f p = Some (Inr w))"

lemma array_loop_Inr:
  "array_loop f R t is a = Some (Inr m) \<longleftrightarrow> (\<exists>vs. list_all2 (element_is f R t) is vs \<and> m = MArray (a @ vs))"
proof (induction "is" arbitrary: a)
  case Nil
  show ?case by auto
next
  case (Cons i "is")
  show ?case
  proof (cases "GetElement R t i")
    case None
    then have "element_is f R t i v \<longleftrightarrow> v = None" for v by (simp add: element_is_def)
    with None Cons.IH [of "a @ [None]"] show ?thesis by (auto simp: list_all2_Cons1)
  next
    case (Some p)
    then have e: "element_is f R t i v \<longleftrightarrow> (\<exists>w. v = Some w \<and> f p = Some (Inr w))" for v by (auto simp: element_is_def)
    show ?thesis
    proof (cases "\<exists>w. f p = Some (Inr w)")
      case True
      then obtain w where w: "f p = Some (Inr w)" by blast
      with Some e Cons.IH [of "a @ [Some w]"] show ?thesis by (auto simp: list_all2_Cons1)
    next
      case False
      with Some e show ?thesis by (auto simp: list_all2_Cons1 split: option.splits sum.splits)
    qed
  qed
qed

lemma object_loop_None:
  "object_loop f R t ns ms = None \<Longrightarrow> \<exists>n p. n \<in> set ns \<and> GetProperty R t n = Some p \<and> f p = None"
proof (induction ns arbitrary: ms)
  case (Cons n ns)
  show ?case
  proof (cases "\<exists>p. GetProperty R t n = Some p \<and> f p = None")
    case False
    with Cons.prems obtain v where "object_loop f R t ns (map_put n v ms) = None"
      by (auto split: option.splits sum.splits)
    from Cons.IH [OF this] show ?thesis by auto
  qed auto
qed simp

lemma array_loop_None:
  "array_loop f R t is a = None \<Longrightarrow> \<exists>i p. i \<in> set is \<and> GetElement R t i = Some p \<and> f p = None"
proof (induction "is" arbitrary: a)
  case (Cons i "is")
  show ?case
  proof (cases "\<exists>p. GetElement R t i = Some p \<and> f p = None")
    case False
    with Cons.prems obtain v where "array_loop f R t is (a @ [v]) = None"
      by (auto split: option.splits sum.splits)
    from Cons.IH [OF this] show ?thesis by auto
  qed auto
qed simp

text \<open>More depth does not change a result.\<close>

lemma object_loop_mono:
  "(\<And>p r. f p = Some r \<Longrightarrow> g p = Some r) \<Longrightarrow> object_loop f R t ns ms = Some r \<Longrightarrow> object_loop g R t ns ms = Some r"
  by (induction ns arbitrary: ms) (auto split: option.splits sum.splits)

lemma array_loop_mono:
  "(\<And>p r. f p = Some r \<Longrightarrow> g p = Some r) \<Longrightarrow> array_loop f R t is a = Some r \<Longrightarrow> array_loop g R t is a = Some r"
  by (induction "is" arbitrary: a) (auto split: option.splits sum.splits)

lemma marshal_token_mono:
  assumes "\<And>stack p r. f stack p = Some r \<Longrightarrow> g stack p = Some r" "marshal_token f R stack t = Some r"
  shows "marshal_token g R stack t = Some r"
proof -
  have o: "InitializeFromObject (f st) R t = Some r \<Longrightarrow> InitializeFromObject (g st) R t = Some r" for st r
    using object_loop_mono [of "f st" "g st"] assms(1) by (auto simp: InitializeFromObject_def split: option.splits)
  have a: "InitializeFromArray (f st) R t = Some r \<Longrightarrow> InitializeFromArray (g st) R t = Some r" for st r
    using array_loop_mono [of "f st" "g st"] assms(1) by (auto simp: InitializeFromArray_def split: option.splits)
  show ?thesis using assms(2) o a by (cases "JsTokenType R t") (auto simp: marshal_token_def split: option.splits if_splits)
qed

lemma marshal_mono: "marshal R k stack t = Some r \<Longrightarrow> k \<le> k' \<Longrightarrow> marshal R k' stack t = Some r"
proof (induction k arbitrary: k' stack t r)
  case (Suc k)
  then obtain k1 where k1: "k' = Suc k1" "k \<le> k1" by (cases k') auto
  have "marshal_token (marshal R k1) R stack t = Some r"
  proof (rule marshal_token_mono)
    show "marshal_token (marshal R k) R stack t = Some r" using Suc.prems(1) by simp
    show "marshal R k1 st p = Some q" if "marshal R k st p = Some q" for st p q by (rule Suc.IH [OF that k1(2)])
  qed
  with k1 show ?case by simp
qed simp

section \<open>Properties\<close>

definition equal_tokens :: "('t, 'm) js_runner \<Rightarrow> bool" where
  "equal_tokens R \<longleftrightarrow> (\<forall>t u. AbstractJsTokensAreEqual R t u \<longleftrightarrow> t = u)"

lemma CausesCycle_iff: "equal_tokens R \<Longrightarrow> CausesCycle R t stack \<longleftrightarrow> t \<in> set stack"
  by (auto simp: CausesCycle_def equal_tokens_def list_ex_iff)

lemma marshal_sound: "marshal R k stack t = Some (Inr m) \<Longrightarrow> denotes R t m"
proof (induction k arbitrary: stack t m)
  case (Suc k)
  let ?f = "marshal R k (stack @ [t])"
  have run: "marshal_token (marshal R k) R stack t = Some (Inr m)" using Suc.prems by simp
  show ?case
  proof (cases "JsTokenType R t = JSPARAM_OBJECT \<and> JsTokenToModule R t = None \<or> JsTokenType R t = JSPARAM_ARRAY")
    case False
    with run show ?thesis
      by (cases "JsTokenType R t") (auto simp: marshal_token_def from_option_def intro: denotes.intros split: option.splits)
  next
    case True
    then show ?thesis
    proof
      assume ty: "JsTokenType R t = JSPARAM_OBJECT \<and> JsTokenToModule R t = None"
      with run have o: "plain_object R t" "InitializeFromObject ?f R t = Some (Inr m)"
        by (auto simp: marshal_token_def plain_object_def split: if_splits)
      then obtain ns where ns: "GetPropertyNames R t = Some ns" "object_loop ?f R t ns [] = Some (Inr m)"
        by (auto simp: InitializeFromObject_def split: option.splits)
      then obtain vs where vs: "list_all2 (\<lambda>n v. \<exists>p. GetProperty R t n = Some p \<and> ?f p = Some (Inr v)) ns vs"
        "m = MObject (build_map (zip ns vs))" by (auto simp: object_loop_Inr build_map_def)
      have "list_all2 (\<lambda>n v. \<exists>p. GetProperty R t n = Some p \<and> denotes R p v) ns vs"
        by (rule list_all2_mono [OF vs(1)]) (use Suc.IH in blast)
      from denotes.d_object [OF o(1) ns(1) this] vs(2) show ?thesis by simp
    next
      assume ty: "JsTokenType R t = JSPARAM_ARRAY"
      with run have a: "plain_array R t" "InitializeFromArray ?f R t = Some (Inr m)"
        by (auto simp: marshal_token_def plain_array_def split: if_splits)
      then obtain n where n: "GetLength R t = Some n" "array_loop ?f R t [0..<n] [] = Some (Inr m)"
        by (auto simp: InitializeFromArray_def split: option.splits)
      then obtain vs where vs: "list_all2 (element_is ?f R t) [0..<n] vs" "m = MArray vs" by (auto simp: array_loop_Inr)
      have "list_all2 (\<lambda>i v. (GetElement R t i = None \<and> v = None) \<or>
          (\<exists>p w. GetElement R t i = Some p \<and> v = Some w \<and> denotes R p w)) [0..<n] vs"
        by (rule list_all2_mono [OF vs(1)]) (use Suc.IH in \<open>auto simp: element_is_def\<close>)
      from denotes.d_array [OF a(1) n(1) this] vs(2) show ?thesis by simp
    qed
  qed
qed simp

text \<open>A token that stands for a tree has no path back to itself.\<close>

lemma denotes_children:
  assumes "denotes R t m" "child R t p"
  shows "\<exists>v. denotes R p v"
  using assms(1)
proof cases
  case (d_object ns vs)
  from assms(2) d_object(2) obtain n where n: "n \<in> set ns" "GetProperty R t n = Some p"
    using d_object(3) by (auto simp: child_def plain_object_def plain_array_def)
  then obtain i where "i < length ns" "ns ! i = n" by (auto simp: in_set_conv_nth)
  with d_object(4) n(2) show ?thesis by (fastforce simp: list_all2_conv_all_nth)
next
  case (d_array n vs)
  from assms(2) d_array(2) obtain i where i: "i < n" "GetElement R t i = Some p"
    using d_array(3) by (auto simp: child_def plain_object_def plain_array_def)
  with d_array(4) show ?thesis by (fastforce simp: list_all2_conv_all_nth)
qed (use assms(2) in \<open>auto simp: child_def plain_object_def plain_array_def\<close>)

lemma denotes_acc: "denotes R t m \<Longrightarrow> Wellfounded.accp (\<lambda>p t. child R t p) t"
proof (induction rule: denotes.induct)
  case (d_object t ns vs)
  show ?case
  proof (rule accp.accI)
    fix p
    assume "child R t p"
    with d_object(1,2) obtain n where n: "n \<in> set ns" "GetProperty R t n = Some p"
      by (auto simp: child_def plain_object_def plain_array_def)
    then obtain i where "i < length ns" "ns ! i = n" by (auto simp: in_set_conv_nth)
    with d_object(3) n(2) show "Wellfounded.accp (\<lambda>p t. child R t p) p" by (fastforce simp: list_all2_conv_all_nth)
  qed
next
  case (d_array t n vs)
  show ?case
  proof (rule accp.accI)
    fix p
    assume "child R t p"
    with d_array(1,2) obtain i where i: "i < n" "GetElement R t i = Some p"
      by (auto simp: child_def plain_object_def plain_array_def)
    with d_array(3) show "Wellfounded.accp (\<lambda>p t. child R t p) p" by (fastforce simp: list_all2_conv_all_nth)
  qed
qed (rule accp.accI, simp add: child_def plain_object_def plain_array_def)+

lemma acc_no_cycle:
  assumes "Wellfounded.accp (\<lambda>p t. child R t p) t" shows "\<not> (child R)\<^sup>+\<^sup>+ t t"
  using assms
proof (induction rule: accp.induct)
  case (accI t)
  show ?case
  proof
    assume "(child R)\<^sup>+\<^sup>+ t t"
    then obtain p where p: "child R t p" "(child R)\<^sup>*\<^sup>* p t" by (auto dest: tranclpD)
    then have "(child R)\<^sup>+\<^sup>+ p p" by (metis rtranclp_into_tranclp1)
    with accI.IH [OF p(1)] show False by blast
  qed
qed

text \<open>A common depth for all the members.\<close>

lemma list_all2_depth:
  assumes "list_all2 (\<lambda>x y. \<exists>k. Q k x y) xs ys" "\<And>k k' x y. Q k x y \<Longrightarrow> k \<le> k' \<Longrightarrow> Q k' x y"
  shows "\<exists>k :: nat. list_all2 (Q k) xs ys"
  using assms(1)
proof (induction rule: list_all2_induct)
  case (Cons x xs y ys)
  then obtain k1 k2 where k: "Q k1 x y" "list_all2 (Q k2) xs ys" by blast
  have "list_all2 (Q (max k1 k2)) xs ys" by (rule list_all2_mono [OF k(2)]) (rule assms(2), auto)
  moreover have "Q (max k1 k2) x y" by (rule assms(2) [OF k(1)]) simp
  ultimately show ?case by auto
qed simp

lemma element_is_mono:
  "element_is (marshal R k stack) R t i v \<Longrightarrow> k \<le> k' \<Longrightarrow> element_is (marshal R k' stack) R t i v"
  by (auto simp: element_is_def intro: marshal_mono)

lemma denotes_reach:
  assumes "(child R)\<^sup>*\<^sup>* t a" "denotes R t m" shows "\<exists>v. denotes R a v"
  using assms(1)
proof (induction rule: rtranclp_induct)
  case base
  show ?case using assms(2) by blast
next
  case (step b c)
  from step.IH obtain v where "denotes R b v" by blast
  from denotes_children [OF this step.hyps(2)] show ?case .
qed

lemma marshal_complete:
  "denotes R t m \<Longrightarrow> equal_tokens R \<Longrightarrow> \<forall>a\<in>set stack. (child R)\<^sup>+\<^sup>+ a t \<Longrightarrow> \<exists>k. marshal R k stack t = Some (Inr m)"
proof (induction arbitrary: stack rule: denotes.induct)
  case (d_object t ns vs)
  have acc: "denotes R t (MObject (build_map (zip ns vs)))"
    by (rule denotes.d_object [OF d_object(1,2)], rule list_all2_mono [OF d_object(3)]) blast
  have no: "\<not> CausesCycle R t stack" using acc_no_cycle [OF denotes_acc [OF acc]] d_object(4,5) by (auto simp: CausesCycle_iff)
  have "list_all2 (\<lambda>n v. \<exists>k. \<exists>p. GetProperty R t n = Some p \<and> marshal R k (stack @ [t]) p = Some (Inr v)) ns vs"
  proof (rule list_all2_all_nthI)
    show "length ns = length vs" using list_all2_lengthD [OF d_object(3)] .
    fix i assume i: "i < length ns"
    from list_all2_nthD [OF d_object(3) i] obtain p where p: "GetProperty R t (ns ! i) = Some p"
      "equal_tokens R \<Longrightarrow> \<forall>a\<in>set (stack @ [t]). (child R)\<^sup>+\<^sup>+ a p \<Longrightarrow> \<exists>k. marshal R k (stack @ [t]) p = Some (Inr (vs ! i))" by blast
    have "child R t p" using d_object(1,2) p(1) i by (auto simp: child_def)
    then have "\<forall>a\<in>set (stack @ [t]). (child R)\<^sup>+\<^sup>+ a p" using d_object(5) by (auto intro: tranclp.trancl_into_trancl)
    with p d_object(4) show "\<exists>k p. GetProperty R t (ns ! i) = Some p \<and> marshal R k (stack @ [t]) p = Some (Inr (vs ! i))" by blast
  qed
  then obtain k where k: "list_all2 (\<lambda>n v. \<exists>p. GetProperty R t n = Some p \<and> marshal R k (stack @ [t]) p = Some (Inr v)) ns vs"
    using list_all2_depth [of "\<lambda>k n v. \<exists>p. GetProperty R t n = Some p \<and> marshal R k (stack @ [t]) p = Some (Inr v)" ns vs]
      marshal_mono by metis
  then have "object_loop (marshal R k (stack @ [t])) R t ns [] = Some (Inr (MObject (build_map (zip ns vs))))"
    by (auto simp: object_loop_Inr build_map_def)
  with d_object(1,2) no have "marshal R (Suc k) stack t = Some (Inr (MObject (build_map (zip ns vs))))"
    by (simp add: marshal_token_def InitializeFromObject_def plain_object_def)
  then show ?case by blast
next
  case (d_array t n vs)
  have acc: "denotes R t (MArray vs)"
    by (rule denotes.d_array [OF d_array(1,2)], rule list_all2_mono [OF d_array(3)]) blast
  have no: "\<not> CausesCycle R t stack" using acc_no_cycle [OF denotes_acc [OF acc]] d_array(4,5) by (auto simp: CausesCycle_iff)
  have ex: "list_all2 (\<lambda>i v. \<exists>k. element_is (marshal R k (stack @ [t])) R t i v) [0..<n] vs"
  proof (rule list_all2_all_nthI)
    show "length [0..<n] = length vs" using list_all2_lengthD [OF d_array(3)] .
    fix i assume i: "i < length [0..<n]"
    from list_all2_nthD [OF d_array(3) i] i consider "GetElement R t i = None" "vs ! i = None"
      | p w where "GetElement R t i = Some p" "vs ! i = Some w"
        "equal_tokens R \<Longrightarrow> \<forall>a\<in>set (stack @ [t]). (child R)\<^sup>+\<^sup>+ a p \<Longrightarrow> \<exists>k. marshal R k (stack @ [t]) p = Some (Inr w)"
      by auto
    then show "\<exists>k. element_is (marshal R k (stack @ [t])) R t ([0..<n] ! i) (vs ! i)"
    proof cases
      case 1
      with i show ?thesis by (simp add: element_is_def)
    next
      case (2 p w)
      have "child R t p" using d_array(1,2) 2(1) i by (auto simp: child_def)
      then have "\<forall>a\<in>set (stack @ [t]). (child R)\<^sup>+\<^sup>+ a p" using d_array(5) by (auto intro: tranclp.trancl_into_trancl)
      with 2 d_array(4) i show ?thesis by (auto simp: element_is_def)
    qed
  qed
  have "\<exists>k. list_all2 (element_is (marshal R k (stack @ [t])) R t) [0..<n] vs"
    by (rule list_all2_depth [OF ex]) (rule element_is_mono)
  then obtain k where k: "list_all2 (element_is (marshal R k (stack @ [t])) R t) [0..<n] vs" by blast
  then have "array_loop (marshal R k (stack @ [t])) R t [0..<n] [] = Some (Inr (MArray vs))"
    by (auto simp: array_loop_Inr)
  with d_array(1,2) no have "marshal R (Suc k) stack t = Some (Inr (MArray vs))"
    by (simp add: marshal_token_def InitializeFromArray_def plain_array_def)
  then show ?case by blast
qed (rule exI [of _ "Suc 0"], simp add: marshal_token_def from_option_def)+

text \<open>The stack has no token twice, so that the depth is bounded by the number of tokens.\<close>

definition finite_graph :: "('t, 'm) js_runner \<Rightarrow> 't set \<Rightarrow> bool" where
  "finite_graph R U \<longleftrightarrow> finite U \<and> (\<forall>t\<in>U. \<forall>p. child R t p \<longrightarrow> p \<in> U)"

lemma from_option_Some [simp]: "from_option f v \<noteq> None"
  by (simp add: from_option_def)

lemma marshal_returns:
  "equal_tokens R \<Longrightarrow> finite_graph R U \<Longrightarrow> t \<in> U \<Longrightarrow> set stack \<subseteq> U \<Longrightarrow> distinct stack \<Longrightarrow>
     card U - length stack < k \<Longrightarrow> marshal R k stack t \<noteq> None"
proof (induction k arbitrary: stack t)
  case (Suc k)
  show ?case
  proof
    assume "marshal R (Suc k) stack t = None"
    then have run: "marshal_token (marshal R k) R stack t = None" by simp
    then have no: "t \<notin> set stack" and
      loop: "plain_object R t \<and> (\<exists>ns. GetPropertyNames R t = Some ns \<and> object_loop (marshal R k (stack @ [t])) R t ns [] = None) \<or>
        plain_array R t \<and> (\<exists>n. GetLength R t = Some n \<and> array_loop (marshal R k (stack @ [t])) R t [0..<n] [] = None)"
      using CausesCycle_iff [OF Suc.prems(1)]
      by (auto simp: marshal_token_def plain_object_def plain_array_def InitializeFromObject_def InitializeFromArray_def
          split: JsParamType.splits option.splits if_splits)
    from loop obtain p where p: "child R t p" "marshal R k (stack @ [t]) p = None"
    proof (elim disjE conjE exE)
      fix ns assume "plain_object R t" "GetPropertyNames R t = Some ns" "object_loop (marshal R k (stack @ [t])) R t ns [] = None"
      with object_loop_None [of "marshal R k (stack @ [t])" R t ns "[]"] that show thesis by (auto simp: child_def)
    next
      fix n assume "plain_array R t" "GetLength R t = Some n" "array_loop (marshal R k (stack @ [t])) R t [0..<n] [] = None"
      with array_loop_None [of "marshal R k (stack @ [t])" R t "[0..<n]" "[]"] that show thesis by (auto simp: child_def)
    qed
    have st: "set (stack @ [t]) \<subseteq> U" "distinct (stack @ [t])" using Suc.prems(3,4,5) no by auto
    have fin: "finite U" and "p \<in> U" using Suc.prems(2,3) p(1) by (auto simp: finite_graph_def)
    have "length (stack @ [t]) \<le> card U" using card_mono [OF fin st(1)] distinct_card [OF st(2)] by simp
    then have "card U - length (stack @ [t]) < k" using Suc.prems(6) by simp
    from Suc.IH [OF Suc.prems(1,2) \<open>p \<in> U\<close> st this] p(2) show False by simp
  qed
qed simp

text \<open>
  C22. \<open>Marshal\<close> returns on every finite graph of tokens, also one with cycles: calls are never nested deeper than
  there are tokens.
\<close>
theorem marshal_terminates:
  assumes "equal_tokens R" "finite_graph R U" "t \<in> U"
  shows "Marshal R (Suc (card U)) t \<noteq> None"
  using marshal_returns [OF assms, of "[]" "Suc (card U)"] by (simp add: Marshal_def)

lemma Marshal_depth:
  assumes "equal_tokens R" "finite_graph R U" "t \<in> U" "marshal R k [] t = Some r"
  shows "Marshal R (Suc (card U)) t = Some r"
proof -
  obtain r' where r': "marshal R (Suc (card U)) [] t = Some r'"
    using marshal_returns [OF assms(1-3), of "[]" "Suc (card U)"] by auto
  have "marshal R (max k (Suc (card U))) [] t = Some r" by (rule marshal_mono [OF assms(4)]) simp
  moreover have "marshal R (max k (Suc (card U))) [] t = Some r'" by (rule marshal_mono [OF r']) simp
  ultimately show ?thesis using r' by (simp add: Marshal_def)
qed

text \<open>
  C15. \<open>Marshal\<close> computes the tree the token stands for. The result is a tree exactly when the unfolding of the graph
  from the token is one, and then it is that tree: shared members are copied, holes of arrays are kept, and
  the stack that detects cycles never rejects a graph without one.
\<close>
theorem marshal_unfolds:
  assumes "equal_tokens R" "finite_graph R U" "t \<in> U"
  shows "Marshal R (Suc (card U)) t = Some (Inr m) \<longleftrightarrow> denotes R t m"
proof
  assume "Marshal R (Suc (card U)) t = Some (Inr m)"
  then show "denotes R t m" unfolding Marshal_def by (rule marshal_sound)
next
  assume "denotes R t m"
  from marshal_complete [OF this assms(1), of "[]"] obtain k where "marshal R k [] t = Some (Inr m)" by auto
  from Marshal_depth [OF assms this] show "Marshal R (Suc (card U)) t = Some (Inr m)" .
qed

text \<open>
  A graph with a cycle is rejected with an error, wherever the cycle is.
\<close>
theorem marshal_rejects_cycles:
  assumes "equal_tokens R" "finite_graph R U" "t \<in> U" "(child R)\<^sup>*\<^sup>* t a" "(child R)\<^sup>+\<^sup>+ a a"
  shows "\<exists>e. Marshal R (Suc (card U)) t = Some (Inl e)"
proof -
  have none: "\<not> denotes R t m" for m
  proof
    assume "denotes R t m"
    then obtain v where "denotes R a v" using denotes_reach [OF assms(4)] by blast
    from acc_no_cycle [OF denotes_acc [OF this]] assms(5) show False by blast
  qed
  obtain r where r: "marshal R (Suc (card U)) [] t = Some r"
    using marshal_returns [OF assms(1-3), of "[]" "Suc (card U)"] by auto
  with none marshal_sound [of R "Suc (card U)" "[]" t] show ?thesis by (cases r) (auto simp: Marshal_def)
qed

section \<open>A restored token is a copy\<close>

text \<open>What the engine tells about a token.\<close>

definition reading where
  "reading R t = (JsTokenType R t, JsTokenToBool R t, JsTokenToInt R t, JsTokenToDouble R t, JsTokenToString R t,
     JsTokenToModule R t, JsTokenToObject R t, JsTokenToArray R t, GetPropertyNames R t, GetProperty R t,
     GetLength R t, GetElement R t)"

text \<open>
  The graph of tokens in a state: how it reads, which states there are, and the tokens of a state.
\<close>

record ('s, 't, 'm) js_heap =
  js_view :: "'s \<Rightarrow> ('t, 'm) js_runner"
  js_valid :: "'s \<Rightarrow> bool"
  js_alive :: "'s \<Rightarrow> 't set"

definition keeps :: "('s, 't, 'm) js_heap \<Rightarrow> 't set \<Rightarrow> 's \<Rightarrow> 's \<Rightarrow> bool" where
  "keeps H A s s' \<longleftrightarrow> js_valid H s' \<and> js_alive H s \<subseteq> js_alive H s' \<and>
     (\<forall>u\<in>A. reading (js_view H s') u = reading (js_view H s) u)"

definition gives :: "('s, 't, 'm) js_heap \<Rightarrow> ('s \<Rightarrow> ('t \<times> 's) option) \<Rightarrow> ('s \<Rightarrow> ('t, 'm) js_runner \<Rightarrow> 't \<Rightarrow> bool) \<Rightarrow> bool" where
  "gives H opn P \<longleftrightarrow> (\<forall>s t s'. js_valid H s \<longrightarrow> opn s = Some (t, s') \<longrightarrow>
     keeps H (js_alive H s) s s' \<and> t \<in> js_alive H s' \<and> P s (js_view H s') t)"

definition heap_ok :: "('s, 't, 'm) js_heap \<Rightarrow> bool" where
  "heap_ok H \<longleftrightarrow> (\<forall>s. js_valid H s \<longrightarrow> finite_graph (js_view H s) (js_alive H s) \<and> equal_tokens (js_view H s))"

definition primitives_ok :: "('s, 't, 'm) js_engine \<Rightarrow> ('s, 't, 'm) js_heap \<Rightarrow> bool" where
  "primitives_ok E H \<longleftrightarrow>
     (\<forall>b. gives H (BoolToJsToken E b) (\<lambda>s R t. JsTokenType R t = JSPARAM_BOOL \<and> JsTokenToBool R t = Some b)) \<and>
     (\<forall>i. gives H (IntToJsToken E i) (\<lambda>s R t. JsTokenType R t = JSPARAM_INT \<and> JsTokenToInt R t = Some i)) \<and>
     (\<forall>d. gives H (DoubleToJsToken E d) (\<lambda>s R t. JsTokenType R t = JSPARAM_DOUBLE \<and> JsTokenToDouble R t = Some d)) \<and>
     (\<forall>x. gives H (StringToJsToken E x) (\<lambda>s R t. JsTokenType R t = JSPARAM_STRING16 \<and> JsTokenToString R t = Some x)) \<and>
     gives H (NullToJsToken E) (\<lambda>s R t. JsTokenType R t = JSPARAM_NULL) \<and>
     gives H (UndefinedToJsToken E) (\<lambda>s R t. JsTokenType R t = JSPARAM_UNDEFINED)"

definition objects_ok :: "('s, 't, 'm) js_engine \<Rightarrow> ('s, 't, 'm) js_heap \<Rightarrow> bool" where
  "objects_ok E H \<longleftrightarrow>
     gives H (NewObject E) (\<lambda>s R t. t \<notin> js_alive H s \<and> plain_object R t \<and> GetPropertyNames R t = Some []) \<and>
     (\<forall>t n v s s' ns. js_valid H s \<longrightarrow> t \<in> js_alive H s \<longrightarrow> v \<in> js_alive H s \<longrightarrow> plain_object (js_view H s) t \<longrightarrow>
        GetPropertyNames (js_view H s) t = Some ns \<longrightarrow> distinct ns \<longrightarrow> c_str n = n \<longrightarrow> SetProperty E t n v s = Some s' \<longrightarrow>
        keeps H (js_alive H s - {t}) s s' \<and> plain_object (js_view H s') t \<and>
        (\<exists>ns'. GetPropertyNames (js_view H s') t = Some ns' \<and> distinct ns' \<and> set ns' = insert n (set ns)) \<and>
        GetProperty (js_view H s') t = (GetProperty (js_view H s) t)(n \<mapsto> v))"

definition arrays_ok :: "('s, 't, 'm) js_engine \<Rightarrow> ('s, 't, 'm) js_heap \<Rightarrow> bool" where
  "arrays_ok E H \<longleftrightarrow>
     gives H (NewArray E) (\<lambda>s R t. t \<notin> js_alive H s \<and> plain_array R t \<and> GetLength R t = Some 0) \<and>
     (\<forall>t n v s s'. js_valid H s \<longrightarrow> t \<in> js_alive H s \<longrightarrow> v \<in> js_alive H s \<longrightarrow> plain_array (js_view H s) t \<longrightarrow>
        GetLength (js_view H s) t = Some n \<longrightarrow> SetElement E t n v s = Some s' \<longrightarrow>
        keeps H (js_alive H s - {t}) s s' \<and> plain_array (js_view H s') t \<and> GetLength (js_view H s') t = Some (Suc n) \<and>
        GetElement (js_view H s') t = (GetElement (js_view H s) t)(n \<mapsto> v))"

text \<open>
  What is restored without loss: strings and names without a NUL, as they are passed by \<open>c_str\<close>, and arrays whose
  elements could all be read. Modules restore themselves.
\<close>

fun lossless :: "'m marshaled \<Rightarrow> bool" where
  "lossless (MObject ps) \<longleftrightarrow> (\<forall>p\<in>set ps. c_str (fst p) = fst p \<and> lossless (snd p))"
| "lossless (MArray vs) \<longleftrightarrow> None \<notin> set vs \<and> (\<forall>v\<in>set vs. \<forall>w\<in>set_option v. lossless w)"
| "lossless (MString x) \<longleftrightarrow> c_str x = x"
| "lossless (MModule m) \<longleftrightarrow> False"
| "lossless (MBool b) \<longleftrightarrow> True"
| "lossless (MInt i) \<longleftrightarrow> True"
| "lossless (MDouble d) \<longleftrightarrow> True"
| "lossless MNull \<longleftrightarrow> True"
| "lossless MUndefined \<longleftrightarrow> True"

text \<open>The members of an object are sorted.\<close>

lemma map_put_keys: "fst ` set (map_put k v ps) = insert k (fst ` set ps)"
  by (induction ps) auto

lemma map_put_set: "set (map_put k v ps) \<subseteq> insert (k, v) (set ps)"
  by (induction ps) auto

lemma map_put_sorted:
  "sorted_wrt (<) (map fst ps) \<Longrightarrow> sorted_wrt (<) (map fst (map_put k v ps))"
proof (induction ps)
  case (Cons p ps)
  have "\<forall>n\<in>insert k (fst ` set ps). fst p < n" if "fst p < k" using Cons.prems that by auto
  then have "\<forall>q\<in>set (map_put k v ps). fst p < fst q" if "fst p < k" using that map_put_keys [of k v ps] by (metis imageI)
  with Cons show ?case by (fastforce dest: less_trans)
qed simp

lemma map_put_fresh: "k \<notin> fst ` set ps \<Longrightarrow> set (map_put k v ps) = insert (k, v) (set ps)"
  by (induction ps) auto

lemma build_map_snoc: "build_map (ps @ [p]) = map_put (fst p) (snd p) (build_map ps)"
  by (simp add: build_map_def)

lemma build_map_sorted: "sorted_wrt (<) (map fst (build_map ps))"
  by (induction ps rule: rev_induct) (simp add: build_map_def, simp add: build_map_snoc map_put_sorted)

lemma build_map_subset: "set (build_map ps) \<subseteq> set ps"
  by (induction ps rule: rev_induct) (simp add: build_map_def, use map_put_set in \<open>fastforce simp: build_map_snoc\<close>)

lemma build_map_set: "distinct (map fst ps) \<Longrightarrow> set (build_map ps) = set ps"
proof (induction ps rule: rev_induct)
  case (snoc p ps)
  then have "fst p \<notin> fst ` set (build_map ps)" by auto
  with snoc show ?case by (simp add: build_map_snoc map_put_fresh)
qed (simp add: build_map_def)

lemma build_map_unique:
  assumes "distinct (map fst qs)" "set qs = set ps" "sorted_wrt (<) (map fst ps)"
  shows "build_map qs = ps"
proof (rule map_sorted_distinct_set_unique)
  have d: "distinct (map fst xs)" if "sorted_wrt (<) (map fst xs)" for xs :: "(str \<times> 'a) list"
    using that strict_sorted_iff by auto
  show e: "set (build_map qs) = set ps" using build_map_set [OF assms(1)] assms(2) by simp
  show "inj_on fst (set (build_map qs) \<union> set ps)" using d [OF assms(3)] e by (simp add: distinct_map)
  show "sorted (map fst (build_map qs))" "distinct (map fst (build_map qs))" "sorted (map fst ps)" "distinct (map fst ps)"
    using build_map_sorted [of qs] assms(3) strict_sorted_iff by auto
qed

fun ordered :: "'m marshaled \<Rightarrow> bool" where
  "ordered (MObject ps) \<longleftrightarrow> sorted_wrt (<) (map fst ps) \<and> (\<forall>p\<in>set ps. ordered (snd p))"
| "ordered (MArray vs) \<longleftrightarrow> (\<forall>v\<in>set vs. \<forall>w\<in>set_option v. ordered w)"
| "ordered m \<longleftrightarrow> True"

lemma denotes_ordered: "denotes R t m \<Longrightarrow> ordered m"
proof (induction rule: denotes.induct)
  case (d_object t ns vs)
  then have "\<forall>v\<in>set vs. ordered v" by (auto simp: list_all2_conv_all_nth in_set_conv_nth)
  then have "\<forall>p\<in>set (zip ns vs). ordered (snd p)" by (auto dest: set_zip_rightD)
  then show ?case using build_map_subset [of "zip ns vs"] build_map_sorted by auto
next
  case (d_array t n vs)
  then show ?case by (fastforce simp: list_all2_conv_all_nth in_set_conv_nth)
qed simp_all

text \<open>What can be reached from a token depends on the tokens that are reached only.\<close>

abbreviation container :: "('t, 'm) js_runner \<Rightarrow> 't \<Rightarrow> bool" where
  "container R t \<equiv> plain_object R t \<or> plain_array R t"

lemma reading_same:
  assumes "reading R' t = reading R t"
  shows "plain_object R' t = plain_object R t" "plain_array R' t = plain_array R t" "child R' t = child R t"
    "GetPropertyNames R' t = GetPropertyNames R t" "GetProperty R' t = GetProperty R t"
    "GetLength R' t = GetLength R t" "GetElement R' t = GetElement R t"
  using assms by (auto simp: reading_def plain_object_def plain_array_def child_def fun_eq_iff)

lemma denotes_cong:
  "denotes R t m \<Longrightarrow> (\<And>u. (child R)\<^sup>*\<^sup>* t u \<Longrightarrow> reading R' u = reading R u) \<Longrightarrow> denotes R' t m"
proof (induction rule: denotes.induct)
  case (d_object t ns vs)
  have same: "reading R' t = reading R t" by (rule d_object.prems) simp
  have "list_all2 (\<lambda>n v. \<exists>p. GetProperty R t n = Some p \<and> denotes R' p v) ns vs"
  proof (rule list_all2_all_nthI)
    show "length ns = length vs" using list_all2_lengthD [OF d_object(3)] .
    fix i assume i: "i < length ns"
    from list_all2_nthD [OF d_object(3) i] obtain p where p: "GetProperty R t (ns ! i) = Some p"
      "(\<And>u. (child R)\<^sup>*\<^sup>* p u \<Longrightarrow> reading R' u = reading R u) \<Longrightarrow> denotes R' p (vs ! i)" by blast
    have "child R t p" using d_object(1,2) p(1) i by (auto simp: child_def)
    then have "denotes R' p (vs ! i)" by (intro p(2) d_object.prems) (rule converse_rtranclp_into_rtranclp)
    with p(1) show "\<exists>p. GetProperty R t (ns ! i) = Some p \<and> denotes R' p (vs ! i)" by blast
  qed
  with d_object(1,2) show ?case by (intro denotes.d_object) (simp_all add: reading_same [OF same])
next
  case (d_array t n vs)
  have same: "reading R' t = reading R t" by (rule d_array.prems) simp
  have "list_all2 (\<lambda>i v. (GetElement R t i = None \<and> v = None) \<or>
      (\<exists>p w. GetElement R t i = Some p \<and> v = Some w \<and> denotes R' p w)) [0..<n] vs"
  proof (rule list_all2_all_nthI)
    show "length [0..<n] = length vs" using list_all2_lengthD [OF d_array(3)] .
    fix i assume i: "i < length [0..<n]"
    have "child R t p" if "GetElement R t i = Some p" for p using d_array(1,2) that i by (auto simp: child_def)
    then have "reading R' u = reading R u" if "GetElement R t i = Some p" "(child R)\<^sup>*\<^sup>* p u" for p u
      by (rule d_array.prems [OF converse_rtranclp_into_rtranclp]) (use that in auto)
    with list_all2_nthD [OF d_array(3) i] i
    show "(GetElement R t ([0..<n] ! i) = None \<and> vs ! i = None) \<or>
      (\<exists>p w. GetElement R t ([0..<n] ! i) = Some p \<and> vs ! i = Some w \<and> denotes R' p w)" by auto
  qed
  with d_array(1,2) show ?case by (intro denotes.d_array) (simp_all add: reading_same [OF same])
qed (drule meta_spec, drule meta_mp, rule rtranclp.rtrancl_refl, auto simp: reading_def intro: denotes.intros)+

lemma reach_cong:
  assumes "(child R')\<^sup>*\<^sup>* t u" "\<And>u. (child R)\<^sup>*\<^sup>* t u \<Longrightarrow> reading R' u = reading R u"
  shows "(child R)\<^sup>*\<^sup>* t u"
  using assms(1)
proof (induction rule: rtranclp_induct)
  case (step b c)
  have "child R b c" using step.hyps(2) reading_same(3) [OF assms(2) [OF step.IH]] by simp
  with step.IH show ?case by (rule rtranclp.rtrancl_into_rtrancl)
qed simp

text \<open>\<open>t\<close> stands for \<open>m\<close>, and the containers in it are not in \<open>A\<close>.\<close>

definition copied :: "('s, 't, 'm) js_heap \<Rightarrow> 't set \<Rightarrow> 's \<Rightarrow> 't \<Rightarrow> 'm marshaled \<Rightarrow> bool" where
  "copied H A s t m \<longleftrightarrow> denotes (js_view H s) t m \<and>
     (\<forall>u. (child (js_view H s))\<^sup>*\<^sup>* t u \<longrightarrow> u \<in> js_alive H s \<and> (u \<in> A \<longrightarrow> \<not> container (js_view H s) u))"

lemma copied_keeps:
  assumes "copied H A s p m" "keeps H B s s'" "\<And>u. u \<in> js_alive H s \<Longrightarrow> u \<notin> B \<Longrightarrow> u \<in> A \<and> container (js_view H s) u"
  shows "copied H A s' p m"
proof -
  let ?R = "js_view H s" and ?R' = "js_view H s'"
  have reach: "u \<in> js_alive H s" "u \<in> A \<Longrightarrow> \<not> container ?R u" if "(child ?R)\<^sup>*\<^sup>* p u" for u
    using assms(1) that by (auto simp: copied_def)
  then have same: "reading ?R' u = reading ?R u" if "(child ?R)\<^sup>*\<^sup>* p u" for u
    using that assms(2) assms(3) [of u] unfolding keeps_def by blast
  have "denotes ?R' p m" by (rule denotes_cong [OF _ same]) (use assms(1) in \<open>simp add: copied_def\<close>)
  moreover have "u \<in> js_alive H s' \<and> (u \<in> A \<longrightarrow> \<not> container ?R' u)" if "(child ?R')\<^sup>*\<^sup>* p u" for u
  proof -
    have u: "(child ?R)\<^sup>*\<^sup>* p u" using that by (rule reach_cong) (rule same)
    from reading_same(1,2) [OF same [OF u]] reach [OF u] assms(2) show ?thesis by (auto simp: keeps_def)
  qed
  ultimately show ?thesis by (simp add: copied_def)
qed

lemma copied_alive: "copied H A s t m \<Longrightarrow> t \<in> js_alive H s"
  by (simp add: copied_def)

lemma copied_less: "copied H A s t m \<Longrightarrow> B \<subseteq> A \<Longrightarrow> copied H B s t m"
  by (auto simp: copied_def)

lemma keeps_less: "keeps H B s s' \<Longrightarrow> A \<subseteq> B \<Longrightarrow> keeps H A s s'"
  by (auto simp: keeps_def)

lemma keeps_trans: "keeps H A s s1 \<Longrightarrow> keeps H A s1 s2 \<Longrightarrow> keeps H A s s2"
  by (auto simp: keeps_def)

definition restores :: "('s, 't, 'm) js_heap \<Rightarrow> ('s \<Rightarrow> ('t \<times> 's) option) \<Rightarrow> 'm marshaled \<Rightarrow> bool" where
  "restores H opn m \<longleftrightarrow> (\<forall>s t s'. js_valid H s \<longrightarrow> opn s = Some (t, s') \<longrightarrow>
     keeps H (js_alive H s) s s' \<and> copied H (js_alive H s) s' t m)"

lemma primitive_restores:
  assumes "gives H opn P" "\<And>s R t. P s R t \<Longrightarrow> JsTokenType R t \<notin> {JSPARAM_OBJECT, JSPARAM_ARRAY} \<and> denotes R t m"
    "\<And>s. f s = opn s"
  shows "restores H f m"
  unfolding restores_def
proof (intro allI impI)
  fix s t s'
  assume "js_valid H s" "f s = Some (t, s')"
  with assms(1,3) have *: "keeps H (js_alive H s) s s'" "t \<in> js_alive H s'" "P s (js_view H s') t" by (auto simp: gives_def)
  have no: "\<not> container (js_view H s') t" using assms(2) [OF *(3)] by (auto simp: plain_object_def plain_array_def)
  then have "u = t" if "(child (js_view H s'))\<^sup>*\<^sup>* t u" for u
    using that by (auto elim: converse_rtranclpE simp: child_def)
  with no *(2) assms(2) [OF *(3)] have "copied H (js_alive H s) s' t m" by (auto simp: copied_def)
  with *(1) show "keeps H (js_alive H s) s s' \<and> copied H (js_alive H s) s' t m" by simp
qed

text \<open>The new object while its members are set, and the new array.\<close>

definition object_slots :: "('s, 't, 'm) js_heap \<Rightarrow> 't set \<Rightarrow> 't \<Rightarrow> 's \<Rightarrow> (str \<times> 'm marshaled) list \<Rightarrow> bool" where
  "object_slots H A t s qs \<longleftrightarrow> js_valid H s \<and> t \<in> js_alive H s \<and> A \<subseteq> js_alive H s \<and> plain_object (js_view H s) t \<and>
     (\<exists>ns. GetPropertyNames (js_view H s) t = Some ns \<and> distinct ns \<and> set ns = fst ` set qs) \<and>
     (\<forall>q\<in>set qs. \<exists>p. GetProperty (js_view H s) t (fst q) = Some p \<and> copied H (insert t A) s p (snd q))"

definition array_slots :: "('s, 't, 'm) js_heap \<Rightarrow> 't set \<Rightarrow> 't \<Rightarrow> 's \<Rightarrow> 'm marshaled list \<Rightarrow> bool" where
  "array_slots H A t s qs \<longleftrightarrow> js_valid H s \<and> t \<in> js_alive H s \<and> A \<subseteq> js_alive H s \<and> plain_array (js_view H s) t \<and>
     GetLength (js_view H s) t = Some (length qs) \<and>
     (\<forall>i<length qs. \<exists>p. GetElement (js_view H s) t i = Some p \<and> copied H (insert t A) s p (qs ! i))"

lemma object_slots_keeps:
  assumes "object_slots H A t s qs" "keeps H (js_alive H s) s s'"
  shows "object_slots H A t s' qs"
proof -
  have same: "reading (js_view H s') t = reading (js_view H s) t" using assms by (simp add: keeps_def object_slots_def)
  have "copied H (insert t A) s' p m" if "copied H (insert t A) s p m" for p m
    using copied_keeps [OF that assms(2)] by blast
  with assms show ?thesis unfolding object_slots_def keeps_def reading_same [OF same] by blast
qed

lemma array_slots_keeps:
  assumes "array_slots H A t s qs" "keeps H (js_alive H s) s s'"
  shows "array_slots H A t s' qs"
proof -
  have same: "reading (js_view H s') t = reading (js_view H s) t" using assms by (simp add: keeps_def array_slots_def)
  have "copied H (insert t A) s' p m" if "copied H (insert t A) s p m" for p m
    using copied_keeps [OF that assms(2)] by blast
  with assms show ?thesis unfolding array_slots_def keeps_def reading_same [OF same] by blast
qed

lemma object_slots_set:
  assumes "objects_ok E H" "object_slots H A t s qs" "copied H (insert t A) s v m" "c_str n = n" "n \<notin> fst ` set qs"
    "SetProperty E t n v s = Some s'" "t \<notin> A"
  shows "object_slots H A t s' (qs @ [(n, m)]) \<and> keeps H A s s'"
proof -
  from assms(2) obtain ns where ns: "GetPropertyNames (js_view H s) t = Some ns" "distinct ns" "set ns = fst ` set qs"
    and s: "js_valid H s" "t \<in> js_alive H s" "A \<subseteq> js_alive H s" "plain_object (js_view H s) t"
    and qs: "\<forall>q\<in>set qs. \<exists>p. GetProperty (js_view H s) t (fst q) = Some p \<and> copied H (insert t A) s p (snd q)"
    unfolding object_slots_def by blast
  from assms(1) [unfolded objects_ok_def, THEN conjunct2, rule_format,
      OF s(1,2) copied_alive [OF assms(3)] s(4) ns(1,2) assms(4,6)]
  have k: "keeps H (js_alive H s - {t}) s s'" and p: "plain_object (js_view H s') t"
    and n: "\<exists>ns'. GetPropertyNames (js_view H s') t = Some ns' \<and> distinct ns' \<and> set ns' = insert n (set ns)"
    and g: "GetProperty (js_view H s') t = (GetProperty (js_view H s) t)(n \<mapsto> v)" by blast+
  have c: "copied H (insert t A) s' p x" if "copied H (insert t A) s p x" for p x
    using copied_keeps [OF that k] s(4) by blast
  have "\<exists>p. GetProperty (js_view H s') t (fst q) = Some p \<and> copied H (insert t A) s' p (snd q)"
    if "q \<in> set (qs @ [(n, m)])" for q
  proof (cases "q \<in> set qs")
    case True
    then have "fst q \<noteq> n" using assms(5) by auto
    with qs True c show ?thesis by (auto simp: g)
  next
    case False
    with that c [OF assms(3)] show ?thesis by (simp add: g)
  qed
  moreover have "js_valid H s'" "t \<in> js_alive H s'" "A \<subseteq> js_alive H s'" using k s(2,3) by (auto simp: keeps_def)
  ultimately have "object_slots H A t s' (qs @ [(n, m)])" using p n ns(3) by (simp add: object_slots_def)
  moreover have "keeps H A s s'" by (rule keeps_less [OF k]) (use s(3) assms(7) in blast)
  ultimately show ?thesis by simp
qed

lemma array_slots_set:
  assumes "arrays_ok E H" "array_slots H A t s qs" "copied H (insert t A) s v m"
    "SetElement E t (length qs) v s = Some s'" "t \<notin> A"
  shows "array_slots H A t s' (qs @ [m]) \<and> keeps H A s s'"
proof -
  from assms(2) have s: "js_valid H s" "t \<in> js_alive H s" "A \<subseteq> js_alive H s" "plain_array (js_view H s) t"
    "GetLength (js_view H s) t = Some (length qs)"
    and qs: "\<forall>i<length qs. \<exists>p. GetElement (js_view H s) t i = Some p \<and> copied H (insert t A) s p (qs ! i)"
    by (simp_all add: array_slots_def)
  from assms(1) [unfolded arrays_ok_def, THEN conjunct2, rule_format,
      OF s(1,2) copied_alive [OF assms(3)] s(4,5) assms(4)]
  have k: "keeps H (js_alive H s - {t}) s s'" and p: "plain_array (js_view H s') t"
    and n: "GetLength (js_view H s') t = Some (Suc (length qs))"
    and g: "GetElement (js_view H s') t = (GetElement (js_view H s) t)(length qs \<mapsto> v)" by blast+
  have c: "copied H (insert t A) s' p x" if "copied H (insert t A) s p x" for p x
    using copied_keeps [OF that k] s(4) by blast
  have "\<exists>p. GetElement (js_view H s') t i = Some p \<and> copied H (insert t A) s' p ((qs @ [m]) ! i)"
    if "i < Suc (length qs)" for i
    using qs that c c [OF assms(3)] by (cases "i < length qs") (auto simp: g nth_append less_Suc_eq)
  moreover have "js_valid H s'" "t \<in> js_alive H s'" "A \<subseteq> js_alive H s'" using k s(2,3) by (auto simp: keeps_def)
  ultimately have "array_slots H A t s' (qs @ [m])" using p n by (simp add: array_slots_def)
  moreover have "keeps H A s s'" by (rule keeps_less [OF k]) (use s(3) assms(5) in blast)
  ultimately show ?thesis by simp
qed

lemma fill_object_slots:
  assumes "objects_ok E H" "t \<notin> A"
  shows "object_slots H A t s qs \<Longrightarrow> \<forall>p\<in>set ps. c_str (fst p) = fst p \<and> restores H (f (snd p)) (snd p) \<Longrightarrow>
     distinct (map fst (qs @ ps)) \<Longrightarrow> fill_object f E t ps s = Some s' \<Longrightarrow> object_slots H A t s' (qs @ ps) \<and> keeps H A s s'"
proof (induction ps arbitrary: s qs)
  case Nil
  then show ?case by (auto simp: object_slots_def keeps_def)
next
  case (Cons p ps)
  from Cons.prems(4) obtain v s1 s2 where run: "f (snd p) s = Some (v, s1)" "SetProperty E t (fst p) v s1 = Some s2"
    "fill_object f E t ps s2 = Some s'" by (auto split: bind_splits)
  have s: "js_valid H s" "insert t A \<subseteq> js_alive H s" using Cons.prems(1) by (auto simp: object_slots_def)
  have k: "keeps H (js_alive H s) s s1" and c: "copied H (js_alive H s) s1 v (snd p)"
    using Cons.prems(2) s(1) run(1) by (auto simp: restores_def)
  have one: "object_slots H A t s2 (qs @ [p]) \<and> keeps H A s1 s2"
    using object_slots_set [OF assms(1) object_slots_keeps [OF Cons.prems(1) k] copied_less [OF c s(2)] _ _ run(2) assms(2)]
      Cons.prems(2,3) by auto
  have "object_slots H A t s' ((qs @ [p]) @ ps) \<and> keeps H A s2 s'"
    by (rule Cons.IH [OF conjunct1 [OF one] _ _ run(3)]) (use Cons.prems in auto)
  with one keeps_less [OF k, of A] s(2) show ?case by (auto intro: keeps_trans)
qed

lemma fill_array_slots:
  assumes "arrays_ok E H" "t \<notin> A"
  shows "array_slots H A t s qs \<Longrightarrow> \<forall>m\<in>set ms. restores H (f m) m \<Longrightarrow>
     fill_array f E t (length qs) (map Some ms) s = Some s' \<Longrightarrow> array_slots H A t s' (qs @ ms) \<and> keeps H A s s'"
proof (induction ms arbitrary: s qs)
  case Nil
  then show ?case by (auto simp: array_slots_def keeps_def)
next
  case (Cons m ms)
  from Cons.prems(3) obtain v s1 s2 where run: "f m s = Some (v, s1)" "SetElement E t (length qs) v s1 = Some s2"
    "fill_array f E t (Suc (length qs)) (map Some ms) s2 = Some s'" by (auto split: bind_splits)
  have s: "js_valid H s" "insert t A \<subseteq> js_alive H s" using Cons.prems(1) by (auto simp: array_slots_def)
  have k: "keeps H (js_alive H s) s s1" and c: "copied H (js_alive H s) s1 v m"
    using Cons.prems(2) s(1) run(1) by (auto simp: restores_def)
  have one: "array_slots H A t s2 (qs @ [m]) \<and> keeps H A s1 s2"
    by (rule array_slots_set [OF assms(1) array_slots_keeps [OF Cons.prems(1) k] copied_less [OF c s(2)] run(2) assms(2)])
  have "array_slots H A t s' ((qs @ [m]) @ ms) \<and> keeps H A s2 s'"
    by (rule Cons.IH [OF conjunct1 [OF one]]) (use Cons.prems run(3) in auto)
  with one keeps_less [OF k, of A] s(2) show ?case by (auto intro: keeps_trans)
qed

text \<open>A container whose members are copies is a copy.\<close>

lemma copied_container:
  assumes "denotes (js_view H s) t m" "t \<in> js_alive H s" "t \<notin> A"
    "\<And>p. child (js_view H s) t p \<Longrightarrow> \<exists>x. copied H A s p x"
  shows "copied H A s t m"
proof -
  have "u \<in> js_alive H s \<and> (u \<in> A \<longrightarrow> \<not> container (js_view H s) u)" if "(child (js_view H s))\<^sup>*\<^sup>* t u" for u
    using that
  proof (cases rule: converse_rtranclpE)
    case base
    with assms(2,3) show ?thesis by simp
  next
    case (step p)
    with assms(4) show ?thesis by (auto simp: copied_def)
  qed
  with assms(1) show ?thesis by (simp add: copied_def)
qed

lemma object_slots_copied:
  assumes "object_slots H A t s ps" "sorted_wrt (<) (map fst ps)" "t \<notin> A"
  shows "copied H A s t (MObject ps)"
proof -
  let ?R = "js_view H s"
  from assms(1) obtain ns where ns: "GetPropertyNames ?R t = Some ns" "distinct ns" "set ns = fst ` set ps"
    and s: "t \<in> js_alive H s" "plain_object ?R t"
    and qs: "\<forall>q\<in>set ps. \<exists>p. GetProperty ?R t (fst q) = Some p \<and> copied H (insert t A) s p (snd q)"
    unfolding object_slots_def by blast
  have dist: "distinct (map fst ps)" using assms(2) strict_sorted_iff by auto
  have slot: "\<exists>p. GetProperty ?R t n = Some p \<and> copied H (insert t A) s p (the (map_of ps n))" if "n \<in> set ns" for n
  proof -
    from that ns(3) obtain q where q: "q \<in> set ps" "fst q = n" by auto
    then have "map_of ps n = Some (snd q)" using dist by (auto intro: map_of_is_SomeI)
    with qs q show ?thesis by auto
  qed
  let ?vs = "map (\<lambda>n. the (map_of ps n)) ns"
  have zip: "zip ns ?vs = map (\<lambda>n. (n, the (map_of ps n))) ns" by (simp add: zip_map2 zip_same_conv_map)
  have set: "set (zip ns ?vs) = set ps"
  proof -
    have "(\<lambda>n. (n, the (map_of ps n))) ` fst ` set ps = set ps"
      using dist by (force simp: image_image image_iff)
    then show ?thesis unfolding zip by (simp add: ns(3))
  qed
  have "build_map (zip ns ?vs) = ps"
    by (rule build_map_unique [OF _ set assms(2)]) (simp add: ns(2) zip comp_def)
  moreover have "denotes ?R t (MObject (build_map (zip ns ?vs)))"
    by (rule denotes.d_object [OF s(2) ns(1)]) (use slot in \<open>force simp: list_all2_map2 list_all2_same copied_def\<close>)
  ultimately have "denotes ?R t (MObject ps)" by simp
  then show ?thesis using s(1) assms(3)
  proof (rule copied_container)
    fix p
    assume "child ?R t p"
    then obtain n where "n \<in> set ns" "GetProperty ?R t n = Some p"
      using s(2) ns(1) by (auto simp: child_def plain_object_def plain_array_def)
    with slot show "\<exists>x. copied H A s p x" by (fastforce intro: copied_less)
  qed
qed

lemma array_slots_copied:
  assumes "array_slots H A t s ms" "t \<notin> A"
  shows "copied H A s t (MArray (map Some ms))"
proof -
  let ?R = "js_view H s"
  from assms(1) have s: "t \<in> js_alive H s" "plain_array ?R t" "GetLength ?R t = Some (length ms)"
    and slot: "\<forall>i<length ms. \<exists>p. GetElement ?R t i = Some p \<and> copied H (insert t A) s p (ms ! i)"
    by (simp_all add: array_slots_def)
  have "denotes ?R t (MArray (map Some ms))"
    by (rule denotes.d_array [OF s(2,3)]) (use slot in \<open>fastforce simp: list_all2_conv_all_nth copied_def\<close>)
  then show ?thesis using s(1) assms(2)
  proof (rule copied_container)
    fix p
    assume "child ?R t p"
    then obtain i where "i < length ms" "GetElement ?R t i = Some p"
      using s by (auto simp: child_def plain_object_def plain_array_def)
    with slot show "\<exists>x. copied H A s p x" by (fastforce intro: copied_less)
  qed
qed

lemma unmarshal_restores:
  assumes "primitives_ok E H" "objects_ok E H" "arrays_ok E H"
  shows "lossless m \<Longrightarrow> ordered m \<Longrightarrow> restores H (unmarshal E m) m"
proof (induction m rule: lossless.induct)
  case (1 ps)
  have mem: "\<forall>p\<in>set ps. c_str (fst p) = fst p \<and> restores H (unmarshal E (snd p)) (snd p)" using 1 by simp
  have sorted: "sorted_wrt (<) (map fst ps)" using 1 by simp
  show ?case unfolding restores_def
  proof (intro allI impI)
    fix s t s'
    assume s: "js_valid H s" and "unmarshal E (MObject ps) s = Some (t, s')"
    then obtain s1 where run: "NewObject E s = Some (t, s1)" "fill_object (unmarshal E) E t ps s1 = Some s'"
      by (auto split: bind_splits)
    let ?A = "js_alive H s"
    have new: "keeps H ?A s s1 \<and> t \<in> js_alive H s1 \<and> t \<notin> ?A \<and> plain_object (js_view H s1) t \<and>
        GetPropertyNames (js_view H s1) t = Some []"
      using assms(2) s run(1) by (auto simp: objects_ok_def gives_def)
    then have "object_slots H ?A t s1 []" by (simp add: object_slots_def keeps_def)
    with fill_object_slots [OF assms(2), of t ?A s1 "[]" ps] mem sorted run(2) new
    have "object_slots H ?A t s' ps" "keeps H ?A s1 s'" by (auto simp: strict_sorted_iff)
    with new sorted show "keeps H ?A s s' \<and> copied H ?A s' t (MObject ps)"
      by (auto intro: keeps_trans object_slots_copied)
  qed
next
  case (2 vs)
  define ms where "ms = map the vs"
  have vs: "vs = map Some ms" using 2(2) by (auto simp: ms_def comp_def intro!: map_idI [symmetric]) (metis option.collapse)
  have mem: "\<forall>m\<in>set ms. restores H (unmarshal E m) m" using 2 unfolding vs by auto
  show ?case unfolding restores_def
  proof (intro allI impI)
    fix s t s'
    assume s: "js_valid H s" and "unmarshal E (MArray vs) s = Some (t, s')"
    then obtain s1 where run: "NewArray E s = Some (t, s1)" "fill_array (unmarshal E) E t 0 vs s1 = Some s'"
      by (auto split: bind_splits)
    let ?A = "js_alive H s"
    have new: "keeps H ?A s s1 \<and> t \<in> js_alive H s1 \<and> t \<notin> ?A \<and> plain_array (js_view H s1) t \<and>
        GetLength (js_view H s1) t = Some 0"
      using assms(3) s run(1) by (auto simp: arrays_ok_def gives_def)
    then have "array_slots H ?A t s1 []" by (simp add: array_slots_def keeps_def)
    with fill_array_slots [OF assms(3), of t ?A s1 "[]" ms] mem run(2) new
    have "array_slots H ?A t s' ms" "keeps H ?A s1 s'" by (auto simp: vs)
    with new show "keeps H ?A s s' \<and> copied H ?A s' t (MArray vs)"
      by (auto simp: vs intro: keeps_trans array_slots_copied)
  qed
next
  case (3 x)
  from assms(1) have "gives H (StringToJsToken E x) (\<lambda>s R t. JsTokenType R t = JSPARAM_STRING16 \<and> JsTokenToString R t = Some x)" by (simp add: primitives_ok_def)
  then show ?case by (rule primitive_restores) (use 3 in \<open>auto intro: denotes.intros\<close>)
next
  case (5 b)
  from assms(1) have "gives H (BoolToJsToken E b) (\<lambda>s R t. JsTokenType R t = JSPARAM_BOOL \<and> JsTokenToBool R t = Some b)" by (simp add: primitives_ok_def)
  then show ?case by (rule primitive_restores) (auto intro: denotes.intros)
next
  case (6 i)
  from assms(1) have "gives H (IntToJsToken E i) (\<lambda>s R t. JsTokenType R t = JSPARAM_INT \<and> JsTokenToInt R t = Some i)" by (simp add: primitives_ok_def)
  then show ?case by (rule primitive_restores) (auto intro: denotes.intros)
next
  case (7 d)
  from assms(1) have "gives H (DoubleToJsToken E d) (\<lambda>s R t. JsTokenType R t = JSPARAM_DOUBLE \<and> JsTokenToDouble R t = Some d)" by (simp add: primitives_ok_def)
  then show ?case by (rule primitive_restores) (auto intro: denotes.intros)
next
  case 8
  from assms(1) have "gives H (NullToJsToken E) (\<lambda>s R t. JsTokenType R t = JSPARAM_NULL)" by (simp add: primitives_ok_def)
  then show ?case by (rule primitive_restores) (auto intro: denotes.intros)
next
  case 9
  from assms(1) have "gives H (UndefinedToJsToken E) (\<lambda>s R t. JsTokenType R t = JSPARAM_UNDEFINED)" by (simp add: primitives_ok_def)
  then show ?case by (rule primitive_restores) (auto intro: denotes.intros)
qed simp


section \<open>An engine with two graphs\<close>

text \<open>
  Token 0 is the array \<open>[o, , o]\<close> with a hole and twice the object 1, which is \<open>{b: true, a: null}\<close>; token 4 is
  an array with the array 5, whose member is 4.
\<close>

definition demo_runner :: "(nat, nat) js_runner" where
  "demo_runner = \<lparr>
     JsTokenType = (\<lambda>t. if t = 1 then JSPARAM_OBJECT else if t = 2 then JSPARAM_BOOL else if t = 3 then JSPARAM_NULL else JSPARAM_ARRAY),
     JsTokenToBool = (\<lambda>t. if t = 2 then Some True else None), JsTokenToInt = (\<lambda>t. None), JsTokenToDouble = (\<lambda>t. None),
     JsTokenToString = (\<lambda>t. None), JsTokenToModule = (\<lambda>t. None), JsTokenToObject = (\<lambda>t. True), JsTokenToArray = (\<lambda>t. True),
     GetPropertyNames = (\<lambda>t. Some [[98], [97]]), GetProperty = (\<lambda>t n. Some (if n = [98] then 2 else 3)),
     GetLength = (\<lambda>t. Some (if t = 0 then 3 else 1)),
     GetElement = (\<lambda>t i. if t = 0 then (if i = 1 then None else Some 1) else Some (9 - t)),
     AbstractJsTokensAreEqual = (=)\<rparr>"

lemma demo_graphs: "equal_tokens demo_runner" "finite_graph demo_runner {0, 1, 2, 3}" "finite_graph demo_runner {4, 5}"
  by (auto simp: equal_tokens_def finite_graph_def child_def plain_object_def plain_array_def demo_runner_def split: if_splits)

lemma marshal_terminates_witness: "Marshal demo_runner 3 4 \<noteq> None"
  using marshal_terminates [OF demo_graphs(1,3), of 4] by (simp add: numeral_3_eq_3)

lemma marshal_unfolds_witness:
  "denotes demo_runner 0 (MArray [Some (MObject [([97], MNull), ([98], MBool True)]), None,
     Some (MObject [([97], MNull), ([98], MBool True)])])"
proof -
  have "Marshal demo_runner (Suc (card {0, 1, 2, 3 :: nat})) 0 = Some (Inr (MArray [Some (MObject [([97], MNull), ([98], MBool True)]), None,
     Some (MObject [([97], MNull), ([98], MBool True)])]))"
    by (simp add: Marshal_def marshal_token_def demo_runner_def CausesCycle_def InitializeFromArray_def InitializeFromObject_def
        from_option_def upt_rec)
  with marshal_unfolds [OF demo_graphs(1,2), of 0] show ?thesis by simp
qed

lemma marshal_rejects_cycles_witness: "\<exists>e. Marshal demo_runner 3 4 = Some (Inl e)"
proof -
  have "child demo_runner 4 5" "child demo_runner 5 4"
    by (auto simp: child_def plain_object_def plain_array_def demo_runner_def)
  then have "(child demo_runner)\<^sup>+\<^sup>+ 4 4" by (meson tranclp.r_into_trancl tranclp.trancl_into_trancl)
  from marshal_rejects_cycles [OF demo_graphs(1,3) _ rtranclp.rtrancl_refl this] show ?thesis by (simp add: numeral_3_eq_3)
qed

text \<open>An engine whose tokens are the places of a list.\<close>

datatype demo_node = DBool bool | DInt int | DDouble "64 word" | DString str | DNull | DUndefined
  | DObject "(str \<times> nat) list" | DArray "nat list"

fun demo_type :: "demo_node \<Rightarrow> JsParamType" where
  "demo_type (DBool b) = JSPARAM_BOOL"
| "demo_type (DInt i) = JSPARAM_INT"
| "demo_type (DDouble d) = JSPARAM_DOUBLE"
| "demo_type (DString x) = JSPARAM_STRING16"
| "demo_type DNull = JSPARAM_NULL"
| "demo_type DUndefined = JSPARAM_UNDEFINED"
| "demo_type (DObject ps) = JSPARAM_OBJECT"
| "demo_type (DArray vs) = JSPARAM_ARRAY"

definition demo_view :: "demo_node list \<Rightarrow> (nat, unit) js_runner" where
  "demo_view s = \<lparr>
     JsTokenType = (\<lambda>t. demo_type (s ! t)),
     JsTokenToBool = (\<lambda>t. case s ! t of DBool b \<Rightarrow> Some b | _ \<Rightarrow> None),
     JsTokenToInt = (\<lambda>t. case s ! t of DInt i \<Rightarrow> Some i | _ \<Rightarrow> None),
     JsTokenToDouble = (\<lambda>t. case s ! t of DDouble d \<Rightarrow> Some d | _ \<Rightarrow> None),
     JsTokenToString = (\<lambda>t. case s ! t of DString x \<Rightarrow> Some x | _ \<Rightarrow> None),
     JsTokenToModule = (\<lambda>t. None), JsTokenToObject = (\<lambda>t. True), JsTokenToArray = (\<lambda>t. True),
     GetPropertyNames = (\<lambda>t. case s ! t of DObject ps \<Rightarrow> Some (map fst ps) | _ \<Rightarrow> None),
     GetProperty = (\<lambda>t. case s ! t of DObject ps \<Rightarrow> map_of ps | _ \<Rightarrow> Map.empty),
     GetLength = (\<lambda>t. case s ! t of DArray vs \<Rightarrow> Some (length vs) | _ \<Rightarrow> None),
     GetElement = (\<lambda>t i. case s ! t of DArray vs \<Rightarrow> if i < length vs then Some (vs ! i) else None | _ \<Rightarrow> None),
     AbstractJsTokensAreEqual = (=)\<rparr>"

fun demo_children :: "demo_node \<Rightarrow> nat set" where
  "demo_children (DObject ps) = snd ` set ps"
| "demo_children (DArray vs) = set vs"
| "demo_children v = {}"

definition demo_heap :: "(demo_node list, nat, unit) js_heap" where
  "demo_heap = \<lparr>js_view = demo_view, js_valid = (\<lambda>s. \<forall>v\<in>set s. demo_children v \<subseteq> {..<length s}), js_alive = (\<lambda>s. {..<length s})\<rparr>"

abbreviation demo_new :: "demo_node \<Rightarrow> demo_node list \<Rightarrow> (nat \<times> demo_node list) option" where
  "demo_new v s \<equiv> Some (length s, s @ [v])"

definition demo_engine :: "(demo_node list, nat, unit) js_engine" where
  "demo_engine = \<lparr>
     BoolToJsToken = (\<lambda>b. demo_new (DBool b)), IntToJsToken = (\<lambda>i. demo_new (DInt i)),
     DoubleToJsToken = (\<lambda>d. demo_new (DDouble d)), StringToJsToken = (\<lambda>x. demo_new (DString x)),
     NullToJsToken = demo_new DNull, UndefinedToJsToken = demo_new DUndefined, ModuleUnmarshal = (\<lambda>m s. None),
     NewObject = demo_new (DObject []), NewArray = demo_new (DArray []),
     SetProperty = (\<lambda>t n v s. case s ! t of DObject ps \<Rightarrow> Some (s[t := DObject (AList.update n v ps)]) | _ \<Rightarrow> None),
     SetElement = (\<lambda>t i v s. case s ! t of DArray vs \<Rightarrow> if i = length vs then Some (s[t := DArray (vs @ [v])]) else None | _ \<Rightarrow> None)\<rparr>"

lemma demo_gives:
  assumes "demo_children v = {}" "\<And>s. P s (demo_view (s @ [v])) (length s)"
  shows "gives demo_heap (demo_new v) P"
proof -
  have "demo_children w \<subseteq> {..<Suc (length s)}" if "\<forall>w\<in>set s. demo_children w \<subseteq> {..<length s}" "w \<in> set s" for w s
    using that by fastforce
  with assms show ?thesis
    by (auto simp: gives_def keeps_def demo_heap_def reading_def demo_view_def nth_append fun_eq_iff simp del: lessThan_iff)
qed

lemma demo_keeps_update:
  assumes "js_valid demo_heap s" "demo_children v \<subseteq> {..<length s}"
  shows "keeps demo_heap ({..<length s} - {t}) s (s[t := v])"
proof -
  have "set (s[t := v]) \<subseteq> insert v (set s)" by (rule set_update_subset_insert)
  with assms show ?thesis
    by (auto simp: keeps_def demo_heap_def reading_def demo_view_def subset_iff)
qed

lemma map_of_value: "map_of ps n = Some p \<Longrightarrow> p \<in> snd ` set ps"
  by (force dest: map_of_SomeD)

lemma update_values: "snd ` set (AList.update n v ps) \<subseteq> insert v (snd ` set ps)"
  by (induction ps) auto

lemma demo_heap_ok: "heap_ok demo_heap"
proof -
  have "p < length s" if "\<forall>v\<in>set s. demo_children v \<subseteq> {..<length s}" "t < length s" "child (demo_view s) t p" for s t p
  proof -
    have "p \<in> demo_children (s ! t)"
      using that(3) by (cases "s ! t") (auto simp: child_def plain_object_def plain_array_def demo_view_def
          dest: map_of_value split: if_splits)
    with that(1,2) show ?thesis using nth_mem by blast
  qed
  moreover have "equal_tokens (demo_view s)" for s by (simp add: equal_tokens_def demo_view_def)
  ultimately show ?thesis by (auto simp: heap_ok_def finite_graph_def demo_heap_def)
qed

lemma demo_primitives_ok: "primitives_ok demo_engine demo_heap"
  by (simp add: primitives_ok_def demo_engine_def demo_gives demo_view_def)

lemma demo_objects_ok: "objects_ok demo_engine demo_heap"
  unfolding objects_ok_def
proof (intro conjI allI impI)
  show "gives demo_heap (NewObject demo_engine) (\<lambda>s R t. t \<notin> js_alive demo_heap s \<and> plain_object R t \<and> GetPropertyNames R t = Some [])"
    by (simp add: demo_engine_def) (rule demo_gives, simp_all add: demo_heap_def demo_view_def plain_object_def)
next
  fix t n v s s' ns
  assume a: "js_valid demo_heap s" "t \<in> js_alive demo_heap s" "v \<in> js_alive demo_heap s"
    "GetPropertyNames (js_view demo_heap s) t = Some ns" "distinct ns" "SetProperty demo_engine t n v s = Some s'"
  then obtain ps where ps: "s ! t = DObject ps" "ns = map fst ps" "s' = s[t := DObject (AList.update n v ps)]"
    by (auto simp: demo_engine_def demo_heap_def demo_view_def split: demo_node.splits)
  have t: "t < length s" using a(2) by (simp add: demo_heap_def)
  have "DObject ps \<in> set s" using nth_mem [OF t] ps(1) by simp
  with a(1) have "snd ` set ps \<subseteq> {..<length s}" unfolding demo_heap_def by fastforce
  then have "demo_children (DObject (AList.update n v ps)) \<subseteq> {..<length s}"
    using a(3) subset_trans [OF update_values [of n v ps]] by (simp add: demo_heap_def)
  from demo_keeps_update [OF a(1) this, of t] ps(3)
  show "keeps demo_heap (js_alive demo_heap s - {t}) s s'" by (simp add: demo_heap_def)
  show "plain_object (js_view demo_heap s') t" using t ps by (simp add: demo_heap_def demo_view_def plain_object_def)
  show "\<exists>ns'. GetPropertyNames (js_view demo_heap s') t = Some ns' \<and> distinct ns' \<and> set ns' = insert n (set ns)"
    using t ps a(5) by (simp add: demo_heap_def demo_view_def distinct_update dom_update)
  show "GetProperty (js_view demo_heap s') t = (GetProperty (js_view demo_heap s) t)(n \<mapsto> v)"
    using t ps by (simp add: demo_heap_def demo_view_def update_conv')
qed

lemma demo_arrays_ok: "arrays_ok demo_engine demo_heap"
  unfolding arrays_ok_def
proof (intro conjI allI impI)
  show "gives demo_heap (NewArray demo_engine) (\<lambda>s R t. t \<notin> js_alive demo_heap s \<and> plain_array R t \<and> GetLength R t = Some 0)"
    by (simp add: demo_engine_def) (rule demo_gives, simp_all add: demo_heap_def demo_view_def plain_array_def)
next
  fix t n v s s'
  assume a: "js_valid demo_heap s" "t \<in> js_alive demo_heap s" "v \<in> js_alive demo_heap s"
    "GetLength (js_view demo_heap s) t = Some n" "SetElement demo_engine t n v s = Some s'"
  then obtain vs where vs: "s ! t = DArray vs" "n = length vs" "s' = s[t := DArray (vs @ [v])]"
    by (auto simp: demo_engine_def demo_heap_def demo_view_def split: demo_node.splits)
  have t: "t < length s" using a(2) by (simp add: demo_heap_def)
  have "DArray vs \<in> set s" using nth_mem [OF t] vs(1) by simp
  with a(1,3) have "demo_children (DArray (vs @ [v])) \<subseteq> {..<length s}" unfolding demo_heap_def by fastforce
  from demo_keeps_update [OF a(1) this, of t] vs(3)
  show "keeps demo_heap (js_alive demo_heap s - {t}) s s'" by (simp add: demo_heap_def)
  show "plain_array (js_view demo_heap s') t" using t vs by (simp add: demo_heap_def demo_view_def plain_array_def)
  show "GetLength (js_view demo_heap s') t = Some (Suc n)" using t vs by (simp add: demo_heap_def demo_view_def)
  show "GetElement (js_view demo_heap s') t = (GetElement (js_view demo_heap s) t)(n \<mapsto> v)"
    using t vs by (auto simp: demo_heap_def demo_view_def nth_append fun_eq_iff)
qed

abbreviation demo_copy :: "demo_node list" where
  "demo_copy \<equiv> [DArray [1, 4], DObject [([97], 2), ([98], 3)], DNull, DString [120], DObject [([97], 5), ([98], 6)], DNull, DString [120]]"


end
