(* ===== verification/Spec2Isabelle.thy ===== *)
theory Spec2Isabelle
  imports IpcQueue Threads TimedCalls ThreadLocals LinkedPtr RefPtr MessageService HttpHeaders ByteStores SecurityOrigins AtomicLists WindowQueues Win32Sync PermissionsDb JsMarshal
begin

text \<open>
  A verification of the threading and inter-process communication library under
  \<open>src/common\<close>: threads exchange messages through queues, processes through circular buffers in
  shared memory, and a message service notifies observers in both. This header says which theory
  models which sources, what is shown, and what is left out.

  \<^bold>\<open>The parts and how they interact.\<close> \<open>ipc_message_queue_win32.cc\<close> lets processes find each
  other in a registry in shared memory and send each other messages: a message is serialized
  (\<open>serialization.cc\<close>), cut into packets, written to the circular buffer
  (\<open>circular_buffer.h\<close>) of the receiving process, put together and deserialized there.
  Inside a process, \<open>message_queue_android.cc\<close> has one queue per thread, guarded by the
  \<open>Mutex\<close> and signalled by the \<open>Event\<close> of \<open>mutex.cc\<close>, \<open>mutex_posix.cc\<close> and \<open>event.cc\<close>;
  \<open>thread.cc\<close> starts threads with such a queue and \<open>async_router.cc\<close> runs functors on them.
  \<open>message_service.cc\<close> is on top of both kinds of queues. \<open>thread_locals.cc\<close>,
  \<open>linked_ptr.h\<close> and \<open>scoped_refptr.h\<close> manage the lifetime of the objects involved,
  \<open>string_utils.cc\<close> and \<open>convert_utf\<close> their strings.

  \<^bold>\<open>The theories.\<close>

  \<^item> \<open>Prelude\<close>: machine types, runs that abort, memory blocks with bounds-checked copies, and
    the list and option lemmas of the components.
  \<^item> \<open>ByteFifo\<close>: the locale \<open>byte_fifo\<close>, a bounded byte queue as the packet layer uses it.
    \<open>CircularBuffer\<close> (\<open>circular_buffer.h\<close>) models every method of the class over a memory
    block and interprets the locale. C16, C17: writes append and reads remove exactly what fits or
    is there, no assertion fails, no access leaves the block.
  \<^item> \<open>IpcRegistry\<close> (class \<open>IpcProcessRegistry\<close>): the shared array of process ids, with the
    single stores of \<open>Remove\<close>. \<open>registry_add_registers\<close>: what \<open>Add\<close> does on every branch;
    C10: a crash inside \<open>Remove\<close> is repaired; \<open>registry_get_all_coherent\<close>: a cached copy of the
    array is refreshed when it has to be.
  \<^item> \<open>Utf\<close> (\<open>ConvertUTF.c\<close>): both directions between UTF-16 and UTF-8. C31: round
    trip; lemma \<open>String16ToUTF8_rejects\<close>: unpaired surrogates.
  \<^item> \<open>Serialization\<close> (\<open>serialization.cc\<close>, \<open>serialization.h\<close>): \<open>Serializer\<close> and
    \<open>Deserializer\<close> with 64-bit positions. The locale \<open>serializable_class\<close> states what a class
    has to promise, and is interpreted on \<open>SerializableString16\<close>. \<open>serialize_fields_round_trip\<close>,
    C30: round trips; C39: bounds; further theorems on rewinding
    after a failure and on sizes that are trusted although they come from the data.
  \<^item> \<open>IpcTransport\<close> (classes \<open>IpcBuffer\<close>, \<open>OutboundQueue\<close>, \<open>InboundQueue\<close>) has the
    operations, with the memory image of a packet; \<open>IpcDelivery\<close> has their joint behaviour as a
    step relation of a sender and a receiver, with lemmas on any \<open>serializable_class\<close>.
    C1: delivery in order and at most once; C2: complete when both sides
    are idle; C7: no infinite schedule; C32: recovery from writers that die.
  \<^item> \<open>IpcQueue\<close> (class \<open>Win32IpcMessageQueue\<close>): the queues of one process and its message
    loop. C11: every accepted message is accounted for.
  \<^item> \<open>Sync\<close> (\<open>mutex.cc\<close>, \<open>mutex_posix.cc\<close>, \<open>event.cc\<close>, \<open>stopwatch.cc\<close>): threads
    interleaved at every use of a mutex. C3 refines \<open>Event\<close> to an atomic flag,
    C8 shows that no wake-up is lost.
  \<^item> \<open>Win32Sync\<close> (\<open>mutex_win32.cc\<close>): the condition variable of Win32, made of events with a reference
    count, and the \<open>Baton\<close> of processes. C9: a signalled thread cannot miss its wake-up;
    \<open>condvar_win32_safe\<close>: no event is used after its handle is closed; C33, \<open>baton_exclusive\<close>: one
    thread at a time, and no job twice.
  \<^item> \<open>MessageQueue\<close> (\<open>message_queue.cc\<close>, \<open>message_queue_android.cc\<close>): the threads' queues
    as a step relation, over the flag of C3. C4: first in first out,
    exactly one fate for every message; C29: what a blocked loop has handled; further
    theorems on a batch with an exit message, the calls that abort and the use of a deleted queue by
    a second \<open>Stop\<close>.
  \<^item> \<open>WindowQueues\<close> (\<open>message_queue_win32.cc\<close>): the same queues over the windows of Win32.
    C24: a window with events always has a window message under way, and every accepted
    message is accounted for; \<open>window_queue_fifo\<close>: the order; \<open>window_queue_post_failure\<close>: what one
    failed \<open>PostMessage\<close> does.
  \<^item> \<open>AtomicLists\<close> (\<open>atomic_list.h\<close>, \<open>LazySingleton\<close> of \<open>atomic_ops.h\<close>): threads interleaved at every
    access to memory. C23: the list holds exactly the values that were put;
    \<open>atomic_list_reader_sees\<close>, \<open>atomic_list_put_finishes\<close>: readers and writers do not wait for each other;
    \<open>atomic_list_dismiss_keeps\<close>: \<open>dismiss\<close> has no effect; \<open>lazy_singleton_one_instance\<close>.
  \<^item> \<open>Threads\<close> (\<open>thread.cc\<close>, \<open>thread_posix.cc\<close>, \<open>async_router.cc\<close>):
    \<open>thread_started_accepts_messages\<close> the start protocol, \<open>router_runs_in_order\<close> the order of routed calls, and a
    theorem on a synchronous call that never returns.
  \<^item> \<open>TimedCalls\<close> (\<open>timed_call.cc\<close>): the ordered queue of timers of a thread, over the timer of the
    platform. C21: when it goes off, the due calls run once each in the order of their times, and
    the queue is armed for the next one; further lemmas show a callback that deletes a timer which is
    due in the same round, and timers of the platform that are never freed.
  \<^item> \<open>ThreadLocals\<close> (\<open>thread_locals.cc\<close>, \<open>thread_exit.cc\<close>): C18
    every value is destroyed exactly once.
  \<^item> \<open>SharedOwner\<close>: the locale \<open>shared_owner\<close> of pointers that share an object;
    \<open>LinkedPtr\<close> (\<open>linked_ptr.h\<close>, a circle of pointers in memory) and \<open>RefPtr\<close>
    (\<open>scoped_refptr.h\<close>, a count in the object) interpret it. C19: the object is
    deleted once, when the last pointer goes; assignment and self-assignment.
  \<^item> \<open>MessageService\<close> (\<open>message_service.cc\<close>): C12 refines the nested
    tables to a set of registrations, C27 says which observers a notification
    calls, and a theorem to which threads it is posted.
  \<^item> \<open>StringUtils\<close> (\<open>string_utils.h\<close>, \<open>string_utils.cc\<close>): search, prefixes, replacement,
    tokens, wildcards, path components, hexadecimal digits and integers, each with a reference
    definition and the lemma that the code computes it. C36: the search functions.
    \<open>IntStrings\<close> (\<open>string16.cc\<close>): integers printed backwards into a buffer of 22 units, with
    overflow as failure; \<open>integer_to_string_round_trip\<close>: \<open>ParseLeadingInteger\<close> reads back what they print.
  \<^item> \<open>UrlUtils\<close> (\<open>url_utils.cc\<close>, \<open>base64.cc\<close>) and \<open>SecurityOrigins\<close> (\<open>security_model.cc\<close>):
    escaping (C34), data URLs, paths as URLs (\<open>utf8_path_to_url_semicolons\<close>), queries; origins as
    they are parsed (C38) and the list of authorised ones (C25).
  \<^item> \<open>HttpHeaders\<close> (\<open>http_utils.cc\<close>): the header table, its parser and its printer.
    C35 and \<open>set_header_lookup\<close> describe the parser and \<open>SetHeader\<close>,
    C20 is their round trip, \<open>generate_header_string_consumes\<close> what printing does to the table.
  \<^item> \<open>MemoryBuffers\<close> (\<open>memory_buffer.h\<close>, \<open>memory_buffer.cc\<close>) and \<open>ByteStores\<close>
    (\<open>byte_store.cc\<close>, and of \<open>file_posix.cc\<close> the members it calls): a store of bytes in memory that
    moves to a temporary file when it grows. C5 refines its operations to a list of bytes,
    C26 and \<open>async_write_loses_data\<close> are about a disk that fails, \<open>add_data_direct_appends\<close> about writers,
    \<open>blob_reads_snapshot\<close> about blobs.

  \<^item> \<open>Transactions\<close> (\<open>sqlite_wrapper.cc\<close>), \<open>SqlTables\<close> (\<open>name_value_table.cc\<close>,
    \<open>database_name_table.cc\<close>, \<open>shortcut_table.cc\<close>) and \<open>PermissionsDb\<close> (\<open>permissions_db.cc\<close>,
    \<open>permissions_manager.cc\<close>): databases over SQLite, which is a parameter. C6: counted
    transactions are all or nothing; \<open>nests\<close> collects the functions that may run inside one.
    C13 and C28 apply this to the creation of the schema and to the permissions
    of workers; C37: no two databases share a file; C40: an upgrade that
    cannot work; \<open>has_permission_sticky\<close>.

  \<^item> \<open>JsMarshal\<close> (\<open>js_marshal.cc\<close>): values of JavaScript that are copied from one engine to another; the engines
    are parameters. C15: the copy is the unfolding of the graph; C22, \<open>marshal_rejects_cycles\<close>:
    also cyclic graphs are handled; C14: the round trip.

  \<^bold>\<open>How programs are modelled.\<close> A class is a record, a method a function from the record to
  its result and the new record. A failed \<open>assert\<close>, an access outside a memory block and the
  use of a deleted object have no result (\<open>None\<close>); an error code is a value. Integers have their
  width where the width matters (\<open>8 word\<close>, \<open>32 word\<close>, \<open>64 word\<close>) and are \<open>nat\<close> or \<open>int\<close>
  where a lemma shows that nothing wraps. Threads and processes are interleaved by step relations;
  a step is what runs between two uses of a mutex or of another kernel object. The answers of the
  operating system (a process is alive, an object could be created, the time) are arguments, and the
  theorems hold for all of them. Virtual methods and callbacks are functions passed as arguments.

  \<^bold>\<open>Fuel and termination.\<close> Most loops are structural or have a measure. The loops that may run
  forever (\<open>Await\<close>, the walks around the circle of a \<open>linked_ptr\<close>, \<open>ReplaceAll\<close>, the handlers
  of the IPC queue, the loops of \<open>ParseUrlQuery\<close> and \<open>UTF8PathToUrl\<close>) are partial functions, for
  which returning is a theorem: \<open>AwaitWithTimeout_returns\<close>, C19,
  \<open>ReplaceAll_correct\<close>, \<open>ipc_handlers_return\<close>, \<open>parse_query_loop_ends\<close> and
  \<open>utf8_path_to_url_semicolons\<close>. The message loops are step relations;
  C7 and C8 bound their runs. Only \<open>marshal\<close> has a bound on the depth of its
  calls; C22 shows that one more than the number of tokens is enough.

  \<^bold>\<open>Not modelled.\<close> Code that is glue to a browser, an operating system or another library has no
  logic of its own to verify: the JavaScript runners and their types (\<open>js_runner_*\<close>,
  \<open>js_types\<close>, \<open>js_dom_element\<close>), the event monitors, MIME types, which the platforms detect, the access to files and
  their paths on each platform, the exception handlers, the installers' and desktop utilities. SQLite, the window messages
  and kernel objects of Win32, the file streams of C and the timers of the platforms are parameters of the theories above. The
  Firefox, Safari and Chrome variants of the message queue forward to the browser, and the thread and the clock of
  Win32 reimplement what is modelled from the POSIX build. The \<open>dispatcher\<close> templates bind methods to
  names at compile time. The tests and the driver \<open>main.cc\<close> only call the library.
\<close>

end
